(* ===== verification/Prelude.thy ===== *)
theory Prelude
  imports Main "HOL-Library.AList" "HOL-Library.Word"
begin

text \<open>
  What every component shares: instants and durations, the two ways the program
  keeps a table (a Rust \<open>HashMap\<close> and an SQL table), the hint collections of the
  development, and the two table interfaces (\<open>ttl_table\<close> and \<open>id_table\<close>) that the
  components interpret on their own rows.

  An \<open>instant\<close> is an integer count of nanoseconds: both \<open>std::time::Instant\<close> and
  \<open>chrono::DateTime<Utc>\<close> have that resolution. The representable range of either
  type (centuries) is not modelled.
\<close>

named_theorems step_defs \<open>definitions of the operations of a component\<close>
named_theorems inv_defs \<open>definitions of the well-formedness invariants\<close>

section \<open>Time\<close>

type_synonym instant = int
type_synonym duration = int

definition secs :: "int \<Rightarrow> duration" where
  "secs n = n * 1000000000"

definition hours :: "int \<Rightarrow> duration" where
  "hours n = secs (n * 3600)"

definition days :: "int \<Rightarrow> duration" where
  "days n = secs (n * 86400)"

text \<open>\<open>Instant::saturating_duration_since\<close>: never negative.\<close>

definition since :: "instant \<Rightarrow> instant \<Rightarrow> duration" where
  "since now t = max 0 (now - t)"

lemma secs_mono [simp]: "(secs a \<le> secs b) = (a \<le> b)" "(secs a < secs b) = (a < b)"
  by (simp_all add: secs_def)

lemma since_mono: "now \<le> now' \<Longrightarrow> since now t \<le> since now' t"
  by (simp add: since_def)

lemma since_nonneg [simp]: "0 \<le> since now t"
  by (simp add: since_def)

lemma since_self [simp]: "since t t = 0"
  by (simp add: since_def)

section \<open>Addresses\<close>

text \<open>\<open>std::net::IpAddr\<close>.\<close>

datatype ip_addr = V4 "32 word" | V6 "128 word"

section \<open>Hash maps\<close>

text \<open>
  A \<open>HashMap\<close> is an association list with distinct keys. Its iteration order is
  never observable in the code modelled here (it is only counted, filtered and looked
  up), so the list order carries no meaning.
\<close>

type_synonym ('k, 'v) table = "('k \<times> 'v) list"

definition wf_table :: "('k, 'v) table \<Rightarrow> bool" where
  "wf_table t \<longleftrightarrow> distinct (map fst t)"

text \<open>\<open>HashMap::retain\<close>, on the values.\<close>

definition retain :: "('v \<Rightarrow> bool) \<Rightarrow> ('k, 'v) table \<Rightarrow> ('k, 'v) table" where
  "retain p t = filter (\<lambda>(_, v). p v) t"

text \<open>How many values satisfy a predicate.\<close>

definition count_vals :: "('v \<Rightarrow> bool) \<Rightarrow> ('k, 'v) table \<Rightarrow> nat" where
  "count_vals p t = length (retain p t)"

lemma wf_table_Nil [simp]: "wf_table []"
  by (simp add: wf_table_def)

lemma wf_table_update [simp]: "wf_table t \<Longrightarrow> wf_table (AList.update k v t)"
  by (simp add: wf_table_def distinct_update)

lemma wf_table_delete [simp]: "wf_table t \<Longrightarrow> wf_table (AList.delete k t)"
  by (simp add: wf_table_def distinct_delete)

lemma wf_table_filter: "wf_table t \<Longrightarrow> wf_table (filter p t)"
  unfolding wf_table_def by (induction t) auto

lemma wf_table_retain [simp]: "wf_table t \<Longrightarrow> wf_table (retain p t)"
  by (simp add: retain_def wf_table_filter)

lemma retain_retain: "retain p (retain q t) = retain (\<lambda>v. p v \<and> q v) t"
  unfolding retain_def filter_filter by (rule filter_cong) auto

lemma retain_id: "(\<And>k v. (k, v) \<in> set t \<Longrightarrow> p v) \<Longrightarrow> retain p t = t"
  unfolding retain_def by (induction t) auto

lemma length_retain_le [simp]: "length (retain p t) \<le> length t"
  by (simp add: retain_def)

lemma set_retain: "set (retain p t) = {(k, v) \<in> set t. p v}"
  by (auto simp: retain_def)

lemma map_of_retain:
  "wf_table t \<Longrightarrow> map_of (retain p t) k = (case map_of t k of Some v \<Rightarrow> if p v then Some v else None | None \<Rightarrow> None)"
proof (induction t)
  case Nil
  then show ?case by (simp add: retain_def)
next
  case (Cons kv t)
  obtain k' v' where kv: "kv = (k', v')" by (cases kv)
  from Cons.prems kv have wf: "wf_table t" and fresh: "k' \<notin> fst ` set t"
    by (simp_all add: wf_table_def)
  from fresh have "map_of t k' = None" by (simp add: map_of_eq_None_iff)
  with Cons.IH [OF wf] kv show ?case by (auto simp: retain_def)
qed

lemma length_update:
  "length (AList.update k v t) = (if k \<in> fst ` set t then length t else Suc (length t))"
  by (induction t) auto

lemma length_delete_le: "length (AList.delete k t) \<le> length t"
  by (simp add: AList.delete_eq)

lemma count_vals_update_new:
  "k \<notin> fst ` set t \<Longrightarrow> count_vals p (AList.update k v t) = count_vals p t + (if p v then 1 else 0)"
  unfolding count_vals_def retain_def by (induction t) auto

lemma count_vals_update_le:
  "count_vals p (AList.update k v t) \<le> count_vals p t + (if p v then 1 else 0)"
  unfolding count_vals_def retain_def by (induction t) auto

lemma count_vals_le: "count_vals p t \<le> length t"
  by (simp add: count_vals_def)

lemma count_vals_delete_le: "count_vals p (AList.delete k t) \<le> count_vals p t"
  unfolding count_vals_def retain_def by (induction t) auto

lemma count_vals_retain_le: "count_vals p (retain q t) \<le> count_vals p t"
  unfolding count_vals_def retain_def by (induction t) auto

lemma map_of_None_fresh: "map_of t k = None \<longleftrightarrow> k \<notin> fst ` set t"
  by (rule map_of_eq_None_iff)

lemma map_of_update: "map_of (AList.update k v t) k' = (if k' = k then Some v else map_of t k')"
  by (simp add: update_conv')

lemma map_of_delete: "map_of (AList.delete k t) k' = (if k' = k then None else map_of t k')"
  by (simp add: delete_conv')

lemma length_update_present: "map_of t k = Some v \<Longrightarrow> length (AList.update k w t) = length t"
  by (metis length_update map_of_None_fresh option.distinct(1))

lemma wf_length: "wf_table t \<Longrightarrow> length t = card (set t)"
  unfolding wf_table_def by (metis distinct_card distinct_map)

lemma wf_same_length: "wf_table a \<Longrightarrow> wf_table b \<Longrightarrow> set a = set b \<Longrightarrow> length a = length b"
  by (simp add: wf_length)

lemma map_of_wf_set: "wf_table a \<Longrightarrow> wf_table b \<Longrightarrow> map_of a = map_of b \<longleftrightarrow> set a = set b"
  unfolding wf_table_def by (rule map_of_inject_set)

subsection \<open>Tables whose entries expire\<close>

text \<open>
  The contract of every table swept on a clock: an entry, once expired, stays expired.
  A sweep then removes exactly the expired entries, sweeping twice is sweeping once at
  the later time, and a lookup of a live entry is untouched by any earlier sweep.
\<close>

locale ttl_table =
  fixes expired :: "'v \<Rightarrow> instant \<Rightarrow> bool"
  assumes expired_mono: "expired v t \<Longrightarrow> t \<le> t' \<Longrightarrow> expired v t'"
begin

definition live :: "instant \<Rightarrow> ('k, 'v) table \<Rightarrow> ('k, 'v) table" where
  "live now t = retain (\<lambda>v. \<not> expired v now) t"

lemma live_live: "t \<le> t' \<Longrightarrow> live t' (live t m) = live t' m"
  unfolding live_def retain_retain using expired_mono by (metis (no_types, lifting))

lemma live_lookup:
  "wf_table m \<Longrightarrow> map_of m k = Some v \<Longrightarrow> \<not> expired v now \<Longrightarrow> map_of (live now m) k = Some v"
  by (simp add: live_def map_of_retain)

lemma live_lookup_Some:
  "wf_table m \<Longrightarrow> map_of (live now m) k = Some v \<longleftrightarrow> map_of m k = Some v \<and> \<not> expired v now"
  by (auto simp: live_def map_of_retain split: option.splits if_splits)

lemma live_all: "(k, v) \<in> set (live now m) \<Longrightarrow> \<not> expired v now"
  by (auto simp: live_def set_retain)

lemma wf_live [simp]: "wf_table m \<Longrightarrow> wf_table (live now m)"
  by (simp add: live_def)

lemma length_live_le [simp]: "length (live now m) \<le> length m"
  by (simp add: live_def)

text \<open>What a key shows at a time: its entry, unless that has expired.\<close>

definition visible :: "instant \<Rightarrow> ('k, 'v) table \<Rightarrow> 'k \<Rightarrow> 'v option" where
  "visible now m k = map_of (live now m) k"

lemma visible_eq:
  "wf_table m \<Longrightarrow> visible now m k =
     (case map_of m k of Some v \<Rightarrow> if expired v now then None else Some v | None \<Rightarrow> None)"
  by (auto simp: visible_def live_def map_of_retain split: option.split)

lemma visible_Some:
  "wf_table m \<Longrightarrow> visible now m k = Some v \<longleftrightarrow> map_of m k = Some v \<and> \<not> expired v now"
  by (auto simp: visible_eq split: option.splits if_splits)

lemma visible_update:
  "wf_table m \<Longrightarrow> visible now (AList.update k v m) =
     (visible now m)(k := if expired v now then None else Some v)"
  by (rule ext) (simp add: visible_eq map_of_update)

lemma visible_delete: "wf_table m \<Longrightarrow> visible now (AList.delete k m) = (visible now m)(k := None)"
  by (rule ext) (simp add: visible_eq map_of_delete)

lemma visible_live: "t \<le> t' \<Longrightarrow> visible t' (live t m) = visible t' m"
  by (rule ext) (simp add: visible_def live_live)

text \<open>Two tables that show the same at a time, and hence at every later time.\<close>

definition same_live :: "instant \<Rightarrow> ('k, 'v) table \<Rightarrow> ('k, 'v) table \<Rightarrow> bool" where
  "same_live t a b \<longleftrightarrow> wf_table a \<and> wf_table b \<and> visible t a = visible t b"

lemma same_live_refl [simp]: "same_live t a a \<longleftrightarrow> wf_table a"
  by (auto simp: same_live_def)

lemma same_live_visible: "same_live t a b \<Longrightarrow> visible t a k = visible t b k"
  by (simp add: same_live_def)

lemma same_live_set: "same_live t a b \<Longrightarrow> set (live t a) = set (live t b)"
  unfolding same_live_def visible_def by (metis ext map_of_wf_set wf_live)

lemma same_live_count:
  "same_live t a b \<Longrightarrow> count_vals p (live t a) = count_vals p (live t b)"
  using same_live_set [of t a b] unfolding count_vals_def
  by (intro wf_same_length) (auto simp: set_retain same_live_def)

lemma same_live_length: "same_live t a b \<Longrightarrow> length (live t a) = length (live t b)"
  using same_live_set [of t a b] by (intro wf_same_length) (auto simp: same_live_def)

lemma visible_later:
  "wf_table m \<Longrightarrow> t \<le> t' \<Longrightarrow> visible t' m k =
     (case visible t m k of Some v \<Rightarrow> if expired v t' then None else Some v | None \<Rightarrow> None)"
  using expired_mono by (fastforce simp: visible_eq split: option.split)

lemma same_live_later: "same_live t a b \<Longrightarrow> t \<le> t' \<Longrightarrow> same_live t' a b"
  by (auto simp: same_live_def fun_eq_iff visible_later [of _ t t'])

lemma same_live_update: "same_live t a b \<Longrightarrow> same_live t (AList.update k v a) (AList.update k v b)"
  by (auto simp: same_live_def visible_update)

lemma same_live_delete: "same_live t a b \<Longrightarrow> same_live t (AList.delete k a) (AList.delete k b)"
  by (auto simp: same_live_def visible_delete)

lemma same_live_delete_expired:
  "same_live t a b \<Longrightarrow> visible t a k = None \<Longrightarrow> same_live t (AList.delete k a) b"
  by (auto simp: same_live_def visible_delete)

lemma same_live_live: "same_live t a b \<Longrightarrow> t' \<le> t \<Longrightarrow> same_live t (live t' a) b"
  by (auto simp: same_live_def visible_live)

lemma same_live_sym: "same_live t a b \<Longrightarrow> same_live t b a"
  by (auto simp: same_live_def)

lemma live_later_subset: "t \<le> t' \<Longrightarrow> set (live t' m) \<subseteq> set (live t m)"
  using expired_mono by (auto simp: live_def set_retain)

end

section \<open>SQL tables\<close>

text \<open>
  An SQL table is the list of its rows in insertion order. The three statements the
  code is made of: \<open>UPDATE ... WHERE\<close>, \<open>DELETE ... WHERE\<close>, and a count of the rows a
  predicate selects (what \<open>execute\<close> returns as the number of changed rows).
\<close>

definition update_where :: "('r \<Rightarrow> bool) \<Rightarrow> ('r \<Rightarrow> 'r) \<Rightarrow> 'r list \<Rightarrow> 'r list" where
  "update_where p f rs = map (\<lambda>r. if p r then f r else r) rs"

definition delete_where :: "('r \<Rightarrow> bool) \<Rightarrow> 'r list \<Rightarrow> 'r list" where
  "delete_where p rs = filter (\<lambda>r. \<not> p r) rs"

definition count_where :: "('r \<Rightarrow> bool) \<Rightarrow> 'r list \<Rightarrow> nat" where
  "count_where p rs = length (filter p rs)"

lemma length_update_where [simp]: "length (update_where p f rs) = length rs"
  by (simp add: update_where_def)

lemma set_update_where: "set (update_where p f rs) = (\<lambda>r. if p r then f r else r) ` set rs"
  by (simp add: update_where_def)

lemma in_update_where: "r \<in> set rs \<Longrightarrow> (if p r then f r else r) \<in> set (update_where p f rs)"
  by (simp add: set_update_where)

lemma update_whereE:
  assumes "y \<in> set (update_where p f rs)"
  obtains x where "x \<in> set rs" "y = (if p x then f x else x)"
  using assms unfolding set_update_where by blast

lemma distinct_map_eq: "distinct (map k rs) \<Longrightarrow> a \<in> set rs \<Longrightarrow> b \<in> set rs \<Longrightarrow> k a = k b \<Longrightarrow> a = b"
  by (metis distinct_map inj_onD)

lemma set_delete_where: "set (delete_where p rs) = {r \<in> set rs. \<not> p r}"
  by (auto simp: delete_where_def)

lemma count_where_append [simp]: "count_where p (xs @ ys) = count_where p xs + count_where p ys"
  by (simp add: count_where_def)

lemma count_where_Nil [simp]: "count_where p [] = 0"
  by (simp add: count_where_def)

lemma count_where_Cons [simp]: "count_where p (x # xs) = (if p x then 1 else 0) + count_where p xs"
  by (simp add: count_where_def)

lemma count_where_le [simp]: "count_where p rs \<le> length rs"
  by (simp add: count_where_def)

lemma count_where_0: "count_where p rs = 0 \<longleftrightarrow> (\<forall>r \<in> set rs. \<not> p r)"
  by (induction rs) auto

lemma count_where_mono: "(\<And>r. r \<in> set rs \<Longrightarrow> p r \<Longrightarrow> q r) \<Longrightarrow> count_where p rs \<le> count_where q rs"
proof (induction rs)
  case Nil
  then show ?case by simp
next
  case (Cons r rs)
  from Cons.prems have "count_where p rs \<le> count_where q rs"
    by (intro Cons.IH) simp
  moreover have "p r \<longrightarrow> q r" using Cons.prems by simp
  ultimately show ?case by auto
qed

lemma count_where_update:
  "(\<And>r. r \<in> set rs \<Longrightarrow> p r \<Longrightarrow> q (f r) = q r) \<Longrightarrow> count_where q (update_where p f rs) = count_where q rs"
  unfolding update_where_def by (induction rs) auto

lemma count_where_delete:
  "count_where q (delete_where p rs) = count_where (\<lambda>r. q r \<and> \<not> p r) rs"
  unfolding delete_where_def by (induction rs) auto

lemma update_where_none: "count_where p rs = 0 \<Longrightarrow> update_where p f rs = rs"
  unfolding update_where_def by (induction rs) auto

lemma delete_where_none: "count_where p rs = 0 \<Longrightarrow> delete_where p rs = rs"
  unfolding delete_where_def by (induction rs) auto

text \<open>\<open>INTEGER PRIMARY KEY\<close>: one more than the largest id there is, so the id of a
  deleted last row is given out again.\<close>

definition fresh_id :: "int list \<Rightarrow> int" where
  "fresh_id is = fold max is 0 + 1"

lemma fresh_id_new: "i \<in> set is \<Longrightarrow> i < fresh_id is"
  using Max_ge [of "set (0 # is)" i] by (simp only: fresh_id_def Max.set_eq_fold [symmetric]) simp

subsection \<open>Tables with an identity column\<close>

text \<open>
  The contract of a table with a generated primary key: \<open>mk i a\<close>, the row an \<open>INSERT\<close> of
  the values \<open>a\<close> stores under the generated id \<open>i\<close>, carries that id. A table is well formed when its ids are distinct and below the counter the
  next insert will use, which is how \<open>AUTOINCREMENT\<close> and \<open>GENERATED ALWAYS AS IDENTITY\<close>
  hand ids out. Every statement that leaves the id column alone keeps that.
\<close>

locale id_table =
  fixes row_id :: "'r \<Rightarrow> int"
    and mk :: "int \<Rightarrow> 'a \<Rightarrow> 'r"
  assumes row_id_mk [simp]: "row_id (mk i a) = i"
begin

definition wf :: "int \<Rightarrow> 'r list \<Rightarrow> bool" where
  "wf nxt rs \<longleftrightarrow> distinct (map row_id rs) \<and> (\<forall>r \<in> set rs. row_id r < nxt)"

lemma wf_Nil [simp]: "wf nxt []"
  by (simp add: wf_def)

lemma wf_insert: "wf nxt rs \<Longrightarrow> wf (nxt + 1) (rs @ [mk nxt a])"
  by (auto simp: wf_def)

lemma wf_update: "wf nxt rs \<Longrightarrow> (\<And>r. row_id (f r) = row_id r) \<Longrightarrow> wf nxt (update_where p f rs)"
proof -
  assume a: "wf nxt rs" "\<And>r. row_id (f r) = row_id r"
  then have "map row_id (update_where p f rs) = map row_id rs"
    by (simp add: update_where_def)
  with a show ?thesis by (auto simp: wf_def set_update_where)
qed

lemma wf_delete: "wf nxt rs \<Longrightarrow> wf nxt (delete_where p rs)"
  by (auto simp: wf_def delete_where_def distinct_map_filter)

lemma wf_weaken: "wf nxt rs \<Longrightarrow> nxt \<le> nxt' \<Longrightarrow> wf nxt' rs"
  by (force simp: wf_def)

lemma wf_unique: "wf nxt rs \<Longrightarrow> a \<in> set rs \<Longrightarrow> b \<in> set rs \<Longrightarrow> row_id a = row_id b \<Longrightarrow> a = b"
  by (auto simp: wf_def distinct_map dest: inj_onD)

lemma wf_sorted_new: "wf nxt rs \<Longrightarrow> r \<in> set rs \<Longrightarrow> row_id r \<noteq> nxt"
  by (auto simp: wf_def)

text \<open>A predicate that pins the id selects at most one row, and exactly the row found.\<close>

lemma count_id_le_1:
  assumes "wf nxt rs"
  shows "count_where (\<lambda>r. row_id r = i \<and> p r) rs \<le> 1"
proof -
  have "distinct (map row_id rs) \<Longrightarrow> count_where (\<lambda>r. row_id r = i) rs \<le> 1"
  proof (induction rs)
    case Nil
    then show ?case by simp
  next
    case (Cons r rs)
    then have "row_id r = i \<Longrightarrow> count_where (\<lambda>r. row_id r = i) rs = 0"
      by (force simp: count_where_0 image_iff)
    with Cons show ?case by auto
  qed
  with assms have "count_where (\<lambda>r. row_id r = i) rs \<le> 1" by (simp add: wf_def)
  then show ?thesis
    using count_where_mono [of rs "\<lambda>r. row_id r = i \<and> p r" "\<lambda>r. row_id r = i"] by linarith
qed

lemma count_id_1:
  assumes "wf nxt rs" "r \<in> set rs" "row_id r = i" "p r"
  shows "count_where (\<lambda>r. row_id r = i \<and> p r) rs = 1"
proof -
  have "count_where (\<lambda>r. row_id r = i \<and> p r) rs \<noteq> 0"
    using assms by (auto simp: count_where_0)
  with count_id_le_1 [OF assms(1), of i p] show ?thesis by linarith
qed

lemma count_id_1D:
  assumes "wf nxt rs" "count_where (\<lambda>r. row_id r = i \<and> p r) rs = 1"
  shows "\<exists>r \<in> set rs. row_id r = i \<and> p r"
  using assms count_where_0 [of "\<lambda>r. row_id r = i \<and> p r" rs] by auto

end

text \<open>Statements that change or drop rows one by one, as one pass over the table.\<close>

lemma update_where_map_filter: "update_where p f rs = List.map_filter (\<lambda>r. Some (if p r then f r else r)) rs"
  by (simp add: update_where_def List.map_filter_def o_def)

lemma delete_where_map_filter: "delete_where p rs = List.map_filter (\<lambda>r. if p r then None else Some r) rs"
  unfolding delete_where_def by (induction rs) (auto simp: List.map_filter_simps)

lemma map_filter_map_filter:
  "List.map_filter g (List.map_filter f rs) = List.map_filter (\<lambda>r. Option.bind (f r) g) rs"
  by (induction rs) (auto simp: List.map_filter_simps split: option.split)

lemma map_filter_cong_set: "(\<And>r. r \<in> set rs \<Longrightarrow> f r = g r) \<Longrightarrow> List.map_filter f rs = List.map_filter g rs"
  by (induction rs) (auto simp: List.map_filter_simps split: option.split)

lemma map_filter_id: "(\<And>r. r \<in> set rs \<Longrightarrow> f r = Some r) \<Longrightarrow> List.map_filter f rs = rs"
  by (induction rs) (auto simp: List.map_filter_simps)

lemma in_map_filter: "y \<in> set (List.map_filter f rs) \<longleftrightarrow> (\<exists>r \<in> set rs. f r = Some y)"
  by (induction rs) (auto simp: List.map_filter_simps split: option.splits)

lemma distinct_map_map_filter:
  assumes "distinct (map k rs)" "\<And>r y. r \<in> set rs \<Longrightarrow> f r = Some y \<Longrightarrow> k y = k r"
  shows "distinct (map k (List.map_filter f rs))"
  using assms
proof (induction rs)
  case Nil
  then show ?case by (simp add: List.map_filter_simps)
next
  case (Cons r rs)
  then have "distinct (map k (List.map_filter f rs))" by simp
  moreover have "k y \<noteq> k r" if \<open>y \<in> set (List.map_filter f rs)\<close> for y
  proof -
    obtain q where q: "q \<in> set rs" "f q = Some y" using \<open>y \<in> _\<close> by (auto simp: in_map_filter)
    then have "k y = k q" using Cons.prems(2) by simp
    with q(1) Cons.prems(1) show ?thesis by (metis distinct.simps(2) image_eqI list.map(2) set_map)
  qed
  moreover have "f r = Some z \<Longrightarrow> k z = k r" for z using Cons.prems(2) by simp
  ultimately show ?case by (fastforce simp: List.map_filter_simps split: option.split)
qed

lemma count_where_update_le:
  "(\<And>r. r \<in> set rs \<Longrightarrow> p r \<Longrightarrow> q (f r) \<Longrightarrow> q r) \<Longrightarrow> count_where q (update_where p f rs) \<le> count_where q rs"
  unfolding update_where_def by (induction rs) auto

lemma count_where_update_less:
  assumes "r \<in> set rs" "p r" "q r" "\<And>r. r \<in> set rs \<Longrightarrow> p r \<Longrightarrow> \<not> q (f r)"
  shows "Suc (count_where q (update_where p f rs)) \<le> count_where q rs"
  using assms
proof (induction rs)
  case Nil
  then show ?case by simp
next
  case (Cons x rs)
  have le: "count_where q (update_where p f rs) \<le> count_where q rs"
    by (rule count_where_update_le) (use Cons.prems(4) in auto)
  show ?case
  proof (cases "x = r")
    case True
    with Cons.prems le show ?thesis by (simp add: update_where_def)
  next
    case False
    with Cons have "Suc (count_where q (update_where p f rs)) \<le> count_where q rs" by simp
    moreover have "q (if p x then f x else x) \<Longrightarrow> q x" using Cons.prems(4) by (auto split: if_splits)
    ultimately show ?thesis by (simp add: update_where_def)
  qed
qed

lemma count_where_map_filter_le:
  "(\<And>r y. r \<in> set rs \<Longrightarrow> f r = Some y \<Longrightarrow> q y \<Longrightarrow> q r) \<Longrightarrow> count_where q (List.map_filter f rs) \<le> count_where q rs"
proof (induction rs)
  case Nil
  then show ?case by (simp add: List.map_filter_simps)
next
  case (Cons r rs)
  then have "count_where q (List.map_filter f rs) \<le> count_where q rs" by simp
  moreover have "f r = Some y \<Longrightarrow> q y \<Longrightarrow> q r" for y using Cons.prems by simp
  ultimately show ?case by (cases "f r") (auto simp: List.map_filter_simps)
qed

lemma find_distinct:
  "distinct (map k rs) \<Longrightarrow> r \<in> set rs \<Longrightarrow> find (\<lambda>q. k q = k r) rs = Some r"
  by (induction rs) force+

lemma find_map_filter:
  assumes "distinct (map k rs)" "r \<in> set rs" "\<And>q y. q \<in> set rs \<Longrightarrow> f q = Some y \<Longrightarrow> k y = k q"
  shows "find (\<lambda>q. k q = k r) (List.map_filter f rs) = f r"
proof (cases "f r")
  case (Some y)
  then have "y \<in> set (List.map_filter f rs)" "k y = k r" using assms by (auto simp: in_map_filter)
  moreover have "distinct (map k (List.map_filter f rs))" by (rule distinct_map_map_filter [OF assms(1,3)])
  ultimately show ?thesis using find_distinct [of k "List.map_filter f rs" y] Some by simp
next
  case None
  have "k y \<noteq> k r" if y: "y \<in> set (List.map_filter f rs)" for y
  proof
    assume eq: "k y = k r"
    obtain q where q: "q \<in> set rs" "f q = Some y" using y by (auto simp: in_map_filter)
    with assms eq have "q = r" by (metis distinct_map inj_onD)
    with q None show False by simp
  qed
  with None show ?thesis by (simp add: find_None_iff)
qed

lemma find_Some_in: "find p rs = Some r \<Longrightarrow> r \<in> set rs \<and> p r"
  by (auto simp: find_Some_iff in_set_conv_nth)

section \<open>Early returns\<close>

text \<open>What a chain of guards that each return an error comes to when it succeeds.\<close>

lemma guard_Inr: "(if c then Inl e else r) = Inr x \<longleftrightarrow> \<not> c \<and> r = Inr x"
  by auto

lemma guard_Some: "(if c then None else r) = Some x \<longleftrightarrow> \<not> c \<and> r = Some x"
  by auto

lemma option_Inr: "(case p of None \<Rightarrow> Inl e | Some u \<Rightarrow> f u) = Inr x \<longleftrightarrow> (\<exists>u. p = Some u \<and> f u = Inr x)"
  by (cases p) auto

lemma option_Some: "(case p of None \<Rightarrow> None | Some u \<Rightarrow> f u) = Some x \<longleftrightarrow> (\<exists>u. p = Some u \<and> f u = Some x)"
  by (cases p) auto

lemma sum_Inr: "(case p of Inl e \<Rightarrow> Inl (g e) | Inr u \<Rightarrow> f u) = Inr x \<longleftrightarrow> (\<exists>u. p = Inr u \<and> f u = Inr x)"
  by (cases p) auto

lemmas early_return = guard_Inr guard_Some option_Inr option_Some sum_Inr

end
