(* ===== verification/Machine.thy ===== *)
theory Machine
  imports Prelude
begin

text \<open>
  How the components are put in motion. Each stateful component is a function
  \<open>step :: 'op \<Rightarrow> 's \<Rightarrow> 'out \<times> 's\<close>, one operation of the code per \<open>'op\<close>: every operation
  runs under one lock (a \<open>Mutex\<close>, a SQLite transaction, a single Postgres statement),
  so an execution, however many callers there are, is a sequence of such steps.
  \<open>run\<close> plays a sequence and records what each operation answered.

  Two contracts are stated once as locales and interpreted by the components:
  \<open>invariant_machine\<close> (every operation keeps the component's invariant) and \<open>one_shot\<close>
  (a credential is redeemed at most as often as it was issued).
\<close>

fun run :: "('op \<Rightarrow> 's \<Rightarrow> 'out \<times> 's) \<Rightarrow> 'op list \<Rightarrow> 's \<Rightarrow> ('op \<times> 'out) list \<times> 's" where
  "run f [] s = ([], s)"
| "run f (x # xs) s =
     (let (out, s') = f x s; (log, s'') = run f xs s' in ((x, out) # log, s''))"

definition final :: "('op \<Rightarrow> 's \<Rightarrow> 'out \<times> 's) \<Rightarrow> 'op list \<Rightarrow> 's \<Rightarrow> 's" where
  "final f xs s = snd (run f xs s)"

definition trace :: "('op \<Rightarrow> 's \<Rightarrow> 'out \<times> 's) \<Rightarrow> 'op list \<Rightarrow> 's \<Rightarrow> ('op \<times> 'out) list" where
  "trace f xs s = fst (run f xs s)"

definition times :: "('op \<Rightarrow> 'out \<Rightarrow> bool) \<Rightarrow> ('op \<times> 'out) list \<Rightarrow> nat" where
  "times p log = length (filter (\<lambda>(x, out). p x out) log)"

lemma final_Nil [simp]: "final f [] s = s"
  by (simp add: final_def)

lemma final_Cons [simp]: "final f (x # xs) s = final f xs (snd (f x s))"
  by (simp add: final_def case_prod_beta Let_def)

lemma trace_Nil [simp]: "trace f [] s = []"
  by (simp add: trace_def)

lemma trace_Cons [simp]: "trace f (x # xs) s = (x, fst (f x s)) # trace f xs (snd (f x s))"
  by (simp add: trace_def case_prod_beta Let_def)

lemma final_append: "final f (xs @ ys) s = final f ys (final f xs s)"
  by (induction xs arbitrary: s) auto

lemma trace_append: "trace f (xs @ ys) s = trace f xs s @ trace f ys (final f xs s)"
  by (induction xs arbitrary: s) auto

lemma length_trace [simp]: "length (trace f xs s) = length xs"
  by (induction xs arbitrary: s) auto

lemma times_Nil [simp]: "times p [] = 0"
  by (simp add: times_def)

lemma times_Cons [simp]: "times p ((x, out) # log) = (if p x out then Suc (times p log) else times p log)"
  by (simp add: times_def)

lemma times_append [simp]: "times p (a @ b) = times p a + times p b"
  by (simp add: times_def)

section \<open>Invariants\<close>

locale invariant_machine =
  fixes step :: "'op \<Rightarrow> 's \<Rightarrow> 'out \<times> 's"
    and inv :: "'s \<Rightarrow> bool"
  assumes inv_step: "inv s \<Longrightarrow> inv (snd (step x s))"
begin

lemma inv_final: "inv s \<Longrightarrow> inv (final step xs s)"
  by (induction xs arbitrary: s) (auto intro: inv_step)

lemma inv_prefix: "inv s \<Longrightarrow> inv (final step (take n xs) s)"
  by (rule inv_final)

end

text \<open>The same for a component whose callers only issue operations that are \<open>legal\<close>.\<close>

locale guarded_machine =
  fixes step :: "'op \<Rightarrow> 's \<Rightarrow> 'out \<times> 's"
    and inv :: "'s \<Rightarrow> bool"
    and legal :: "'op \<Rightarrow> bool"
  assumes inv_step: "legal x \<Longrightarrow> inv s \<Longrightarrow> inv (snd (step x s))"
begin

lemma inv_final: "list_all legal xs \<Longrightarrow> inv s \<Longrightarrow> inv (final step xs s)"
  by (induction xs arbitrary: s) (auto intro: inv_step)

end

sublocale invariant_machine \<subseteq> guarded: guarded_machine step inv "\<lambda>_. True"
  by unfold_locales (rule inv_step)

section \<open>Credentials that are redeemed once\<close>

text \<open>
  \<open>stock k s\<close>: how many redeemable credentials \<open>k\<close> the store has. The law: an operation
  takes out of stock what it redeems, and adds at most what it issues.
\<close>

locale counted_credential = invariant_machine +
  fixes stock :: "'k \<Rightarrow> 's \<Rightarrow> nat"
    and issued :: "'k \<Rightarrow> 'op \<Rightarrow> 'out \<Rightarrow> bool"
    and redeemed :: "'k \<Rightarrow> 'op \<Rightarrow> 'out \<Rightarrow> bool"
  assumes stock_step: "inv s \<Longrightarrow> (if redeemed k x (fst (step x s)) then 1 else 0) + stock k (snd (step x s))
      \<le> (if issued k x (fst (step x s)) then 1 else 0) + stock k s"
begin

lemma redeemed_le_issued:
  "inv s \<Longrightarrow> times (redeemed k) (trace step xs s) + stock k (final step xs s)
     \<le> times (issued k) (trace step xs s) + stock k s"
proof (induction xs arbitrary: s)
  case Nil
  then show ?case by simp
next
  case (Cons x xs)
  from Cons.prems have inv': "inv (snd (step x s))" by (rule inv_step)
  with Cons.IH [OF inv'] stock_step [OF Cons.prems, of k x] show ?case by (auto split: if_splits)
qed

lemma redeemed_at_most_issued:
  "inv s \<Longrightarrow> stock k s = 0 \<Longrightarrow> times (redeemed k) (trace step xs s) \<le> times (issued k) (trace step xs s)"
  using redeemed_le_issued [of s k xs] by simp

text \<open>Without a new issue in between, no more redemptions succeed than are in stock.\<close>

lemma redeemed_le_stock:
  "inv s \<Longrightarrow> times (issued k) (trace step xs s) = 0 \<Longrightarrow> times (redeemed k) (trace step xs s) \<le> stock k s"
  using redeemed_le_issued [of s k xs] by simp

end

text \<open>
  The common case, where \<open>k\<close> is held or not: redeeming \<open>k\<close> needs it to be held and leaves
  it not held; and only issuing \<open>k\<close> makes it held.
\<close>

locale one_shot = invariant_machine +
  fixes held :: "'k \<Rightarrow> 's \<Rightarrow> bool"
    and issued :: "'k \<Rightarrow> 'op \<Rightarrow> 'out \<Rightarrow> bool"
    and redeemed :: "'k \<Rightarrow> 'op \<Rightarrow> 'out \<Rightarrow> bool"
  assumes redeem_held: "inv s \<Longrightarrow> redeemed k x (fst (step x s)) \<Longrightarrow> held k s"
    and redeem_gone: "inv s \<Longrightarrow> redeemed k x (fst (step x s)) \<Longrightarrow> \<not> held k (snd (step x s))"
    and held_issued: "inv s \<Longrightarrow> \<not> held k s \<Longrightarrow> held k (snd (step x s)) \<Longrightarrow> issued k x (fst (step x s))"

sublocale one_shot \<subseteq> counted: counted_credential step inv "\<lambda>k s. if held k s then 1 else 0" issued redeemed
proof
  show "(if redeemed k x (fst (step x s)) then 1 else 0) + (if held k (snd (step x s)) then 1 else 0)
      \<le> (if issued k x (fst (step x s)) then 1 else 0) + (if held k s then 1 else (0 :: nat))"
    if "inv s" for s k x
    using redeem_held [OF that, of k x] redeem_gone [OF that, of k x] held_issued [OF that, of k x] by auto
qed

context one_shot
begin

lemma redeemed_at_most_issued:
  "inv s \<Longrightarrow> \<not> held k s \<Longrightarrow> times (redeemed k) (trace step xs s) \<le> times (issued k) (trace step xs s)"
  using counted.redeemed_le_issued [of s k xs] by simp

text \<open>Without a new issue in between, a second redemption never succeeds.\<close>

lemma redeemed_once:
  assumes "inv s" "times (issued k) (trace step xs s) = 0"
  shows "times (redeemed k) (trace step xs s) \<le> 1"
  using counted.redeemed_le_issued [OF assms(1), of k xs] assms(2) by (simp split: if_splits)

end

end
