(* ===== verification/Rust_Text.thy ===== *)
theory Rust_Text
  imports Prelude
begin

text \<open>
  The part of Rust's \<open>str\<close> and \<open>char\<close> the program uses, on the characters U+0000 to
  U+00FF: a HOL \<open>char\<close> stands for the Rust \<open>char\<close> with that code point, so a \<open>string\<close>
  is a Rust string over Latin-1. The classes below are exact on that range. A character
  above it is not modelled; nor are the two characters whose upper case lies above it
  (U+00B5 and U+00FF), which \<open>to_uppercase\<close> leaves alone here.

  \<open>str::len\<close> counts UTF-8 bytes, not characters: \<open>byte_len\<close>.
\<close>

abbreviation cp :: "char \<Rightarrow> nat" where
  "cp c \<equiv> of_char c"

section \<open>Character classes\<close>

definition is_ascii :: "char \<Rightarrow> bool" where
  "is_ascii c \<longleftrightarrow> cp c < 128"

definition is_ascii_lower :: "char \<Rightarrow> bool" where
  "is_ascii_lower c \<longleftrightarrow> 97 \<le> cp c \<and> cp c \<le> 122"

definition is_ascii_upper :: "char \<Rightarrow> bool" where
  "is_ascii_upper c \<longleftrightarrow> 65 \<le> cp c \<and> cp c \<le> 90"

definition is_ascii_digit :: "char \<Rightarrow> bool" where
  "is_ascii_digit c \<longleftrightarrow> 48 \<le> cp c \<and> cp c \<le> 57"

definition is_ascii_alnum :: "char \<Rightarrow> bool" where
  "is_ascii_alnum c \<longleftrightarrow> is_ascii_lower c \<or> is_ascii_upper c \<or> is_ascii_digit c"

text \<open>\<open>char::is_whitespace\<close> (the White_Space property).\<close>

definition is_whitespace :: "char \<Rightarrow> bool" where
  "is_whitespace c \<longleftrightarrow>
     (9 \<le> cp c \<and> cp c \<le> 13) \<or> cp c = 32 \<or> cp c = 133 \<or> cp c = 160"

text \<open>\<open>char::is_alphanumeric\<close> (Alphabetic, or one of the numeric categories).\<close>

definition is_alphanumeric :: "char \<Rightarrow> bool" where
  "is_alphanumeric c \<longleftrightarrow> is_ascii_alnum c
     \<or> cp c \<in> {170, 178, 179, 181, 185, 186, 188, 189, 190}
     \<or> (192 \<le> cp c \<and> cp c \<noteq> 215 \<and> cp c \<noteq> 247)"

text \<open>\<open>char::is_control\<close>, the category Cc.\<close>

definition is_control :: "char \<Rightarrow> bool" where
  "is_control c \<longleftrightarrow> cp c < 32 \<or> (127 \<le> cp c \<and> cp c < 160)"

definition is_ascii_graphic :: "char \<Rightarrow> bool" where
  "is_ascii_graphic c \<longleftrightarrow> 33 \<le> cp c \<and> cp c \<le> 126"

definition ascii_lower :: "char \<Rightarrow> char" where
  "ascii_lower c = (if is_ascii_upper c then char_of (cp c + 32) else c)"

definition lower_char :: "char \<Rightarrow> char" where
  "lower_char c = (if is_ascii_upper c \<or> (192 \<le> cp c \<and> cp c \<le> 222 \<and> cp c \<noteq> 215)
     then char_of (cp c + 32) else c)"

definition upper_char :: "char \<Rightarrow> string" where
  "upper_char c = (if cp c = 223 then ''SS''
     else if is_ascii_lower c \<or> (224 \<le> cp c \<and> cp c \<le> 254 \<and> cp c \<noteq> 247)
     then [char_of (cp c - 32)] else [c])"

section \<open>Strings\<close>

definition to_ascii_lowercase :: "string \<Rightarrow> string" where
  "to_ascii_lowercase s = map ascii_lower s"

definition to_lowercase :: "string \<Rightarrow> string" where
  "to_lowercase s = map lower_char s"

definition to_uppercase :: "string \<Rightarrow> string" where
  "to_uppercase s = concat (map upper_char s)"

definition byte_len :: "string \<Rightarrow> nat" where
  "byte_len s = sum_list (map (\<lambda>c. if is_ascii c then 1 else 2) s)"

text \<open>\<open>str::as_bytes\<close>: the UTF-8 encoding, one or two bytes a character here.\<close>

definition utf8_char :: "char \<Rightarrow> 8 word list" where
  "utf8_char c = (if is_ascii c then [word_of_nat (cp c)]
     else [word_of_nat (192 + cp c div 64), word_of_nat (128 + cp c mod 64)])"

definition utf8 :: "string \<Rightarrow> 8 word list" where
  "utf8 s = concat (map utf8_char s)"

definition trim_start :: "string \<Rightarrow> string" where
  "trim_start s = dropWhile is_whitespace s"

definition trim_end :: "string \<Rightarrow> string" where
  "trim_end s = rev (dropWhile is_whitespace (rev s))"

definition trim :: "string \<Rightarrow> string" where
  "trim s = trim_end (trim_start s)"

text \<open>\<open>str::trim_matches\<close> with one character.\<close>

definition trim_matches :: "char \<Rightarrow> string \<Rightarrow> string" where
  "trim_matches q s = rev (dropWhile (\<lambda>c. c = q) (rev (dropWhile (\<lambda>c. c = q) s)))"

fun starts_with :: "string \<Rightarrow> string \<Rightarrow> bool" where
  "starts_with s [] = True"
| "starts_with [] (p # ps) = False"
| "starts_with (c # cs) (p # ps) = (c = p \<and> starts_with cs ps)"

definition ends_with :: "string \<Rightarrow> string \<Rightarrow> bool" where
  "ends_with s p = starts_with (rev s) (rev p)"

fun contains :: "string \<Rightarrow> string \<Rightarrow> bool" where
  "contains [] p = (p = [])"
| "contains (c # cs) p = (starts_with (c # cs) p \<or> contains cs p)"

definition strip_suffix :: "string \<Rightarrow> string \<Rightarrow> string option" where
  "strip_suffix s p = (if ends_with s p then Some (take (length s - length p) s) else None)"

text \<open>\<open>str::split\<close> on one character: one more piece than there are separators.\<close>

fun split_on :: "char \<Rightarrow> string \<Rightarrow> string list" where
  "split_on q [] = [[]]"
| "split_on q (c # cs) =
     (if c = q then [] # split_on q cs
      else case split_on q cs of [] \<Rightarrow> [[c]] | w # ws \<Rightarrow> (c # w) # ws)"

text \<open>\<open>str::split_whitespace\<close>: the maximal runs of non-whitespace, in order.\<close>

fun split_ws_aux :: "string \<Rightarrow> string \<Rightarrow> string list" where
  "split_ws_aux w [] = (if w = [] then [] else [w])"
| "split_ws_aux w (c # cs) =
     (if is_whitespace c then (if w = [] then split_ws_aux [] cs else w # split_ws_aux [] cs)
      else split_ws_aux (w @ [c]) cs)"

definition split_whitespace :: "string \<Rightarrow> string list" where
  "split_whitespace s = split_ws_aux [] s"

text \<open>\<open>[String]::join\<close>.\<close>

fun join :: "'a list \<Rightarrow> 'a list list \<Rightarrow> 'a list" where
  "join sep [] = []"
| "join sep [w] = w"
| "join sep (w # ws) = w @ sep @ join sep ws"

text \<open>\<open>str::lines\<close>: a line ending is \<open>\n\<close> or \<open>\r\n\<close>; no empty last line.\<close>

definition strip_cr :: "string \<Rightarrow> string" where
  "strip_cr w = (case strip_suffix w [CHR 0x0D] of Some v \<Rightarrow> v | None \<Rightarrow> w)"

definition lines_of :: "string \<Rightarrow> string list" where
  "lines_of s = (let ps = split_on (CHR 0x0A) s in
     map strip_cr (butlast ps) @ (if last ps = [] then [] else [last ps]))"

text \<open>\<open>str::split_once\<close> on one character: around its first occurrence.\<close>

fun split_once :: "char \<Rightarrow> string \<Rightarrow> (string \<times> string) option" where
  "split_once q [] = None"
| "split_once q (c # cs) =
     (if c = q then Some ([], cs) else map_option (\<lambda>(a, b). (c # a, b)) (split_once q cs))"

text \<open>\<open>str::rfind\<close> of one character: the text before its last occurrence and the text after it.\<close>

definition rsplit :: "char \<Rightarrow> string \<Rightarrow> (string \<times> string) option" where
  "rsplit q s = (if q \<in> set s then
       Some (rev (tl (dropWhile (\<lambda>c. c \<noteq> q) (rev s))), rev (takeWhile (\<lambda>c. c \<noteq> q) (rev s))) else None)"

text \<open>\<open>Display\<close> for the integer types: decimal, with a minus sign.\<close>

fun show_nat :: "nat \<Rightarrow> string" where
  "show_nat n = (if n < 10 then [char_of (48 + n)] else show_nat (n div 10) @ [char_of (48 + n mod 10)])"

declare show_nat.simps [simp del]

definition show_int :: "int \<Rightarrow> string" where
  "show_int i = (if i < 0 then ''-'' @ show_nat (nat (- i)) else show_nat (nat i))"

section \<open>Facts the components share\<close>

lemma split_once_Some: "split_once q s = Some (a, b) \<longleftrightarrow> s = a @ q # b \<and> q \<notin> set a"
  by (induction s arbitrary: a b) (auto simp: Cons_eq_append_conv)

lemma starts_with_iff: "starts_with s p \<longleftrightarrow> (\<exists>t. s = p @ t)"
  by (induction s p rule: starts_with.induct) auto

lemma ends_with_iff: "ends_with s p \<longleftrightarrow> (\<exists>t. s = t @ p)"
proof -
  have "(\<exists>t. rev s = rev p @ t) \<longleftrightarrow> (\<exists>t. s = t @ p)"
    by (metis rev_append rev_rev_ident)
  then show ?thesis by (simp add: ends_with_def starts_with_iff)
qed

lemma strip_suffix_Some: "strip_suffix s p = Some t \<longleftrightarrow> s = t @ p"
  by (auto simp: strip_suffix_def ends_with_iff)

lemma contains_iff: "contains s p \<longleftrightarrow> (\<exists>a b. s = a @ p @ b)"
proof (induction s)
  case Nil
  then show ?case by simp
next
  case (Cons c cs)
  have "(\<exists>a b. c # cs = a @ p @ b) \<longleftrightarrow> (\<exists>b. c # cs = p @ b) \<or> (\<exists>a b. cs = a @ p @ b)"
    by (auto simp: Cons_eq_append_conv)
  with Cons show ?case by (simp add: starts_with_iff)
qed

lemma contains_char: "contains s [q] \<longleftrightarrow> q \<in> set s"
  by (induction s) (auto simp: starts_with_iff)

lemma set_split_on: "w \<in> set (split_on q s) \<Longrightarrow> q \<notin> set w"
  by (induction s arbitrary: w) (auto split: if_splits list.splits)

lemma split_on_not_Nil [simp]: "split_on q s \<noteq> []"
  by (induction s) (auto split: list.splits)

lemma join_split_on: "join [q] (split_on q s) = s"
proof (induction s)
  case Nil
  then show ?case by simp
next
  case (Cons c cs)
  obtain w ws where s: "split_on q cs = w # ws"
    by (cases "split_on q cs") auto
  with Cons show ?case by (cases ws) auto
qed

lemma split_on_fresh: "q \<notin> set s \<Longrightarrow> split_on q s = [s]"
  by (induction s) auto

lemma split_on_append: "q \<notin> set a \<Longrightarrow> split_on q (a @ q # b) = a # split_on q b"
  by (induction a) auto

definition is_word :: "string \<Rightarrow> bool" where
  "is_word w \<longleftrightarrow> w \<noteq> [] \<and> list_all (\<lambda>c. \<not> is_whitespace c) w"

lemma split_ws_aux_words:
  "list_all (\<lambda>c. \<not> is_whitespace c) v \<Longrightarrow> list_all is_word (split_ws_aux v s)"
proof (induction v s rule: split_ws_aux.induct)
  case (1 w)
  then show ?case by (simp add: is_word_def)
next
  case (2 w c cs)
  show ?case
  proof (cases "is_whitespace c")
    case True
    with 2 show ?thesis by (simp add: is_word_def)
  next
    case False
    with 2 show ?thesis by simp
  qed
qed

lemma split_whitespace_words: "list_all is_word (split_whitespace s)"
  unfolding split_whitespace_def by (rule split_ws_aux_words) simp

lemma split_ws_aux_concat:
  "concat (split_ws_aux v s) = v @ filter (\<lambda>c. \<not> is_whitespace c) s"
  by (induction v s rule: split_ws_aux.induct) auto

lemma concat_split_whitespace:
  "concat (split_whitespace s) = filter (\<lambda>c. \<not> is_whitespace c) s"
  by (simp add: split_whitespace_def split_ws_aux_concat)

lemma dropWhile_idem: "dropWhile p (dropWhile p s) = dropWhile p s"
  by (induction s) auto

lemma trim_start_idem [simp]: "trim_start (trim_start s) = trim_start s"
  by (simp add: trim_start_def dropWhile_idem)

lemma trim_end_idem [simp]: "trim_end (trim_end s) = trim_end s"
  by (simp add: trim_end_def dropWhile_idem)

lemma trim_end_prefix: "\<exists>t. s = trim_end s @ t \<and> (\<forall>c \<in> set t. is_whitespace c)"
proof -
  have "rev s = takeWhile is_whitespace (rev s) @ dropWhile is_whitespace (rev s)"
    by simp
  then have "s = trim_end s @ rev (takeWhile is_whitespace (rev s))"
    unfolding trim_end_def by (metis rev_append rev_rev_ident)
  moreover have "\<forall>c \<in> set (rev (takeWhile is_whitespace (rev s))). is_whitespace c"
    by (auto dest: set_takeWhileD)
  ultimately show ?thesis by blast
qed

lemma trim_start_trim_end: "trim_start (trim_end (trim_start s)) = trim_end (trim_start s)"
proof (cases "trim_end (trim_start s)")
  case Nil
  then show ?thesis by (simp add: trim_start_def)
next
  case (Cons c cs)
  then obtain t where "trim_start s = c # cs @ t"
    using trim_end_prefix [of "trim_start s"] by auto
  then have "\<not> is_whitespace c"
    unfolding trim_start_def by (metis list.distinct(1) list.sel(1) hd_dropWhile)
  with Cons show ?thesis by (simp add: trim_start_def)
qed

lemma trim_idem [simp]: "trim (trim s) = trim s"
  by (simp add: trim_def trim_start_trim_end)

lemma dropWhile_ends: "(\<forall>c \<in> set s. \<not> p c) \<Longrightarrow> dropWhile p s = s"
  by (cases s) auto

lemma trim_no_ws: "(\<forall>c \<in> set s. \<not> is_whitespace c) \<Longrightarrow> trim s = s"
  by (simp add: trim_def trim_start_def trim_end_def dropWhile_ends)

lemma set_trim: "set (trim s) \<subseteq> set s"
  unfolding trim_def trim_end_def trim_start_def by (auto dest!: set_dropWhileD)

lemma byte_len_append [simp]: "byte_len (a @ b) = byte_len a + byte_len b"
  by (simp add: byte_len_def)

lemma byte_len_ascii: "(\<forall>c \<in> set s. is_ascii c) \<Longrightarrow> byte_len s = length s"
  by (induction s) (auto simp: byte_len_def)

lemma length_utf8: "length (utf8 s) = byte_len s"
  by (induction s) (auto simp: utf8_def byte_len_def utf8_char_def)

lemma byte_len_ge: "length s \<le> byte_len s"
  by (induction s) (auto simp: byte_len_def)

lemma cp_char_of [simp]: "n < 256 \<Longrightarrow> cp (char_of n) = n"
  by (simp add: of_char_of)

lemma cp_less_256: "cp c < 256"
  by simp

lemma lower_char_idem [simp]: "lower_char (lower_char c) = lower_char c"
  using cp_less_256 [of c] by (auto simp: lower_char_def is_ascii_upper_def)

lemma ascii_lower_idem [simp]: "ascii_lower (ascii_lower c) = ascii_lower c"
  by (auto simp: ascii_lower_def is_ascii_upper_def)

lemma to_lowercase_idem [simp]: "to_lowercase (to_lowercase s) = to_lowercase s"
  by (simp add: to_lowercase_def)

lemma to_ascii_lowercase_idem [simp]: "to_ascii_lowercase (to_ascii_lowercase s) = to_ascii_lowercase s"
  by (simp add: to_ascii_lowercase_def)

lemma lower_char_whitespace [simp]: "is_whitespace (lower_char c) = is_whitespace c"
  by (auto simp: lower_char_def is_whitespace_def is_ascii_upper_def)

lemma ascii_lower_whitespace [simp]: "is_whitespace (ascii_lower c) = is_whitespace c"
  by (auto simp: ascii_lower_def is_whitespace_def is_ascii_upper_def)

lemma trim_map: "(\<And>c. is_whitespace (f c) = is_whitespace c) \<Longrightarrow> trim (map f s) = map f (trim s)"
  by (simp add: trim_def trim_start_def trim_end_def dropWhile_map rev_map o_def)

lemma trim_to_lowercase: "trim (to_lowercase s) = to_lowercase (trim s)"
  by (simp add: to_lowercase_def trim_map)

lemma trim_to_ascii_lowercase: "trim (to_ascii_lowercase s) = to_ascii_lowercase (trim s)"
  by (simp add: to_ascii_lowercase_def trim_map)

lemma rsplit_Some: "rsplit q s = Some (a, b) \<longleftrightarrow> s = a @ q # b \<and> q \<notin> set b"
proof -
  have *: "rsplit q (a @ q # b) = Some (a, b)" if "q \<notin> set b" for a b
  proof -
    have n: "\<And>c. c \<in> set (rev b) \<Longrightarrow> c \<noteq> q" using that by auto
    have "dropWhile (\<lambda>c. c \<noteq> q) (rev b @ q # rev a) = q # rev a" using n by (subst dropWhile_append2) simp_all
    moreover have "takeWhile (\<lambda>c. c \<noteq> q) (rev b @ q # rev a) = rev b" using n by (subst takeWhile_append2) simp_all
    ultimately show ?thesis by (simp add: rsplit_def)
  qed
  show ?thesis
  proof (cases "q \<in> set s")
    case True
    then obtain u v where uv: "s = u @ q # v" "q \<notin> set v" by (meson split_list_last)
    have r: "rsplit q s = Some (u, v)" unfolding uv(1) by (rule * [OF uv(2)])
    show ?thesis
    proof
      assume "rsplit q s = Some (a, b)"
      with r uv show "s = a @ q # b \<and> q \<notin> set b" by simp
    next
      assume "s = a @ q # b \<and> q \<notin> set b"
      then show "rsplit q s = Some (a, b)" using * by blast
    qed
  next
    case False
    then show ?thesis by (auto simp: rsplit_def)
  qed
qed

lemma rsplit_None: "rsplit q s = None \<longleftrightarrow> q \<notin> set s"
  by (simp add: rsplit_def)

end
