(* ===== verification/Broker_Sessions.thy ===== *)
theory Broker_Sessions
  imports Machine Rust_Text
begin

text \<open>
  \<open>squelch-broker/src/sessions.rs\<close>: the in-memory session table of the consent broker.
  A session is registered by a daemon, carries a consent URL, has at most one callback
  outcome parked in it, and is claimed once by whoever holds the token whose SHA-256
  was registered.
\<close>

unbundle bit_operations_syntax

definition SESSION_TTL :: duration where
  "SESSION_TTL = secs 600"

definition MAX_SESSIONS :: nat where
  "MAX_SESSIONS = 4096"

definition MAX_SESSIONS_PER_CLIENT :: nat where
  "MAX_SESSIONS_PER_CLIENT = 16"

section \<open>Data\<close>

datatype session_kind = SelfHost

definition kind_as_str :: "session_kind \<Rightarrow> string" where
  "kind_as_str k = (case k of SelfHost \<Rightarrow> ''self_host'')"

datatype parked = Pending | Code string | Denied string

datatype register_error = Duplicate | Full | ClientFull

text \<open>A SHA-256 digest: 32 bytes.\<close>

type_synonym digest = "8 word list"

record new_session =
  ns_id :: string
  ns_kind :: session_kind
  ns_hash :: digest
  ns_auth_url :: string
  ns_owner :: ip_addr

datatype park_outcome = Parked | AlreadyUsed | NoSession

datatype claim_outcome =
    ClaimPending | Complete string | Refused string | Forbidden | NotFound

record session =
  kind :: session_kind
  claim_token_hash :: digest
  auth_url :: string
  owner :: ip_addr
  parked :: parked
  created_at :: instant

definition expired :: "session \<Rightarrow> instant \<Rightarrow> bool" where
  "expired s now \<longleftrightarrow> SESSION_TTL \<le> since now (created_at s)"

type_synonym sessions = "(string, session) table"

section \<open>Operations\<close>

text \<open>The constant-time comparison: a fold of \<open>diff |= x ^ y\<close> over the zipped bytes.\<close>

definition ct_eq :: "digest \<Rightarrow> digest \<Rightarrow> bool" where
  "ct_eq a b = (fold (\<lambda>(x, y) diff. diff OR (x XOR y)) (zip a b) (0 :: 8 word) = 0)"

definition register ::
    "new_session \<Rightarrow> nat option \<Rightarrow> instant \<Rightarrow> sessions \<Rightarrow> (register_error + unit) \<times> sessions" where
  "register new per_client now sessions =
     (let sessions = retain (\<lambda>s. \<not> expired s now) sessions in
      if map_of sessions (ns_id new) \<noteq> None then (Inl Duplicate, sessions)
      else if (case per_client of
                 Some limit \<Rightarrow> limit \<le> count_vals (\<lambda>s. owner s = ns_owner new) sessions
               | None \<Rightarrow> False) then (Inl ClientFull, sessions)
      else if MAX_SESSIONS \<le> length sessions then (Inl Full, sessions)
      else (Inr (), AList.update (ns_id new)
             \<lparr>kind = ns_kind new, claim_token_hash = ns_hash new, auth_url = ns_auth_url new,
              owner = ns_owner new, parked = Pending, created_at = now\<rparr> sessions))"

definition get_auth_url :: "string \<Rightarrow> instant \<Rightarrow> sessions \<Rightarrow> string option \<times> sessions" where
  "get_auth_url session_id now sessions =
     (case map_of sessions session_id of
        Some s \<Rightarrow> if \<not> expired s now then (Some (auth_url s), sessions)
                  else (None, AList.delete session_id sessions)
      | None \<Rightarrow> (None, sessions))"

definition get_kind :: "string \<Rightarrow> instant \<Rightarrow> sessions \<Rightarrow> session_kind option" where
  "get_kind session_id now sessions =
     (case map_of sessions session_id of
        Some s \<Rightarrow> if \<not> expired s now then Some (kind s) else None
      | None \<Rightarrow> None)"

definition park :: "string \<Rightarrow> parked \<Rightarrow> instant \<Rightarrow> sessions \<Rightarrow> park_outcome \<times> sessions" where
  "park session_id outcome now sessions =
     (case map_of sessions session_id of
        None \<Rightarrow> (NoSession, sessions)
      | Some s \<Rightarrow>
          if expired s now then (NoSession, AList.delete session_id sessions)
          else if parked s \<noteq> Pending then (AlreadyUsed, sessions)
          else (Parked, AList.update session_id (s\<lparr>parked := outcome\<rparr>) sessions))"

definition claim :: "string \<Rightarrow> digest \<Rightarrow> instant \<Rightarrow> sessions \<Rightarrow> claim_outcome \<times> sessions" where
  "claim session_id presented now sessions =
     (case map_of sessions session_id of
        None \<Rightarrow> (NotFound, sessions)
      | Some s \<Rightarrow>
          if expired s now then (NotFound, AList.delete session_id sessions)
          else if \<not> ct_eq (claim_token_hash s) presented then (Forbidden, sessions)
          else if parked s = Pending then (ClaimPending, sessions)
          else (case parked s of
                  Code code \<Rightarrow> (Complete code, AList.delete session_id sessions)
                | Denied err \<Rightarrow> (Refused err, AList.delete session_id sessions)
                | Pending \<Rightarrow> (NotFound, AList.delete session_id sessions)))"

definition sweep :: "instant \<Rightarrow> sessions \<Rightarrow> nat \<times> sessions" where
  "sweep now sessions =
     (let before = length sessions; sessions = retain (\<lambda>s. \<not> expired s now) sessions
      in (before - length sessions, sessions))"

section \<open>The store as a machine\<close>

datatype op =
    Register new_session "nat option" instant
  | AuthUrl string instant
  | Kind string instant
  | Park string parked instant
  | Claim string digest instant
  | Sweep instant

datatype out =
    Registered "register_error + unit"
  | Url "string option"
  | KindIs "session_kind option"
  | ParkResult park_outcome
  | ClaimResult claim_outcome
  | Swept nat

fun step :: "op \<Rightarrow> sessions \<Rightarrow> out \<times> sessions" where
  "step (Register new lim now) ss = apfst Registered (register new lim now ss)"
| "step (AuthUrl k now) ss = apfst Url (get_auth_url k now ss)"
| "step (Kind k now) ss = (KindIs (get_kind k now ss), ss)"
| "step (Park k v now) ss = apfst ParkResult (park k v now ss)"
| "step (Claim k h now) ss = apfst ClaimResult (claim k h now ss)"
| "step (Sweep now) ss = apfst Swept (sweep now ss)"

lemmas broker_defs = register_def get_auth_url_def get_kind_def park_def claim_def sweep_def Let_def

section \<open>Invariant\<close>

definition broker_inv :: "sessions \<Rightarrow> bool" where
  "broker_inv ss \<longleftrightarrow> wf_table ss \<and> length ss \<le> MAX_SESSIONS"

interpretation bttl: ttl_table expired
  by unfold_locales (auto simp: expired_def since_def)

lemma retain_live: "retain (\<lambda>s. \<not> expired s now) ss = bttl.live now ss"
  by (simp add: bttl.live_def)

lemma broker_inv_live [simp]: "broker_inv ss \<Longrightarrow> broker_inv (bttl.live now ss)"
  unfolding broker_inv_def using bttl.wf_live bttl.length_live_le order_trans by blast

lemma broker_inv_delete [simp]: "broker_inv ss \<Longrightarrow> broker_inv (AList.delete k ss)"
  using length_delete_le [of k ss] by (auto simp: broker_inv_def intro: order_trans)

lemma broker_inv_update [simp]: "broker_inv ss \<Longrightarrow> map_of ss k = Some v \<Longrightarrow> broker_inv (AList.update k w ss)"
  by (simp add: broker_inv_def length_update_present)

lemma broker_inv_insert: "broker_inv ss \<Longrightarrow> length ss < MAX_SESSIONS \<Longrightarrow> broker_inv (AList.update k w ss)"
  by (simp add: broker_inv_def length_update)

lemma broker_inv_register: "broker_inv ss \<Longrightarrow> broker_inv (snd (register new lim now ss))"
  by (simp add: register_def Let_def retain_live broker_inv_insert)

lemma broker_inv_park: "broker_inv ss \<Longrightarrow> broker_inv (snd (park k v now ss))"
  by (simp add: park_def split: option.split)

lemma broker_inv_claim: "broker_inv ss \<Longrightarrow> broker_inv (snd (claim k h now ss))"
  by (simp add: claim_def split: option.split parked.split)

lemma broker_inv_step: "broker_inv ss \<Longrightarrow> broker_inv (snd (step x ss))"
  by (cases x) (simp_all add: broker_inv_register broker_inv_park broker_inv_claim
      get_auth_url_def sweep_def Let_def retain_live split: option.split)

section \<open>Claims against registrations\<close>

definition has_session :: "string \<Rightarrow> sessions \<Rightarrow> bool" where
  "has_session k ss \<longleftrightarrow> map_of ss k \<noteq> None"

fun registers :: "string \<Rightarrow> op \<Rightarrow> out \<Rightarrow> bool" where
  "registers k (Register new lim now) (Registered (Inr ())) = (ns_id new = k)"
| "registers k _ _ = False"

fun hands_over :: "string \<Rightarrow> op \<Rightarrow> out \<Rightarrow> bool" where
  "hands_over k (Claim k' h now) (ClaimResult (Complete c)) = (k' = k)"
| "hands_over k (Claim k' h now) (ClaimResult (Refused c)) = (k' = k)"
| "hands_over k _ _ = False"

lemma hands_over_claim:
  "hands_over k x (fst (step x ss)) \<longleftrightarrow>
     (\<exists>h now s. x = Claim k h now \<and> map_of ss k = Some s \<and> \<not> expired s now
        \<and> ct_eq (claim_token_hash s) h \<and> parked s \<noteq> Pending)"
  by (cases x) (auto simp: claim_def split: option.splits parked.splits)

lemma hands_over_gone: "hands_over k x (fst (step x ss)) \<Longrightarrow> map_of (snd (step x ss)) k = None"
  unfolding hands_over_claim by (auto simp: claim_def map_of_delete split: parked.splits)

lemma live_lookup_cases:
  "wf_table ss \<Longrightarrow> map_of (bttl.live now ss) k = map_of ss k \<or> map_of (bttl.live now ss) k = None"
  by (cases "map_of (bttl.live now ss) k") (auto simp: bttl.live_lookup_Some)

text \<open>What one operation can do to the session stored under one id.\<close>

lemma step_lookup:
  assumes "wf_table ss"
  shows "map_of (snd (step x ss)) k \<in> {map_of ss k, None}
    \<or> registers k x (fst (step x ss))
    \<or> (\<exists>s v. map_of ss k = Some s \<and> parked s = Pending
          \<and> map_of (snd (step x ss)) k = Some (s\<lparr>parked := v\<rparr>))"
proof (cases x)
  case (Register new lim now)
  then show ?thesis
    using live_lookup_cases [OF assms, of now k]
    by (auto simp: register_def Let_def retain_live map_of_update)
next
  case (Park k' v now)
  then show ?thesis
    by (auto simp: park_def map_of_update map_of_delete split: option.split)
next
  case (Claim k' h now)
  then show ?thesis
    by (auto simp: claim_def map_of_delete split: option.split parked.split)
next
  case (Sweep now)
  then show ?thesis
    using live_lookup_cases [OF assms, of now k] by (auto simp: sweep_def Let_def retain_live)
qed (auto simp: get_auth_url_def map_of_delete split: option.split)

interpretation broker: one_shot step broker_inv has_session registers hands_over
proof
  fix s x k
  assume inv: "broker_inv s"
  show "broker_inv (snd (step x s))" using inv by (rule broker_inv_step)
  show "hands_over k x (fst (step x s)) \<Longrightarrow> has_session k s"
    by (auto simp: hands_over_claim has_session_def)
  show "hands_over k x (fst (step x s)) \<Longrightarrow> \<not> has_session k (snd (step x s))"
    by (simp add: hands_over_gone has_session_def)
  show "\<not> has_session k s \<Longrightarrow> has_session k (snd (step x s)) \<Longrightarrow> registers k x (fst (step x s))"
    using step_lookup [of s x k] inv by (auto simp: has_session_def broker_inv_def)
qed

section \<open>The comparison of digests\<close>

lemma word_or_0: "(x :: 8 word) OR y = 0 \<longleftrightarrow> x = 0 \<and> y = 0"
  by (auto simp: bit_eq_iff bit_simps)

lemma word_xor_0: "(x :: 8 word) XOR y = 0 \<longleftrightarrow> x = y"
  by (auto simp: bit_eq_iff bit_simps)

lemma fold_diff_0:
  "fold (\<lambda>(x, y) diff. diff OR (x XOR y)) ps (d :: 8 word) = 0 \<longleftrightarrow> d = 0 \<and> (\<forall>(x, y) \<in> set ps. x = y)"
  by (induction ps arbitrary: d) (auto simp: word_or_0 word_xor_0)

lemma zip_all_eq: "length a = length b \<Longrightarrow> (\<forall>(x, y) \<in> set (zip a b). x = y) \<longleftrightarrow> a = b"
  by (induction a b rule: list_induct2) auto

lemma ct_eq_iff: "length a = length b \<Longrightarrow> ct_eq a b \<longleftrightarrow> a = b"
  by (simp add: ct_eq_def fold_diff_0 zip_all_eq)

section \<open>First write wins\<close>

fun op_time :: "op \<Rightarrow> instant" where
  "op_time (Register new lim now) = now"
| "op_time (AuthUrl k now) = now"
| "op_time (Kind k now) = now"
| "op_time (Park k v now) = now"
| "op_time (Claim k h now) = now"
| "op_time (Sweep now) = now"

definition settled :: "string \<Rightarrow> parked \<Rightarrow> sessions \<Rightarrow> bool" where
  "settled k v ss \<longleftrightarrow> (\<forall>s. map_of ss k = Some s \<longrightarrow> parked s = v)"

lemma settled_step:
  assumes "wf_table ss" "settled k v ss" "v \<noteq> Pending" "\<not> registers k x (fst (step x ss))"
  shows "settled k v (snd (step x ss))"
  using step_lookup [OF assms(1), of x k] assms by (auto simp: settled_def)

definition hands_over_other :: "string \<Rightarrow> parked \<Rightarrow> op \<Rightarrow> out \<Rightarrow> bool" where
  "hands_over_other k v x out \<longleftrightarrow> hands_over k x out
     \<and> \<not> (case out of ClaimResult (Complete c) \<Rightarrow> v = Code c
          | ClaimResult (Refused e) \<Rightarrow> v = Denied e | _ \<Rightarrow> False)"

lemma settled_hands_over:
  assumes "settled k v ss"
  shows "\<not> hands_over_other k v x (fst (step x ss))"
proof
  assume other: "hands_over_other k v x (fst (step x ss))"
  then obtain h now s where x: "x = Claim k h now" and s: "map_of ss k = Some s" "\<not> expired s now"
      "ct_eq (claim_token_hash s) h" "parked s \<noteq> Pending"
    by (auto simp: hands_over_other_def hands_over_claim)
  from s(1) assms have "parked s = v" by (simp add: settled_def)
  with other x s show False
    by (cases v) (simp_all add: hands_over_other_def claim_def)
qed

lemma settled_run:
  "broker_inv ss \<Longrightarrow> settled k v ss \<Longrightarrow> v \<noteq> Pending \<Longrightarrow> times (registers k) (trace step xs ss) = 0 \<Longrightarrow>
     times (hands_over_other k v) (trace step xs ss) = 0"
proof (induction xs arbitrary: ss)
  case Nil
  then show ?case by simp
next
  case (Cons x xs)
  from Cons.prems have r: "\<not> registers k x (fst (step x ss))"
    and rest: "times (registers k) (trace step xs (snd (step x ss))) = 0"
    by (auto split: if_splits)
  have "settled k v (snd (step x ss))"
    using Cons.prems r by (intro settled_step) (auto simp: broker_inv_def)
  with Cons.IH [OF broker_inv_step [OF Cons.prems(1)] _ Cons.prems(3) rest]
  show ?case using settled_hands_over [OF Cons.prems(2)] by simp
qed

lemma park_settles: "fst (park k v now ss) = Parked \<Longrightarrow> settled k v (snd (park k v now ss))"
  by (auto simp: park_def settled_def map_of_update split: option.splits if_splits)

text \<open>A live session with an outcome parked in it is left alone by every operation but the
  claim that collects it.\<close>

lemma live_step:
  assumes "wf_table ss" "map_of ss k = Some s" "parked s \<noteq> Pending" "\<not> expired s (op_time x)"
    "\<not> hands_over k x (fst (step x ss))"
  shows "map_of (snd (step x ss)) k = Some s"
proof (cases x)
  case (Register new lim now)
  have "map_of (bttl.live now ss) k = Some s"
    using assms Register by (simp add: bttl.live_lookup_Some)
  then show ?thesis using Register by (auto simp: register_def Let_def retain_live map_of_update)
next
  case (Claim k' h now)
  then show ?thesis
    using assms by (auto simp: claim_def map_of_delete split: option.splits parked.splits if_splits)
next
  case (Sweep now)
  have "map_of (bttl.live now ss) k = Some s"
    using assms Sweep by (simp add: bttl.live_lookup_Some)
  then show ?thesis using Sweep by (simp add: sweep_def Let_def retain_live)
qed (use assms in \<open>auto simp: get_auth_url_def park_def map_of_update map_of_delete split: option.split\<close>)

lemma live_run:
  "broker_inv ss \<Longrightarrow> map_of ss k = Some s \<Longrightarrow> parked s = v \<Longrightarrow> v \<noteq> Pending \<Longrightarrow>
     list_all (\<lambda>x. \<not> expired s (op_time x)) xs \<Longrightarrow>
     (case filter (\<lambda>(x, out). hands_over k x out) (trace step xs ss) of
        [] \<Rightarrow> map_of (final step xs ss) k = Some s \<and> parked s = v
      | (x, out) # later \<Rightarrow> \<not> hands_over_other k v x out
          \<and> (\<exists>h t. x = Claim k h t \<and> ct_eq (claim_token_hash s) h))"
proof (induction xs arbitrary: ss)
  case (Cons x xs)
  show ?case
  proof (cases "hands_over k x (fst (step x ss))")
    case True
    with settled_hands_over [of k v ss x] Cons.prems show ?thesis
      by (auto simp: settled_def hands_over_claim)
  next
    case False
    then have "map_of (snd (step x ss)) k = Some s"
      using Cons.prems by (intro live_step) (auto simp: broker_inv_def)
    from Cons.IH [OF broker_inv_step [OF Cons.prems(1)] this] Cons.prems False
    show ?thesis by (simp cong: list.case_cong)
  qed
qed simp

section \<open>Sweeping is unobservable\<close>

fun is_sweep :: "op \<Rightarrow> bool" where
  "is_sweep (Sweep now) = True"
| "is_sweep _ = False"

lemma session_cases:
  assumes "wf_table ss"
  obtains (absent) "map_of ss k = None" "bttl.visible t ss k = None"
    | (dead) s where "map_of ss k = Some s" "expired s t" "bttl.visible t ss k = None"
    | (alive) s where "map_of ss k = Some s" "\<not> expired s t" "bttl.visible t ss k = Some s"
  using assms by (cases "map_of ss k") (auto simp: bttl.visible_eq)

lemma claim_visible:
  "wf_table ss \<Longrightarrow> fst (claim k h now ss) = (case bttl.visible now ss k of None \<Rightarrow> NotFound
     | Some s \<Rightarrow> if \<not> ct_eq (claim_token_hash s) h then Forbidden
         else case parked s of Pending \<Rightarrow> ClaimPending | Code c \<Rightarrow> Complete c | Denied e \<Rightarrow> Refused e)"
  by (cases rule: session_cases [of ss k now]) (auto simp: claim_def split: parked.split)

lemma same_live_session:
  assumes "bttl.same_live t a b"
  obtains (none) "bttl.visible t a k = None" "bttl.visible t b k = None"
    | (some) s where "map_of a k = Some s" "map_of b k = Some s" "\<not> expired s t"
proof (cases "bttl.visible t a k")
  case None
  with bttl.same_live_visible [OF assms, of k] none show ?thesis by simp
next
  case (Some s)
  with bttl.same_live_visible [OF assms, of k] have "bttl.visible t b k = Some s" by simp
  moreover have "wf_table a" "wf_table b" using assms by (simp_all add: bttl.same_live_def)
  ultimately show ?thesis using Some some by (meson bttl.visible_Some)
qed

lemma none_cases:
  assumes "wf_table a" "bttl.visible t a k = None"
  obtains "map_of a k = None" | s where "map_of a k = Some s" "expired s t"
  using assms by (auto simp: bttl.visible_eq split: option.splits if_splits)

lemma same_live_register:
  assumes "bttl.same_live now a b"
  shows "fst (register new lim now a) = fst (register new lim now b)
    \<and> bttl.same_live now (snd (register new lim now a)) (snd (register new lim now b))"
proof -
  have l: "bttl.same_live now (bttl.live now a) (bttl.live now b)"
    using assms by (meson bttl.same_live_live bttl.same_live_sym order_refl)
  have "map_of (bttl.live now a) k = map_of (bttl.live now b) k" for k
    using bttl.same_live_visible [OF assms] by (simp add: bttl.visible_def)
  then show ?thesis
    using l bttl.same_live_count [OF assms] bttl.same_live_length [OF assms]
    by (auto simp: register_def Let_def retain_live bttl.same_live_update split: option.split)
qed

lemma same_live_dead:
  assumes "bttl.same_live t a b" "bttl.visible t a k = None"
  shows "bttl.same_live t (AList.delete k a) b" "bttl.same_live t a (AList.delete k b)"
    "bttl.same_live t (AList.delete k a) (AList.delete k b)"
  using assms bttl.same_live_delete_expired bttl.same_live_sym bttl.same_live_delete
  by (metis bttl.same_live_visible)+

lemma same_live_step:
  assumes same: "bttl.same_live (op_time x) a b" and op: "\<not> is_sweep x"
  shows "fst (step x a) = fst (step x b) \<and> bttl.same_live (op_time x) (snd (step x a)) (snd (step x b))"
proof -
  have wf: "wf_table a" "wf_table b" using same by (simp_all add: bttl.same_live_def)
  show ?thesis
  proof (cases x)
    case (Register new lim now)
    with same same_live_register show ?thesis by simp
  next
    case (AuthUrl k now)
    with same have "bttl.same_live now a b" by simp
    from same_live_session [OF this, of k] show ?thesis
      using AuthUrl wf same same_live_dead [of now a b k]
      by cases (auto simp: get_auth_url_def elim!: none_cases [OF wf(1)] none_cases [OF wf(2)])
  next
    case (Kind k now)
    with same have "bttl.same_live now a b" by simp
    from same_live_session [OF this, of k] show ?thesis
      using Kind wf same by cases (auto simp: get_kind_def elim!: none_cases [OF wf(1)] none_cases [OF wf(2)])
  next
    case (Park k v now)
    with same have now: "bttl.same_live now a b" by simp
    from same_live_session [OF this, of k] show ?thesis
      using Park wf same same_live_dead [of now a b k] bttl.same_live_update [OF now]
      by cases (auto simp: park_def elim!: none_cases [OF wf(1)] none_cases [OF wf(2)])
  next
    case (Claim k h now)
    with same have now: "bttl.same_live now a b" by simp
    from same_live_session [OF this, of k] show ?thesis
      using Claim wf same same_live_dead [of now a b k] bttl.same_live_delete [OF now]
      by cases (auto simp: claim_def split: parked.split elim!: none_cases [OF wf(1)] none_cases [OF wf(2)])
  next
    case (Sweep now)
    with op show ?thesis by simp
  qed
qed

definition clocked :: "instant \<Rightarrow> op list \<Rightarrow> bool" where
  "clocked t xs \<longleftrightarrow> sorted (t # map op_time xs)"

lemma sweep_same_live: "bttl.same_live now a b \<Longrightarrow> bttl.same_live now (snd (step (Sweep now) a)) b"
  by (simp add: sweep_def Let_def retain_live bttl.same_live_live)

lemma sweeps_erase:
  "bttl.same_live t a b \<Longrightarrow> clocked t xs \<Longrightarrow>
     filter (\<lambda>(x, out). \<not> is_sweep x) (trace step xs a) = trace step (filter (\<lambda>x. \<not> is_sweep x) xs) b"
proof (induction xs arbitrary: t a b)
  case Nil
  then show ?case by simp
next
  case (Cons x xs)
  have t: "t \<le> op_time x" and c: "clocked (op_time x) xs"
    using Cons.prems(2) by (simp_all add: clocked_def)
  from Cons.prems(1) t have same: "bttl.same_live (op_time x) a b" by (rule bttl.same_live_later)
  show ?case
  proof (cases "is_sweep x")
    case True
    then obtain now where "x = Sweep now" by (cases x) auto
    with same have "bttl.same_live (op_time x) (snd (step x a)) b"
      using sweep_same_live by simp
    from Cons.IH [OF this c] True show ?thesis by simp
  next
    case False
    from same_live_step [OF same False] Cons.IH [OF _ c] False show ?thesis by simp
  qed
qed

section \<open>Per-client share\<close>

fun limited :: "nat \<Rightarrow> op \<Rightarrow> bool" where
  "limited n (Register new lim now) = (case lim of Some l \<Rightarrow> l \<le> n | None \<Rightarrow> False)"
| "limited n _ = True"

definition share :: "ip_addr \<Rightarrow> sessions \<Rightarrow> nat" where
  "share ip ss = count_vals (\<lambda>s. owner s = ip) ss"

lemma share_delete_le: "share ip (AList.delete k ss) \<le> share ip ss"
  by (simp add: share_def count_vals_delete_le)

lemma share_live_le: "share ip (bttl.live now ss) \<le> share ip ss"
  by (simp add: share_def bttl.live_def count_vals_retain_le)

lemma count_vals_update_same:
  "map_of t k = Some v \<Longrightarrow> wf_table t \<Longrightarrow> p w = p v \<Longrightarrow> count_vals p (AList.update k w t) = count_vals p t"
  unfolding count_vals_def retain_def wf_table_def
  by (induction t) (auto split: if_splits simp: rev_image_eqI dest: map_of_SomeD)

lemma share_register:
  "wf_table ss \<Longrightarrow> share ip ss \<le> n \<Longrightarrow> l \<le> n \<Longrightarrow> share ip (snd (register new (Some l) now ss)) \<le> n"
  using share_live_le [of ip now ss]
  by (auto simp: register_def Let_def retain_live share_def count_vals_update_new map_of_None_fresh)

lemma share_park: "wf_table ss \<Longrightarrow> share ip (snd (park k v now ss)) \<le> share ip ss"
  using share_delete_le [of ip k ss]
  by (auto simp: park_def share_def count_vals_update_same split: option.split)

lemma share_claim: "share ip (snd (claim k h now ss)) \<le> share ip ss"
  using share_delete_le [of ip k ss] by (auto simp: claim_def split: option.split parked.split)

lemma share_step:
  assumes "wf_table ss" "share ip ss \<le> n" "limited n x"
  shows "share ip (snd (step x ss)) \<le> n"
proof (cases x)
  case (Register new lim now)
  with assms show ?thesis by (auto simp: share_register split: option.splits)
next
  case (AuthUrl k now)
  with assms share_delete_le [of ip k ss] show ?thesis
    by (auto simp: get_auth_url_def split: option.split)
next
  case (Park k v now)
  with assms share_park [OF assms(1), of ip k v now] show ?thesis by simp
next
  case (Claim k h now)
  with assms share_claim [of ip k h now ss] show ?thesis by simp
next
  case (Sweep now)
  with assms share_live_le [of ip now ss] show ?thesis by (simp add: sweep_def Let_def retain_live)
qed (use assms in simp)

lemma share_run:
  "broker_inv ss \<Longrightarrow> share ip ss \<le> n \<Longrightarrow> list_all (limited n) xs \<Longrightarrow> share ip (final step xs ss) \<le> n"
proof (induction xs arbitrary: ss)
  case (Cons x xs)
  then show ?case
    using broker_inv_step [of ss x] share_step [of ss ip n x] by (simp add: broker_inv_def)
qed simp

section \<open>Properties\<close>

text \<open>C1. Claims are one-time: from the empty table, over any sequence of operations by any
  number of clients at any times, a session's outcome is handed over at most as often as
  that session id was successfully registered. Two daemons polling concurrently can
  never both be given the same code.\<close>

theorem claims_at_most_registrations:
  "times (hands_over k) (trace step xs []) \<le> times (registers k) (trace step xs [])"
  by (rule broker.redeemed_at_most_issued) (simp_all add: broker_inv_def has_session_def)

text \<open>C2. First write wins: once a callback outcome has been parked in a session, then
  for as long as the session lives, whatever is registered (the same id included), parked,
  read, swept or claimed in between, the session stays exactly as it is until a claim with
  the registered digest collects it, and that claim is given the parked outcome: a replayed
  redirect cannot swap the code, and a second registration cannot take the session over.\<close>

theorem first_write_wins:
  assumes "broker_inv ss" and "fst (park k v now ss) = Parked" and "v \<noteq> Pending"
    and "map_of (snd (park k v now ss)) k = Some s"
    and "list_all (\<lambda>x. \<not> expired s (op_time x)) xs"
  shows "case filter (\<lambda>(x, out). hands_over k x out) (trace step xs (snd (park k v now ss))) of
      [] \<Rightarrow> map_of (final step xs (snd (park k v now ss))) k = Some s \<and> parked s = v
    | (x, out) # later \<Rightarrow> \<not> hands_over_other k v x out
        \<and> (\<exists>h t. x = Claim k h t \<and> ct_eq (claim_token_hash s) h)"
  using assms park_settles [OF assms(2)]
  by (intro live_run broker_inv_park) (simp_all add: settled_def)

text \<open>A registration and a run used by the witnesses.\<close>

definition reg0 :: new_session where
  "reg0 = \<lparr>ns_id = ''s'', ns_kind = SelfHost, ns_hash = replicate 32 7, ns_auth_url = ''u'',
     ns_owner = V4 1\<rparr>"

definition ss0 :: sessions where
  "ss0 = snd (register reg0 (Some 16) 0 [])"

lemma ss0_eq: "ss0 = [(''s'', \<lparr>kind = SelfHost, claim_token_hash = replicate 32 7, auth_url = ''u'',
    owner = V4 1, parked = Pending, created_at = 0\<rparr>)]"
  by (simp add: ss0_def reg0_def register_def Let_def retain_def count_vals_def MAX_SESSIONS_def)

lemma inv_ss0: "broker_inv ss0"
  by (simp add: ss0_eq broker_inv_def wf_table_def MAX_SESSIONS_def)

text \<open>The same id is registered again, another code is parked over the first one, and the
  daemon then collects: it is given the first code.\<close>

definition replay0 :: "op list" where
  "replay0 = [Register (reg0\<lparr>ns_hash := replicate 32 9\<rparr>) None 2, Park ''s'' (Code ''evil'') 2,
     Claim ''s'' (replicate 32 9) 3, Claim ''s'' (replicate 32 7) 3]"

theorem first_write_wins_witness:
  "case filter (\<lambda>(x, out). hands_over ''s'' x out)
        (trace step replay0 (snd (park ''s'' (Code ''c'') 1 ss0))) of
      [] \<Rightarrow> False
    | (x, out) # later \<Rightarrow> \<not> hands_over_other ''s'' (Code ''c'') x out
        \<and> out = ClaimResult (Complete ''c'')"
proof -
  let ?s = "\<lparr>kind = SelfHost, claim_token_hash = replicate 32 7, auth_url = ''u'',
    owner = V4 1, parked = Code ''c'', created_at = 0\<rparr>"
  have live: "\<not> expired ?s t" if "t \<le> 3" for t
    using that by (simp add: expired_def SESSION_TTL_def secs_def since_def)
  have p: "park ''s'' (Code ''c'') 1 ss0 = (Parked, [(''s'', ?s)])"
    by (simp add: ss0_eq park_def expired_def SESSION_TTL_def secs_def since_def)
  have tr: "filter (\<lambda>(x, out). hands_over ''s'' x out) (trace step replay0 [(''s'', ?s)])
      = [(Claim ''s'' (replicate 32 7) 3, ClaimResult (Complete ''c''))]"
    using live [of 2] live [of 3]
    by (simp add: replay0_def reg0_def register_def retain_def Let_def park_def claim_def
        ct_eq_iff replicate_eq_replicate)
  have "list_all (\<lambda>x. \<not> expired ?s (op_time x)) replay0"
    by (simp add: replay0_def live)
  with first_write_wins [of ss0 "''s''" "Code ''c''" 1 ?s replay0] p tr inv_ss0
  show ?thesis by simp
qed

text \<open>A code is released only to the holder of the registered token: a claim answers
  \<open>Complete c\<close> exactly when the session exists, has not expired, its registered digest is
  the presented one, and \<open>c\<close> is what was parked; a wrong guess is \<open>Forbidden\<close> and leaves
  the table as it was.\<close>

theorem claim_complete_iff:
  assumes "\<And>s. map_of ss k = Some s \<Longrightarrow> length (claim_token_hash s) = 32" and "length h = 32"
  shows "(fst (claim k h now ss) = Complete c \<longleftrightarrow>
       (\<exists>s. map_of ss k = Some s \<and> \<not> expired s now \<and> claim_token_hash s = h \<and> parked s = Code c))
    \<and> (claim k h now ss = (Forbidden, ss) \<longleftrightarrow>
       (\<exists>s. map_of ss k = Some s \<and> \<not> expired s now \<and> claim_token_hash s \<noteq> h))"
  using assms by (auto simp: claim_def ct_eq_iff split: option.splits parked.splits)

theorem claim_complete_iff_witness:
  "claim ''s'' (replicate 32 8) 1 ss0 = (Forbidden, ss0)"
proof -
  have l: "length (claim_token_hash s) = 32" if "map_of ss0 ''s'' = Some s" for s
    using that by (auto simp: ss0_eq)
  have "\<exists>s. map_of ss0 ''s'' = Some s \<and> \<not> expired s 1 \<and> claim_token_hash s \<noteq> replicate 32 8"
    by (simp add: ss0_eq expired_def SESSION_TTL_def secs_def since_def replicate_eq_replicate)
  then show ?thesis
    using claim_complete_iff [where ss = ss0 and k = "''s''" and h = "replicate 32 8", OF l] by simp
qed

text \<open>Lazy expiry is sound: with a clock that does not run backwards, inserting or
  dropping sweeps anywhere in a run changes no answer of any other operation. What the
  background sweep (and the sweep inside \<open>register\<close>) removes was already invisible.\<close>

theorem sweeping_is_unobservable:
  assumes "clocked t xs"
  shows "filter (\<lambda>(x, out). \<not> is_sweep x) (trace step xs []) =
     trace step (filter (\<lambda>x. \<not> is_sweep x) xs) []"
  using assms by (intro sweeps_erase) simp

theorem sweeping_is_unobservable_witness:
  "filter (\<lambda>(x, out). \<not> is_sweep x)
       (trace step [Register reg0 None 0, Sweep (secs 600), Kind ''s'' (secs 600)] []) =
     trace step [Register reg0 None 0, Kind ''s'' (secs 600)] []"
  using sweeping_is_unobservable [of 0 "[Register reg0 None 0, Sweep (secs 600), Kind ''s'' (secs 600)]"]
  by (simp add: clocked_def secs_def)

text \<open>The table is bounded: however registrations, callbacks and claims interleave, it
  never holds more than \<open>MAX_SESSIONS\<close> sessions, and when every registration enforces a
  per-client limit of at most \<open>n\<close>, no client ever holds more than \<open>n\<close> of them.\<close>

theorem session_table_bounded:
  assumes "list_all (limited n) xs"
  shows "length (final step xs []) \<le> MAX_SESSIONS \<and> share ip (final step xs []) \<le> n"
proof -
  have i: "broker_inv []" by (simp add: broker_inv_def)
  have "broker_inv (final step xs [])" using i by (rule broker.inv_final)
  moreover have "share ip (final step xs []) \<le> n"
    using assms by (intro share_run [OF i]) (simp_all add: share_def count_vals_def retain_def)
  ultimately show ?thesis by (simp add: broker_inv_def)
qed

theorem session_table_bounded_witness:
  "share (V4 1) (final step [Register reg0 (Some MAX_SESSIONS_PER_CLIENT) 0] []) \<le> 16"
  using session_table_bounded [of 16 "[Register reg0 (Some MAX_SESSIONS_PER_CLIENT) 0]" "V4 1"]
  by (simp add: MAX_SESSIONS_PER_CLIENT_def)

end
