(* ===== verification/Control_Sessions.thy ===== *)
theory Control_Sessions
  imports Machine
begin

text \<open>
  \<open>squelch-control/src/sessions.rs\<close>: the control plane's table of pending OAuth flows.
  A flow is inserted when a browser is sent to Google and taken, once, by the callback.
  Sessions a stranger can open (the identity flows) share a carved-out ceiling, so a
  flood of them cannot crowd out signups. Times are the callers' \<open>Instant\<close>s.
\<close>

definition SESSION_TTL :: duration where
  "SESSION_TTL = secs (10 * 60)"

definition MAX_SESSIONS :: nat where
  "MAX_SESSIONS = 4096"

definition MAX_IDENTITY_SESSIONS :: nat where
  "MAX_IDENTITY_SESSIONS = 512"

datatype session_kind = Signup int | Console | App | Reconnect

definition invite_id :: "session_kind \<Rightarrow> int option" where
  "invite_id k = (case k of Signup i \<Rightarrow> Some i | Console \<Rightarrow> None | App \<Rightarrow> None | Reconnect \<Rightarrow> None)"

definition is_identity :: "session_kind \<Rightarrow> bool" where
  "is_identity k = (case k of Console \<Rightarrow> True | App \<Rightarrow> True | Reconnect \<Rightarrow> True | Signup _ \<Rightarrow> False)"

record pending_session =
  kind :: session_kind
  state :: string
  pkce_verifier :: string
  label :: string
  created :: instant

datatype insert_error = Full

type_synonym sessions = "(string, pending_session) table"

text \<open>Live means: at most \<open>SESSION_TTL\<close> old (inclusive, unlike the broker's table).\<close>

definition expired :: "pending_session \<Rightarrow> instant \<Rightarrow> bool" where
  "expired s now \<longleftrightarrow> \<not> since now (created s) \<le> SESSION_TTL"

section \<open>Operations\<close>

definition sweep :: "instant \<Rightarrow> sessions \<Rightarrow> nat \<times> sessions" where
  "sweep now ss =
     (let before = length ss; ss = retain (\<lambda>s. \<not> expired s now) ss in (before - length ss, ss))"

definition identity_len :: "sessions \<Rightarrow> nat" where
  "identity_len ss = count_vals (\<lambda>s. is_identity (kind s)) ss"

definition insert_session ::
    "string \<Rightarrow> session_kind \<Rightarrow> string \<Rightarrow> string \<Rightarrow> string \<Rightarrow> instant \<Rightarrow> sessions
       \<Rightarrow> (insert_error + unit) \<times> sessions" where
  "insert_session sid k st verifier lbl now ss =
     (let ss = snd (sweep now ss) in
      if MAX_SESSIONS \<le> length ss then (Inl Full, ss)
      else if is_identity k \<and> MAX_IDENTITY_SESSIONS \<le> identity_len ss then (Inl Full, ss)
      else (Inr (), AList.update sid
             \<lparr>kind = k, state = st, pkce_verifier = verifier, label = lbl, created = now\<rparr> ss))"

definition take_session :: "string \<Rightarrow> instant \<Rightarrow> sessions \<Rightarrow> pending_session option \<times> sessions" where
  "take_session sid now ss =
     (case map_of ss sid of
        None \<Rightarrow> (None, ss)
      | Some s \<Rightarrow> (if since now (created s) \<le> SESSION_TTL then Some s else None, AList.delete sid ss))"

datatype op =
    Insert string session_kind string string string instant
  | Take string instant
  | Sweep instant

datatype out = Inserted "insert_error + unit" | Taken "pending_session option" | Swept nat

fun step :: "op \<Rightarrow> sessions \<Rightarrow> out \<times> sessions" where
  "step (Insert sid k st v l now) ss = apfst Inserted (insert_session sid k st v l now ss)"
| "step (Take sid now) ss = apfst Taken (take_session sid now ss)"
| "step (Sweep now) ss = apfst Swept (sweep now ss)"

section \<open>Invariant\<close>

definition session_inv :: "sessions \<Rightarrow> bool" where
  "session_inv ss \<longleftrightarrow> wf_table ss \<and> length ss \<le> MAX_SESSIONS \<and> identity_len ss \<le> MAX_IDENTITY_SESSIONS"

interpretation cttl: ttl_table expired
  by unfold_locales (auto simp: expired_def since_def)

lemma sweep_live: "snd (sweep now ss) = cttl.live now ss"
  by (simp add: sweep_def Let_def cttl.live_def)

lemma identity_len_live: "identity_len (cttl.live now ss) \<le> identity_len ss"
  by (simp add: identity_len_def cttl.live_def count_vals_retain_le)

lemma session_inv_live: "session_inv ss \<Longrightarrow> session_inv (cttl.live now ss)"
  unfolding session_inv_def
  using cttl.wf_live cttl.length_live_le identity_len_live order_trans by blast

lemma session_inv_delete: "session_inv ss \<Longrightarrow> session_inv (AList.delete k ss)"
  using length_delete_le [of k ss] count_vals_delete_le [of "\<lambda>s. is_identity (kind s)" k ss]
  by (simp add: session_inv_def identity_len_def)

lemma identity_len_update_le:
  "identity_len (AList.update k v ss) \<le> identity_len ss + (if is_identity (kind v) then 1 else 0)"
  using count_vals_update_le [of "\<lambda>s. is_identity (kind s)" k v ss] by (simp add: identity_len_def)

lemma session_inv_update:
  assumes "session_inv ss" "length ss < MAX_SESSIONS"
    and "is_identity (kind v) \<Longrightarrow> identity_len ss < MAX_IDENTITY_SESSIONS"
  shows "session_inv (AList.update k v ss)"
proof -
  have "length (AList.update k v ss) \<le> MAX_SESSIONS"
    using assms(2) by (simp add: length_update)
  moreover have "identity_len (AList.update k v ss) \<le> MAX_IDENTITY_SESSIONS"
    using identity_len_update_le [of k v ss] assms by (cases "is_identity (kind v)") (simp_all add: session_inv_def)
  ultimately show ?thesis using assms(1) by (simp add: session_inv_def)
qed

lemma session_inv_step: "session_inv ss \<Longrightarrow> session_inv (snd (step x ss))"
proof (cases x)
  case (Insert sid k st v l now)
  assume "session_inv ss"
  then have "session_inv (cttl.live now ss)" by (rule session_inv_live)
  then show ?thesis using Insert
    by (auto simp: insert_session_def Let_def sweep_live intro!: session_inv_update)
next
  case (Take sid now)
  assume "session_inv ss"
  then show ?thesis using Take by (auto simp: take_session_def session_inv_delete split: option.split)
next
  case (Sweep now)
  assume "session_inv ss"
  then show ?thesis using Sweep by (simp add: sweep_live session_inv_live)
qed

definition has_session :: "string \<Rightarrow> sessions \<Rightarrow> bool" where
  "has_session k ss \<longleftrightarrow> map_of ss k \<noteq> None"

fun inserts :: "string \<Rightarrow> op \<Rightarrow> out \<Rightarrow> bool" where
  "inserts k (Insert sid _ _ _ _ _) (Inserted (Inr ())) = (sid = k)"
| "inserts k _ _ = False"

fun takes :: "string \<Rightarrow> op \<Rightarrow> out \<Rightarrow> bool" where
  "takes k (Take sid now) (Taken (Some s)) = (sid = k)"
| "takes k _ _ = False"

lemma live_absent: "wf_table ss \<Longrightarrow> map_of ss k = None \<Longrightarrow> map_of (cttl.live now ss) k = None"
  by (simp add: cttl.live_def map_of_retain)

interpretation pending: one_shot step session_inv has_session inserts takes
proof
  fix s x k
  assume inv: "session_inv s"
  show "session_inv (snd (step x s))" using inv by (rule session_inv_step)
  show "takes k x (fst (step x s)) \<Longrightarrow> has_session k s"
    by (cases x) (auto simp: has_session_def take_session_def split: option.splits if_splits)
  show "takes k x (fst (step x s)) \<Longrightarrow> \<not> has_session k (snd (step x s))"
    by (cases x) (auto simp: has_session_def take_session_def map_of_delete split: option.splits if_splits)
  show "\<not> has_session k s \<Longrightarrow> has_session k (snd (step x s)) \<Longrightarrow> inserts k x (fst (step x s))"
    using inv live_absent [of s k]
    by (cases x) (auto simp: has_session_def insert_session_def take_session_def sweep_live Let_def
        map_of_update map_of_delete session_inv_def split: option.splits if_splits)
qed

lemma length_split: "length ss = count_vals p ss + count_vals (\<lambda>s. \<not> p s) ss"
  unfolding count_vals_def retain_def by (induction ss) auto

section \<open>Properties\<close>

text \<open>The OAuth callback is one-shot: over any run from the empty table a pending
  session is handed to a callback at most as often as it was opened, so a replayed
  redirect or a code delivered twice finds nothing.\<close>

theorem callbacks_at_most_sessions:
  "times (takes k) (trace step xs []) \<le> times (inserts k) (trace step xs [])"
  by (rule pending.redeemed_at_most_issued)
    (simp_all add: session_inv_def has_session_def identity_len_def count_vals_def retain_def)

text \<open>The carve-out holds: after any run from the empty table both ceilings are
  respected, and a signup is refused exactly when the live signups together with the at
  most \<open>MAX_IDENTITY_SESSIONS\<close> live logins fill the table. Login flooding alone can
  never refuse a signup: at least \<open>MAX_SESSIONS - MAX_IDENTITY_SESSIONS\<close> slots are out
  of its reach.\<close>

theorem logins_cannot_crowd_out_signups:
  "let ss = final step xs [] in session_inv ss
    \<and> (fst (insert_session sid (Signup i) st v l now ss) = Inl Full \<longleftrightarrow>
        MAX_SESSIONS \<le> count_vals (\<lambda>s. \<not> is_identity (kind s)) (cttl.live now ss)
                        + identity_len (cttl.live now ss))
    \<and> identity_len (cttl.live now ss) \<le> MAX_IDENTITY_SESSIONS"
proof -
  define ss where "ss = final step xs []"
  have inv: "session_inv ss" unfolding ss_def
    by (rule pending.inv_final) (simp add: session_inv_def identity_len_def count_vals_def retain_def)
  then have "session_inv (cttl.live now ss)" by (rule session_inv_live)
  with inv show ?thesis
    using length_split [of "cttl.live now ss" "\<lambda>s. is_identity (kind s)"]
    by (auto simp: insert_session_def Let_def sweep_live is_identity_def identity_len_def
        session_inv_def add.commute ss_def [symmetric])
qed

end
