(* ===== verification/Labels.thy ===== *)
theory Labels
  imports Rust_Text
begin

text \<open>
  Tenant labels, on both sides of the hosted wire: \<open>squelch-control/src/labels.rs\<close>
  (what the signup form accepts) and the label half of
  \<open>squelch-warden/src/validate.rs\<close> (what the provisioner accepts, and the Kubernetes
  object names it derives from a label).

  The control plane matches the label against a regular expression with the \<open>regex\<close>
  crate. That engine is not modelled: its match is the parameter \<open>re\<close> of the control
  definitions, and \<open>label_re_spec\<close> is what the documented syntax says of the pattern
  \<open>^[a-z0-9](?:[a-z0-9-]{1,28}[a-z0-9])?$\<close>.
\<close>

definition MIN_LABEL_LEN :: nat where
  "MIN_LABEL_LEN = 3"

definition MAX_LABEL_LEN :: nat where
  "MAX_LABEL_LEN = 30"

definition RESERVED :: "string list" where
  "RESERVED = [''www'', ''mail'', ''smtp'', ''imap'', ''auth'', ''api'', ''admin'', ''signup'',
     ''warden'', ''mcp'', ''status'', ''help'', ''docs'', ''app'', ''relay'', ''track'']"

definition label_edge :: "char \<Rightarrow> bool" where
  "label_edge c \<longleftrightarrow> is_ascii_lower c \<or> is_ascii_digit c"

definition label_inner :: "char \<Rightarrow> bool" where
  "label_inner c \<longleftrightarrow> label_edge c \<or> c = CHR ''-''"

text \<open>One edge character, then optionally one to 28 inner characters and an edge one.\<close>

definition label_shape :: "string \<Rightarrow> bool" where
  "label_shape s \<longleftrightarrow> (\<exists>a. s = [a] \<and> label_edge a)
     \<or> (\<exists>a m z. s = a # m @ [z] \<and> label_edge a \<and> label_edge z
          \<and> list_all label_inner m \<and> 1 \<le> length m \<and> length m \<le> 28)"

definition label_re_spec :: "(string \<Rightarrow> bool) \<Rightarrow> bool" where
  "label_re_spec re \<longleftrightarrow> (\<forall>s. re s = label_shape s)"

section \<open>The control plane's check\<close>

datatype label_error = Empty | TooShort | TooLong | Charset | HyphenEdge | Reserved

text \<open>\<open>u\<close> renders a length, \<open>format!\<close>'s decimal.\<close>

definition message :: "(nat \<Rightarrow> string) \<Rightarrow> label_error \<Rightarrow> string" where
  "message u e = (case e of
       Empty \<Rightarrow> ''Choose an address for your mailbox.''
     | TooShort \<Rightarrow> ''That address is too short. Use at least '' @ u MIN_LABEL_LEN @ '' characters.''
     | TooLong \<Rightarrow> ''That address is too long. Use at most '' @ u MAX_LABEL_LEN @ '' characters.''
     | Charset \<Rightarrow> ''Use lowercase letters, numbers, and hyphens only.''
     | HyphenEdge \<Rightarrow> ''An address cannot start or end with a hyphen.''
     | Reserved \<Rightarrow> ''That address is reserved. Pick another one.'')"

definition normalize :: "string \<Rightarrow> string" where
  "normalize raw = to_lowercase (trim raw)"

definition validate :: "(string \<Rightarrow> bool) \<Rightarrow> string \<Rightarrow> label_error + string" where
  "validate re label =
     (if label = [] then Inl Empty
      else let chars = length label in
        if chars < MIN_LABEL_LEN then Inl TooShort
        else if MAX_LABEL_LEN < chars then Inl TooLong
        else if \<not> re label then
          Inl (if starts_with label ''-'' \<or> ends_with label ''-'' then HyphenEdge else Charset)
        else if label \<in> set RESERVED then Inl Reserved
        else Inr label)"

definition parse :: "(string \<Rightarrow> bool) \<Rightarrow> string \<Rightarrow> label_error + string" where
  "parse re raw = (let n = normalize raw in case validate re n of Inl e \<Rightarrow> Inl e | Inr _ \<Rightarrow> Inr n)"

section \<open>The warden's check and the names it derives\<close>

datatype warden_label_error = WTooShort | WTooLong | WCharset | WHyphen | WReserved

definition normalize_label :: "string \<Rightarrow> string" where
  "normalize_label raw = to_ascii_lowercase (trim raw)"

definition validate_label :: "string \<Rightarrow> warden_label_error + string" where
  "validate_label raw =
     (let label = normalize_label raw in
      if byte_len label < MIN_LABEL_LEN then Inl WTooShort
      else if MAX_LABEL_LEN < byte_len label then Inl WTooLong
      else if \<not> list_all (\<lambda>b. is_ascii_lower b \<or> is_ascii_digit b \<or> b = CHR ''-'') label
        then Inl WCharset
      else if starts_with label ''-'' \<or> ends_with label ''-'' then Inl WHyphen
      else if label \<in> set RESERVED then Inl WReserved
      else Inr label)"

datatype tenant_name = TenantName (as_str: string)

definition parse_tenant :: "string \<Rightarrow> warden_label_error + tenant_name" where
  "parse_tenant raw = (case validate_label raw of Inl e \<Rightarrow> Inl e | Inr l \<Rightarrow> Inr (TenantName l))"

definition IDENTITY_SUFFIX :: string where
  "IDENTITY_SUFFIX = ''-identity''"

definition data_pvc :: "tenant_name \<Rightarrow> string" where
  "data_pvc t = as_str t @ ''-data''"

definition identity_secret :: "tenant_name \<Rightarrow> string" where
  "identity_secret t = as_str t @ IDENTITY_SUFFIX"

definition from_identity_secret :: "string \<Rightarrow> tenant_name option" where
  "from_identity_secret secret_name =
     (case strip_suffix secret_name IDENTITY_SUFFIX of
        None \<Rightarrow> None
      | Some l \<Rightarrow> (case parse_tenant l of Inl _ \<Rightarrow> None | Inr t \<Rightarrow> Some t))"

definition credential_secret :: "tenant_name \<Rightarrow> string" where
  "credential_secret t = as_str t @ ''-credential''"

definition llm_secret :: "tenant_name \<Rightarrow> string" where
  "llm_secret t = as_str t @ ''-llm''"

definition control_secret :: "tenant_name \<Rightarrow> string" where
  "control_secret t = as_str t @ ''-control''"

section \<open>Lemmas\<close>

lemma inner_facts:
  assumes "label_inner c"
  shows "is_ascii c" "\<not> is_whitespace c" "ascii_lower c = c" "lower_char c = c"
  using assms
  by (auto simp: label_inner_def label_edge_def is_ascii_def is_ascii_lower_def is_ascii_digit_def
      is_whitespace_def ascii_lower_def lower_char_def is_ascii_upper_def)

lemma inner_list_facts:
  assumes "list_all label_inner s"
  shows "byte_len s = length s" "trim s = s" "to_ascii_lowercase s = s" "to_lowercase s = s"
  using assms inner_facts
  by (auto simp: list_all_iff to_ascii_lowercase_def to_lowercase_def intro!: byte_len_ascii trim_no_ws map_idI)

lemma edge_not_hyphen: "label_inner c \<Longrightarrow> label_edge c \<longleftrightarrow> c \<noteq> CHR ''-''"
  by (auto simp: label_inner_def label_edge_def is_ascii_lower_def is_ascii_digit_def)

text \<open>The shape as the warden checks it: charset, then edges, then length.\<close>

lemma label_shape_iff:
  assumes "3 \<le> length s"
  shows "label_shape s \<longleftrightarrow> list_all label_inner s \<and> hd s \<noteq> CHR ''-'' \<and> last s \<noteq> CHR ''-'' \<and> length s \<le> 30"
proof -
  obtain a m z where s: "s = a # m @ [z]"
  proof -
    from assms obtain a b u where "s = a # b # u" by (cases s; cases "tl s") auto
    then obtain t where t: "s = a # t" "t \<noteq> []" by simp
    then have "t = butlast t @ [last t]" by simp
    with t that show thesis by metis
  qed
  with assms show ?thesis
    using edge_not_hyphen [of a] edge_not_hyphen [of z]
    by (auto simp: label_shape_def) (auto simp: label_inner_def)
qed

lemma starts_hyphen: "s \<noteq> [] \<Longrightarrow> starts_with s ''-'' \<longleftrightarrow> hd s = CHR ''-''"
  by (cases s) auto

lemma ends_hyphen: "s \<noteq> [] \<Longrightarrow> ends_with s ''-'' \<longleftrightarrow> last s = CHR ''-''"
  using starts_hyphen [of "rev s"] by (simp add: ends_with_def hd_rev)

lemma inner_eq: "list_all (\<lambda>b. is_ascii_lower b \<or> is_ascii_digit b \<or> b = CHR ''-'') l \<longleftrightarrow> list_all label_inner l"
  by (auto simp: list_all_iff label_inner_def label_edge_def)

lemma validate_label_Inr:
  "validate_label raw = Inr l \<longleftrightarrow>
     l = normalize_label raw \<and> 3 \<le> length (normalize_label raw) \<and> label_shape (normalize_label raw)
       \<and> normalize_label raw \<notin> set RESERVED"
proof -
  define n where "n = normalize_label raw"
  have v: "validate_label raw = Inr l \<longleftrightarrow> l = n \<and> 3 \<le> byte_len n \<and> byte_len n \<le> 30
      \<and> list_all label_inner n \<and> \<not> starts_with n ''-'' \<and> \<not> ends_with n ''-'' \<and> n \<notin> set RESERVED"
    by (auto simp: validate_label_def Let_def inner_eq MIN_LABEL_LEN_def MAX_LABEL_LEN_def n_def [symmetric])
  have "3 \<le> byte_len n \<and> byte_len n \<le> 30 \<and> list_all label_inner n \<and> \<not> starts_with n ''-'' \<and> \<not> ends_with n ''-''
      \<longleftrightarrow> 3 \<le> length n \<and> label_shape n"
  proof (cases "list_all label_inner n \<and> n \<noteq> []")
    case True
    then show ?thesis
      using label_shape_iff [of n] starts_hyphen [of n] ends_hyphen [of n] inner_list_facts(1) [of n]
      by auto
  next
    case False
    then show ?thesis
      using label_shape_iff [of n] by auto (auto simp: byte_len_def)
  qed
  with v show ?thesis by (auto simp: n_def)
qed

lemma validate_Inr:
  assumes "label_re_spec re"
  shows "validate re s = Inr l \<longleftrightarrow> l = s \<and> 3 \<le> length s \<and> label_shape s \<and> s \<notin> set RESERVED"
  using assms label_shape_iff [of s]
  by (auto simp: validate_def Let_def label_re_spec_def MIN_LABEL_LEN_def MAX_LABEL_LEN_def)

lemma shape_inner: "3 \<le> length l \<Longrightarrow> label_shape l \<Longrightarrow> list_all label_inner l"
  by (simp add: label_shape_iff)

lemma normalize_label_shape: "3 \<le> length l \<Longrightarrow> label_shape l \<Longrightarrow> normalize_label l = l"
  using shape_inner [of l] inner_list_facts [of l] by (simp add: normalize_label_def)

lemma parse_tenant_Inr:
  "parse_tenant raw = Inr t \<longleftrightarrow> validate_label raw = Inr (as_str t)"
  by (cases t) (auto simp: parse_tenant_def split: sum.splits)

lemma parsed_shape: "parse_tenant raw = Inr t \<Longrightarrow> 3 \<le> length (as_str t) \<and> label_shape (as_str t)"
  by (auto simp: parse_tenant_Inr validate_label_Inr)

lemma parsed_parses: "parse_tenant raw = Inr t \<Longrightarrow> parse_tenant (as_str t) = Inr t"
  by (auto simp: parse_tenant_Inr validate_label_Inr normalize_label_shape)

section \<open>Properties\<close>

text \<open>The two label checks agree, which is what keeps a signup from dying after the
  Google consent: a label the control plane accepts is accepted unchanged by the warden,
  and a label the warden would provision is one the control plane accepts. The engine
  behind the control plane's regular expression is assumed to match its documented
  language.\<close>

theorem label_gates_agree:
  assumes "label_re_spec re"
  shows "(parse re raw = Inr l \<longrightarrow> parse_tenant l = Inr (TenantName l) \<and> normalize_label l = l)
    \<and> (parse_tenant raw = Inr t \<longrightarrow> validate re (as_str t) = Inr (as_str t))"
proof -
  have "parse_tenant l = Inr (TenantName l) \<and> normalize_label l = l" if "parse re raw = Inr l"
  proof -
    from that have "validate re (normalize raw) = Inr l"
      by (auto simp: parse_def Let_def validate_Inr [OF assms] split: sum.splits)
    then have "3 \<le> length l" "label_shape l" "l \<notin> set RESERVED"
      by (auto simp: validate_Inr [OF assms])
    then show ?thesis
      by (auto simp: parse_tenant_Inr validate_label_Inr normalize_label_shape)
  qed
  moreover have "validate re (as_str t) = Inr (as_str t)" if "parse_tenant raw = Inr t"
    using that by (auto simp: parse_tenant_Inr validate_label_Inr validate_Inr [OF assms])
  ultimately show ?thesis by blast
qed

text \<open>A concrete engine for the pattern: the shape, decided.\<close>

definition shape_engine :: "string \<Rightarrow> bool" where
  "shape_engine s = (case s of [] \<Rightarrow> False | [a] \<Rightarrow> label_edge a
     | _ \<Rightarrow> 3 \<le> length s \<and> length s \<le> 30 \<and> list_all label_inner s \<and> hd s \<noteq> CHR ''-'' \<and> last s \<noteq> CHR ''-'')"

lemma shape_engine_spec: "label_re_spec shape_engine"
proof -
  have "shape_engine s = label_shape s" for s
  proof (cases "3 \<le> length s")
    case True
    with label_shape_iff [OF True] show ?thesis
      by (auto simp: shape_engine_def split: list.split)
  next
    case False
    then show ?thesis by (auto simp: shape_engine_def label_shape_def split: list.splits)
  qed
  then show ?thesis by (simp add: label_re_spec_def)
qed

theorem label_gates_agree_witness:
  "parse shape_engine '' Alice-2 '' = Inr ''alice-2'' \<and> parse_tenant ''alice-2'' = Inr (TenantName ''alice-2'')"
proof -
  have p: "parse shape_engine '' Alice-2 '' = Inr ''alice-2''" by code_simp
  with label_gates_agree [OF shape_engine_spec] show ?thesis by blast
qed

text \<open>What the warden accepts, in full: exactly the raw labels whose trimmed,
  lower-cased form has at least three characters, matches the documented pattern, and is
  not reserved; and that form is what it returns. (The pattern alone, which the source
  calls equivalent, also admits a single character; the floor is a separate rule.)\<close>

theorem warden_accepts_exactly:
  "(validate_label raw = Inr l \<longleftrightarrow>
      l = normalize_label raw \<and> 3 \<le> length (normalize_label raw)
        \<and> label_shape (normalize_label raw) \<and> normalize_label raw \<notin> set RESERVED)
    \<and> label_shape ''a'' \<and> validate_label ''a'' = Inl WTooShort"
proof -
  have "label_shape ''a''" by (simp add: label_shape_def label_edge_def is_ascii_lower_def)
  moreover have "validate_label ''a'' = Inl WTooShort" by code_simp
  ultimately show ?thesis using validate_label_Inr by blast
qed

lemma secret_suffix_clash:
  assumes "a @ p = b @ q" "last p \<noteq> last q \<or> rev p ! 1 \<noteq> rev q ! 1 \<or> rev p ! 2 \<noteq> rev q ! 2"
    and "3 \<le> length p" "3 \<le> length q"
  shows False
proof -
  from assms(1) have r: "rev p @ rev a = rev q @ rev b" by (metis rev_append)
  have "rev p ! i = rev q ! i" if "i < 3" for i
    using arg_cong [OF r, of "\<lambda>xs. xs ! i"] that assms(3,4) by (simp add: nth_append)
  from this [of 0] this [of 1] this [of 2]
  have nth: "rev p ! 0 = rev q ! 0" "rev p ! 1 = rev q ! 1" "rev p ! 2 = rev q ! 2" by auto
  have "p \<noteq> []" "q \<noteq> []" using assms(3,4) by auto
  then have "rev p ! 0 = last p" "rev q ! 0 = last q"
    using hd_conv_nth [of "rev p"] hd_conv_nth [of "rev q"] by (simp_all only: hd_rev rev_is_Nil_conv simp_thms)
  with nth assms(2) show False by simp
qed

text \<open>No two Secrets of the fleet share a name: over every pair of tenants the identity,
  credential, LLM and control Secrets are pairwise distinct, except that a tenant's own
  Secret of one role is itself; and an identity Secret's name leads back to exactly the
  tenant it was made for, which is what the pending-tenant sweep relies on.\<close>

theorem secret_names_injective:
  assumes "parse_tenant raw = Inr t"
  shows "from_identity_secret (identity_secret t) = Some t
    \<and> (identity_secret t = identity_secret t' \<longleftrightarrow> t = t')
    \<and> (credential_secret t = credential_secret t' \<longleftrightarrow> t = t')
    \<and> (llm_secret t = llm_secret t' \<longleftrightarrow> t = t')
    \<and> (control_secret t = control_secret t' \<longleftrightarrow> t = t')
    \<and> identity_secret t \<notin> {credential_secret t', llm_secret t', control_secret t'}
    \<and> credential_secret t \<notin> {llm_secret t', control_secret t'}
    \<and> llm_secret t \<noteq> control_secret t'"
proof -
  have "strip_suffix (identity_secret t) IDENTITY_SUFFIX = Some (as_str t)"
    by (simp add: strip_suffix_Some identity_secret_def)
  then have "from_identity_secret (identity_secret t) = Some t"
    using parsed_parses [OF assms] by (simp add: from_identity_secret_def)
  then show ?thesis
    by (auto simp: identity_secret_def credential_secret_def llm_secret_def control_secret_def
        IDENTITY_SUFFIX_def intro: tenant_name.expand elim!: secret_suffix_clash [elim_format])
qed

theorem secret_names_injective_witness:
  "from_identity_secret (identity_secret (TenantName ''alice'')) = Some (TenantName ''alice'')"
proof -
  have "parse_tenant ''Alice'' = Inr (TenantName ''alice'')" by code_simp
  from secret_names_injective [OF this] show ?thesis by blast
qed

end
