(* ===== verification/Warden_Validate.thy ===== *)
theory Warden_Validate
  imports Labels
begin

text \<open>
  The rest of \<open>squelch-warden/src/validate.rs\<close>: the account address, the armored
  credential, the LLM virtual key and the share token, and the shape of a pairing code.
  Every check is on bytes in the source; on the Latin-1 strings modelled here the bytes of a
  non-ASCII character are all above 127, so a byte class below 128 is a character class.
\<close>

definition MAX_EMAIL_LEN :: nat where
  "MAX_EMAIL_LEN = 254"

definition MAX_CIPHERTEXT :: nat where
  "MAX_CIPHERTEXT = 64 * 1024"

definition MAX_LLM_API_KEY :: nat where
  "MAX_LLM_API_KEY = 4 * 1024"

definition AGE_ARMOR_BEGIN :: string where
  "AGE_ARMOR_BEGIN = ''-----BEGIN AGE ENCRYPTED FILE-----''"

definition AGE_ARMOR_END :: string where
  "AGE_ARMOR_END = ''-----END AGE ENCRYPTED FILE-----''"

datatype email_error = EEmpty | ETooLong | EShape | ECharset

datatype api_key_error = KEmpty | KTooLong | KCharset

datatype ciphertext_error = CEmpty | CTooLong | CNotArmored | CCharset

text \<open>The characters refused in anything that becomes an environment value: not printable
  ASCII, or one of the quotes, the backslash, the dollar sign and the backtick.\<close>

definition env_unsafe :: "char \<Rightarrow> bool" where
  "env_unsafe b \<longleftrightarrow> \<not> (33 \<le> cp b \<and> cp b \<le> 126)
     \<or> b \<in> {CHR 0x22, CHR 0x27, CHR 0x5C, CHR ''$'', CHR 0x60}"

definition validate_account_email :: "string \<Rightarrow> email_error + string" where
  "validate_account_email raw =
     (let email = trim raw in
      if email = [] then Inl EEmpty
      else if MAX_EMAIL_LEN < byte_len email then Inl ETooLong
      else if list_ex env_unsafe email then Inl ECharset
      else case split_on (CHR ''@'') email of
          [l, d] \<Rightarrow> if l \<noteq> [] \<and> contains d ''.'' \<and> \<not> starts_with d ''.'' then Inr email else Inl EShape
        | _ \<Rightarrow> Inl EShape)"

definition armor_byte :: "char \<Rightarrow> bool" where
  "armor_byte b \<longleftrightarrow> b = CHR 0x0A \<or> b = CHR 0x0D \<or> (32 \<le> cp b \<and> cp b \<le> 126)"

definition validate_ciphertext :: "string \<Rightarrow> ciphertext_error + string" where
  "validate_ciphertext raw =
     (let body = trim raw in
      if body = [] then Inl CEmpty
      else if MAX_CIPHERTEXT < byte_len raw then Inl CTooLong
      else if list_ex (\<lambda>b. \<not> armor_byte b) body then Inl CCharset
      else
        let lines = lines_of body;
            first = trim_end (case lines of [] \<Rightarrow> [] | l # _ \<Rightarrow> l);
            final = trim_end (case rev lines of [] \<Rightarrow> [] | l # _ \<Rightarrow> l) in
        if first \<noteq> AGE_ARMOR_BEGIN \<or> final \<noteq> AGE_ARMOR_END then Inl CNotArmored
        else Inr (body @ [CHR 0x0A]))"

definition validate_llm_api_key :: "string \<Rightarrow> api_key_error + string" where
  "validate_llm_api_key raw =
     (let key = trim raw in
      if key = [] then Inl KEmpty
      else if MAX_LLM_API_KEY < byte_len key then Inl KTooLong
      else if list_ex env_unsafe key then Inl KCharset
      else Inr key)"

definition validate_share_token :: "string \<Rightarrow> api_key_error + string" where
  "validate_share_token raw = validate_llm_api_key raw"

definition PAIRING_ALPHABET :: string where
  "PAIRING_ALPHABET = ''0123456789ABCDEFGHJKMNPQRSTVWXYZ''"

definition is_pairing_code :: "string \<Rightarrow> bool" where
  "is_pairing_code s =
     (let ok = (\<lambda>g. byte_len g = 4 \<and> list_all (\<lambda>c. c \<in> set PAIRING_ALPHABET) g) in
      case split_once (CHR ''-'') s of None \<Rightarrow> False | Some (a, b) \<Rightarrow> ok a \<and> ok b)"

section \<open>Lemmas\<close>

lemma env_safe_ascii: "\<not> env_unsafe c \<Longrightarrow> is_ascii c \<and> \<not> is_whitespace c"
  by (auto simp: env_unsafe_def is_ascii_def is_whitespace_def)

lemma split_on_two:
  "split_on q s = [l, d] \<longleftrightarrow> s = l @ q # d \<and> q \<notin> set l \<and> q \<notin> set d"
proof
  assume "split_on q s = [l, d]"
  then show "s = l @ q # d \<and> q \<notin> set l \<and> q \<notin> set d"
    using join_split_on [of q s] set_split_on [of l q s] set_split_on [of d q s] by auto
next
  assume "s = l @ q # d \<and> q \<notin> set l \<and> q \<notin> set d"
  then show "split_on q s = [l, d]" by (simp add: split_on_append split_on_fresh)
qed

lemma starts_char: "starts_with d [q] \<longleftrightarrow> (\<exists>t. d = q # t)"
  by (cases d) auto

text \<open>Trimmed text neither starts nor ends with whitespace.\<close>

lemma trim_last: "trim s \<noteq> [] \<Longrightarrow> \<not> is_whitespace (last (trim s))"
  unfolding trim_def trim_end_def last_rev
  by (rule hd_dropWhile) auto

lemma trim_end_last_fixed: "s \<noteq> [] \<Longrightarrow> \<not> is_whitespace (last s) \<Longrightarrow> trim_end s = s"
  by (cases s rule: rev_cases) (auto simp: trim_end_def)

lemma join_snoc: "xs \<noteq> [] \<Longrightarrow> join sep (xs @ [z]) = join sep xs @ sep @ z"
  by (induction sep xs rule: join.induct) auto

text \<open>A text that ends in neither a line break nor a blank reads back from its lines.\<close>

lemma lines_of_ends:
  assumes "s \<noteq> []" "\<not> is_whitespace (last s)"
  shows "(lines_of s = [s] \<and> CHR 0x0A \<notin> set s)
    \<or> (\<exists>x m z. s = x @ CHR 0x0A # m @ z \<and> z \<noteq> []
          \<and> hd (lines_of s) = strip_cr x \<and> last (lines_of s) = z \<and> lines_of s \<noteq> [])"
proof -
  define ps where "ps = split_on (CHR 0x0A) s"
  have s: "s = join [CHR 0x0A] ps" using join_split_on [of "CHR 0x0A" s] by (simp add: ps_def)
  have ne: "ps \<noteq> []" by (simp add: ps_def)
  show ?thesis
  proof (cases "butlast ps")
    case Nil
    then have "ps = [last ps]" using ne by (metis append_Nil append_butlast_last_id)
    then obtain w where w: "ps = [w]" by metis
    with s have "s = w" by simp
    have "CHR 0x0A \<notin> set s" using set_split_on [of w "CHR 0x0A" s] w \<open>s = w\<close> by (simp add: ps_def)
    moreover have "lines_of s = [s]"
    proof -
      have "split_on (CHR 0x0A) s = [s]" using w \<open>s = w\<close> by (simp only: ps_def)
      with assms(1) show ?thesis by (simp only: lines_of_def Let_def) simp
    qed
    ultimately show ?thesis by blast
  next
    case (Cons x bs)
    have p: "ps = x # bs @ [last ps]" using ne Cons by (metis append_Cons append_butlast_last_id)
    have j: "s = join [CHR 0x0A] (x # bs) @ CHR 0x0A # last ps"
      using s p join_snoc [of "x # bs" "[CHR 0x0A]" "last ps"] by simp
    have z: "last ps \<noteq> []"
    proof
      assume "last ps = []"
      with j have "last s = CHR 0x0A" by simp
      with assms(2) show False by (simp add: is_whitespace_def)
    qed
    obtain m where m: "s = x @ CHR 0x0A # m @ last ps"
    proof (cases bs)
      case Nil
      with j that [of "[]"] show thesis by simp
    next
      case (Cons b cs)
      with j that [of "join [CHR 0x0A] bs @ [CHR 0x0A]"] show thesis by simp
    qed
    have l: "lines_of s = map strip_cr (x # bs) @ [last ps]"
      using z Cons by (simp add: lines_of_def ps_def [symmetric])
    have "s = x @ CHR 0x0A # m @ last ps \<and> last ps \<noteq> []
          \<and> hd (lines_of s) = strip_cr x \<and> last (lines_of s) = last ps \<and> lines_of s \<noteq> []"
      unfolding l using m z by simp
    then show ?thesis by blast
  qed
qed

lemma strip_cr_prefix: "\<exists>t. w = strip_cr w @ t \<and> (\<forall>c \<in> set t. is_whitespace c)"
proof (cases "strip_suffix w [CHR 0x0D]")
  case None
  then show ?thesis by (simp add: strip_cr_def)
next
  case (Some v)
  then have "w = v @ [CHR 0x0D]" by (simp add: strip_suffix_Some)
  moreover from Some have "strip_cr w = v" by (simp add: strip_cr_def)
  ultimately
  show ?thesis by (simp add: is_whitespace_def)
qed

lemma trim_end_strip_cr: "trim_end (strip_cr w) = v \<Longrightarrow> \<exists>t. w = v @ t \<and> (\<forall>c \<in> set t. is_whitespace c)"
proof -
  assume v: "trim_end (strip_cr w) = v"
  obtain t where t: "w = strip_cr w @ t" "\<forall>c \<in> set t. is_whitespace c" using strip_cr_prefix by blast
  obtain u where u: "strip_cr w = v @ u" "\<forall>c \<in> set u. is_whitespace c"
    using trim_end_prefix [of "strip_cr w"] v by blast
  have "w = v @ (u @ t)" using t(1) u(1) by (metis append_assoc)
  with t(2) u(2) show ?thesis by (metis UnE set_append)
qed

section \<open>Properties\<close>

text \<open>The account address that reaches a container's environment: accepted exactly when the
  trimmed text is at most 254 bytes of printable, unquoted ASCII with one at sign, something
  before it and a domain that has a dot but does not start with one; what is stored is that
  text, case kept, and storing it again changes nothing.\<close>

theorem account_email_accepts:
  "(validate_account_email raw = Inr e \<longleftrightarrow>
      e = trim raw \<and> length e \<le> 254 \<and> (\<forall>c \<in> set e. \<not> env_unsafe c)
        \<and> (\<exists>l d. e = l @ CHR ''@'' # d \<and> l \<noteq> [] \<and> CHR ''@'' \<notin> set l \<and> CHR ''@'' \<notin> set d
             \<and> CHR ''.'' \<in> set d \<and> hd d \<noteq> CHR ''.''))
    \<and> (validate_account_email raw = Inr e \<longrightarrow> validate_account_email e = Inr e)"
proof -
  have main: "validate_account_email s = Inr e \<longleftrightarrow>
      e = trim s \<and> length e \<le> 254 \<and> (\<forall>c \<in> set e. \<not> env_unsafe c)
        \<and> (\<exists>l d. e = l @ CHR ''@'' # d \<and> l \<noteq> [] \<and> CHR ''@'' \<notin> set l \<and> CHR ''@'' \<notin> set d
             \<and> CHR ''.'' \<in> set d \<and> hd d \<noteq> CHR ''.'')" for s
  proof (cases "trim s \<noteq> [] \<and> \<not> list_ex env_unsafe (trim s)")
    case True
    define E where "E = trim s"
    from True have E: "E \<noteq> []" "\<not> list_ex env_unsafe E" "\<forall>c \<in> set E. \<not> env_unsafe c"
      by (simp_all add: list_ex_iff E_def)
    then have len: "byte_len E = length E"
      by (intro byte_len_ascii) (auto dest: env_safe_ascii)
    have shape: "(case ps of [l, d] \<Rightarrow> if P l d then Inr x else Inl EShape | _ \<Rightarrow> Inl EShape) = Inr e
        \<longleftrightarrow> e = x \<and> (\<exists>l d. ps = [l, d] \<and> P l d)" for ps :: "string list" and P and x :: string
      by (auto split: list.splits)
    have dot: "contains d ''.'' \<and> \<not> starts_with d ''.'' \<longleftrightarrow> CHR ''.'' \<in> set d \<and> hd d \<noteq> CHR ''.''" for d
      by (cases d) (auto simp: contains_char)
    have "validate_account_email s = Inr e \<longleftrightarrow> e = E \<and> length E \<le> 254
        \<and> (\<exists>l d. split_on (CHR ''@'') E = [l, d] \<and> l \<noteq> [] \<and> contains d ''.'' \<and> \<not> starts_with d ''.'')"
      unfolding validate_account_email_def Let_def E_def [symmetric] shape
      using E len by (simp add: MAX_EMAIL_LEN_def shape)
    also have "\<dots> \<longleftrightarrow> e = E \<and> length e \<le> 254 \<and> (\<forall>c \<in> set e. \<not> env_unsafe c)
        \<and> (\<exists>l d. E = l @ CHR ''@'' # d \<and> l \<noteq> [] \<and> CHR ''@'' \<notin> set l \<and> CHR ''@'' \<notin> set d
             \<and> CHR ''.'' \<in> set d \<and> hd d \<noteq> CHR ''.'')"
      unfolding split_on_two dot using E(3) by (metis (no_types, lifting))
    finally show ?thesis unfolding E_def by (metis (no_types, lifting))
  next
    case False
    then show ?thesis by (auto simp: validate_account_email_def Let_def list_ex_iff)
  qed
  moreover have "validate_account_email e = Inr e" if "validate_account_email raw = Inr e"
    using that unfolding main by (elim conjE) (intro conjI, simp, assumption+)
  ultimately show ?thesis by blast
qed

theorem account_email_accepts_witness:
  "validate_account_email '' Ann.Lee@example.org '' = Inr ''Ann.Lee@example.org''
    \<and> validate_account_email ''Ann.Lee@example.org'' = Inr ''Ann.Lee@example.org''"
proof -
  have "validate_account_email '' Ann.Lee@example.org '' = Inr ''Ann.Lee@example.org''" by code_simp
  with account_email_accepts show ?thesis by blast
qed

text \<open>Nothing but an armored body is ever stored as a credential: what validation hands
  on starts with the opening banner, ends with the closing banner and exactly one line
  break, has the two banners on different lines, and between them holds printable ASCII and
  line breaks only. The opening banner may be followed by blanks on its line, the closing
  one may not.\<close>

theorem stored_credential_is_armored:
  assumes "validate_ciphertext raw = Inr s"
  shows "\<exists>sp mid. s = AGE_ARMOR_BEGIN @ sp @ CHR 0x0A # mid @ AGE_ARMOR_END @ [CHR 0x0A]
    \<and> (\<forall>c \<in> set sp. is_whitespace c) \<and> (\<forall>c \<in> set s. armor_byte c)
    \<and> s = trim raw @ [CHR 0x0A] \<and> length s \<le> MAX_CIPHERTEXT + 1"
proof -
  define body where "body = trim raw"
  have ne: "body \<noteq> []" and len: "byte_len raw \<le> MAX_CIPHERTEXT" and s: "s = body @ [CHR 0x0A]"
    and bytes: "\<forall>c \<in> set body. armor_byte c"
    and first: "trim_end (case lines_of body of [] \<Rightarrow> [] | l # _ \<Rightarrow> l) = AGE_ARMOR_BEGIN"
    and final: "trim_end (case rev (lines_of body) of [] \<Rightarrow> [] | l # _ \<Rightarrow> l) = AGE_ARMOR_END"
    using assms by (auto simp: validate_ciphertext_def Let_def body_def list_ex_iff split: if_splits)
  have last: "\<not> is_whitespace (last body)" using ne trim_last by (simp add: body_def)
  have neq: "AGE_ARMOR_BEGIN \<noteq> AGE_ARMOR_END" by (simp add: AGE_ARMOR_BEGIN_def AGE_ARMOR_END_def)
  from lines_of_ends [OF ne last] first final neq obtain x m z where
    b: "body = x @ CHR 0x0A # m @ z" and z: "z \<noteq> []" and l: "hd (lines_of body) = strip_cr x"
      "last (lines_of body) = z" "lines_of body \<noteq> []" by auto
  have first': "trim_end (strip_cr x) = AGE_ARMOR_BEGIN"
    using first l by (cases "lines_of body") auto
  have "trim_end z = AGE_ARMOR_END"
    using final l by (cases "lines_of body" rule: rev_cases) auto
  moreover have "trim_end z = z" using last b z by (intro trim_end_last_fixed) auto
  ultimately have zE: "z = AGE_ARMOR_END" by simp
  obtain sp where sp: "x = AGE_ARMOR_BEGIN @ sp" "\<forall>c \<in> set sp. is_whitespace c"
    using trim_end_strip_cr [OF first'] by blast
  have "length body \<le> length raw"
    unfolding body_def trim_def trim_end_def trim_start_def
    by simp (metis length_dropWhile_le length_rev order_trans)
  with len byte_len_ge [of raw] have "length s \<le> MAX_CIPHERTEXT + 1" by (simp add: s)
  moreover have "\<forall>c \<in> set s. armor_byte c" using bytes by (simp add: s armor_byte_def)
  moreover have "s = AGE_ARMOR_BEGIN @ sp @ CHR 0x0A # m @ AGE_ARMOR_END @ [CHR 0x0A]"
    by (simp add: s b zE sp(1))
  ultimately show ?thesis using sp(2) s body_def by blast
qed

definition armored_sample :: string where
  "armored_sample = '' '' @ AGE_ARMOR_BEGIN @ [CHR 0x0D, CHR 0x0A] @ ''YWdl'' @ [CHR 0x0A] @ AGE_ARMOR_END @ [CHR 0x0A, CHR 0x0A]"

theorem stored_credential_is_armored_witness:
  "validate_ciphertext armored_sample = Inr (trim armored_sample @ [CHR 0x0A])
    \<and> length (trim armored_sample @ [CHR 0x0A]) \<le> MAX_CIPHERTEXT + 1"
proof -
  have "validate_ciphertext armored_sample = Inr (trim armored_sample @ [CHR 0x0A])" by code_simp
  with stored_credential_is_armored [OF this] show ?thesis by blast
qed

end
