(* ===== verification/Codes.thy ===== *)
theory Codes
  imports Warden_Validate
begin

unbundle bit_operations_syntax

text \<open>
  The codes people type: invite codes (\<open>squelch-control/src/invites.rs\<close>) and the text half
  of the pairing codes and device tokens
  (\<open>squelch-core/src/store/sqlite/device_tokens.rs\<close>).

  Operating-system entropy is the argument \<open>bytes\<close>, \<open>None\<close> where the OS refuses it.
  SHA-256 (crate \<open>sha2\<close>) is the parameter \<open>sha\<close>, from bytes to bytes, and base64url (crate
  \<open>base64\<close>) the parameter \<open>b64\<close>.
\<close>

section \<open>Drawing symbols\<close>

definition ALPHABET :: string where
  "ALPHABET = ''0123456789ABCDEFGHJKMNPQRSTVWXYZ''"

definition CODE_LEN :: nat where
  "CODE_LEN = 16"

definition LEGACY_CODE_LEN :: nat where
  "LEGACY_CODE_LEN = 8"

definition GROUP :: nat where
  "GROUP = 4"

definition PAIRING_CODE_LEN :: nat where
  "PAIRING_CODE_LEN = 8"

text \<open>The bytes of one draw, folded into one machine word (\<open>u128\<close> or \<open>u64\<close>).\<close>

definition fold_bits :: "8 word list \<Rightarrow> 'a::len word" where
  "fold_bits bytes = foldl (\<lambda>acc b. push_bit 8 acc OR ucast b) 0 bytes"

definition symbols :: "nat \<Rightarrow> 'a::len word \<Rightarrow> string" where
  "symbols n bits = map (\<lambda>i. ALPHABET ! unat (drop_bit (5 * (n - 1 - i)) bits AND 31)) [0..<n]"

text \<open>\<open>{b:02x}\<close> over a digest.\<close>

definition hex_lower :: "8 word list \<Rightarrow> string" where
  "hex_lower d = concat (map (\<lambda>b. [''0123456789abcdef'' ! unat (drop_bit 4 b), ''0123456789abcdef'' ! unat (b AND 15)]) d)"

section \<open>Invite codes\<close>

record minted_invite =
  code :: string
  code_hash :: string

definition normalize :: "string \<Rightarrow> string" where
  "normalize input =
     map (\<lambda>c. if c = CHR ''I'' \<or> c = CHR ''L'' then CHR ''1'' else if c = CHR ''O'' then CHR ''0'' else c)
       (concat (map upper_char (filter (\<lambda>c. \<not> is_whitespace c \<and> c \<noteq> CHR ''-'') input)))"

definition hash :: "(8 word list \<Rightarrow> 8 word list) \<Rightarrow> string \<Rightarrow> string" where
  "hash sha c = hex_lower (sha (utf8 (normalize c)))"

definition format_code :: "string \<Rightarrow> string" where
  "format_code c =
     (if byte_len c \<noteq> CODE_LEN \<or> \<not> list_all is_ascii c then c
      else join ''-'' (map (\<lambda>i. take GROUP (drop (i * GROUP) c)) [0..<CODE_LEN div GROUP]))"

definition mint :: "(8 word list \<Rightarrow> 8 word list) \<Rightarrow> 8 word list option \<Rightarrow> minted_invite option" where
  "mint sha entropy = (case entropy of None \<Rightarrow> None | Some bytes \<Rightarrow>
     let bits = (fold_bits bytes :: 128 word);
         raw = symbols CODE_LEN bits in
     Some \<lparr>code = format_code raw, code_hash = hash sha raw\<rparr>)"

definition is_plausible :: "string \<Rightarrow> bool" where
  "is_plausible input = (let n = normalize input in
     (byte_len n = CODE_LEN \<or> byte_len n = LEGACY_CODE_LEN) \<and> list_all (\<lambda>b. b \<in> set ALPHABET) n)"

section \<open>Pairing codes and device tokens\<close>

definition TOKEN_PREFIX :: string where
  "TOKEN_PREFIX = ''sqd_''"

definition hex_sha256 :: "(8 word list \<Rightarrow> 8 word list) \<Rightarrow> string \<Rightarrow> string" where
  "hex_sha256 sha s = hex_lower (sha (utf8 s))"

definition mint_token_plaintext :: "(8 word list \<Rightarrow> string) \<Rightarrow> 8 word list option \<Rightarrow> string option" where
  "mint_token_plaintext b64 entropy =
     (case entropy of None \<Rightarrow> None | Some bytes \<Rightarrow> Some (TOKEN_PREFIX @ b64 bytes))"

definition mint_code_plaintext :: "8 word list option \<Rightarrow> string option" where
  "mint_code_plaintext entropy = (case entropy of None \<Rightarrow> None | Some bytes \<Rightarrow>
     Some (symbols PAIRING_CODE_LEN (fold_bits bytes :: 64 word)))"

definition format_pairing_code :: "string \<Rightarrow> string" where
  "format_pairing_code c =
     (if byte_len c = PAIRING_CODE_LEN then take 4 c @ ''-'' @ drop 4 c else c)"

definition normalize_pairing_code :: "string \<Rightarrow> string" where
  "normalize_pairing_code input =
     concat (map upper_char (filter (\<lambda>c. \<not> is_whitespace c \<and> c \<noteq> CHR ''-'') input))"

section \<open>Lemmas\<close>

lemma length_ALPHABET [simp]: "length ALPHABET = 32"
  by (simp add: ALPHABET_def)

lemma distinct_ALPHABET: "distinct ALPHABET"
  by (simp add: ALPHABET_def)

lemma PAIRING_ALPHABET_eq: "PAIRING_ALPHABET = ALPHABET"
  by (simp add: PAIRING_ALPHABET_def ALPHABET_def)

lemma symbol_facts:
  assumes "c \<in> set ALPHABET"
  shows "is_ascii c" "\<not> is_whitespace c" "c \<noteq> CHR ''-''" "upper_char c = [c]"
    "c \<noteq> CHR ''I''" "c \<noteq> CHR ''L''" "c \<noteq> CHR ''O''"
  using assms
  by (auto simp: ALPHABET_def is_ascii_def is_whitespace_def upper_char_def is_ascii_lower_def)

lemma and_31_less [simp]: "unat ((w :: 'a::len word) AND 31) < 32"
proof -
  have "w AND 31 = take_bit 5 w" by (simp add: take_bit_eq_mask mask_eq_exp_minus_1)
  then have "unat (w AND 31) = take_bit 5 (unat w)" by (simp add: unsigned_take_bit_eq)
  also have "\<dots> < 2 ^ 5" by (rule take_bit_nat_less_exp)
  finally show ?thesis by simp
qed

lemma hex_index: "unat (drop_bit 4 (b :: 8 word)) < 16" "unat ((b :: 8 word) AND 15) < 16"
proof -
  have "unat b < 16 * 2 ^ 4" using unsigned_less [of b] by simp
  then show "unat (drop_bit 4 b) < 16"
    unfolding unat_drop_bit_eq unfolding drop_bit_eq_div by (rule less_mult_imp_div_less)
  have "b AND 15 \<le> 15" by (rule word_and_le1)
  then show "unat (b AND 15) < 16" by (simp add: word_le_nat_alt)
qed

lemma length_symbols [simp]: "length (symbols n bits) = n"
  by (simp add: symbols_def)

lemma set_symbols: "set (symbols n bits) \<subseteq> set ALPHABET"
  by (auto simp: symbols_def intro!: nth_mem)

text \<open>Bit \<open>n\<close> of a draw is a bit of its \<open>n div 8\<close>-th byte from the end.\<close>

lemma bit_fold_bits:
  "8 * length bs \<le> LENGTH('a) \<Longrightarrow>
     bit (fold_bits bs :: 'a::len word) n \<longleftrightarrow> n < 8 * length bs \<and> bit (rev bs ! (n div 8)) (n mod 8)"
proof (induction bs arbitrary: n rule: rev_induct)
  case Nil
  then show ?case by (simp add: fold_bits_def)
next
  case (snoc b bs)
  have f: "(fold_bits (bs @ [b]) :: 'a word) = push_bit 8 (fold_bits bs) OR ucast b"
    by (simp add: fold_bits_def)
  show ?case
  proof (cases "n < 8")
    case True
    then have "n < LENGTH('a)" "n < LENGTH(8)" "n div 8 = 0" "n mod 8 = n"
      using snoc.prems by auto
    with True show ?thesis
      by (simp add: f bit_or_iff bit_push_bit_iff bit_ucast_iff)
  next
    case False
    then have "8 \<le> n" by simp
    then have d: "n div 8 = Suc ((n - 8) div 8)" "n mod 8 = (n - 8) mod 8"
      by (rule le_div_geq [rotated], simp) (rule le_mod_geq [OF \<open>8 \<le> n\<close>])
    have "bit (fold_bits bs :: 'a word) (n - 8) \<longleftrightarrow>
        n - 8 < 8 * length bs \<and> bit (rev bs ! ((n - 8) div 8)) ((n - 8) mod 8)"
      using snoc by simp
    moreover have "n - 8 < 8 * length bs \<longleftrightarrow> n < 8 * length (bs @ [b])" using False by auto
    moreover have "bit (fold_bits (bs @ [b]) :: 'a word) n \<longleftrightarrow> n < LENGTH('a) \<and> bit (fold_bits bs :: 'a word) (n - 8)"
    proof -
      have "\<not> bit b n" using False bit_imp_le_length [of b n] by auto
      then show ?thesis using False by (simp add: f bit_or_iff bit_push_bit_iff bit_ucast_iff)
    qed
    moreover have "n < 8 * length (bs @ [b]) \<Longrightarrow> n < LENGTH('a)" using snoc.prems by linarith
    moreover have "rev (bs @ [b]) ! (n div 8) = rev bs ! ((n - 8) div 8)" by (simp add: d(1))
    ultimately show ?thesis unfolding d(2) by metis
  qed
qed

lemma symbols_inj:
  assumes eq: "symbols n (v :: 'a::len word) = symbols n (w :: 'a word)"
    and m: "m < 5 * n"
  shows "bit v m = bit w m"
proof -
  define k where "k = m div 5"
  have k: "k < n" using m by (simp add: k_def less_mult_imp_div_less mult.commute)
  define i where "i = n - 1 - k"
  have i: "i < n" "n - 1 - i = k" using k by (auto simp: i_def)
  have "ALPHABET ! unat (drop_bit (5 * k) v AND 31) = ALPHABET ! unat (drop_bit (5 * k) w AND 31)"
    using arg_cong [OF eq, of "\<lambda>s. s ! i"] i by (simp add: symbols_def)
  then have "unat (drop_bit (5 * k) v AND 31) = unat (drop_bit (5 * k) w AND 31)"
    by (simp only: nth_eq_iff_index_eq [OF distinct_ALPHABET] length_ALPHABET and_31_less)
  then have "drop_bit (5 * k) v AND 31 = drop_bit (5 * k) w AND 31"
    by (simp add: word_unat_eq_iff)
  then have "take_bit 5 (drop_bit (5 * k) v) = take_bit 5 (drop_bit (5 * k) w)"
    by (simp add: take_bit_eq_mask mask_eq_exp_minus_1)
  from arg_cong [OF this, of "\<lambda>x. bit x (m mod 5)"] show ?thesis
    by (simp add: bit_take_bit_iff bit_drop_bit_eq k_def)
qed

text \<open>A draw is recovered from its symbols: no entropy is lost.\<close>

lemma draw_inj:
  assumes "symbols n (fold_bits bs :: 'a::len word) = symbols n (fold_bits cs :: 'a word)"
    and "5 * n = 8 * length bs" "length cs = length bs" "8 * length bs \<le> LENGTH('a)"
  shows "bs = cs"
proof -
  have "rev bs = rev cs"
  proof (rule nth_equalityI)
    show "length (rev bs) = length (rev cs)" using assms(3) by simp
  next
    fix k assume k: "k < length (rev bs)"
    show "rev bs ! k = rev cs ! k"
    proof (rule bit_word_eqI)
      fix j assume "j < LENGTH(8)"
      then have j: "j < 8" by simp
      have m: "8 * k + j < 8 * length bs" using k j by simp
      have "bit (fold_bits bs :: 'a word) (8 * k + j) = bit (fold_bits cs :: 'a word) (8 * k + j)"
        by (rule symbols_inj [OF assms(1)]) (use m assms(2) in simp)
      with m j show "bit (rev bs ! k) j = bit (rev cs ! k) j"
        using assms(3,4) by (simp add: bit_fold_bits)
    qed
  qed
  then show ?thesis by simp
qed

text \<open>And every string of symbols is drawn, as there are as many draws as strings.\<close>

lemma draw_surj:
  assumes "length s = n" "set s \<subseteq> set ALPHABET" "5 * n = 8 * l" "8 * l \<le> LENGTH('a)"
  shows "\<exists>bs. length bs = l \<and> s = symbols n (fold_bits bs :: 'a::len word)"
proof -
  define A where "A = {bs :: 8 word list. set bs \<subseteq> UNIV \<and> length bs = l}"
  define B where "B = {s. set s \<subseteq> set ALPHABET \<and> length s = n}"
  define f where "f bs = symbols n (fold_bits bs :: 'a word)" for bs
  have inj: "inj_on f A"
    unfolding A_def f_def using assms(3,4) by (auto intro!: inj_onI dest!: draw_inj)
  have "card A = 256 ^ l" unfolding A_def by (subst card_lists_length_eq) (simp_all add: card_word)
  also have "(256 :: nat) ^ l = 2 ^ (8 * l)" by (simp add: power_mult)
  also have "\<dots> = 32 ^ n" unfolding assms(3) [symmetric] by (simp add: power_mult)
  also have "\<dots> = card B"
    unfolding B_def by (subst card_lists_length_eq) (simp_all add: distinct_card [OF distinct_ALPHABET])
  finally have "card (f ` A) = card B" by (simp add: card_image [OF inj])
  moreover have "f ` A \<subseteq> B" using set_symbols by (auto simp: f_def B_def)
  moreover have "finite B" unfolding B_def by (rule finite_lists_length_eq) simp
  ultimately have "f ` A = B" by (metis card_subset_eq)
  moreover have "s \<in> B" using assms(1,2) by (simp add: B_def)
  ultimately obtain bs where "bs \<in> A" "f bs = s" by blast
  then show ?thesis by (auto simp: A_def f_def)
qed

text \<open>Text made of symbols is its own normal form, however it is grouped or cased.\<close>

definition typed_as :: "string \<Rightarrow> string \<Rightarrow> bool" where
  "typed_as typed raw \<longleftrightarrow> concat (map upper_char (filter (\<lambda>c. \<not> is_whitespace c \<and> c \<noteq> CHR ''-'') typed)) = raw"

lemma typed_symbols: "set raw \<subseteq> set ALPHABET \<Longrightarrow> typed_as raw raw"
  unfolding typed_as_def by (induction raw) (auto simp: symbol_facts)

lemma typed_append: "typed_as a x \<Longrightarrow> typed_as b y \<Longrightarrow> typed_as (a @ b) (x @ y)"
  by (simp add: typed_as_def)

lemma typed_dash: "typed_as b y \<Longrightarrow> typed_as (CHR ''-'' # b) y"
  by (simp add: typed_as_def)

lemma normalize_typed: "typed_as typed raw \<Longrightarrow> set raw \<subseteq> set ALPHABET \<Longrightarrow> normalize typed = raw"
  unfolding typed_as_def normalize_def by (auto simp: symbol_facts intro!: map_idI)

lemma lower_symbol:
  assumes "c \<in> set ALPHABET"
  shows "\<not> is_whitespace (lower_char c) \<and> lower_char c \<noteq> CHR ''-'' \<and> upper_char (lower_char c) = [c]"
proof -
  have "is_ascii_digit c \<or> is_ascii_upper c"
    using assms by (auto simp: ALPHABET_def is_ascii_digit_def is_ascii_upper_def)
  then show ?thesis
  proof
    assume "is_ascii_digit c"
    then have "lower_char c = c" by (auto simp: lower_char_def is_ascii_digit_def is_ascii_upper_def)
    with symbol_facts [OF assms] show ?thesis by simp
  next
    assume u: "is_ascii_upper c"
    then have "cp (lower_char c) = cp c + 32" by (simp add: lower_char_def is_ascii_upper_def)
    then have "is_ascii_lower (lower_char c)" "char_of (cp (lower_char c) - 32) = c"
      using u by (simp_all add: is_ascii_lower_def is_ascii_upper_def)
    moreover from this have "cp (lower_char c) \<noteq> cp (CHR ''-'')" "cp (lower_char c) \<noteq> 223"
      by (auto simp: is_ascii_lower_def)
    ultimately show ?thesis
      by (auto simp: upper_char_def is_whitespace_def is_ascii_lower_def)
  qed
qed

lemma typed_lower: "set raw \<subseteq> set ALPHABET \<Longrightarrow> typed_as (map lower_char raw) raw"
proof (induction raw)
  case Nil
  then show ?case by (simp add: typed_as_def)
next
  case (Cons c raw)
  then have c: "c \<in> set ALPHABET" by simp
  have "\<not> is_whitespace (lower_char c) \<and> lower_char c \<noteq> CHR ''-'' \<and> upper_char (lower_char c) = [c]"
    using lower_symbol [OF c] .
  with Cons show ?case by (simp add: typed_as_def)
qed

lemma symbols_ascii: "set raw \<subseteq> set ALPHABET \<Longrightarrow> list_all is_ascii raw \<and> byte_len raw = length raw"
  using symbol_facts(1) by (auto simp: list_all_iff intro!: byte_len_ascii)

lemma format_code_groups:
  assumes "length raw = 16" "set raw \<subseteq> set ALPHABET"
  shows "format_code raw = take 4 raw @ ''-'' @ take 4 (drop 4 raw) @ ''-''
    @ take 4 (drop 8 raw) @ ''-'' @ drop 12 raw"
  using assms symbols_ascii [OF assms(2)]
proof -
  have "[0..<4] = [0, 1, 2, 3 :: nat]" by (simp add: upt_rec)
  moreover have "take 4 (drop 12 raw) = drop 12 raw" using assms(1) by simp
  ultimately show ?thesis
    using assms(1) symbols_ascii [OF assms(2)] by (simp add: format_code_def CODE_LEN_def GROUP_def)
qed

lemma groups_back: "length raw = 16 \<Longrightarrow> take 4 raw @ take 4 (drop 4 raw) @ take 4 (drop 8 raw) @ drop 12 raw = raw"
  using append_take_drop_id [of 4 raw] append_take_drop_id [of 4 "drop 4 raw"] append_take_drop_id [of 4 "drop 8 raw"]
  by (simp add: add.commute)

text \<open>Each dash and letter as someone might retype it: any blank for a dash, any case.\<close>

definition retyped :: "(char \<Rightarrow> char) \<Rightarrow> bool" where
  "retyped f \<longleftrightarrow> (f (CHR ''-'') = CHR ''-'' \<or> is_whitespace (f (CHR ''-'')))
     \<and> (\<forall>c \<in> set ALPHABET. f c = c \<or> f c = lower_char c)"

lemma typed_retyped: "retyped f \<Longrightarrow> set raw \<subseteq> set ALPHABET \<Longrightarrow> typed_as (map f raw) raw"
proof (induction raw)
  case Nil
  then show ?case by (simp add: typed_as_def)
next
  case (Cons c raw)
  have one: "typed_as [f c] [c]"
    using Cons.prems typed_lower [of "[c]"] typed_symbols [of "[c]"] by (auto simp: retyped_def)
  from typed_append [OF one Cons.IH] Cons.prems show ?case by simp
qed

lemma typed_retyped_dash: "retyped f \<Longrightarrow> typed_as [f (CHR ''-'')] []"
  by (auto simp: retyped_def typed_as_def)

lemma typed_format_code:
  assumes "length raw = 16" "set raw \<subseteq> set ALPHABET" "retyped f"
  shows "typed_as (map f (format_code raw)) raw"
proof -
  have sub: "set (take n (drop m raw)) \<subseteq> set ALPHABET" "set (drop m raw) \<subseteq> set ALPHABET"
    "set (take n raw) \<subseteq> set ALPHABET" for n m
    using assms(2) set_take_subset [of n "drop m raw"] set_drop_subset [of m raw] set_take_subset [of n raw]
    by blast+
  note t = typed_retyped [OF assms(3)]
  have "typed_as (map f (take 4 raw) @ [f (CHR ''-'')] @ map f (take 4 (drop 4 raw)) @ [f (CHR ''-'')]
      @ map f (take 4 (drop 8 raw)) @ [f (CHR ''-'')] @ map f (drop 12 raw))
    (take 4 raw @ [] @ take 4 (drop 4 raw) @ [] @ take 4 (drop 8 raw) @ [] @ drop 12 raw)"
    by (intro typed_append t sub typed_retyped_dash assms(3))
  then show ?thesis
    using groups_back [OF assms(1)] by (simp add: format_code_groups [OF assms(1,2)])
qed

section \<open>Properties\<close>

text \<open>An invite code works however it is retyped: for every draw of ten bytes, the printed
  code has nineteen characters, is plausible, and hashes to the stored hash, in either case,
  letter by letter, with its dashes typed as dashes or as any blank.\<close>

theorem invite_code_roundtrip:
  assumes "length bytes = 10" "mint sha (Some bytes) = Some m" "retyped f"
  shows "length (code m) = 19 \<and> is_plausible (code m)
    \<and> hash sha (code m) = code_hash m \<and> hash sha (map f (code m)) = code_hash m"
proof -
  define raw where "raw = symbols 16 (fold_bits bytes :: 128 word)"
  have m: "code m = format_code raw" "code_hash m = hash sha raw"
    using assms(2) by (auto simp: mint_def Let_def CODE_LEN_def raw_def)
  have raw: "length raw = 16" "set raw \<subseteq> set ALPHABET" using set_symbols by (auto simp: raw_def)
  have "retyped id" by (simp add: retyped_def)
  from typed_format_code [OF raw this] have n: "normalize (code m) = raw"
    by (simp add: m normalize_typed [OF _ raw(2)])
  have "normalize (map f (code m)) = raw"
    using typed_format_code [OF raw assms(3)] by (simp add: m normalize_typed [OF _ raw(2)])
  moreover have "normalize raw = raw" using normalize_typed [OF typed_symbols] raw(2) by blast
  ultimately show ?thesis
    using n raw symbols_ascii [OF raw(2)] m
    by (auto simp: hash_def is_plausible_def CODE_LEN_def format_code_groups list_all_iff)
qed

theorem invite_code_roundtrip_witness:
  "\<exists>m. mint id (Some [0, 1, 2, 3, 4, 5, 6, 7, 8, 9]) = Some m
    \<and> hash id (map (\<lambda>c. if c = CHR ''-'' then CHR '' '' else lower_char c) (code m)) = code_hash m"
proof -
  let ?f = "\<lambda>c. if c = CHR ''-'' then CHR '' '' else lower_char c"
  obtain m where m: "mint id (Some [0, 1, 2, 3, 4, 5, 6, 7, 8, 9]) = Some m" by (simp add: mint_def Let_def)
  have "retyped ?f" using symbol_facts(3) by (auto simp: retyped_def is_whitespace_def)
  from invite_code_roundtrip [OF _ m this] m show ?thesis by auto
qed

text \<open>A minted invite keeps all of its entropy: two draws of ten bytes print the same code
  only if they are the same draw, so the 80 bits are neither truncated nor biased.\<close>

theorem invite_codes_keep_their_entropy:
  assumes "length a = 10" "length b = 10"
  shows "map_option code (mint sha (Some a)) = map_option code (mint sha (Some b)) \<longleftrightarrow> a = b"
proof -
  define ra where "ra = symbols 16 (fold_bits a :: 128 word)"
  define rb where "rb = symbols 16 (fold_bits b :: 128 word)"
  have raw: "length ra = 16" "set ra \<subseteq> set ALPHABET" "length rb = 16" "set rb \<subseteq> set ALPHABET"
    using set_symbols by (auto simp: ra_def rb_def)
  have id: "retyped id" by (simp add: retyped_def)
  have "ra = rb" if "format_code ra = format_code rb"
    using that typed_format_code [OF raw(1,2) id] typed_format_code [OF raw(3,4) id] by (simp add: typed_as_def)
  moreover have "a = b" if "ra = rb"
    by (rule draw_inj [where 'a = 128 and n = 16]) (use that assms in \<open>simp_all add: ra_def rb_def\<close>)
  ultimately show ?thesis by (auto simp: mint_def Let_def CODE_LEN_def ra_def rb_def)
qed

theorem invite_codes_keep_their_entropy_witness:
  "map_option code (mint id (Some (replicate 10 7))) \<noteq> map_option code (mint id (Some (replicate 9 7 @ [8])))"
  using invite_codes_keep_their_entropy [of "replicate 10 7" "replicate 9 7 @ [8]" id] by (simp add: numeral_eq_Suc)

text \<open>The warden passes on a pairing code exactly when the daemon could have printed it: a
  string has the shape the warden checks if and only if it is the display form of some
  draw of five bytes, and normalizing the display form gives the minted symbols back.\<close>

theorem warden_accepts_daemon_codes:
  "(is_pairing_code s \<longleftrightarrow> (\<exists>bytes raw. length bytes = 5 \<and> mint_code_plaintext (Some bytes) = Some raw
       \<and> s = format_pairing_code raw \<and> normalize_pairing_code s = raw))"
proof
  assume "is_pairing_code s"
  then obtain a b where ab: "s = a @ CHR ''-'' # b" "byte_len a = 4" "byte_len b = 4"
    and sub: "set a \<subseteq> set ALPHABET" "set b \<subseteq> set ALPHABET"
    by (auto simp: is_pairing_code_def Let_def split_once_Some PAIRING_ALPHABET_eq list_all_iff subset_iff
        split: option.splits)
  then have len: "length a = 4" "length b = 4" using symbols_ascii by auto
  obtain bytes where bytes: "length bytes = 5" "a @ b = symbols 8 (fold_bits bytes :: 64 word)"
    using draw_surj [where 'a = 64, of "a @ b" 8 5] len sub by auto
  have "normalize_pairing_code s = a @ b"
    using typed_append [OF typed_symbols [OF sub(1)] typed_dash [OF typed_symbols [OF sub(2)]]]
    by (simp add: normalize_pairing_code_def typed_as_def ab)
  moreover have "format_pairing_code (a @ b) = s"
    using ab len by (simp add: format_pairing_code_def PAIRING_CODE_LEN_def)
  ultimately show "\<exists>bytes raw. length bytes = 5 \<and> mint_code_plaintext (Some bytes) = Some raw
       \<and> s = format_pairing_code raw \<and> normalize_pairing_code s = raw"
    using bytes by (auto simp: mint_code_plaintext_def PAIRING_CODE_LEN_def)
next
  assume "\<exists>bytes raw. length bytes = 5 \<and> mint_code_plaintext (Some bytes) = Some raw
       \<and> s = format_pairing_code raw \<and> normalize_pairing_code s = raw"
  then obtain bytes :: "8 word list" and raw where
    "raw = symbols 8 (fold_bits bytes :: 64 word)" and s: "s = format_pairing_code raw"
    by (auto simp: mint_code_plaintext_def PAIRING_CODE_LEN_def)
  then have raw: "length raw = 8" "set raw \<subseteq> set ALPHABET" using set_symbols by auto
  have sub: "set (take 4 raw) \<subseteq> set ALPHABET" "set (drop 4 raw) \<subseteq> set ALPHABET"
    using raw(2) set_take_subset [of 4 raw] set_drop_subset [of 4 raw] by blast+
  have "s = take 4 raw @ CHR ''-'' # drop 4 raw"
    using raw symbols_ascii [OF raw(2)] by (simp add: s format_pairing_code_def PAIRING_CODE_LEN_def)
  moreover have "CHR ''-'' \<notin> set (take 4 raw)" using sub(1) symbol_facts(3) by blast
  ultimately have "split_once (CHR ''-'') s = Some (take 4 raw, drop 4 raw)" by (simp add: split_once_Some)
  then show "is_pairing_code s"
    using sub raw symbols_ascii [OF sub(1)] symbols_ascii [OF sub(2)]
    by (auto simp: is_pairing_code_def PAIRING_ALPHABET_eq list_all_iff)
qed

end
