(* ===== verification/Broker_Validate.thy ===== *)
theory Broker_Validate
  imports Rust_Text
begin

unbundle bit_operations_syntax

text \<open>
  \<open>squelch-broker/src/validate.rs\<close>: what a stranger may register. The \<open>url\<close> crate's
  parser is not modelled: it is the parameter \<open>parse_url\<close>, which gives the accessors the
  code reads (\<open>scheme\<close>, \<open>username\<close>, \<open>host_str\<close>, ..., \<open>query_pairs\<close>) as the fields of a
  record, or \<open>None\<close> where the parse fails. Nothing is assumed of it.
\<close>

definition SESSION_ID_LEN :: nat where
  "SESSION_ID_LEN = 43"

definition CLAIM_TOKEN_HASH_LEN :: nat where
  "CLAIM_TOKEN_HASH_LEN = 64"

definition MAX_AUTH_URL :: nat where
  "MAX_AUTH_URL = 4096"

definition GOOGLE_HOST :: string where
  "GOOGLE_HOST = ''accounts.google.com''"

definition GOOGLE_AUTH_PATH :: string where
  "GOOGLE_AUTH_PATH = ''/o/oauth2/v2/auth''"

definition GMAIL_READONLY_SCOPE :: string where
  "GMAIL_READONLY_SCOPE = ''https://www.googleapis.com/auth/gmail.readonly''"

definition GMAIL_MODIFY_SCOPE :: string where
  "GMAIL_MODIFY_SCOPE = ''https://www.googleapis.com/auth/gmail.modify''"

definition GMAIL_SEND_SCOPE :: string where
  "GMAIL_SEND_SCOPE = ''https://www.googleapis.com/auth/gmail.send''"

definition ALLOWED_SCOPES :: "string list" where
  "ALLOWED_SCOPES = [GMAIL_READONLY_SCOPE, GMAIL_MODIFY_SCOPE, GMAIL_SEND_SCOPE]"

datatype auth_url_error =
    TooLong | Unparseable | Scheme | Userinfo | Host | Port | Path | Fragment
  | DuplicateParam string | RedirectUri | State | ResponseType | CodeChallenge
  | CodeChallengeMethod | ClientId | Scope | ScopeNotAllowed

definition CHECKED_PARAMS :: "string list" where
  "CHECKED_PARAMS = [''redirect_uri'', ''state'', ''response_type'', ''code_challenge'',
     ''code_challenge_method'', ''client_id'', ''scope'']"

definition is_base64url :: "8 word \<Rightarrow> bool" where
  "is_base64url b \<longleftrightarrow> (97 \<le> b \<and> b \<le> 122) \<or> (65 \<le> b \<and> b \<le> 90) \<or> (48 \<le> b \<and> b \<le> 57) \<or> b = 45 \<or> b = 95"

definition is_session_id :: "string \<Rightarrow> bool" where
  "is_session_id s \<longleftrightarrow> byte_len s = SESSION_ID_LEN \<and> list_all is_base64url (utf8 s)"

definition nibble :: "8 word \<Rightarrow> 8 word option" where
  "nibble b = (if 48 \<le> b \<and> b \<le> 57 then Some (b - 48)
     else if 97 \<le> b \<and> b \<le> 102 then Some (b - 97 + 10)
     else None)"

text \<open>The decoding loop, two bytes at a time, left at the first byte that is no digit.\<close>

fun decode_pairs :: "8 word list \<Rightarrow> 8 word list option" where
  "decode_pairs (h # l # rest) =
     (case nibble h of None \<Rightarrow> None | Some hi \<Rightarrow>
      case nibble l of None \<Rightarrow> None | Some lo \<Rightarrow>
      case decode_pairs rest of None \<Rightarrow> None | Some bytes \<Rightarrow> Some ((push_bit 4 hi OR lo) # bytes))"
| "decode_pairs _ = Some []"

definition claim_token_hash :: "string \<Rightarrow> 8 word list option" where
  "claim_token_hash raw =
     (if byte_len raw \<noteq> CLAIM_TOKEN_HASH_LEN then None else decode_pairs (utf8 raw))"

record url =
  scheme :: string
  username :: string
  password :: "string option"
  host_str :: "string option"
  port :: "nat option"
  path :: string
  fragment :: "string option"
  query_pairs :: "(string \<times> string) list"

text \<open>The pass over the query: only the checked names are kept, a repeat is refused.\<close>

fun collect_params :: "(string \<times> string) list \<Rightarrow> (string, string) table
    \<Rightarrow> auth_url_error + (string, string) table" where
  "collect_params [] params = Inr params"
| "collect_params ((k, v) # kvs) params =
     (if k \<in> set CHECKED_PARAMS
      then if map_of params k \<noteq> None then Inl (DuplicateParam k)
           else collect_params kvs (AList.update k v params)
      else collect_params kvs params)"

definition param :: "(string, string) table \<Rightarrow> string \<Rightarrow> string" where
  "param params name = (case map_of params name of None \<Rightarrow> [] | Some v \<Rightarrow> v)"

definition auth_url :: "(string \<Rightarrow> url option) \<Rightarrow> string \<Rightarrow> string \<Rightarrow> string \<Rightarrow> auth_url_error + unit" where
  "auth_url parse_url raw session_id callback_url =
     (if MAX_AUTH_URL < byte_len raw then Inl TooLong
      else case parse_url raw of None \<Rightarrow> Inl Unparseable | Some u \<Rightarrow>
        if scheme u \<noteq> ''https'' then Inl Scheme
        else if username u \<noteq> [] \<or> password u \<noteq> None then Inl Userinfo
        else if host_str u \<noteq> Some GOOGLE_HOST then Inl Host
        else if port u \<noteq> None then Inl Port
        else if path u \<noteq> GOOGLE_AUTH_PATH then Inl Path
        else if fragment u \<noteq> None then Inl Fragment
        else case collect_params (query_pairs u) [] of Inl e \<Rightarrow> Inl e | Inr params \<Rightarrow>
          if param params ''redirect_uri'' \<noteq> callback_url then Inl RedirectUri
          else if param params ''state'' \<noteq> session_id then Inl State
          else if param params ''response_type'' \<noteq> ''code'' then Inl ResponseType
          else if param params ''code_challenge'' = [] then Inl CodeChallenge
          else if param params ''code_challenge_method'' \<noteq> ''S256'' then Inl CodeChallengeMethod
          else if param params ''client_id'' = [] then Inl ClientId
          else let requested = split_whitespace (param params ''scope'') in
            if requested = [] then Inl Scope
            else if \<not> list_all (\<lambda>s. s \<in> set ALLOWED_SCOPES) requested then Inl ScopeNotAllowed
            else Inr ())"

definition requested_scopes :: "(string \<Rightarrow> url option) \<Rightarrow> string \<Rightarrow> string list" where
  "requested_scopes parse_url raw =
     (case parse_url raw of None \<Rightarrow> [] | Some u \<Rightarrow>
        case find (\<lambda>(k, v). k = ''scope'') (query_pairs u) of
          None \<Rightarrow> [] | Some (k, v) \<Rightarrow> split_whitespace v)"

section \<open>Lemmas\<close>

text \<open>Every value a query gives a name, in order.\<close>

definition values_of :: "string \<Rightarrow> (string \<times> string) list \<Rightarrow> string list" where
  "values_of k kvs = map snd (filter (\<lambda>(k', v). k' = k) kvs)"

lemma values_of_simps [simp]:
  "values_of k [] = []"
  "values_of k ((k', v) # kvs) = (if k' = k then v # values_of k kvs else values_of k kvs)"
  by (auto simp: values_of_def)

text \<open>A pass that succeeds saw every checked name at most once, and kept its value.\<close>

lemma collect_params_Inr:
  assumes "collect_params kvs acc = Inr params" "k \<in> set CHECKED_PARAMS"
  shows "(case map_of acc k of None \<Rightarrow> [] | Some v \<Rightarrow> [v]) @ values_of k kvs
    = (case map_of params k of None \<Rightarrow> [] | Some v \<Rightarrow> [v])"
  using assms
proof (induction kvs acc rule: collect_params.induct)
  case (1 params)
  then show ?case by simp
next
  case (2 k' v kvs acc)
  then show ?case
    by (auto simp: update_conv' split: if_splits option.splits)
qed

lemma collect_params_fails:
  "(\<exists>e. collect_params kvs acc = Inl e) \<longleftrightarrow>
    (\<exists>k \<in> set CHECKED_PARAMS. 1 < length ((case map_of acc k of None \<Rightarrow> [] | Some v \<Rightarrow> [v]) @ values_of k kvs))"
proof (induction kvs acc rule: collect_params.induct)
  case (1 params)
  then show ?case by (auto split: option.splits)
next
  case (2 k' v kvs acc)
  show ?case
  proof (cases "k' \<in> set CHECKED_PARAMS")
    case True
    show ?thesis
    proof (cases "map_of acc k'")
      case None
      have same: "(case map_of (AList.update k' v acc) k of None \<Rightarrow> [] | Some v \<Rightarrow> [v]) @ values_of k kvs
          = (case map_of acc k of None \<Rightarrow> [] | Some v \<Rightarrow> [v]) @ values_of k ((k', v) # kvs)" for k
        using None by (cases "k' = k") (auto simp: update_conv')
      have "map_of acc k' = None" by (rule None)
      with True 2(1) show ?thesis unfolding same by simp
    next
      case (Some w)
      with True show ?thesis by (auto intro!: bexI [of _ k'])
    qed
  next
    case False
    then have "values_of k ((k', v) # kvs) = values_of k kvs" if "k \<in> set CHECKED_PARAMS" for k
      using that by auto
    with False 2 show ?thesis by simp
  qed
qed

lemma param_values:
  assumes "collect_params kvs [] = Inr params" "k \<in> set CHECKED_PARAMS"
  shows "v \<noteq> [] \<Longrightarrow> param params k = v \<longleftrightarrow> values_of k kvs = [v]"
    and "values_of k kvs = [] \<or> (\<exists>v. values_of k kvs = [v])"
  using collect_params_Inr [OF assms] by (auto simp: param_def split: option.splits)

lemma find_values: "find (\<lambda>(k', v). k' = k) kvs = Some (k'', v) \<Longrightarrow> values_of k kvs = v # tl (values_of k kvs)"
  by (induction kvs) (auto split: if_splits)

lemma find_values_None: "find (\<lambda>(k', v). k' = k) kvs = None \<Longrightarrow> values_of k kvs = []"
  by (induction kvs) (auto split: if_splits)

lemma checked [simp]:
  "''redirect_uri'' \<in> set CHECKED_PARAMS" "''state'' \<in> set CHECKED_PARAMS"
  "''response_type'' \<in> set CHECKED_PARAMS" "''code_challenge'' \<in> set CHECKED_PARAMS"
  "''code_challenge_method'' \<in> set CHECKED_PARAMS" "''client_id'' \<in> set CHECKED_PARAMS"
  "''scope'' \<in> set CHECKED_PARAMS"
  by (simp_all add: CHECKED_PARAMS_def)

definition good_url :: "url \<Rightarrow> bool" where
  "good_url u \<longleftrightarrow> scheme u = ''https'' \<and> username u = [] \<and> password u = None
     \<and> host_str u = Some GOOGLE_HOST \<and> port u = None \<and> path u = GOOGLE_AUTH_PATH \<and> fragment u = None"

lemma auth_url_Inr:
  "auth_url parse_url raw sid cb = Inr () \<longleftrightarrow> byte_len raw \<le> MAX_AUTH_URL \<and>
     (\<exists>u params. parse_url raw = Some u \<and> good_url u \<and> collect_params (query_pairs u) [] = Inr params
        \<and> param params ''redirect_uri'' = cb \<and> param params ''state'' = sid
        \<and> param params ''response_type'' = ''code'' \<and> param params ''code_challenge'' \<noteq> []
        \<and> param params ''code_challenge_method'' = ''S256'' \<and> param params ''client_id'' \<noteq> []
        \<and> split_whitespace (param params ''scope'') \<noteq> []
        \<and> set (split_whitespace (param params ''scope'')) \<subseteq> set ALLOWED_SCOPES)"
  unfolding auth_url_def Let_def good_url_def list_all_iff subset_iff early_return
  by (simp add: not_less) blast

lemma unat_bound: "unat (x :: 8 word) < 256"
  using unsigned_less [of x] by simp

text \<open>Hexadecimal digits, to state what the decoder undoes.\<close>

definition hex_digit :: "8 word \<Rightarrow> 8 word" where
  "hex_digit v = (if v < 10 then 48 + v else 87 + v)"

definition hex_byte :: "8 word \<Rightarrow> 8 word list" where
  "hex_byte x = [hex_digit (drop_bit 4 x), hex_digit (x AND 15)]"

lemma nibble_Some: "nibble b = Some v \<longleftrightarrow> v < 16 \<and> b = hex_digit v"
proof
  assume "nibble b = Some v"
  then consider "48 \<le> b" "b \<le> 57" "v = b - 48" | "97 \<le> b" "b \<le> 102" "v = b - 97 + 10"
    by (auto simp: nibble_def split: if_splits)
  then show "v < 16 \<and> b = hex_digit v"
  proof cases
    case 1
    then have "unat v = unat b - 48" "48 \<le> unat b" "unat b \<le> 57"
      by (simp_all add: unat_sub word_le_nat_alt)
    then have "v < 10" "v < 16" by (simp_all add: word_less_nat_alt)
    with 1 show ?thesis by (simp add: hex_digit_def)
  next
    case 2
    then have w: "unat (b - 97) = unat b - 97" "97 \<le> unat b" "unat b \<le> 102"
      by (simp_all add: unat_sub word_le_nat_alt)
    then have "unat v = unat b - 97 + 10" unfolding 2(3) unat_word_ariths(1) by simp
    with w have "\<not> v < 10" "v < 16" by (simp_all add: word_less_nat_alt)
    with 2(3) show ?thesis by (simp add: hex_digit_def)
  qed
next
  assume a: "v < 16 \<and> b = hex_digit v"
  show "nibble b = Some v"
  proof (cases "v < 10")
    case True
    then have "unat v < 10" by (simp add: word_less_nat_alt)
    then have "48 \<le> 48 + v" "48 + v \<le> 57" by (simp_all add: word_le_nat_alt unat_word_ariths(1))
    with a True show ?thesis by (simp add: nibble_def hex_digit_def)
  next
    case False
    with a have "10 \<le> unat v" "unat v < 16" by (simp_all add: word_less_nat_alt)
    then have "97 \<le> 87 + v" "87 + v \<le> 102" "\<not> 87 + v \<le> 57"
      by (simp_all add: word_le_nat_alt unat_word_ariths(1))
    with a False show ?thesis by (simp add: nibble_def hex_digit_def)
  qed
qed

lemma less_16_bits: "(w :: 8 word) < 16 \<Longrightarrow> 4 \<le> n \<Longrightarrow> \<not> bit w n"
proof -
  assume w: "w < 16" and n: "4 \<le> n"
  then have "unat w < 2 ^ 4" by (simp add: word_less_nat_alt)
  then have "take_bit 4 (unat w) = unat w" by (simp add: take_bit_nat_eq_self)
  then have "\<not> bit (unat w) n" using n by (metis bit_take_bit_iff not_less)
  then show "\<not> bit w n" by (simp add: bit_unsigned_iff)
qed

lemma nibbles_join:
  fixes hi lo x :: "8 word"
  assumes "hi < 16" "lo < 16"
  shows "push_bit 4 hi OR lo = x \<longleftrightarrow> hi = drop_bit 4 x \<and> lo = x AND 15"
proof -
  have m: "(15 :: 8 word) = mask 4" by (simp add: mask_eq_exp_minus_1)
  note hi = less_16_bits [OF assms(1)] and lo = less_16_bits [OF assms(2)]
  show ?thesis
  proof
    assume x: "push_bit 4 hi OR lo = x"
    have "drop_bit 4 x = hi"
      unfolding x [symmetric] using hi lo
      by (intro bit_word_eqI) (auto simp: bit_simps not_le [symmetric])
    moreover have "x AND mask 4 = lo"
      unfolding x [symmetric] using hi lo
      by (intro bit_word_eqI) (use lo not_le in \<open>auto simp: bit_simps\<close>)
    ultimately show "hi = drop_bit 4 x \<and> lo = x AND 15" by (simp add: m)
  next
    assume "hi = drop_bit 4 x \<and> lo = x AND 15"
    then show "push_bit 4 hi OR lo = x"
      unfolding m by (auto intro!: bit_word_eqI simp: bit_simps)
  qed
qed

definition hex :: "8 word list \<Rightarrow> 8 word list" where
  "hex d = concat (map hex_byte d)"

lemma hex_Nil: "[] = hex d \<longleftrightarrow> d = []"
  by (cases d) (auto simp: hex_def hex_byte_def)

lemma decode_pairs_hex:
  "even (length bs) \<Longrightarrow> decode_pairs bs = Some d \<longleftrightarrow> bs = hex d"
proof (induction bs arbitrary: d rule: decode_pairs.induct)
  case (1 h l rest)
  have "decode_pairs (h # l # rest) = Some d \<longleftrightarrow>
      (\<exists>hi lo bytes. nibble h = Some hi \<and> nibble l = Some lo \<and> decode_pairs rest = Some bytes
         \<and> d = (push_bit 4 hi OR lo) # bytes)"
    by (auto split: option.splits)
  also have "\<dots> \<longleftrightarrow> (\<exists>hi lo x bytes. hi < 16 \<and> lo < 16 \<and> h = hex_digit hi \<and> l = hex_digit lo
         \<and> hi = drop_bit 4 x \<and> lo = x AND 15 \<and> rest = hex bytes \<and> d = x # bytes)"
    using 1 by (simp add: nibble_Some nibbles_join [symmetric] cong: conj_cong) (metis nibbles_join)
  also have "\<dots> \<longleftrightarrow> h # l # rest = hex d"
  proof -
    have "unat (drop_bit 4 x) < 16" for x :: "8 word"
    proof -
      have "unat x < 16 * 2 ^ 4" using unat_bound [of x] by simp
      then show ?thesis
        unfolding unat_drop_bit_eq unfolding drop_bit_eq_div by (rule less_mult_imp_div_less)
    qed
    then have "drop_bit 4 x < (16 :: 8 word)" "x AND 15 < (16 :: 8 word)" for x :: "8 word"
      using word_and_le1 [of x 15] by (simp_all add: word_less_nat_alt word_le_nat_alt)
    then show ?thesis by (cases d) (auto simp: hex_def hex_byte_def)
  qed
  finally show ?case .
qed (auto simp: hex_Nil)

lemma length_hex: "length (hex d) = 2 * length d"
  by (induction d) (auto simp: hex_def hex_byte_def)

section \<open>Properties\<close>

text \<open>A claim token hash has one spelling: decoding succeeds exactly on the 64 bytes of
  the lower-case hexadecimal of 32 bytes, and gives those bytes back, so no two accepted
  strings name the same secret and no digest is unreachable.\<close>

theorem claim_token_hash_one_spelling:
  "claim_token_hash raw = Some d \<longleftrightarrow> length d = 32 \<and> utf8 raw = hex d"
proof (cases "byte_len raw = 64")
  case True
  then have "even (length (utf8 raw))" by (simp add: length_utf8)
  with True decode_pairs_hex [OF this, of d] show ?thesis
    using length_hex [of d] length_utf8 [of raw]
    by (auto simp: claim_token_hash_def CLAIM_TOKEN_HASH_LEN_def)
next
  case False
  then show ?thesis
    using length_hex [of d] length_utf8 [of raw]
    by (auto simp: claim_token_hash_def CLAIM_TOKEN_HASH_LEN_def)
qed

text \<open>What registration accepts as a consent URL, whatever the URL parser: an https URL
  with no userinfo, no port and no fragment, whose host and path are exactly Google's, whose
  query gives the broker's own callback, this session's id, \<open>code\<close> and \<open>S256\<close> once each,
  a challenge and a client exactly once and not empty, and one \<open>scope\<close> that lists at
  least one scope and only the three squelchd asks for. A parameter given twice is refused
  wherever it stands.\<close>

theorem auth_url_accepts_exactly:
  assumes "sid \<noteq> []" "cb \<noteq> []"
  shows "auth_url parse_url raw sid cb = Inr () \<longleftrightarrow> byte_len raw \<le> 4096 \<and>
     (\<exists>u. parse_url raw = Some u \<and> scheme u = ''https'' \<and> username u = [] \<and> password u = None
        \<and> host_str u = Some GOOGLE_HOST \<and> port u = None \<and> path u = GOOGLE_AUTH_PATH \<and> fragment u = None
        \<and> values_of ''redirect_uri'' (query_pairs u) = [cb]
        \<and> values_of ''state'' (query_pairs u) = [sid]
        \<and> values_of ''response_type'' (query_pairs u) = [''code'']
        \<and> (\<exists>v. v \<noteq> [] \<and> values_of ''code_challenge'' (query_pairs u) = [v])
        \<and> values_of ''code_challenge_method'' (query_pairs u) = [''S256'']
        \<and> (\<exists>v. v \<noteq> [] \<and> values_of ''client_id'' (query_pairs u) = [v])
        \<and> (\<exists>v. split_whitespace v \<noteq> [] \<and> set (split_whitespace v) \<subseteq> set ALLOWED_SCOPES
             \<and> values_of ''scope'' (query_pairs u) = [v]))"
proof -
  have ws: "split_whitespace [] = []" by (simp add: split_whitespace_def)
  have step: "(\<exists>params. collect_params kvs [] = Inr params
        \<and> param params ''redirect_uri'' = cb \<and> param params ''state'' = sid
        \<and> param params ''response_type'' = ''code'' \<and> param params ''code_challenge'' \<noteq> []
        \<and> param params ''code_challenge_method'' = ''S256'' \<and> param params ''client_id'' \<noteq> []
        \<and> split_whitespace (param params ''scope'') \<noteq> []
        \<and> set (split_whitespace (param params ''scope'')) \<subseteq> set ALLOWED_SCOPES)
    \<longleftrightarrow> values_of ''redirect_uri'' kvs = [cb] \<and> values_of ''state'' kvs = [sid]
        \<and> values_of ''response_type'' kvs = [''code'']
        \<and> (\<exists>v. v \<noteq> [] \<and> values_of ''code_challenge'' kvs = [v])
        \<and> values_of ''code_challenge_method'' kvs = [''S256'']
        \<and> (\<exists>v. v \<noteq> [] \<and> values_of ''client_id'' kvs = [v])
        \<and> (\<exists>v. split_whitespace v \<noteq> [] \<and> set (split_whitespace v) \<subseteq> set ALLOWED_SCOPES
             \<and> values_of ''scope'' kvs = [v])" (is "?L \<longleftrightarrow> ?R") for kvs
  proof (cases "collect_params kvs []")
    case (Inl e)
    then obtain k where "k \<in> set CHECKED_PARAMS" "1 < length (values_of k kvs)"
      using collect_params_fails [of kvs "[]"] by auto
    then have "\<not> ?R" by (auto simp: CHECKED_PARAMS_def)
    with Inl show ?thesis by simp
  next
    case (Inr params)
    note pv = param_values(1) [OF Inr]
    have some: "param params k \<noteq> [] \<longleftrightarrow> (\<exists>v. v \<noteq> [] \<and> values_of k kvs = [v])" if "k \<in> set CHECKED_PARAMS" for k
      using pv [OF that] by metis
    have scope: "split_whitespace (param params k) \<noteq> [] \<and> P (param params k)
        \<longleftrightarrow> (\<exists>v. split_whitespace v \<noteq> [] \<and> P v \<and> values_of k kvs = [v])" if "k \<in> set CHECKED_PARAMS" for k P
      using pv [OF that] ws by (metis list.inject)
    show ?thesis
      using scope [of "''scope''" "\<lambda>v. set (split_whitespace v) \<subseteq> set ALLOWED_SCOPES"]
      by (simp add: Inr assms pv some)
  qed
  show ?thesis
    unfolding auth_url_Inr good_url_def MAX_AUTH_URL_def step [symmetric] by blast
qed

definition sample_url :: url where
  "sample_url = \<lparr>scheme = ''https'', username = [], password = None, host_str = Some GOOGLE_HOST,
     port = None, path = GOOGLE_AUTH_PATH, fragment = None,
     query_pairs = [(''client_id'', ''1234''), (''redirect_uri'', ''cb''), (''response_type'', ''code''),
       (''state'', ''sid''), (''code_challenge'', ''E9Me''), (''code_challenge_method'', ''S256''),
       (''scope'', GMAIL_MODIFY_SCOPE @ '' '' @ GMAIL_SEND_SCOPE), (''access_type'', ''offline'')]\<rparr>"

theorem auth_url_accepts_exactly_witness:
  "auth_url (\<lambda>_. Some sample_url) ''https:'' ''sid'' ''cb'' = Inr ()
    \<and> values_of ''state'' (query_pairs sample_url) = [''sid'']"
proof -
  have "auth_url (\<lambda>_. Some sample_url) ''https:'' ''sid'' ''cb'' = Inr ()" by code_simp
  with auth_url_accepts_exactly [of "''sid''" "''cb''" "\<lambda>_. Some sample_url" "''https:''"] show ?thesis by auto
qed

text \<open>The page cannot describe one grant while the link asks for another: for every
  registered URL, the scopes the interstitial lists (re-read from the URL) are at least one,
  are all on the allowlist, and are exactly what every \<open>scope\<close> parameter of the URL says.\<close>

theorem page_lists_what_the_link_asks:
  assumes "auth_url parse_url raw sid cb = Inr ()"
  shows "requested_scopes parse_url raw \<noteq> []
    \<and> set (requested_scopes parse_url raw) \<subseteq> set ALLOWED_SCOPES
    \<and> (\<exists>u. parse_url raw = Some u \<and>
         (\<forall>v. (''scope'', v) \<in> set (query_pairs u) \<longrightarrow> requested_scopes parse_url raw = split_whitespace v))"
proof -
  obtain u params where u: "parse_url raw = Some u" "collect_params (query_pairs u) [] = Inr params"
    and s: "split_whitespace (param params ''scope'') \<noteq> []"
      "set (split_whitespace (param params ''scope'')) \<subseteq> set ALLOWED_SCOPES"
    using assms by (auto simp: auth_url_Inr)
  define v where "v = param params ''scope''"
  have "v \<noteq> []" using s(1) by (auto simp: v_def split_whitespace_def)
  then have one: "values_of ''scope'' (query_pairs u) = [v]"
    using param_values(1) [OF u(2), of "''scope''" v] by (simp add: v_def)
  then obtain k w where f: "find (\<lambda>(k, v). k = ''scope'') (query_pairs u) = Some (k, w)"
    using find_values_None [of "''scope''" "query_pairs u"] by fastforce
  have "w = v" using find_values [OF f] one by simp
  then have r: "requested_scopes parse_url raw = split_whitespace v"
    by (simp add: requested_scopes_def u(1) f)
  have "v' = v" if "(''scope'', v') \<in> set (query_pairs u)" for v'
  proof -
    from that have "v' \<in> set (values_of ''scope'' (query_pairs u))" by (force simp: values_of_def)
    with one show ?thesis by simp
  qed
  with r s u(1) show ?thesis by (auto simp: v_def)
qed

theorem page_lists_what_the_link_asks_witness:
  "set (requested_scopes (\<lambda>_. Some sample_url) ''https:'') \<subseteq> set ALLOWED_SCOPES"
proof -
  have "auth_url (\<lambda>_. Some sample_url) ''https:'' ''sid'' ''cb'' = Inr ()" by code_simp
  from page_lists_what_the_link_asks [OF this] show ?thesis by blast
qed

end
