(* ===== verification/Device_Tokens.thy ===== *)
theory Device_Tokens
  imports Codes Machine
begin

text \<open>
  The daemon's device tokens and pairing codes
  (\<open>squelch-core/src/store/sqlite/device_tokens.rs\<close>): the human door's credentials, the
  one unauthenticated write that trades a code for a token, and the audit row each of
  them leaves.

  A method holds the store's lock and one SQLite transaction: it is one step, and an error
  in it rolls everything it did back. Timestamps are stored as RFC 3339 text that parses back
  to the instant written, so a column is the instant. SHA-256, base64url and the rendering
  of an instant are third-party code: the fields of the parameter \<open>host\<close>.
\<close>

record host =
  sha256 :: "8 word list \<Rightarrow> 8 word list"
  base64url :: "8 word list \<Rightarrow> string"
  rfc3339 :: "instant \<Rightarrow> string"

definition PAIRING_TTL_SECS :: int where
  "PAIRING_TTL_SECS = 10 * 60"

definition MAX_FAILED_CLAIMS :: int where
  "MAX_FAILED_CLAIMS = 5"

definition LAST_USED_THROTTLE_SECS :: int where
  "LAST_USED_THROTTLE_SECS = 60"

definition MAX_DEVICE_NAME_CHARS :: nat where
  "MAX_DEVICE_NAME_CHARS = 100"

definition ACTOR_CLI :: string where
  "ACTOR_CLI = ''cli''"

definition ACTOR_PAIRING :: string where
  "ACTOR_PAIRING = ''pairing''"

definition CONSOLE_DEVICE_NAME :: string where
  "CONSOLE_DEVICE_NAME = ''console''"

text \<open>A token as callers see it, and the row behind it, which alone carries the hash.\<close>

record device_token =
  token_id :: int
  account_id :: int
  name :: string
  created_at :: instant
  last_used_at :: "instant option"
  revoked_at :: "instant option"

record token_row = device_token +
  token_hash :: string

record issued_device_token =
  issued_id :: int
  issued_account :: int
  issued_name :: string
  token :: string

record pairing_code =
  code_id :: int
  code_account :: int
  code_digest :: string
  expires_at :: instant
  failed_attempts :: int
  claimed_at :: "instant option"
  code_created_at :: instant

record minted_pairing_code =
  minted_id :: int
  display :: string
  valid_until :: instant

record audit_row =
  audit_account :: int
  audit_ts :: instant
  audit_actor :: string
  audit_action :: string
  audit_target :: string
  audit_detail :: "string option"

record store =
  device_tokens :: "token_row list"
  next_token :: int
  pairing_codes :: "pairing_code list"
  next_code :: int
  audit_log :: "audit_row list"

text \<open>\<open>NoEntropy\<close>: the OS refused randomness. \<open>Constraint\<close>: a UNIQUE index refused a row.\<close>

datatype core_error = NotFound | InvalidInput | NoEntropy | Constraint

definition token_target :: "int \<Rightarrow> string" where
  "token_target i = ''token:'' @ show_int i"

definition code_target :: "int \<Rightarrow> string" where
  "code_target i = ''code:'' @ show_int i"

definition no :: core_error where
  "no = NotFound"

definition ct_eq :: "string \<Rightarrow> string \<Rightarrow> bool" where
  "ct_eq a b = (if length (utf8 a) \<noteq> length (utf8 b) then False else utf8 a = utf8 b)"

definition normalize_device_name :: "string \<Rightarrow> string option" where
  "normalize_device_name s =
     (let trimmed = trim s in if trimmed = [] then None else Some (take MAX_DEVICE_NAME_CHARS trimmed))"

definition map_device_token :: "token_row \<Rightarrow> device_token" where
  "map_device_token r = device_token.truncate r"

definition audit :: "int \<Rightarrow> instant \<Rightarrow> string \<Rightarrow> string \<Rightarrow> string \<Rightarrow> string option \<Rightarrow> store \<Rightarrow> store" where
  "audit account ts actor action target detail s = s\<lparr>audit_log := audit_log s @
     [\<lparr>audit_account = account, audit_ts = ts, audit_actor = actor, audit_action = action,
       audit_target = target, audit_detail = detail\<rparr>]\<rparr>"

definition mk_token :: "int \<Rightarrow> int \<times> string \<times> string \<times> instant \<Rightarrow> token_row" where
  "mk_token i = (\<lambda>(account, hash, nm, now). \<lparr>token_id = i, account_id = account, name = nm,
     created_at = now, last_used_at = None, revoked_at = None, token_hash = hash\<rparr>)"

definition insert_token ::
    "host \<Rightarrow> int \<Rightarrow> string \<Rightarrow> string \<Rightarrow> string \<Rightarrow> 8 word list option \<Rightarrow> instant \<Rightarrow> store
       \<Rightarrow> core_error + issued_device_token \<times> store" where
  "insert_token h account nm actor action entropy now s =
     (case mint_token_plaintext (base64url h) entropy of None \<Rightarrow> Inl NoEntropy | Some tok \<Rightarrow>
        let hash = hex_sha256 (sha256 h) tok in
        if list_ex (\<lambda>r. token_hash r = hash) (device_tokens s) then Inl Constraint
        else let i = next_token s;
                 s = s\<lparr>device_tokens := device_tokens s @ [mk_token i (account, hash, nm, now)], next_token := i + 1\<rparr>;
                 s = audit account now actor action (token_target i) (Some nm) s
             in Inr (\<lparr>issued_id = i, issued_account = account, issued_name = nm, token = tok\<rparr>, s))"

section \<open>Device tokens\<close>

definition issue_device_token ::
    "host \<Rightarrow> int \<Rightarrow> string \<Rightarrow> 8 word list option \<Rightarrow> instant \<Rightarrow> store
       \<Rightarrow> (core_error + issued_device_token) \<times> store" where
  "issue_device_token h account nm entropy now s =
     (case normalize_device_name nm of None \<Rightarrow> (Inl InvalidInput, s) | Some nm \<Rightarrow>
      case insert_token h account nm ACTOR_CLI ''token.issue'' entropy now s of
        Inl e \<Rightarrow> (Inl e, s)
      | Inr (issued, s') \<Rightarrow> (Inr issued, s'))"

definition verify_device_token ::
    "host \<Rightarrow> string \<Rightarrow> instant \<Rightarrow> store \<Rightarrow> device_token option \<times> store" where
  "verify_device_token h presented now s =
     (let presented = trim presented in
      if \<not> starts_with presented TOKEN_PREFIX then (None, s)
      else let hash = hex_sha256 (sha256 h) presented in
        case find (\<lambda>r. token_hash r = hash \<and> revoked_at r = None) (device_tokens s) of
          None \<Rightarrow> (None, s)
        | Some r \<Rightarrow>
            if \<not> ct_eq (token_hash r) hash then (None, s)
            else let tok = map_device_token r;
                     stale = (case last_used_at tok of None \<Rightarrow> True
                              | Some prev \<Rightarrow> secs LAST_USED_THROTTLE_SECS < now - prev) in
              if stale then
                (Some (tok\<lparr>last_used_at := Some now\<rparr>),
                 s\<lparr>device_tokens := update_where (\<lambda>q. token_id q = token_id tok \<and> account_id q = account_id tok)
                     (\<lambda>q. q\<lparr>last_used_at := Some now\<rparr>) (device_tokens s)\<rparr>)
              else (Some tok, s))"

definition revoke_device_token :: "int \<Rightarrow> int \<Rightarrow> instant \<Rightarrow> store \<Rightarrow> bool \<times> store" where
  "revoke_device_token account i now s =
     (let p = (\<lambda>r. account_id r = account \<and> token_id r = i \<and> revoked_at r = None) in
      if count_where p (device_tokens s) = 0 then (False, s)
      else let s = s\<lparr>device_tokens := update_where p (\<lambda>r. r\<lparr>revoked_at := Some now\<rparr>) (device_tokens s)\<rparr>
           in (True, audit account now ACTOR_CLI ''token.revoke'' (token_target i) None s))"

definition list_device_tokens :: "int \<Rightarrow> store \<Rightarrow> device_token list" where
  "list_device_tokens account s =
     map map_device_token (sort_key token_id (filter (\<lambda>r. account_id r = account) (device_tokens s)))"

definition first_client_pairing_at :: "int \<Rightarrow> store \<Rightarrow> instant option" where
  "first_client_pairing_at account s =
     (case map created_at (filter (\<lambda>r. account_id r = account \<and> name r \<noteq> CONSOLE_DEVICE_NAME) (device_tokens s)) of
        [] \<Rightarrow> None
      | t # ts \<Rightarrow> Some (fold min ts t))"

definition count_client_devices :: "int \<Rightarrow> store \<Rightarrow> nat" where
  "count_client_devices account s =
     count_where (\<lambda>r. account_id r = account \<and> name r \<noteq> CONSOLE_DEVICE_NAME \<and> revoked_at r = None) (device_tokens s)"

section \<open>Pairing\<close>

definition mk_code :: "int \<Rightarrow> int \<times> string \<times> instant \<times> instant \<Rightarrow> pairing_code" where
  "mk_code i = (\<lambda>(account, hash, expiry, now). \<lparr>code_id = i, code_account = account, code_digest = hash,
     expires_at = expiry, failed_attempts = 0, claimed_at = None, code_created_at = now\<rparr>)"

definition mint_pairing_code ::
    "host \<Rightarrow> int \<Rightarrow> duration \<Rightarrow> 8 word list option \<Rightarrow> instant \<Rightarrow> store
       \<Rightarrow> (core_error + minted_pairing_code) \<times> store" where
  "mint_pairing_code h account ttl entropy now s =
     (case mint_code_plaintext entropy of None \<Rightarrow> (Inl NoEntropy, s) | Some c \<Rightarrow>
        let expiry = now + ttl;
            kept = delete_where (\<lambda>r. code_account r = account) (pairing_codes s);
            i = next_code s;
            s = s\<lparr>pairing_codes := kept @ [mk_code i (account, hex_sha256 (sha256 h) c, expiry, now)], next_code := i + 1\<rparr>;
            s = audit account now ACTOR_CLI ''pairing.mint'' (code_target i) (Some (''expires '' @ rfc3339 h expiry)) s
        in (Inr \<lparr>minted_id = i, display = format_pairing_code c, valid_until = expiry\<rparr>, s))"

text \<open>One live code charged with a miss.\<close>

definition charge :: "instant \<Rightarrow> pairing_code \<Rightarrow> store \<Rightarrow> store" where
  "charge now c s =
     (let p = (\<lambda>r. code_id r = code_id c \<and> code_account r = code_account c) in
      if failed_attempts c + 1 < MAX_FAILED_CLAIMS
      then s\<lparr>pairing_codes := update_where p (\<lambda>r. r\<lparr>failed_attempts := failed_attempts r + 1\<rparr>) (pairing_codes s)\<rparr>
      else audit (code_account c) now ACTOR_PAIRING ''pairing.burn'' (code_target (code_id c))
             (Some (show_int MAX_FAILED_CLAIMS @ '' failed claims''))
             (s\<lparr>pairing_codes := delete_where p (pairing_codes s)\<rparr>))"

definition penalize_pairing_miss :: "instant \<Rightarrow> store \<Rightarrow> store" where
  "penalize_pairing_miss now s =
     (let live = filter (\<lambda>c. now < expires_at c) (filter (\<lambda>c. claimed_at c = None) (pairing_codes s))
      in fold (charge now) live s)"

definition claim_pairing_code ::
    "host \<Rightarrow> string \<Rightarrow> string \<Rightarrow> 8 word list option \<Rightarrow> instant \<Rightarrow> store
       \<Rightarrow> (core_error + issued_device_token) \<times> store" where
  "claim_pairing_code h presented_code device_name entropy now s =
     (case normalize_device_name device_name of None \<Rightarrow> (Inl no, s) | Some nm \<Rightarrow>
        let normalized = normalize_pairing_code presented_code;
            hash = hex_sha256 (sha256 h) normalized;
            found = find (\<lambda>c. code_digest c = hash) (pairing_codes s);
            matched = (case found of None \<Rightarrow> None | Some c \<Rightarrow>
              if claimed_at c = None \<and> now < expires_at c \<and> ct_eq (code_digest c) hash then Some c else None)
        in case matched of
            None \<Rightarrow> (Inl no, penalize_pairing_miss now s)
          | Some c \<Rightarrow>
              let burned = s\<lparr>pairing_codes := update_where
                    (\<lambda>r. code_id r = code_id c \<and> code_account r = code_account c)
                    (\<lambda>r. r\<lparr>claimed_at := Some now\<rparr>) (pairing_codes s)\<rparr>
              in case insert_token h (code_account c) nm ACTOR_PAIRING ''pairing.claim'' entropy now burned of
                  Inl e \<Rightarrow> (Inl e, s)
                | Inr (issued, s') \<Rightarrow> (Inr issued, s'))"

section \<open>The store as a machine\<close>

datatype op =
    Issue int string "8 word list option" instant
  | Verify string instant
  | Revoke int int instant
  | Mint int duration "8 word list option" instant
  | Claim string string "8 word list option" instant

datatype out =
    Issued "core_error + issued_device_token"
  | Verified "device_token option"
  | Revoked bool
  | Minted "core_error + minted_pairing_code"
  | Claimed "core_error + issued_device_token"

fun step :: "host \<Rightarrow> op \<Rightarrow> store \<Rightarrow> out \<times> store" where
  "step h (Issue a nm e now) s = map_prod Issued id (issue_device_token h a nm e now s)"
| "step h (Verify p now) s = map_prod Verified id (verify_device_token h p now s)"
| "step h (Revoke a i now) s = map_prod Revoked id (revoke_device_token a i now s)"
| "step h (Mint a ttl e now) s = map_prod Minted id (mint_pairing_code h a ttl e now s)"
| "step h (Claim p nm e now) s = map_prod Claimed id (claim_pairing_code h p nm e now s)"

interpretation tokens: id_table token_id mk_token
  by unfold_locales (simp add: mk_token_def split: prod.splits)

interpretation codes: id_table code_id mk_code
  by unfold_locales (simp add: mk_code_def split: prod.splits)

text \<open>Distinct ids and token hashes, one code an account, and never five misses on a code.\<close>

definition store_inv :: "store \<Rightarrow> bool" where
  "store_inv s \<longleftrightarrow> tokens.wf (next_token s) (device_tokens s)
     \<and> codes.wf (next_code s) (pairing_codes s)
     \<and> distinct (map token_hash (device_tokens s))
     \<and> distinct (map code_account (pairing_codes s))
     \<and> (\<forall>c \<in> set (pairing_codes s). 0 \<le> failed_attempts c \<and> failed_attempts c < MAX_FAILED_CLAIMS)"

section \<open>Lemmas\<close>

lemma ct_eq_refl [simp]: "ct_eq a a"
  by (simp add: ct_eq_def)

lemma audit_simps [simp]:
  "device_tokens (audit a t x y z d s) = device_tokens s"
  "next_token (audit a t x y z d s) = next_token s"
  "pairing_codes (audit a t x y z d s) = pairing_codes s"
  "next_code (audit a t x y z d s) = next_code s"
  by (simp_all add: audit_def)

lemma token_hash_mk [simp]: "token_hash (mk_token i (a, h, n, t)) = h" "revoked_at (mk_token i (a, h, n, t)) = None"
  "account_id (mk_token i (a, h, n, t)) = a" "created_at (mk_token i (a, h, n, t)) = t"
  by (simp_all add: mk_token_def)

lemma mk_code_simps [simp]:
  "code_account (mk_code i (a, h, e, t)) = a" "code_digest (mk_code i (a, h, e, t)) = h"
  "expires_at (mk_code i (a, h, e, t)) = e" "failed_attempts (mk_code i (a, h, e, t)) = 0"
  "claimed_at (mk_code i (a, h, e, t)) = None"
  by (simp_all add: mk_code_def)

lemma insert_token_Inr:
  "insert_token h a nm actor action entropy now s = Inr (t, s') \<longleftrightarrow>
     (\<exists>tok. mint_token_plaintext (base64url h) entropy = Some tok
        \<and> (\<forall>r \<in> set (device_tokens s). token_hash r \<noteq> hex_sha256 (sha256 h) tok)
        \<and> t = \<lparr>issued_id = next_token s, issued_account = a, issued_name = nm, token = tok\<rparr>
        \<and> s' = audit a now actor action (token_target (next_token s)) (Some nm)
             (s\<lparr>device_tokens := device_tokens s @ [mk_token (next_token s) (a, hex_sha256 (sha256 h) tok, nm, now)],
                next_token := next_token s + 1\<rparr>))"
  unfolding insert_token_def Let_def by (auto simp: list_ex_iff split: option.split)

subsection \<open>What a miss does to the codes\<close>

definition live_at :: "instant \<Rightarrow> pairing_code \<Rightarrow> bool" where
  "live_at now c \<longleftrightarrow> claimed_at c = None \<and> now < expires_at c"

definition charged :: "pairing_code \<Rightarrow> pairing_code option" where
  "charged c = (if failed_attempts c + 1 < MAX_FAILED_CLAIMS
     then Some (c\<lparr>failed_attempts := failed_attempts c + 1\<rparr>) else None)"

lemma charged_fixed:
  "charged c = Some d \<Longrightarrow> code_id d = code_id c \<and> code_account d = code_account c \<and> claimed_at d = claimed_at c
     \<and> code_digest d = code_digest c \<and> expires_at d = expires_at c \<and> failed_attempts d = failed_attempts c + 1
     \<and> failed_attempts d < MAX_FAILED_CLAIMS"
  by (auto simp: charged_def split: if_splits)

lemma charge_codes:
  assumes "distinct (map code_id (pairing_codes s))" "c \<in> set (pairing_codes s)"
  shows "pairing_codes (charge now c s)
    = List.map_filter (\<lambda>r. if code_id r = code_id c then charged r else Some r) (pairing_codes s)"
proof -
  have same: "r = c" if "r \<in> set (pairing_codes s)" "code_id r = code_id c" for r
    using assms that by (auto simp: distinct_map dest: inj_onD)
  show ?thesis
  proof (cases "failed_attempts c + 1 < MAX_FAILED_CLAIMS")
    case True
    then have "pairing_codes (charge now c s) = List.map_filter (\<lambda>r. Some (if code_id r = code_id c
        \<and> code_account r = code_account c then r\<lparr>failed_attempts := failed_attempts r + 1\<rparr> else r)) (pairing_codes s)"
      by (simp add: charge_def update_where_map_filter)
    also have "\<dots> = List.map_filter (\<lambda>r. if code_id r = code_id c then charged r else Some r) (pairing_codes s)"
      using True same by (intro map_filter_cong_set) (auto simp: charged_def)
    finally show ?thesis .
  next
    case False
    then have "pairing_codes (charge now c s) = List.map_filter (\<lambda>r. if code_id r = code_id c
        \<and> code_account r = code_account c then None else Some r) (pairing_codes s)"
      by (simp add: charge_def delete_where_map_filter)
    also have "\<dots> = List.map_filter (\<lambda>r. if code_id r = code_id c then charged r else Some r) (pairing_codes s)"
      using False same by (intro map_filter_cong_set) (auto simp: charged_def)
    finally show ?thesis .
  qed
qed

lemma charge_rest:
  "device_tokens (charge now c s) = device_tokens s" "next_token (charge now c s) = next_token s"
  "next_code (charge now c s) = next_code s"
  by (simp_all add: charge_def Let_def)

lemma fold_charge_rest:
  "device_tokens (fold (charge now) ls s) = device_tokens s" "next_token (fold (charge now) ls s) = next_token s"
  "next_code (fold (charge now) ls s) = next_code s"
  by (induction ls arbitrary: s) (simp_all add: charge_rest)

lemma fold_charge_codes:
  assumes "distinct (map code_id (pairing_codes s))" "distinct (map code_id ls)" "set ls \<subseteq> set (pairing_codes s)"
  shows "pairing_codes (fold (charge now) ls s)
    = List.map_filter (\<lambda>r. if code_id r \<in> code_id ` set ls then charged r else Some r) (pairing_codes s)"
  using assms
proof (induction ls arbitrary: s)
  case Nil
  then show ?case by (simp add: map_filter_id)
next
  case (Cons c ls)
  let ?f = "\<lambda>r. if code_id r = code_id c then charged r else Some r"
  have c: "c \<in> set (pairing_codes s)" using Cons.prems(3) by simp
  note cs = charge_codes [OF Cons.prems(1) c, of now]
  have d: "distinct (map code_id (pairing_codes (charge now c s)))"
    unfolding cs using Cons.prems(1)
    by (rule distinct_map_map_filter) (auto dest: charged_fixed split: if_splits)
  have sub: "set ls \<subseteq> set (pairing_codes (charge now c s))"
  proof
    fix l assume l: "l \<in> set ls"
    then have "code_id l \<noteq> code_id c" using Cons.prems(2) by (metis distinct.simps(2) image_eqI list.map(2) set_map)
    with l Cons.prems(3) show "l \<in> set (pairing_codes (charge now c s))"
      unfolding cs in_map_filter by (intro bexI [of _ l]) auto
  qed
  have new: "code_id c \<notin> code_id ` set ls" using Cons.prems(2) by simp
  have "pairing_codes (fold (charge now) (c # ls) s)
      = List.map_filter (\<lambda>r. if code_id r \<in> code_id ` set ls then charged r else Some r) (List.map_filter ?f (pairing_codes s))"
    using Cons.IH [OF d _ sub] Cons.prems(2) by (simp add: cs)
  also have "\<dots> = List.map_filter (\<lambda>r. if code_id r \<in> code_id ` set (c # ls) then charged r else Some r) (pairing_codes s)"
    unfolding map_filter_map_filter
  proof (rule map_filter_cong_set)
    fix r assume "r \<in> set (pairing_codes s)"
    show "Option.bind (?f r) (\<lambda>r. if code_id r \<in> code_id ` set ls then charged r else Some r)
        = (if code_id r \<in> code_id ` set (c # ls) then charged r else Some r)"
    proof (cases "code_id r = code_id c")
      case True
      show ?thesis
      proof (cases "charged r")
        case None
        with True show ?thesis by simp
      next
        case (Some d)
        then have "code_id d = code_id c" using charged_fixed [OF Some] True by simp
        with True Some new show ?thesis by simp
      qed
    next
      case False
      then show ?thesis by simp
    qed
  qed
  finally show ?case .
qed

lemma penalize_codes:
  assumes "distinct (map code_id (pairing_codes s))"
  shows "pairing_codes (penalize_pairing_miss now s)
    = List.map_filter (\<lambda>r. if live_at now r then charged r else Some r) (pairing_codes s)"
proof -
  let ?ls = "filter (live_at now) (pairing_codes s)"
  have ls: "filter (\<lambda>c. now < expires_at c) (filter (\<lambda>c. claimed_at c = None) (pairing_codes s)) = ?ls"
    by (simp add: live_at_def [abs_def])
  have "pairing_codes (fold (charge now) ?ls s)
      = List.map_filter (\<lambda>r. if code_id r \<in> code_id ` set ?ls then charged r else Some r) (pairing_codes s)"
    using assms by (intro fold_charge_codes) (auto simp: distinct_map_filter)
  also have "\<dots> = List.map_filter (\<lambda>r. if live_at now r then charged r else Some r) (pairing_codes s)"
  proof (rule map_filter_cong_set)
    fix r assume "r \<in> set (pairing_codes s)"
    then have "code_id r \<in> code_id ` set ?ls \<longleftrightarrow> live_at now r"
      using assms by (auto simp: distinct_map dest: inj_onD)
    then show "(if code_id r \<in> code_id ` set ?ls then charged r else Some r) = (if live_at now r then charged r else Some r)"
      by simp
  qed
  finally show ?thesis unfolding penalize_pairing_miss_def Let_def ls .
qed

lemma penalize_rest:
  "device_tokens (penalize_pairing_miss now s) = device_tokens s"
  "next_token (penalize_pairing_miss now s) = next_token s"
  "next_code (penalize_pairing_miss now s) = next_code s"
  by (simp_all add: penalize_pairing_miss_def Let_def fold_charge_rest)

subsection \<open>The outcomes of a claim\<close>

definition burn :: "instant \<Rightarrow> pairing_code \<Rightarrow> store \<Rightarrow> store" where
  "burn now c s = s\<lparr>pairing_codes := update_where (\<lambda>r. code_id r = code_id c \<and> code_account r = code_account c)
     (\<lambda>r. r\<lparr>claimed_at := Some now\<rparr>) (pairing_codes s)\<rparr>"

definition presents :: "host \<Rightarrow> string \<Rightarrow> instant \<Rightarrow> store \<Rightarrow> pairing_code option" where
  "presents h p now s =
     (case find (\<lambda>c. code_digest c = hex_sha256 (sha256 h) (normalize_pairing_code p)) (pairing_codes s) of
        None \<Rightarrow> None | Some c \<Rightarrow> if live_at now c then Some c else None)"

lemma presents_Some:
  "presents h p now s = Some c \<Longrightarrow> c \<in> set (pairing_codes s) \<and> live_at now c
     \<and> code_digest c = hex_sha256 (sha256 h) (normalize_pairing_code p)"
  by (auto simp: presents_def dest: find_Some_in split: option.splits if_splits)

lemma claim_eq:
  "claim_pairing_code h p nm e now s =
     (case normalize_device_name nm of None \<Rightarrow> (Inl NotFound, s) | Some nm' \<Rightarrow>
      case presents h p now s of None \<Rightarrow> (Inl NotFound, penalize_pairing_miss now s) | Some c \<Rightarrow>
      case insert_token h (code_account c) nm' ACTOR_PAIRING ''pairing.claim'' e now (burn now c s) of
        Inl err \<Rightarrow> (Inl err, s) | Inr (t, s') \<Rightarrow> (Inr t, s'))"
proof -
  let ?f = "find (\<lambda>c. code_digest c = hex_sha256 (sha256 h) (normalize_pairing_code p)) (pairing_codes s)"
  have m: "(case ?f of None \<Rightarrow> None | Some c \<Rightarrow>
      if claimed_at c = None \<and> now < expires_at c \<and> ct_eq (code_digest c) (hex_sha256 (sha256 h) (normalize_pairing_code p))
      then Some c else None) = presents h p now s"
    by (auto simp: presents_def live_at_def dest!: find_Some_in split: option.split)
  show ?thesis unfolding claim_pairing_code_def Let_def m burn_def no_def ..
qed

lemma claim_cases:
  obtains
    (nameless) "normalize_device_name nm = None" "claim_pairing_code h p nm e now s = (Inl NotFound, s)"
  | (miss) nm' where "normalize_device_name nm = Some nm'" "presents h p now s = None"
      "claim_pairing_code h p nm e now s = (Inl NotFound, penalize_pairing_miss now s)"
  | (failed) c err where "presents h p now s = Some c" "err \<in> {NoEntropy, Constraint}"
      "claim_pairing_code h p nm e now s = (Inl err, s)"
  | (paired) c nm' t s' where "normalize_device_name nm = Some nm'" "presents h p now s = Some c"
      "insert_token h (code_account c) nm' ACTOR_PAIRING ''pairing.claim'' e now (burn now c s) = Inr (t, s')"
      "claim_pairing_code h p nm e now s = (Inr t, s')"
proof (cases "normalize_device_name nm")
  case None
  then show thesis by (intro nameless) (simp_all add: claim_eq)
next
  case nm: (Some nm')
  show thesis
  proof (cases "presents h p now s")
    case None
    with nm show thesis by (intro miss) (simp_all add: claim_eq)
  next
    case c: (Some c)
    show thesis
    proof (cases "insert_token h (code_account c) nm' ACTOR_PAIRING ''pairing.claim'' e now (burn now c s)")
      case (Inl err)
      then have "err \<in> {NoEntropy, Constraint}"
        by (auto simp: insert_token_def Let_def split: option.splits if_splits)
      with nm c Inl show thesis by (intro failed) (simp_all add: claim_eq)
    next
      case (Inr ts)
      with nm c show thesis by (cases ts) (intro paired, simp_all add: claim_eq)
    qed
  qed
qed

subsection \<open>The invariant\<close>

lemma store_invD:
  assumes "store_inv s"
  shows "tokens.wf (next_token s) (device_tokens s)" "codes.wf (next_code s) (pairing_codes s)"
    "distinct (map token_hash (device_tokens s))" "distinct (map code_account (pairing_codes s))"
    "\<And>c. c \<in> set (pairing_codes s) \<Longrightarrow> 0 \<le> failed_attempts c \<and> failed_attempts c < MAX_FAILED_CLAIMS"
    "distinct (map code_id (pairing_codes s))" "distinct (map token_id (device_tokens s))"
  using assms by (auto simp: store_inv_def tokens.wf_def codes.wf_def)

lemma inv_insert_token:
  assumes "store_inv s" "insert_token h a nm actor action e now s = Inr (t, s')"
  shows "store_inv s'"
proof -
  obtain tok where fresh: "\<forall>r \<in> set (device_tokens s). token_hash r \<noteq> hex_sha256 (sha256 h) tok"
    and s': "s' = audit a now actor action (token_target (next_token s)) (Some nm)
             (s\<lparr>device_tokens := device_tokens s @ [mk_token (next_token s) (a, hex_sha256 (sha256 h) tok, nm, now)],
                next_token := next_token s + 1\<rparr>)"
    using assms(2) by (auto simp: insert_token_Inr)
  have "tokens.wf (next_token s + 1) (device_tokens s @ [mk_token (next_token s) (a, hex_sha256 (sha256 h) tok, nm, now)])"
    by (rule tokens.wf_insert) (rule store_invD [OF assms(1)])
  with assms(1) fresh show ?thesis by (auto simp: store_inv_def s')
qed

lemma inv_update_tokens:
  assumes "store_inv s" "\<And>r. token_id (f r) = token_id r" "\<And>r. token_hash (f r) = token_hash r"
  shows "store_inv (s\<lparr>device_tokens := update_where p f (device_tokens s)\<rparr>)"
proof -
  have "map token_hash (update_where p f (device_tokens s)) = map token_hash (device_tokens s)"
    using assms(3) by (simp add: update_where_def)
  with tokens.wf_update [OF store_invD(1) [OF assms(1)] assms(2)] assms(1) show ?thesis
    by (simp add: store_inv_def)
qed

lemma inv_update_codes:
  assumes "store_inv s" "\<And>r. code_id (f r) = code_id r" "\<And>r. code_account (f r) = code_account r"
    and "\<And>r. failed_attempts (f r) = failed_attempts r"
  shows "store_inv (s\<lparr>pairing_codes := update_where p f (pairing_codes s)\<rparr>)"
proof -
  have "map code_account (update_where p f (pairing_codes s)) = map code_account (pairing_codes s)"
    using assms(3) by (simp add: update_where_def)
  with codes.wf_update [OF store_invD(2) [OF assms(1)] assms(2)] assms(1,4) show ?thesis
    by (auto simp: store_inv_def set_update_where)
qed

lemma inv_audit [simp]: "store_inv (audit a t x y z d s) = store_inv s"
  by (simp add: store_inv_def)

lemma inv_penalize:
  assumes "store_inv s"
  shows "store_inv (penalize_pairing_miss now s)"
proof -
  let ?g = "\<lambda>r. if live_at now r then charged r else Some r"
  note d = store_invD [OF assms]
  have keep: "code_id y = code_id r \<and> code_account y = code_account r" if "?g r = Some y" for r y
    using that charged_fixed [of r y] by (auto split: if_splits)
  have att: "0 \<le> failed_attempts y \<and> failed_attempts y < MAX_FAILED_CLAIMS"
    if "r \<in> set (pairing_codes s)" "?g r = Some y" for r y
    using that d(5) [OF that(1)] charged_fixed [of r y] by (auto split: if_splits)
  have ids: "code_id y < next_code s" if "r \<in> set (pairing_codes s)" "?g r = Some y" for r y
    using that keep [OF that(2)] d(2) by (auto simp: codes.wf_def)
  have "distinct (map code_id (List.map_filter ?g (pairing_codes s)))"
    using distinct_map_map_filter [of code_id "pairing_codes s" ?g] d(6) keep by blast
  moreover have "\<forall>y \<in> set (List.map_filter ?g (pairing_codes s)). code_id y < next_code s"
  proof
    fix y assume "y \<in> set (List.map_filter ?g (pairing_codes s))"
    then obtain r where "r \<in> set (pairing_codes s)" "?g r = Some y" unfolding in_map_filter by blast
    then show "code_id y < next_code s" by (rule ids)
  qed
  ultimately have "codes.wf (next_code s) (List.map_filter ?g (pairing_codes s))"
    unfolding codes.wf_def by blast
  moreover have "distinct (map code_account (List.map_filter ?g (pairing_codes s)))"
    using distinct_map_map_filter [of code_account "pairing_codes s" ?g] d(4) keep by blast
  ultimately show ?thesis
    using att d(1,3) unfolding store_inv_def penalize_rest penalize_codes [OF d(6)]
    by (blast dest: in_map_filter [THEN iffD1])
qed

lemma inv_mint:
  assumes "store_inv s"
  shows "store_inv (snd (mint_pairing_code h a ttl e now s))"
proof (cases "mint_code_plaintext e")
  case None
  with assms show ?thesis by (simp add: mint_pairing_code_def)
next
  case (Some c)
  note d = store_invD [OF assms]
  let ?kept = "delete_where (\<lambda>r. code_account r = a) (pairing_codes s)"
  have "codes.wf (next_code s + 1) (?kept @ [mk_code (next_code s) (a, hex_sha256 (sha256 h) c, now + ttl, now)])"
    by (intro codes.wf_insert codes.wf_delete d)
  moreover have "distinct (map code_account ?kept)"
    using d(4) by (simp add: delete_where_def distinct_map_filter)
  ultimately show ?thesis
    using Some assms
    by (auto simp: mint_pairing_code_def Let_def store_inv_def set_delete_where MAX_FAILED_CLAIMS_def)
qed

lemma inv_claim:
  assumes "store_inv s"
  shows "store_inv (snd (claim_pairing_code h p nm e now s))"
proof (rule claim_cases [where h = h and p = p and nm = nm and e = e and now = now and s = s])
  fix c t s' nm'
  assume "insert_token h (code_account c) nm' ACTOR_PAIRING ''pairing.claim'' e now (burn now c s) = Inr (t, s')"
    and r: "claim_pairing_code h p nm e now s = (Inr t, s')"
  moreover have "store_inv (burn now c s)"
    unfolding burn_def by (rule inv_update_codes [OF assms]) simp_all
  ultimately show ?thesis using inv_insert_token by simp
qed (simp_all add: assms inv_penalize)

lemma store_inv_step:
  assumes "store_inv s"
  shows "store_inv (snd (step h x s))"
proof (cases x)
  case (Issue a nm e now)
  then show ?thesis
    using assms inv_insert_token by (auto simp: issue_device_token_def split: option.split sum.split)
next
  case (Verify p now)
  have "store_inv (s\<lparr>device_tokens := update_where q (\<lambda>q. q\<lparr>last_used_at := Some now\<rparr>) (device_tokens s)\<rparr>)" for q
    by (rule inv_update_tokens [OF assms]) simp_all
  with Verify show ?thesis
    using assms by (simp add: verify_device_token_def Let_def split: option.split)
next
  case (Revoke a i now)
  have "store_inv (s\<lparr>device_tokens := update_where q (\<lambda>q. q\<lparr>revoked_at := Some now\<rparr>) (device_tokens s)\<rparr>)" for q
    by (rule inv_update_tokens [OF assms]) simp_all
  with Revoke show ?thesis using assms by (simp add: revoke_device_token_def Let_def)
next
  case (Mint a ttl e now)
  then show ?thesis using inv_mint [OF assms] by simp
next
  case (Claim p nm e now)
  then show ?thesis using inv_claim [OF assms] by simp
qed

definition empty_store :: store where
  "empty_store = \<lparr>device_tokens = [], next_token = 1, pairing_codes = [], next_code = 1, audit_log = []\<rparr>"

lemma inv_empty [simp]: "store_inv empty_store"
  by (simp add: store_inv_def empty_store_def)

interpretation daemon: invariant_machine "step h" store_inv for h
  by unfold_locales (rule store_inv_step)

subsection \<open>Codes as credentials\<close>

definition stock :: "string \<Rightarrow> store \<Rightarrow> nat" where
  "stock k s = count_where (\<lambda>c. code_digest c = k \<and> claimed_at c = None) (pairing_codes s)"

fun mints :: "host \<Rightarrow> string \<Rightarrow> op \<Rightarrow> out \<Rightarrow> bool" where
  "mints h k (Mint a ttl e now) (Minted (Inr m)) =
     (map_option (hex_sha256 (sha256 h)) (mint_code_plaintext e) = Some k)"
| "mints h k _ _ = False"

fun redeems :: "host \<Rightarrow> string \<Rightarrow> op \<Rightarrow> out \<Rightarrow> bool" where
  "redeems h k (Claim p nm e now) (Claimed (Inr t)) = (hex_sha256 (sha256 h) (normalize_pairing_code p) = k)"
| "redeems h k _ _ = False"

lemma stock_burn:
  assumes "c \<in> set (pairing_codes s)" "claimed_at c = None"
  shows "(if code_digest c = k then 1 else 0) + stock k (burn now c s) \<le> stock k s"
proof (cases "code_digest c = k")
  case True
  then show ?thesis
    using count_where_update_less [OF assms(1), where p = "\<lambda>r. code_id r = code_id c \<and> code_account r = code_account c"
        and q = "\<lambda>c. code_digest c = k \<and> claimed_at c = None" and f = "\<lambda>r. r\<lparr>claimed_at := Some now\<rparr>"] assms(2)
    by (simp add: stock_def burn_def)
next
  case False
  then show ?thesis by (auto simp: stock_def burn_def intro!: count_where_update_le)
qed

lemma stock_mint:
  "stock k (snd (mint_pairing_code h a ttl e now s))
     \<le> (if mints h k (Mint a ttl e now) (Minted (fst (mint_pairing_code h a ttl e now s))) then 1 else 0) + stock k s"
proof (cases "mint_code_plaintext e")
  case None
  then show ?thesis by (simp add: mint_pairing_code_def)
next
  case (Some c)
  have "count_where (\<lambda>c. code_digest c = k \<and> claimed_at c = None) (delete_where (\<lambda>r. code_account r = a) (pairing_codes s))
      \<le> stock k s"
    unfolding stock_def count_where_delete by (rule count_where_mono) simp
  with Some show ?thesis
    by (auto simp: mint_pairing_code_def Let_def stock_def count_where_def)
qed

lemma insert_token_codes:
  "insert_token h a nm actor action e now s = Inr (t, s') \<Longrightarrow> pairing_codes s' = pairing_codes s"
  by (auto simp: insert_token_Inr)

lemma stock_claim:
  assumes "store_inv s"
  shows "(if redeems h k (Claim p nm e now) (Claimed (fst (claim_pairing_code h p nm e now s))) then 1 else 0)
      + stock k (snd (claim_pairing_code h p nm e now s)) \<le> stock k s"
proof (rule claim_cases [where h = h and p = p and nm = nm and e = e and now = now and s = s])
  fix nm'
  assume r: "claim_pairing_code h p nm e now s = (Inl NotFound, penalize_pairing_miss now s)"
  have "stock k (penalize_pairing_miss now s) \<le> stock k s"
    unfolding stock_def penalize_codes [OF store_invD(6) [OF assms]]
    by (rule count_where_map_filter_le) (auto dest: charged_fixed split: if_splits)
  with r show ?thesis by simp
next
  fix c nm' t s'
  assume pr: "presents h p now s = Some c" and r: "claim_pairing_code h p nm e now s = (Inr t, s')"
    and "insert_token h (code_account c) nm' ACTOR_PAIRING ''pairing.claim'' e now (burn now c s) = Inr (t, s')"
  then have "stock k s' = stock k (burn now c s)" by (simp add: stock_def insert_token_codes)
  then show ?thesis
    using presents_Some [OF pr] stock_burn [of c s k now] r by (auto simp: live_at_def)
qed simp_all

lemma codes_others:
  "pairing_codes (snd (issue_device_token h a nm e now s)) = pairing_codes s"
  "pairing_codes (snd (verify_device_token h p now s)) = pairing_codes s"
  "pairing_codes (snd (revoke_device_token a i now s)) = pairing_codes s"
  by (auto simp: issue_device_token_def verify_device_token_def revoke_device_token_def Let_def
      insert_token_codes split: option.split sum.split)

interpretation pairing: counted_credential "step h" store_inv stock "mints h" "redeems h" for h
proof
  fix s k x assume "store_inv s"
  then show "(if redeems h k x (fst (step h x s)) then 1 else 0) + stock k (snd (step h x s))
      \<le> (if mints h k x (fst (step h x s)) then 1 else 0) + stock k s"
    using stock_mint stock_claim by (cases x) (simp_all add: stock_def codes_others)
qed

section \<open>Properties\<close>

text \<open>A pairing code is one-shot: from an empty store, over every interleaving of issuing,
  verifying, revoking, minting and claiming, the claims that succeed with codes hashing to a
  given value are at most the mints that stored that value. (Two accounts may hold equal
  codes; each mint is good for one claim.)\<close>

theorem pairing_code_one_shot:
  "times (redeems h k) (trace (step h) xs empty_store) \<le> times (mints h k) (trace (step h) xs empty_store)"
  by (rule pairing.redeemed_at_most_issued, rule inv_empty) (simp add: stock_def empty_store_def)

lemma missed_step:
  assumes "x = Claim p nm e t" "normalize_device_name nm \<noteq> None" "fst (step h x s) = Claimed (Inl NotFound)"
  shows "snd (step h x s) = penalize_pairing_miss t s"
  using assms
  by (rule_tac claim_cases [where h = h and p = p and nm = nm and e = e and now = t and s = s]) auto

lemma find_penalized:
  assumes "store_inv s" "c \<in> set (pairing_codes s)" "live_at t c"
  shows "find (\<lambda>r. code_id r = code_id c) (pairing_codes (penalize_pairing_miss t s)) = charged c"
  unfolding penalize_codes [OF store_invD(6) [OF assms(1)]]
  by (subst find_map_filter [OF store_invD(6) [OF assms(1)] assms(2)])
    (auto simp: assms(3) dest: charged_fixed split: if_splits)

lemma ids_penalized:
  assumes "store_inv s"
  shows "code_id ` set (pairing_codes (penalize_pairing_miss t s)) \<subseteq> code_id ` set (pairing_codes s)"
  unfolding penalize_codes [OF store_invD(6) [OF assms]]
  by (force simp: in_map_filter dest: charged_fixed split: if_splits)

lemma gone_stays_gone:
  assumes "store_inv s" "i \<notin> code_id ` set (pairing_codes s)"
    and "\<forall>x \<in> set xs. \<exists>p nm e t. x = Claim p nm e t \<and> normalize_device_name nm \<noteq> None"
    and "\<forall>(x, out) \<in> set (trace (step h) xs s). out = Claimed (Inl NotFound)"
  shows "i \<notin> code_id ` set (pairing_codes (final (step h) xs s))"
  using assms
proof (induction xs arbitrary: s)
  case Nil
  then show ?case by simp
next
  case (Cons x xs)
  then obtain p nm e t where x: "x = Claim p nm e t" "normalize_device_name nm \<noteq> None" by auto
  have "snd (step h x s) = penalize_pairing_miss t s"
    using missed_step [OF x] Cons.prems(4) by simp
  then have "i \<notin> code_id ` set (pairing_codes (snd (step h x s)))"
    using ids_penalized [OF Cons.prems(1), of t] Cons.prems(2) by auto
  moreover have "store_inv (snd (step h x s))" by (rule store_inv_step [OF Cons.prems(1)])
  ultimately have "i \<notin> code_id ` set (pairing_codes (final (step h) xs (snd (step h x s))))"
    using Cons.prems(3,4) by (intro Cons.IH) simp_all
  then show ?case by simp
qed

text \<open>Five misses burn a code, whoever makes them: after any run of refused claims (each
  naming a device, each before the code expires) a code is still there exactly if its count
  of misses has not reached five, with the count advanced by one for each, and otherwise its
  row is gone; so fewer than five guesses are ever made against one code.\<close>

theorem misses_burn_the_code:
  assumes "store_inv s" "c \<in> set (pairing_codes s)" "claimed_at c = None"
    and "\<forall>x \<in> set xs. \<exists>p nm e t. x = Claim p nm e t \<and> normalize_device_name nm \<noteq> None \<and> t < expires_at c"
    and "\<forall>(x, out) \<in> set (trace (step h) xs s). out = Claimed (Inl NotFound)"
  shows "find (\<lambda>r. code_id r = code_id c) (pairing_codes (final (step h) xs s)) =
    (if failed_attempts c + int (length xs) < 5
     then Some (c\<lparr>failed_attempts := failed_attempts c + int (length xs)\<rparr>) else None)"
  using assms
proof (induction xs arbitrary: s c)
  case Nil
  then have "failed_attempts c < 5" using store_invD(5) by (simp add: MAX_FAILED_CLAIMS_def)
  with Nil show ?case using find_distinct [OF store_invD(6)] by simp
next
  case (Cons x xs)
  let ?s = "snd (step h x s)"
  obtain p nm e t where x: "x = Claim p nm e t" "normalize_device_name nm \<noteq> None" "t < expires_at c"
    using Cons.prems(4) by auto
  have s': "?s = penalize_pairing_miss t s"
    using missed_step [OF x(1,2)] Cons.prems(5) by simp
  have inv: "store_inv ?s" by (rule store_inv_step [OF Cons.prems(1)])
  have found: "find (\<lambda>r. code_id r = code_id c) (pairing_codes ?s) = charged c"
    unfolding s' by (rule find_penalized) (use Cons.prems x(3) in \<open>auto simp: live_at_def\<close>)
  have rest: "\<forall>(x, out) \<in> set (trace (step h) xs ?s). out = Claimed (Inl NotFound)"
    using Cons.prems(5) by simp
  show ?case
  proof (cases "charged c")
    case None
    then have "code_id c \<notin> code_id ` set (pairing_codes ?s)" using found by (auto simp: find_None_iff)
    then have "code_id c \<notin> code_id ` set (pairing_codes (final (step h) xs ?s))"
      using Cons.prems(4) by (intro gone_stays_gone inv rest) auto
    then have "find (\<lambda>r. code_id r = code_id c) (pairing_codes (final (step h) xs ?s)) = None"
      unfolding find_None_iff by (metis image_eqI)
    moreover have "\<not> failed_attempts c + 1 < 5" using None by (simp add: charged_def MAX_FAILED_CLAIMS_def split: if_splits)
    ultimately show ?thesis by simp
  next
    case (Some d)
    then have d: "d = c\<lparr>failed_attempts := failed_attempts c + 1\<rparr>" by (simp add: charged_def split: if_splits)
    have "d \<in> set (pairing_codes ?s)" using found Some find_Some_in by metis
    from Cons.IH [OF inv this _ _ rest] Cons.prems(3,4) show ?thesis by (simp add: d add.assoc)
  qed
qed

text \<open>A concrete host and store for the witnesses.\<close>

definition host0 :: host where
  "host0 = \<lparr>sha256 = id, base64url = hex_lower, rfc3339 = (\<lambda>_. ''t'')\<rparr>"

definition code0 :: pairing_code where
  "code0 = \<lparr>code_id = 1, code_account = 7, code_digest = ''00'', expires_at = 100, failed_attempts = 3,
     claimed_at = None, code_created_at = 0\<rparr>"

definition store0 :: store where
  "store0 = empty_store\<lparr>pairing_codes := [code0], next_code := 2\<rparr>"

definition guesses0 :: "op list" where
  "guesses0 = [Claim ''A'' ''phone'' None 5, Claim ''B'' ''phone'' None 6]"

lemma inv_store0: "store_inv store0"
  by (simp add: store_inv_def store0_def empty_store_def code0_def codes.wf_def MAX_FAILED_CLAIMS_def)

theorem misses_burn_the_code_witness:
  "find (\<lambda>r. code_id r = 1) (pairing_codes (final (step host0) guesses0 store0)) = None"
proof -
  have t: "map snd (trace (step host0) guesses0 store0) = [Claimed (Inl NotFound), Claimed (Inl NotFound)]"
    by code_simp
  have miss: "\<forall>(x, out) \<in> set (trace (step host0) guesses0 store0). out = Claimed (Inl NotFound)"
    using arg_cong [OF t, of set] by (force simp: image_iff)
  have g: "\<forall>x \<in> set guesses0. \<exists>p nm e t. x = Claim p nm e t \<and> normalize_device_name nm \<noteq> None \<and> t < expires_at code0"
    by (simp add: guesses0_def code0_def normalize_device_name_def trim_def trim_start_def trim_end_def is_whitespace_def)
  from misses_burn_the_code [OF inv_store0 _ _ g miss] show ?thesis
    by (simp add: store0_def code0_def guesses0_def)
qed

definition revoked :: "int \<Rightarrow> store \<Rightarrow> bool" where
  "revoked i s \<longleftrightarrow> (\<exists>r \<in> set (device_tokens s). token_id r = i \<and> revoked_at r \<noteq> None)"

text \<open>The token table only grows, and a row's identity, hash and tombstone stay.\<close>

definition keeps_rows :: "store \<Rightarrow> store \<Rightarrow> bool" where
  "keeps_rows s s' \<longleftrightarrow> (\<forall>r \<in> set (device_tokens s). \<exists>r' \<in> set (device_tokens s').
     token_id r' = token_id r \<and> token_hash r' = token_hash r \<and> (revoked_at r \<noteq> None \<longrightarrow> revoked_at r' \<noteq> None))"

lemma keeps_refl [simp]: "keeps_rows s s"
  by (auto simp: keeps_rows_def)

lemma keeps_same: "device_tokens s' = device_tokens s \<Longrightarrow> keeps_rows s s'"
  by (auto simp: keeps_rows_def)

lemma keeps_insert: "insert_token h a nm actor action e now s = Inr (t, s') \<Longrightarrow> keeps_rows s s'"
  by (auto simp: keeps_rows_def insert_token_Inr)

lemma keeps_update:
  assumes "\<And>r. token_id (f r) = token_id r" "\<And>r. token_hash (f r) = token_hash r"
    and "\<And>r. revoked_at r \<noteq> None \<Longrightarrow> revoked_at (f r) \<noteq> None"
  shows "keeps_rows s (audit a x y z w d (s\<lparr>device_tokens := update_where p f (device_tokens s)\<rparr>))"
    and "keeps_rows s (s\<lparr>device_tokens := update_where p f (device_tokens s)\<rparr>)"
  unfolding keeps_rows_def
  by (intro ballI, rule_tac x = "if p r then f r else r" in bexI; use assms in \<open>simp add: in_update_where\<close>)+

lemma keeps_step: "keeps_rows s (snd (step h x s))"
proof (cases x)
  case (Issue a nm e now)
  then show ?thesis by (auto simp: issue_device_token_def keeps_insert split: option.split sum.split)
next
  case (Verify p now)
  then show ?thesis
    by (auto simp: verify_device_token_def Let_def intro!: keeps_update split: option.split)
next
  case (Revoke a i now)
  then show ?thesis by (auto simp: revoke_device_token_def Let_def intro!: keeps_update)
next
  case (Mint a ttl e now)
  then show ?thesis by (auto simp: mint_pairing_code_def Let_def intro!: keeps_same split: option.split)
next
  case (Claim p nm e now)
  have "keeps_rows s (snd (claim_pairing_code h p nm e now s))"
  proof (rule claim_cases [where h = h and p = p and nm = nm and e = e and now = now and s = s])
    fix c nm' t s'
    assume "insert_token h (code_account c) nm' ACTOR_PAIRING ''pairing.claim'' e now (burn now c s) = Inr (t, s')"
      and r: "claim_pairing_code h p nm e now s = (Inr t, s')"
    then have "keeps_rows (burn now c s) s'" by (rule_tac keeps_insert)
    then show ?thesis by (simp add: r keeps_rows_def burn_def)
  qed (simp_all add: keeps_same penalize_rest)
  with Claim show ?thesis by simp
qed

lemma revoked_step: "revoked i s \<Longrightarrow> revoked i (snd (step h x s))"
  using keeps_step [of s h x] by (fastforce simp: keeps_rows_def revoked_def)

text \<open>What verification answers, in full.\<close>

lemma verify_Some:
  assumes "store_inv s"
  shows "(\<exists>tok. fst (verify_device_token h p now s) = Some tok \<and> token_id tok = i)
    \<longleftrightarrow> starts_with (trim p) TOKEN_PREFIX \<and>
       (\<exists>r \<in> set (device_tokens s). token_id r = i \<and> token_hash r = hex_sha256 (sha256 h) (trim p) \<and> revoked_at r = None)"
    (is "?L \<longleftrightarrow> ?P \<and> ?R")
proof (cases "find (\<lambda>r. token_hash r = hex_sha256 (sha256 h) (trim p) \<and> revoked_at r = None) (device_tokens s)")
  case None
  then have "\<not> ?R" by (auto simp: find_None_iff)
  with None show ?thesis by (simp add: verify_device_token_def Let_def)
next
  case (Some r)
  note r = find_Some_in [OF Some]
  have uniq: "q = r" if "q \<in> set (device_tokens s)" "token_hash q = hex_sha256 (sha256 h) (trim p)" for q
    using distinct_map_eq [OF store_invD(3) [OF assms]] that r by metis
  have "?L \<longleftrightarrow> ?P \<and> token_id r = i"
    using Some r by (auto simp: verify_device_token_def Let_def map_device_token_def device_token.defs)
  also have "\<dots> \<longleftrightarrow> ?P \<and> ?R" using r uniq by blast
  finally show ?thesis .
qed

lemma revoked_not_verified:
  assumes "store_inv s" "revoked i s"
  shows "fst (step h x s) = Verified (Some tok) \<Longrightarrow> token_id tok \<noteq> i"
proof (cases x)
  case (Verify p now)
  assume v: "fst (step h x s) = Verified (Some tok)"
  show ?thesis
  proof
    assume "token_id tok = i"
    then obtain r where "r \<in> set (device_tokens s)" "token_id r = i" "revoked_at r = None"
      using v Verify verify_Some [OF assms(1), of h p now i] by auto
    with assms show False
      using distinct_map_eq [OF store_invD(7) [OF assms(1)]] by (metis revoked_def)
  qed
qed auto

text \<open>Revocation is final and immediate: once revoking a token has succeeded, no sequence of
  later operations verifies any bearer as that token.\<close>

theorem revoked_never_verifies:
  assumes "store_inv s" "revoke_device_token a i now s = (True, s')"
  shows "Verified (Some tok) \<in> snd ` set (trace (step h) xs s') \<Longrightarrow> token_id tok \<noteq> i"
proof -
  have inv: "store_inv s'" using store_inv_step [OF assms(1), of h "Revoke a i now"] assms(2) by simp
  from assms(2) have "count_where (\<lambda>r. account_id r = a \<and> token_id r = i \<and> revoked_at r = None) (device_tokens s) \<noteq> 0"
    by (auto simp: revoke_device_token_def Let_def split: if_splits)
  then obtain r where "r \<in> set (device_tokens s)" "account_id r = a" "token_id r = i" "revoked_at r = None"
    by (auto simp: count_where_0)
  then have "r\<lparr>revoked_at := Some now\<rparr> \<in> set (device_tokens s')"
    using assms(2) in_update_where [of r "device_tokens s"
        "\<lambda>r. account_id r = a \<and> token_id r = i \<and> revoked_at r = None" "\<lambda>r. r\<lparr>revoked_at := Some now\<rparr>"]
    by (auto simp: revoke_device_token_def Let_def split: if_splits)
  with \<open>token_id r = i\<close> have rev: "revoked i s'" unfolding revoked_def by (intro bexI) auto
  show "Verified (Some tok) \<in> snd ` set (trace (step h) xs s') \<Longrightarrow> token_id tok \<noteq> i"
    using inv rev
  proof (induction xs arbitrary: s')
    case (Cons x xs)
    show ?case
    proof (cases "fst (step h x s') = Verified (Some tok)")
      case True
      with revoked_not_verified Cons.prems show ?thesis by blast
    next
      case False
      with Cons.prems(1) have "Verified (Some tok) \<in> snd ` set (trace (step h) xs (snd (step h x s')))" by auto
      then show ?thesis
        using Cons.IH store_inv_step [OF Cons.prems(2)] revoked_step [OF Cons.prems(3)] by blast
    qed
  qed simp
qed

definition issued0 :: store where
  "issued0 = snd (step host0 (Issue 7 ''phone'' (Some [1, 2]) 3) empty_store)"

theorem revoked_never_verifies_witness:
  "\<exists>s'. revoke_device_token 7 1 5 issued0 = (True, s')
    \<and> (\<forall>xs tok. Verified (Some tok) \<in> snd ` set (trace (step host0) xs s') \<longrightarrow> token_id tok \<noteq> 1)"
proof -
  have "fst (revoke_device_token 7 1 5 issued0) = True" by code_simp
  then obtain s' where r: "revoke_device_token 7 1 5 issued0 = (True, s')"
    by (cases "revoke_device_token 7 1 5 issued0") simp
  have "store_inv issued0" unfolding issued0_def by (rule store_inv_step) simp
  from revoked_never_verifies [OF this r] r show ?thesis by blast
qed

lemma blank_trim:
  assumes "\<forall>c \<in> set a. is_whitespace c" "\<forall>c \<in> set b. is_whitespace c" "\<forall>c \<in> set t. \<not> is_whitespace c"
  shows "trim (a @ t @ b) = t"
proof -
  have "trim_start (a @ t @ b) = (if t = [] then [] else t @ b)"
  proof -
    have "dropWhile is_whitespace (a @ t @ b) = dropWhile is_whitespace (t @ b)"
      using assms(1) by (simp add: dropWhile_append2)
    moreover have "dropWhile is_whitespace (t @ b) = (if t = [] then dropWhile is_whitespace b else t @ b)"
      using assms(3) by (cases t) auto
    moreover have "dropWhile is_whitespace b = []" using assms(2) by (simp add: dropWhile_eq_Nil_conv)
    ultimately show ?thesis by (simp add: trim_start_def)
  qed
  moreover have "trim_end (t @ b) = t"
  proof -
    have "dropWhile is_whitespace (rev b @ rev t) = dropWhile is_whitespace (rev t)"
      by (rule dropWhile_append2) (use assms(2) in simp)
    also have "\<dots> = rev t" by (rule dropWhile_ends) (use assms(3) in simp)
    finally show ?thesis by (simp add: trim_end_def)
  qed
  ultimately show ?thesis by (simp add: trim_def trim_end_def)
qed

definition base64_alphabet :: "(8 word list \<Rightarrow> string) \<Rightarrow> bool" where
  "base64_alphabet b64 \<longleftrightarrow> (\<forall>bs. \<forall>c \<in> set (b64 bs). is_ascii_alnum c \<or> c = CHR ''-'' \<or> c = CHR ''_'')"

lemma token_no_blanks:
  assumes "base64_alphabet b64" "mint_token_plaintext b64 e = Some tok"
  shows "starts_with tok TOKEN_PREFIX \<and> (\<forall>c \<in> set tok. \<not> is_whitespace c)"
proof -
  obtain bs where tok: "tok = TOKEN_PREFIX @ b64 bs" using assms(2) by (auto simp: mint_token_plaintext_def split: option.splits)
  have "\<not> is_whitespace c" if "c \<in> set (b64 bs)" for c
    using assms(1) that
    by (fastforce simp: base64_alphabet_def is_whitespace_def is_ascii_alnum_def is_ascii_lower_def is_ascii_upper_def is_ascii_digit_def)
  then show ?thesis by (auto simp: tok starts_with_iff TOKEN_PREFIX_def is_whitespace_def)
qed

text \<open>A token that was just issued verifies as itself, with whatever blanks a header put
  around it. The base64url encoding is assumed to use its own alphabet.\<close>

theorem issued_token_verifies:
  assumes "store_inv s" "base64_alphabet (base64url h)" "issue_device_token h a nm e now s = (Inr t, s')"
    and "\<forall>c \<in> set left. is_whitespace c" "\<forall>c \<in> set right. is_whitespace c"
  shows "\<exists>tok. fst (verify_device_token h (left @ token t @ right) later s') = Some tok \<and> token_id tok = issued_id t"
proof -
  obtain nm' where "insert_token h a nm' ACTOR_CLI ''token.issue'' e now s = Inr (t, s')"
    using assms(3) by (auto simp: issue_device_token_def split: option.splits sum.splits)
  then obtain tok where tok: "mint_token_plaintext (base64url h) e = Some tok" "token t = tok" "issued_id t = next_token s"
    and rows: "device_tokens s' = device_tokens s @ [mk_token (next_token s) (a, hex_sha256 (sha256 h) tok, nm', now)]"
    by (auto simp: insert_token_Inr)
  have inv: "store_inv s'" using store_inv_step [OF assms(1), of h "Issue a nm e now"] assms(3) by simp
  note nb = token_no_blanks [OF assms(2) tok(1)]
  have "trim (left @ token t @ right) = tok" using blank_trim [OF assms(4,5)] nb tok(2) by simp
  then show ?thesis
    unfolding verify_Some [OF inv] using nb by (simp add: rows tok(3))
qed

lemma alphabet_host0: "base64_alphabet (base64url host0)"
proof -
  have "\<forall>c \<in> set ''0123456789abcdef''. is_ascii_alnum c" by (simp add: is_ascii_alnum_def is_ascii_digit_def is_ascii_lower_def)
  then have "is_ascii_alnum (''0123456789abcdef'' ! i)" if "i < 16" for i
    using that unfolding all_set_conv_all_nth by simp
  then have "\<forall>c \<in> set (hex_lower bs). is_ascii_alnum c" for bs
    using hex_index by (auto simp: hex_lower_def)
  then show ?thesis by (simp add: base64_alphabet_def host0_def)
qed

theorem issued_token_verifies_witness:
  "\<exists>t. fst (issue_device_token host0 7 ''phone'' (Some [1, 2]) 3 empty_store) = Inr t
    \<and> (\<exists>tok. fst (verify_device_token host0 ('' '' @ token t @ [CHR 0x0A]) 9
          (snd (issue_device_token host0 7 ''phone'' (Some [1, 2]) 3 empty_store))) = Some tok \<and> token_id tok = issued_id t)"
proof -
  obtain t s' where t: "issue_device_token host0 7 ''phone'' (Some [1, 2]) 3 empty_store = (Inr t, s')"
    by (simp add: issue_device_token_def normalize_device_name_def trim_def trim_start_def trim_end_def
        is_whitespace_def MAX_DEVICE_NAME_CHARS_def insert_token_def mint_token_plaintext_def empty_store_def Let_def)
  from issued_token_verifies [OF inv_empty alphabet_host0 this, of "'' ''" "[CHR 0x0A]" 9] show ?thesis
    by (simp add: t is_whitespace_def)
qed

text \<open>Every row is accounted for in the audit log.\<close>

definition traced :: "store \<Rightarrow> bool" where
  "traced s \<longleftrightarrow> (\<forall>r \<in> set (device_tokens s). \<exists>l \<in> set (audit_log s).
     audit_target l = token_target (token_id r) \<and> audit_account l = account_id r \<and> audit_ts l = created_at r
       \<and> audit_detail l = Some (name r)
       \<and> (audit_actor l, audit_action l) \<in> {(ACTOR_CLI, ''token.issue''), (ACTOR_PAIRING, ''pairing.claim'')})"

definition revocations_traced :: "store \<Rightarrow> bool" where
  "revocations_traced s \<longleftrightarrow> (\<forall>r \<in> set (device_tokens s). \<forall>t. revoked_at r = Some t \<longrightarrow>
     (\<exists>l \<in> set (audit_log s). audit_target l = token_target (token_id r) \<and> audit_account l = account_id r
        \<and> audit_ts l = t \<and> audit_action l = ''token.revoke''))"

lemma traced_mono:
  assumes "traced s" "device_tokens s' = device_tokens s" "set (audit_log s) \<subseteq> set (audit_log s')"
  shows "traced s'"
  using assms unfolding traced_def by (simp add: subset_iff) blast

lemma revocations_traced_mono:
  assumes "revocations_traced s" "device_tokens s' = device_tokens s" "set (audit_log s) \<subseteq> set (audit_log s')"
  shows "revocations_traced s'"
  using assms unfolding revocations_traced_def by (simp add: subset_iff) blast

lemma audit_mono: "set (audit_log s) \<subseteq> set (audit_log (audit a t x y z d s))"
  by (auto simp: audit_def)

lemma traced_insert:
  assumes "traced s" "insert_token h a nm actor action e now s = Inr (t, s')"
    and "(actor, action) \<in> {(ACTOR_CLI, ''token.issue''), (ACTOR_PAIRING, ''pairing.claim'')}"
  shows "traced s'"
proof -
  from assms(2) obtain tok where rows: "device_tokens s' = device_tokens s @ [mk_token (next_token s) (a, hex_sha256 (sha256 h) tok, nm, now)]"
    and log: "audit_log s' = audit_log s @ [\<lparr>audit_account = a, audit_ts = now, audit_actor = actor, audit_action = action,
       audit_target = token_target (next_token s), audit_detail = Some nm\<rparr>]"
    by (auto simp: insert_token_Inr audit_def)
  have "name (mk_token (next_token s) (a, hex_sha256 (sha256 h) tok, nm, now)) = nm" by (simp add: mk_token_def)
  with assms(1,3) show ?thesis unfolding traced_def rows log by auto
qed

lemma revocations_traced_insert:
  assumes "revocations_traced s" "insert_token h a nm actor action e now s = Inr (t, s')"
  shows "revocations_traced s'"
  using assms unfolding revocations_traced_def by (auto simp: insert_token_Inr audit_def)

lemma traced_update:
  assumes "traced s" "\<And>r. token_id (f r) = token_id r" "\<And>r. account_id (f r) = account_id r"
    "\<And>r. created_at (f r) = created_at r" "\<And>r. name (f r) = name r"
  shows "traced (s\<lparr>device_tokens := update_where p f (device_tokens s)\<rparr>)"
  using assms unfolding traced_def by (auto simp: set_update_where)

lemma fold_charge_log: "set (audit_log s) \<subseteq> set (audit_log (fold (charge now) ls s))"
proof (induction ls arbitrary: s)
  case (Cons c ls)
  have "set (audit_log s) \<subseteq> set (audit_log (charge now c s))" by (auto simp: charge_def Let_def audit_def)
  with Cons show ?case by fastforce
qed simp

lemma penalize_log: "set (audit_log s) \<subseteq> set (audit_log (penalize_pairing_miss now s))"
  unfolding penalize_pairing_miss_def Let_def by (rule fold_charge_log)

lemma traced_claim:
  assumes "traced s \<and> revocations_traced s"
  shows "traced (snd (claim_pairing_code h p nm e now s)) \<and> revocations_traced (snd (claim_pairing_code h p nm e now s))"
proof (rule claim_cases [where h = h and p = p and nm = nm and e = e and now = now and s = s])
  fix nm' assume "claim_pairing_code h p nm e now s = (Inl NotFound, penalize_pairing_miss now s)"
  then show ?thesis
    using assms penalize_log [of s now] traced_mono [of s] revocations_traced_mono [of s] by (auto simp: penalize_rest)
next
  fix c nm' t s'
  assume i: "insert_token h (code_account c) nm' ACTOR_PAIRING ''pairing.claim'' e now (burn now c s) = Inr (t, s')"
    and r: "claim_pairing_code h p nm e now s = (Inr t, s')"
  have "traced (burn now c s)" "revocations_traced (burn now c s)"
    using assms by (auto simp: burn_def intro: traced_mono [of s] revocations_traced_mono [of s])
  with traced_insert [OF _ i] revocations_traced_insert [OF _ i] r show ?thesis by simp
qed (simp_all add: assms)

lemma traced_revoke:
  assumes "traced s \<and> revocations_traced s"
  shows "traced (snd (revoke_device_token a i now s)) \<and> revocations_traced (snd (revoke_device_token a i now s))"
proof -
  let ?p = "\<lambda>r. account_id r = a \<and> token_id r = i \<and> revoked_at r = None"
  let ?u = "s\<lparr>device_tokens := update_where ?p (\<lambda>r. r\<lparr>revoked_at := Some now\<rparr>) (device_tokens s)\<rparr>"
  let ?s = "audit a now ACTOR_CLI ''token.revoke'' (token_target i) None ?u"
  have "traced ?u" using assms by (intro traced_update) auto
  then have "traced ?s" by (rule traced_mono) (auto simp: audit_def)
  moreover have "revocations_traced ?s"
    using assms unfolding revocations_traced_def by (fastforce simp: set_update_where audit_def)
  ultimately show ?thesis using assms by (simp add: revoke_device_token_def Let_def)
qed

lemma traced_verify:
  assumes "traced s \<and> revocations_traced s"
  shows "traced (snd (verify_device_token h p now s)) \<and> revocations_traced (snd (verify_device_token h p now s))"
proof -
  have "traced (s\<lparr>device_tokens := update_where q (\<lambda>r. r\<lparr>last_used_at := Some now\<rparr>) (device_tokens s)\<rparr>)" for q
    using assms by (intro traced_update) auto
  moreover have "revocations_traced (s\<lparr>device_tokens := update_where q (\<lambda>r. r\<lparr>last_used_at := Some now\<rparr>) (device_tokens s)\<rparr>)" for q
    using assms unfolding revocations_traced_def by (auto simp: set_update_where)
  ultimately show ?thesis
    using assms by (simp add: verify_device_token_def Let_def split: option.split)
qed

lemma traced_mint:
  assumes "traced s \<and> revocations_traced s"
  shows "traced (snd (mint_pairing_code h a ttl e now s)) \<and> revocations_traced (snd (mint_pairing_code h a ttl e now s))"
proof -
  have "device_tokens (snd (mint_pairing_code h a ttl e now s)) = device_tokens s"
    "set (audit_log s) \<subseteq> set (audit_log (snd (mint_pairing_code h a ttl e now s)))"
    by (auto simp: mint_pairing_code_def Let_def audit_def split: option.split)
  with assms traced_mono [of s] revocations_traced_mono [of s] show ?thesis by blast
qed

interpretation ledger: invariant_machine "step h" "\<lambda>s. traced s \<and> revocations_traced s" for h
proof
  fix s x assume a: "traced s \<and> revocations_traced s"
  show "traced (snd (step h x s)) \<and> revocations_traced (snd (step h x s))"
  proof (cases x)
    case (Issue acct nm e now)
    then show ?thesis
      using a traced_insert revocations_traced_insert
      by (auto simp: issue_device_token_def split: option.split sum.split)
  qed (use traced_claim traced_revoke traced_verify traced_mint a in simp_all)
qed

text \<open>No credential exists untraced: whatever has been done to a store that started empty,
  every device token in it has an audit row of the same account, time and name naming it by
  id, written by the CLI's issue or by a pairing claim; and every revoked token has an audit
  row of its revocation at the instant it was revoked.\<close>

theorem credentials_are_traced:
  "traced (final (step h) xs empty_store) \<and> revocations_traced (final (step h) xs empty_store)"
  by (rule ledger.inv_final) (simp add: traced_def revocations_traced_def empty_store_def)

text \<open>However the store came about, an account has at most one pairing code, each
  code has fewer than five misses against it, and no two tokens share an id or a hash.\<close>

theorem one_live_code_per_account:
  "distinct (map code_account (pairing_codes (final (step h) xs empty_store)))
    \<and> list_all (\<lambda>c. 0 \<le> failed_attempts c \<and> failed_attempts c < 5) (pairing_codes (final (step h) xs empty_store))
    \<and> distinct (map token_id (device_tokens (final (step h) xs empty_store)))
    \<and> distinct (map token_hash (device_tokens (final (step h) xs empty_store)))"
proof -
  have "store_inv (final (step h) xs empty_store)" by (rule daemon.inv_final, rule inv_empty)
  from store_invD [OF this] show ?thesis by (auto simp: list_all_iff MAX_FAILED_CLAIMS_def)
qed

end
