(* ===== verification/Control_Invites.thy ===== *)
theory Control_Invites
  imports Machine Rust_Text
begin

text \<open>
  The invite table of the control plane (\<open>squelch-control/src/store.rs\<close>): codes minted by
  hash, held by a signup session while its owner is at Google, spent once.

  Every method is one SQL statement, so it is one step. A timestamp column is fixed-width
  RFC 3339 text to the millisecond compared bytewise, which is the order of the
  milliseconds: \<open>stamp\<close> gives the number of milliseconds a stored text stands for.
  \<open>GENERATED ALWAYS AS IDENTITY\<close> takes the next value of its sequence even for an insert
  that a unique index then refuses.
\<close>

type_synonym stamp = int

definition stamp :: "instant \<Rightarrow> stamp" where
  "stamp t = t div 1000000"

definition parse_ts :: "stamp \<Rightarrow> instant" where
  "parse_ts s = s * 1000000"

definition DEFAULT_TTL_DAYS :: int where
  "DEFAULT_TTL_DAYS = 30"

datatype store_error = Pg | Entropy | InviteUnavailable | LabelTaken | AccountTaken

record invite_code =
  invite_id :: int
  code_hash :: string
  created_at :: stamp
  expires_at :: "stamp option"
  used_at :: "stamp option"
  used_by_label :: "string option"
  reserved_by :: "string option"
  reserved_until :: "stamp option"
  invited_by :: "int option"

record invite_table =
  invite_codes :: "invite_code list"
  next_invite :: int

text \<open>What the operator's listing shows: no hash.\<close>

record invite_row =
  row_invite :: int
  row_created :: instant
  row_expires :: "instant option"
  row_used :: "instant option"
  row_label :: "string option"

definition mk_invite :: "int \<Rightarrow> string \<times> stamp \<times> stamp \<times> int option \<Rightarrow> invite_code" where
  "mk_invite i = (\<lambda>(hash, created, expires, by).
     \<lparr>invite_id = i, code_hash = hash, created_at = created, expires_at = Some expires, used_at = None,
      used_by_label = None, reserved_by = None, reserved_until = None, invited_by = by\<rparr>)"

definition insert_invite ::
    "string \<Rightarrow> instant \<Rightarrow> int option \<Rightarrow> instant \<Rightarrow> 'a invite_table_scheme
       \<Rightarrow> (store_error + int) \<times> 'a invite_table_scheme" where
  "insert_invite hash expires by now s =
     (let i = next_invite s; s' = s\<lparr>next_invite := i + 1\<rparr> in
      if list_ex (\<lambda>r. code_hash r = hash) (invite_codes s) then (Inl Pg, s')
      else (Inr i, s'\<lparr>invite_codes := invite_codes s @ [mk_invite i (hash, stamp now, stamp expires, by)]\<rparr>))"

definition unheld :: "stamp \<Rightarrow> invite_code \<Rightarrow> bool" where
  "unheld now r \<longleftrightarrow> (case reserved_until r of None \<Rightarrow> True | Some u \<Rightarrow> u \<le> now)"

definition available :: "string \<Rightarrow> stamp \<Rightarrow> invite_code \<Rightarrow> bool" where
  "available hash now r \<longleftrightarrow> code_hash r = hash \<and> used_at r = None
     \<and> (case expires_at r of None \<Rightarrow> True | Some e \<Rightarrow> now < e) \<and> unheld now r"

definition find_available_invite :: "string \<Rightarrow> instant \<Rightarrow> 'a invite_table_scheme \<Rightarrow> int option" where
  "find_available_invite hash now s = map_option invite_id (find (available hash (stamp now)) (invite_codes s))"

definition reserve_invite ::
    "string \<Rightarrow> string \<Rightarrow> instant \<Rightarrow> instant \<Rightarrow> 'a invite_table_scheme \<Rightarrow> int option \<times> 'a invite_table_scheme" where
  "reserve_invite hash holder now until s =
     (let p = available hash (stamp now) in
      (map_option invite_id (find p (invite_codes s)),
       s\<lparr>invite_codes := update_where p
          (\<lambda>r. r\<lparr>reserved_by := Some holder, reserved_until := Some (stamp until)\<rparr>) (invite_codes s)\<rparr>))"

definition release_invite :: "int \<Rightarrow> string \<Rightarrow> 'a invite_table_scheme \<Rightarrow> bool \<times> 'a invite_table_scheme" where
  "release_invite i holder s =
     (let p = (\<lambda>r. invite_id r = i \<and> reserved_by r = Some holder \<and> used_at r = None) in
      (count_where p (invite_codes s) = 1,
       s\<lparr>invite_codes := update_where p (\<lambda>r. r\<lparr>reserved_by := None, reserved_until := None\<rparr>) (invite_codes s)\<rparr>))"

definition consume_invite ::
    "int \<Rightarrow> string \<Rightarrow> string \<Rightarrow> instant \<Rightarrow> 'a invite_table_scheme
       \<Rightarrow> (store_error + unit) \<times> 'a invite_table_scheme" where
  "consume_invite i label holder now s =
     (let p = (\<lambda>r. invite_id r = i \<and> used_at r = None \<and> reserved_by r = Some holder) in
      (if count_where p (invite_codes s) = 1 then Inr () else Inl InviteUnavailable,
       s\<lparr>invite_codes := update_where p
          (\<lambda>r. r\<lparr>used_at := Some (stamp now), used_by_label := Some label, reserved_by := None,
                reserved_until := None\<rparr>) (invite_codes s)\<rparr>))"

definition to_invite_row :: "invite_code \<Rightarrow> invite_row" where
  "to_invite_row r = \<lparr>row_invite = invite_id r, row_created = parse_ts (created_at r),
     row_expires = map_option parse_ts (expires_at r), row_used = map_option parse_ts (used_at r),
     row_label = used_by_label r\<rparr>"

definition list_invites :: "'a invite_table_scheme \<Rightarrow> invite_row list" where
  "list_invites s = map to_invite_row (rev (sort_key invite_id (invite_codes s)))"

definition revoke_invite :: "int \<Rightarrow> 'a invite_table_scheme \<Rightarrow> bool \<times> 'a invite_table_scheme" where
  "revoke_invite i s =
     (let p = (\<lambda>r. invite_id r = i \<and> used_at r = None) in
      (count_where p (invite_codes s) = 1, s\<lparr>invite_codes := delete_where p (invite_codes s)\<rparr>))"

definition revoke_unheld_invite :: "int \<Rightarrow> instant \<Rightarrow> 'a invite_table_scheme \<Rightarrow> bool \<times> 'a invite_table_scheme" where
  "revoke_unheld_invite i now s =
     (let p = (\<lambda>r. invite_id r = i \<and> used_at r = None \<and> unheld (stamp now) r) in
      (count_where p (invite_codes s) = 1, s\<lparr>invite_codes := delete_where p (invite_codes s)\<rparr>))"

definition invite_is_held :: "int \<Rightarrow> instant \<Rightarrow> 'a invite_table_scheme \<Rightarrow> bool" where
  "invite_is_held i now s \<longleftrightarrow>
     list_ex (\<lambda>r. invite_id r = i \<and> used_at r = None \<and> \<not> unheld (stamp now) r) (invite_codes s)"

text \<open>The migration that gives every outstanding code of the first deployments an expiry: one
  \<open>UPDATE\<close> for each row the \<open>SELECT\<close> returned.\<close>

definition backfill_one :: "invite_code \<Rightarrow> 'a invite_table_scheme \<Rightarrow> 'a invite_table_scheme" where
  "backfill_one row s =
     (let expires = parse_ts (created_at row) + days DEFAULT_TTL_DAYS in
      s\<lparr>invite_codes := update_where (\<lambda>r. invite_id r = invite_id row)
          (\<lambda>r. r\<lparr>expires_at := Some (stamp expires)\<rparr>) (invite_codes s)\<rparr>)"

definition backfill_expiry :: "'a invite_table_scheme \<Rightarrow> 'a invite_table_scheme" where
  "backfill_expiry s =
     fold backfill_one (filter (\<lambda>r. expires_at r = None \<and> used_at r = None) (invite_codes s)) s"

section \<open>The table as a machine\<close>

datatype op =
    Insert string instant "int option" instant
  | Find string instant
  | Reserve string string instant instant
  | Release int string
  | Consume int string string instant
  | Revoke int
  | RevokeUnheld int instant

datatype out =
    Inserted "store_error + int"
  | Found "int option"
  | Reserved "int option"
  | Released bool
  | Consumed "store_error + unit"
  | Revoked bool

fun step :: "op \<Rightarrow> 'a invite_table_scheme \<Rightarrow> out \<times> 'a invite_table_scheme" where
  "step (Insert hash e by now) s = map_prod Inserted id (insert_invite hash e by now s)"
| "step (Find hash now) s = (Found (find_available_invite hash now s), s)"
| "step (Reserve hash holder now until) s = map_prod Reserved id (reserve_invite hash holder now until s)"
| "step (Release i holder) s = map_prod Released id (release_invite i holder s)"
| "step (Consume i label holder now) s = map_prod Consumed id (consume_invite i label holder now s)"
| "step (Revoke i) s = map_prod Revoked id (revoke_invite i s)"
| "step (RevokeUnheld i now) s = map_prod Revoked id (revoke_unheld_invite i now s)"

interpretation invites: id_table invite_id mk_invite
  by unfold_locales (simp add: mk_invite_def split: prod.splits)

text \<open>Ids come from the sequence and no two codes share a hash.\<close>

definition invites_inv :: "'a invite_table_scheme \<Rightarrow> bool" where
  "invites_inv s \<longleftrightarrow> invites.wf (next_invite s) (invite_codes s) \<and> distinct (map code_hash (invite_codes s))"

section \<open>Lemmas\<close>

lemma invites_invD:
  assumes "invites_inv s"
  shows "invites.wf (next_invite s) (invite_codes s)" "distinct (map code_hash (invite_codes s))"
    "distinct (map invite_id (invite_codes s))" "\<And>r. r \<in> set (invite_codes s) \<Longrightarrow> invite_id r < next_invite s"
  using assms by (auto simp: invites_inv_def invites.wf_def)

lemma mk_invite_simps [simp]:
  "code_hash (mk_invite i (h, c, e, b)) = h" "used_at (mk_invite i (h, c, e, b)) = None"
  "created_at (mk_invite i (h, c, e, b)) = c" "invited_by (mk_invite i (h, c, e, b)) = b"
  "expires_at (mk_invite i (h, c, e, b)) = Some e"
  by (simp_all add: mk_invite_def)

lemma inv_insert_invite: "invites_inv s \<Longrightarrow> invites_inv (snd (insert_invite hash e by now s))"
  by (auto simp: invites_inv_def insert_invite_def Let_def list_ex_iff
      intro!: invites.wf_insert invites.wf_weaken [of "next_invite s"])

lemma inv_update_invites:
  assumes "invites_inv s" "\<And>r. invite_id (f r) = invite_id r" "\<And>r. code_hash (f r) = code_hash r"
  shows "invites_inv (s\<lparr>invite_codes := update_where p f (invite_codes s)\<rparr>)"
proof -
  have "map code_hash (update_where p f (invite_codes s)) = map code_hash (invite_codes s)"
    using assms(3) by (simp add: update_where_def)
  with invites.wf_update [OF invites_invD(1) [OF assms(1)] assms(2)] assms(1) show ?thesis
    by (simp add: invites_inv_def)
qed

lemma inv_delete_invites:
  "invites_inv s \<Longrightarrow> invites_inv (s\<lparr>invite_codes := delete_where p (invite_codes s)\<rparr>)"
  using invites.wf_delete by (auto simp: invites_inv_def delete_where_def distinct_map_filter)

lemma invites_inv_step: "invites_inv s \<Longrightarrow> invites_inv (snd (step x s))"
  by (cases x)
    (auto simp: reserve_invite_def release_invite_def consume_invite_def revoke_invite_def revoke_unheld_invite_def
      Let_def inv_delete_invites intro!: inv_insert_invite inv_update_invites)

interpretation invite_machine: invariant_machine step invites_inv
  by unfold_locales (rule invites_inv_step)

definition no_invites :: invite_table where
  "no_invites = \<lparr>invite_codes = [], next_invite = 1\<rparr>"

lemma inv_no_invites [simp]: "invites_inv no_invites"
  by (simp add: invites_inv_def no_invites_def)

subsection \<open>Spending\<close>

text \<open>What is left of an id: it is still to be handed out, or its row is unspent.\<close>

definition spendable :: "int \<Rightarrow> 'a invite_table_scheme \<Rightarrow> nat" where
  "spendable i s = (if next_invite s \<le> i then 1 else 0)
     + count_where (\<lambda>r. invite_id r = i \<and> used_at r = None) (invite_codes s)"

fun spends :: "int \<Rightarrow> op \<Rightarrow> out \<Rightarrow> bool" where
  "spends i (Consume j label holder now) (Consumed (Inr u)) = (i = j)"
| "spends i _ _ = False"

lemma spendable_le_1: "invites_inv s \<Longrightarrow> spendable i s \<le> 1"
proof -
  assume inv: "invites_inv s"
  have "count_where (\<lambda>r. invite_id r = i \<and> used_at r = None) (invite_codes s) = 0" if "next_invite s \<le> i"
    using that invites_invD(4) [OF inv] by (fastforce simp: count_where_0)
  with invites.count_id_le_1 [OF invites_invD(1) [OF inv], of i "\<lambda>r. used_at r = None"]
  show ?thesis by (simp add: spendable_def)
qed

lemma spendable_update:
  assumes "\<And>r. invite_id (f r) = invite_id r" "\<And>r. used_at r \<noteq> None \<Longrightarrow> used_at (f r) \<noteq> None"
  shows "spendable i (s\<lparr>invite_codes := update_where p f (invite_codes s)\<rparr>) \<le> spendable i s"
proof -
  have "count_where (\<lambda>r. invite_id r = i \<and> used_at r = None) (update_where p f (invite_codes s))
      \<le> count_where (\<lambda>r. invite_id r = i \<and> used_at r = None) (invite_codes s)"
    by (rule count_where_update_le) (use assms in metis)
  then show ?thesis by (simp add: spendable_def)
qed

lemma spendable_delete: "spendable i (s\<lparr>invite_codes := delete_where p (invite_codes s)\<rparr>) \<le> spendable i s"
  by (auto simp: spendable_def count_where_delete intro!: count_where_mono)

lemma spendable_insert: "spendable i (snd (insert_invite hash e by now s)) \<le> spendable i s"
  by (auto simp: spendable_def insert_invite_def Let_def)

lemma spendable_consume:
  "(if spends i (Consume j label holder now) (Consumed (fst (consume_invite j label holder now s))) then 1 else 0)
     + spendable i (snd (consume_invite j label holder now s)) \<le> spendable i s"
proof (cases "i = j \<and> fst (consume_invite j label holder now s) = Inr ()")
  case True
  let ?p = "\<lambda>r. invite_id r = j \<and> used_at r = None \<and> reserved_by r = Some holder"
  from True have "count_where ?p (invite_codes s) = 1" by (auto simp: consume_invite_def Let_def split: if_splits)
  then obtain r where r: "r \<in> set (invite_codes s)" "?p r" using count_where_0 [of ?p "invite_codes s"] by auto
  then have "Suc (count_where (\<lambda>r. invite_id r = i \<and> used_at r = None) (update_where ?p
       (\<lambda>r. r\<lparr>used_at := Some (stamp now), used_by_label := Some label, reserved_by := None, reserved_until := None\<rparr>)
       (invite_codes s))) \<le> count_where (\<lambda>r. invite_id r = i \<and> used_at r = None) (invite_codes s)"
    by (intro count_where_update_less) (use True in auto)
  with True show ?thesis by (simp add: spendable_def consume_invite_def Let_def)
next
  case False
  have "spendable i (snd (consume_invite j label holder now s)) \<le> spendable i s"
    unfolding consume_invite_def Let_def snd_conv by (rule spendable_update) simp_all
  moreover have "\<not> spends i (Consume j label holder now) (Consumed (fst (consume_invite j label holder now s)))"
    using False by (cases "fst (consume_invite j label holder now s)") auto
  ultimately show ?thesis by simp
qed

interpretation spending: counted_credential step invites_inv spendable "\<lambda>_ _ _. False" spends
proof
  fix s :: "'a invite_table_scheme" and i x assume "invites_inv s"
  show "(if spends i x (fst (step x s)) then 1 else 0) + spendable i (snd (step x s))
      \<le> (if False then 1 else 0) + spendable i s"
  proof (cases x)
    case (Consume j label holder now)
    then show ?thesis using spendable_consume [of i j label holder now s] by simp
  qed (auto simp: spendable_insert spendable_delete reserve_invite_def release_invite_def revoke_invite_def
      revoke_unheld_invite_def Let_def intro!: spendable_update)
qed

section \<open>Properties\<close>

text \<open>An invite is spent at most once: over any interleaving of minting, checking, holding,
  releasing, spending and revoking on a store that started empty, at most one consume of an
  invite id ever succeeds, whoever the sessions are and whatever the clock says.\<close>

theorem invite_spent_at_most_once:
  "times (spends i) (trace step xs no_invites) \<le> 1"
proof -
  have "times (\<lambda>_ _. False) log = 0" for log :: "(op \<times> out) list" by (simp add: times_def)
  then have "times (spends i) (trace step xs no_invites) \<le> spendable i no_invites"
    by (intro spending.redeemed_le_stock) simp_all
  also have "\<dots> \<le> 1" by (rule spendable_le_1) simp
  finally show ?thesis .
qed

text \<open>The gate and the hold agree: the check made when the form is posted answers with an
  invite exactly when reserving it then would, and with the same one; and right after a
  reservation neither finds it until the hold lapses.\<close>

theorem gate_agrees_with_hold:
  assumes "invites_inv s" "reserve_invite hash holder now until s = (r, s')"
  shows "r = find_available_invite hash now s
    \<and> (r \<noteq> None \<and> stamp t < stamp until \<longrightarrow> find_available_invite hash t s' = None)"
proof -
  let ?p = "available hash (stamp now)"
  have r: "r = find_available_invite hash now s"
    and s': "s' = s\<lparr>invite_codes := update_where ?p
      (\<lambda>r. r\<lparr>reserved_by := Some holder, reserved_until := Some (stamp until)\<rparr>) (invite_codes s)\<rparr>"
    using assms(2) by (auto simp: reserve_invite_def find_available_invite_def Let_def)
  have "find_available_invite hash t s' = None" if some: "r \<noteq> None" and "stamp t < stamp until"
  proof -
    obtain q where q: "q \<in> set (invite_codes s)" "?p q"
    proof -
      have "find ?p (invite_codes s) \<noteq> None" using some r by (simp add: find_available_invite_def)
      with find_Some_in [of ?p "invite_codes s"] that show thesis by blast
    qed
    have "\<not> available hash (stamp t) (if ?p x then x\<lparr>reserved_by := Some holder, reserved_until := Some (stamp until)\<rparr> else x)"
      if x: "x \<in> set (invite_codes s)" for x
    proof (cases "code_hash x = hash")
      case True
      with q x have "x = q" using distinct_map_eq [OF invites_invD(2) [OF assms(1)]] by (simp add: available_def)
      with q(2) \<open>stamp t < stamp until\<close> show ?thesis by (simp add: available_def unheld_def)
    next
      case False
      then show ?thesis by (simp add: available_def)
    qed
    then have "\<forall>y \<in> set (invite_codes s'). \<not> available hash (stamp t) y"
      unfolding s' by (auto elim!: update_whereE simp del: if_split)
    then show ?thesis by (simp add: find_available_invite_def find_None_iff)
  qed
  with r show ?thesis by blast
qed
definition one_invite :: invite_table where
  "one_invite = snd (insert_invite ''ab'' 100000000 None 0 no_invites)"

lemma inv_one_invite [simp]: "invites_inv one_invite"
  unfolding one_invite_def by (rule inv_insert_invite) simp

theorem gate_agrees_with_hold_witness:
  "find_available_invite ''ab'' 5000000 one_invite = Some 1
    \<and> find_available_invite ''ab'' 9000000 (snd (reserve_invite ''ab'' ''sid'' 5000000 20000000 one_invite)) = None"
proof -
  have e: "fst (reserve_invite ''ab'' ''sid'' 5000000 20000000 one_invite) = Some 1" by code_simp
  obtain s' where s': "reserve_invite ''ab'' ''sid'' 5000000 20000000 one_invite = (Some 1, s')"
    using e by (cases "reserve_invite ''ab'' ''sid'' 5000000 20000000 one_invite") simp
  from gate_agrees_with_hold [OF inv_one_invite s', of 9000000] show ?thesis by (simp add: s' stamp_def)
qed

subsection \<open>Holding\<close>

text \<open>What leaves a hold on invite \<open>i\<close> by \<open>h\<close> until \<open>u\<close> alone: anything but the holder's own
  release or consume, the operator's override, and a reservation or dashboard revocation of
  that code after the hold has lapsed.\<close>

fun spares :: "int \<Rightarrow> string \<Rightarrow> string \<Rightarrow> stamp \<Rightarrow> op \<Rightarrow> bool" where
  "spares i hash h u (Reserve hash' h' now until) = (hash' = hash \<longrightarrow> stamp now < u)"
| "spares i hash h u (Release j h') = (j = i \<longrightarrow> h' \<noteq> h)"
| "spares i hash h u (Consume j label h' now) = (j = i \<longrightarrow> h' \<noteq> h)"
| "spares i hash h u (Revoke j) = (j \<noteq> i)"
| "spares i hash h u (RevokeUnheld j now) = (j = i \<longrightarrow> stamp now < u)"
| "spares i hash h u _ = True"

definition held_by :: "int \<Rightarrow> string \<Rightarrow> string \<Rightarrow> stamp \<Rightarrow> invite_code \<Rightarrow> bool" where
  "held_by i hash h u r \<longleftrightarrow> invite_id r = i \<and> code_hash r = hash \<and> used_at r = None
     \<and> reserved_by r = Some h \<and> reserved_until r = Some u"

lemma held_update:
  assumes "r \<in> set (invite_codes s)" "held_by i hash h u r" "\<not> p r"
  shows "\<exists>r \<in> set (invite_codes (s\<lparr>invite_codes := update_where p f (invite_codes s)\<rparr>)). held_by i hash h u r"
  using in_update_where [OF assms(1), of p f] assms(2,3) by auto

lemma held_delete:
  assumes "r \<in> set (invite_codes s)" "held_by i hash h u r" "\<not> p r"
  shows "\<exists>r \<in> set (invite_codes (s\<lparr>invite_codes := delete_where p (invite_codes s)\<rparr>)). held_by i hash h u r"
  using assms by (auto simp: set_delete_where)

lemma held_step:
  assumes "\<exists>r \<in> set (invite_codes s). held_by i hash h u r" "spares i hash h u x"
  shows "\<exists>r \<in> set (invite_codes (snd (step x s))). held_by i hash h u r"
proof -
  obtain r where r: "r \<in> set (invite_codes s)" "held_by i hash h u r" using assms(1) by blast
  have facts: "invite_id r = i" "code_hash r = hash" "used_at r = None" "reserved_by r = Some h" "reserved_until r = Some u"
    using r(2) by (simp_all add: held_by_def)
  show ?thesis
  proof (cases x)
    case (Insert hash' e b now)
    have "r \<in> set (invite_codes (snd (insert_invite hash' e b now s)))"
      using r(1) by (simp add: insert_invite_def Let_def)
    with r(2) show ?thesis by (auto simp: Insert)
  next
    case (Find hash' now)
    with r show ?thesis by auto
  next
    case (Reserve hash' h' now until)
    have "\<not> available hash' (stamp now) r" using assms(2) facts Reserve by (auto simp: available_def unheld_def)
    with held_update [OF r] show ?thesis by (simp add: Reserve reserve_invite_def Let_def)
  next
    case (Release j h')
    have "\<not> (invite_id r = j \<and> reserved_by r = Some h' \<and> used_at r = None)" using assms(2) facts Release by auto
    with held_update [OF r] show ?thesis by (simp add: Release release_invite_def Let_def)
  next
    case (Consume j label h' now)
    have "\<not> (invite_id r = j \<and> used_at r = None \<and> reserved_by r = Some h')" using assms(2) facts Consume by auto
    with held_update [OF r] show ?thesis by (simp add: Consume consume_invite_def Let_def)
  next
    case (Revoke j)
    have "\<not> (invite_id r = j \<and> used_at r = None)" using assms(2) facts Revoke by auto
    with held_delete [OF r] show ?thesis by (simp add: Revoke revoke_invite_def Let_def)
  next
    case (RevokeUnheld j now)
    have "\<not> (invite_id r = j \<and> used_at r = None \<and> unheld (stamp now) r)"
      using assms(2) facts RevokeUnheld by (auto simp: unheld_def)
    with held_delete [OF r] show ?thesis by (simp add: RevokeUnheld revoke_unheld_invite_def Let_def)
  qed
qed

lemma held_run:
  "\<exists>r \<in> set (invite_codes s). held_by i hash h u r \<Longrightarrow> list_all (spares i hash h u) xs
     \<Longrightarrow> \<exists>r \<in> set (invite_codes (final step xs s)). held_by i hash h u r"
proof (induction xs arbitrary: s)
  case (Cons x xs)
  then have "\<exists>r \<in> set (invite_codes (snd (step x s))). held_by i hash h u r" by (intro held_step) simp_all
  with Cons show ?case by simp
qed simp

lemma reserve_holds:
  assumes "reserve_invite hash h now until s = (Some i, s')"
  shows "\<exists>r \<in> set (invite_codes s'). held_by i hash h (stamp until) r"
proof -
  let ?p = "available hash (stamp now)"
  let ?f = "\<lambda>r. r\<lparr>reserved_by := Some h, reserved_until := Some (stamp until)\<rparr>"
  have f: "map_option invite_id (find ?p (invite_codes s)) = Some i"
    and s': "s' = s\<lparr>invite_codes := update_where ?p ?f (invite_codes s)\<rparr>"
    using assms by (auto simp: reserve_invite_def Let_def)
  then obtain r where r: "r \<in> set (invite_codes s)" "?p r" "invite_id r = i"
    using find_Some_in [of ?p] by auto
  then have "?f r \<in> set (invite_codes s')" using in_update_where [OF r(1), of ?p ?f] by (simp add: s')
  moreover have "held_by i hash h (stamp until) (?f r)" using r by (simp add: held_by_def available_def)
  ultimately show ?thesis by blast
qed

lemma held_consumes:
  assumes "invites_inv s" "\<exists>r \<in> set (invite_codes s). held_by i hash h u r"
  shows "fst (consume_invite i label h t s) = Inr ()"
proof -
  obtain r where "r \<in> set (invite_codes s)" "held_by i hash h u r" using assms(2) by blast
  then have "count_where (\<lambda>r. invite_id r = i \<and> used_at r = None \<and> reserved_by r = Some h) (invite_codes s) = 1"
    by (intro invites.count_id_1 [OF invites_invD(1) [OF assms(1)]]) (auto simp: held_by_def)
  then show ?thesis by (simp add: consume_invite_def Let_def)
qed

text \<open>A held code waits for its holder: once a session holds an invite, then whatever every
  other session, the dashboard and the minting do before the hold lapses, the holder's
  consume succeeds, however late it arrives; only the holder's own release, the CLI's
  override, or a reservation or revocation after the hold has lapsed can take the code
  away. In particular no second session spends, holds or releases it meanwhile.\<close>

theorem held_code_waits_for_its_holder:
  assumes "invites_inv s" "reserve_invite hash h now until s = (Some i, s')"
    and "list_all (spares i hash h (stamp until)) xs"
  shows "fst (consume_invite i label h t (final step xs s')) = Inr ()"
proof (rule held_consumes)
  have "invites_inv s'" using invites_inv_step [OF assms(1), of "Reserve hash h now until"] assms(2) by simp
  then show "invites_inv (final step xs s')" by (rule invite_machine.inv_final)
  show "\<exists>r \<in> set (invite_codes (final step xs s')). held_by i hash h (stamp until) r"
    using held_run [OF reserve_holds [OF assms(2)] assms(3)] .
qed

theorem held_code_waits_for_its_holder_witness:
  "fst (consume_invite 1 ''alice'' ''sid'' 900000000000
     (final step [Reserve ''ab'' ''other'' 9000000 20000000, Consume 1 ''bob'' ''other'' 9000000, RevokeUnheld 1 9000000]
       (snd (reserve_invite ''ab'' ''sid'' 5000000 20000000 one_invite)))) = Inr ()"
proof -
  have e: "fst (reserve_invite ''ab'' ''sid'' 5000000 20000000 one_invite) = Some 1" by code_simp
  obtain s' where s': "reserve_invite ''ab'' ''sid'' 5000000 20000000 one_invite = (Some 1, s')"
    using e by (cases "reserve_invite ''ab'' ''sid'' 5000000 20000000 one_invite") simp
  show ?thesis
    using held_code_waits_for_its_holder [OF inv_one_invite s', of
        "[Reserve ''ab'' ''other'' 9000000 20000000, Consume 1 ''bob'' ''other'' 9000000, RevokeUnheld 1 9000000]"]
    by (simp add: s' stamp_def)
qed

subsection \<open>The expiry migration\<close>

definition backfilled :: "invite_code \<Rightarrow> invite_code" where
  "backfilled r = r\<lparr>expires_at := Some (stamp (parse_ts (created_at r) + days DEFAULT_TTL_DAYS))\<rparr>"

lemma backfill_fold:
  assumes "distinct (map invite_id (invite_codes s))" "distinct (map invite_id ls)" "set ls \<subseteq> set (invite_codes s)"
  shows "invite_codes (fold backfill_one ls s)
    = map (\<lambda>r. if invite_id r \<in> invite_id ` set ls then backfilled r else r) (invite_codes s)"
  using assms
proof (induction ls arbitrary: s)
  case Nil
  then show ?case by simp
next
  case (Cons c ls)
  let ?u = "invite_codes (backfill_one c s)"
  have c: "r = c" if "r \<in> set (invite_codes s)" "invite_id r = invite_id c" for r
    using distinct_map_eq [OF Cons.prems(1) that(1) _ that(2)] Cons.prems(3) by simp
  have "?u = update_where (\<lambda>r. invite_id r = invite_id c)
      (\<lambda>r. r\<lparr>expires_at := Some (stamp (parse_ts (created_at c) + days DEFAULT_TTL_DAYS))\<rparr>) (invite_codes s)"
    by (simp add: backfill_one_def Let_def)
  also have "\<dots> = map (\<lambda>r. if invite_id r = invite_id c then backfilled r else r) (invite_codes s)"
    unfolding update_where_def by (rule map_cong [OF refl]) (auto simp: backfilled_def dest: c)
  finally have u: "?u = map (\<lambda>r. if invite_id r = invite_id c then backfilled r else r) (invite_codes s)" .
  have ids: "map invite_id ?u = map invite_id (invite_codes s)" by (simp add: u backfilled_def)
  have sub: "set ls \<subseteq> set ?u"
  proof
    fix l assume "l \<in> set ls"
    moreover from this have "invite_id l \<noteq> invite_id c" using Cons.prems(2) by (metis distinct.simps(2) image_eqI list.map(2) set_map)
    moreover have "l \<in> set (invite_codes s)" using \<open>l \<in> set ls\<close> Cons.prems(3) by auto
    ultimately show "l \<in> set ?u" unfolding u by (auto intro!: image_eqI [of _ _ l])
  qed
  have ls: "distinct (map invite_id ls)" "invite_id c \<notin> invite_id ` set ls" using Cons.prems(2) by auto
  have "distinct (map invite_id ?u)" unfolding ids by (rule Cons.prems(1))
  from Cons.IH [OF this ls(1) sub]
  have "invite_codes (fold backfill_one (c # ls) s)
      = map (\<lambda>r. if invite_id r \<in> invite_id ` set ls then backfilled r else r) ?u" by simp
  also have "\<dots> = map (\<lambda>r. if invite_id r \<in> invite_id ` set (c # ls) then backfilled r else r) (invite_codes s)"
    unfolding u using ls(2) by (auto simp: backfilled_def)
  finally show ?case .
qed

lemma backfill_next: "next_invite (backfill_expiry s) = next_invite s"
proof -
  have "next_invite (fold backfill_one ls s) = next_invite s" for ls
    by (induction ls arbitrary: s) (auto simp: backfill_one_def)
  then show ?thesis by (simp add: backfill_expiry_def)
qed

lemma backfill_rows:
  assumes "invites_inv s"
  shows "invite_codes (backfill_expiry s)
    = map (\<lambda>r. if expires_at r = None \<and> used_at r = None then backfilled r else r) (invite_codes s)"
proof -
  let ?ls = "filter (\<lambda>r. expires_at r = None \<and> used_at r = None) (invite_codes s)"
  note d = invites_invD(3) [OF assms]
  have "invite_codes (backfill_expiry s)
      = map (\<lambda>r. if invite_id r \<in> invite_id ` set ?ls then backfilled r else r) (invite_codes s)"
    unfolding backfill_expiry_def using d by (intro backfill_fold) (auto simp: distinct_map_filter)
  also have "\<dots> = map (\<lambda>r. if expires_at r = None \<and> used_at r = None then backfilled r else r) (invite_codes s)"
  proof (rule map_cong [OF refl])
    fix r assume "r \<in> set (invite_codes s)"
    then have "invite_id r \<in> invite_id ` set ?ls \<longleftrightarrow> expires_at r = None \<and> used_at r = None"
      using distinct_map_eq [OF d] by auto
    then show "(if invite_id r \<in> invite_id ` set ?ls then backfilled r else r)
        = (if expires_at r = None \<and> used_at r = None then backfilled r else r)" by simp
  qed
  finally show ?thesis .
qed

text \<open>After the migration every unspent code expires: those that had an expiry keep it,
  the others get thirty days from when they were issued, spent codes are untouched, and
  running it again on the next boot changes nothing.\<close>

theorem backfill_leaves_no_eternal_code:
  assumes "invites_inv s"
  shows "list_all (\<lambda>r. used_at r = None \<longrightarrow> expires_at r \<noteq> None) (invite_codes (backfill_expiry s))
    \<and> invite_codes (backfill_expiry (backfill_expiry s)) = invite_codes (backfill_expiry s)
    \<and> (\<forall>r \<in> set (invite_codes s). used_at r \<noteq> None \<or> expires_at r \<noteq> None \<longrightarrow> r \<in> set (invite_codes (backfill_expiry s)))
    \<and> (\<forall>r \<in> set (invite_codes s). used_at r = None \<and> expires_at r = None \<longrightarrow>
         r\<lparr>expires_at := Some (created_at r + 30 * 24 * 60 * 60 * 1000)\<rparr> \<in> set (invite_codes (backfill_expiry s)))"
proof -
  let ?g = "\<lambda>r. if expires_at r = None \<and> used_at r = None then backfilled r else r"
  note rows = backfill_rows [OF assms]
  have inv: "invites_inv (backfill_expiry s)"
  proof -
    have ids: "map invite_id (map ?g (invite_codes s)) = map invite_id (invite_codes s)"
      "map code_hash (map ?g (invite_codes s)) = map code_hash (invite_codes s)"
      by (auto simp: backfilled_def)
    have "set (map invite_id (map ?g (invite_codes s))) \<subseteq> {..<next_invite s}"
      unfolding ids using invites_invD(4) [OF assms] by auto
    then have "\<forall>r \<in> set (map ?g (invite_codes s)). invite_id r < next_invite s" by fastforce
    then show ?thesis
      unfolding invites_inv_def invites.wf_def rows backfill_next ids
      using invites_invD(2,3) [OF assms] by blast
  qed
  have "backfilled r = r\<lparr>expires_at := Some (created_at r + 30 * 24 * 60 * 60 * 1000)\<rparr>" for r
    by (simp add: backfilled_def stamp_def parse_ts_def days_def hours_def secs_def DEFAULT_TTL_DAYS_def)
  moreover have "map ?g (map ?g (invite_codes s)) = map ?g (invite_codes s)" by (simp add: backfilled_def)
  ultimately show ?thesis
    unfolding backfill_rows [OF inv] rows by (auto simp: list_all_iff backfilled_def)
qed

end
