(* ===== verification/Control_Tenants.thy ===== *)
theory Control_Tenants
  imports Control_Invites
begin

text \<open>
  The tenants of the control plane (\<open>squelch-control/src/store.rs\<close>): one row a mailbox, with
  the ids of its gateway keys and the hash of the token its daemon shares invites with, and
  the quota those invites are counted against.

  Where one insert breaks both unique rules the label's is reported, as its index is the
  older one.
\<close>

definition STATUS_ACTIVE :: string where
  "STATUS_ACTIVE = ''active''"

definition normalize_email :: "string \<Rightarrow> string" where
  "normalize_email email = to_lowercase (trim email)"

record tenant =
  tenant_id :: int
  label :: string
  account_email :: string
  status :: string
  tenant_created :: stamp
  bifrost_vk_id :: "string option"
  vk_minted_at :: "stamp option"
  bifrost_assistant_vk_id :: "string option"
  assistant_vk_minted_at :: "stamp option"
  share_token_hash :: "string option"
  share_token_minted_at :: "stamp option"

record tenant_db = invite_table +
  tenants :: "tenant list"
  next_tenant :: int

record tenant_row =
  shown_label :: string
  shown_email :: string
  shown_status :: string
  shown_created :: instant

record sharer =
  sharer_id :: int
  sharer_label :: string
  sharer_email :: string

definition mk_tenant :: "int \<Rightarrow> string \<times> string \<times> stamp \<Rightarrow> tenant" where
  "mk_tenant i = (\<lambda>(lbl, email, created).
     \<lparr>tenant_id = i, label = lbl, account_email = email, status = STATUS_ACTIVE, tenant_created = created,
      bifrost_vk_id = None, vk_minted_at = None, bifrost_assistant_vk_id = None, assistant_vk_minted_at = None,
      share_token_hash = None, share_token_minted_at = None\<rparr>)"

definition label_exists :: "string \<Rightarrow> 'a tenant_db_scheme \<Rightarrow> bool" where
  "label_exists lbl s \<longleftrightarrow> list_ex (\<lambda>t. label t = lbl) (tenants s)"

definition active_tenant_for_email :: "string \<Rightarrow> 'a tenant_db_scheme \<Rightarrow> string option" where
  "active_tenant_for_email email s =
     map_option label (find (\<lambda>t. account_email t = normalize_email email \<and> status t = STATUS_ACTIVE) (tenants s))"

definition active_tenant_email :: "string \<Rightarrow> 'a tenant_db_scheme \<Rightarrow> string option" where
  "active_tenant_email lbl s =
     map_option account_email (find (\<lambda>t. label t = lbl \<and> status t = STATUS_ACTIVE) (tenants s))"

definition insert_tenant ::
    "string \<Rightarrow> string \<Rightarrow> instant \<Rightarrow> 'a tenant_db_scheme \<Rightarrow> (store_error + unit) \<times> 'a tenant_db_scheme" where
  "insert_tenant lbl addr now s =
     (let email = normalize_email addr;
          i = next_tenant s;
          s' = s\<lparr>next_tenant := i + 1\<rparr> in
      if list_ex (\<lambda>t. label t = lbl) (tenants s) then (Inl LabelTaken, s')
      else if list_ex (\<lambda>t. account_email t = email \<and> status t = STATUS_ACTIVE) (tenants s) then (Inl AccountTaken, s')
      else (Inr (), s'\<lparr>tenants := tenants s @ [mk_tenant i (lbl, email, stamp now)]\<rparr>))"

definition to_tenant_row :: "tenant \<Rightarrow> tenant_row" where
  "to_tenant_row t = \<lparr>shown_label = label t, shown_email = account_email t, shown_status = status t,
     shown_created = parse_ts (tenant_created t)\<rparr>"

definition list_tenants :: "'a tenant_db_scheme \<Rightarrow> tenant_row list" where
  "list_tenants s = map to_tenant_row (rev (sort_key tenant_id (tenants s)))"

text \<open>One \<open>UPDATE tenants SET ... WHERE ...\<close>: whether exactly one row changed.\<close>

definition update_tenant ::
    "(tenant \<Rightarrow> bool) \<Rightarrow> (tenant \<Rightarrow> tenant) \<Rightarrow> 'a tenant_db_scheme \<Rightarrow> bool \<times> 'a tenant_db_scheme" where
  "update_tenant p f s = (count_where p (tenants s) = 1, s\<lparr>tenants := update_where p f (tenants s)\<rparr>)"

definition set_tenant_vk :: "string \<Rightarrow> string \<Rightarrow> instant \<Rightarrow> 'a tenant_db_scheme \<Rightarrow> bool \<times> 'a tenant_db_scheme" where
  "set_tenant_vk lbl vk now s = update_tenant (\<lambda>t. label t = lbl)
     (\<lambda>t. t\<lparr>bifrost_vk_id := Some vk, vk_minted_at := Some (stamp now)\<rparr>) s"

definition tenant_vk :: "string \<Rightarrow> 'a tenant_db_scheme \<Rightarrow> string option" where
  "tenant_vk lbl s = (case find (\<lambda>t. label t = lbl) (tenants s) of None \<Rightarrow> None | Some t \<Rightarrow> bifrost_vk_id t)"

definition clear_tenant_vk :: "string \<Rightarrow> 'a tenant_db_scheme \<Rightarrow> bool \<times> 'a tenant_db_scheme" where
  "clear_tenant_vk lbl s = update_tenant (\<lambda>t. label t = lbl \<and> bifrost_vk_id t \<noteq> None)
     (\<lambda>t. t\<lparr>bifrost_vk_id := None, vk_minted_at := None\<rparr>) s"

definition set_tenant_assistant_vk ::
    "string \<Rightarrow> string \<Rightarrow> instant \<Rightarrow> 'a tenant_db_scheme \<Rightarrow> bool \<times> 'a tenant_db_scheme" where
  "set_tenant_assistant_vk lbl vk now s = update_tenant (\<lambda>t. label t = lbl)
     (\<lambda>t. t\<lparr>bifrost_assistant_vk_id := Some vk, assistant_vk_minted_at := Some (stamp now)\<rparr>) s"

definition tenant_assistant_vk :: "string \<Rightarrow> 'a tenant_db_scheme \<Rightarrow> string option" where
  "tenant_assistant_vk lbl s =
     (case find (\<lambda>t. label t = lbl) (tenants s) of None \<Rightarrow> None | Some t \<Rightarrow> bifrost_assistant_vk_id t)"

definition clear_tenant_assistant_vk :: "string \<Rightarrow> 'a tenant_db_scheme \<Rightarrow> bool \<times> 'a tenant_db_scheme" where
  "clear_tenant_assistant_vk lbl s = update_tenant (\<lambda>t. label t = lbl \<and> bifrost_assistant_vk_id t \<noteq> None)
     (\<lambda>t. t\<lparr>bifrost_assistant_vk_id := None, assistant_vk_minted_at := None\<rparr>) s"

text \<open>The unique index on the token hash refuses a hash some other tenant holds.\<close>

definition set_tenant_share_token ::
    "string \<Rightarrow> string \<Rightarrow> instant \<Rightarrow> 'a tenant_db_scheme \<Rightarrow> (store_error + bool) \<times> 'a tenant_db_scheme" where
  "set_tenant_share_token lbl hash now s =
     (let p = (\<lambda>t. label t = lbl \<and> status t = STATUS_ACTIVE) in
      if list_ex p (tenants s) \<and> list_ex (\<lambda>t. share_token_hash t = Some hash \<and> \<not> p t) (tenants s) then (Inl Pg, s)
      else map_prod Inr id (update_tenant p
             (\<lambda>t. t\<lparr>share_token_hash := Some hash, share_token_minted_at := Some (stamp now)\<rparr>) s))"

definition clear_tenant_share_token :: "string \<Rightarrow> 'a tenant_db_scheme \<Rightarrow> bool \<times> 'a tenant_db_scheme" where
  "clear_tenant_share_token lbl s = update_tenant (\<lambda>t. label t = lbl \<and> share_token_hash t \<noteq> None)
     (\<lambda>t. t\<lparr>share_token_hash := None, share_token_minted_at := None\<rparr>) s"

definition tenant_by_share_token :: "string \<Rightarrow> 'a tenant_db_scheme \<Rightarrow> sharer option" where
  "tenant_by_share_token hash s =
     map_option (\<lambda>t. \<lparr>sharer_id = tenant_id t, sharer_label = label t, sharer_email = account_email t\<rparr>)
       (find (\<lambda>t. share_token_hash t = Some hash \<and> status t = STATUS_ACTIVE) (tenants s))"

definition share_quota_used :: "int \<Rightarrow> instant \<Rightarrow> 'a invite_table_scheme \<Rightarrow> nat" where
  "share_quota_used t since_ts s =
     count_where (\<lambda>r. invited_by r = Some t \<and> stamp since_ts \<le> created_at r) (invite_codes s)"

definition mint_shared_invite ::
    "int \<Rightarrow> string \<Rightarrow> instant \<Rightarrow> instant \<Rightarrow> int \<Rightarrow> instant \<Rightarrow> 'a tenant_db_scheme
       \<Rightarrow> (store_error + int option) \<times> 'a tenant_db_scheme" where
  "mint_shared_invite t hash expires window_start limit now s =
     (if \<not> list_ex (\<lambda>r. tenant_id r = t) (tenants s) then (Inr None, s)
      else let used = int (count_where (\<lambda>r. invited_by r = Some t \<and> stamp window_start \<le> created_at r) (invite_codes s)) in
        if limit \<le> used then (Inr None, s)
        else case insert_invite hash expires (Some t) now s of
            (Inl e, s') \<Rightarrow> (Inl e, s')
          | (Inr _, s') \<Rightarrow> (Inr (Some (limit - (used + 1))), s'))"

section \<open>The tables as a machine\<close>

datatype tenant_op =
    AddTenant string string instant
  | SetVk string string instant
  | ClearVk string
  | SetAssistantVk string string instant
  | ClearAssistantVk string
  | SetShare string string instant
  | ClearShare string
  | MintShared int string instant instant int instant
  | OnInvites op

datatype tenant_out =
    Added "store_error + unit"
  | Changed bool
  | Shared "store_error + bool"
  | Minted "store_error + int option"
  | FromInvites out

fun tenant_step :: "tenant_op \<Rightarrow> 'a tenant_db_scheme \<Rightarrow> tenant_out \<times> 'a tenant_db_scheme" where
  "tenant_step (AddTenant l e now) s = map_prod Added id (insert_tenant l e now s)"
| "tenant_step (SetVk l k now) s = map_prod Changed id (set_tenant_vk l k now s)"
| "tenant_step (ClearVk l) s = map_prod Changed id (clear_tenant_vk l s)"
| "tenant_step (SetAssistantVk l k now) s = map_prod Changed id (set_tenant_assistant_vk l k now s)"
| "tenant_step (ClearAssistantVk l) s = map_prod Changed id (clear_tenant_assistant_vk l s)"
| "tenant_step (SetShare l h now) s = map_prod Shared id (set_tenant_share_token l h now s)"
| "tenant_step (ClearShare l) s = map_prod Changed id (clear_tenant_share_token l s)"
| "tenant_step (MintShared t h e ws lim now) s = map_prod Minted id (mint_shared_invite t h e ws lim now s)"
| "tenant_step (OnInvites x) s = map_prod FromInvites id (step x s)"

interpretation tenants: id_table tenant_id mk_tenant
  by unfold_locales (simp add: mk_tenant_def split: prod.splits)

text \<open>Unique labels, one active tenant a mailbox, one tenant a share token, stored addresses normal.\<close>

definition actives :: "tenant list \<Rightarrow> tenant list" where
  "actives ts = filter (\<lambda>t. status t = STATUS_ACTIVE) ts"

definition sharing :: "tenant list \<Rightarrow> tenant list" where
  "sharing ts = filter (\<lambda>t. share_token_hash t \<noteq> None) ts"

definition tenants_ok :: "int \<Rightarrow> tenant list \<Rightarrow> bool" where
  "tenants_ok nxt ts \<longleftrightarrow> tenants.wf nxt ts \<and> distinct (map label ts)
     \<and> distinct (map account_email (actives ts)) \<and> distinct (map share_token_hash (sharing ts))
     \<and> (\<forall>t \<in> set ts. normalize_email (account_email t) = account_email t)"

definition tenants_inv :: "'a tenant_db_scheme \<Rightarrow> bool" where
  "tenants_inv s \<longleftrightarrow> tenants_ok (next_tenant s) (tenants s) \<and> invites_inv s"

section \<open>Lemmas\<close>

lemma normalize_email_idem [simp]: "normalize_email (normalize_email e) = normalize_email e"
  by (simp add: normalize_email_def trim_to_lowercase)

lemma mk_tenant_simps [simp]:
  "label (mk_tenant i (l, e, c)) = l" "account_email (mk_tenant i (l, e, c)) = e"
  "status (mk_tenant i (l, e, c)) = STATUS_ACTIVE" "share_token_hash (mk_tenant i (l, e, c)) = None"
  by (simp_all add: mk_tenant_def)

lemma tenants_ok_insert:
  assumes "tenants_ok nxt ts" "\<forall>t \<in> set ts. label t \<noteq> l"
    "\<forall>t \<in> set ts. status t = STATUS_ACTIVE \<longrightarrow> account_email t \<noteq> normalize_email e"
  shows "tenants_ok (nxt + 1) (ts @ [mk_tenant nxt (l, normalize_email e, c)])"
  using assms tenants.wf_insert [of nxt ts]
  by (auto simp: tenants_ok_def actives_def sharing_def)

lemma tenants_ok_weaken: "tenants_ok nxt ts \<Longrightarrow> tenants_ok (nxt + 1) ts"
  using tenants.wf_weaken [of nxt ts "nxt + 1"] by (simp add: tenants_ok_def)

text \<open>An update of columns other than the id, the label, the address, the status and the token.\<close>

lemma tenants_ok_update:
  assumes "tenants_ok nxt ts"
    and keep: "\<And>t. tenant_id (f t) = tenant_id t" "\<And>t. label (f t) = label t" "\<And>t. account_email (f t) = account_email t"
      "\<And>t. status (f t) = status t"
    and tok: "distinct (map share_token_hash (sharing (update_where p f ts)))"
  shows "tenants_ok nxt (update_where p f ts)"
proof -
  have "map label (update_where p f ts) = map label ts"
    using keep by (simp add: update_where_def)
  moreover have "map account_email (actives (update_where p f ts)) = map account_email (actives ts)"
    unfolding actives_def update_where_def by (induction ts) (auto simp: keep)
  moreover have "\<forall>t \<in> set (update_where p f ts). normalize_email (account_email t) = account_email t"
    using assms(1) by (auto simp: tenants_ok_def keep elim!: update_whereE)
  ultimately show ?thesis
    using assms(1) tok tenants.wf_update [of nxt ts f p] keep(1) by (simp add: tenants_ok_def)
qed

lemma sharing_same:
  "(\<And>t. share_token_hash (f t) = share_token_hash t)
     \<Longrightarrow> map share_token_hash (sharing (update_where p f ts)) = map share_token_hash (sharing ts)"
  unfolding sharing_def update_where_def by (induction ts) auto

lemma sharing_clear:
  "(\<And>t. share_token_hash (f t) = None) \<Longrightarrow> distinct (map share_token_hash (sharing ts))
     \<Longrightarrow> distinct (map share_token_hash (sharing (update_where p f ts)))"
  unfolding sharing_def update_where_def by (induction ts) (auto split: if_splits)

lemma set_sharing: "set (map share_token_hash (sharing ts)) = {Some h | h. \<exists>t \<in> set ts. share_token_hash t = Some h}"
  by (auto simp: sharing_def image_iff) metis

lemma sharing_set:
  assumes "distinct (map share_token_hash (sharing ts))" "distinct (map label ts)"
    and "\<forall>t \<in> set ts. p t \<longrightarrow> label t = l" "\<forall>t \<in> set ts. share_token_hash t = Some h \<longrightarrow> p t"
    and f: "\<And>t. share_token_hash (f t) = Some h"
  shows "distinct (map share_token_hash (sharing (update_where p f ts)))"
  using assms(1-4)
proof (induction ts)
  case Nil
  then show ?case by (simp add: sharing_def update_where_def)
next
  case (Cons t ts)
  have IH: "distinct (map share_token_hash (sharing (update_where p f ts)))"
  proof (rule Cons.IH)
    show "distinct (map share_token_hash (sharing ts))"
      using Cons.prems(1) by (cases "share_token_hash t = None") (auto simp: sharing_def)
  qed (use Cons.prems in auto)
  show ?case
  proof (cases "p t")
    case True
    have none: "\<not> p u" if "u \<in> set ts" for u
    proof
      assume "p u"
      with True that Cons.prems(3) have "label u = label t" by simp
      moreover have "label u \<in> set (map label ts)" using that by simp
      ultimately show False using Cons.prems(2) by (metis distinct.simps(2) list.map(2))
    qed
    then have "update_where p f ts = ts" by (auto simp: update_where_def intro!: map_idI)
    moreover have "Some h \<notin> set (map share_token_hash (sharing ts))"
      using none Cons.prems(4) unfolding set_sharing by fastforce
    ultimately show ?thesis using IH True f by (simp add: sharing_def update_where_def)
  next
    case False
    have "share_token_hash t \<notin> set (map share_token_hash (sharing (update_where p f ts)))" if "share_token_hash t \<noteq> None"
    proof
      assume "share_token_hash t \<in> set (map share_token_hash (sharing (update_where p f ts)))"
      then obtain u where u: "u \<in> set ts" "share_token_hash t = share_token_hash (if p u then f u else u)"
        using that by (auto simp: sharing_def elim!: update_whereE)
      show False
      proof (cases "p u")
        case True
        with u f Cons.prems(4) False show False by simp
      next
        case False
        with u that Cons.prems(1) show False by (auto simp: sharing_def image_iff)
      qed
    qed
    with IH False show ?thesis by (auto simp: sharing_def update_where_def)
  qed
qed

lemma tenants_ok_step:
  assumes "tenants_ok (next_tenant s) (tenants s)"
  shows "tenants_ok (next_tenant (snd (tenant_step x s))) (tenants (snd (tenant_step x s)))"
proof -
  have d: "distinct (map share_token_hash (sharing (tenants s)))" "distinct (map label (tenants s))"
    using assms by (auto simp: tenants_ok_def)
  show ?thesis
  proof (cases x)
    case (AddTenant l e now)
    note ins = tenants_ok_insert [OF assms, of l e "stamp now"]
    from AddTenant show ?thesis
      using ins tenants_ok_weaken [OF assms]
      by (auto simp: insert_tenant_def Let_def list_ex_iff)
  next
    case (SetShare l h now)
    show ?thesis
    proof (cases "list_ex (\<lambda>t. label t = l \<and> status t = STATUS_ACTIVE) (tenants s)
        \<and> list_ex (\<lambda>t. share_token_hash t = Some h \<and> \<not> (label t = l \<and> status t = STATUS_ACTIVE)) (tenants s)")
      case True
      with SetShare assms show ?thesis by (simp add: set_tenant_share_token_def)
    next
      case False
      let ?p = "\<lambda>t. label t = l \<and> status t = STATUS_ACTIVE"
      let ?f = "\<lambda>t. t\<lparr>share_token_hash := Some h, share_token_minted_at := Some (stamp now)\<rparr>"
      have "distinct (map share_token_hash (sharing (update_where ?p ?f (tenants s))))"
      proof (cases "list_ex ?p (tenants s)")
        case True
        with False have "\<forall>t \<in> set (tenants s). share_token_hash t = Some h \<longrightarrow> ?p t" by (auto simp: list_ex_iff)
        then show ?thesis by (intro sharing_set [OF d, where l = l and h = h]) auto
      next
        case none: False
        then have "update_where ?p ?f (tenants s) = tenants s"
          by (auto simp: list_ex_iff update_where_def intro!: map_idI)
        with d show ?thesis by simp
      qed
      with tenants_ok_update [OF assms, of ?f ?p] have "tenants_ok (next_tenant s) (update_where ?p ?f (tenants s))" by simp
      moreover have "set_tenant_share_token l h now s = (Inr (count_where ?p (tenants s) = 1), s\<lparr>tenants := update_where ?p ?f (tenants s)\<rparr>)"
        unfolding set_tenant_share_token_def Let_def update_tenant_def if_not_P [OF False] by simp
      ultimately show ?thesis using SetShare by simp
    qed
  next
    case (MintShared t h e ws lim now)
    have "tenants (snd (mint_shared_invite t h e ws lim now s)) = tenants s"
      "next_tenant (snd (mint_shared_invite t h e ws lim now s)) = next_tenant s"
      by (auto simp: mint_shared_invite_def Let_def insert_invite_def split: prod.split sum.split)
    with MintShared assms show ?thesis by simp
  next
    case (OnInvites y)
    have "tenants (snd (step y s)) = tenants s" "next_tenant (snd (step y s)) = next_tenant s"
      by (cases y; simp add: insert_invite_def reserve_invite_def release_invite_def consume_invite_def
          revoke_invite_def revoke_unheld_invite_def Let_def)+
    with OnInvites assms show ?thesis by simp
  qed (use assms d in \<open>auto simp: set_tenant_vk_def clear_tenant_vk_def set_tenant_assistant_vk_def
      clear_tenant_assistant_vk_def clear_tenant_share_token_def update_tenant_def sharing_same sharing_clear
      intro!: tenants_ok_update\<close>)
qed

lemma invites_inv_tenants [simp]:
  "invites_inv (s\<lparr>tenants := ts\<rparr>) = invites_inv s" "invites_inv (s\<lparr>next_tenant := n\<rparr>) = invites_inv s"
  by (simp_all add: invites_inv_def)

lemma mint_shared_invite_state:
  "snd (mint_shared_invite t h e ws lim now s) \<in> {s, snd (insert_invite h e (Some t) now s)}"
  by (auto simp: mint_shared_invite_def Let_def split: prod.split sum.split)

lemma invites_inv_tenant_step: "invites_inv s \<Longrightarrow> invites_inv (snd (tenant_step x s))"
proof (cases x)
  case (MintShared t h e ws lim now)
  assume "invites_inv s"
  with MintShared inv_insert_invite mint_shared_invite_state [of t h e ws lim now s] show ?thesis by auto
next
  case (OnInvites y)
  assume "invites_inv s"
  with OnInvites invites_inv_step show ?thesis by auto
qed (auto simp: insert_tenant_def set_tenant_vk_def clear_tenant_vk_def set_tenant_assistant_vk_def
      clear_tenant_assistant_vk_def clear_tenant_share_token_def set_tenant_share_token_def update_tenant_def Let_def)

interpretation tenant_machine: invariant_machine tenant_step tenants_inv
  by unfold_locales (auto simp: tenants_inv_def tenants_ok_step invites_inv_tenant_step)
definition no_tenants :: tenant_db where
  "no_tenants = \<lparr>invite_codes = [], next_invite = 1, tenants = [], next_tenant = 1\<rparr>"

lemma inv_no_tenants [simp]: "tenants_inv no_tenants"
  by (simp add: tenants_inv_def tenants_ok_def no_tenants_def actives_def sharing_def invites_inv_def)

lemma tenants_okD:
  assumes "tenants_ok nxt ts"
  shows "distinct (map label ts)" "distinct (map account_email (actives ts))"
    "distinct (map share_token_hash (sharing ts))" "\<And>t. t \<in> set ts \<Longrightarrow> normalize_email (account_email t) = account_email t"
  using assms by (auto simp: tenants_ok_def)

lemma find_active_email:
  assumes "tenants_ok nxt ts"
  shows "map_option label (find (\<lambda>t. account_email t = e \<and> status t = STATUS_ACTIVE) ts) = Some l
    \<longleftrightarrow> (\<exists>t \<in> set ts. label t = l \<and> account_email t = e \<and> status t = STATUS_ACTIVE)" (is "?L \<longleftrightarrow> ?R")
proof
  assume ?L
  then obtain t where "find (\<lambda>t. account_email t = e \<and> status t = STATUS_ACTIVE) ts = Some t" "label t = l" by blast
  with find_Some_in [OF this(1)] show ?R by blast
next
  assume ?R
  then obtain t where t: "t \<in> set ts" "label t = l" "account_email t = e" "status t = STATUS_ACTIVE" by blast
  have "find (\<lambda>t. account_email t = e \<and> status t = STATUS_ACTIVE) ts = Some t"
  proof (cases "find (\<lambda>t. account_email t = e \<and> status t = STATUS_ACTIVE) ts")
    case None
    with t show ?thesis by (auto simp: find_None_iff)
  next
    case (Some u)
    then have "u \<in> set (actives ts)" "t \<in> set (actives ts)" "account_email u = account_email t"
      using find_Some_in [OF Some] t by (auto simp: actives_def)
    then have "u = t" using distinct_map_eq [OF tenants_okD(2) [OF assms]] by blast
    with Some show ?thesis by simp
  qed
  with t show ?L by simp
qed

section \<open>Properties\<close>

text \<open>One mailbox, one daemon: whatever has happened to a store that started empty, labels
  are unique, no mailbox has two active tenants, and while one is active every further
  signup for that mailbox, however the address is cased or padded, is refused and adds no
  row.\<close>

theorem one_mailbox_one_daemon:
  "distinct (map label (tenants (final tenant_step xs no_tenants)))
    \<and> distinct (map account_email (actives (tenants (final tenant_step xs no_tenants))))
    \<and> (active_tenant_for_email e (final tenant_step xs no_tenants) \<noteq> None \<and> normalize_email e' = normalize_email e \<longrightarrow>
        fst (insert_tenant l e' now (final tenant_step xs no_tenants)) \<in> {Inl LabelTaken, Inl AccountTaken}
        \<and> tenants (snd (insert_tenant l e' now (final tenant_step xs no_tenants))) = tenants (final tenant_step xs no_tenants))"
proof -
  let ?s = "final tenant_step xs no_tenants"
  have "tenants_inv ?s" by (rule tenant_machine.inv_final, rule inv_no_tenants)
  then have ok: "tenants_ok (next_tenant ?s) (tenants ?s)" by (simp add: tenants_inv_def)
  have "list_ex (\<lambda>t. account_email t = normalize_email e' \<and> status t = STATUS_ACTIVE) (tenants ?s)"
    if a: "active_tenant_for_email e ?s \<noteq> None" "normalize_email e' = normalize_email e"
  proof -
    obtain l where "active_tenant_for_email e ?s = Some l" using a(1) by blast
    then have "\<exists>t \<in> set (tenants ?s). account_email t = normalize_email e \<and> status t = STATUS_ACTIVE"
      unfolding active_tenant_for_email_def find_active_email [OF ok] by blast
    with a(2) show ?thesis by (simp add: list_ex_iff)
  qed
  then have refused: "fst (insert_tenant l e' now ?s) \<in> {Inl LabelTaken, Inl AccountTaken}
        \<and> tenants (snd (insert_tenant l e' now ?s)) = tenants ?s"
    if "active_tenant_for_email e ?s \<noteq> None" "normalize_email e' = normalize_email e"
    using that by (simp add: insert_tenant_def Let_def)
  show ?thesis using tenants_okD(1,2) [OF ok] refused by blast
qed

definition two_tenants :: tenant_db where
  "two_tenants = final tenant_step [AddTenant ''alice'' ''Ann@example.org'' 0, SetShare ''alice'' ''h1'' 1,
     AddTenant ''bob'' ''bob@example.org'' 2, SetShare ''bob'' ''h2'' 3] no_tenants"

lemma inv_two_tenants [simp]: "tenants_inv two_tenants"
  unfolding two_tenants_def by (rule tenant_machine.inv_final, rule inv_no_tenants)

theorem one_mailbox_one_daemon_witness:
  "fst (insert_tenant ''carol'' '' ANN@Example.org '' 9 two_tenants) \<in> {Inl LabelTaken, Inl AccountTaken}"
proof -
  have "active_tenant_for_email ''ann@example.org'' two_tenants \<noteq> None"
    "normalize_email '' ANN@Example.org '' = normalize_email ''ann@example.org''" by code_simp+
  then show ?thesis
    using one_mailbox_one_daemon [of "[AddTenant ''alice'' ''Ann@example.org'' 0, SetShare ''alice'' ''h1'' 1,
     AddTenant ''bob'' ''bob@example.org'' 2, SetShare ''bob'' ''h2'' 3]"] unfolding two_tenants_def by blast
qed

text \<open>A share token names at most one tenant and dies with its revocation: a lookup answers
  exactly the active tenant whose row holds the hash, and once the token is cleared the old
  hash finds nobody.\<close>

theorem share_token_names_its_tenant:
  assumes "tenants_inv s"
  shows "(tenant_by_share_token h s = Some w \<longleftrightarrow>
       (\<exists>t \<in> set (tenants s). share_token_hash t = Some h \<and> status t = STATUS_ACTIVE
          \<and> w = \<lparr>sharer_id = tenant_id t, sharer_label = label t, sharer_email = account_email t\<rparr>))
    \<and> (tenant_by_share_token h s = Some w \<longrightarrow>
        tenant_by_share_token h (snd (clear_tenant_share_token (sharer_label w) s)) = None)"
proof -
  have ok: "tenants_ok (next_tenant s) (tenants s)" using assms by (simp add: tenants_inv_def)
  let ?p = "\<lambda>t. share_token_hash t = Some h \<and> status t = STATUS_ACTIVE"
  have uniq: "t = u" if "t \<in> set (tenants s)" "u \<in> set (tenants s)" "share_token_hash t = Some h" "share_token_hash u = Some h" for t u
    using distinct_map_eq [OF tenants_okD(3) [OF ok], of t u] that by (auto simp: sharing_def)
  have iff: "tenant_by_share_token h s = Some w \<longleftrightarrow>
       (\<exists>t \<in> set (tenants s). ?p t \<and> w = \<lparr>sharer_id = tenant_id t, sharer_label = label t, sharer_email = account_email t\<rparr>)"
  proof (cases "find ?p (tenants s)")
    case None
    then have l: "tenant_by_share_token h s = None" by (simp add: tenant_by_share_token_def)
    show ?thesis unfolding l using None by (auto simp: find_None_iff)
  next
    case (Some t)
    note f = find_Some_in [OF Some]
    have l: "tenant_by_share_token h s
        = Some \<lparr>sharer_id = tenant_id t, sharer_label = label t, sharer_email = account_email t\<rparr>"
      by (simp add: tenant_by_share_token_def Some)
    show ?thesis unfolding l using f uniq [of t] by (auto dest: uniq)
  qed
  have "tenant_by_share_token h (snd (clear_tenant_share_token (sharer_label w) s)) = None"
    if w: "tenant_by_share_token h s = Some w"
  proof -
    obtain t where t: "t \<in> set (tenants s)" "?p t" "sharer_label w = label t" using w iff by auto
    have "\<not> ?p u" if "u \<in> set (update_where (\<lambda>u. label u = label t \<and> share_token_hash u \<noteq> None)
        (\<lambda>u. u\<lparr>share_token_hash := None, share_token_minted_at := None\<rparr>) (tenants s))" for u
      using that
    proof (rule update_whereE)
      fix x assume x: "x \<in> set (tenants s)" "u = (if label x = label t \<and> share_token_hash x \<noteq> None
          then x\<lparr>share_token_hash := None, share_token_minted_at := None\<rparr> else x)"
      show "\<not> ?p u" using uniq [OF t(1) x(1)] t(2) x(2) by auto
    qed
    then have "find ?p (update_where (\<lambda>u. label u = label t \<and> share_token_hash u \<noteq> None)
        (\<lambda>u. u\<lparr>share_token_hash := None, share_token_minted_at := None\<rparr>) (tenants s)) = None"
      unfolding find_None_iff by blast
    then show ?thesis
      by (simp add: t(3) tenant_by_share_token_def clear_tenant_share_token_def update_tenant_def)
  qed
  with iff show ?thesis by blast
qed

theorem share_token_names_its_tenant_witness:
  "tenant_by_share_token ''h1'' (snd (clear_tenant_share_token ''alice'' two_tenants)) = None
    \<and> tenant_by_share_token ''h2'' two_tenants \<noteq> None"
proof -
  have "tenant_by_share_token ''h1'' two_tenants
      = Some \<lparr>sharer_id = 1, sharer_label = ''alice'', sharer_email = ''ann@example.org''\<rparr>"
    "tenant_by_share_token ''h2'' two_tenants \<noteq> None" by code_simp+
  with share_token_names_its_tenant [OF inv_two_tenants, of "''h1''"
      "\<lparr>sharer_id = 1, sharer_label = ''alice'', sharer_email = ''ann@example.org''\<rparr>"] show ?thesis by simp
qed

subsection \<open>The sharing quota\<close>

definition shared_in :: "int \<Rightarrow> stamp \<Rightarrow> stamp \<Rightarrow> invite_code \<Rightarrow> bool" where
  "shared_in t a b r \<longleftrightarrow> invited_by r = Some t \<and> a \<le> created_at r \<and> created_at r \<le> b"

text \<open>Operations as the sharing route makes them for tenant \<open>t\<close>: each mint looks back the same
  \<open>W\<close> milliseconds, has the same limit, and comes no earlier than the one before; operators
  mint in nobody's name.\<close>

fun quota_run :: "int \<Rightarrow> int \<Rightarrow> int \<Rightarrow> stamp \<Rightarrow> tenant_op list \<Rightarrow> bool" where
  "quota_run t W L c [] = True"
| "quota_run t W L c (MintShared u h e ws lim now # xs) =
     (if u = t then c \<le> stamp now \<and> stamp ws = stamp now - W \<and> lim = L \<and> quota_run t W L (stamp now) xs
      else quota_run t W L c xs)"
| "quota_run t W L c (OnInvites (Insert h e by now) # xs) = (by \<noteq> Some t \<and> quota_run t W L c xs)"
| "quota_run t W L c (x # xs) = quota_run t W L c xs"

definition quota_ok :: "int \<Rightarrow> int \<Rightarrow> int \<Rightarrow> stamp \<Rightarrow> invite_code list \<Rightarrow> bool" where
  "quota_ok t W L c rs \<longleftrightarrow> (\<forall>r \<in> set rs. invited_by r = Some t \<longrightarrow> created_at r \<le> c)
     \<and> (\<forall>a. int (count_where (shared_in t a (a + W)) rs) \<le> L)"

lemma quota_ok_le:
  assumes "quota_ok t W L c rs" "\<And>a b. count_where (shared_in t a b) rs' \<le> count_where (shared_in t a b) rs"
  shows "quota_ok t W L c rs'"
proof -
  have "created_at r \<le> c" if r: "r \<in> set rs'" "invited_by r = Some t" for r
  proof (rule ccontr)
    assume "\<not> created_at r \<le> c"
    moreover have "count_where (shared_in t (created_at r) (created_at r)) rs' \<noteq> 0"
      using r by (auto simp: count_where_0 shared_in_def)
    then have "count_where (shared_in t (created_at r) (created_at r)) rs \<noteq> 0"
      using assms(2) [of "created_at r" "created_at r"] by linarith
    then obtain q where "q \<in> set rs" "shared_in t (created_at r) (created_at r) q" unfolding count_where_0 by blast
    ultimately show False using assms(1) by (auto simp: quota_ok_def shared_in_def)
  qed
  moreover have "int (count_where (shared_in t a (a + W)) rs') \<le> L" for a
    using assms(1) assms(2) [of a "a + W"] unfolding quota_ok_def by (meson of_nat_le_iff order_trans)
  ultimately show ?thesis by (simp add: quota_ok_def)
qed

lemma quota_ok_other: "invited_by r \<noteq> Some t \<Longrightarrow> quota_ok t W L c rs \<Longrightarrow> quota_ok t W L c (rs @ [r])"
  by (rule quota_ok_le) (auto simp: shared_in_def)

lemma quota_ok_mint:
  assumes "quota_ok t W L c rs" "c \<le> n" "0 \<le> W"
    and "int (count_where (\<lambda>r. invited_by r = Some t \<and> n - W \<le> created_at r) rs) < L"
    and "invited_by r = Some t" "created_at r = n"
  shows "quota_ok t W L n (rs @ [r])"
proof -
  have "int (count_where (shared_in t a (a + W)) (rs @ [r])) \<le> L" for a
  proof (cases "shared_in t a (a + W) r")
    case True
    then have "n - W \<le> a" using assms(6) by (simp add: shared_in_def)
    then have "count_where (shared_in t a (a + W)) rs \<le> count_where (\<lambda>r. invited_by r = Some t \<and> n - W \<le> created_at r) rs"
      by (intro count_where_mono) (auto simp: shared_in_def)
    with assms(4) True show ?thesis by simp
  next
    case False
    with assms(1) show ?thesis by (simp add: quota_ok_def)
  qed
  with assms show ?thesis by (fastforce simp: quota_ok_def)
qed

lemma invite_step_shared:
  assumes "\<forall>h e by now. x = Insert h e by now \<longrightarrow> by \<noteq> Some t"
  shows "count_where (shared_in t a b) (invite_codes (snd (step x s))) \<le> count_where (shared_in t a b) (invite_codes s)"
  using assms
  by (cases x)
    (auto simp: insert_invite_def reserve_invite_def release_invite_def consume_invite_def revoke_invite_def
      revoke_unheld_invite_def Let_def shared_in_def count_where_delete intro!: count_where_update_le count_where_mono)

lemma tenant_step_codes:
  assumes "\<forall>u h e ws lim now. x \<noteq> MintShared u h e ws lim now" "\<forall>y. x \<noteq> OnInvites y"
  shows "invite_codes (snd (tenant_step x s)) = invite_codes s"
  using assms
  by (cases x) (auto simp: insert_tenant_def set_tenant_vk_def clear_tenant_vk_def set_tenant_assistant_vk_def
      clear_tenant_assistant_vk_def clear_tenant_share_token_def set_tenant_share_token_def update_tenant_def Let_def)

lemma mint_shared_cases:
  obtains (refused) "invite_codes (snd (mint_shared_invite u h e ws lim now s)) = invite_codes s"
  | (minted) "int (count_where (\<lambda>r. invited_by r = Some u \<and> stamp ws \<le> created_at r) (invite_codes s)) < lim"
      "invite_codes (snd (mint_shared_invite u h e ws lim now s))
        = invite_codes s @ [mk_invite (next_invite s) (h, stamp now, stamp e, Some u)]"
proof (cases "list_ex (\<lambda>r. tenant_id r = u) (tenants s)
    \<and> int (count_where (\<lambda>r. invited_by r = Some u \<and> stamp ws \<le> created_at r) (invite_codes s)) < lim
    \<and> \<not> list_ex (\<lambda>r. code_hash r = h) (invite_codes s)")
  case True
  then show thesis by (intro minted) (simp_all add: mint_shared_invite_def insert_invite_def Let_def)
next
  case False
  then show thesis
    by (intro refused) (auto simp: mint_shared_invite_def insert_invite_def Let_def not_less)
qed

lemma quota_run_step:
  assumes "quota_run t W L c (x # xs)" "quota_ok t W L c (invite_codes s)" "0 \<le> W"
  shows "\<exists>c'. quota_run t W L c' xs \<and> quota_ok t W L c' (invite_codes (snd (tenant_step x s)))"
proof (cases x)
  case (MintShared u h e ws lim now)
  let ?s = "snd (mint_shared_invite u h e ws lim now s)"
  have run: "quota_run t W L (if u = t then stamp now else c) xs" "u = t \<Longrightarrow> c \<le> stamp now"
    using assms(1) MintShared by (auto split: if_splits)
  have "quota_ok t W L (if u = t then stamp now else c) (invite_codes ?s)"
  proof (rule mint_shared_cases [of u h e ws lim now s])
    assume "invite_codes ?s = invite_codes s"
    with assms(2) run(2) show ?thesis by (auto simp: quota_ok_def)
  next
    assume lt: "int (count_where (\<lambda>r. invited_by r = Some u \<and> stamp ws \<le> created_at r) (invite_codes s)) < lim"
      and new: "invite_codes ?s = invite_codes s @ [mk_invite (next_invite s) (h, stamp now, stamp e, Some u)]"
    show ?thesis
    proof (cases "u = t")
      case True
      have "quota_ok t W L (stamp now) (invite_codes s @ [mk_invite (next_invite s) (h, stamp now, stamp e, Some u)])"
        by (rule quota_ok_mint [OF assms(2)]) (use assms(1,3) MintShared lt True in auto)
      with True new show ?thesis by simp
    next
      case False
      with assms(2) show ?thesis by (simp add: new quota_ok_other)
    qed
  qed
  with run(1) MintShared show ?thesis by auto
next
  case (OnInvites y)
  have "quota_run t W L c xs \<and> (\<forall>h e by now. y = Insert h e by now \<longrightarrow> by \<noteq> Some t)"
    using assms(1) OnInvites by (cases y) auto
  moreover from this have "quota_ok t W L c (invite_codes (snd (step y s)))"
    by (intro quota_ok_le [OF assms(2)] invite_step_shared) simp
  ultimately show ?thesis using OnInvites by auto
qed (use assms tenant_step_codes [of x s] in \<open>auto simp del: tenant_step.simps\<close>)

lemma quota_run_ok:
  assumes "quota_run t W L c xs" "quota_ok t W L c (invite_codes s)" "0 \<le> W"
  shows "\<exists>c'. quota_ok t W L c' (invite_codes (final tenant_step xs s))"
  using assms
proof (induction xs arbitrary: c s)
  case Nil
  then show ?case by auto
next
  case (Cons x xs)
  then obtain c' where "quota_run t W L c' xs" "quota_ok t W L c' (invite_codes (snd (tenant_step x s)))"
    using quota_run_step by blast
  with Cons.IH Cons.prems(3) show ?case by simp
qed

text \<open>The sharing quota holds at any rate of requests: on a store that started empty, with
  every mint of a tenant looking back the same window with the same limit, and with every
  other operation interleaved at will, no span of that window's length ever holds more
  codes of the tenant than the limit, wherever the span starts.\<close>

theorem share_quota_bounds_every_window:
  assumes "quota_run t W L c xs" "0 \<le> W" "0 \<le> L"
  shows "int (count_where (\<lambda>r. invited_by r = Some t \<and> a \<le> created_at r \<and> created_at r \<le> a + W)
    (invite_codes (final tenant_step xs no_tenants))) \<le> L"
proof -
  have "quota_ok t W L c (invite_codes no_tenants)" using assms(3) by (simp add: quota_ok_def no_tenants_def)
  from quota_run_ok [OF assms(1) this assms(2)] show ?thesis
    unfolding quota_ok_def shared_in_def by blast
qed

theorem share_quota_bounds_every_window_witness:
  "int (count_where (\<lambda>r. invited_by r = Some 1 \<and> 0 \<le> created_at r \<and> created_at r \<le> 0 + 1000)
    (invite_codes (final tenant_step
      [AddTenant ''alice'' ''a@b.c'' 0, MintShared 1 ''h1'' 9000000000 0 1 1000000000,
       MintShared 1 ''h2'' 9000000000 500000000 1 1500000000] no_tenants))) \<le> 1"
  by (rule share_quota_bounds_every_window [where c = 0]) (simp_all add: stamp_def)

text \<open>The quota is counted on the codes that are there, so revoking a shared code gives its
  place in the window back: after a mint and a revocation of the code it minted, exactly as
  much of the quota is used as before the mint.\<close>

theorem revoking_refunds_quota:
  assumes "tenants_inv s" "mint_shared_invite t h e ws lim now s = (Inr (Some left), s')"
  shows "share_quota_used t ws (snd (revoke_invite (next_invite s) s')) = share_quota_used t ws s
    \<and> (stamp ws \<le> stamp now \<longrightarrow> share_quota_used t ws s' = share_quota_used t ws s + 1)
    \<and> left = lim - int (share_quota_used t ws s) - 1"
proof -
  let ?r = "mk_invite (next_invite s) (h, stamp now, stamp e, Some t)"
  have codes: "invite_codes s' = invite_codes s @ [?r]"
    and left: "left = lim - (int (share_quota_used t ws s) + 1)"
    using assms(2) by (auto simp: mint_shared_invite_def insert_invite_def Let_def share_quota_used_def
        split: if_splits prod.splits sum.splits)
  have inv: "invites_inv s" using assms(1) by (simp add: tenants_inv_def)
  have old: "\<not> (invite_id r = next_invite s \<and> used_at r = None)" if "r \<in> set (invite_codes s)" for r
    using invites_invD(4) [OF inv that] by simp
  then have "delete_where (\<lambda>r. invite_id r = next_invite s \<and> used_at r = None) (invite_codes s @ [?r]) = invite_codes s"
    by (simp add: delete_where_def)
  then have "invite_codes (snd (revoke_invite (next_invite s) s')) = invite_codes s"
    by (simp add: revoke_invite_def Let_def codes)
  then show ?thesis using left by (simp add: share_quota_used_def codes)
qed

theorem revoking_refunds_quota_witness:
  "\<exists>s'. mint_shared_invite 1 ''c'' 9000000000 0 5 1000000000 two_tenants = (Inr (Some 4), s')
    \<and> share_quota_used 1 0 (snd (revoke_invite 1 s')) = share_quota_used 1 0 two_tenants"
proof -
  have "fst (mint_shared_invite 1 ''c'' 9000000000 0 5 1000000000 two_tenants) = Inr (Some 4)" by code_simp
  then obtain s' where m: "mint_shared_invite 1 ''c'' 9000000000 0 5 1000000000 two_tenants = (Inr (Some 4), s')"
    by (cases "mint_shared_invite 1 ''c'' 9000000000 0 5 1000000000 two_tenants") simp
  have "next_invite two_tenants = 1" by code_simp
  with revoking_refunds_quota [OF inv_two_tenants m] m show ?thesis by simp
qed

end
