(* ===== verification/Control_Names.thy ===== *)
theory Control_Names
  imports Codes
begin

unbundle bit_operations_syntax

text \<open>
  Two values the control plane stores for a person (\<open>squelch-control/src/store.rs\<close>): the name
  they typed, cleaned for the operator's board, and the id analytics knows them by.

  A name is any Unicode text, so here a character is its code point.
\<close>

type_synonym utext = "nat list"

definition NAME_MAX_CHARS :: nat where
  "NAME_MAX_CHARS = 128"

text \<open>\<open>char::is_whitespace\<close> and \<open>char::is_control\<close> on all of Unicode.\<close>

definition is_ws :: "nat \<Rightarrow> bool" where
  "is_ws c \<longleftrightarrow> (9 \<le> c \<and> c \<le> 13) \<or> c \<in> {0x20, 0x85, 0xA0, 0x1680, 0x2028, 0x2029, 0x202F, 0x205F, 0x3000}
     \<or> (0x2000 \<le> c \<and> c \<le> 0x200A)"

definition is_control :: "nat \<Rightarrow> bool" where
  "is_control c \<longleftrightarrow> c < 32 \<or> (127 \<le> c \<and> c \<le> 159)"

definition is_stripped :: "nat \<Rightarrow> bool" where
  "is_stripped c \<longleftrightarrow> is_control c
     \<or> c \<in> {0x061c, 0x200e, 0x200f} \<or> (0x202a \<le> c \<and> c \<le> 0x202e) \<or> (0x2066 \<le> c \<and> c \<le> 0x2069)
     \<or> c \<in> {0x00ad, 0x180e, 0x200b, 0xfeff} \<or> (0x2060 \<le> c \<and> c \<le> 0x2064)
     \<or> c \<in> {0x201c, 0x201d}"

definition is_inkless :: "nat \<Rightarrow> bool" where
  "is_inkless c \<longleftrightarrow> is_ws c \<or> c \<in> {0x200c, 0x200d, 0x115f, 0x1160, 0x2800, 0x3164}"

fun words_aux :: "utext \<Rightarrow> utext \<Rightarrow> utext list" where
  "words_aux w [] = (if w = [] then [] else [w])"
| "words_aux w (c # cs) =
     (if is_ws c then (if w = [] then words_aux [] cs else w # words_aux [] cs)
      else words_aux (w @ [c]) cs)"

definition words :: "utext \<Rightarrow> utext list" where
  "words s = words_aux [] s"

definition text_trim_end :: "utext \<Rightarrow> utext" where
  "text_trim_end s = rev (dropWhile is_ws (rev s))"

definition normalize_name :: "utext \<Rightarrow> utext option" where
  "normalize_name name =
     (let cleaned = take NAME_MAX_CHARS (join [0x20]
            (filter (\<lambda>w. w \<noteq> []) (map (filter (\<lambda>c. \<not> is_stripped c)) (words name))));
          cleaned = text_trim_end cleaned
      in if list_ex (\<lambda>c. \<not> is_inkless c) cleaned then Some cleaned else None)"

definition mint_analytics_id :: "8 word list option \<Rightarrow> string option" where
  "mint_analytics_id entropy = (case entropy of None \<Rightarrow> None | Some bytes \<Rightarrow>
     let bytes = bytes[6 := (bytes ! 6 AND 0x0f) OR 0x40];
         bytes = bytes[8 := (bytes ! 8 AND 0x3f) OR 0x80];
         hex = hex_lower bytes in
     Some (take 8 hex @ ''-'' @ take 4 (drop 8 hex) @ ''-'' @ take 4 (drop 12 hex) @ ''-''
       @ take 4 (drop 16 hex) @ ''-'' @ take 12 (drop 20 hex)))"

section \<open>Lemmas\<close>

text \<open>A clean word, and a tidy text: clean words, one space apart.\<close>

definition clean_word :: "utext \<Rightarrow> bool" where
  "clean_word w \<longleftrightarrow> w \<noteq> [] \<and> list_all (\<lambda>c. \<not> is_ws c \<and> \<not> is_stripped c) w"

definition tidy :: "utext \<Rightarrow> bool" where
  "tidy s \<longleftrightarrow> (\<exists>ws. list_all clean_word ws \<and> s = join [0x20] ws)"

lemma words_aux_no_ws:
  "list_all (\<lambda>c. \<not> is_ws c) v \<Longrightarrow> list_all (list_all (\<lambda>c. \<not> is_ws c)) (words_aux v s)"
  by (induction v s rule: words_aux.induct) auto

lemma words_no_ws: "list_all (list_all (\<lambda>c. \<not> is_ws c)) (words s)"
  unfolding words_def by (rule words_aux_no_ws) simp

lemma space_ws [simp]: "is_ws 32"
  by (simp add: is_ws_def)

lemma space_not_stripped [simp]: "\<not> is_stripped 32"
  by (simp add: is_stripped_def is_control_def)

lemma words_aux_append: "list_all (\<lambda>c. \<not> is_ws c) w \<Longrightarrow> words_aux v (w @ s) = words_aux (v @ w) s"
  by (induction w arbitrary: v) auto

lemma words_join: "list_all clean_word ws \<Longrightarrow> words (join [32] ws) = ws"
proof (induction ws)
  case Nil
  then show ?case by (simp add: words_def)
next
  case (Cons w ws)
  then have w: "list_all (\<lambda>c. \<not> is_ws c) w" "w \<noteq> []" by (auto simp: clean_word_def list_all_iff)
  show ?case
  proof (cases ws)
    case Nil
    with w show ?thesis using words_aux_append [of w "[]" "[]"] by (simp add: words_def)
  next
    case (Cons v vs)
    then have "words (join [32] (w # ws)) = words_aux [] (w @ 32 # join [32] ws)" by (simp add: words_def)
    also have "\<dots> = w # words (join [32] ws)" using w by (simp add: words_aux_append words_def)
    finally show ?thesis using Cons.IH Cons.prems Cons by simp
  qed
qed

lemma cleaned_words:
  "list_all clean_word (filter (\<lambda>w. w \<noteq> []) (map (filter (\<lambda>c. \<not> is_stripped c)) (words s)))"
  using words_no_ws [of s] by (auto simp: list_all_iff clean_word_def)

lemma trim_end_word: "s \<noteq> [] \<Longrightarrow> \<not> is_ws (last s) \<Longrightarrow> text_trim_end s = s"
  by (cases s rule: rev_cases) (auto simp: text_trim_end_def)

lemma trim_end_append: "text_trim_end t \<noteq> [] \<Longrightarrow> text_trim_end (s @ t) = s @ text_trim_end t"
proof -
  assume ne: "text_trim_end t \<noteq> []"
  have "dropWhile is_ws (rev t @ rev s) = dropWhile is_ws (rev t) @ rev s"
    using ne by (auto simp: text_trim_end_def dropWhile_append)
  then show ?thesis by (simp add: text_trim_end_def)
qed

lemma trim_end_append_blank: "text_trim_end t = [] \<Longrightarrow> text_trim_end (s @ t) = text_trim_end s"
  by (simp add: text_trim_end_def dropWhile_append)

lemma tidy_take: "list_all clean_word ws \<Longrightarrow> tidy (text_trim_end (take n (join [32] ws)))"
proof (induction ws arbitrary: n)
  case Nil
  then show ?case by (auto simp: tidy_def text_trim_end_def intro!: exI [of _ "[]"])
next
  case (Cons w ws)
  have w: "clean_word w" using Cons.prems by simp
  have short: "tidy (text_trim_end (take n w))" for n
  proof (cases "take n w = []")
    case True
    then show ?thesis by (auto simp: tidy_def text_trim_end_def intro!: exI [of _ "[]"])
  next
    case False
    have "\<not> is_ws c \<and> \<not> is_stripped c" if "c \<in> set (take n w)" for c
      using w in_set_takeD [OF that] by (simp add: clean_word_def list_all_iff)
    then have c: "clean_word (take n w)" using False unfolding clean_word_def list_all_iff by blast
    then have "\<not> is_ws (last (take n w))" using last_in_set [OF False] by (simp add: clean_word_def list_all_iff)
    with False have "text_trim_end (take n w) = take n w" by (intro trim_end_word)
    with c show ?thesis by (auto simp: tidy_def intro!: exI [of _ "[take n w]"])
  qed
  show ?case
  proof (cases ws)
    case Nil
    with short show ?thesis by simp
  next
    case (Cons v vs)
    then have j: "join [32] (w # ws) = w @ 32 # join [32] ws" by simp
    show ?thesis
    proof (cases "n \<le> length w")
      case True
      with short show ?thesis by (simp add: j)
    next
      case False
      define m where "m = n - length w - 1"
      have t: "take n (join [32] (w # ws)) = w @ 32 # take m (join [32] ws)"
        using False unfolding j by (cases "n - length w") (simp_all add: m_def)
      have IH: "tidy (text_trim_end (take m (join [32] ws)))" using Cons.IH Cons.prems by simp
      show ?thesis
      proof (cases "text_trim_end (take m (join [32] ws)) = []")
        case True
        have "text_trim_end (w @ [32] @ take m (join [32] ws)) = text_trim_end (w @ [32])"
          using trim_end_append_blank [OF True, of "w @ [32]"] by simp
        also have "\<dots> = text_trim_end w" by (rule trim_end_append_blank) (simp add: text_trim_end_def)
        finally show ?thesis using short [of "length w"] t by simp
      next
        case False
        obtain us where us: "list_all clean_word us" "text_trim_end (take m (join [32] ws)) = join [32] us"
          using IH by (auto simp: tidy_def)
        have "us \<noteq> []" using False us(2) by auto
        then have "join [32] (w # us) = w @ 32 # join [32] us" by (cases us) auto
        moreover have "text_trim_end (take n (join [32] (w # ws))) = w @ 32 # join [32] us"
          using trim_end_append [OF False, of "w @ [32]"] us(2) by (simp add: t)
        ultimately show ?thesis using us(1) w by (auto simp: tidy_def intro!: exI [of _ "w # us"])
      qed
    qed
  qed
qed

lemma length_trim_end: "length (text_trim_end s) \<le> length s"
  by (simp add: text_trim_end_def) (metis length_dropWhile_le length_rev)

lemma last_join: "list_all clean_word ws \<Longrightarrow> ws \<noteq> [] \<Longrightarrow> join [32] ws \<noteq> [] \<and> \<not> is_ws (last (join [32] ws))"
proof (induction ws)
  case (Cons w ws)
  then show ?case by (cases ws) (auto simp: clean_word_def list_all_iff)
qed simp

lemma tidy_fixed:
  assumes "tidy s" "length s \<le> 128" "list_ex (\<lambda>c. \<not> is_inkless c) s"
  shows "normalize_name s = Some s"
proof -
  obtain ws where ws: "list_all clean_word ws" "s = join [32] ws" using assms(1) by (auto simp: tidy_def)
  have "map (filter (\<lambda>c. \<not> is_stripped c)) ws = ws"
    using ws(1) by (intro map_idI) (auto simp: list_all_iff clean_word_def filter_id_conv)
  moreover have "filter (\<lambda>w. w \<noteq> []) ws = ws" using ws(1) by (auto simp: list_all_iff clean_word_def filter_id_conv)
  ultimately have "join [32] (filter (\<lambda>w. w \<noteq> []) (map (filter (\<lambda>c. \<not> is_stripped c)) (words s))) = s"
    using words_join [OF ws(1)] ws(2) by simp
  moreover have "text_trim_end s = s"
  proof (cases "ws = []")
    case True
    then show ?thesis by (simp add: ws(2) text_trim_end_def)
  next
    case False
    with last_join [OF ws(1)] show ?thesis by (simp add: ws(2) trim_end_word)
  qed
  ultimately show ?thesis using assms(2,3) by (simp add: normalize_name_def NAME_MAX_CHARS_def)
qed

lemma tidy_chars: "tidy s \<Longrightarrow> c \<in> set s \<Longrightarrow> \<not> is_stripped c \<and> (is_ws c \<longrightarrow> c = 32)"
proof -
  assume t: "tidy s" and c: "c \<in> set s"
  obtain ws where ws: "list_all clean_word ws" "s = join [32] ws" using t by (auto simp: tidy_def)
  have "c = 32 \<or> (\<exists>w \<in> set ws. c \<in> set w)" if "c \<in> set (join [32] ws)" for ws
    using that by (induction "[32 :: nat]" ws rule: join.induct) auto
  then have "c = 32 \<or> (\<exists>w \<in> set ws. c \<in> set w)" using c ws(2) by blast
  moreover have "\<not> is_stripped c \<and> \<not> is_ws c" if "w \<in> set ws" "c \<in> set w" for w
    using ws(1) that by (simp add: list_all_iff clean_word_def)
  ultimately show ?thesis by auto
qed

section \<open>Properties\<close>

text \<open>What a name is stored as: at most 128 characters, in words one space apart with
  nothing before or after them, none of the control, bidirectional, zero-width or quoting
  characters that could forge or reorder the operator's board, and something that puts ink on
  the page; and a stored name is its own normal form.\<close>

theorem stored_name_is_tidy:
  assumes "normalize_name name = Some n"
  shows "tidy n \<and> length n \<le> 128 \<and> (\<forall>c \<in> set n. \<not> is_stripped c \<and> (is_ws c \<longrightarrow> c = 0x20))
    \<and> (\<exists>c \<in> set n. \<not> is_inkless c) \<and> normalize_name n = Some n"
proof -
  let ?j = "join [32] (filter (\<lambda>w. w \<noteq> []) (map (filter (\<lambda>c. \<not> is_stripped c)) (words name)))"
  have n: "n = text_trim_end (take 128 ?j)" "list_ex (\<lambda>c. \<not> is_inkless c) n"
    using assms by (auto simp: normalize_name_def Let_def NAME_MAX_CHARS_def split: if_splits)
  have t: "tidy n" unfolding n(1) by (rule tidy_take [OF cleaned_words])
  have "length n \<le> 128" unfolding n(1) using length_trim_end [of "take 128 ?j"] by simp
  with tidy_fixed [OF t _ n(2)] tidy_chars [OF t] t n(2) show ?thesis by (auto simp: list_ex_iff)
qed

theorem stored_name_is_tidy_witness:
  "normalize_name [0x20, 0x41, 0x200b, 0x09, 0x09, 0x202e, 0x42, 0x0d] = Some [0x41, 0x20, 0x42]
    \<and> normalize_name [0x41, 0x20, 0x42] = Some [0x41, 0x20, 0x42]"
proof -
  have "normalize_name [0x20, 0x41, 0x200b, 0x09, 0x09, 0x202e, 0x42, 0x0d] = Some [0x41, 0x20, 0x42]"
    by (simp add: normalize_name_def words_def is_ws_def is_stripped_def is_control_def is_inkless_def
        NAME_MAX_CHARS_def text_trim_end_def)
  with stored_name_is_tidy [OF this] show ?thesis by blast
qed

lemma length_hex_lower: "length (hex_lower bs) = 2 * length bs"
  by (induction bs) (auto simp: hex_lower_def)

lemma nth_hex_lower:
  "k < length bs \<Longrightarrow> hex_lower bs ! (2 * k) = ''0123456789abcdef'' ! unat (drop_bit 4 (bs ! k))"
proof (induction bs arbitrary: k)
  case (Cons b bs)
  then show ?case by (cases k) (auto simp: hex_lower_def)
qed simp

lemma set_hex_lower: "c \<in> set (hex_lower bs) \<Longrightarrow> c \<in> set ''0123456789abcdef''"
proof -
  assume "c \<in> set (hex_lower bs)"
  then obtain b where "b \<in> set bs" "c = ''0123456789abcdef'' ! unat (drop_bit 4 b) \<or> c = ''0123456789abcdef'' ! unat (b AND 15)"
    by (auto simp: hex_lower_def)
  then show ?thesis
    using nth_mem [of "unat (drop_bit 4 b)" "''0123456789abcdef''"] nth_mem [of "unat (b AND 15)" "''0123456789abcdef''"]
      hex_index [of b] by auto
qed

lemma version_nibble: "drop_bit 4 (((b :: 8 word) AND 0x0f) OR 0x40) = 4"
  by (simp add: drop_bit_and drop_bit_or)

lemma variant_nibble: "unat (drop_bit 4 (((b :: 8 word) AND 0x3f) OR 0x80)) \<in> {8, 9, 10, 11}"
proof -
  define x where "x = drop_bit 4 b AND 3"
  have "drop_bit 4 ((b AND 0x3f) OR 0x80) = x OR 8" by (simp add: drop_bit_and drop_bit_or x_def)
  moreover have "x \<le> 3" unfolding x_def by (rule word_and_le1)
  then have "unat x \<le> 3" by (simp add: word_le_nat_alt)
  then have "unat x \<in> {0, 1, 2, 3}" by auto
  then have "x \<in> {0, 1, 2, 3}" by (auto simp: word_unat_eq_iff)
  ultimately show ?thesis by auto
qed

text \<open>The shape of a version-4 UUID in lower case.\<close>

definition uuid_v4 :: "string \<Rightarrow> bool" where
  "uuid_v4 s \<longleftrightarrow> length s = 36
     \<and> (\<forall>k < 36. if k \<in> {8, 13, 18, 23} then s ! k = CHR ''-'' else s ! k \<in> set ''0123456789abcdef'')
     \<and> s ! 14 = CHR ''4'' \<and> s ! 19 \<in> {CHR ''8'', CHR ''9'', CHR ''a'', CHR ''b''}"

lemma dashed_nth:
  assumes "length h = 32"
  shows "(take 8 h @ ''-'' @ take 4 (drop 8 h) @ ''-'' @ take 4 (drop 12 h) @ ''-'' @ take 4 (drop 16 h) @ ''-'' @ take 12 (drop 20 h)) ! k
    = (if k < 8 then h ! k else if k = 8 then CHR ''-'' else if k < 13 then h ! (k - 1) else if k = 13 then CHR ''-''
       else if k < 18 then h ! (k - 2) else if k = 18 then CHR ''-'' else if k < 23 then h ! (k - 3)
       else if k = 23 then CHR ''-'' else (take 12 (drop 20 h)) ! (k - 24))"
proof -
  have [simp]: "k < 13 \<Longrightarrow> 8 < k \<Longrightarrow> 8 + (k - 9) = k - 1" "k < 18 \<Longrightarrow> 13 < k \<Longrightarrow> 12 + (k - 14) = k - 2"
    "k < 23 \<Longrightarrow> 18 < k \<Longrightarrow> 16 + (k - 19) = k - 3" by arith+
  show ?thesis using assms
    by (simp add: nth_append nth_Cons') (auto simp: not_less le_Suc_eq)
qed

text \<open>An analytics id has the shape the client checks before it adopts one: for every draw of
  sixteen bytes it is 36 characters, lower-case hexadecimal but for dashes in the four UUID
  places, with version digit 4 and a variant digit of 8, 9, a or b.\<close>

theorem analytics_id_is_uuid_v4:
  assumes "length bytes = 16"
  shows "\<exists>s. mint_analytics_id (Some bytes) = Some s \<and> uuid_v4 s"
proof -
  define bs where "bs = bytes[6 := (bytes ! 6 AND 0x0f) OR 0x40, 8 := (bytes[6 := (bytes ! 6 AND 0x0f) OR 0x40] ! 8 AND 0x3f) OR 0x80]"
  define h where "h = hex_lower bs"
  let ?s = "take 8 h @ ''-'' @ take 4 (drop 8 h) @ ''-'' @ take 4 (drop 12 h) @ ''-'' @ take 4 (drop 16 h) @ ''-'' @ take 12 (drop 20 h)"
  have len: "length bs = 16" using assms by (simp add: bs_def)
  then have h: "length h = 32" by (simp add: h_def length_hex_lower)
  have hex: "h ! k \<in> set ''0123456789abcdef''" if "k < 32" for k
    using set_hex_lower [of "h ! k" bs] that h by (simp add: h_def)
  have "bs ! 6 = (bytes ! 6 AND 0x0f) OR 0x40" "bs ! 8 = (bytes ! 8 AND 0x3f) OR 0x80"
    using assms by (simp_all add: bs_def)
  then have "h ! 12 = ''0123456789abcdef'' ! 4" "\<exists>n \<in> {8, 9, 10, 11}. h ! 16 = ''0123456789abcdef'' ! n"
    using nth_hex_lower [of 6 bs] nth_hex_lower [of 8 bs] len version_nibble [of "bytes ! 6"] variant_nibble [of "bytes ! 8"]
    by (auto simp: h_def)
  then have "h ! 12 = CHR ''4''" "h ! 16 \<in> {CHR ''8'', CHR ''9'', CHR ''a'', CHR ''b''}" by auto
  moreover have "length ?s = 36" using h by simp
  ultimately have "uuid_v4 ?s"
    unfolding uuid_v4_def dashed_nth [OF h] using hex h by (auto simp del: list.set)
  moreover have "mint_analytics_id (Some bytes) = Some ?s"
    by (simp add: mint_analytics_id_def Let_def h_def bs_def)
  ultimately show ?thesis by blast
qed

theorem analytics_id_is_uuid_v4_witness:
  "\<exists>s. mint_analytics_id (Some (replicate 16 255)) = Some s \<and> uuid_v4 s"
  by (rule analytics_id_is_uuid_v4) simp

end
