(* ===== verification/Control_Users.thy ===== *)
theory Control_Users
  imports Control_Tenants Control_Names
begin

text \<open>
  The funnel of the control plane (\<open>squelch-control/src/store.rs\<close>): one row a person, from
  waiting to invited to signed up to paired, over the tenant and invite tables.

  An \<open>analytics_id\<close> is minted from the entropy argument before the statement that may need it
  runs. \<open>record_signup\<close> is two statements; when the first changes a row the second does not
  run, and when it does not it changed nothing, so it is one step here. Rows that an
  \<open>ORDER BY\<close> leaves tied come back in the order of their ids.
\<close>

definition USER_PENDING :: string where
  "USER_PENDING = ''pending''"

definition USER_APPROVED :: string where
  "USER_APPROVED = ''approved''"

definition USER_APPROVED_LIMIT :: nat where
  "USER_APPROVED_LIMIT = 50"

definition USER_PENDING_LIMIT :: nat where
  "USER_PENDING_LIMIT = 500"

definition FIRST_PAIR_WINDOW_DAYS :: int where
  "FIRST_PAIR_WINDOW_DAYS = 90"

record user =
  user_id :: int
  email :: string
  user_name :: "utext option"
  user_created :: stamp
  user_status :: string
  approved_at :: "stamp option"
  user_invite :: "int option"
  notified_at :: "stamp option"
  signed_up_at :: "stamp option"
  user_account :: "string option"
  tenant_label :: "string option"
  first_paired_at :: "stamp option"
  analytics_id :: string

record control_db = tenant_db +
  users :: "user list"
  next_user :: int

text \<open>What the admin page is given: no analytics id.\<close>

record user_row =
  ur_id :: int
  ur_email :: string
  ur_name :: "utext option"
  ur_created :: instant
  ur_status :: string
  ur_approved :: "instant option"
  ur_invite :: "int option"
  ur_notified :: "instant option"
  ur_signed_up :: "instant option"
  ur_label :: "string option"
  ur_account :: "string option"
  ur_paired :: "instant option"

record signup_record =
  signup_user :: int
  signup_analytics :: string

record waitlist_row =
  wl_email :: string
  wl_created :: stamp
  wl_status :: string
  wl_approved :: "stamp option"
  wl_invite :: "int option"
  wl_notified :: "stamp option"

definition blank_user :: "int \<Rightarrow> string \<Rightarrow> stamp \<Rightarrow> string \<Rightarrow> string \<Rightarrow> user" where
  "blank_user i e created st aid = \<lparr>user_id = i, email = e, user_name = None, user_created = created,
     user_status = st, approved_at = None, user_invite = None, notified_at = None, signed_up_at = None,
     user_account = None, tenant_label = None, first_paired_at = None, analytics_id = aid\<rparr>"

text \<open>The insert arm of every statement on \<open>users\<close>, once no row has the address: the sequence
  is drawn, and the unique index on the analytics id may still refuse the row.\<close>

definition insert_user :: "user \<Rightarrow> control_db \<Rightarrow> store_error + control_db" where
  "insert_user u s =
     (if list_ex (\<lambda>v. analytics_id v = analytics_id u) (users s) then Inl Pg
      else Inr (s\<lparr>users := users s @ [u], next_user := next_user s + 1\<rparr>))"

definition by_email :: "string \<Rightarrow> user \<Rightarrow> bool" where
  "by_email e u \<longleftrightarrow> email u = e"

definition bump :: "control_db \<Rightarrow> control_db" where
  "bump s = s\<lparr>next_user := next_user s + 1\<rparr>"

definition add_user_waiting ::
    "string \<Rightarrow> utext option \<Rightarrow> 8 word list option \<Rightarrow> instant \<Rightarrow> control_db
       \<Rightarrow> (store_error + bool) \<times> control_db" where
  "add_user_waiting addr nm entropy now s =
     (case mint_analytics_id entropy of None \<Rightarrow> (Inl Entropy, s) | Some aid \<Rightarrow>
        let e = normalize_email addr in
        if list_ex (by_email e) (users s) then (Inr False, bump s)
        else case insert_user ((blank_user (next_user s) e (stamp now) USER_PENDING aid)
                  \<lparr>user_name := Option.bind nm normalize_name\<rparr>) s of
            Inl err \<Rightarrow> (Inl err, bump s)
          | Inr s' \<Rightarrow> (Inr True, s'))"

definition invite_directly ::
    "string \<Rightarrow> 8 word list option \<Rightarrow> instant \<Rightarrow> control_db \<Rightarrow> (store_error + int option) \<times> control_db" where
  "invite_directly addr entropy now s =
     (case mint_analytics_id entropy of None \<Rightarrow> (Inl Entropy, s) | Some aid \<Rightarrow>
        let e = normalize_email addr in
        case find (by_email e) (users s) of
          Some u \<Rightarrow>
            (if user_status u = USER_PENDING
             then (Inr (Some (user_id u)),
                   (bump s)\<lparr>users := update_where (by_email e)
                      (\<lambda>u. u\<lparr>user_status := USER_APPROVED, approved_at := Some (stamp now)\<rparr>) (users s)\<rparr>)
             else (Inr None, bump s))
        | None \<Rightarrow>
            (case insert_user ((blank_user (next_user s) e (stamp now) USER_APPROVED aid)
                 \<lparr>approved_at := Some (stamp now)\<rparr>) s of
               Inl err \<Rightarrow> (Inl err, bump s)
             | Inr s' \<Rightarrow> (Inr (Some (next_user s)), s')))"

definition coalesce :: "'a option \<Rightarrow> 'a option \<Rightarrow> 'a option" where
  "coalesce a b = (case a of None \<Rightarrow> b | Some _ \<Rightarrow> a)"

text \<open>\<open>LEFT JOIN invite_codes i ON i.id = u.invite_id\<close>, at most one row as ids are unique.\<close>

definition joined_invite :: "control_db \<Rightarrow> user \<Rightarrow> invite_code option" where
  "joined_invite s u = (case user_invite u of None \<Rightarrow> None
     | Some i \<Rightarrow> find (\<lambda>r. invite_id r = i) (invite_codes s))"

definition to_user_row :: "control_db \<Rightarrow> user \<Rightarrow> user_row" where
  "to_user_row s u = (let i = joined_invite s u in
     \<lparr>ur_id = user_id u, ur_email = email u, ur_name = user_name u, ur_created = parse_ts (user_created u),
      ur_status = user_status u, ur_approved = map_option parse_ts (approved_at u), ur_invite = user_invite u,
      ur_notified = map_option parse_ts (notified_at u),
      ur_signed_up = map_option parse_ts (coalesce (signed_up_at u) (Option.bind i used_at)),
      ur_label = coalesce (tenant_label u) (Option.bind i used_by_label),
      ur_account = user_account u, ur_paired = map_option parse_ts (first_paired_at u)\<rparr>)"

definition list_users :: "control_db \<Rightarrow> user_row list" where
  "list_users s =
     (let by_id = sort_key user_id (users s) in
      map (to_user_row s) (take USER_PENDING_LIMIT (filter (\<lambda>u. user_status u = USER_PENDING) by_id))
      @ map (to_user_row s) (take USER_APPROVED_LIMIT (rev (filter (\<lambda>u. user_status u \<noteq> USER_PENDING) by_id))))"

definition user_entry :: "int \<Rightarrow> control_db \<Rightarrow> user_row option" where
  "user_entry i s = map_option (to_user_row s) (find (\<lambda>u. user_id u = i) (users s))"

definition update_user :: "(user \<Rightarrow> bool) \<Rightarrow> (user \<Rightarrow> user) \<Rightarrow> control_db \<Rightarrow> bool \<times> control_db" where
  "update_user p f s = (count_where p (users s) = 1, s\<lparr>users := update_where p f (users s)\<rparr>)"

definition approve_user :: "int \<Rightarrow> instant \<Rightarrow> control_db \<Rightarrow> bool \<times> control_db" where
  "approve_user i now s = update_user (\<lambda>u. user_id u = i \<and> user_status u = USER_PENDING)
     (\<lambda>u. u\<lparr>user_status := USER_APPROVED, approved_at := Some (stamp now)\<rparr>) s"

definition set_user_invite :: "int \<Rightarrow> int \<Rightarrow> int option \<Rightarrow> control_db \<Rightarrow> bool \<times> control_db" where
  "set_user_invite i ic expected_prior s = update_user (\<lambda>u. user_id u = i \<and> user_invite u = expected_prior)
     (\<lambda>u. u\<lparr>user_invite := Some ic, notified_at := None\<rparr>) s"

definition mark_user_notified :: "int \<Rightarrow> int \<Rightarrow> instant \<Rightarrow> control_db \<Rightarrow> bool \<times> control_db" where
  "mark_user_notified i ic now s = update_user (\<lambda>u. user_id u = i \<and> user_invite u = Some ic)
     (\<lambda>u. u\<lparr>notified_at := Some (stamp now)\<rparr>) s"

definition record_signup ::
    "int \<Rightarrow> string \<Rightarrow> string \<Rightarrow> 8 word list option \<Rightarrow> instant \<Rightarrow> control_db
       \<Rightarrow> (store_error + signup_record) \<times> control_db" where
  "record_signup ic addr lbl entropy now s =
     (let e = normalize_email addr; at = stamp now;
          named = (\<lambda>u. user_invite u = Some ic) in
      case find named (users s) of
        Some u \<Rightarrow>
          (Inr \<lparr>signup_user = user_id u, signup_analytics = analytics_id u\<rparr>,
           s\<lparr>users := update_where named
              (\<lambda>u. u\<lparr>signed_up_at := Some at, user_account := Some e, tenant_label := Some lbl,
                    user_status := USER_APPROVED, approved_at := coalesce (approved_at u) (Some at)\<rparr>) (users s)\<rparr>)
      | None \<Rightarrow>
        (case mint_analytics_id entropy of None \<Rightarrow> (Inl Entropy, s) | Some aid \<Rightarrow>
          case find (by_email e) (users s) of
            Some u \<Rightarrow>
              (Inr \<lparr>signup_user = user_id u, signup_analytics = analytics_id u\<rparr>,
               (bump s)\<lparr>users := update_where (by_email e)
                  (\<lambda>u. u\<lparr>user_status := USER_APPROVED, signed_up_at := Some at, user_account := Some e,
                        tenant_label := Some lbl\<rparr>) (users s)\<rparr>)
          | None \<Rightarrow>
              (case insert_user ((blank_user (next_user s) e at USER_APPROVED aid)
                   \<lparr>signed_up_at := Some at, user_account := Some e, tenant_label := Some lbl\<rparr>) s of
                 Inl err \<Rightarrow> (Inl err, bump s)
               | Inr s' \<Rightarrow> (Inr \<lparr>signup_user = next_user s, signup_analytics = aid\<rparr>, s'))))"

definition mark_user_first_paired :: "string \<Rightarrow> instant \<Rightarrow> control_db \<Rightarrow> bool \<times> control_db" where
  "mark_user_first_paired lbl ts s = update_user (\<lambda>u. tenant_label u = Some lbl \<and> first_paired_at u = None)
     (\<lambda>u. u\<lparr>first_paired_at := Some (stamp ts)\<rparr>) s"

definition analytics_id_for_label :: "string \<Rightarrow> control_db \<Rightarrow> string option" where
  "analytics_id_for_label lbl s =
     map_option analytics_id (find (\<lambda>u. tenant_label u = Some lbl) (sort_key user_id (users s)))"

definition users_awaiting_first_pair :: "nat \<Rightarrow> instant \<Rightarrow> control_db \<Rightarrow> string list" where
  "users_awaiting_first_pair limit now s =
     (let cutoff = stamp (now - days FIRST_PAIR_WINDOW_DAYS);
          waits = (\<lambda>u. first_paired_at u = None \<and> (case signed_up_at u of None \<Rightarrow> False | Some at \<Rightarrow> cutoff < at)
             \<and> list_ex (\<lambda>t. tenant_label u = Some (label t) \<and> status t = STATUS_ACTIVE) (tenants s)) in
      take limit (map (\<lambda>u. the (tenant_label u)) (sort_key (\<lambda>u. the (signed_up_at u)) (filter waits (users s)))))"

section \<open>Bringing an older database forward\<close>

fun sweep_rows :: "waitlist_row list \<Rightarrow> 8 word list option list \<Rightarrow> control_db \<Rightarrow> store_error + control_db" where
  "sweep_rows [] draws s = Inr s"
| "sweep_rows (w # ws) draws s =
     (case mint_analytics_id (case draws of [] \<Rightarrow> None | d # _ \<Rightarrow> d) of None \<Rightarrow> Inl Entropy | Some aid \<Rightarrow>
        let e = normalize_email (wl_email w) in
        if list_ex (by_email e) (users s) then sweep_rows ws (tl draws) (bump s)
        else case insert_user ((blank_user (next_user s) e (wl_created w) (wl_status w) aid)
               \<lparr>approved_at := wl_approved w, user_invite := wl_invite w, notified_at := wl_notified w\<rparr>) s of
            Inl err \<Rightarrow> Inl err
          | Inr s' \<Rightarrow> sweep_rows ws (tl draws) s')"

text \<open>The \<open>waitlist\<close> table, \<open>None\<close> where it is not there, is dropped in the end.\<close>

definition sweep_waitlist ::
    "waitlist_row list option \<Rightarrow> 8 word list option list \<Rightarrow> control_db \<Rightarrow> store_error + control_db" where
  "sweep_waitlist wl draws s = (case wl of None \<Rightarrow> Inr s | Some ws \<Rightarrow> sweep_rows ws draws s)"

definition repair_from_invite :: "control_db \<Rightarrow> user \<Rightarrow> user" where
  "repair_from_invite s u = (case joined_invite s u of None \<Rightarrow> u | Some i \<Rightarrow>
     if signed_up_at u = None \<and> used_at i \<noteq> None
     then u\<lparr>signed_up_at := used_at i, tenant_label := used_by_label i\<rparr> else u)"

definition repair_from_tenant :: "control_db \<Rightarrow> user \<Rightarrow> user" where
  "repair_from_tenant s u = (case find (\<lambda>t. Some (label t) = tenant_label u) (tenants s) of None \<Rightarrow> u | Some t \<Rightarrow>
     if user_account u = None then u\<lparr>user_account := Some (account_email t)\<rparr> else u)"

definition repair_signups :: "control_db \<Rightarrow> control_db" where
  "repair_signups s =
     (let s = s\<lparr>users := map (repair_from_invite s) (users s)\<rparr> in
      s\<lparr>users := map (repair_from_tenant s) (users s)\<rparr>)"

fun adopt_rows :: "tenant list \<Rightarrow> 8 word list option list \<Rightarrow> control_db \<Rightarrow> store_error + control_db" where
  "adopt_rows [] draws s = Inr s"
| "adopt_rows (t # ts) draws s =
     (case mint_analytics_id (case draws of [] \<Rightarrow> None | d # _ \<Rightarrow> d) of None \<Rightarrow> Inl Entropy | Some aid \<Rightarrow>
        let e = normalize_email (account_email t) in
        if list_ex (by_email e) (users s) then
          adopt_rows ts (tl draws) ((bump s)\<lparr>users := update_where (by_email e)
             (\<lambda>u. u\<lparr>user_status := USER_APPROVED,
                   signed_up_at := coalesce (signed_up_at u) (Some (tenant_created t)),
                   user_account := coalesce (user_account u) (Some e),
                   tenant_label := coalesce (tenant_label u) (Some (label t))\<rparr>) (users s)\<rparr>)
        else case insert_user ((blank_user (next_user s) e (tenant_created t) USER_APPROVED aid)
               \<lparr>signed_up_at := Some (tenant_created t), user_account := Some e, tenant_label := Some (label t)\<rparr>) s of
            Inl err \<Rightarrow> Inl err
          | Inr s' \<Rightarrow> adopt_rows ts (tl draws) s')"

definition adopt_cli_tenants :: "8 word list option list \<Rightarrow> control_db \<Rightarrow> store_error + control_db" where
  "adopt_cli_tenants draws s =
     adopt_rows (sort_key tenant_id (filter (\<lambda>t. \<not> list_ex (\<lambda>u. tenant_label u = Some (label t)) (users s)) (tenants s)))
       draws s"

definition backfill_users ::
    "waitlist_row list option \<Rightarrow> 8 word list option list \<Rightarrow> 8 word list option list \<Rightarrow> control_db
       \<Rightarrow> store_error + control_db" where
  "backfill_users wl draws draws' s =
     (case sweep_waitlist wl draws s of Inl e \<Rightarrow> Inl e | Inr s \<Rightarrow> adopt_cli_tenants draws' (repair_signups s))"

text \<open>The data half of \<open>migrate\<close>; one transaction, so an error leaves the database as it was.\<close>

definition migrate ::
    "waitlist_row list option \<Rightarrow> 8 word list option list \<Rightarrow> 8 word list option list \<Rightarrow> control_db
       \<Rightarrow> store_error + control_db" where
  "migrate wl draws draws' s = backfill_users wl draws draws' (backfill_expiry s)"

section \<open>The funnel as a machine\<close>

datatype user_op =
    Join string "utext option" "8 word list option" instant
  | InviteDirectly string "8 word list option" instant
  | Approve int instant
  | SetInvite int int "int option"
  | Notified int int instant
  | SignUp int string string "8 word list option" instant
  | FirstPaired string instant
  | OnTenants tenant_op

datatype user_out =
    Joined "store_error + bool"
  | Invited "store_error + int option"
  | Did bool
  | SignedUp "store_error + signup_record"
  | FromTenants tenant_out

fun user_step :: "user_op \<Rightarrow> control_db \<Rightarrow> user_out \<times> control_db" where
  "user_step (Join e nm d now) s = map_prod Joined id (add_user_waiting e nm d now s)"
| "user_step (InviteDirectly e d now) s = map_prod Invited id (invite_directly e d now s)"
| "user_step (Approve i now) s = map_prod Did id (approve_user i now s)"
| "user_step (SetInvite i ic p) s = map_prod Did id (set_user_invite i ic p s)"
| "user_step (Notified i ic now) s = map_prod Did id (mark_user_notified i ic now s)"
| "user_step (SignUp ic e l d now) s = map_prod SignedUp id (record_signup ic e l d now s)"
| "user_step (FirstPaired l ts) s = map_prod Did id (mark_user_first_paired l ts s)"
| "user_step (OnTenants x) s = map_prod FromTenants id (tenant_step x s)"
interpretation people: id_table user_id "\<lambda>i u. u\<lparr>user_id := i\<rparr>"
  by unfold_locales simp

definition users_inv :: "control_db \<Rightarrow> bool" where
  "users_inv s \<longleftrightarrow> people.wf (next_user s) (users s)
     \<and> distinct (map email (users s)) \<and> distinct (map analytics_id (users s))"

section \<open>Lemmas\<close>

text \<open>What a statement may do to the people it knows: leave the table alone, update rows
  without touching who they are, or add one row for an address it did not know.\<close>

definition same_person :: "user \<Rightarrow> user \<Rightarrow> bool" where
  "same_person u v \<longleftrightarrow> user_id v = user_id u \<and> email v = email u \<and> analytics_id v = analytics_id u
     \<and> user_name v = user_name u \<and> user_created v = user_created u"

definition moves_on :: "user \<Rightarrow> user \<Rightarrow> bool" where
  "moves_on u v \<longleftrightarrow> same_person u v \<and> (user_status v = user_status u \<or> user_status v = USER_APPROVED)
     \<and> (signed_up_at u \<noteq> None \<longrightarrow> signed_up_at v \<noteq> None)
     \<and> (first_paired_at u \<noteq> None \<longrightarrow> first_paired_at v = first_paired_at u)"

lemma moves_on_refl [simp]: "moves_on u u"
  by (simp add: moves_on_def same_person_def)

lemma moves_on_trans: "moves_on u v \<Longrightarrow> moves_on v w \<Longrightarrow> moves_on u w"
  by (auto simp: moves_on_def same_person_def)

inductive changes :: "control_db \<Rightarrow> control_db \<Rightarrow> bool" where
  same: "users s' = users s \<Longrightarrow> next_user s \<le> next_user s' \<Longrightarrow> changes s s'"
| moved: "users s' = map g (users s) \<Longrightarrow> (\<And>u. moves_on u (g u))
     \<Longrightarrow> next_user s \<le> next_user s' \<Longrightarrow> changes s s'"
| added: "users s' = users s @ [u] \<Longrightarrow> user_id u = next_user s \<Longrightarrow> next_user s' = next_user s + 1
     \<Longrightarrow> (\<And>v. v \<in> set (users s) \<Longrightarrow> email v \<noteq> email u \<and> analytics_id v \<noteq> analytics_id u) \<Longrightarrow> changes s s'"

inductive_cases changesE: "changes s s'"

lemma updated: "users s' = update_where p f (users s) \<Longrightarrow> (\<And>u. p u \<Longrightarrow> moves_on u (f u))
    \<Longrightarrow> next_user s \<le> next_user s' \<Longrightarrow> changes s s'"
  by (rule moved [where g = "\<lambda>u. if p u then f u else u"]) (simp_all add: update_where_def)

lemma bump_simps [simp]: "users (bump s) = users s" "next_user (bump s) = next_user s + 1"
  by (simp_all add: bump_def)

lemma blank_user_simps [simp]:
  "user_id (blank_user i e c st a) = i" "email (blank_user i e c st a) = e" "analytics_id (blank_user i e c st a) = a"
  "user_status (blank_user i e c st a) = st" "user_invite (blank_user i e c st a) = None"
  by (simp_all add: blank_user_def)

lemma insert_user_Inr:
  "insert_user u s = Inr s' \<longleftrightarrow> (\<forall>v \<in> set (users s). analytics_id v \<noteq> analytics_id u)
     \<and> s' = s\<lparr>users := users s @ [u], next_user := next_user s + 1\<rparr>"
  by (auto simp: insert_user_def list_ex_iff)

lemma insert_user_changes:
  assumes "insert_user u s = Inr s'" "user_id u = next_user s" "\<forall>v \<in> set (users s). email v \<noteq> email u"
  shows "changes s s'"
  using assms by (intro added [where u = u]) (auto simp: insert_user_Inr)

lemma update_user_changes:
  "(\<And>u. p u \<Longrightarrow> moves_on u (f u)) \<Longrightarrow> changes s (snd (update_user p f s))"
  by (rule updated [where p = p and f = f]) (simp_all add: update_user_def)

lemma add_user_waiting_changes: "changes s (snd (add_user_waiting a nm d now s))"
proof (cases "mint_analytics_id d")
  case (Some aid)
  then show ?thesis
    by (auto simp: add_user_waiting_def Let_def list_ex_iff by_email_def intro: same
        split: sum.split elim!: insert_user_changes)
qed (simp add: add_user_waiting_def same)

lemma find_by_email: "find (by_email e) us = None \<longleftrightarrow> (\<forall>v \<in> set us. email v \<noteq> e)"
  by (auto simp: find_None_iff by_email_def)

lemma invite_directly_changes: "changes s (snd (invite_directly a d now s))"
proof (cases "mint_analytics_id d")
  case (Some aid)
  let ?e = "normalize_email a"
  show ?thesis
  proof (cases "find (by_email ?e) (users s)")
    case None
    have fresh: "\<forall>v \<in> set (users s). email v \<noteq> ?e"
      using None by (simp only: find_by_email)
    show ?thesis
      by (simp add: invite_directly_def Let_def None Some split: sum.split)
        (auto intro: same elim!: insert_user_changes simp: fresh)
  next
    case u: (Some u)
    show ?thesis
    proof (cases "user_status u = USER_PENDING")
      case True
      with Some u show ?thesis
        by (auto simp: invite_directly_def Let_def moves_on_def same_person_def intro!: updated)
    qed (simp add: invite_directly_def Let_def Some u same)
  qed
qed (simp add: invite_directly_def same)

lemma record_signup_changes: "changes s (snd (record_signup ic a l d now s))"
proof (cases "find (\<lambda>u. user_invite u = Some ic) (users s)")
  case (Some u)
  then show ?thesis
    by (auto simp: record_signup_def Let_def moves_on_def same_person_def intro!: updated)
next
  case none: None
  show ?thesis
  proof (cases "mint_analytics_id d")
    case None
    with none show ?thesis by (simp add: record_signup_def same)
  next
    case (Some aid)
    show ?thesis
    proof (cases "find (by_email (normalize_email a)) (users s)")
      case None
      have fresh: "\<forall>v \<in> set (users s). email v \<noteq> normalize_email a"
        using None by (simp only: find_by_email)
      show ?thesis
        by (simp add: record_signup_def Let_def None none Some split: sum.split)
          (auto intro: same elim!: insert_user_changes simp: fresh)
    next
      case u: (Some u)
      with none Some show ?thesis
        by (auto simp: record_signup_def Let_def moves_on_def same_person_def intro!: updated)
    qed
  qed
qed

lemma tenant_step_users: "users (snd (tenant_step x s)) = users s" "next_user (snd (tenant_step x s)) = next_user s"
  for s :: control_db
proof -
  have "users (snd (step y s)) = users s \<and> next_user (snd (step y s)) = next_user s" for y
    by (cases y; simp add: insert_invite_def reserve_invite_def release_invite_def consume_invite_def
        revoke_invite_def revoke_unheld_invite_def Let_def)
  then have "users (snd (tenant_step x s)) = users s \<and> next_user (snd (tenant_step x s)) = next_user s"
  proof (cases x)
    case (MintShared t h e ws lim now)
    with mint_shared_invite_state [of t h e ws lim now s] show ?thesis by (auto simp: insert_invite_def Let_def)
  qed (auto simp: insert_tenant_def set_tenant_vk_def clear_tenant_vk_def set_tenant_assistant_vk_def
      clear_tenant_assistant_vk_def clear_tenant_share_token_def set_tenant_share_token_def update_tenant_def Let_def)
  then show "users (snd (tenant_step x s)) = users s" "next_user (snd (tenant_step x s)) = next_user s" by auto
qed

lemma user_step_changes: "changes s (snd (user_step x s))"
proof (cases x)
  case (OnTenants y)
  then show ?thesis by (simp add: tenant_step_users same)
qed (auto simp: add_user_waiting_changes invite_directly_changes record_signup_changes approve_user_def
    set_user_invite_def mark_user_notified_def mark_user_first_paired_def moves_on_def same_person_def
    intro!: update_user_changes)

lemma changes_inv:
  assumes "changes s s'" "users_inv s"
  shows "users_inv s'"
  using assms(1)
proof (rule changesE)
  assume "users s' = users s" "next_user s \<le> next_user s'"
  with assms(2) people.wf_weaken [of "next_user s" "users s"] show ?thesis by (simp add: users_inv_def)
next
  fix g assume u: "users s' = map g (users s)" "\<And>u. moves_on u (g u)" "next_user s \<le> next_user s'"
  have "map email (users s') = map email (users s)" "map analytics_id (users s') = map analytics_id (users s)"
    "map user_id (users s') = map user_id (users s)"
    using u(2) by (auto simp: u(1) moves_on_def same_person_def)
  moreover have "user_id v < next_user s'" if "v \<in> set (users s')" for v
  proof -
    have "user_id v \<in> user_id ` set (users s)" using that arg_cong [OF calculation(3), of set] by auto
    then show ?thesis using assms(2) u(3) by (fastforce simp: users_inv_def people.wf_def)
  qed
  ultimately show ?thesis using assms(2) by (simp add: users_inv_def people.wf_def)
next
  fix u assume u: "users s' = users s @ [u]" "user_id u = next_user s" "next_user s' = next_user s + 1"
    and new: "\<And>v. v \<in> set (users s) \<Longrightarrow> email v \<noteq> email u \<and> analytics_id v \<noteq> analytics_id u"
  have "people.wf (next_user s') (users s')"
    using assms(2) u by (force simp: users_inv_def people.wf_def)
  moreover have "email u \<notin> set (map email (users s))" "analytics_id u \<notin> set (map analytics_id (users s))"
    using new by fastforce+
  ultimately show ?thesis using assms(2) u by (simp add: users_inv_def)
qed

interpretation funnel: invariant_machine user_step users_inv
  by unfold_locales (rule changes_inv [OF user_step_changes])

lemma changes_moves: "changes s s' \<Longrightarrow> u \<in> set (users s) \<Longrightarrow> \<exists>v \<in> set (users s'). moves_on u v"
proof (erule changesE)
  fix g assume "users s' = map g (users s)" "\<And>u. moves_on u (g u)" "u \<in> set (users s)"
  then show ?thesis by (intro bexI [of _ "g u"]) auto
qed (auto intro: moves_on_refl)

definition empty_db :: control_db where
  "empty_db = \<lparr>invite_codes = [], next_invite = 1, tenants = [], next_tenant = 1, users = [], next_user = 1\<rparr>"

lemma inv_empty_db [simp]: "users_inv empty_db"
  by (simp add: users_inv_def empty_db_def)

section \<open>Properties\<close>

text \<open>Nobody on the funnel is lost, renamed or merged: whatever the operations, a person
  keeps their row id, their address, their name and above all their analytics id, and moves
  only forward: an approval is never undone, a signup never forgotten, and the date of the
  first pairing never moves once it is set.\<close>

theorem people_only_move_forward:
  assumes "u \<in> set (users s)"
  shows "\<exists>v \<in> set (users (final user_step xs s)).
     user_id v = user_id u \<and> email v = email u \<and> user_name v = user_name u \<and> analytics_id v = analytics_id u
     \<and> (user_status u = USER_APPROVED \<longrightarrow> user_status v = USER_APPROVED)
     \<and> (signed_up_at u \<noteq> None \<longrightarrow> signed_up_at v \<noteq> None)
     \<and> (first_paired_at u \<noteq> None \<longrightarrow> first_paired_at v = first_paired_at u)"
proof -
  have "\<exists>v \<in> set (users (final user_step xs s)). moves_on u v"
    using assms
  proof (induction xs arbitrary: s u)
    case Nil
    then show ?case by (auto intro: moves_on_refl)
  next
    case (Cons x xs)
    then obtain v where v: "v \<in> set (users (snd (user_step x s)))" "moves_on u v"
      using changes_moves [OF user_step_changes] by blast
    with Cons.IH [OF v(1)] show ?case using moves_on_trans by auto
  qed
  then show ?thesis by (fastforce simp: moves_on_def same_person_def)
qed


theorem people_only_move_forward_witness:
  "\<exists>v \<in> set (users (final user_step [Approve 1 5, SetInvite 1 7 None, SignUp 7 ''b'' ''lab'' None 8, FirstPaired ''lab'' 9]
       (empty_db\<lparr>users := [blank_user 1 ''a'' 0 USER_PENDING ''x''], next_user := 2\<rparr>))).
     user_id v = 1 \<and> email v = ''a'' \<and> user_name v = None \<and> analytics_id v = ''x''"
  using people_only_move_forward [of "blank_user 1 ''a'' 0 USER_PENDING ''x''"
      "empty_db\<lparr>users := [blank_user 1 ''a'' 0 USER_PENDING ''x''], next_user := 2\<rparr>"
      "[Approve 1 5, SetInvite 1 7 None, SignUp 7 ''b'' ''lab'' None 8, FirstPaired ''lab'' 9]"]
  by (auto simp: blank_user_def)

subsection \<open>Approval\<close>

text \<open>A row that is still pending, or an id still to be drawn, can be approved once more.\<close>

definition approvable :: "int \<Rightarrow> control_db \<Rightarrow> nat" where
  "approvable i s = (if next_user s \<le> i then 1 else 0)
     + count_where (\<lambda>u. user_id u = i \<and> user_status u = USER_PENDING) (users s)"

text \<open>The two answers that tell the operator's page to send a person their first code.\<close>

fun approves :: "int \<Rightarrow> user_op \<Rightarrow> user_out \<Rightarrow> bool" where
  "approves i (Approve j now) (Did b) \<longleftrightarrow> i = j \<and> b"
| "approves i (InviteDirectly e d now) (Invited (Inr (Some j))) \<longleftrightarrow> i = j"
| "approves i _ _ \<longleftrightarrow> False"

lemma approves_iff:
  "approves i x out \<longleftrightarrow> (\<exists>now. x = Approve i now \<and> out = Did True)
     \<or> (\<exists>e d now. x = InviteDirectly e d now \<and> out = Invited (Inr (Some i)))"
  by (cases "(i, x, out)" rule: approves.cases) auto

lemma pending_not_approved [simp]: "USER_PENDING \<noteq> USER_APPROVED" "USER_APPROVED \<noteq> USER_PENDING"
  by (simp_all add: USER_PENDING_def USER_APPROVED_def)

lemma approvable_changes:
  assumes "changes s s'" "users_inv s"
  shows "approvable i s' \<le> approvable i s"
  using assms(1)
proof (rule changesE)
  assume "users s' = users s" "next_user s \<le> next_user s'"
  then show ?thesis by (simp add: approvable_def)
next
  fix g assume g: "users s' = map g (users s)" "\<And>u. moves_on u (g u)" "next_user s \<le> next_user s'"
  have "user_id u = i \<and> user_status u = USER_PENDING" if "user_id (g u) = i \<and> user_status (g u) = USER_PENDING" for u
    using g(2) [of u] that by (auto simp: moves_on_def same_person_def)
  then have "count_where (\<lambda>u. user_id (g u) = i \<and> user_status (g u) = USER_PENDING) us
      \<le> count_where (\<lambda>u. user_id u = i \<and> user_status u = USER_PENDING) us" for us
    by (intro count_where_mono) blast
  then have "count_where (\<lambda>u. user_id u = i \<and> user_status u = USER_PENDING) (map g us)
      \<le> count_where (\<lambda>u. user_id u = i \<and> user_status u = USER_PENDING) us" for us
    by (simp add: count_where_def filter_map o_def)
  from this [of "users s"] g(1,3) show ?thesis by (simp add: approvable_def)
next
  fix u assume "users s' = users s @ [u]" "user_id u = next_user s" "next_user s' = next_user s + 1"
  then show ?thesis by (auto simp: approvable_def)
qed

text \<open>Approving the pending row \<open>i\<close> leaves no row of that id to approve.\<close>

lemma approvable_update:
  assumes "users_inv s" "u \<in> set (users s)" "user_id u = i" "user_status u = USER_PENDING" "p u"
    "users s' = update_where p f (users s)" "next_user s' \<ge> next_user s"
    "\<And>v. user_id (f v) = user_id v \<and> user_status (f v) = USER_APPROVED"
  shows "Suc (approvable i s') \<le> approvable i s"
proof -
  have "i < next_user s" "distinct (map user_id (users s))"
    using assms(1-3) by (auto simp: users_inv_def people.wf_def)
  then have none: "count_where (\<lambda>v. user_id v = i \<and> user_status v = USER_PENDING) (users s') = 0"
    using assms(2-6,8) by (auto simp: count_where_0 update_where_def dest: distinct_map_eq split: if_splits)
  have "count_where (\<lambda>v. user_id v = i \<and> user_status v = USER_PENDING) (users s) \<noteq> 0"
    using assms(2-4) by (auto simp: count_where_0)
  with none \<open>i < next_user s\<close> assms(7) show ?thesis by (simp add: approvable_def)
qed

lemma approve_user_uses_up:
  assumes "users_inv s" "fst (approve_user i now s)"
  shows "Suc (approvable i (snd (approve_user i now s))) \<le> approvable i s"
proof -
  have "\<exists>u \<in> set (users s). user_id u = i \<and> user_status u = USER_PENDING"
    using assms people.count_id_1D [of "next_user s" "users s" i "\<lambda>u. user_status u = USER_PENDING"]
    by (simp add: approve_user_def update_user_def users_inv_def)
  then obtain u where u: "u \<in> set (users s)" "user_id u = i" "user_status u = USER_PENDING" by blast
  show ?thesis
    by (rule approvable_update [OF assms(1) u, where p = "\<lambda>u. user_id u = i \<and> user_status u = USER_PENDING"
          and f = "\<lambda>u. u\<lparr>user_status := USER_APPROVED, approved_at := Some (stamp now)\<rparr>"])
      (simp_all add: approve_user_def update_user_def u)
qed

lemma invite_directly_uses_up:
  assumes "users_inv s" "fst (invite_directly a d now s) = Inr (Some i)"
  shows "Suc (approvable i (snd (invite_directly a d now s))) \<le> approvable i s"
proof -
  obtain aid where aid: "mint_analytics_id d = Some aid"
    using assms(2) by (auto simp: invite_directly_def split: option.splits)
  show ?thesis
  proof (cases "find (by_email (normalize_email a)) (users s)")
    case (Some u)
    note u = find_Some_in [OF Some]
    have p: "user_status u = USER_PENDING" "user_id u = i"
      using assms(2) by (auto simp: invite_directly_def aid Some Let_def split: if_splits)
    show ?thesis
      using u p by (intro approvable_update [OF assms(1), of u i "by_email (normalize_email a)" _
            "\<lambda>u. u\<lparr>user_status := USER_APPROVED, approved_at := Some (stamp now)\<rparr>"])
        (auto simp: invite_directly_def aid Some Let_def)
  next
    case None
    have "\<forall>u \<in> set (users s). user_id u \<noteq> next_user s"
      using assms(1) by (auto simp: users_inv_def people.wf_def)
    then have "count_where (\<lambda>u. user_id u = next_user s \<and> user_status u = USER_PENDING) (users s) = 0"
      by (simp add: count_where_0)
    then show ?thesis
      using assms(2) by (auto simp: invite_directly_def aid None Let_def approvable_def insert_user_Inr split: sum.splits)
  qed
qed

interpretation approval: counted_credential user_step users_inv approvable "\<lambda>i x out. False" approves
proof
  fix s i x assume s: "users_inv s"
  show "(if approves i x (fst (user_step x s)) then 1 else 0) + approvable i (snd (user_step x s))
      \<le> (if False then 1 else 0) + approvable i s"
    using approvable_changes [OF user_step_changes s, of i x] approve_user_uses_up [OF s, of i]
      invite_directly_uses_up [OF s, of _ _ _ i] by (auto simp: approves_iff)
qed

text \<open>A person is approved once: whatever the admins click, in whatever order, and whether
  through the waitlist or by a direct invite, at most one operation in the whole life of a row
  answers that it was the one that approved it, so nobody is sent two first codes.\<close>

theorem nobody_is_approved_twice:
  "times (approves i) (trace user_step xs empty_db) \<le> 1"
proof -
  have "approvable i empty_db \<le> 1" by (simp add: approvable_def empty_db_def)
  then show ?thesis
    using approval.redeemed_le_issued [OF inv_empty_db, of i xs] by (simp add: times_def case_prod_beta)
qed


subsection \<open>The migration\<close>

definition grows :: "control_db \<Rightarrow> control_db \<Rightarrow> bool" where
  "grows s s' \<longleftrightarrow> users_inv s' \<and> tenants s' = tenants s \<and> invite_codes s' = invite_codes s
     \<and> (\<forall>u \<in> set (users s). \<exists>v \<in> set (users s'). moves_on u v \<and> (tenant_label u \<noteq> None \<longrightarrow> tenant_label v = tenant_label u))"

lemma growsI:
  assumes "changes s s'" "users_inv s" "tenants s' = tenants s" "invite_codes s' = invite_codes s"
    "\<forall>u \<in> set (users s). \<exists>v \<in> set (users s'). moves_on u v \<and> (tenant_label u \<noteq> None \<longrightarrow> tenant_label v = tenant_label u)"
  shows "grows s s'"
  using assms changes_inv unfolding grows_def by blast

lemma kept: "u \<in> us \<Longrightarrow> \<exists>v \<in> us. moves_on u v \<and> (tenant_label u \<noteq> None \<longrightarrow> tenant_label v = tenant_label u)"
  by (rule bexI [of _ u]) simp_all

lemma grows_refl: "users_inv s \<Longrightarrow> grows s s"
  using kept unfolding grows_def by blast

lemma grows_trans: "grows s t \<Longrightarrow> grows t u \<Longrightarrow> grows s u"
  unfolding grows_def by (metis moves_on_trans)

lemma grows_bump: "users_inv s \<Longrightarrow> grows s (bump s)"
  by (rule growsI) (simp_all add: bump_def same kept del: not_None_eq)

lemma grows_insert:
  assumes "insert_user u s = Inr s'" "user_id u = next_user s" "\<not> list_ex (by_email (email u)) (users s)" "users_inv s"
  shows "grows s s'"
proof (rule growsI [OF _ assms(4)])
  show "changes s s'" using assms(3) by (intro insert_user_changes [OF assms(1,2)]) (auto simp: list_ex_iff by_email_def)
  show "\<forall>u \<in> set (users s). \<exists>v \<in> set (users s'). moves_on u v \<and> (tenant_label u \<noteq> None \<longrightarrow> tenant_label v = tenant_label u)"
    using assms(1) by (intro ballI kept) (simp add: insert_user_Inr)
qed (use assms(1) in \<open>simp_all add: insert_user_Inr\<close>)

lemma sweep_rows_grows:
  "sweep_rows ws ds s = Inr s' \<Longrightarrow> users_inv s \<Longrightarrow>
     grows s s' \<and> (\<forall>w \<in> set ws. \<exists>v \<in> set (users s'). email v = normalize_email (wl_email w))"
proof (induction ws arbitrary: ds s)
  case Nil
  then show ?case by (simp add: grows_refl)
next
  case (Cons w ws)
  let ?e = "normalize_email (wl_email w)"
  obtain aid where aid: "mint_analytics_id (case ds of [] \<Rightarrow> None | d # _ \<Rightarrow> d) = Some aid"
    using Cons.prems(1) by (auto split: option.splits)
  obtain t where t: "sweep_rows ws (tl ds) t = Inr s'" "grows s t" "\<exists>v \<in> set (users t). email v = ?e"
  proof (cases "list_ex (by_email ?e) (users s)")
    case True
    with Cons.prems(1) grows_bump [OF Cons.prems(2)] show ?thesis
      by (intro that [of "bump s"]) (auto simp: aid Let_def list_ex_iff by_email_def)
  next
    case False
    with Cons.prems(1) obtain t where t: "insert_user ((blank_user (next_user s) ?e (wl_created w) (wl_status w) aid)
         \<lparr>approved_at := wl_approved w, user_invite := wl_invite w, notified_at := wl_notified w\<rparr>) s = Inr t"
      "sweep_rows ws (tl ds) t = Inr s'"
      by (auto simp: aid Let_def split: sum.splits)
    show ?thesis
    proof (rule that [OF t(2)])
      show "grows s t" using False by (intro grows_insert [OF t(1) _ _ Cons.prems(2)]) simp_all
      show "\<exists>v \<in> set (users t). email v = ?e" using t(1) by (auto simp: insert_user_Inr)
    qed
  qed
  have "grows t s' \<and> (\<forall>w \<in> set ws. \<exists>v \<in> set (users s'). email v = normalize_email (wl_email w))"
    using t(2) Cons.IH [OF t(1)] by (simp add: grows_def)
  with t grows_trans [of s t s'] show ?case
    by (auto simp: grows_def moves_on_def same_person_def) metis+
qed


lemma users_set: "users (s\<lparr>users := us\<rparr>) = us"
  by simp

lemma adopt_rows_grows:
  "adopt_rows ts ds s = Inr s' \<Longrightarrow> users_inv s \<Longrightarrow>
     grows s s' \<and> (\<forall>t \<in> set ts. \<exists>v \<in> set (users s'). email v = normalize_email (account_email t) \<and> tenant_label v \<noteq> None)"
proof (induction ts arbitrary: ds s)
  case Nil
  then show ?case by (simp add: grows_refl)
next
  case (Cons x ts)
  let ?e = "normalize_email (account_email x)"
  let ?f = "\<lambda>u. u\<lparr>user_status := USER_APPROVED, signed_up_at := coalesce (signed_up_at u) (Some (tenant_created x)),
      user_account := coalesce (user_account u) (Some ?e), tenant_label := coalesce (tenant_label u) (Some (label x))\<rparr>"
  let ?b = "(bump s)\<lparr>users := update_where (by_email ?e) ?f (users s)\<rparr>"
  obtain aid where aid: "mint_analytics_id (case ds of [] \<Rightarrow> None | d # _ \<Rightarrow> d) = Some aid"
    using Cons.prems(1) by (auto split: option.splits)
  obtain t where t: "adopt_rows ts (tl ds) t = Inr s'" "grows s t"
    "\<exists>v \<in> set (users t). email v = ?e \<and> tenant_label v \<noteq> None"
  proof (cases "list_ex (by_email ?e) (users s)")
    case True
    show ?thesis
    proof (rule that [of ?b])
      show "adopt_rows ts (tl ds) ?b = Inr s'" using Cons.prems(1) True by (simp add: aid Let_def)
      have f: "moves_on u (?f u) \<and> (tenant_label u \<noteq> None \<longrightarrow> tenant_label (?f u) = tenant_label u)" for u
        by (auto simp: moves_on_def same_person_def coalesce_def split: option.splits)
      show "grows s ?b"
      proof (rule growsI [OF updated [where p = "by_email ?e" and f = ?f] Cons.prems(2)])
        show "\<forall>u \<in> set (users s). \<exists>v \<in> set (users ?b). moves_on u v \<and> (tenant_label u \<noteq> None \<longrightarrow> tenant_label v = tenant_label u)"
        proof
          fix u assume "u \<in> set (users s)"
          from in_update_where [OF this, of "by_email ?e" ?f]
          have "(if by_email ?e u then ?f u else u) \<in> set (users ?b)" by (simp only: users_set)
          with f [of u] kept [of u "{u}"]
          show "\<exists>v \<in> set (users ?b). moves_on u v \<and> (tenant_label u \<noteq> None \<longrightarrow> tenant_label v = tenant_label u)"
            by (intro bexI [of _ "if by_email ?e u then ?f u else u"]) auto
        qed
      qed (use f in \<open>simp_all add: bump_def\<close>)
      obtain u where "u \<in> set (users s)" "email u = ?e" using True by (auto simp: list_ex_iff by_email_def)
      then show "\<exists>v \<in> set (users ?b). email v = ?e \<and> tenant_label v \<noteq> None"
        by (intro bexI [of _ "?f u"]) (auto simp: coalesce_def set_update_where by_email_def split: option.splits)
    qed
  next
    case False
    with Cons.prems(1) obtain t where t: "insert_user ((blank_user (next_user s) ?e (tenant_created x) USER_APPROVED aid)
         \<lparr>signed_up_at := Some (tenant_created x), user_account := Some ?e, tenant_label := Some (label x)\<rparr>) s = Inr t"
      "adopt_rows ts (tl ds) t = Inr s'"
      by (auto simp: aid Let_def split: sum.splits)
    show ?thesis
    proof (rule that [OF t(2)])
      show "grows s t" using False by (intro grows_insert [OF t(1) _ _ Cons.prems(2)]) simp_all
      show "\<exists>v \<in> set (users t). email v = ?e \<and> tenant_label v \<noteq> None" using t(1) by (auto simp: insert_user_Inr)
    qed
  qed
  have "grows t s'" and rest: "\<forall>t \<in> set ts. \<exists>v \<in> set (users s'). email v = normalize_email (account_email t) \<and> tenant_label v \<noteq> None"
    using t(2) Cons.IH [OF t(1)] by (simp_all add: grows_def)
  moreover have "\<exists>v \<in> set (users s'). email v = ?e \<and> tenant_label v \<noteq> None"
    using t(3) \<open>grows t s'\<close> unfolding grows_def moves_on_def same_person_def by metis
  ultimately show ?case using grows_trans [OF t(2)] by simp
qed

lemma repair_from_invite_moves: "moves_on u (repair_from_invite s u)"
  by (auto simp: repair_from_invite_def moves_on_def same_person_def split: option.splits)

lemma repair_from_tenant_moves: "moves_on u (repair_from_tenant s u)"
  by (auto simp: repair_from_tenant_def moves_on_def same_person_def split: option.splits)


lemma repair_signups_moves: "changes s (repair_signups s)"
proof (rule moved)
  let ?t = "s\<lparr>users := map (repair_from_invite s) (users s)\<rparr>"
  show "users (repair_signups s) = map (\<lambda>u. repair_from_tenant ?t (repair_from_invite s u)) (users s)"
    by (simp add: repair_signups_def Let_def)
  show "moves_on u (repair_from_tenant ?t (repair_from_invite s u))" for u
    by (rule moves_on_trans [OF repair_from_invite_moves repair_from_tenant_moves])
qed (simp add: repair_signups_def Let_def)

lemma backfill_expiry_users [simp]:
  "users (backfill_expiry s) = users s" "next_user (backfill_expiry s) = next_user s" "tenants (backfill_expiry s) = tenants s"
  for s :: control_db
proof -
  have "users (fold backfill_one ls t) = users t \<and> next_user (fold backfill_one ls t) = next_user t
      \<and> tenants (fold backfill_one ls t) = tenants t" for ls and t :: control_db
    by (induction ls arbitrary: t) (auto simp: backfill_one_def Let_def)
  then show "users (backfill_expiry s) = users s" "next_user (backfill_expiry s) = next_user s"
    "tenants (backfill_expiry s) = tenants s"
    by (simp_all add: backfill_expiry_def)
qed

text \<open>Moving an old database forward loses nobody: when the migration succeeds, everybody
  already on the table is still there with their id, address and analytics id, and with what
  they had reached; every row of the old waitlist has somebody at its address; and every tenant
  has somebody, either the one whose row names its label or the one at its mailbox, whose row
  names a label.\<close>

theorem migration_loses_nobody:
  assumes "users_inv s" "migrate wl draws draws' s = Inr s'"
  shows "users_inv s'
    \<and> list_all (\<lambda>u. \<exists>v \<in> set (users s'). user_id v = user_id u \<and> email v = email u \<and> analytics_id v = analytics_id u
         \<and> (user_status v = user_status u \<or> user_status v = USER_APPROVED)
         \<and> (signed_up_at v = None \<longrightarrow> signed_up_at u = None)) (users s)
    \<and> list_all (\<lambda>w. \<exists>v \<in> set (users s'). email v = normalize_email (wl_email w)) (case wl of None \<Rightarrow> [] | Some ws \<Rightarrow> ws)
    \<and> list_all (\<lambda>t. \<exists>v \<in> set (users s'). tenant_label v = Some (label t)
         \<or> email v = normalize_email (account_email t) \<and> tenant_label v \<noteq> None) (tenants s)"
proof -
  let ?s = "backfill_expiry s"
  have inv0: "users_inv ?s" using assms(1) by (simp add: users_inv_def)
  obtain t where t: "sweep_waitlist wl draws ?s = Inr t" "adopt_cli_tenants draws' (repair_signups t) = Inr s'"
    using assms(2) by (auto simp: migrate_def backfill_users_def split: sum.splits)
  let ?r = "repair_signups t"
  have st: "grows ?s t \<and> (\<forall>w \<in> set (case wl of None \<Rightarrow> [] | Some ws \<Rightarrow> ws). \<exists>v \<in> set (users t). email v = normalize_email (wl_email w))"
    using t(1) sweep_rows_grows [OF _ inv0] grows_refl [OF inv0] by (auto simp: sweep_waitlist_def split: option.splits)
  have tr: "users_inv ?r" "tenants ?r = tenants t"
    using st changes_inv [OF repair_signups_moves] by (simp_all add: grows_def repair_signups_def Let_def)
  let ?left = "filter (\<lambda>x. \<not> list_ex (\<lambda>u. tenant_label u = Some (label x)) (users ?r)) (tenants ?r)"
  have rs: "grows ?r s' \<and> (\<forall>x \<in> set ?left. \<exists>v \<in> set (users s'). email v = normalize_email (account_email x) \<and> tenant_label v \<noteq> None)"
    using adopt_rows_grows [OF t(2) [unfolded adopt_cli_tenants_def] tr(1)] by simp
  have "\<exists>v \<in> set (users s'). moves_on u v" if "u \<in> set (users t)" for u
    using changes_moves [OF repair_signups_moves that] rs moves_on_trans unfolding grows_def by blast
  note kept_on = this
  have "\<exists>v \<in> set (users s'). moves_on u v" if "u \<in> set (users s)" for u
    using st that kept_on moves_on_trans unfolding grows_def backfill_expiry_users by blast
  then have a: "list_all (\<lambda>u. \<exists>v \<in> set (users s'). user_id v = user_id u \<and> email v = email u \<and> analytics_id v = analytics_id u
         \<and> (user_status v = user_status u \<or> user_status v = USER_APPROVED)
         \<and> (signed_up_at v = None \<longrightarrow> signed_up_at u = None)) (users s)"
    unfolding list_all_iff moves_on_def same_person_def by meson
  have b: "list_all (\<lambda>w. \<exists>v \<in> set (users s'). email v = normalize_email (wl_email w)) (case wl of None \<Rightarrow> [] | Some ws \<Rightarrow> ws)"
    unfolding list_all_iff
  proof
    fix w assume "w \<in> set (case wl of None \<Rightarrow> [] | Some ws \<Rightarrow> ws)"
    with st obtain u where "u \<in> set (users t)" "email u = normalize_email (wl_email w)" by blast
    with kept_on [of u] show "\<exists>v \<in> set (users s'). email v = normalize_email (wl_email w)"
      unfolding moves_on_def same_person_def by metis
  qed
  have ten: "tenants ?r = tenants s" using st tr(2) by (simp add: grows_def)
  have c: "list_all (\<lambda>x. \<exists>v \<in> set (users s'). tenant_label v = Some (label x)
         \<or> email v = normalize_email (account_email x) \<and> tenant_label v \<noteq> None) (tenants s)"
    unfolding list_all_iff
  proof
    fix x assume x: "x \<in> set (tenants s)"
    show "\<exists>v \<in> set (users s'). tenant_label v = Some (label x) \<or> email v = normalize_email (account_email x) \<and> tenant_label v \<noteq> None"
    proof (cases "x \<in> set ?left")
      case True
      with rs show ?thesis by blast
    next
      case False
      with x ten obtain u where "u \<in> set (users ?r)" "tenant_label u = Some (label x)" by (auto simp: list_ex_iff)
      with rs show ?thesis unfolding grows_def by (metis option.distinct(1))
    qed
  qed
  have "users_inv s'" using rs by (simp add: grows_def)
  with a b c show ?thesis by blast
qed


text \<open>A waitlist row and a tenant made from the command line, whose owner is also waiting.\<close>

definition old_db :: control_db where
  "old_db = empty_db\<lparr>tenants := [mk_tenant 1 (''bob'', ''bob@x'', 5)], next_tenant := 2\<rparr>"

definition old_waitlist :: "waitlist_row list" where
  "old_waitlist = [\<lparr>wl_email = ''Bob@x'', wl_created = 3, wl_status = USER_PENDING, wl_approved = None, wl_invite = None, wl_notified = None\<rparr>]"

lemma migrate_old_db:
  "\<exists>s'. migrate (Some old_waitlist) [Some (replicate 16 0)] [Some (replicate 16 1)] old_db = Inr s'"
proof -
  have "case migrate (Some old_waitlist) [Some (replicate 16 0)] [Some (replicate 16 1)] old_db of Inl _ \<Rightarrow> False | Inr _ \<Rightarrow> True"
    by code_simp
  then show ?thesis by (auto split: sum.splits)
qed

theorem migration_loses_nobody_witness:
  "\<exists>s'. migrate (Some old_waitlist) [Some (replicate 16 0)] [Some (replicate 16 1)] old_db = Inr s'
     \<and> (\<exists>v \<in> set (users s'). email v = normalize_email ''Bob@x'')"
proof -
  obtain s' where s': "migrate (Some old_waitlist) [Some (replicate 16 0)] [Some (replicate 16 1)] old_db = Inr s'"
    using migrate_old_db by blast
  have "users_inv old_db" by (simp add: users_inv_def old_db_def empty_db_def)
  from migration_loses_nobody [OF this s'] s' show ?thesis by (auto simp: old_waitlist_def)
qed

end
