(* ===== verification/Agent_Jobs.thy ===== *)
theory Agent_Jobs
  imports Machine Rust_Text "HOL-Library.Product_Lexorder"
begin

text \<open>
  The durable work queue of the triage agent (\<open>squelch-core/src/store/sqlite/agent_triage.rs\<close>):
  jobs that workers claim under a lease and then complete, fail, retry or defer, the one
  follow-up a job can carry while it runs, and the lane that says whether a person is waiting.

  A method is one transaction under the store's lock: one step here, and an error in it rolls
  everything back. Times are stored as RFC 3339 UTC text, which sorts as the instants do, so a
  column is the instant; the clock is read once an operation and is the argument \<open>now\<close>. The
  messages table is only read here, so it is an argument. A lease token is 16 random bytes, an
  argument of the claim. \<open>LIKE\<close> ignores the case of ASCII letters.
\<close>

record mail =
  m_id :: int
  m_account :: int
  m_thread :: string
  m_from :: string
  m_subject :: string
  m_body :: string
  m_received :: instant
  m_sent :: bool
  m_spam :: bool

record job =
  job_id :: int
  job_account :: int
  job_message :: int
  kind :: string
  trigger :: string
  revision :: int
  eligible :: bool
  state :: string
  available :: instant
  lease :: "string option"
  lease_until :: "instant option"
  attempts :: int
  last_error :: "string option"

record followup =
  f_kind :: string
  f_trigger :: string
  f_eligible :: bool
  f_foreground :: bool

record run_row =
  run_job :: int
  run_account :: int
  run_message :: int
  outcome :: string
  metadata :: string
  completed_at :: instant

record queue_db =
  jobs :: "job list"
  lanes :: "(int, bool) table"
  followups :: "(int, followup) table"
  runs :: "run_row list"

text \<open>A job as its worker holds it.\<close>

record agent_job =
  aj_id :: int
  aj_account :: int
  aj_message :: int
  aj_kind :: string
  aj_trigger :: string
  aj_token :: string
  aj_attempts :: int
  aj_eligible :: bool
  aj_foreground :: bool

datatype core_error = NotFound | Sqlite | InvalidInput | Other

definition like_prefix :: "string \<Rightarrow> string \<Rightarrow> bool" where
  "like_prefix p s \<longleftrightarrow> starts_with (to_ascii_lowercase s) p"

definition is_revisit :: "string \<Rightarrow> bool" where
  "is_revisit t \<longleftrightarrow> like_prefix ''revisit:'' t"

definition investigates :: "string \<Rightarrow> bool" where
  "investigates k \<longleftrightarrow> k \<in> {''triage'', ''access''}"

definition pending :: "job \<Rightarrow> bool" where
  "pending j \<longleftrightarrow> state j \<in> {''queued'', ''leased''}"

definition job_key :: "job \<Rightarrow> int \<times> int \<times> string \<times> int \<times> string" where
  "job_key j = (job_account j, job_message j, kind j, revision j, trigger j)"

text \<open>The first row in an order, as \<open>ORDER BY ... LIMIT 1\<close> picks it.\<close>

definition first_by :: "('r \<Rightarrow> 'k::linorder) \<Rightarrow> 'r list \<Rightarrow> 'r option" where
  "first_by k rs = (case sort_key k rs of [] \<Rightarrow> None | r # _ \<Rightarrow> Some r)"

definition mk_job :: "int \<Rightarrow> int \<times> int \<times> string \<times> string \<times> int \<times> bool \<times> instant \<Rightarrow> job" where
  "mk_job i = (\<lambda>(acc, m, k, t, r, e, at). \<lparr>job_id = i, job_account = acc, job_message = m, kind = k, trigger = t,
     revision = r, eligible = e, state = ''queued'', available = at, lease = None, lease_until = None,
     attempts = 0, last_error = None\<rparr>)"

definition insert_job :: "int \<times> int \<times> string \<times> string \<times> int \<times> bool \<times> instant \<Rightarrow> queue_db \<Rightarrow> queue_db" where
  "insert_job a s = (let j = mk_job (fresh_id (map job_id (jobs s))) a in
     if list_ex (\<lambda>q. job_key q = job_key j) (jobs s) then s else s\<lparr>jobs := jobs s @ [j]\<rparr>)"

text \<open>An \<open>UPDATE\<close> of the key columns: refused when two rows would have one key.\<close>

definition update_keys :: "(job \<Rightarrow> bool) \<Rightarrow> (job \<Rightarrow> job) \<Rightarrow> queue_db \<Rightarrow> core_error + queue_db" where
  "update_keys p f s = (let js = update_where p f (jobs s) in
     if distinct (map job_key js) then Inr (s\<lparr>jobs := js\<rparr>) else Inl Sqlite)"

definition foreground :: "queue_db \<Rightarrow> int \<Rightarrow> bool" where
  "foreground s i = (case map_of (lanes s) i of None \<Rightarrow> False | Some b \<Rightarrow> b)"

definition set_lane :: "int \<Rightarrow> bool \<Rightarrow> queue_db \<Rightarrow> queue_db" where
  "set_lane i b s = s\<lparr>lanes := AList.update i b (lanes s)\<rparr>"

text \<open>The upsert that keeps the larger of the two flags.\<close>

definition raise_lane :: "int \<Rightarrow> bool \<Rightarrow> queue_db \<Rightarrow> queue_db" where
  "raise_lane i b s = set_lane i (foreground s i \<or> b) s"

definition quiet :: "string \<Rightarrow> bool" where
  "quiet t \<longleftrightarrow> t \<in> {''ingest'', ''arrival'', ''backfill'', ''heal'', ''source_access''}"

text \<open>The investigation there is of one input, the running one first.\<close>

definition existing_job :: "int \<Rightarrow> int \<Rightarrow> int \<Rightarrow> queue_db \<Rightarrow> job option" where
  "existing_job account message inp s =
     first_by (\<lambda>j. (if state j = ''leased'' then 0 else if state j = ''queued'' then 1 else (2 :: int), - job_id j))
       (filter (\<lambda>j. job_account j = account \<and> job_message j = message \<and> revision j = inp
          \<and> investigates (kind j) \<and> \<not> is_revisit (trigger j)) (jobs s))"

definition join_followup :: "string \<Rightarrow> string \<Rightarrow> bool \<Rightarrow> bool \<Rightarrow> followup option \<Rightarrow> followup" where
  "join_followup k t e lane old = (case old of
       None \<Rightarrow> \<lparr>f_kind = k, f_trigger = t, f_eligible = e, f_foreground = lane\<rparr>
     | Some f \<Rightarrow> \<lparr>f_kind = (if f_kind f = ''triage'' \<or> k = ''triage'' then ''triage'' else ''access''), f_trigger = t,
          f_eligible = (f_eligible f \<or> e), f_foreground = (f_foreground f \<or> lane)\<rparr>)"

definition queue_investigation ::
    "int \<Rightarrow> int \<Rightarrow> int \<Rightarrow> string \<Rightarrow> string \<Rightarrow> bool \<Rightarrow> bool \<Rightarrow> bool \<Rightarrow> instant \<Rightarrow> queue_db \<Rightarrow> core_error + queue_db" where
  "queue_investigation account message inp k t elig fg requested now s =
     (let fresh = (let s' = insert_job (account, message, k, t, inp, elig, now) s in
          Inr (fold (\<lambda>q. raise_lane (job_id q) fg)
                 (filter (\<lambda>q. job_key q = (account, message, k, inp, t)) (jobs s')) s')) in
      case existing_job account message inp s of None \<Rightarrow> fresh
      | Some j \<Rightarrow>
         (let i = job_id j;
              k = (if k = ''triage'' \<or> kind j = ''triage'' then ''triage'' else ''access'');
              lane = requested \<and> k = ''triage'' in
          if state j = ''leased'' then
            Inr (s\<lparr>followups := AList.update i (join_followup k t elig lane (map_of (followups s) i)) (followups s)\<rparr>)
          else if (state j = ''completed'' \<and> trigger j \<noteq> t
                  \<or> state j = ''failed'' \<and> starts_with t ''manual:'' \<and> trigger j \<noteq> t) \<and> \<not> quiet t then
            (case update_keys (\<lambda>q. job_id q = i)
                (\<lambda>q. q\<lparr>state := ''queued'', kind := k, trigger := t, attempts := 0, available := now, last_error := None\<rparr>) s of
               Inl e \<Rightarrow> Inl e
             | Inr s' \<Rightarrow> Inr (set_lane i lane s'))
          else if state j = ''completed'' then Inr s
          else if state j = ''queued'' \<or> state j = ''failed'' then
            (case update_keys (\<lambda>q. job_id q = i) (\<lambda>q. q\<lparr>kind := k, trigger := t, eligible := eligible q \<or> elig\<rparr>) s of
               Inl e \<Rightarrow> Inl e
             | Inr s' \<Rightarrow>
                 let s' = (if requested \<and> k = ''triage'' \<and> state j = ''queued''
                   then s'\<lparr>jobs := update_where (\<lambda>q. job_id q = i \<and> last_error q = Some ''daily_budget_exhausted'')
                          (\<lambda>q. q\<lparr>available := now, last_error := None\<rparr>) (jobs s')\<rparr> else s')
                 in Inr (raise_lane i fg s'))
          else fresh))"


section \<open>Leases\<close>

text \<open>Which jobs a worker of a lane may take now, as \<open>CLAIM_JOB_SQL\<close> selects them.\<close>

definition candidate :: "mail list \<Rightarrow> int \<Rightarrow> string \<Rightarrow> instant \<Rightarrow> queue_db \<Rightarrow> job \<Rightarrow> bool" where
  "candidate mail account k now s j \<longleftrightarrow>
     job_account j = account \<and> pending j
     \<and> (kind j = k \<or> k \<in> {''investigation'', ''initial_investigation''} \<and> investigates (kind j))
     \<and> (k \<noteq> ''initial_investigation'' \<or> \<not> is_revisit (trigger j))
     \<and> available j \<le> now
     \<and> (state j = ''queued'' \<or> state j = ''leased'' \<and> (case lease_until j of None \<Rightarrow> False | Some t \<Rightarrow> t \<le> now))
     \<and> list_ex (\<lambda>m. m_account m = account \<and> m_id m = job_message j
         \<and> (\<not> investigates (kind j) \<or> \<not> list_ex (\<lambda>a. job_account a = account \<and> investigates (kind a)
              \<and> state a = ''leased'' \<and> (case lease_until a of None \<Rightarrow> False | Some t \<Rightarrow> now < t) \<and> job_id a \<noteq> job_id j
              \<and> list_ex (\<lambda>o'. m_account o' = account \<and> m_id o' = job_message a \<and> m_thread o' = m_thread m) mail)
             (jobs s))) mail"

definition claim_order :: "queue_db \<Rightarrow> job \<Rightarrow> int \<times> int \<times> instant \<times> int" where
  "claim_order s j = (let fg = foreground s (job_id j) in
     (if fg \<and> eligible j then 0 else if like_prefix ''manual:'' (trigger j) then 1 else 2,
      if fg then 0 else 1, available j, job_id j))"

definition claim_agent_job ::
    "mail list \<Rightarrow> int \<Rightarrow> string \<Rightarrow> int \<Rightarrow> string \<Rightarrow> instant \<Rightarrow> queue_db \<Rightarrow> (core_error + agent_job option) \<times> queue_db" where
  "claim_agent_job mail account k lease_seconds token now s =
     (if lease_seconds \<le> 0 then (Inl InvalidInput, s)
      else case first_by (claim_order s) (filter (candidate mail account k now s) (jobs s)) of
        None \<Rightarrow> (Inr None, s)
      | Some j \<Rightarrow>
          (Inr (Some \<lparr>aj_id = job_id j, aj_account = account, aj_message = job_message j, aj_kind = kind j,
              aj_trigger = trigger j, aj_token = token, aj_attempts = attempts j + 1, aj_eligible = eligible j,
              aj_foreground = foreground s (job_id j)\<rparr>),
           s\<lparr>jobs := update_where (\<lambda>q. job_id q = job_id j)
              (\<lambda>q. q\<lparr>state := ''leased'', lease := Some token, lease_until := Some (now + secs lease_seconds),
                    attempts := attempts q + 1\<rparr>) (jobs s)\<rparr>))"

definition leased :: "agent_job \<Rightarrow> instant \<Rightarrow> queue_db \<Rightarrow> bool" where
  "leased a now s \<longleftrightarrow> list_ex (\<lambda>j. job_id j = aj_id a \<and> job_account j = aj_account a \<and> job_message j = aj_message a
     \<and> state j = ''leased'' \<and> lease j = Some (aj_token a) \<and> (case lease_until j of None \<Rightarrow> False | Some t \<Rightarrow> now < t)) (jobs s)"

definition absorb_followup :: "agent_job \<Rightarrow> instant \<Rightarrow> queue_db \<Rightarrow> core_error + queue_db" where
  "absorb_followup a now s =
     (let i = aj_id a; f = map_of (followups s) i;
          s = (if (case f of None \<Rightarrow> False | Some f \<Rightarrow> f_foreground f)
               then (set_lane i True s)\<lparr>jobs := update_where
                       (\<lambda>q. job_id q = i \<and> state q = ''queued'' \<and> last_error q = Some ''daily_budget_exhausted'')
                       (\<lambda>q. q\<lparr>available := now, last_error := None\<rparr>) (jobs s)\<rparr>
               else s) in
      case update_keys (\<lambda>q. job_id q = i)
          (\<lambda>q. case f of None \<Rightarrow> q | Some f \<Rightarrow>
             q\<lparr>kind := (if kind q = ''triage'' \<or> f_kind f = ''triage'' then ''triage'' else kind q),
               trigger := f_trigger f, eligible := eligible q \<or> f_eligible f\<rparr>) s of
        Inl e \<Rightarrow> Inl e
      | Inr s \<Rightarrow> Inr (s\<lparr>followups := AList.delete i (followups s)\<rparr>))"

definition release_followup :: "agent_job \<Rightarrow> instant \<Rightarrow> queue_db \<Rightarrow> core_error + queue_db" where
  "release_followup a now s =
     (let i = aj_id a; f = map_of (followups s) i; s = s\<lparr>followups := AList.delete i (followups s)\<rparr> in
      case f of None \<Rightarrow> Inr s
      | Some f \<Rightarrow>
         (case find (\<lambda>j. job_id j = i) (jobs s) of None \<Rightarrow> Inl Sqlite
          | Some j \<Rightarrow> queue_investigation (aj_account a) (aj_message a) (revision j) (f_kind f) (f_trigger f)
                        (f_eligible f) (f_foreground f) (f_foreground f) now s))"

definition finish :: "agent_job \<Rightarrow> string \<Rightarrow> string \<Rightarrow> instant \<Rightarrow> queue_db \<Rightarrow> core_error + queue_db" where
  "finish a out meta now s =
     release_followup a now (s\<lparr>jobs := update_where (\<lambda>q. job_id q = aj_id a \<and> job_account q = aj_account a)
         (\<lambda>q. q\<lparr>state := ''completed'', lease := None, lease_until := None\<rparr>) (jobs s),
       runs := runs s @ [\<lparr>run_job = aj_id a, run_account = aj_account a, run_message = aj_message a,
         outcome = out, metadata = meta, completed_at = now\<rparr>]\<rparr>)"

definition complete_agent_job :: "agent_job \<Rightarrow> instant \<Rightarrow> queue_db \<Rightarrow> (core_error + bool) \<times> queue_db" where
  "complete_agent_job a now s =
     (if \<not> leased a now s then (Inr False, s)
      else case finish a ''completed'' ''{}'' now s of Inl e \<Rightarrow> (Inl e, s) | Inr s' \<Rightarrow> (Inr True, s'))"

definition machine_code :: "string \<Rightarrow> string" where
  "machine_code c = take 64 (filter (\<lambda>x. is_ascii_alnum x \<or> x = CHR ''_'') c)"

definition holds_lease :: "agent_job \<Rightarrow> job \<Rightarrow> bool" where
  "holds_lease a j \<longleftrightarrow> job_id j = aj_id a \<and> job_account j = aj_account a \<and> state j = ''leased'' \<and> lease j = Some (aj_token a)"

definition fail_agent_job :: "agent_job \<Rightarrow> string \<Rightarrow> queue_db \<Rightarrow> bool \<times> queue_db" where
  "fail_agent_job a error_code s =
     (let changed = (count_where (holds_lease a) (jobs s) = 1);
          s' = s\<lparr>jobs := update_where (holds_lease a) (\<lambda>q. q\<lparr>state := ''failed'', last_error := Some (machine_code error_code),
                 lease := None, lease_until := None\<rparr>) (jobs s)\<rparr>
      in (changed, if changed then s'\<lparr>followups := AList.delete (aj_id a) (followups s')\<rparr> else s'))"

definition retry_agent_job ::
    "agent_job \<Rightarrow> instant \<Rightarrow> string \<Rightarrow> instant \<Rightarrow> queue_db \<Rightarrow> (core_error + bool) \<times> queue_db" where
  "retry_agent_job a retry_at error_code now s =
     (let changed = (count_where (holds_lease a) (jobs s) = 1);
          s' = s\<lparr>jobs := update_where (holds_lease a) (\<lambda>q. q\<lparr>state := ''queued'', available := retry_at,
                 last_error := Some (machine_code error_code), lease := None, lease_until := None\<rparr>) (jobs s)\<rparr>
      in if changed then (case absorb_followup a now s' of Inl e \<Rightarrow> (Inl e, s) | Inr s'' \<Rightarrow> (Inr True, s''))
         else (Inr False, s'))"

definition defer_agent_job ::
    "agent_job \<Rightarrow> instant \<Rightarrow> string \<Rightarrow> instant \<Rightarrow> queue_db \<Rightarrow> (core_error + bool) \<times> queue_db" where
  "defer_agent_job a available_at error_code now s =
     (let changed = (count_where (holds_lease a) (jobs s) = 1);
          s' = s\<lparr>jobs := update_where (holds_lease a) (\<lambda>q. q\<lparr>state := ''queued'', available := available_at,
                 last_error := Some (machine_code error_code), attempts := max (attempts q - 1) 0,
                 lease := None, lease_until := None\<rparr>) (jobs s)\<rparr>
      in if changed then (case absorb_followup a now s' of Inl e \<Rightarrow> (Inl e, s) | Inr s'' \<Rightarrow> (Inr True, s''))
         else (Inr False, s'))"

text \<open>What the worker does with a run that failed on its own: back off, and give up at the cap.\<close>

definition retry_agent :: "int \<Rightarrow> agent_job \<Rightarrow> string \<Rightarrow> instant \<Rightarrow> queue_db \<Rightarrow> queue_db" where
  "retry_agent max_attempts a error_code now s =
     (if max_attempts \<le> aj_attempts a then snd (fail_agent_job a error_code s)
      else let seconds = min (15 * 2 ^ nat (min (max (aj_attempts a) 0) 8)) 3600
           in snd (retry_agent_job a (now + secs seconds) error_code now s))"

definition triage_job_counts :: "int \<Rightarrow> queue_db \<Rightarrow> nat \<times> nat" where
  "triage_job_counts account s =
     (let n = (\<lambda>st. count_where (\<lambda>j. job_account j = account \<and> investigates (kind j) \<and> state j = st) (jobs s))
      in (n ''queued'', n ''leased''))"

section \<open>The queue as a machine\<close>

datatype op =
    Queue int int int string string bool bool bool instant
  | Claim int string int string instant
  | Complete agent_job instant
  | Fail agent_job string
  | Retry agent_job instant string instant
  | Defer agent_job instant string instant

datatype out =
    Queued "core_error + unit"
  | Got "core_error + agent_job option"
  | Settled "core_error + bool"

fun step :: "mail list \<Rightarrow> op \<Rightarrow> queue_db \<Rightarrow> out \<times> queue_db" where
  "step mail (Queue acc m r k t e fg rq now) s =
     (case queue_investigation acc m r k t e fg rq now s of Inl e \<Rightarrow> (Queued (Inl e), s) | Inr s' \<Rightarrow> (Queued (Inr ()), s'))"
| "step mail (Claim acc k n tok now) s = map_prod Got id (claim_agent_job mail acc k n tok now s)"
| "step mail (Complete a now) s = map_prod Settled id (complete_agent_job a now s)"
| "step mail (Fail a c) s = map_prod (\<lambda>b. Settled (Inr b)) id (fail_agent_job a c s)"
| "step mail (Retry a at c now) s = map_prod Settled id (retry_agent_job a at c now s)"
| "step mail (Defer a at c now) s = map_prod Settled id (defer_agent_job a at c now s)"


section \<open>Lemmas\<close>

lemma first_by_None: "first_by k rs = None \<longleftrightarrow> rs = []"
proof -
  have "sort_key k rs = [] \<longleftrightarrow> rs = []" by (metis length_0_conv length_sort)
  then show ?thesis by (cases "sort_key k rs") (simp_all add: first_by_def)
qed

lemma first_by_Some:
  assumes "first_by k rs = Some r"
  shows "r \<in> set rs" "q \<in> set rs \<Longrightarrow> k r \<le> k q"
proof -
  obtain ts where ts: "sort_key k rs = r # ts" using assms by (auto simp: first_by_def split: list.splits)
  have s: "set rs = insert r (set ts)" using arg_cong [OF ts, of set] by simp
  have "sorted (map k (r # ts))" using sorted_sort_key [of k rs] by (simp add: ts)
  with s show "r \<in> set rs" "q \<in> set rs \<Longrightarrow> k r \<le> k q" by auto
qed

text \<open>A request to look at one input of a message, as opposed to a timer or a notification.\<close>

definition asks :: "job \<Rightarrow> bool" where
  "asks j \<longleftrightarrow> investigates (kind j) \<and> \<not> is_revisit (trigger j)"

definition input :: "job \<Rightarrow> int \<times> int \<times> int" where
  "input j = (job_account j, job_message j, revision j)"

definition job_states :: "string set" where
  "job_states = {''queued'', ''leased'', ''completed'', ''failed''}"

definition jobs_ok :: "job list \<Rightarrow> bool" where
  "jobs_ok js \<longleftrightarrow> distinct (map job_id js) \<and> distinct (map job_key js) \<and> state ` set js \<subseteq> job_states
     \<and> (\<forall>a \<in> set js. \<forall>b \<in> set js. asks a \<and> asks b \<and> input a = input b \<longrightarrow> job_id a = job_id b)"

definition followup_ok :: "job list \<Rightarrow> int \<times> followup \<Rightarrow> bool" where
  "followup_ok js = (\<lambda>(i, f). investigates (f_kind f) \<and> \<not> is_revisit (f_trigger f)
     \<and> (\<exists>j \<in> set js. job_id j = i \<and> asks j \<and> state j = ''leased''))"

definition queue_inv :: "queue_db \<Rightarrow> bool" where
  "queue_inv s \<longleftrightarrow> jobs_ok (jobs s) \<and> wf_table (followups s) \<and> list_all (followup_ok (jobs s)) (followups s)"

text \<open>A change of rows that keeps what each row asks for.\<close>

definition keeps :: "(job \<Rightarrow> job) \<Rightarrow> job \<Rightarrow> bool" where
  "keeps g j \<longleftrightarrow> job_id (g j) = job_id j \<and> input (g j) = input j \<and> asks (g j) = asks j
     \<and> (asks j \<or> job_key (g j) = job_key j) \<and> (state (g j) = state j \<or> state (g j) \<in> job_states)"

lemma asks_key: "job_key a = job_key b \<Longrightarrow> asks a = asks b"
  by (simp add: job_key_def asks_def)

lemma input_key: "job_key a = job_key b \<Longrightarrow> input a = input b"
  by (simp add: job_key_def input_def)

lemma jobs_okD:
  assumes "jobs_ok js"
  shows "distinct (map job_id js)" "distinct (map job_key js)"
    "a \<in> set js \<Longrightarrow> b \<in> set js \<Longrightarrow> job_id a = job_id b \<Longrightarrow> a = b"
    "a \<in> set js \<Longrightarrow> b \<in> set js \<Longrightarrow> job_key a = job_key b \<Longrightarrow> a = b"
    "a \<in> set js \<Longrightarrow> b \<in> set js \<Longrightarrow> asks a \<Longrightarrow> asks b \<Longrightarrow> input a = input b \<Longrightarrow> a = b"
proof -
  have e: "\<forall>a \<in> set js. \<forall>b \<in> set js. asks a \<and> asks b \<and> input a = input b \<longrightarrow> job_id a = job_id b"
    using assms unfolding jobs_ok_def by blast
  show d: "distinct (map job_id js)" "distinct (map job_key js)" using assms by (simp_all add: jobs_ok_def)
  show "a \<in> set js \<Longrightarrow> b \<in> set js \<Longrightarrow> job_id a = job_id b \<Longrightarrow> a = b" by (rule distinct_map_eq [OF d(1)])
  show "a \<in> set js \<Longrightarrow> b \<in> set js \<Longrightarrow> job_key a = job_key b \<Longrightarrow> a = b" by (rule distinct_map_eq [OF d(2)])
  show "a \<in> set js \<Longrightarrow> b \<in> set js \<Longrightarrow> asks a \<Longrightarrow> asks b \<Longrightarrow> input a = input b \<Longrightarrow> a = b"
    using e distinct_map_eq [OF d(1), of a b] by blast
qed

lemma jobs_ok_map:
  assumes "jobs_ok js" "\<And>j. j \<in> set js \<Longrightarrow> keeps g j"
  shows "jobs_ok (map g js)"
proof -
  note d = jobs_okD [OF assms(1)]
  have k: "job_id (g j) = job_id j" "input (g j) = input j" "asks (g j) = asks j" "asks j \<or> job_key (g j) = job_key j"
    if "j \<in> set js" for j using assms(2) [OF that] by (auto simp: keeps_def)
  have st: "state ` set (map g js) \<subseteq> job_states"
    using assms by (fastforce simp: keeps_def jobs_ok_def)
  have "map job_id (map g js) = map job_id js" using k by simp
  then have ids: "distinct (map job_id (map g js))" using d(1) by (simp only:)
  have inj: "a = b" if ab: "a \<in> set js" "b \<in> set js" "job_key (g a) = job_key (g b)" for a b
  proof (cases "asks a")
    case True
    with ab have "asks b" "input a = input b" using k asks_key input_key by metis+
    with True ab d(5) show ?thesis by blast
  next
    case False
    with ab have "\<not> asks b" using k asks_key by metis
    with False ab k d(4) show ?thesis by metis
  qed
  have "distinct js" using d(1) by (simp add: distinct_map)
  then have keys: "distinct (map job_key (map g js))" using inj by (auto simp: distinct_map inj_on_def)
  have "\<forall>a \<in> set (map g js). \<forall>b \<in> set (map g js). asks a \<and> asks b \<and> input a = input b \<longrightarrow> job_id a = job_id b"
  proof (intro ballI impI, elim conjE)
    fix a b assume "a \<in> set (map g js)" "b \<in> set (map g js)" "asks a" "asks b" "input a = input b"
    then obtain x y where "a = g x" "b = g y" "x \<in> set js" "y \<in> set js" by auto
    with \<open>asks a\<close> \<open>asks b\<close> \<open>input a = input b\<close> k d(5) [of x y] show "job_id a = job_id b" by metis
  qed
  with ids keys st show ?thesis unfolding jobs_ok_def by blast
qed

lemma jobs_ok_update:
  assumes "jobs_ok js" "\<And>j. j \<in> set js \<Longrightarrow> p j \<Longrightarrow> keeps f j"
  shows "jobs_ok (update_where p f js)"
  unfolding update_where_def
  by (rule jobs_ok_map [OF assms(1)]) (use assms(2) in \<open>auto simp: keeps_def\<close>)

lemma jobs_ok_insert:
  assumes "jobs_ok js" "job_id j \<notin> job_id ` set js" "job_key j \<notin> job_key ` set js"
    "\<And>q. q \<in> set js \<Longrightarrow> asks q \<Longrightarrow> asks j \<Longrightarrow> input q \<noteq> input j" "state j = ''queued''"
  shows "jobs_ok (js @ [j])"
proof -
  have "\<forall>a \<in> set (js @ [j]). \<forall>b \<in> set (js @ [j]). asks a \<and> asks b \<and> input a = input b \<longrightarrow> job_id a = job_id b"
  proof (intro ballI impI, elim conjE)
    fix a b assume "a \<in> set (js @ [j])" "b \<in> set (js @ [j])" "asks a" "asks b" "input a = input b"
    then show "job_id a = job_id b"
      using assms(4) [of a] assms(4) [of b] jobs_okD(5) [OF assms(1), of a b] by auto
  qed
  moreover have "distinct (map job_id (js @ [j]))" "distinct (map job_key (js @ [j]))"
    using jobs_okD(1,2) [OF assms(1)] assms(2,3) by simp_all
  moreover have "state ` set (js @ [j]) \<subseteq> job_states" using assms(1,5) by (auto simp: jobs_ok_def job_states_def)
  ultimately show ?thesis unfolding jobs_ok_def by blast
qed


lemma queue_inv_map:
  assumes "queue_inv s" "jobs s' = map g (jobs s)" "\<And>j. j \<in> set (jobs s) \<Longrightarrow> keeps g j"
    "wf_table (followups s')" "set (followups s') \<subseteq> set (followups s)"
    "\<And>j. j \<in> set (jobs s) \<Longrightarrow> job_id j \<in> fst ` set (followups s') \<Longrightarrow> state j = ''leased'' \<Longrightarrow> state (g j) = ''leased''"
  shows "queue_inv s'"
proof -
  have "followup_ok (jobs s') x" if x: "x \<in> set (followups s')" for x
  proof -
    obtain i f where if': "x = (i, f)" by (cases x)
    have "followup_ok (jobs s) (i, f)"
      using assms(1,5) x if' by (auto simp: queue_inv_def list_all_iff)
    then obtain j where j: "j \<in> set (jobs s)" "job_id j = i" "asks j" "state j = ''leased''"
      and f: "investigates (f_kind f)" "\<not> is_revisit (f_trigger f)" by (auto simp: followup_ok_def)
    have "i \<in> fst ` set (followups s')" using x if' by force
    with j assms(3) [OF j(1)] assms(6) [OF j(1)] have "job_id (g j) = i" "asks (g j)" "state (g j) = ''leased''"
      by (auto simp: keeps_def)
    with f j(1) assms(2) if' show ?thesis by (auto simp: followup_ok_def)
  qed
  moreover have "jobs_ok (jobs s')"
    using assms(1-3) jobs_ok_map [of "jobs s" g] by (simp add: queue_inv_def)
  ultimately show ?thesis using assms(4) by (simp add: queue_inv_def list_all_iff)
qed

lemma set_update_subset: "set (AList.update k v al) \<subseteq> insert (k, v) (set al)"
  by (induction al) auto

lemma set_delete: "set (AList.delete k al) = {x \<in> set al. fst x \<noteq> k}"
  by (auto simp: AList.delete_eq)

lemma lane_simps [simp]:
  "jobs (set_lane i b s) = jobs s" "followups (set_lane i b s) = followups s" "runs (set_lane i b s) = runs s"
  "jobs (raise_lane i b s) = jobs s" "followups (raise_lane i b s) = followups s" "runs (raise_lane i b s) = runs s"
  by (simp_all add: set_lane_def raise_lane_def)

lemma fold_raise_lane [simp]:
  "jobs (fold (\<lambda>q. raise_lane (job_id q) fg) qs s) = jobs s"
  "followups (fold (\<lambda>q. raise_lane (job_id q) fg) qs s) = followups s"
  "runs (fold (\<lambda>q. raise_lane (job_id q) fg) qs s) = runs s"
  by (induction qs arbitrary: s) simp_all

lemma queue_inv_cong: "jobs s' = jobs s \<Longrightarrow> followups s' = followups s \<Longrightarrow> queue_inv s' = queue_inv s"
  by (simp add: queue_inv_def)

lemma mk_job_simps [simp]:
  "job_id (mk_job i (a, m, k, t, r, e, at)) = i" "job_key (mk_job i (a, m, k, t, r, e, at)) = (a, m, k, r, t)"
  "asks (mk_job i (a, m, k, t, r, e, at)) = (investigates k \<and> \<not> is_revisit t)"
  "input (mk_job i (a, m, k, t, r, e, at)) = (a, m, r)" "state (mk_job i (a, m, k, t, r, e, at)) = ''queued''"
  "lease (mk_job i (a, m, k, t, r, e, at)) = None"
  by (simp_all add: mk_job_def job_key_def asks_def input_def)

lemma insert_job_inv:
  assumes "queue_inv s" "\<And>q. q \<in> set (jobs s) \<Longrightarrow> asks q \<Longrightarrow> investigates k \<Longrightarrow> \<not> is_revisit t \<Longrightarrow> input q \<noteq> (a, m, r)"
  shows "queue_inv (insert_job (a, m, k, t, r, e, at) s)"
proof (cases "list_ex (\<lambda>q. job_key q = (a, m, k, r, t)) (jobs s)")
  case True
  with assms(1) show ?thesis by (simp add: insert_job_def)
next
  case False
  let ?i = "fresh_id (map job_id (jobs s))"
  have "?i \<notin> job_id ` set (jobs s)"
    using fresh_id_new [of ?i "map job_id (jobs s)"] by auto
  then have "jobs_ok (jobs s @ [mk_job ?i (a, m, k, t, r, e, at)])"
    using assms False by (intro jobs_ok_insert) (auto simp: queue_inv_def list_ex_iff)
  moreover have "list_all (followup_ok (jobs s @ [mk_job ?i (a, m, k, t, r, e, at)])) (followups s)"
    using assms(1) by (auto simp: queue_inv_def list_all_iff followup_ok_def)
  ultimately show ?thesis using assms(1) False by (simp add: insert_job_def queue_inv_def)
qed

lemma update_keys_ok:
  assumes "jobs_ok (jobs s)" "\<And>j. j \<in> set (jobs s) \<Longrightarrow> p j \<Longrightarrow> keeps f j"
  shows "update_keys p f s = Inr (s\<lparr>jobs := update_where p f (jobs s)\<rparr>)"
  using jobs_okD(2) [OF jobs_ok_update [OF assms]] by (simp add: update_keys_def)

lemma existing_job_None:
  "existing_job a m r s = None \<longleftrightarrow> (\<forall>j \<in> set (jobs s). asks j \<longrightarrow> input j \<noteq> (a, m, r))"
  by (auto simp: existing_job_def first_by_None filter_empty_conv asks_def input_def)

lemma existing_job_Some:
  "existing_job a m r s = Some j \<Longrightarrow> j \<in> set (jobs s) \<and> asks j \<and> input j = (a, m, r)"
  using first_by_Some(1) by (fastforce simp: existing_job_def asks_def input_def)

text \<open>Queueing an investigation never runs into a key, and keeps the queue well formed.\<close>

lemma queue_investigation_ok:
  assumes inv: "queue_inv s" and k: "investigates k" and t: "\<not> is_revisit t"
  shows "\<exists>s'. queue_investigation acc m r k t e fg rq now s = Inr s' \<and> queue_inv s'"
proof (cases "existing_job acc m r s")
  case None
  then have "queue_inv (insert_job (acc, m, k, t, r, e, now) s)"
    using existing_job_None [of acc m r s] by (intro insert_job_inv [OF inv]) blast
  then have "queue_inv (fold (\<lambda>q. raise_lane (job_id q) fg) qs (insert_job (acc, m, k, t, r, e, now) s))" for qs
    by (simp add: queue_inv_cong [OF fold_raise_lane(1,2)])
  then show ?thesis by (simp add: queue_investigation_def None Let_def)
next
  case (Some j)
  note j = existing_job_Some [OF Some]
  have ok: "jobs_ok (jobs s)" using inv by (simp add: queue_inv_def)
  have only: "q = j" if "q \<in> set (jobs s)" "job_id q = job_id j" for q
    using jobs_okD(3) [OF ok that(1)] j that(2) by blast
  let ?k = "if k = ''triage'' \<or> kind j = ''triage'' then ''triage'' else ''access''"
  have k': "investigates ?k" by (simp add: investigates_def)
  show ?thesis
  proof (cases "state j = ''leased''")
    case True
    let ?f = "join_followup ?k t e (rq \<and> ?k = ''triage'') (map_of (followups s) (job_id j))"
    have "followup_ok (jobs s) (job_id j, ?f)"
      using j True t k' by (auto simp: followup_ok_def join_followup_def investigates_def split: option.splits)
    moreover have "set (AList.update (job_id j) ?f (followups s)) \<subseteq> insert (job_id j, ?f) (set (followups s))"
      by (rule set_update_subset)
    ultimately have "list_all (followup_ok (jobs s)) (AList.update (job_id j) ?f (followups s))"
      using inv by (auto simp: queue_inv_def list_all_iff)
    with inv True show ?thesis by (simp add: queue_investigation_def Some Let_def queue_inv_def)
  next
    case False
    have keep: "keeps f j" if "\<And>q. job_id (f q) = job_id q \<and> input (f q) = input q \<and> kind (f q) = ?k \<and> trigger (f q) = t
        \<and> (state (f q) = state q \<or> state (f q) \<in> job_states)" for f
      using that [of j] j t k' by (simp add: keeps_def asks_def)
    have upd: "update_keys (\<lambda>q. job_id q = job_id j) f s
          = Inr (s\<lparr>jobs := update_where (\<lambda>q. job_id q = job_id j) f (jobs s)\<rparr>)"
        and row: "queue_inv (s\<lparr>jobs := update_where (\<lambda>q. job_id q = job_id j) f (jobs s)\<rparr>)"
      if f: "\<And>q. job_id (f q) = job_id q \<and> input (f q) = input q \<and> kind (f q) = ?k \<and> trigger (f q) = t
          \<and> (state (f q) = state q \<or> state (f q) \<in> job_states)" for f
    proof -
      show "update_keys (\<lambda>q. job_id q = job_id j) f s
          = Inr (s\<lparr>jobs := update_where (\<lambda>q. job_id q = job_id j) f (jobs s)\<rparr>)"
        using only keep [OF f] by (intro update_keys_ok [OF ok]) auto
      show "queue_inv (s\<lparr>jobs := update_where (\<lambda>q. job_id q = job_id j) f (jobs s)\<rparr>)"
        by (rule queue_inv_map [OF inv, where g = "\<lambda>q. if job_id q = job_id j then f q else q"])
          (use inv only keep [OF f] False in \<open>auto simp: update_where_def queue_inv_def keeps_def\<close>)
    qed
    let ?u = "\<lambda>q. q\<lparr>available := now, last_error := None\<rparr>"
    have unpark: "queue_inv (s'\<lparr>jobs := update_where p ?u (jobs s')\<rparr>)" if "queue_inv s'" for s' p
      by (rule queue_inv_map [OF that, where g = "\<lambda>q. if p q then ?u q else q"])
        (use that in \<open>auto simp: update_where_def queue_inv_def keeps_def input_def asks_def job_key_def\<close>)
    let ?requeue = "\<lambda>q. q\<lparr>state := ''queued'', kind := ?k, trigger := t, attempts := 0, available := now, last_error := None\<rparr>"
    let ?merge = "\<lambda>q. q\<lparr>kind := ?k, trigger := t, eligible := eligible q \<or> e\<rparr>"
    have st: "state j = ''queued'' \<or> state j = ''failed'' \<or> state j = ''completed''"
      using ok j False by (auto simp: jobs_ok_def job_states_def)
    let ?rows = "\<lambda>f. s\<lparr>jobs := update_where (\<lambda>q. job_id q = job_id j) f (jobs s)\<rparr>"
    have R: "update_keys (\<lambda>q. job_id q = job_id j) ?requeue s = Inr (?rows ?requeue)" "queue_inv (?rows ?requeue)"
      by (rule upd row; simp add: input_def job_states_def)+
    have M: "update_keys (\<lambda>q. job_id q = job_id j) ?merge s = Inr (?rows ?merge)" "queue_inv (?rows ?merge)"
      by (rule upd row; simp add: input_def job_states_def)+
    show ?thesis
    proof (cases "(state j = ''completed'' \<and> trigger j \<noteq> t
                  \<or> state j = ''failed'' \<and> starts_with t ''manual:'' \<and> trigger j \<noteq> t) \<and> \<not> quiet t")
      case True
      with R show ?thesis
        by (simp add: queue_investigation_def Some Let_def False queue_inv_cong [OF lane_simps(1,2)])
    next
      case no: False
      show ?thesis
      proof (cases "state j = ''completed''")
        case True
        with no inv show ?thesis by (auto simp: queue_investigation_def Some Let_def)
      next
        case nc: False
        let ?m = "if rq \<and> ?k = ''triage'' \<and> state j = ''queued''
            then (?rows ?merge)\<lparr>jobs := update_where (\<lambda>q. job_id q = job_id j \<and> last_error q = Some ''daily_budget_exhausted'') ?u
                   (jobs (?rows ?merge))\<rparr> else ?rows ?merge"
        have "queue_investigation acc m r k t e fg rq now s = Inr (raise_lane (job_id j) fg ?m)"
          unfolding queue_investigation_def Some Let_def using False no nc st M(1) by (simp only: option.case sum.case if_False if_True simp_thms)
        moreover have "queue_inv ?m" using M(2) unpark [OF M(2)] by (simp only: if_split) blast
        ultimately show ?thesis by (simp only: queue_inv_cong [OF lane_simps(4,5)] sum.inject simp_thms ex_simps)
      qed
    qed
  qed
qed


interpretation rows: id_table job_id mk_job
  by unfold_locales (simp add: mk_job_def split: prod.splits)

lemma rows_wf: "jobs_ok js \<Longrightarrow> rows.wf (fresh_id (map job_id js)) js"
  using jobs_okD(1) [of js] fresh_id_new [of _ "map job_id js"] by (auto simp: rows.wf_def)

lemma holds_lease_count: "jobs_ok js \<Longrightarrow> count_where (holds_lease a) js \<le> 1"
  using rows.count_id_le_1 [OF rows_wf, of js "aj_id a" "\<lambda>j. job_account j = aj_account a \<and> state j = ''leased'' \<and> lease j = Some (aj_token a)"]
  by (simp add: holds_lease_def [abs_def])

lemma holds_lease_none: "jobs_ok js \<Longrightarrow> count_where (holds_lease a) js \<noteq> 1 \<Longrightarrow> update_where (holds_lease a) f js = js"
  using holds_lease_count [of js a] update_where_none [of "holds_lease a" js f] by linarith

lemma queue_inv_update:
  assumes "queue_inv s" "jobs s' = update_where p g (jobs s)" "\<And>j. j \<in> set (jobs s) \<Longrightarrow> p j \<Longrightarrow> keeps g j"
    "wf_table (followups s')" "set (followups s') \<subseteq> set (followups s)"
    "\<And>j. j \<in> set (jobs s) \<Longrightarrow> p j \<Longrightarrow> job_id j \<in> fst ` set (followups s') \<Longrightarrow> state (g j) = ''leased''"
  shows "queue_inv s'"
  by (rule queue_inv_map [OF assms(1), where g = "\<lambda>j. if p j then g j else j"])
    (use assms in \<open>auto simp: update_where_def keeps_def\<close>)

lemma queue_invD:
  assumes "queue_inv s"
  shows "jobs_ok (jobs s)" "wf_table (followups s)"
    "map_of (followups s) i = Some f \<Longrightarrow> investigates (f_kind f) \<and> \<not> is_revisit (f_trigger f)"
    "map_of (followups s) i = Some f \<Longrightarrow> j \<in> set (jobs s) \<Longrightarrow> job_id j = i \<Longrightarrow> asks j"
proof -
  show ok: "jobs_ok (jobs s)" "wf_table (followups s)" using assms by (auto simp: queue_inv_def)
  have f: "followup_ok (jobs s) (i, f)" if "map_of (followups s) i = Some f"
    using assms map_of_SomeD [OF that] by (auto simp: queue_inv_def list_all_iff)
  then show "map_of (followups s) i = Some f \<Longrightarrow> investigates (f_kind f) \<and> \<not> is_revisit (f_trigger f)"
    by (simp add: followup_ok_def)
  show "map_of (followups s) i = Some f \<Longrightarrow> j \<in> set (jobs s) \<Longrightarrow> job_id j = i \<Longrightarrow> asks j"
    using f jobs_okD(3) [OF ok(1)] by (fastforce simp: followup_ok_def)
qed

lemma claim_agent_job_inv: "queue_inv s \<Longrightarrow> queue_inv (snd (claim_agent_job mail a k n tok now s))"
proof -
  assume inv: "queue_inv s"
  have "queue_inv (s\<lparr>jobs := update_where p (\<lambda>q. q\<lparr>state := ''leased'', lease := l, lease_until := u,
      attempts := attempts q + 1\<rparr>) (jobs s)\<rparr>)" for p l u
    by (rule queue_inv_update [OF inv, where p = p and g = "\<lambda>q. q\<lparr>state := ''leased'', lease := l, lease_until := u,
          attempts := attempts q + 1\<rparr>"])
      (use inv in \<open>auto simp: keeps_def input_def asks_def job_key_def job_states_def queue_inv_def\<close>)
  with inv show ?thesis by (simp add: claim_agent_job_def split: option.split)
qed

lemma fail_agent_job_inv: "queue_inv s \<Longrightarrow> queue_inv (snd (fail_agent_job a c s))"
proof -
  assume inv: "queue_inv s"
  let ?f = "\<lambda>q. q\<lparr>state := ''failed'', last_error := Some (machine_code c), lease := None, lease_until := None\<rparr>"
  have k: "keeps ?f j" for j by (simp add: keeps_def input_def asks_def job_key_def job_states_def)
  show ?thesis
  proof (cases "count_where (holds_lease a) (jobs s) = 1")
    case True
    have "queue_inv (s\<lparr>jobs := update_where (holds_lease a) ?f (jobs s), followups := AList.delete (aj_id a) (followups s)\<rparr>)"
      by (rule queue_inv_update [OF inv, where p = "holds_lease a" and g = ?f])
        (use k queue_invD(2) [OF inv] in \<open>auto simp: set_delete holds_lease_def wf_table_def distinct_delete\<close>)
    with True show ?thesis by (simp add: fail_agent_job_def Let_def)
  next
    case False
    then have "update_where (holds_lease a) ?f (jobs s) = jobs s" by (rule holds_lease_none [OF queue_invD(1) [OF inv]])
    with False inv show ?thesis by (simp add: fail_agent_job_def Let_def)
  qed
qed

text \<open>Taking up a follow-up changes one row, and not its state or lease.\<close>

lemma absorb_followup_ok:
  assumes "jobs_ok (jobs s)"
    "\<And>f. map_of (followups s) (aj_id a) = Some f \<Longrightarrow> investigates (f_kind f) \<and> \<not> is_revisit (f_trigger f)
       \<and> (\<forall>j \<in> set (jobs s). job_id j = aj_id a \<longrightarrow> asks j)"
  shows "\<exists>s' g. absorb_followup a now s = Inr s' \<and> jobs s' = map g (jobs s) \<and> followups s' = AList.delete (aj_id a) (followups s)
    \<and> (\<forall>j \<in> set (jobs s). keeps g j \<and> state (g j) = state j \<and> lease (g j) = lease j \<and> lease_until (g j) = lease_until j
        \<and> kind (g j) \<in> {kind j, ''triage''})
    \<and> (\<forall>f j. map_of (followups s) (aj_id a) = Some f \<longrightarrow> j \<in> set (jobs s) \<longrightarrow> job_id j = aj_id a \<longrightarrow>
        trigger (g j) = f_trigger f \<and> (f_kind f = ''triage'' \<longrightarrow> kind (g j) = ''triage''))"
proof (cases "map_of (followups s) (aj_id a)")
  case None
  have "update_where p (\<lambda>q. q) js = js" for p and js :: "job list" by (simp add: update_where_def)
  then have "absorb_followup a now s = Inr (s\<lparr>followups := AList.delete (aj_id a) (followups s)\<rparr>)"
    using jobs_okD(2) [OF assms(1)] by (simp add: absorb_followup_def None Let_def update_keys_def)
  then show ?thesis using None by (intro exI [of _ "s\<lparr>followups := AList.delete (aj_id a) (followups s)\<rparr>"] exI [of _ id])
      (simp add: keeps_def)
next
  case (Some f)
  note f = assms(2) [OF Some]
  let ?i = "aj_id a"
  let ?p = "\<lambda>q. f_foreground f \<and> job_id q = ?i \<and> state q = ''queued'' \<and> last_error q = Some ''daily_budget_exhausted''"
  let ?u = "\<lambda>q. if ?p q then q\<lparr>available := now, last_error := None\<rparr> else q"
  let ?h = "\<lambda>q. q\<lparr>kind := (if kind q = ''triage'' \<or> f_kind f = ''triage'' then ''triage'' else kind q),
       trigger := f_trigger f, eligible := eligible q \<or> f_eligible f\<rparr>"
  let ?g = "\<lambda>q. if job_id q = ?i then ?h (?u q) else q"
  let ?s1 = "if f_foreground f then (set_lane ?i True s)\<lparr>jobs := update_where
      (\<lambda>q. job_id q = ?i \<and> state q = ''queued'' \<and> last_error q = Some ''daily_budget_exhausted'')
      (\<lambda>q. q\<lparr>available := now, last_error := None\<rparr>) (jobs s)\<rparr> else s"
  have s1: "jobs ?s1 = map ?u (jobs s)" "followups ?s1 = followups s" by (auto simp: update_where_def)
  have kg: "keeps ?g j" if "j \<in> set (jobs s)" for j
    using f that by (auto simp: keeps_def input_def asks_def investigates_def)
  have g: "update_where (\<lambda>q. job_id q = ?i) ?h (jobs ?s1) = map ?g (jobs s)"
    unfolding s1 update_where_def by simp
  have "distinct (map job_key (map ?g (jobs s)))"
    using jobs_okD(2) [OF jobs_ok_map [OF assms(1) kg]] by blast
  then have "update_keys (\<lambda>q. job_id q = ?i) ?h ?s1 = Inr (?s1\<lparr>jobs := map ?g (jobs s)\<rparr>)"
    unfolding update_keys_def g Let_def by (simp only: if_True)
  then have "absorb_followup a now s = Inr (?s1\<lparr>jobs := map ?g (jobs s), followups := AList.delete ?i (followups s)\<rparr>)"
    unfolding absorb_followup_def Some Let_def by (simp split del: if_split add: s1(2))
  then show ?thesis using kg Some
    by (intro exI [of _ "?s1\<lparr>jobs := map ?g (jobs s), followups := AList.delete ?i (followups s)\<rparr>"] exI [of _ ?g]) simp
qed


text \<open>Putting a leased job back in the queue, which retrying and deferring do.\<close>

definition requeues :: "(job \<Rightarrow> job) \<Rightarrow> bool" where
  "requeues f \<longleftrightarrow> (\<forall>j. job_id (f j) = job_id j \<and> input (f j) = input j \<and> kind (f j) = kind j \<and> trigger (f j) = trigger j
     \<and> state (f j) = ''queued'' \<and> lease (f j) = None)"

lemma requeues_keeps: "requeues f \<Longrightarrow> keeps f j"
  by (simp add: requeues_def keeps_def asks_def job_key_def input_def job_states_def)

lemma requeue_absorb:
  assumes inv: "queue_inv s" and f: "requeues f"
    and s': "s' = s\<lparr>jobs := update_where (holds_lease a) f (jobs s)\<rparr>"
  shows "\<exists>s'' g. absorb_followup a now s' = Inr s'' \<and> queue_inv s'' \<and> jobs s'' = map g (jobs s)
    \<and> followups s'' = AList.delete (aj_id a) (followups s)
    \<and> (\<forall>j \<in> set (jobs s). job_id (g j) = job_id j \<and> state (g j) = (if holds_lease a j then ''queued'' else state j)
        \<and> lease (g j) = (if holds_lease a j then None else lease j) \<and> (holds_lease a j \<or> lease_until (g j) = lease_until j)
        \<and> kind (g j) \<in> {kind j, ''triage''} \<and> input (g j) = input j)
    \<and> (\<forall>fu j. map_of (followups s) (aj_id a) = Some fu \<longrightarrow> j \<in> set (jobs s) \<longrightarrow> job_id j = aj_id a \<longrightarrow>
        trigger (g j) = f_trigger fu \<and> (f_kind fu = ''triage'' \<longrightarrow> kind (g j) = ''triage''))"
proof -
  let ?f = "\<lambda>j. if holds_lease a j then f j else j"
  have js: "jobs s' = map ?f (jobs s)" "followups s' = followups s" by (simp_all add: s' update_where_def)
  have kf: "keeps ?f j" for j using requeues_keeps [OF f] by (simp add: keeps_def)
  have ok: "jobs_ok (jobs s')" unfolding js by (rule jobs_ok_map [OF queue_invD(1) [OF inv] kf])
  have fu: "investigates (f_kind fu) \<and> \<not> is_revisit (f_trigger fu) \<and> (\<forall>j \<in> set (jobs s'). job_id j = aj_id a \<longrightarrow> asks j)"
    if "map_of (followups s') (aj_id a) = Some fu" for fu
  proof -
    have kf': "job_id (?f j) = job_id j" "asks (?f j) = asks j" for j using kf [of j] unfolding keeps_def by blast+
    note fu = that
    have "asks j" if j: "j \<in> set (jobs s')" "job_id j = aj_id a" for j
    proof -
      obtain q where q: "j = ?f q" "q \<in> set (jobs s)" using j(1) unfolding js(1) set_map by blast
      have "job_id q = aj_id a" using j(2) unfolding q(1) kf'(1) .
      then have "asks q" by (rule queue_invD(4) [OF inv fu [unfolded js(2)] q(2)])
      then show ?thesis unfolding q(1) kf'(2) .
    qed
    then show ?thesis using queue_invD(3) [OF inv fu [unfolded js(2)]] by blast
  qed
  obtain s'' h where h: "absorb_followup a now s' = Inr s''" "jobs s'' = map h (jobs s')"
    "followups s'' = AList.delete (aj_id a) (followups s')"
    and hj: "\<And>j. j \<in> set (jobs s') \<Longrightarrow> keeps h j \<and> state (h j) = state j \<and> lease (h j) = lease j \<and> lease_until (h j) = lease_until j
        \<and> kind (h j) \<in> {kind j, ''triage''}"
    and hf: "\<And>fu j. map_of (followups s') (aj_id a) = Some fu \<Longrightarrow> j \<in> set (jobs s') \<Longrightarrow> job_id j = aj_id a \<Longrightarrow>
        trigger (h j) = f_trigger fu \<and> (f_kind fu = ''triage'' \<longrightarrow> kind (h j) = ''triage'')"
    using absorb_followup_ok [OF ok fu, of now] by blast
  let ?g = "\<lambda>j. h (?f j)"
  have g: "jobs s'' = map ?g (jobs s)" using h(2) js by simp
  have hk: "keeps h (?f j)" and hs: "state (h (?f j)) = state (?f j)" "lease (h (?f j)) = lease (?f j)"
      "lease_until (h (?f j)) = lease_until (?f j)" "kind (h (?f j)) \<in> {kind (?f j), ''triage''}"
    if "j \<in> set (jobs s)" for j using hj [of "?f j"] that js(1) by auto
  have kg: "keeps ?g j" if "j \<in> set (jobs s)" for j
    using hk [OF that] kf [of j] hs(1) [OF that] f unfolding keeps_def requeues_def job_states_def by auto
  have "queue_inv s''"
  proof (rule queue_inv_map [OF inv g kg])
    show "wf_table (followups s'')" "set (followups s'') \<subseteq> set (followups s)"
      using queue_invD(2) [OF inv] h(3) js(2) by (auto simp: set_delete)
    fix j assume j: "j \<in> set (jobs s)" "job_id j \<in> fst ` set (followups s'')" "state j = ''leased''"
    then have "\<not> holds_lease a j" using h(3) js(2) by (auto simp: set_delete holds_lease_def)
    with hs(1) [OF j(1)] j(3) show "state (?g j) = ''leased''" by simp
  qed
  moreover have "job_id (?g j) = job_id j \<and> state (?g j) = (if holds_lease a j then ''queued'' else state j)
        \<and> lease (?g j) = (if holds_lease a j then None else lease j) \<and> (holds_lease a j \<or> lease_until (?g j) = lease_until j)
        \<and> kind (?g j) \<in> {kind j, ''triage''} \<and> input (?g j) = input j" if j: "j \<in> set (jobs s)" for j
    using hs [OF j] kg [OF j] f by (auto simp: keeps_def requeues_def)
  moreover have "trigger (?g j) = f_trigger fu \<and> (f_kind fu = ''triage'' \<longrightarrow> kind (?g j) = ''triage'')"
    if "map_of (followups s) (aj_id a) = Some fu" "j \<in> set (jobs s)" "job_id j = aj_id a" for fu j
    using hf [of fu "?f j"] that js f by (auto simp: requeues_def)
  ultimately show ?thesis using h g js(2)
    by (intro exI [of _ s''] exI [of _ ?g]) (simp only: simp_thms ball_simps, blast)
qed


lemma retry_requeues: "requeues (\<lambda>q. q\<lparr>state := ''queued'', available := at, last_error := e, lease := None, lease_until := None\<rparr>)"
  by (simp add: requeues_def input_def)

lemma defer_requeues: "requeues (\<lambda>q. q\<lparr>state := ''queued'', available := at, last_error := e,
    attempts := max (attempts q - 1) 0, lease := None, lease_until := None\<rparr>)"
  by (simp add: requeues_def input_def)

lemma retry_agent_job_inv: "queue_inv s \<Longrightarrow> queue_inv (snd (retry_agent_job a at c now s))"
  using requeue_absorb [where a = a and now = now, OF _ retry_requeues [where at = at and e = "Some (machine_code c)"] refl, of s]
    holds_lease_none [OF queue_invD(1), of s a]
  by (auto simp: retry_agent_job_def Let_def)

lemma defer_agent_job_inv: "queue_inv s \<Longrightarrow> queue_inv (snd (defer_agent_job a at c now s))"
  using requeue_absorb [where a = a and now = now, OF _ defer_requeues [where at = at and e = "Some (machine_code c)"] refl, of s]
    holds_lease_none [OF queue_invD(1), of s a]
  by (auto simp: defer_agent_job_def Let_def)

text \<open>A job that was completed, without its follow-up.\<close>

definition closed :: "agent_job \<Rightarrow> string \<Rightarrow> string \<Rightarrow> instant \<Rightarrow> queue_db \<Rightarrow> queue_db" where
  "closed a out meta now s = s\<lparr>jobs := update_where (\<lambda>q. job_id q = aj_id a \<and> job_account q = aj_account a)
         (\<lambda>q. q\<lparr>state := ''completed'', lease := None, lease_until := None\<rparr>) (jobs s),
       runs := runs s @ [\<lparr>run_job = aj_id a, run_account = aj_account a, run_message = aj_message a,
         outcome = out, metadata = meta, completed_at = now\<rparr>], followups := AList.delete (aj_id a) (followups s)\<rparr>"

lemma closed_inv: "queue_inv s \<Longrightarrow> queue_inv (closed a out meta now s)"
  by (rule queue_inv_update [where p = "\<lambda>q. job_id q = aj_id a \<and> job_account q = aj_account a"
        and g = "\<lambda>q. q\<lparr>state := ''completed'', lease := None, lease_until := None\<rparr>" and s = s])
    (auto simp: closed_def queue_inv_def set_delete wf_table_def distinct_delete keeps_def input_def asks_def job_key_def job_states_def)

lemma finish_closed:
  "finish a out meta now s = (case map_of (followups s) (aj_id a) of None \<Rightarrow> Inr (closed a out meta now s)
     | Some f \<Rightarrow> (case find (\<lambda>j. job_id j = aj_id a) (jobs (closed a out meta now s)) of None \<Rightarrow> Inl Sqlite
         | Some j \<Rightarrow> queue_investigation (aj_account a) (aj_message a) (revision j) (f_kind f) (f_trigger f)
                        (f_eligible f) (f_foreground f) (f_foreground f) now (closed a out meta now s)))"
  by (simp add: finish_def release_followup_def closed_def Let_def split: option.split)

lemma closed_row:
  "find (\<lambda>j. job_id j = i) (jobs (closed a out meta now s)) = None \<longleftrightarrow> (\<forall>j \<in> set (jobs s). job_id j \<noteq> i)"
proof -
  have "map job_id (jobs (closed a out meta now s)) = map job_id (jobs s)"
    by (simp add: closed_def update_where_def)
  then have "job_id ` set (jobs (closed a out meta now s)) = job_id ` set (jobs s)" by (metis set_map)
  then show ?thesis unfolding find_None_iff by (metis (no_types, lifting) image_iff)
qed

lemma finish_ok:
  assumes "queue_inv s"
  shows "\<exists>s'. finish a out meta now s = Inr s' \<and> queue_inv s'"
proof (cases "map_of (followups s) (aj_id a)")
  case None
  then show ?thesis using closed_inv [OF assms] by (simp add: finish_closed)
next
  case (Some f)
  have "\<exists>j \<in> set (jobs s). job_id j = aj_id a"
    using assms map_of_SomeD [OF Some] by (auto simp: queue_inv_def list_all_iff followup_ok_def)
  then obtain j where "find (\<lambda>j. job_id j = aj_id a) (jobs (closed a out meta now s)) = Some j"
    using closed_row [of "aj_id a" a out meta now s] by (cases "find (\<lambda>j. job_id j = aj_id a) (jobs (closed a out meta now s))") auto
  then show ?thesis
    using queue_investigation_ok [OF closed_inv [OF assms]] queue_invD(3) [OF assms Some] by (simp add: finish_closed Some)
qed

lemma complete_agent_job_inv: "queue_inv s \<Longrightarrow> queue_inv (snd (complete_agent_job a now s))"
  using finish_ok [of s a "''completed''" "''{}''" now]
  by (auto simp: complete_agent_job_def split: sum.split)

text \<open>What the callers of \<open>queue_investigation\<close> ask for: an investigation, never a timer.\<close>

fun legal :: "op \<Rightarrow> bool" where
  "legal (Queue acc m r k t e fg rq now) \<longleftrightarrow> investigates k \<and> \<not> is_revisit t"
| "legal _ \<longleftrightarrow> True"

lemma step_inv: "legal x \<Longrightarrow> queue_inv s \<Longrightarrow> queue_inv (snd (step mail x s))"
proof (cases x)
  case (Queue acc m r k t e fg rq now)
  assume "legal x" "queue_inv s"
  with Queue queue_investigation_ok [of s k t acc m r e fg rq now] show ?thesis by auto
qed (simp_all add: claim_agent_job_inv complete_agent_job_inv fail_agent_job_inv retry_agent_job_inv defer_agent_job_inv)

interpretation queue: guarded_machine "step mail" queue_inv legal
  by unfold_locales (rule step_inv)

definition empty_queue :: queue_db where
  "empty_queue = \<lparr>jobs = [], lanes = [], followups = [], runs = []\<rparr>"

lemma empty_queue_inv [simp]: "queue_inv empty_queue"
  by (simp add: queue_inv_def empty_queue_def jobs_ok_def)

end
