(* ===== verification/Agent_Leases.thy ===== *)
theory Agent_Leases
  imports Agent_Jobs
begin

text \<open>
  What the leases of the triage agent's queue guarantee: one settlement a claim, one
  investigation a conversation, the first ready job first, one row an input, and no request
  lost while a job runs.
\<close>

section \<open>Who holds what\<close>

definition holding :: "job \<Rightarrow> string \<times> string option \<times> instant option \<times> string \<times> int \<times> int" where
  "holding j = (state j, lease j, lease_until j, kind j, job_account j, job_message j)"

text \<open>Everything but a claim: rows keep their ids, and no row is leased that was not before.\<close>

definition no_new_lease :: "job list \<Rightarrow> job list \<Rightarrow> bool" where
  "no_new_lease js js' \<longleftrightarrow> (\<exists>g new. js' = map g js @ new
     \<and> (\<forall>j \<in> set js. job_id (g j) = job_id j \<and> (state (g j) = ''leased'' \<longrightarrow> holding (g j) = holding j))
     \<and> (\<forall>j \<in> set new. state j \<noteq> ''leased'') \<and> distinct (map job_id js'))"

lemma no_new_lease_map:
  assumes "distinct (map job_id js)"
    "\<And>j. j \<in> set js \<Longrightarrow> job_id (g j) = job_id j \<and> (state (g j) = ''leased'' \<longrightarrow> holding (g j) = holding j)"
  shows "no_new_lease js (map g js)"
proof -
  have "map job_id (map g js) = map job_id js" using assms(2) by simp
  then have "distinct (map job_id (map g js))" using assms(1) by (simp only:)
  then show ?thesis using assms(2) unfolding no_new_lease_def by (intro exI [of _ g] exI [of _ "[]"]) simp
qed

lemma no_new_lease_update:
  assumes "distinct (map job_id js)"
    "\<And>j. j \<in> set js \<Longrightarrow> p j \<Longrightarrow> job_id (f j) = job_id j \<and> (state (f j) = ''leased'' \<longrightarrow> holding (f j) = holding j)"
  shows "no_new_lease js (update_where p f js)"
  unfolding update_where_def by (rule no_new_lease_map [OF assms(1)]) (use assms(2) in auto)

lemma no_new_lease_refl: "distinct (map job_id js) \<Longrightarrow> no_new_lease js js"
  using no_new_lease_map [of js id] by simp

lemma no_new_lease_distinct: "no_new_lease js js' \<Longrightarrow> distinct (map job_id js')"
  by (auto simp: no_new_lease_def)

lemma no_new_leaseD:
  assumes "no_new_lease js js'" "j' \<in> set js'" "state j' = ''leased''"
  shows "\<exists>j \<in> set js. job_id j = job_id j' \<and> holding j = holding j'"
proof -
  obtain g new where g: "js' = map g js @ new" "\<forall>j \<in> set new. state j \<noteq> ''leased''"
    "\<And>j. j \<in> set js \<Longrightarrow> job_id (g j) = job_id j \<and> (state (g j) = ''leased'' \<longrightarrow> holding (g j) = holding j)"
    using assms(1) unfolding no_new_lease_def by blast
  then obtain j where "j \<in> set js" "j' = g j" using assms(2,3) by auto
  with g(3) [of j] assms(3) show ?thesis by (intro bexI [of _ j]) auto
qed

lemma no_new_lease_trans:
  assumes "no_new_lease a b" "no_new_lease b c"
  shows "no_new_lease a c"
proof -
  obtain g n where g: "b = map g a @ n" "\<forall>j \<in> set n. state j \<noteq> ''leased''"
    "\<And>j. j \<in> set a \<Longrightarrow> job_id (g j) = job_id j \<and> (state (g j) = ''leased'' \<longrightarrow> holding (g j) = holding j)"
    using assms(1) unfolding no_new_lease_def by blast
  obtain h m where h: "c = map h b @ m" "\<forall>j \<in> set m. state j \<noteq> ''leased''" "distinct (map job_id c)"
    "\<And>j. j \<in> set b \<Longrightarrow> job_id (h j) = job_id j \<and> (state (h j) = ''leased'' \<longrightarrow> holding (h j) = holding j)"
    using assms(2) unfolding no_new_lease_def by blast
  have "c = map (\<lambda>j. h (g j)) a @ (map h n @ m)" by (simp add: h(1) g(1))
  moreover have "job_id (h (g j)) = job_id j \<and> (state (h (g j)) = ''leased'' \<longrightarrow> holding (h (g j)) = holding j)"
    if "j \<in> set a" for j
  proof -
    have gj: "g j \<in> set b" using that by (simp add: g(1))
    have "state (g j) = ''leased''" if "state (h (g j)) = ''leased''" using h(4) [OF gj] that by (simp add: holding_def)
    then show ?thesis using g(3) [OF that] h(4) [OF gj] by auto
  qed
  moreover have "state x \<noteq> ''leased''" if x: "x \<in> set (map h n @ m)" for x
  proof
    assume l: "state x = ''leased''"
    then obtain y where y: "y \<in> set n" "x = h y" using x h(2) by auto
    have "y \<in> set b" using y(1) by (simp add: g(1))
    with h(4) [of y] y l g(2) show False by (auto simp: holding_def)
  qed
  ultimately show ?thesis unfolding no_new_lease_def using h(3) by blast
qed

lemma no_new_lease_insert:
  assumes "distinct (map job_id (jobs s))"
  shows "no_new_lease (jobs s) (jobs (insert_job (acc, m, k, t, r, e, at) s))"
proof (cases "list_ex (\<lambda>q. job_key q = (acc, m, k, r, t)) (jobs s)")
  case True
  then show ?thesis using no_new_lease_refl [OF assms] by (simp add: insert_job_def)
next
  case False
  let ?j = "mk_job (fresh_id (map job_id (jobs s))) (acc, m, k, t, r, e, at)"
  have "fresh_id (map job_id (jobs s)) \<notin> job_id ` set (jobs s)"
    using fresh_id_new [of "fresh_id (map job_id (jobs s))" "map job_id (jobs s)"] by auto
  then have "distinct (map job_id (map id (jobs s) @ [?j]))" using assms by simp
  then have "no_new_lease (jobs s) (map id (jobs s) @ [?j])"
    unfolding no_new_lease_def by (intro exI [of _ id] exI [of _ "[?j]"]) simp
  with False show ?thesis by (simp add: insert_job_def)
qed

lemma queue_investigation_quiet:
  assumes d: "distinct (map job_id (jobs s))" and q: "queue_investigation acc m r k t e fg rq now s = Inr s'"
  shows "no_new_lease (jobs s) (jobs s')"
proof -
  have upd: "no_new_lease js (update_where (\<lambda>q. job_id q = job_id j) f js)"
    if "js = jobs s" "j \<in> set js" "state j \<noteq> ''leased''" "\<And>q. job_id (f q) = job_id q \<and> state (f q) \<in> {state q, ''queued''}" for j f js
  proof (rule no_new_lease_update)
    show "distinct (map job_id js)" using d by (simp add: that(1))
    fix q assume "q \<in> set js" "job_id q = job_id j"
    then have "q = j" using distinct_map_eq [OF d, of q j] that(1,2) by simp
    then show "job_id (f q) = job_id q \<and> (state (f q) = ''leased'' \<longrightarrow> holding (f q) = holding q)"
      using that(3) that(4) [of j] by auto
  qed
  have upd2: "no_new_lease js (update_where p (\<lambda>q. q\<lparr>available := now, last_error := None\<rparr>) js)"
    if "distinct (map job_id js)" for js p
    by (rule no_new_lease_update [OF that]) (simp add: holding_def)
  have fresh: "no_new_lease (jobs s) (jobs (fold (\<lambda>q. raise_lane (job_id q) fg) qs (insert_job (acc, m, k, t, r, e, now) s)))" for qs
    using no_new_lease_insert [OF d] by simp
  show ?thesis
  proof (cases "existing_job acc m r s")
    case None
    with q fresh show ?thesis by (auto simp: queue_investigation_def Let_def)
  next
    case (Some j)
    note j = existing_job_Some [OF Some]
    show ?thesis
    proof (cases "state j = ''leased''")
      case True
      with q Some show ?thesis by (auto simp: queue_investigation_def Let_def no_new_lease_refl [OF d])
    next
      case False
      have R: "no_new_lease (jobs s) (update_where (\<lambda>q. job_id q = job_id j)
          (\<lambda>q. q\<lparr>state := ''queued'', kind := kk, trigger := t, attempts := 0, available := now, last_error := None\<rparr>) (jobs s))" for kk
        by (rule upd [OF refl _ False]) (use j in simp_all)
      have M: "no_new_lease (jobs s) (update_where (\<lambda>q. job_id q = job_id j)
          (\<lambda>q. q\<lparr>kind := kk, trigger := t, eligible := eligible q \<or> e\<rparr>) (jobs s))" for kk
        by (rule upd [OF refl _ False]) (use j in simp_all)
      note MU = no_new_lease_trans [OF M upd2 [OF no_new_lease_distinct [OF M]]]
      show ?thesis
        using q False R M MU fresh no_new_lease_refl [OF d]
        by (auto simp: queue_investigation_def Let_def Some update_keys_def split: if_splits)
    qed
  qed
qed


lemma absorb_followup_quiet:
  assumes d: "distinct (map job_id (jobs s))" and q: "absorb_followup a now s = Inr s'"
    and i: "\<And>j. j \<in> set (jobs s) \<Longrightarrow> job_id j = aj_id a \<Longrightarrow> state j \<noteq> ''leased''"
  shows "no_new_lease (jobs s) (jobs s')"
proof -
  define s1 where "s1 = (if (case map_of (followups s) (aj_id a) of None \<Rightarrow> False | Some f \<Rightarrow> f_foreground f)
     then (set_lane (aj_id a) True s)\<lparr>jobs := update_where
       (\<lambda>q. job_id q = aj_id a \<and> state q = ''queued'' \<and> last_error q = Some ''daily_budget_exhausted'')
       (\<lambda>q. q\<lparr>available := now, last_error := None\<rparr>) (jobs s)\<rparr> else s)"
  have s1: "no_new_lease (jobs s) (jobs s1)"
    unfolding s1_def using no_new_lease_refl [OF d] by (auto intro!: no_new_lease_update [OF d] simp: holding_def)
  have i1: "state j \<noteq> ''leased''" if "j \<in> set (jobs s1)" "job_id j = aj_id a" for j
    using no_new_leaseD [OF s1 that(1)] that(2) i by (metis holding_def prod.inject)
  have "no_new_lease (jobs s1) (jobs s')"
    using q unfolding absorb_followup_def Let_def s1_def [symmetric]
    by (auto simp: update_keys_def Let_def i1 split: if_splits option.splits
        intro!: no_new_lease_update [OF no_new_lease_distinct [OF s1]])
  with s1 show ?thesis by (rule no_new_lease_trans)
qed

lemma closed_quiet:
  "distinct (map job_id (jobs s)) \<Longrightarrow> no_new_lease (jobs s) (jobs (closed a out meta now s))"
  by (auto simp: closed_def intro!: no_new_lease_update)

lemma finish_quiet:
  assumes "distinct (map job_id (jobs s))" "finish a out meta now s = Inr s'"
  shows "no_new_lease (jobs (closed a out meta now s)) (jobs s')"
proof -
  note c = no_new_lease_distinct [OF closed_quiet [OF assms(1)]]
  show ?thesis
    using assms(2) queue_investigation_quiet [OF c] no_new_lease_refl [OF c]
    by (auto simp: finish_closed split: option.splits)
qed

text \<open>The store after the statement that takes a lease back, before what follows in the transaction.\<close>

definition requeued :: "agent_job \<Rightarrow> (job \<Rightarrow> job) \<Rightarrow> queue_db \<Rightarrow> queue_db" where
  "requeued a f s = s\<lparr>jobs := update_where (holds_lease a) f (jobs s)\<rparr>"

lemma requeued_quiet:
  assumes "distinct (map job_id (jobs s))" "requeues f"
  shows "no_new_lease (jobs s) (jobs (requeued a f s))"
  using assms by (auto simp: requeued_def requeues_def intro!: no_new_lease_update)

lemma requeued_free:
  assumes "distinct (map job_id (jobs s))" "requeues f" "count_where (holds_lease a) (jobs s) = 1"
    "j \<in> set (jobs (requeued a f s))" "job_id j = aj_id a"
  shows "state j \<noteq> ''leased''"
proof -
  obtain h where h: "h \<in> set (jobs s)" "holds_lease a h"
    using assms(3) count_where_0 [of "holds_lease a" "jobs s"] by auto
  obtain q where q: "q \<in> set (jobs s)" "j = (if holds_lease a q then f q else q)"
    using assms(4) by (auto simp: requeued_def update_where_def)
  then have "job_id q = job_id h" using assms(2,5) h(2) by (auto simp: requeues_def holds_lease_def split: if_splits)
  then have "q = h" using distinct_map_eq [OF assms(1) q(1) h(1)] by simp
  with q h assms(2) show ?thesis by (simp add: requeues_def)
qed

lemma retry_requeued:
  "retry_agent_job a at c now s = (let f = (\<lambda>q. q\<lparr>state := ''queued'', available := at,
        last_error := Some (machine_code c), lease := None, lease_until := None\<rparr>) in
     if count_where (holds_lease a) (jobs s) = 1
     then (case absorb_followup a now (requeued a f s) of Inl e \<Rightarrow> (Inl e, s) | Inr s' \<Rightarrow> (Inr True, s'))
     else (Inr False, requeued a f s))"
  by (simp add: retry_agent_job_def requeued_def Let_def)

lemma defer_requeued:
  "defer_agent_job a at c now s = (let f = (\<lambda>q. q\<lparr>state := ''queued'', available := at,
        last_error := Some (machine_code c), attempts := max (attempts q - 1) 0, lease := None, lease_until := None\<rparr>) in
     if count_where (holds_lease a) (jobs s) = 1
     then (case absorb_followup a now (requeued a f s) of Inl e \<Rightarrow> (Inl e, s) | Inr s' \<Rightarrow> (Inr True, s'))
     else (Inr False, requeued a f s))"
  by (simp add: defer_agent_job_def requeued_def Let_def)

lemma fail_quiet:
  "distinct (map job_id (jobs s)) \<Longrightarrow> no_new_lease (jobs s) (jobs (snd (fail_agent_job a c s)))"
  by (auto simp: fail_agent_job_def Let_def intro!: no_new_lease_update)

text \<open>Settling a lease with one that was held: whoever held it does not any more.\<close>

definition held :: "int \<times> string \<Rightarrow> queue_db \<Rightarrow> bool" where
  "held k s \<longleftrightarrow> (\<exists>j \<in> set (jobs s). job_id j = fst k \<and> state j = ''leased'' \<and> lease j = Some (snd k))"

lemma held_quiet: "no_new_lease (jobs s) (jobs s') \<Longrightarrow> held k s' \<Longrightarrow> held k s"
  unfolding held_def using no_new_leaseD by (fastforce simp: holding_def)

fun claims :: "int \<times> string \<Rightarrow> op \<Rightarrow> out \<Rightarrow> bool" where
  "claims k (Claim acc kd n tok now) (Got (Inr (Some a))) \<longleftrightarrow> k = (aj_id a, aj_token a)"
| "claims k _ _ \<longleftrightarrow> False"

fun settles :: "int \<times> string \<Rightarrow> op \<Rightarrow> out \<Rightarrow> bool" where
  "settles k (Complete a now) (Settled (Inr b)) \<longleftrightarrow> b \<and> k = (aj_id a, aj_token a)"
| "settles k (Fail a c) (Settled (Inr b)) \<longleftrightarrow> b \<and> k = (aj_id a, aj_token a)"
| "settles k (Retry a at c now) (Settled (Inr b)) \<longleftrightarrow> b \<and> k = (aj_id a, aj_token a)"
| "settles k (Defer a at c now) (Settled (Inr b)) \<longleftrightarrow> b \<and> k = (aj_id a, aj_token a)"
| "settles k _ _ \<longleftrightarrow> False"

lemma requeue_settle:
  assumes d: "distinct (map job_id (jobs s))" and f: "requeues f"
    and r: "r = (if count_where (holds_lease a) (jobs s) = 1
     then (case absorb_followup a now (requeued a f s) of Inl e \<Rightarrow> (Inl e, s) | Inr s' \<Rightarrow> (Inr True, s'))
     else (Inr False, requeued a f s))"
  shows "no_new_lease (jobs s) (jobs (snd r))"
    "fst r = Inr True \<Longrightarrow> held (aj_id a, aj_token a) s \<and> \<not> held (aj_id a, aj_token a) (snd r)"
proof -
  note rq = requeued_quiet [OF d f, of a]
  have ab: "no_new_lease (jobs (requeued a f s)) (jobs s')"
    if "count_where (holds_lease a) (jobs s) = 1" "absorb_followup a now (requeued a f s) = Inr s'" for s'
    by (rule absorb_followup_quiet [OF no_new_lease_distinct [OF rq] that(2) requeued_free [OF d f that(1)]])
  show "no_new_lease (jobs s) (jobs (snd r))"
    using rq no_new_lease_trans [OF rq ab] no_new_lease_refl [OF d] by (auto simp: r split: sum.splits)
  assume "fst r = Inr True"
  then obtain s' where c: "count_where (holds_lease a) (jobs s) = 1" and s': "absorb_followup a now (requeued a f s) = Inr s'" "snd r = s'"
    by (auto simp: r split: if_splits sum.splits)
  have "held (aj_id a, aj_token a) s"
    using c count_where_0 [of "holds_lease a" "jobs s"] by (auto simp: held_def holds_lease_def)
  moreover have "\<not> held (aj_id a, aj_token a) (requeued a f s)"
    using requeued_free [OF d f c] by (auto simp: held_def)
  then have "\<not> held (aj_id a, aj_token a) s'" using held_quiet [OF ab [OF c s'(1)]] by blast
  ultimately show "held (aj_id a, aj_token a) s \<and> \<not> held (aj_id a, aj_token a) (snd r)" by (simp add: s'(2))
qed


definition ids_ok :: "queue_db \<Rightarrow> bool" where
  "ids_ok s \<longleftrightarrow> distinct (map job_id (jobs s))"

lemma complete_settle:
  assumes "ids_ok s"
  shows "no_new_lease (jobs s) (jobs (snd (complete_agent_job a now s)))"
    "fst (complete_agent_job a now s) = Inr True \<Longrightarrow>
       held (aj_id a, aj_token a) s \<and> \<not> held (aj_id a, aj_token a) (snd (complete_agent_job a now s))"
proof -
  note d = assms [unfolded ids_ok_def]
  note q = closed_quiet [OF d, of a "''completed''" "''{}''" now]
  show "no_new_lease (jobs s) (jobs (snd (complete_agent_job a now s)))"
    using no_new_lease_trans [OF q finish_quiet [OF d]] no_new_lease_refl [OF d]
    by (auto simp: complete_agent_job_def split: sum.split)
  assume "fst (complete_agent_job a now s) = Inr True"
  then obtain s' where l: "leased a now s" and s': "finish a ''completed'' ''{}'' now s = Inr s'"
    by (auto simp: complete_agent_job_def split: if_splits sum.splits)
  from l obtain j where j: "j \<in> set (jobs s)" "job_id j = aj_id a" "job_account j = aj_account a" "state j = ''leased''"
    "lease j = Some (aj_token a)" by (auto simp: leased_def list_ex_iff)
  have "q = j" if "q \<in> set (jobs s)" "job_id q = aj_id a" for q
    using distinct_map_eq [OF d that(1) j(1)] that(2) j(2) by simp
  with j(3) have "\<not> held (aj_id a, aj_token a) (closed a ''completed'' ''{}'' now s)"
    by (auto simp: held_def closed_def update_where_def split: if_splits)
  then have "\<not> held (aj_id a, aj_token a) s'" using held_quiet [OF finish_quiet [OF d s']] by blast
  then show "held (aj_id a, aj_token a) s \<and> \<not> held (aj_id a, aj_token a) (snd (complete_agent_job a now s))"
    using j l s' by (auto simp: complete_agent_job_def held_def)
qed

lemma fail_settle:
  assumes "ids_ok s" "fst (fail_agent_job a c s)"
  shows "held (aj_id a, aj_token a) s \<and> \<not> held (aj_id a, aj_token a) (snd (fail_agent_job a c s))"
proof -
  have c: "count_where (holds_lease a) (jobs s) = 1" using assms(2) by (simp add: fail_agent_job_def Let_def)
  then obtain h where h: "h \<in> set (jobs s)" "holds_lease a h" using count_where_0 [of "holds_lease a" "jobs s"] by auto
  have "q = h" if "q \<in> set (jobs s)" "job_id q = aj_id a" for q
    using distinct_map_eq [OF assms(1) [unfolded ids_ok_def] that(1) h(1)] that(2) h(2) by (simp add: holds_lease_def)
  with h c show ?thesis
    by (auto simp: fail_agent_job_def Let_def held_def update_where_def holds_lease_def split: if_splits)
qed

lemmas retry_settle = requeue_settle [OF _ retry_requeues retry_requeued [unfolded Let_def], folded ids_ok_def]
lemmas defer_settle = requeue_settle [OF _ defer_requeues defer_requeued [unfolded Let_def], folded ids_ok_def]

lemma claim_rows:
  assumes "claim_agent_job mail acc k n tok now s = (r, s')"
  shows "(\<exists>j. r = Inr (Some \<lparr>aj_id = job_id j, aj_account = acc, aj_message = job_message j, aj_kind = kind j,
              aj_trigger = trigger j, aj_token = tok, aj_attempts = attempts j + 1, aj_eligible = eligible j,
              aj_foreground = foreground s (job_id j)\<rparr>)
       \<and> first_by (claim_order s) (filter (candidate mail acc k now s) (jobs s)) = Some j \<and> 0 < n
       \<and> s' = s\<lparr>jobs := update_where (\<lambda>q. job_id q = job_id j)
              (\<lambda>q. q\<lparr>state := ''leased'', lease := Some tok, lease_until := Some (now + secs n),
                    attempts := attempts q + 1\<rparr>) (jobs s)\<rparr>)
     \<or> s' = s \<and> (r = Inl InvalidInput \<or> r = Inr None)"
  using assms by (auto simp: claim_agent_job_def split: if_splits option.splits)

fun is_claim :: "op \<Rightarrow> bool" where
  "is_claim (Claim acc k n tok now) \<longleftrightarrow> True"
| "is_claim _ \<longleftrightarrow> False"

lemma step_quiet:
  assumes "ids_ok s" "\<not> is_claim x"
  shows "no_new_lease (jobs s) (jobs (snd (step mail x s)))"
proof (cases x)
  case (Queue acc m r k t e fg rq now)
  then show ?thesis using queue_investigation_quiet assms(1) no_new_lease_refl
    by (auto simp: ids_ok_def split: sum.split)
qed (use assms complete_settle(1) fail_quiet retry_settle(1) defer_settle(1) in \<open>auto simp: ids_ok_def\<close>)

lemma step_ids: "ids_ok s \<Longrightarrow> ids_ok (snd (step mail x s))"
proof (cases "is_claim x")
  case True
  assume d: "ids_ok s"
  from True obtain acc k n tok now where x: "x = Claim acc k n tok now" by (cases x) auto
  obtain r s' where c: "claim_agent_job mail acc k n tok now s = (r, s')" by (cases "claim_agent_job mail acc k n tok now s") auto
  have "map job_id (update_where p (\<lambda>q. q\<lparr>state := ''leased'', lease := Some tok, lease_until := Some (now + secs n),
                    attempts := attempts q + 1\<rparr>) js) = map job_id js" for p js
    by (simp add: update_where_def)
  note ids = arg_cong [OF this, of distinct]
  have js: "jobs (s\<lparr>jobs := js\<rparr>) = js" for js by simp
  have "ids_ok s'" using claim_rows [OF c] d unfolding ids_ok_def by (elim disjE exE conjE) (simp_all only: ids js)
  then show ?thesis by (simp add: x c)
next
  case False
  assume "ids_ok s"
  from no_new_lease_distinct [OF step_quiet [OF this False]] show ?thesis by (simp add: ids_ok_def)
qed

lemma settles_iff:
  "settles k x out \<longleftrightarrow> (\<exists>a. k = (aj_id a, aj_token a) \<and> out = Settled (Inr True)
     \<and> ((\<exists>now. x = Complete a now) \<or> (\<exists>c. x = Fail a c) \<or> (\<exists>at c now. x = Retry a at c now) \<or> (\<exists>at c now. x = Defer a at c now)))"
  by (cases "(k, x, out)" rule: settles.cases) auto

lemma settle_step:
  assumes "ids_ok s" "settles k x (fst (step mail x s))"
  shows "held k s \<and> \<not> held k (snd (step mail x s))"
  using assms(2) complete_settle(2) [OF assms(1)] fail_settle [OF assms(1)] retry_settle(2) [OF assms(1)] defer_settle(2) [OF assms(1)]
  by (auto simp: settles_iff)

interpretation leases: one_shot "step mail" ids_ok held claims settles
proof
  fix s k x
  assume s: "ids_ok s"
  show "ids_ok (snd (step mail x s))" by (rule step_ids [OF s])
  show "settles k x (fst (step mail x s)) \<Longrightarrow> held k s" using settle_step [OF s] by blast
  show "settles k x (fst (step mail x s)) \<Longrightarrow> \<not> held k (snd (step mail x s))" using settle_step [OF s] by blast
  assume n: "\<not> held k s" "held k (snd (step mail x s))"
  then have "is_claim x" using held_quiet [OF step_quiet [OF s]] by blast
  then obtain acc kd n tok now where x: "x = Claim acc kd n tok now" by (cases x) auto
  obtain r s' where c: "claim_agent_job mail acc kd n tok now s = (r, s')" by (cases "claim_agent_job mail acc kd n tok now s") auto
  show "claims k x (fst (step mail x s))"
    using claim_rows [OF c] n by (cases k) (auto simp: x c held_def update_where_def split: if_splits)
qed

lemma ids_ok_empty [simp]: "ids_ok empty_queue"
  by (simp add: ids_ok_def empty_queue_def)

section \<open>Properties\<close>

text \<open>A lease is settled at most once: over any sequence of requests, claims and reports, the
  completions, failures, retries and deferrals that take effect under one job and token are at
  most as many as the claims that handed out that token. A worker whose lease was taken over
  by another reports in vain.\<close>

theorem lease_settled_at_most_once:
  "times (settles k) (trace (step mail) xs empty_queue) \<le> times (claims k) (trace (step mail) xs empty_queue)"
  by (rule leases.redeemed_at_most_issued) (simp_all add: held_def empty_queue_def ids_ok_def)


subsection \<open>One investigation a conversation at a time\<close>

definition live_at :: "instant \<Rightarrow> job \<Rightarrow> bool" where
  "live_at t j \<longleftrightarrow> state j = ''leased'' \<and> (case lease_until j of None \<Rightarrow> False | Some u \<Rightarrow> t < u)"

definition same_thread :: "mail list \<Rightarrow> job \<Rightarrow> job \<Rightarrow> bool" where
  "same_thread mail a b \<longleftrightarrow> job_account a = job_account b \<and> list_ex (\<lambda>m. m_account m = job_account a \<and> m_id m = job_message a
     \<and> list_ex (\<lambda>n. m_account n = job_account b \<and> m_id n = job_message b \<and> m_thread m = m_thread n) mail) mail"

definition exclusive :: "mail list \<Rightarrow> instant \<Rightarrow> queue_db \<Rightarrow> bool" where
  "exclusive mail t s \<longleftrightarrow> list_all (\<lambda>a. list_all (\<lambda>b. live_at t a \<and> live_at t b \<and> investigates (kind a) \<and> investigates (kind b)
     \<and> same_thread mail a b \<longrightarrow> job_id a = job_id b) (jobs s)) (jobs s)"

lemma exclusiveD:
  "exclusive mail t s \<Longrightarrow> a \<in> set (jobs s) \<Longrightarrow> b \<in> set (jobs s) \<Longrightarrow> live_at t a \<Longrightarrow> live_at t b \<Longrightarrow>
     investigates (kind a) \<Longrightarrow> investigates (kind b) \<Longrightarrow> same_thread mail a b \<Longrightarrow> job_id a = job_id b"
  by (simp add: exclusive_def list_all_iff)

lemma exclusiveI:
  "(\<And>a b. a \<in> set (jobs s) \<Longrightarrow> b \<in> set (jobs s) \<Longrightarrow> live_at t a \<Longrightarrow> live_at t b \<Longrightarrow>
     investigates (kind a) \<Longrightarrow> investigates (kind b) \<Longrightarrow> same_thread mail a b \<Longrightarrow> job_id a = job_id b) \<Longrightarrow> exclusive mail t s"
  by (simp add: exclusive_def list_all_iff)

lemma live_later: "t \<le> u \<Longrightarrow> live_at u j \<Longrightarrow> live_at t j"
  by (auto simp: live_at_def split: option.splits)

lemma exclusive_later: "exclusive mail t s \<Longrightarrow> t \<le> u \<Longrightarrow> exclusive mail u s"
  by (rule exclusiveI) (blast intro: exclusiveD live_later)

lemma holding_same:
  assumes "holding a = holding b"
  shows "live_at t a = live_at t b" "kind a = kind b" "job_account a = job_account b" "job_message a = job_message b"
  using assms by (simp_all add: holding_def live_at_def)

lemma same_thread_cong:
  "holding a = holding a' \<Longrightarrow> holding b = holding b' \<Longrightarrow> same_thread mail a b = same_thread mail a' b'"
  by (simp add: same_thread_def holding_same(3,4) [of a a'] holding_same(3,4) [of b b'])

lemma exclusive_quiet:
  assumes "exclusive mail t s" "no_new_lease (jobs s) (jobs s')"
  shows "exclusive mail t s'"
proof (rule exclusiveI)
  fix a b assume a: "a \<in> set (jobs s')" "live_at t a" "investigates (kind a)"
    and b: "b \<in> set (jobs s')" "live_at t b" "investigates (kind b)" and st: "same_thread mail a b"
  obtain x where x: "x \<in> set (jobs s)" "job_id x = job_id a" "holding x = holding a"
    using no_new_leaseD [OF assms(2) a(1)] a(2) by (auto simp: live_at_def)
  obtain y where y: "y \<in> set (jobs s)" "job_id y = job_id b" "holding y = holding b"
    using no_new_leaseD [OF assms(2) b(1)] b(2) by (auto simp: live_at_def)
  have "job_id x = job_id y"
    using exclusiveD [OF assms(1) x(1) y(1)] a b st holding_same [OF x(3)] holding_same [OF y(3)] same_thread_cong [OF x(3) y(3)]
    by simp
  then show "job_id a = job_id b" using x y by simp
qed

lemma same_thread_sym: "same_thread mail a b = same_thread mail b a"
  unfolding same_thread_def list_ex_iff by (intro iffI; elim conjE bexE; intro conjI bexI; simp)

lemma exclusive_claim:
  assumes d: "distinct (map m_id mail)" and s: "ids_ok s" "exclusive mail now s"
  shows "exclusive mail now (snd (claim_agent_job mail acc k n tok now s))"
proof -
  obtain r s' where c: "claim_agent_job mail acc k n tok now s = (r, s')" by (cases "claim_agent_job mail acc k n tok now s") auto
  consider "s' = s" | j where "first_by (claim_order s) (filter (candidate mail acc k now s) (jobs s)) = Some j"
    "s' = s\<lparr>jobs := update_where (\<lambda>q. job_id q = job_id j) (\<lambda>q. q\<lparr>state := ''leased'', lease := Some tok,
        lease_until := Some (now + secs n), attempts := attempts q + 1\<rparr>) (jobs s)\<rparr>"
    using claim_rows [OF c] by blast
  then show ?thesis
  proof cases
    case 1
    with s(2) show ?thesis by (simp add: c)
  next
    case 2
    let ?f = "\<lambda>q. q\<lparr>state := ''leased'', lease := Some tok, lease_until := Some (now + secs n), attempts := attempts q + 1\<rparr>"
    have j: "j \<in> set (jobs s)" "candidate mail acc k now s j" using first_by_Some(1) [OF 2(1)] by auto
    have alone: "False" if busy: "a \<in> set (jobs s)" "live_at now a" "investigates (kind a)" "investigates (kind j)"
      "same_thread mail a j" "job_id a \<noteq> job_id j" for a
    proof -
      obtain m o' where m: "m \<in> set mail" "m_account m = acc" "m_id m = job_message j"
        and o': "o' \<in> set mail" "m_account o' = acc" "m_id o' = job_message a" "m_thread o' = m_thread m" "job_account a = acc"
        using busy(5) j(2) by (auto simp: same_thread_def candidate_def list_ex_iff)
      obtain m' where m': "m' \<in> set mail" "m_id m' = job_message j" and none: "\<not> list_ex (\<lambda>a. job_account a = acc \<and> investigates (kind a)
              \<and> state a = ''leased'' \<and> (case lease_until a of None \<Rightarrow> False | Some t \<Rightarrow> now < t) \<and> job_id a \<noteq> job_id j
              \<and> list_ex (\<lambda>o'. m_account o' = acc \<and> m_id o' = job_message a \<and> m_thread o' = m_thread m') mail) (jobs s)"
        using j(2) busy(4) by (auto simp: candidate_def list_ex_iff)
      have "m' = m" using distinct_map_eq [OF d m'(1) m(1)] m m' by simp
      with none o' busy(1-3,6) show False by (auto simp: list_ex_iff live_at_def)
    qed
    have rows: "\<exists>a \<in> set (jobs s). a' = (if job_id a = job_id j then ?f a else a)" if "a' \<in> set (jobs s')" for a'
      using that 2(2) by (auto simp: update_where_def)
    have "exclusive mail now s'"
    proof (rule exclusiveI)
      fix a' b' assume "a' \<in> set (jobs s')" "b' \<in> set (jobs s')" and la: "live_at now a'" and lb: "live_at now b'"
        and k: "investigates (kind a')" "investigates (kind b')" and t: "same_thread mail a' b'"
      then obtain a b where a: "a \<in> set (jobs s)" "a' = (if job_id a = job_id j then ?f a else a)"
        and b: "b \<in> set (jobs s)" "b' = (if job_id b = job_id j then ?f b else b)" using rows by metis
      have st: "same_thread mail a b" "investigates (kind a)" "investigates (kind b)"
      proof -
        have e: "kind a' = kind a" "job_account a' = job_account a" "job_message a' = job_message a"
          "kind b' = kind b" "job_account b' = job_account b" "job_message b' = job_message b"
          by (simp_all add: a(2) b(2))
        show "same_thread mail a b" using t unfolding same_thread_def e .
        show "investigates (kind a)" "investigates (kind b)" using k unfolding e .
      qed
      have id: "x = j" if "x \<in> set (jobs s)" "job_id x = job_id j" for x
        using distinct_map_eq [OF s(1) [unfolded ids_ok_def] that(1) j(1) that(2)] .
      show "job_id a' = job_id b'"
      proof (cases "job_id a = job_id j \<or> job_id b = job_id j")
        case True
        then show ?thesis
        proof
          assume aj: "job_id a = job_id j"
          then have "a = j" by (rule id [OF a(1)])
          with alone [OF b(1)] st lb b(2) same_thread_sym [of mail a b] have "job_id b = job_id j" by (cases "job_id b = job_id j") auto
          with aj a(2) b(2) show ?thesis by simp
        next
          assume bj: "job_id b = job_id j"
          then have "b = j" by (rule id [OF b(1)])
          with alone [OF a(1)] st la a(2) have "job_id a = job_id j" by (cases "job_id a = job_id j") auto
          with bj a(2) b(2) show ?thesis by simp
        qed
      next
        case False
        then show ?thesis using exclusiveD [OF s(2) a(1) b(1)] la lb st a(2) b(2) by simp
      qed
    qed
    then show ?thesis by (simp add: c)
  qed
qed


definition claim_times :: "op list \<Rightarrow> instant list" where
  "claim_times xs = concat (map (\<lambda>x. case x of Claim acc k n tok now \<Rightarrow> [now] | _ \<Rightarrow> []) xs)"

lemma exclusive_run:
  "distinct (map m_id mail) \<Longrightarrow> ids_ok s \<Longrightarrow> exclusive mail t0 s \<Longrightarrow> sorted (t0 # claim_times xs @ [t]) \<Longrightarrow>
     exclusive mail t (final (step mail) xs s)"
proof (induction xs arbitrary: s t0)
  case Nil
  then show ?case using exclusive_later by (auto simp: claim_times_def)
next
  case (Cons x xs)
  let ?s = "snd (step mail x s)"
  have ids: "ids_ok ?s" by (rule step_ids [OF Cons.prems(2)])
  show ?case
  proof (cases "is_claim x")
    case False
    then have "exclusive mail t0 ?s" using exclusive_quiet [OF Cons.prems(3) step_quiet [OF Cons.prems(2)]] by blast
    moreover have "claim_times (x # xs) = claim_times xs" using False by (cases x) (simp_all add: claim_times_def)
    ultimately show ?thesis using Cons.IH [OF Cons.prems(1) ids] Cons.prems(4) by simp
  next
    case True
    then obtain acc k n tok now where x: "x = Claim acc k n tok now" by (cases x) auto
    then have ct: "claim_times (x # xs) = now # claim_times xs" by (simp add: claim_times_def)
    with Cons.prems(4) have "t0 \<le> now" by simp
    then have "exclusive mail now ?s"
      using exclusive_claim [OF Cons.prems(1,2) exclusive_later [OF Cons.prems(3)]] x by simp
    then show ?thesis using Cons.IH [OF Cons.prems(1) ids] Cons.prems(4) ct by simp
  qed
qed

text \<open>C36. A conversation is investigated by one worker at a time: whatever is queued, claimed and
  reported, in whatever order, if the clock the claims read does not go back, then at any later
  time two jobs of one account whose leases still run and that look at messages of one thread
  are the same job.\<close>

theorem one_investigation_a_thread:
  assumes "distinct (map m_id mail)" "sorted (claim_times xs @ [t])"
  shows "exclusive mail t (final (step mail) xs empty_queue)"
proof -
  have "exclusive mail t0 empty_queue" for t0 by (simp add: exclusive_def empty_queue_def)
  moreover obtain t0 where "sorted (t0 # claim_times xs @ [t])"
    using assms(2) by (cases "claim_times xs @ [t]") (auto intro: that [of "hd (claim_times xs @ [t])"])
  ultimately show ?thesis using exclusive_run [OF assms(1) ids_ok_empty] by blast
qed

definition two_mails :: "mail list" where
  "two_mails = map (\<lambda>i. \<lparr>m_id = i, m_account = 1, m_thread = ''t'', m_from = ''a'', m_subject = ''s'', m_body = ''b'',
     m_received = i, m_sent = False, m_spam = False\<rparr>) [1, 2]"

definition two_claims :: "op list" where
  "two_claims = [Queue 1 1 1 ''triage'' ''arrival'' True True False 5, Queue 1 2 1 ''triage'' ''arrival'' True True False 5,
     Claim 1 ''investigation'' 60 ''x'' 6, Claim 1 ''investigation'' 60 ''y'' 7]"

theorem one_investigation_a_thread_witness:
  "exclusive two_mails 8 (final (step two_mails) two_claims empty_queue)
   \<and> map state (jobs (final (step two_mails) two_claims empty_queue)) = [''leased'', ''queued'']"
proof
  show "exclusive two_mails 8 (final (step two_mails) two_claims empty_queue)"
    by (rule one_investigation_a_thread) (simp_all add: two_mails_def two_claims_def claim_times_def)
  show "map state (jobs (final (step two_mails) two_claims empty_queue)) = [''leased'', ''queued'']"
    by code_simp
qed

subsection \<open>Who is served\<close>

text \<open>A claim serves the first job that is ready: it comes back empty exactly when no job of
  the lane is ready, and otherwise hands out a ready job that no other ready job precedes (a
  person waiting on new mail first, then manual requests, then the rest, oldest first), under
  a lease that holds from that moment.\<close>

theorem claim_serves_the_first:
  assumes "0 < n"
  shows "case claim_agent_job mail acc k n tok now s of
      (Inr None, s') \<Rightarrow> s' = s \<and> \<not> list_ex (candidate mail acc k now s) (jobs s)
    | (Inr (Some a), s') \<Rightarrow> leased a now s'
        \<and> list_ex (\<lambda>j. job_id j = aj_id a \<and> candidate mail acc k now s j
            \<and> list_all (\<lambda>q. candidate mail acc k now s q \<longrightarrow> claim_order s j \<le> claim_order s q) (jobs s)) (jobs s)
    | (Inl _, _) \<Rightarrow> False"
proof (cases "first_by (claim_order s) (filter (candidate mail acc k now s) (jobs s))")
  case None
  then have "filter (candidate mail acc k now s) (jobs s) = []" by (simp add: first_by_None)
  with None assms show ?thesis by (simp add: claim_agent_job_def list_ex_iff filter_empty_conv)
next
  case (Some j)
  note j = first_by_Some [OF Some]
  let ?f = "\<lambda>q. q\<lparr>state := ''leased'', lease := Some tok, lease_until := Some (now + secs n), attempts := attempts q + 1\<rparr>"
  obtain a where a: "claim_agent_job mail acc k n tok now s
      = (Inr (Some a), s\<lparr>jobs := update_where (\<lambda>q. job_id q = job_id j) ?f (jobs s)\<rparr>)"
    and row: "aj_id a = job_id j" "aj_account a = acc" "aj_message a = job_message j" "aj_token a = tok"
    using assms by (auto simp: claim_agent_job_def Some)
  have c: "j \<in> set (jobs s)" "candidate mail acc k now s j" using j(1) by simp_all
  have "?f j \<in> set (update_where (\<lambda>q. job_id q = job_id j) ?f (jobs s))"
    using in_update_where [OF c(1), of "\<lambda>q. job_id q = job_id j" ?f] by simp
  moreover have "job_account j = acc" using c(2) by (simp add: candidate_def)
  moreover have "now < now + secs n" using assms by (simp add: secs_def)
  ultimately have "leased a now (s\<lparr>jobs := update_where (\<lambda>q. job_id q = job_id j) ?f (jobs s)\<rparr>)"
    unfolding leased_def list_ex_iff row by (intro bexI [of _ "?f j"]) simp_all
  moreover have "list_all (\<lambda>q. candidate mail acc k now s q \<longrightarrow> claim_order s j \<le> claim_order s q) (jobs s)"
    using j(2) by (simp add: list_all_iff)
  ultimately show ?thesis using c row(1) unfolding a list_ex_iff by (auto intro!: bexI [of _ j])
qed

theorem claim_serves_the_first_witness:
  "case claim_agent_job two_mails 1 ''investigation'' 60 ''x'' 6 (final (step two_mails) (take 2 two_claims) empty_queue) of
      (Inr (Some a), s') \<Rightarrow> leased a 6 s' | _ \<Rightarrow> False"
proof -
  have "case claim_agent_job two_mails 1 ''investigation'' 60 ''x'' 6 (final (step two_mails) (take 2 two_claims) empty_queue) of
      (Inr (Some a), s') \<Rightarrow> True | _ \<Rightarrow> False"
    by code_simp
  then show ?thesis
    using claim_serves_the_first [where n = 60 and mail = two_mails and acc = 1 and k = "''investigation''" and tok = "''x''"
        and now = 6 and s = "final (step two_mails) (take 2 two_claims) empty_queue"]
    by (auto split: prod.splits sum.splits option.splits)
qed


subsection \<open>One row an input\<close>

fun refused :: "op \<Rightarrow> out \<Rightarrow> bool" where
  "refused (Queue acc m r k t e fg rq now) (Queued (Inl err)) \<longleftrightarrow> True"
| "refused (Complete a now) (Settled (Inl err)) \<longleftrightarrow> True"
| "refused (Retry a at c now) (Settled (Inl err)) \<longleftrightarrow> True"
| "refused (Defer a at c now) (Settled (Inl err)) \<longleftrightarrow> True"
| "refused _ _ \<longleftrightarrow> False"

lemma requeue_never_fails:
  assumes "queue_inv s" "requeues f"
  shows "absorb_followup a now (requeued a f s) \<noteq> Inl e"
  using requeue_absorb [OF assms, of "requeued a f s" a now] by (auto simp: requeued_def)

lemma step_not_refused: "legal x \<Longrightarrow> queue_inv s \<Longrightarrow> \<not> refused x (fst (step mail x s))"
proof (cases x)
  case (Queue acc m r k t e fg rq now)
  assume "legal x" "queue_inv s"
  with Queue queue_investigation_ok [of s k t acc m r e fg rq now] show ?thesis by auto
next
  case (Complete a now)
  assume "queue_inv s"
  with Complete finish_ok [of s a "''completed''" "''{}''" now] show ?thesis
    by (auto simp: complete_agent_job_def split: sum.split)
next
  case (Retry a at c now)
  assume "queue_inv s"
  from requeue_never_fails [OF this retry_requeues] show ?thesis
    unfolding Retry step.simps retry_requeued Let_def by (auto split: sum.splits)
next
  case (Defer a at c now)
  assume "queue_inv s"
  from requeue_never_fails [OF this defer_requeues] show ?thesis
    unfolding Defer step.simps defer_requeued Let_def by (auto split: sum.splits)
qed simp_all

text \<open>Queueing never runs into the table's unique key: as long as callers queue investigations
  (never timers) this way, no request, completion, retry or deferral is ever refused by the
  database, and each input of a message is asked about by at most one job, however requests
  pile up while jobs wait, run, fail or are done.\<close>

theorem requests_never_collide:
  assumes "list_all legal xs"
  shows "times refused (trace (step mail) xs empty_queue) = 0
    \<and> distinct (map input (filter asks (jobs (final (step mail) xs empty_queue))))
    \<and> distinct (map job_key (jobs (final (step mail) xs empty_queue)))"
proof -
  have "list_all legal xs \<Longrightarrow> queue_inv s \<Longrightarrow> times refused (trace (step mail) xs s) = 0" for s
    by (induction xs arbitrary: s) (auto simp: step_not_refused step_inv)
  moreover have ok: "jobs_ok (jobs (final (step mail) xs empty_queue))"
    using queue.inv_final [OF assms empty_queue_inv] by (rule queue_invD(1))
  have "distinct (filter asks js)" if "distinct (map job_id js)" for js
    using that by (simp add: distinct_map)
  then have "distinct (map input (filter asks (jobs (final (step mail) xs empty_queue))))"
    using jobs_okD(1,5) [OF ok] by (auto simp: distinct_map inj_on_def)
  ultimately show ?thesis using assms jobs_okD(2) [OF ok] by simp
qed

theorem requests_never_collide_witness:
  "times refused (trace (step two_mails) two_claims empty_queue) = 0
    \<and> distinct (map input (filter asks (jobs (final (step two_mails) two_claims empty_queue))))"
  using requests_never_collide [of two_claims two_mails]
  by (simp add: two_claims_def investigates_def is_revisit_def like_prefix_def to_ascii_lowercase_def ascii_lower_def
      is_ascii_upper_def)

subsection \<open>Requests made while a job runs\<close>

lemma queue_running:
  assumes inv: "queue_inv s" and j: "j \<in> set (jobs s)" "asks j" "state j = ''leased''"
  shows "existing_job (job_account j) (job_message j) (revision j) s = Some j"
    "queue_investigation (job_account j) (job_message j) (revision j) k t e fg rq now s
      = Inr (s\<lparr>followups := AList.update (job_id j) (join_followup (if k = ''triage'' \<or> kind j = ''triage'' then ''triage'' else ''access'')
          t e (rq \<and> (k = ''triage'' \<or> kind j = ''triage'')) (map_of (followups s) (job_id j))) (followups s)\<rparr>)"
proof -
  have "existing_job (job_account j) (job_message j) (revision j) s \<noteq> None"
    unfolding existing_job_None using j by (auto simp: input_def)
  then obtain q where q: "existing_job (job_account j) (job_message j) (revision j) s = Some q" by blast
  from existing_job_Some [OF q] j jobs_okD(5) [OF queue_invD(1) [OF inv], of q j] have "q = j" by (simp add: input_def)
  with q show e: "existing_job (job_account j) (job_message j) (revision j) s = Some j" by simp
  show "queue_investigation (job_account j) (job_message j) (revision j) k t e fg rq now s
      = Inr (s\<lparr>followups := AList.update (job_id j) (join_followup (if k = ''triage'' \<or> kind j = ''triage'' then ''triage'' else ''access'')
          t e (rq \<and> (k = ''triage'' \<or> kind j = ''triage'')) (map_of (followups s) (job_id j))) (followups s)\<rparr>)"
    using j(3) by (simp add: queue_investigation_def e Let_def)
qed

lemma join_followup_simps [simp]:
  "f_trigger (join_followup k t e lane old) = t" "k = ''triage'' \<Longrightarrow> f_kind (join_followup k t e lane old) = ''triage''"
  by (simp_all add: join_followup_def split: option.split)

text \<open>What is true of the store right after a request was left with a running job.\<close>

definition left_with :: "job \<Rightarrow> string \<Rightarrow> string \<Rightarrow> queue_db \<Rightarrow> bool" where
  "left_with j k t s \<longleftrightarrow> queue_inv s \<and> j \<in> set (jobs s) \<and> asks j \<and> state j = ''leased''
     \<and> (\<exists>f. map_of (followups s) (job_id j) = Some f \<and> f_trigger f = t \<and> (k = ''triage'' \<longrightarrow> f_kind f = ''triage''))"

lemma left_with_queue:
  assumes "queue_inv s" "j \<in> set (jobs s)" "asks j" "state j = ''leased''" "investigates k" "\<not> is_revisit t"
  shows "left_with j k t (snd (step mail (Queue (job_account j) (job_message j) (revision j) k t e fg rq now) s))"
proof -
  obtain s' where s': "queue_investigation (job_account j) (job_message j) (revision j) k t e fg rq now s = Inr s'" "queue_inv s'"
    using queue_investigation_ok [OF assms(1,5,6)] by blast
  with queue_running(2) [OF assms(1-4), of k t e fg rq now] assms(2-4) show ?thesis
    by (auto simp: left_with_def map_of_update intro: exI)
qed

lemma requeue_left_with:
  assumes l: "left_with j k t s" and a: "holds_lease a j" and f: "requeues f"
    and r: "r = (if count_where (holds_lease a) (jobs s) = 1
     then (case absorb_followup a now (requeued a f s) of Inl e \<Rightarrow> (Inl e, s) | Inr s' \<Rightarrow> (Inr True, s'))
     else (Inr False, requeued a f s))"
  shows "fst r = Inr True \<and> (\<exists>q \<in> set (jobs (snd r)). job_id q = job_id j \<and> state q = ''queued'' \<and> trigger q = t
    \<and> (k = ''triage'' \<longrightarrow> kind q = ''triage''))"
proof -
  have inv: "queue_inv s" and j: "j \<in> set (jobs s)" using l by (auto simp: left_with_def)
  obtain fu where fu: "map_of (followups s) (job_id j) = Some fu" "f_trigger fu = t" "k = ''triage'' \<longrightarrow> f_kind fu = ''triage''"
    using l by (auto simp: left_with_def)
  have i: "aj_id a = job_id j" using a by (simp add: holds_lease_def)
  have "count_where (holds_lease a) (jobs s) \<noteq> 0" using j a by (auto simp: count_where_0)
  with holds_lease_count [OF queue_invD(1) [OF inv], of a] have c: "count_where (holds_lease a) (jobs s) = 1" by linarith
  obtain s'' g where g: "absorb_followup a now (requeued a f s) = Inr s''" "jobs s'' = map g (jobs s)"
    "\<And>q. q \<in> set (jobs s) \<Longrightarrow> job_id (g q) = job_id q \<and> state (g q) = (if holds_lease a q then ''queued'' else state q)"
    "trigger (g j) = f_trigger fu \<and> (f_kind fu = ''triage'' \<longrightarrow> kind (g j) = ''triage'')"
  proof -
    obtain s'' g where g: "absorb_followup a now (requeued a f s) = Inr s''" "jobs s'' = map g (jobs s)"
      "\<forall>q \<in> set (jobs s). job_id (g q) = job_id q \<and> state (g q) = (if holds_lease a q then ''queued'' else state q)
        \<and> lease (g q) = (if holds_lease a q then None else lease q) \<and> (holds_lease a q \<or> lease_until (g q) = lease_until q)
        \<and> kind (g q) \<in> {kind q, ''triage''} \<and> input (g q) = input q"
      "\<forall>fu q. map_of (followups s) (aj_id a) = Some fu \<longrightarrow> q \<in> set (jobs s) \<longrightarrow> job_id q = aj_id a \<longrightarrow>
        trigger (g q) = f_trigger fu \<and> (f_kind fu = ''triage'' \<longrightarrow> kind (g q) = ''triage'')"
      using requeue_absorb [OF inv f requeued_def, of a now] by blast
    from g(3,4) fu(1) j i show ?thesis by (intro that [OF g(1,2)]) auto
  qed
  then show ?thesis using c a fu j by (auto simp: r intro!: bexI [of _ j])
qed

text \<open>The row of a run that was just closed is the one of its input.\<close>

lemma closed_running:
  fixes now :: instant
  assumes l: "left_with j k t s" and a: "holds_lease a j" "aj_message a = job_message j"
  defines "c \<equiv> closed a ''completed'' ''{}'' now s"
    and "j' \<equiv> j\<lparr>state := ''completed'', lease := None, lease_until := None\<rparr>"
  shows "j' \<in> set (jobs c)" "find (\<lambda>q. job_id q = aj_id a) (jobs c) = Some j'"
    "existing_job (job_account j) (job_message j) (revision j') c = Some j'"
proof -
  have inv: "queue_inv s" and j: "j \<in> set (jobs s)" "asks j" using l by (auto simp: left_with_def)
  have i: "aj_id a = job_id j" "aj_account a = job_account j" using a by (simp_all add: holds_lease_def)
  have cinv: "queue_inv c" unfolding c_def by (rule closed_inv [OF inv])
  show cj: "j' \<in> set (jobs c)"
    using in_update_where [OF j(1), of "\<lambda>q. job_id q = aj_id a \<and> job_account q = aj_account a"
        "\<lambda>q. q\<lparr>state := ''completed'', lease := None, lease_until := None\<rparr>"] i by (simp add: closed_def c_def j'_def)
  have "find (\<lambda>q. job_id q = job_id j') (jobs c) = Some j'"
    by (rule find_distinct [OF jobs_okD(1) [OF queue_invD(1) [OF cinv]] cj])
  then show "find (\<lambda>q. job_id q = aj_id a) (jobs c) = Some j'" by (simp add: i j'_def)
  have ask: "asks j'" using j(2) by (simp add: asks_def j'_def)
  have "existing_job (job_account j) (job_message j) (revision j') c \<noteq> None"
    unfolding existing_job_None using cj ask by (auto simp: input_def j'_def)
  then obtain q where q: "existing_job (job_account j) (job_message j) (revision j') c = Some q" by blast
  from existing_job_Some [OF q] jobs_okD(5) [OF queue_invD(1) [OF cinv], of q j'] cj ask have "q = j'" by (simp add: input_def j'_def)
  with q show "existing_job (job_account j) (job_message j) (revision j') c = Some j'" by simp
qed

lemma complete_left_with:
  assumes l: "left_with j k t s" and a: "holds_lease a j" "aj_message a = job_message j" and le: "leased a now s"
    and t: "trigger j \<noteq> t" "\<not> quiet t"
  shows "fst (complete_agent_job a now s) = Inr True
    \<and> (\<exists>q \<in> set (jobs (snd (complete_agent_job a now s))). job_id q = job_id j \<and> state q = ''queued'' \<and> trigger q = t
    \<and> (k = ''triage'' \<longrightarrow> kind q = ''triage''))"
proof -
  have inv: "queue_inv s" and j: "j \<in> set (jobs s)" "asks j" using l by (auto simp: left_with_def)
  obtain fu where fu: "map_of (followups s) (job_id j) = Some fu" "f_trigger fu = t" "k = ''triage'' \<longrightarrow> f_kind fu = ''triage''"
    using l by (auto simp: left_with_def)
  let ?c = "closed a ''completed'' ''{}'' now s"
  let ?j = "j\<lparr>state := ''completed'', lease := None, lease_until := None\<rparr>"
  have i: "aj_id a = job_id j" "aj_account a = job_account j" using a by (simp_all add: holds_lease_def)
  note row = closed_running [OF l a, of now]
  have cj: "?j \<in> set (jobs ?c)" and find: "find (\<lambda>q. job_id q = aj_id a) (jobs ?c) = Some ?j"
    and e: "existing_job (job_account j) (job_message j) (revision j) ?c = Some ?j" using row by simp_all
  let ?k = "if f_kind fu = ''triage'' \<or> kind j = ''triage'' then ''triage'' else ''access''"
  obtain s' where s': "finish a ''completed'' ''{}'' now s = Inr s'" using finish_ok [OF inv] by blast
  have js: "jobs s' = update_where (\<lambda>q. job_id q = job_id j)
      (\<lambda>q. q\<lparr>state := ''queued'', kind := ?k, trigger := t, attempts := 0, available := now, last_error := None\<rparr>) (jobs ?c)"
    using s' fu(1,2) t find a(2) i e unfolding finish_closed queue_investigation_def Let_def update_keys_def
    by (auto split: if_splits)
  have "\<exists>q \<in> set (jobs s'). job_id q = job_id j \<and> state q = ''queued'' \<and> trigger q = t \<and> (k = ''triage'' \<longrightarrow> kind q = ''triage'')"
    using in_update_where [OF cj, of "\<lambda>q. job_id q = job_id j" "\<lambda>q. q\<lparr>state := ''queued'', kind := ?k, trigger := t,
        attempts := 0, available := now, last_error := None\<rparr>"] fu(3) unfolding js by (auto intro: bexI [rotated])
  with le s' show ?thesis by (simp add: complete_agent_job_def)
qed


text \<open>What becomes of a request that the run does not leave behind: the row is settled under the run's own trigger and
  nothing more waits for it.\<close>

definition dropped :: "job \<Rightarrow> string \<Rightarrow> queue_db \<Rightarrow> bool" where
  "dropped j st s \<longleftrightarrow> (\<exists>q \<in> set (jobs s). job_id q = job_id j \<and> state q = st \<and> trigger q = trigger j)
     \<and> map_of (followups s) (job_id j) = None"

definition queued_again :: "job \<Rightarrow> string \<Rightarrow> string \<Rightarrow> queue_db \<Rightarrow> bool" where
  "queued_again j k t s \<longleftrightarrow> (\<exists>q \<in> set (jobs s). job_id q = job_id j \<and> state q = ''queued'' \<and> trigger q = t
     \<and> (k = ''triage'' \<longrightarrow> kind q = ''triage''))"

lemma fail_drops:
  assumes "left_with j k t s" "holds_lease a j"
  shows "dropped j ''failed'' (snd (fail_agent_job a c s))"
proof -
  have inv: "queue_inv s" and j: "j \<in> set (jobs s)" using assms(1) by (auto simp: left_with_def)
  have i: "aj_id a = job_id j" using assms(2) by (simp add: holds_lease_def)
  have "count_where (holds_lease a) (jobs s) \<noteq> 0" using j assms(2) by (auto simp: count_where_0)
  with holds_lease_count [OF queue_invD(1) [OF inv], of a] have one: "count_where (holds_lease a) (jobs s) = 1" by linarith
  show ?thesis
    using in_update_where [OF j, of "holds_lease a" "\<lambda>q. q\<lparr>state := ''failed'', last_error := Some (machine_code c), lease := None, lease_until := None\<rparr>"]
      assms(2) one i by (auto simp: fail_agent_job_def Let_def dropped_def map_of_delete intro!: bexI [rotated])
qed

lemma complete_drops:
  assumes l: "left_with j k t s" and a: "holds_lease a j" "aj_message a = job_message j" and le: "leased a now s"
    and t: "trigger j = t \<or> quiet t"
  shows "dropped j ''completed'' (snd (complete_agent_job a now s))"
proof -
  obtain fu where fu: "map_of (followups s) (job_id j) = Some fu" "f_trigger fu = t"
    using l by (auto simp: left_with_def)
  let ?c = "closed a ''completed'' ''{}'' now s" let ?j = "j\<lparr>state := ''completed'', lease := None, lease_until := None\<rparr>"
  have i: "aj_id a = job_id j" "aj_account a = job_account j" using a by (simp_all add: holds_lease_def)
  note row = closed_running [OF l a, of now]
  have "finish a ''completed'' ''{}'' now s = Inr ?c"
    unfolding finish_closed fu(1) [folded i(1)] row(2) queue_investigation_def Let_def option.case i(2) a(2) fu(2)
    using row(3) t by auto
  with le have "snd (complete_agent_job a now s) = ?c" by (simp add: complete_agent_job_def)
  moreover have "map_of (followups ?c) (job_id j) = None" by (simp add: closed_def i map_of_delete)
  ultimately show ?thesis using row(1) unfolding dropped_def by (intro conjI bexI [of _ ?j]) simp_all
qed

text \<open>C37. What becomes of a request about a message whose job is running: it is left with that job, and it is queued
  again under its own trigger, as a full triage if it asked for one, when the job is retried or deferred, and
  when the job completes, provided that the trigger is neither the job's own nor one of the quiet ones. When it is, or when
  the job fails for good, the request is dropped: the row is settled under the job's trigger and nothing
  waits for it any more.\<close>

theorem request_during_run_is_queued_after:
  assumes "queue_inv s" "j \<in> set (jobs s)" "asks j" "investigates k" "\<not> is_revisit t"
    and "holds_lease a j" "aj_message a = job_message j" "leased a done s"
    and "s1 = snd (step mail (Queue (job_account j) (job_message j) (revision j) k t e fg rq now) s)"
  shows "queued_again j k t (snd (step mail (Retry a at c done) s1)) \<and> queued_again j k t (snd (step mail (Defer a at c done) s1))
    \<and> (if trigger j \<noteq> t \<and> \<not> quiet t then queued_again j k t (snd (step mail (Complete a done) s1))
       else dropped j ''completed'' (snd (step mail (Complete a done) s1)))
    \<and> dropped j ''failed'' (snd (step mail (Fail a c) s1))"
proof -
  have st: "state j = ''leased''" using assms(6) by (simp add: holds_lease_def)
  have l: "left_with j k t s1" unfolding assms(9) by (rule left_with_queue [OF assms(1-3) st assms(4,5)])
  have "jobs s1 = jobs s" unfolding assms(9) using queue_running(2) [OF assms(1-3) st] by simp
  then have le: "leased a done s1" using assms(8) by (simp add: leased_def)
  have r: "queued_again j k t (snd (retry_agent_job a at c done s1))"
    unfolding queued_again_def by (rule conjunct2 [OF requeue_left_with [OF l assms(6) retry_requeues retry_requeued [unfolded Let_def]]])
  have d: "queued_again j k t (snd (defer_agent_job a at c done s1))"
    unfolding queued_again_def by (rule conjunct2 [OF requeue_left_with [OF l assms(6) defer_requeues defer_requeued [unfolded Let_def]]])
  show ?thesis
    using r d complete_left_with [OF l assms(6,7) le] complete_drops [OF l assms(6,7) le] fail_drops [OF l assms(6)]
    by (auto simp: queued_again_def)
qed

definition running :: queue_db where
  "running = final (step two_mails) (take 3 two_claims) empty_queue"

definition first_run :: agent_job where
  "first_run = \<lparr>aj_id = 1, aj_account = 1, aj_message = 1, aj_kind = ''triage'', aj_trigger = ''arrival'', aj_token = ''x'',
     aj_attempts = 1, aj_eligible = True, aj_foreground = True\<rparr>"

lemma running_jobs:
  "jobs running = [(mk_job 1 (1, 1, ''triage'', ''arrival'', 1, True, 5))\<lparr>state := ''leased'', lease := Some ''x'',
      lease_until := Some (6 + secs 60), attempts := 1\<rparr>, mk_job 2 (1, 2, ''triage'', ''arrival'', 1, True, 5)]"
  by code_simp

theorem request_during_run_is_queued_after_witness:
  "\<exists>q \<in> set (jobs (snd (step two_mails (Complete first_run 9) (snd (step two_mails
      (Queue 1 1 1 ''triage'' ''manual:now'' False True True 8) running))))). job_id q = 1 \<and> state q = ''queued'' \<and> trigger q = ''manual:now''"
proof -
  let ?j = "(mk_job 1 (1, 1, ''triage'', ''arrival'', 1, True, 5))\<lparr>state := ''leased'', lease := Some ''x'',
      lease_until := Some (6 + secs 60), attempts := 1\<rparr>"
  have t: "\<not> is_revisit ''manual:now''" "\<not> is_revisit ''arrival''" by code_simp+
  have k: "investigates ''triage''" by (simp add: investigates_def)
  have inv: "queue_inv running"
    unfolding running_def by (rule queue.inv_final) (simp_all add: two_claims_def t k)
  have j: "?j \<in> set (jobs running)" "asks ?j" by (simp_all add: running_jobs asks_def mk_job_def t k)
  have h: "holds_lease first_run ?j" "aj_message first_run = job_message ?j" by (simp_all add: holds_lease_def first_run_def mk_job_def)
  have le: "leased first_run 9 running" by (simp add: leased_def running_jobs first_run_def mk_job_def secs_def)
  show ?thesis
    using request_during_run_is_queued_after [OF inv j k t(1) h le refl, where mail = two_mails and e = False and fg = True and rq = True
        and now = 8 and at = 0 and c = "''''"]
    by (auto simp: mk_job_def quiet_def queued_again_def)
qed

end
