(* ===== verification/Agent_Intake.thy ===== *)
theory Agent_Intake
  imports Agent_Jobs "HOL-Library.While_Combinator"
begin

text \<open>
  How mail becomes work for the triage agent (\<open>squelch-core/src/store/sqlite/agent_triage.rs\<close>):
  what is known of each message's content and access, the statement that queues it when it
  arrives or changes, the refresh of every decision that rests on it, the timers a decision may
  set, and the guard that decides what may be read from outside
  (\<open>external_message_allowed_conn\<close> in \<open>messages.rs\<close>).

  The queue is the record of \<open>Agent_Jobs\<close>. SHA-256 over JSON is third-party code: the
  parameter \<open>fingerprint\<close>; so is the rendering of an instant, \<open>rfc3339\<close>. Of a stored decision
  only its existence and its sources matter here.
\<close>

record host =
  fingerprint :: "int \<times> string \<times> string \<times> string \<times> string \<times> instant \<times> bool \<times> bool \<Rightarrow> string"
  rfc3339 :: "instant \<Rightarrow> string"

record message_state =
  ms_account :: int
  ms_message :: int
  ms_snapshot :: string
  ms_revision :: int
  ms_access :: string

record source_row =
  src_account :: int
  src_message :: int
  src_source :: int
  src_revision :: int

record attention_row =
  at_account :: int
  at_thread :: string
  at_message :: int

record attention_source =
  as_account :: int
  as_thread :: string
  as_source :: int
  as_revision :: int

record correction =
  c_account :: int
  c_message :: int
  c_field :: string
  c_value :: string

record agent_db =
  queue :: queue_db
  message_states :: "message_state list"
  decided :: "(int \<times> int) list"
  decision_sources :: "source_row list"
  attention :: "attention_row list"
  attention_sources :: "attention_source list"
  corrections :: "correction list"

definition content_snapshot :: "host \<Rightarrow> mail \<Rightarrow> string" where
  "content_snapshot h m =
     fingerprint h (m_id m, m_thread m, m_from m, m_subject m, m_body m, m_received m, m_sent m, m_spam m)"

definition read_message :: "mail list \<Rightarrow> int \<Rightarrow> int \<Rightarrow> core_error + mail" where
  "read_message mail account i = (case find (\<lambda>m. m_account m = account \<and> m_id m = i) mail of
     None \<Rightarrow> Inl NotFound | Some m \<Rightarrow> Inr m)"

definition state_of :: "int \<Rightarrow> int \<Rightarrow> agent_db \<Rightarrow> message_state option" where
  "state_of account i d = find (\<lambda>p. ms_account p = account \<and> ms_message p = i) (message_states d)"

text \<open>\<open>serde_json\<close> reading a boolean, white space around it allowed.\<close>

definition decode_bool :: "string \<Rightarrow> bool option" where
  "decode_bool s = (let ws = (\<lambda>c. c \<in> set [CHR '' '', char_of (9::nat), char_of (10::nat), char_of (13::nat)]);
       t = rev (dropWhile ws (rev (dropWhile ws s)))
     in if t = ''true'' then Some True else if t = ''false'' then Some False else None)"

definition explicit_access_override :: "int \<Rightarrow> int \<Rightarrow> agent_db \<Rightarrow> core_error + bool option" where
  "explicit_access_override account i d =
     (case find (\<lambda>c. c_account c = account \<and> c_message c = i \<and> c_field c = ''external_access'') (corrections d) of
        None \<Rightarrow> Inr None
      | Some c \<Rightarrow> (case decode_bool (c_value c) of None \<Rightarrow> Inl Other | Some b \<Rightarrow> Inr (Some b)))"

definition set_access :: "int \<Rightarrow> int \<Rightarrow> string \<Rightarrow> agent_db \<Rightarrow> agent_db" where
  "set_access account i access d = d\<lparr>message_states := update_where
     (\<lambda>p. ms_account p = account \<and> ms_message p = i) (\<lambda>p. p\<lparr>ms_access := access\<rparr>) (message_states d)\<rparr>"

text \<open>The upsert of a message's state: new content makes its access pending again.\<close>

definition put_state :: "int \<Rightarrow> int \<Rightarrow> string \<Rightarrow> int \<Rightarrow> agent_db \<Rightarrow> agent_db" where
  "put_state account i snap rv d =
     (if list_ex (\<lambda>p. ms_account p = account \<and> ms_message p = i) (message_states d)
      then d\<lparr>message_states := update_where (\<lambda>p. ms_account p = account \<and> ms_message p = i)
             (\<lambda>p. p\<lparr>ms_snapshot := snap, ms_revision := rv,
                   ms_access := (if ms_snapshot p \<noteq> snap then ''pending'' else ms_access p)\<rparr>) (message_states d)\<rparr>
      else d\<lparr>message_states := message_states d @ [\<lparr>ms_account = account, ms_message = i, ms_snapshot = snap,
             ms_revision = rv, ms_access = ''pending''\<rparr>]\<rparr>)"

section \<open>What rests on what\<close>

text \<open>The nodes a recursive query reaches from one node.\<close>

definition closure :: "(int \<Rightarrow> int list) \<Rightarrow> int \<Rightarrow> int set" where
  "closure f x = (case rtrancl_while (\<lambda>_. True) f x of Some (_, Z) \<Rightarrow> Z | None \<Rightarrow> {})"

text \<open>Pairs of a dependent message and a message it was decided from.\<close>

definition edges :: "int \<Rightarrow> agent_db \<Rightarrow> (int \<times> int) list" where
  "edges account d =
     map (\<lambda>r. (src_message r, src_source r)) (filter (\<lambda>r. src_account r = account) (decision_sources d))
     @ concat (map (\<lambda>r. map (\<lambda>a. (at_message a, as_source r))
          (filter (\<lambda>a. at_account a = as_account r \<and> at_thread a = as_thread r) (attention d)))
        (filter (\<lambda>r. as_account r = account) (attention_sources d)))"

definition affected :: "int \<Rightarrow> int \<Rightarrow> agent_db \<Rightarrow> int set" where
  "affected account source d = closure (\<lambda>x. map fst (filter (\<lambda>e. snd e = x) (edges account d))) source"

definition refresh_targets :: "mail list \<Rightarrow> int \<Rightarrow> int \<Rightarrow> agent_db \<Rightarrow> (mail \<times> message_state) list" where
  "refresh_targets mail account source d =
     concat (map (\<lambda>m. map (Pair m) (filter (\<lambda>p. ms_account p = account \<and> ms_message p = m_id m) (message_states d)))
       (sort_key m_id (filter (\<lambda>m. m_account m = account \<and> m_id m \<in> affected account source d \<and> m_id m \<noteq> source) mail)))"

fun queue_refreshes ::
    "int \<Rightarrow> string \<Rightarrow> instant \<Rightarrow> (mail \<times> message_state) list \<Rightarrow> queue_db \<Rightarrow> core_error + queue_db" where
  "queue_refreshes account t now [] q = Inr q"
| "queue_refreshes account t now ((m, p) # ts) q =
     (case queue_investigation account (m_id m) (ms_revision p)
         (if m_sent m \<or> m_spam m then ''access'' else ''triage'') t False False False now q of
        Inl e \<Rightarrow> Inl e
      | Inr q \<Rightarrow> queue_refreshes account t now ts q)"

definition queue_dependent_refreshes ::
    "mail list \<Rightarrow> int \<Rightarrow> int \<Rightarrow> int \<Rightarrow> instant \<Rightarrow> agent_db \<Rightarrow> core_error + agent_db" where
  "queue_dependent_refreshes mail account source rv now d =
     (case queue_refreshes account (''source_changed:'' @ show_int source @ '':'' @ show_int rv) now
         (refresh_targets mail account source d) (queue d) of
        Inl e \<Rightarrow> Inl e
      | Inr q \<Rightarrow> Inr (d\<lparr>queue := q\<rparr>))"

section \<open>Queueing a message\<close>

definition jobs_of :: "mail \<Rightarrow> queue_db \<Rightarrow> job list" where
  "jobs_of m q = filter (\<lambda>j. job_account j = m_account m \<and> job_message j = m_id m) (jobs q)"

text \<open>The first triage of a message read again before it was decided keeps its place.\<close>

definition keep_foreground :: "mail \<Rightarrow> agent_db \<Rightarrow> agent_db" where
  "keep_foreground m d =
     (if (m_account m, m_id m) \<in> set (decided d) then d
      else d\<lparr>queue := fold (\<lambda>j. set_lane (job_id j) True)
          (filter (\<lambda>j. revision j = 1 \<and> kind j = ''triage'' \<and> pending j) (jobs_of m (queue d))) (queue d)\<rparr>)"

text \<open>Work on earlier content is over, and so is what was left with it.\<close>

definition close_stale :: "mail \<Rightarrow> int \<Rightarrow> queue_db \<Rightarrow> queue_db" where
  "close_stale m rv q = q\<lparr>jobs := update_where
       (\<lambda>j. job_account j = m_account m \<and> job_message j = m_id m \<and> revision j \<noteq> rv \<and> pending j)
       (\<lambda>j. j\<lparr>state := ''completed'', lease := None, lease_until := None\<rparr>) (jobs q),
     followups := filter (\<lambda>(i, f). \<not> list_ex (\<lambda>j. job_id j = i \<and> revision j \<noteq> rv) (jobs_of m q)) (followups q)\<rparr>"

definition reply_target :: "mail list \<Rightarrow> mail \<Rightarrow> mail option" where
  "reply_target mail m = first_by (\<lambda>x. (- m_received x, - m_id x))
     (filter (\<lambda>x. m_account x = m_account m \<and> m_thread x = m_thread m \<and> \<not> m_sent x \<and> \<not> m_spam x) mail)"

lemma reply_target_inbound: "reply_target mail m = Some x \<Longrightarrow> \<not> m_sent x \<and> \<not> m_spam x"
  using first_by_Some(1) by (fastforce simp: reply_target_def)

lemma reply_target_in: "reply_target mail m = Some x \<Longrightarrow> x \<in> set mail"
  using first_by_Some(1) by (fastforce simp: reply_target_def)

function enqueue_row ::
    "host \<Rightarrow> mail list \<Rightarrow> mail \<Rightarrow> string \<Rightarrow> bool \<Rightarrow> bool \<Rightarrow> instant \<Rightarrow> agent_db \<Rightarrow> core_error + agent_db" where
  "enqueue_row h mail m t arrival_eligible requested now d =
     (let acc = m_account m; i = m_id m;
          snap = content_snapshot h m;
          previous = state_of acc i d;
          changed = (case previous of None \<Rightarrow> True | Some p \<Rightarrow> ms_snapshot p \<noteq> snap) in
      if \<not> changed \<and> t \<in> {''arrival'', ''ingest'', ''backfill'', ''heal''} then
        Inr (if t \<noteq> ''backfill'' \<and> (case previous of None \<Rightarrow> False | Some p \<Rightarrow> ms_revision p = 1) \<and> \<not> m_sent m \<and> \<not> m_spam m
             then keep_foreground m d else d)
      else
        let rv = (case previous of None \<Rightarrow> 1 | Some p \<Rightarrow> ms_revision p + (if changed then 1 else 0));
            d = put_state acc i snap rv d in
        case explicit_access_override acc i d of Inl e \<Rightarrow> Inl e | Inr over \<Rightarrow>
        let d = (case over of None \<Rightarrow> d | Some b \<Rightarrow> set_access acc i (if b then ''restricted'' else ''allowed'') d);
            q = queue d;
            unclassified_arrival = (list_ex (\<lambda>j. foreground q (job_id j)) (jobs_of m q) \<and> (acc, i) \<notin> set (decided d));
            pending_arrival = list_ex (\<lambda>j. eligible j \<and> pending j) (jobs_of m q);
            pending_notification = list_ex (\<lambda>j. kind j = ''notification'' \<and> eligible j \<and> pending j) (jobs_of m q);
            q = (if changed then close_stale m rv q else q);
            k = (if m_sent m \<or> m_spam m \<or> t = ''source_access'' then ''access'' else ''triage'');
            new_arrival = (arrival_eligible \<and> previous = None);
            elig = ((new_arrival \<or> changed \<and> pending_arrival) \<and> \<not> m_sent m \<and> \<not> m_spam m);
            fg = (k = ''triage'' \<and> (requested \<or> unclassified_arrival \<or> rv = 1 \<and> t \<in> {''ingest'', ''arrival''})) in
        case (if starts_with t ''revisit:'' then Inr (insert_job (acc, i, k, t, rv, False, now) q)
              else queue_investigation acc i rv k t elig fg requested now q) of Inl e \<Rightarrow> Inl e | Inr q \<Rightarrow>
        let q = (if elig \<and> (new_arrival \<or> pending_notification)
                 then insert_job (acc, i, ''notification'', ''arrival'', rv, True, now) q else q);
            d = d\<lparr>queue := q\<rparr> in
        case (if changed \<and> m_sent m \<and> \<not> m_spam m \<and> t \<noteq> ''source_access''
              then (case reply_target mail m of None \<Rightarrow> Inr d
                    | Some x \<Rightarrow> enqueue_row h mail x (''thread_changed:'' @ show_int i @ '':'' @ show_int rv) False False now d)
              else Inr d) of Inl e \<Rightarrow> Inl e | Inr d \<Rightarrow>
        if changed then queue_dependent_refreshes mail acc i rv now d else Inr d)"
  by pat_completeness auto

termination
  by (relation "measure (\<lambda>(h, mail, m, t, e, rq, now, d). if m_sent m then 1 else 0)")
    (auto dest: reply_target_inbound)

declare enqueue_row.simps [simp del]

definition enqueue_agent_triage_lane ::
    "host \<Rightarrow> mail list \<Rightarrow> int \<Rightarrow> int \<Rightarrow> string \<Rightarrow> bool \<Rightarrow> bool \<Rightarrow> instant \<Rightarrow> agent_db \<Rightarrow> core_error + agent_db" where
  "enqueue_agent_triage_lane h mail account i t arrival_eligible requested now d =
     (case read_message mail account i of Inl e \<Rightarrow> Inl e
      | Inr m \<Rightarrow> enqueue_row h mail m t arrival_eligible requested now d)"

definition enqueue_agent_triage ::
    "host \<Rightarrow> mail list \<Rightarrow> int \<Rightarrow> int \<Rightarrow> string \<Rightarrow> bool \<Rightarrow> instant \<Rightarrow> agent_db \<Rightarrow> core_error + agent_db" where
  "enqueue_agent_triage h mail account i t arrival_eligible now d =
     enqueue_agent_triage_lane h mail account i t arrival_eligible False now d"


text \<open>Evidence that was read before anybody assessed it gets an access job, once.\<close>

fun ensure_source_assessments ::
    "host \<Rightarrow> mail list \<Rightarrow> int \<Rightarrow> mail list \<Rightarrow> instant \<Rightarrow> agent_db \<Rightarrow> core_error + agent_db" where
  "ensure_source_assessments h mail account [] now d = Inr d"
| "ensure_source_assessments h mail account (m # ms) now d =
     (let st = state_of account (m_id m) d;
          js = filter (\<lambda>j. job_account j = account \<and> job_message j = m_id m \<and> investigates (kind j)) (jobs (queue d)) in
      if (case st of None \<Rightarrow> False | Some p \<Rightarrow> ms_access p \<noteq> ''pending'')
         \<or> list_ex pending js
         \<or> list_ex (\<lambda>j. state j \<in> {''failed'', ''completed''} \<and> (case st of None \<Rightarrow> False | Some p \<Rightarrow> revision j = ms_revision p)) js
      then ensure_source_assessments h mail account ms now d
      else case enqueue_agent_triage_lane h mail account (m_id m) ''source_access'' False False now d of
          Inl e \<Rightarrow> Inl e
        | Inr d \<Rightarrow> ensure_source_assessments h mail account ms now d)"

definition ensure_agent_source_ids ::
    "host \<Rightarrow> mail list \<Rightarrow> int \<Rightarrow> int list \<Rightarrow> instant \<Rightarrow> agent_db \<Rightarrow> core_error + agent_db" where
  "ensure_agent_source_ids h mail account ids now d =
     (if list_ex (\<lambda>i. read_message mail account i = Inl NotFound) ids then Inl NotFound
      else ensure_source_assessments h mail account
             (List.map_filter (\<lambda>i. case read_message mail account i of Inl _ \<Rightarrow> None | Inr m \<Rightarrow> Some m) ids) now d)"

section \<open>Timers\<close>

record revisit_policy =
  enabled :: bool
  max_per_message :: nat
  max_per_message_lifetime :: nat
  min_lead_hours :: int
  max_horizon_days :: int
  dedupe_window_hours :: int

definition timers_of :: "agent_job \<Rightarrow> queue_db \<Rightarrow> job list" where
  "timers_of a q = filter (\<lambda>j. job_account j = aj_account a \<and> job_message j = aj_message a \<and> is_revisit (trigger j)) (jobs q)"

text \<open>\<open>revisit\<close>: when the decision asks to look again, if it does.\<close>

definition schedule_revisit ::
    "host \<Rightarrow> agent_job \<Rightarrow> int \<Rightarrow> instant option \<Rightarrow> revisit_policy \<Rightarrow> instant \<Rightarrow> queue_db \<Rightarrow> queue_db" where
  "schedule_revisit h a rv revisit policy now q =
     (case revisit of None \<Rightarrow> q | Some wanted \<Rightarrow>
      if \<not> enabled policy then q
      else
        let earliest = now + hours (max (min_lead_hours policy) 0);
            latest = now + days (max (max_horizon_days policy) 0);
            at = max wanted earliest in
        if latest < at \<or> max_per_message policy = 0 \<or> max_per_message_lifetime policy = 0 then q
        else
          let lifetime = length (timers_of a q);
              waiting = count_where (\<lambda>j. pending j \<and> job_id j \<noteq> aj_id a) (timers_of a q) in
          if max_per_message_lifetime policy \<le> lifetime \<or> max_per_message policy \<le> waiting then q
          else
            let radius = hours (max (dedupe_window_hours policy) 0);
                duplicate = list_ex (\<lambda>j. at - radius \<le> available j \<and> available j \<le> at + radius) (timers_of a q) in
            if duplicate then q
            else insert_job (aj_account a, aj_message a, ''triage'', ''revisit:'' @ rfc3339 h at, rv, False, at) q)"

section \<open>What may be read from outside\<close>

definition message_exists :: "mail list \<Rightarrow> int \<Rightarrow> int \<Rightarrow> bool" where
  "message_exists mail account i \<longleftrightarrow> list_ex (\<lambda>m. m_account m = account \<and> m_id m = i) mail"

definition dependencies :: "int \<Rightarrow> int \<Rightarrow> agent_db \<Rightarrow> int set" where
  "dependencies account i d = closure (\<lambda>x. map src_source
     (filter (\<lambda>r. src_account r = account \<and> src_message r = x) (decision_sources d))) i"

definition external_message_allowed :: "mail list \<Rightarrow> int \<Rightarrow> int \<Rightarrow> agent_db \<Rightarrow> bool" where
  "external_message_allowed mail account i d \<longleftrightarrow>
     message_exists mail account i
     \<and> (\<forall>x \<in> dependencies account i d. message_exists mail account x
          \<and> (case state_of account x d of None \<Rightarrow> False | Some p \<Rightarrow> ms_access p = ''allowed'')
          \<and> \<not> list_ex (\<lambda>c. c_account c = account \<and> c_message c = x \<and> c_field c = ''external_access'' \<and> c_value c = ''true'') (corrections d))
     \<and> list_all (\<lambda>r. src_account r = account \<and> src_message r \<in> dependencies account i d \<longrightarrow>
          (case state_of account (src_source r) d of None \<Rightarrow> False | Some p \<Rightarrow> ms_revision p = src_revision r)) (decision_sources d)"

definition attention_sources_allowed :: "mail list \<Rightarrow> int \<Rightarrow> string \<Rightarrow> agent_db \<Rightarrow> bool" where
  "attention_sources_allowed mail account thread d \<longleftrightarrow>
     list_all (\<lambda>r. map_option ms_revision (state_of account (as_source r) d) = Some (as_revision r)
         \<and> external_message_allowed mail account (as_source r) d)
       (filter (\<lambda>r. as_account r = account \<and> as_thread r = thread) (attention_sources d))"

section \<open>Committing an access assessment\<close>

datatype commit_outcome = Applied | Stale

definition load_agent_access_message :: "mail list \<Rightarrow> agent_job \<Rightarrow> instant \<Rightarrow> agent_db \<Rightarrow> core_error + mail" where
  "load_agent_access_message mail a now d =
     (if aj_kind a \<noteq> ''access'' \<or> \<not> leased a now (queue d) then Inl NotFound
      else read_message mail (aj_account a) (aj_message a))"

text \<open>\<open>content\<close>: the snapshot of the message as it was assessed.\<close>

definition commit_agent_access ::
    "host \<Rightarrow> mail list \<Rightarrow> agent_job \<Rightarrow> string \<Rightarrow> bool \<Rightarrow> string \<Rightarrow> instant \<Rightarrow> agent_db
       \<Rightarrow> (core_error + commit_outcome) \<times> agent_db" where
  "commit_agent_access h mail a content restricted meta now d =
     (if aj_kind a \<noteq> ''access'' \<or> \<not> leased a now (queue d) then (Inr Stale, d)
      else case read_message mail (aj_account a) (aj_message a) of Inl e \<Rightarrow> (Inl e, d) | Inr current \<Rightarrow>
      if content_snapshot h current \<noteq> content then (Inr Stale, d)
      else case explicit_access_override (aj_account a) (aj_message a) d of Inl e \<Rightarrow> (Inl e, d) | Inr over \<Rightarrow>
        let restricted = (case over of None \<Rightarrow> restricted | Some b \<Rightarrow> b);
            d' = set_access (aj_account a) (aj_message a) (if restricted then ''restricted'' else ''allowed'') d in
        case finish a ''access_applied'' meta now (queue d') of
          Inl e \<Rightarrow> (Inl e, d)
        | Inr q \<Rightarrow> (Inr Applied, d'\<lparr>queue := q\<rparr>))"

section \<open>Lemmas\<close>

lemma closure_eq:
  assumes "finite S" "x \<in> S" "\<And>y. y \<in> S \<Longrightarrow> set (f y) \<subseteq> S"
  shows "closure f x = {(x, y). y \<in> set (f x)}\<^sup>* `` {x}"
proof -
  let ?R = "{(x, y). y \<in> set (f x)}"
  have "?R\<^sup>* `` {x} \<subseteq> S"
  proof
    fix y assume "y \<in> ?R\<^sup>* `` {x}"
    then have "(x, y) \<in> ?R\<^sup>*" by simp
    then show "y \<in> S" by (induction rule: rtrancl_induct) (use assms in auto)
  qed
  with assms(1) have "finite (?R\<^sup>* `` {x})" by (rule finite_subset [rotated])
  from rtrancl_while_finite_Some [OF this, of "\<lambda>_. True"]
  obtain ws Z where "rtrancl_while (\<lambda>_. True) f x = Some (ws, Z)" by auto
  with rtrancl_while_Some [OF this] show ?thesis by (auto simp: closure_def split: if_splits)
qed

text \<open>What a message's decision was made from, in one step.\<close>

definition rests_on :: "int \<Rightarrow> agent_db \<Rightarrow> (int \<times> int) set" where
  "rests_on account d = {(src_message r, src_source r) | r. r \<in> set (decision_sources d) \<and> src_account r = account}"

lemma dependencies_eq: "dependencies account i d = (rests_on account d)\<^sup>* `` {i}"
proof -
  let ?f = "\<lambda>x. map src_source (filter (\<lambda>r. src_account r = account \<and> src_message r = x) (decision_sources d))"
  have "closure ?f i = {(x, y). y \<in> set (?f x)}\<^sup>* `` {i}"
    by (rule closure_eq [of "insert i (src_source ` set (decision_sources d))"]) auto
  moreover have "{(x, y). y \<in> set (?f x)} = rests_on account d"
    by (auto simp: rests_on_def)
  ultimately show ?thesis by (simp add: dependencies_def)
qed

text \<open>Everything that rests on a message, by decisions and by the attention of conversations.\<close>

lemma affected_eq: "affected account source d = ((set (edges account d))\<inverse>)\<^sup>* `` {source}"
proof -
  let ?f = "\<lambda>x. map fst (filter (\<lambda>e. snd e = x) (edges account d))"
  have "closure ?f source = {(x, y). y \<in> set (?f x)}\<^sup>* `` {source}"
    by (rule closure_eq [of "insert source (fst ` set (edges account d))"]) auto
  moreover have "{(x, y). y \<in> set (?f x)} = (set (edges account d))\<inverse>"
    by force
  ultimately show ?thesis by (simp add: affected_def)
qed


text \<open>What an intake leaves alone: everything but the queue and the states of messages.\<close>

definition frame :: "agent_db \<Rightarrow> agent_db \<Rightarrow> bool" where
  "frame d d' \<longleftrightarrow> decided d' = decided d \<and> decision_sources d' = decision_sources d \<and> attention d' = attention d
     \<and> attention_sources d' = attention_sources d \<and> corrections d' = corrections d"

lemma frame_refl [simp]: "frame d d"
  by (simp add: frame_def)

lemma frame_trans: "frame a b \<Longrightarrow> frame b c \<Longrightarrow> frame a c"
  by (simp add: frame_def)

lemma frame_simps [simp]:
  "frame d (d\<lparr>queue := q\<rparr>)" "frame d (put_state acc i s r d)" "frame d (set_access acc i a d)"
  "message_states (d\<lparr>queue := q\<rparr>) = message_states d"
  "queue (put_state acc i s r d) = queue d" "queue (set_access acc i a d) = queue d"
  by (simp_all add: frame_def put_state_def set_access_def)

lemma state_of_queue [simp]: "state_of acc i (d\<lparr>queue := q\<rparr>) = state_of acc i d"
  by (simp add: state_of_def)

lemma state_of_put:
  "state_of acc' i' (put_state acc i snap rv d) =
     (if (acc', i') \<noteq> (acc, i) then state_of acc' i' d
      else Some \<lparr>ms_account = acc, ms_message = i, ms_snapshot = snap, ms_revision = rv,
        ms_access = (case state_of acc i d of None \<Rightarrow> ''pending''
          | Some p \<Rightarrow> if ms_snapshot p \<noteq> snap then ''pending'' else ms_access p)\<rparr>)"
proof -
  let ?k = "\<lambda>p. ms_account p = acc \<and> ms_message p = i"
  let ?f = "\<lambda>p. p\<lparr>ms_snapshot := snap, ms_revision := rv, ms_access := (if ms_snapshot p \<noteq> snap then ''pending'' else ms_access p)\<rparr>"
  have other: "find (\<lambda>p. ms_account p = acc' \<and> ms_message p = i') (map (\<lambda>r. if ?k r then ?f r else r) rs)
      = find (\<lambda>p. ms_account p = acc' \<and> ms_message p = i') rs" if "(acc', i') \<noteq> (acc, i)" for rs :: "message_state list"
    using that by (induction rs) auto
  have this_row: "find ?k (map (\<lambda>r. if ?k r then ?f r else r) rs) = map_option ?f (find ?k rs)" for rs :: "message_state list"
    by (induction rs) auto
  have row: "?f p = \<lparr>ms_account = acc, ms_message = i, ms_snapshot = snap, ms_revision = rv,
      ms_access = (if ms_snapshot p \<noteq> snap then ''pending'' else ms_access p)\<rparr>" if "?k p" for p :: message_state
    using that by (cases p) simp
  show ?thesis
  proof (cases "list_ex ?k (message_states d)")
    case True
    then obtain p where p: "find ?k (message_states d) = Some p"
      by (cases "find ?k (message_states d)") (auto simp: find_None_iff list_ex_iff)
    with True other this_row find_Some_in [OF p] show ?thesis
      by (auto simp: put_state_def state_of_def update_where_def row)
  next
    case False
    then have n: "find ?k (message_states d) = None" by (auto simp: find_None_iff list_ex_iff)
    have "find (\<lambda>p. ms_account p = acc' \<and> ms_message p = i') (rs @ [r]) =
        (case find (\<lambda>p. ms_account p = acc' \<and> ms_message p = i') rs of Some x \<Rightarrow> Some x
          | None \<Rightarrow> if ms_account r = acc' \<and> ms_message r = i' then Some r else None)" for rs and r :: message_state
      by (induction rs) auto
    with False n show ?thesis by (auto simp: put_state_def state_of_def split: option.splits)
  qed
qed

lemma state_of_set_access:
  "state_of acc' i' (set_access acc i a d) =
     (if (acc', i') \<noteq> (acc, i) then state_of acc' i' d else map_option (\<lambda>p. p\<lparr>ms_access := a\<rparr>) (state_of acc i d))"
proof -
  let ?k = "\<lambda>p. ms_account p = acc \<and> ms_message p = i"
  have "find (\<lambda>p. ms_account p = acc' \<and> ms_message p = i') (map (\<lambda>r. if ?k r then r\<lparr>ms_access := a\<rparr> else r) rs)
      = find (\<lambda>p. ms_account p = acc' \<and> ms_message p = i') rs" if "(acc', i') \<noteq> (acc, i)" for rs :: "message_state list"
    using that by (induction rs) auto
  moreover have "find ?k (map (\<lambda>r. if ?k r then r\<lparr>ms_access := a\<rparr> else r) rs) = map_option (\<lambda>p. p\<lparr>ms_access := a\<rparr>) (find ?k rs)" for rs :: "message_state list"
    by (induction rs) auto
  ultimately show ?thesis by (simp add: set_access_def state_of_def update_where_def)
qed

lemma refreshes_frame:
  "queue_dependent_refreshes mail acc i rv now d = Inr d' \<Longrightarrow> frame d d' \<and> message_states d' = message_states d"
  by (auto simp: queue_dependent_refreshes_def split: sum.splits)

text \<open>The state of the message an intake ran on, and of all the others but a reply's target.\<close>

definition taken_in :: "host \<Rightarrow> mail list \<Rightarrow> mail \<Rightarrow> agent_db \<Rightarrow> agent_db \<Rightarrow> bool" where
  "taken_in h mail m d d' \<longleftrightarrow> frame d d'
     \<and> (\<forall>acc i. (acc, i) \<noteq> (m_account m, m_id m) \<and> \<not> (m_sent m \<and> (\<exists>x. reply_target mail m = Some x \<and> (acc, i) = (m_account x, m_id x)))
          \<longrightarrow> state_of acc i d' = state_of acc i d)
     \<and> (\<exists>p'. state_of (m_account m) (m_id m) d' = Some p' \<and> ms_snapshot p' = content_snapshot h m
          \<and> (\<forall>p. state_of (m_account m) (m_id m) d = Some p \<and> ms_snapshot p \<noteq> content_snapshot h m \<longrightarrow> ms_revision p' = ms_revision p + 1)
          \<and> ((case state_of (m_account m) (m_id m) d of None \<Rightarrow> True | Some p \<Rightarrow> ms_snapshot p \<noteq> content_snapshot h m)
              \<and> explicit_access_override (m_account m) (m_id m) d \<noteq> Inr (Some False) \<longrightarrow> ms_access p' \<noteq> ''allowed''))"

lemma override_frame: "frame d d' \<Longrightarrow> explicit_access_override acc i d' = explicit_access_override acc i d"
  by (simp add: frame_def explicit_access_override_def)

lemma keep_foreground_frame:
  "frame d (keep_foreground m d) \<and> message_states (keep_foreground m d) = message_states d"
  by (simp add: keep_foreground_def)


definition changes_content :: "host \<Rightarrow> mail \<Rightarrow> agent_db \<Rightarrow> bool" where
  "changes_content h m d \<longleftrightarrow> (case state_of (m_account m) (m_id m) d of None \<Rightarrow> True
     | Some p \<Rightarrow> ms_snapshot p \<noteq> content_snapshot h m)"

definition next_revision :: "host \<Rightarrow> mail \<Rightarrow> agent_db \<Rightarrow> int" where
  "next_revision h m d = (case state_of (m_account m) (m_id m) d of None \<Rightarrow> 1
     | Some p \<Rightarrow> ms_revision p + (if changes_content h m d then 1 else 0))"

definition restated :: "host \<Rightarrow> mail \<Rightarrow> bool option \<Rightarrow> agent_db \<Rightarrow> agent_db" where
  "restated h m over d = (let d = put_state (m_account m) (m_id m) (content_snapshot h m) (next_revision h m d) d in
     case over of None \<Rightarrow> d
     | Some b \<Rightarrow> set_access (m_account m) (m_id m) (if b then ''restricted'' else ''allowed'') d)"

text \<open>The queue after an intake has queued its own message.\<close>

definition queued :: "host \<Rightarrow> mail \<Rightarrow> string \<Rightarrow> bool \<Rightarrow> bool \<Rightarrow> instant \<Rightarrow> agent_db \<Rightarrow> agent_db \<Rightarrow> core_error + queue_db" where
  "queued h m t arrival_eligible requested now d d2 =
     (let acc = m_account m; i = m_id m; q = queue d2; rv = next_revision h m d; changed = changes_content h m d;
          unclassified_arrival = (list_ex (\<lambda>j. foreground q (job_id j)) (jobs_of m q) \<and> (acc, i) \<notin> set (decided d2));
          pending_arrival = list_ex (\<lambda>j. eligible j \<and> pending j) (jobs_of m q);
          pending_notification = list_ex (\<lambda>j. kind j = ''notification'' \<and> eligible j \<and> pending j) (jobs_of m q);
          q = (if changed then close_stale m rv q else q);
          k = (if m_sent m \<or> m_spam m \<or> t = ''source_access'' then ''access'' else ''triage'');
          new_arrival = (arrival_eligible \<and> state_of acc i d = None);
          elig = ((new_arrival \<or> changed \<and> pending_arrival) \<and> \<not> m_sent m \<and> \<not> m_spam m);
          fg = (k = ''triage'' \<and> (requested \<or> unclassified_arrival \<or> rv = 1 \<and> t \<in> {''ingest'', ''arrival''})) in
      case (if starts_with t ''revisit:'' then Inr (insert_job (acc, i, k, t, rv, False, now) q)
            else queue_investigation acc i rv k t elig fg requested now q) of Inl e \<Rightarrow> Inl e | Inr q \<Rightarrow>
      Inr (if elig \<and> (new_arrival \<or> pending_notification)
           then insert_job (acc, i, ''notification'', ''arrival'', rv, True, now) q else q))"

text \<open>An intake in its four parts: restate the message, queue it, take in the mail it answers,
  refresh what rests on it.\<close>

lemma enqueue_row_parts:
  "enqueue_row h mail m t e rq now d =
     (let acc = m_account m; i = m_id m; changed = changes_content h m d; rv = next_revision h m d in
      if \<not> changed \<and> t \<in> {''arrival'', ''ingest'', ''backfill'', ''heal''} then
        Inr (if t \<noteq> ''backfill'' \<and> (case state_of acc i d of None \<Rightarrow> False | Some p \<Rightarrow> ms_revision p = 1) \<and> \<not> m_sent m \<and> \<not> m_spam m
             then keep_foreground m d else d)
      else
        case explicit_access_override acc i d of Inl e \<Rightarrow> Inl e | Inr over \<Rightarrow>
        let d2 = restated h m over d in
        case queued h m t e rq now d d2 of Inl e \<Rightarrow> Inl e | Inr q \<Rightarrow>
        case (if changed \<and> m_sent m \<and> \<not> m_spam m \<and> t \<noteq> ''source_access''
              then (case reply_target mail m of None \<Rightarrow> Inr (d2\<lparr>queue := q\<rparr>)
                    | Some x \<Rightarrow> enqueue_row h mail x (''thread_changed:'' @ show_int i @ '':'' @ show_int rv) False False now (d2\<lparr>queue := q\<rparr>))
              else Inr (d2\<lparr>queue := q\<rparr>)) of Inl e \<Rightarrow> Inl e | Inr d \<Rightarrow>
        if changed then queue_dependent_refreshes mail acc i rv now d else Inr d)"
proof -
  have o: "explicit_access_override acc i (put_state a b s r d) = explicit_access_override acc i d" for acc i a b s r
    by (rule override_frame) simp
  have c: "(case state_of (m_account m) (m_id m) d of None \<Rightarrow> True | Some p \<Rightarrow> ms_snapshot p \<noteq> content_snapshot h m)
      = changes_content h m d" by (simp add: changes_content_def)
  have r: "(case state_of (m_account m) (m_id m) d of None \<Rightarrow> 1 | Some p \<Rightarrow> ms_revision p + (if changes_content h m d then 1 else 0))
      = next_revision h m d" by (simp add: next_revision_def)
  have assoc: "(case (case x of Inl e \<Rightarrow> Inl e | Inr q \<Rightarrow> Inr (f q)) of Inl e \<Rightarrow> Inl e | Inr q \<Rightarrow> g q)
      = (case x of Inl e \<Rightarrow> Inl e | Inr q \<Rightarrow> g (f q))" for x :: "core_error + queue_db" and f g
    by (simp split: sum.split)
  show ?thesis
    by (subst enqueue_row.simps) (simp only: Let_def c r o queued_def restated_def assoc)
qed


lemma taken_in_restated:
  assumes "explicit_access_override (m_account m) (m_id m) d = Inr over"
  shows "taken_in h mail m d ((restated h m over d)\<lparr>queue := q\<rparr>)"
proof -
  have f: "frame d ((restated h m over d)\<lparr>queue := q\<rparr>)"
    by (auto simp: restated_def Let_def frame_def put_state_def set_access_def split: option.split)
  have other: "state_of acc i (restated h m over d) = state_of acc i d" if "(acc, i) \<noteq> (m_account m, m_id m)" for acc i
    using that by (auto simp: restated_def Let_def state_of_put state_of_set_access split: option.split)
  have own: "state_of (m_account m) (m_id m) (restated h m over d) = Some \<lparr>ms_account = m_account m, ms_message = m_id m,
      ms_snapshot = content_snapshot h m, ms_revision = next_revision h m d,
      ms_access = (case over of Some b \<Rightarrow> if b then ''restricted'' else ''allowed''
        | None \<Rightarrow> (case state_of (m_account m) (m_id m) d of None \<Rightarrow> ''pending''
          | Some p \<Rightarrow> if ms_snapshot p \<noteq> content_snapshot h m then ''pending'' else ms_access p))\<rparr>"
    by (simp add: restated_def Let_def state_of_put state_of_set_access split: option.split)
  show ?thesis
    unfolding taken_in_def using f other own assms
    by (auto simp: next_revision_def changes_content_def split: option.splits)
qed

lemma taken_in_states:
  assumes "taken_in h mail m d d'" "frame d' d''" "message_states d'' = message_states d'"
  shows "taken_in h mail m d d''"
proof -
  have "state_of acc i d'' = state_of acc i d'" for acc i using assms(3) by (simp add: state_of_def)
  with assms(1,2) show ?thesis unfolding taken_in_def using frame_trans by (simp only:) blast
qed

lemma taken_in_early:
  assumes "\<not> changes_content h m d"
  shows "taken_in h mail m d d"
  using assms by (auto simp: taken_in_def changes_content_def split: option.splits)

lemma enqueue_inbound_taken_in:
  assumes "enqueue_row h mail m t e rq now d = Inr d'" "\<not> m_sent m"
  shows "taken_in h mail m d d'"
proof (cases "\<not> changes_content h m d \<and> t \<in> {''arrival'', ''ingest'', ''backfill'', ''heal''}")
  case True
  then have "d' = d \<or> d' = keep_foreground m d"
    using assms(1) unfolding enqueue_row_parts [of h mail m t] Let_def by (auto split: if_splits)
  then show ?thesis
    using True taken_in_early [of h m d mail]
      taken_in_states [OF taken_in_early [of h m d mail] conjunct1 [OF keep_foreground_frame] conjunct2 [OF keep_foreground_frame]]
    by blast
next
  case False
  with assms obtain over q where over: "explicit_access_override (m_account m) (m_id m) d = Inr over"
    and d': "(if changes_content h m d then queue_dependent_refreshes mail (m_account m) (m_id m) (next_revision h m d) now
        ((restated h m over d)\<lparr>queue := q\<rparr>) else Inr ((restated h m over d)\<lparr>queue := q\<rparr>)) = Inr d'"
    unfolding enqueue_row_parts [of h mail m t] Let_def if_not_P [OF False] by (auto split: sum.splits)
  note t = taken_in_restated [OF over, of h mail q]
  from d' show ?thesis
    using t taken_in_states [OF t] refreshes_frame by (auto split: if_splits)
qed

lemma taken_in_reply:
  assumes "taken_in h mail m d d1" "taken_in h mail x d1 d3" "m_sent m" "reply_target mail m = Some x"
    "(m_account m, m_id m) \<noteq> (m_account x, m_id x)"
  shows "taken_in h mail m d d3"
proof -
  have x: "\<not> m_sent x" using reply_target_inbound [OF assms(4)] by blast
  have s: "state_of acc i d3 = state_of acc i d1" if "(acc, i) \<noteq> (m_account x, m_id x)" for acc i
    using assms(2) that x by (auto simp: taken_in_def)
  have "frame d d3" using assms(1,2) frame_trans unfolding taken_in_def by blast
  moreover have "state_of acc i d3 = state_of acc i d"
    if "(acc, i) \<noteq> (m_account m, m_id m)" "\<not> (\<exists>x. reply_target mail m = Some x \<and> (acc, i) = (m_account x, m_id x))" for acc i
  proof -
    have "(acc, i) \<noteq> (m_account x, m_id x)" using that(2) assms(4) by blast
    moreover have "state_of acc i d1 = state_of acc i d" using assms(1) that unfolding taken_in_def by blast
    ultimately show ?thesis using s by simp
  qed
  moreover have "state_of (m_account m) (m_id m) d3 = state_of (m_account m) (m_id m) d1" by (rule s [OF assms(5)])
  ultimately show ?thesis using assms(1,3) by (simp add: taken_in_def)
qed

lemma enqueue_taken_in:
  assumes "enqueue_row h mail m t e rq now d = Inr d'" "m \<in> set mail" "distinct (map m_id mail)"
  shows "taken_in h mail m d d'"
proof (cases "m_sent m")
  case False
  with assms(1) show ?thesis by (rule enqueue_inbound_taken_in)
next
  case sent: True
  show ?thesis
  proof (cases "\<not> changes_content h m d \<and> t \<in> {''arrival'', ''ingest'', ''backfill'', ''heal''}")
    case True
    then have "d' = d" using assms(1) sent unfolding enqueue_row_parts [of h mail m t] Let_def by (auto split: if_splits)
    with True taken_in_early show ?thesis by blast
  next
    case False
    let ?x = "\<lambda>x q d3 over. enqueue_row h mail x (''thread_changed:'' @ show_int (m_id m) @ '':'' @ show_int (next_revision h m d))
        False False now ((restated h m over d)\<lparr>queue := q\<rparr>) = Inr d3 \<and> reply_target mail m = Some x"
    from False assms(1) obtain over q d3 where over: "explicit_access_override (m_account m) (m_id m) d = Inr over"
      and d3: "d3 = (restated h m over d)\<lparr>queue := q\<rparr> \<or> (\<exists>x. ?x x q d3 over)"
      and d': "(if changes_content h m d then queue_dependent_refreshes mail (m_account m) (m_id m) (next_revision h m d) now d3
        else Inr d3) = Inr d'"
      unfolding enqueue_row_parts [of h mail m t] Let_def if_not_P [OF False] by (auto split: sum.splits if_splits option.splits)
    note t = taken_in_restated [OF over, of h mail q]
    have "taken_in h mail m d d3"
      using d3
    proof
      assume "\<exists>x. ?x x q d3 over"
      then obtain x where x: "?x x q d3 over" by blast
      then have xin: "\<not> m_sent x" "x \<in> set mail" using reply_target_inbound reply_target_in by blast+
      then have "m_id x \<noteq> m_id m" using sent assms(2,3) distinct_map_eq [of m_id mail x m] by auto
      moreover have "taken_in h mail x ((restated h m over d)\<lparr>queue := q\<rparr>) d3"
        using x xin(1) by (intro enqueue_inbound_taken_in) auto
      ultimately show ?thesis using x by (intro taken_in_reply [OF t _ sent]) auto
    qed (simp add: t)
    with d' show ?thesis using taken_in_states refreshes_frame by (auto split: if_splits)
  qed
qed


section \<open>Properties\<close>

text \<open>The guard on what is read from outside is exactly reachability: a message may be shown
  when it exists and every message its decision rests on, directly or through other decisions,
  however they form cycles, exists, has been assessed as allowed and is not restricted by its
  reader, and every decision on the way was made from the current content of its sources.\<close>

theorem external_reading_is_reachability:
  "external_message_allowed mail acc i d \<longleftrightarrow> message_exists mail acc i
     \<and> (\<forall>x. (i, x) \<in> (rests_on acc d)\<^sup>* \<longrightarrow> message_exists mail acc x
          \<and> map_option ms_access (state_of acc x d) = Some ''allowed''
          \<and> \<not> list_ex (\<lambda>c. c_account c = acc \<and> c_message c = x \<and> c_field c = ''external_access'' \<and> c_value c = ''true'') (corrections d)
          \<and> list_all (\<lambda>r. src_account r = acc \<and> src_message r = x \<longrightarrow>
               map_option ms_revision (state_of acc (src_source r) d) = Some (src_revision r)) (decision_sources d))"
proof -
  have o: "(case st of None \<Rightarrow> False | Some p \<Rightarrow> f p = v) = (map_option f st = Some v)" for st :: "message_state option" and f and v :: 'v
    by (cases st) auto
  show ?thesis
    unfolding external_message_allowed_def dependencies_eq list_all_iff o Image_singleton_iff Ball_def
    by blast
qed

text \<open>New content shuts the outside out at once: when the intake of a message that is new or
  whose content changed succeeds, neither that message nor anything whose decision rests on it
  may be read from outside until it is assessed again, unless its reader had explicitly allowed it.\<close>

theorem changed_mail_is_shut_out:
  assumes "distinct (map m_id mail)" "m \<in> set mail"
    and "enqueue_row h mail m t e rq now d = Inr d'"
    and "changes_content h m d" "explicit_access_override (m_account m) (m_id m) d \<noteq> Inr (Some False)"
    and "(k, m_id m) \<in> (rests_on (m_account m) d)\<^sup>*"
  shows "\<not> external_message_allowed mail (m_account m) k d'"
proof -
  have t: "taken_in h mail m d d'" by (rule enqueue_taken_in [OF assms(3,2,1)])
  have c: "case state_of (m_account m) (m_id m) d of None \<Rightarrow> True | Some p \<Rightarrow> ms_snapshot p \<noteq> content_snapshot h m"
    using assms(4) by (simp add: changes_content_def)
  have "rests_on (m_account m) d' = rests_on (m_account m) d"
    using t by (simp add: taken_in_def frame_def rests_on_def)
  with assms(6) have "m_id m \<in> dependencies (m_account m) k d'" by (simp add: dependencies_eq)
  moreover obtain p' where "state_of (m_account m) (m_id m) d' = Some p'" "ms_access p' \<noteq> ''allowed''"
    using t c assms(5) unfolding taken_in_def by blast
  ultimately show ?thesis by (force simp: external_message_allowed_def)
qed

text \<open>Fetching mail again is free: whatever brought a message in, taking the same content in
  once more, as an arrival, an ingest, a backfill or a healing re-read, succeeds and leaves every
  job, every follow-up and every message's state as they are.\<close>

theorem intake_is_idempotent:
  assumes "distinct (map m_id mail)" "m \<in> set mail"
    and "enqueue_row h mail m t e rq now d = Inr d'" "t' \<in> {''arrival'', ''ingest'', ''backfill'', ''heal''}"
  shows "case enqueue_row h mail m t' e' rq' now' d' of Inl _ \<Rightarrow> False
    | Inr d'' \<Rightarrow> jobs (queue d'') = jobs (queue d') \<and> followups (queue d'') = followups (queue d')
        \<and> message_states d'' = message_states d'"
proof -
  have "taken_in h mail m d d'" by (rule enqueue_taken_in [OF assms(3,2,1)])
  then have c: "\<not> changes_content h m d' \<and> t' \<in> {''arrival'', ''ingest'', ''backfill'', ''heal''}"
    using assms(4) by (auto simp: taken_in_def changes_content_def)
  have l: "jobs (fold (\<lambda>j. set_lane (job_id j) True) js q) = jobs q
      \<and> followups (fold (\<lambda>j. set_lane (job_id j) True) js q) = followups q" for js and q :: queue_db
    by (induction js arbitrary: q) simp_all
  show ?thesis
    unfolding enqueue_row_parts [of h mail m t'] Let_def if_P [OF c] by (simp add: keep_foreground_def l)
qed


text \<open>Message 2 was decided from message 1, whose stored body has changed since.\<close>

definition host0 :: host where
  "host0 = \<lparr>fingerprint = (\<lambda>(i, t, f, s, b, r, snt, spm). b), rfc3339 = (\<lambda>t. show_int t)\<rparr>"

definition mails0 :: "mail list" where
  "mails0 = map (\<lambda>i. \<lparr>m_id = i, m_account = 1, m_thread = ''t'', m_from = ''a'', m_subject = ''s'', m_body = ''new'',
     m_received = i, m_sent = False, m_spam = False\<rparr>) [1, 2]"

definition db0 :: agent_db where
  "db0 = \<lparr>queue = \<lparr>jobs = [], lanes = [], followups = [], runs = []\<rparr>,
     message_states = map (\<lambda>(i, b). \<lparr>ms_account = 1, ms_message = i, ms_snapshot = b, ms_revision = 1, ms_access = ''allowed''\<rparr>)
       [(1, ''old''), (2, ''new'')],
     decided = [(1, 1), (1, 2)],
     decision_sources = map (\<lambda>(i, s). \<lparr>src_account = 1, src_message = i, src_source = s, src_revision = 1\<rparr>) [(1, 1), (2, 2), (2, 1)],
     attention = [], attention_sources = [], corrections = []\<rparr>"

definition taken0 :: agent_db where
  "taken0 = (case enqueue_row host0 mails0 (hd mails0) ''heal'' False False 7 db0 of Inl _ \<Rightarrow> db0 | Inr d \<Rightarrow> d)"

lemma taken0: "enqueue_row host0 mails0 (hd mails0) ''heal'' False False 7 db0 = Inr taken0"
proof -
  have "case enqueue_row host0 mails0 (hd mails0) ''heal'' False False 7 db0 of Inl _ \<Rightarrow> False | Inr d \<Rightarrow> True"
    by code_simp
  then show ?thesis by (simp add: taken0_def split: sum.splits)
qed

lemma db0_rests: "(2, 1) \<in> (rests_on 1 db0)\<^sup>*"
  by (rule r_into_rtrancl) (auto simp: rests_on_def db0_def
      intro!: exI [of _ "\<lparr>src_account = 1, src_message = 2, src_source = 1, src_revision = 1\<rparr>"])

theorem external_reading_is_reachability_witness:
  "external_message_allowed mails0 1 2 db0 \<and> map_option ms_access (state_of 1 1 db0) = Some ''allowed''"
proof
  show a: "external_message_allowed mails0 1 2 db0" by code_simp
  from this [unfolded external_reading_is_reachability] db0_rests
  show "map_option ms_access (state_of 1 1 db0) = Some ''allowed''" by blast
qed

theorem changed_mail_is_shut_out_witness:
  "external_message_allowed mails0 1 2 db0 \<and> \<not> external_message_allowed mails0 1 2 taken0"
proof
  show "external_message_allowed mails0 1 2 db0" by code_simp
  have r: "(2, m_id (hd mails0)) \<in> (rests_on (m_account (hd mails0)) db0)\<^sup>*"
    using db0_rests by (simp add: mails0_def)
  have "\<not> external_message_allowed mails0 (m_account (hd mails0)) 2 taken0"
    by (rule changed_mail_is_shut_out [OF _ _ taken0 _ _ r])
      (simp_all add: mails0_def changes_content_def state_of_def db0_def host0_def content_snapshot_def explicit_access_override_def)
  then show "\<not> external_message_allowed mails0 1 2 taken0" by (simp add: mails0_def)
qed

theorem intake_is_idempotent_witness:
  "case enqueue_row host0 mails0 (hd mails0) ''ingest'' True False 9 taken0 of Inl _ \<Rightarrow> False
    | Inr d'' \<Rightarrow> jobs (queue d'') = jobs (queue taken0)"
  using intake_is_idempotent [OF _ _ taken0, of "''ingest''" True False 9]
  by (simp add: mails0_def split: sum.splits)

subsection \<open>Timers\<close>

lemma timers_of_insert:
  "set (timers_of a q) \<subseteq> set (timers_of a (insert_job x q))"
  "length (timers_of a (insert_job x q)) \<le> length (timers_of a q) + 1"
  by (auto simp: timers_of_def insert_job_def Let_def)

lemma schedule_revisit_cases:
  obtains "schedule_revisit h a rv r p now q = q"
  | at where "schedule_revisit h a rv r p now q
        = insert_job (aj_account a, aj_message a, ''triage'', ''revisit:'' @ rfc3339 h at, rv, False, at) q"
      "length (timers_of a q) < max_per_message_lifetime p" "enabled p"
      "now + hours (max (min_lead_hours p) 0) \<le> at" "at \<le> now + days (max (max_horizon_days p) 0)"
      "\<not> list_ex (\<lambda>j. at - hours (max (dedupe_window_hours p) 0) \<le> available j
          \<and> available j \<le> at + hours (max (dedupe_window_hours p) 0)) (timers_of a q)"
proof (cases "schedule_revisit h a rv r p now q = q")
  case True
  with that(1) show ?thesis .
next
  case False
  then obtain w where w: "r = Some w" by (auto simp: schedule_revisit_def split: option.splits)
  let ?at = "max w (now + hours (max (min_lead_hours p) 0))"
  show ?thesis
    by (rule that(2) [of ?at]; use False in \<open>simp add: schedule_revisit_def w Let_def not_le not_less split: if_splits\<close>)
qed

text \<open>A message cannot keep itself busy: however often decisions ask to look at it again, the
  autonomous timers it ever gets never exceed its lifetime cap, and every timer that is set lies
  within the lead and the horizon of the policy and further from each of the message's other
  timers than the window in which two count as one.\<close>

theorem timers_are_bounded:
  "length (timers_of a (fold (\<lambda>(rv, r, now). schedule_revisit h a rv r p now) xs q))
      \<le> max (length (timers_of a q)) (max_per_message_lifetime p)
   \<and> list_all (\<lambda>j. j \<in> set (timers_of a q)
        \<or> (now + hours (max (min_lead_hours p) 0) \<le> available j \<and> available j \<le> now + days (max (max_horizon_days p) 0)
           \<and> \<not> list_ex (\<lambda>o'. available j - hours (max (dedupe_window_hours p) 0) \<le> available o'
                \<and> available o' \<le> available j + hours (max (dedupe_window_hours p) 0)) (timers_of a q)))
      (timers_of a (schedule_revisit h a rv r p now q))"
proof
  have one: "length (timers_of a (schedule_revisit h a rv r p now q)) \<le> max (length (timers_of a q)) (max_per_message_lifetime p)"
    for rv r now q
  proof (rule schedule_revisit_cases [of h a rv r p now q])
    fix at assume s: "schedule_revisit h a rv r p now q
        = insert_job (aj_account a, aj_message a, ''triage'', ''revisit:'' @ rfc3339 h at, rv, False, at) q"
      and "length (timers_of a q) < max_per_message_lifetime p"
    with timers_of_insert(2) [of a "(aj_account a, aj_message a, ''triage'', ''revisit:'' @ rfc3339 h at, rv, False, at)" q]
    show ?thesis unfolding s by linarith
  qed simp
  show "length (timers_of a (fold (\<lambda>(rv, r, now). schedule_revisit h a rv r p now) xs q))
      \<le> max (length (timers_of a q)) (max_per_message_lifetime p)"
  proof (induction xs arbitrary: q)
    case (Cons x xs)
    obtain rv r now where x: "x = (rv, r, now)" by (cases x)
    from Cons.IH [of "schedule_revisit h a rv r p now q"] one [of rv r now q] show ?case by (simp add: x)
  qed simp
  show "list_all (\<lambda>j. j \<in> set (timers_of a q)
        \<or> (now + hours (max (min_lead_hours p) 0) \<le> available j \<and> available j \<le> now + days (max (max_horizon_days p) 0)
           \<and> \<not> list_ex (\<lambda>o'. available j - hours (max (dedupe_window_hours p) 0) \<le> available o'
                \<and> available o' \<le> available j + hours (max (dedupe_window_hours p) 0)) (timers_of a q)))
      (timers_of a (schedule_revisit h a rv r p now q))"
  proof (rule schedule_revisit_cases [of h a rv r p now q])
    assume "schedule_revisit h a rv r p now q = q"
    then show ?thesis by (simp add: list_all_iff)
  next
    fix at assume s: "schedule_revisit h a rv r p now q
        = insert_job (aj_account a, aj_message a, ''triage'', ''revisit:'' @ rfc3339 h at, rv, False, at) q"
      and b: "now + hours (max (min_lead_hours p) 0) \<le> at" "at \<le> now + days (max (max_horizon_days p) 0)"
      "\<not> list_ex (\<lambda>j. at - hours (max (dedupe_window_hours p) 0) \<le> available j
          \<and> available j \<le> at + hours (max (dedupe_window_hours p) 0)) (timers_of a q)"
    have "j \<in> set (timers_of a q) \<or> available j = at" if "j \<in> set (timers_of a (schedule_revisit h a rv r p now q))" for j
      using that by (auto simp: s timers_of_def insert_job_def Let_def mk_job_def split: if_splits)
    with b show ?thesis unfolding list_all_iff by blast
  qed
qed

end
