(* ===== verification/Agent_Budget.thy ===== *)
theory Agent_Budget
  imports Agent_Jobs
begin

text \<open>
  The daily caps on investigations: the ledger \<open>wake_budget\<close>
  (\<open>squelch-core/src/store/sqlite/agent_budget.rs\<close> and the budget part of \<open>triage_stages.rs\<close>), and
  which of its counters a job is charged to (\<open>investigation_budget_limits\<close> in
  \<open>squelch-core/src/sync/triage_worker.rs\<close>). A reservation and a refund are one transaction each.

  The counters of a day are keyed by account and by a thread id; the caps use ids that no
  thread has. A worker refunds a reservation it was granted, on the day it was made, at most
  once; \<open>outstanding\<close> is the history of the reservations that stand.
\<close>

type_synonym ledger = "(int \<times> string \<times> string, int) table"

definition GLOBAL_BUDGET_KEY :: string where
  "GLOBAL_BUDGET_KEY = ''__global__''"

definition BACKGROUND_KEY :: string where
  "BACKGROUND_KEY = ''__agent_background__''"

definition REVISIT_KEY :: string where
  "REVISIT_KEY = ''__agent_revisit__''"

record budget_config =
  daily_run_cap :: "32 word"
  background_daily_run_cap :: "32 word"
  revisit_daily_cap :: "32 word"

definition spent :: "int \<Rightarrow> string \<Rightarrow> string \<Rightarrow> ledger \<Rightarrow> int" where
  "spent account key day b = (case map_of b (account, key, day) of None \<Rightarrow> 0 | Some n \<Rightarrow> n)"

definition charge :: "int \<Rightarrow> string \<Rightarrow> string \<Rightarrow> ledger \<Rightarrow> ledger" where
  "charge account key day b = AList.update (account, key, day) (spent account key day b + 1) b"

definition uncharge :: "int \<Rightarrow> string \<Rightarrow> string \<Rightarrow> ledger \<Rightarrow> ledger" where
  "uncharge account key day b = (case map_of b (account, key, day) of None \<Rightarrow> b
     | Some n \<Rightarrow> AList.update (account, key, day) (max 0 (n - 1)) b)"

definition reserve :: "int \<Rightarrow> string \<Rightarrow> (string \<times> 32 word) list \<Rightarrow> ledger \<Rightarrow> bool \<times> ledger" where
  "reserve account day limits b =
     (if list_ex (\<lambda>(key, cap). uint cap \<le> spent account key day b) limits then (False, b)
      else (True, fold (\<lambda>(key, _). charge account key day) limits b))"

definition refund :: "int \<Rightarrow> string \<Rightarrow> (string \<times> 32 word) list \<Rightarrow> ledger \<Rightarrow> ledger" where
  "refund account day limits b = fold (\<lambda>(key, _). uncharge account key day) limits b"

definition stage2_budget_used :: "int \<Rightarrow> string \<Rightarrow> string \<Rightarrow> ledger \<Rightarrow> 32 word" where
  "stage2_budget_used account thread day b = word_of_int (max (spent account thread day b) 0)"

definition stage2_increment_budget :: "int \<Rightarrow> string \<Rightarrow> string \<Rightarrow> ledger \<Rightarrow> 32 word \<times> ledger" where
  "stage2_increment_budget account thread day b = (let b = charge account thread day b in
     (word_of_int (max (spent account thread day b) 0), b))"

definition stage2_refund_budget :: "int \<Rightarrow> string \<Rightarrow> string \<Rightarrow> ledger \<Rightarrow> ledger" where
  "stage2_refund_budget account thread day b = uncharge account thread day b"

text \<open>\<open>saturating_sub(1)\<close>: one run of the day is always left for a first classification.\<close>

definition effective_background_daily_run_cap :: "budget_config \<Rightarrow> 32 word" where
  "effective_background_daily_run_cap cfg =
     min (background_daily_run_cap cfg) (if daily_run_cap cfg = 0 then 0 else daily_run_cap cfg - 1)"

definition investigation_budget_limits :: "budget_config \<Rightarrow> agent_job \<Rightarrow> (string \<times> 32 word) list" where
  "investigation_budget_limits cfg a =
     [(GLOBAL_BUDGET_KEY, daily_run_cap cfg)]
     @ (if \<not> aj_foreground a \<or> aj_kind a = ''access'' then [(BACKGROUND_KEY, effective_background_daily_run_cap cfg)] else [])
     @ (if starts_with (aj_trigger a) ''revisit:'' then [(REVISIT_KEY, revisit_daily_cap cfg)] else [])"

section \<open>A day's work\<close>

record budget_state =
  ledger :: ledger
  outstanding :: "(int \<times> string \<times> agent_job) list"

datatype op = Reserve int string agent_job | Refund int string agent_job | Charge int string string | Uncharge int string string

fun step :: "budget_config \<Rightarrow> op \<Rightarrow> budget_state \<Rightarrow> bool \<times> budget_state" where
  "step cfg (Reserve acc day a) s = (case reserve acc day (investigation_budget_limits cfg a) (ledger s) of
       (False, b) \<Rightarrow> (False, s\<lparr>ledger := b\<rparr>)
     | (True, b) \<Rightarrow> (True, s\<lparr>ledger := b, outstanding := (acc, day, a) # outstanding s\<rparr>))"
| "step cfg (Refund acc day a) s =
     (if (acc, day, a) \<in> set (outstanding s)
      then (True, s\<lparr>ledger := refund acc day (investigation_budget_limits cfg a) (ledger s),
                   outstanding := remove1 (acc, day, a) (outstanding s)\<rparr>)
      else (False, s))"
| "step cfg (Charge acc t day) s = (True, s\<lparr>ledger := snd (stage2_increment_budget acc t day (ledger s))\<rparr>)"
| "step cfg (Uncharge acc t day) s = (True, s\<lparr>ledger := stage2_refund_budget acc t day (ledger s)\<rparr>)"

definition sentinels :: "string set" where
  "sentinels = {GLOBAL_BUDGET_KEY, BACKGROUND_KEY, REVISIT_KEY}"

definition legal :: "op \<Rightarrow> bool" where
  "legal x = (case x of Charge _ t _ \<Rightarrow> t \<notin> sentinels | Uncharge _ t _ \<Rightarrow> t \<notin> sentinels | _ \<Rightarrow> True)"

section \<open>The ledger counts what stands\<close>

definition charges :: "budget_config \<Rightarrow> int \<Rightarrow> string \<Rightarrow> string \<Rightarrow> int \<times> string \<times> agent_job \<Rightarrow> bool" where
  "charges cfg acc key day = (\<lambda>(acc', day', a). acc' = acc \<and> day' = day \<and> key \<in> fst ` set (investigation_budget_limits cfg a))"

lemma key_neq [simp]: "GLOBAL_BUDGET_KEY \<noteq> BACKGROUND_KEY" "GLOBAL_BUDGET_KEY \<noteq> REVISIT_KEY" "BACKGROUND_KEY \<noteq> REVISIT_KEY"
    "BACKGROUND_KEY \<noteq> GLOBAL_BUDGET_KEY" "REVISIT_KEY \<noteq> GLOBAL_BUDGET_KEY" "REVISIT_KEY \<noteq> BACKGROUND_KEY"
  by (simp_all add: GLOBAL_BUDGET_KEY_def BACKGROUND_KEY_def REVISIT_KEY_def)

lemma limits_distinct: "distinct (map fst (investigation_budget_limits cfg a))"
  by (simp add: investigation_budget_limits_def)

lemma limits_sentinels: "fst ` set (investigation_budget_limits cfg a) \<subseteq> sentinels"
  by (auto simp: investigation_budget_limits_def sentinels_def)

lemma spent_charge:
  "spent acc key day (charge acc' key' day' b)
     = spent acc key day b + (if (acc, key, day) = (acc', key', day') then 1 else 0)"
  by (auto simp: spent_def charge_def update_conv')

lemma spent_uncharge:
  "0 \<le> spent acc key day b \<Longrightarrow> spent acc key day (uncharge acc' key' day' b)
     = (if (acc, key, day) = (acc', key', day') then max 0 (spent acc key day b - 1) else spent acc key day b)"
  by (auto simp: spent_def uncharge_def update_conv' split: option.split)

lemma spent_charge_all:
  "distinct (map fst ls) \<Longrightarrow> spent acc key day (fold (\<lambda>(key, _). charge acc' key day') ls b)
     = spent acc key day b + (if acc = acc' \<and> day = day' \<and> key \<in> fst ` set ls then 1 else 0)"
  by (induction ls arbitrary: b) (auto simp: spent_charge image_iff)

lemma spent_uncharge_all:
  "distinct (map fst ls) \<Longrightarrow> 0 \<le> spent acc key day b \<Longrightarrow> spent acc key day (fold (\<lambda>(key, _). uncharge acc' key day') ls b)
     = (if acc = acc' \<and> day = day' \<and> key \<in> fst ` set ls then max 0 (spent acc key day b - 1) else spent acc key day b)"
proof (induction ls arbitrary: b)
  case (Cons l ls)
  have "0 \<le> spent acc key day (uncharge acc' (fst l) day' b)" using Cons.prems(2) by (simp add: spent_uncharge)
  with Cons show ?case by (auto simp: case_prod_beta spent_uncharge)
qed simp

definition ledger_ok :: "budget_config \<Rightarrow> budget_state \<Rightarrow> bool" where
  "ledger_ok cfg s \<longleftrightarrow> (\<forall>acc key day. key \<in> sentinels \<longrightarrow>
     spent acc key day (ledger s) = int (count_where (charges cfg acc key day) (outstanding s)))
   \<and> (\<forall>acc key day cap a. (key, cap) \<in> set (investigation_budget_limits cfg a) \<longrightarrow> spent acc key day (ledger s) \<le> uint cap)"

lemma count_remove1: "x \<in> set xs \<Longrightarrow> count_where p xs = (if p x then 1 else 0) + count_where p (remove1 x xs)"
  by (induction xs) auto

lemma le_unat: "int n \<le> uint (w :: 32 word) \<Longrightarrow> n \<le> unat w"
  by (metis nat_le_iff of_nat_le_iff unat_eq_nat_uint nat_int nat_mono)

lemma limits_cap: "(key, cap) \<in> set (investigation_budget_limits cfg a) \<Longrightarrow> (key, cap') \<in> set (investigation_budget_limits cfg a')
    \<Longrightarrow> cap' = cap"
  by (auto simp: investigation_budget_limits_def split: if_splits)

lemma reserve_granted:
  assumes "reserve acc day (investigation_budget_limits cfg a) b = (True, b')"
  shows "spent x key d b' = spent x key d b + (if charges cfg x key d (acc, day, a) then 1 else 0)"
    "(key, cap) \<in> set (investigation_budget_limits cfg a) \<Longrightarrow> spent acc key day b < uint cap"
  using assms spent_charge_all [OF limits_distinct, of x key d acc day cfg a b]
  by (auto simp: reserve_def charges_def list_ex_iff split: if_splits)

lemma refund_spent:
  "0 \<le> spent x key d b \<Longrightarrow> spent x key d (refund acc day (investigation_budget_limits cfg a) b)
     = (if charges cfg x key d (acc, day, a) then max 0 (spent x key d b - 1) else spent x key d b)"
  by (auto simp: refund_def charges_def spent_uncharge_all limits_distinct)

lemma reserve_refused: "reserve acc day ls b = (False, b') \<Longrightarrow> b' = b"
  by (auto simp: reserve_def split: if_splits)

lemma ledger_ok_cong:
  assumes "ledger_ok cfg s" "outstanding s' = outstanding s"
    "\<And>acc key day. key \<in> sentinels \<Longrightarrow> spent acc key day (ledger s') = spent acc key day (ledger s)"
  shows "ledger_ok cfg s'"
  unfolding ledger_ok_def
proof (intro conjI allI impI)
  fix acc key day
  show "key \<in> sentinels \<Longrightarrow> spent acc key day (ledger s') = int (count_where (charges cfg acc key day) (outstanding s'))"
    using assms by (simp add: ledger_ok_def)
next
  fix acc key day cap a assume k: "(key, cap) \<in> set (investigation_budget_limits cfg a)"
  then have "key \<in> sentinels" using limits_sentinels by force
  moreover have "spent acc key day (ledger s) \<le> uint cap" using assms(1) k unfolding ledger_ok_def by blast
  ultimately show "spent acc key day (ledger s') \<le> uint cap" using assms(3) by simp
qed

lemma ledger_ok_step:
  assumes "legal x" "ledger_ok cfg s"
  shows "ledger_ok cfg (snd (step cfg x s))"
proof -
  note ok = assms(2) [unfolded ledger_ok_def]
  have within: "spent acc key day (ledger s) \<le> uint cap"
    if "(key, cap) \<in> set (investigation_budget_limits cfg a)" for acc key day cap a using ok that by blast
  show ?thesis
  proof (cases x)
    case (Reserve acc day a)
    obtain g b' where r: "reserve acc day (investigation_budget_limits cfg a) (ledger s) = (g, b')" by fastforce
    show ?thesis
    proof (cases g)
      case True
      have "reserve acc day (investigation_budget_limits cfg a) (ledger s) = (True, b')" using r True by simp
      note rr = reserve_granted [OF this]
      have "spent acc' key day' b' \<le> uint cap" if k: "(key, cap) \<in> set (investigation_budget_limits cfg a')" for acc' key day' cap a'
      proof (cases "charges cfg acc' key day' (acc, day, a)")
        case True
        then obtain cap' where c: "acc' = acc" "day' = day" "(key, cap') \<in> set (investigation_budget_limits cfg a)"
          by (auto simp: charges_def)
        with limits_cap [OF k c(3)] rr(2) [OF c(3)] True show ?thesis by (simp add: rr(1))
      next
        case False
        with within [OF k, of acc' day'] show ?thesis by (simp add: rr(1))
      qed
      moreover have "spent acc' key day' b' = int (count_where (charges cfg acc' key day') ((acc, day, a) # outstanding s))"
        if "key \<in> sentinels" for acc' key day' using ok that by (simp add: rr(1))
      ultimately show ?thesis by (simp add: Reserve r True ledger_ok_def)
    next
      case False
      then have "reserve acc day (investigation_budget_limits cfg a) (ledger s) = (False, ledger s)"
        using r reserve_refused [of acc day _ "ledger s" b'] by auto
      with assms(2) show ?thesis by (simp add: Reserve)
    qed
  next
    case (Refund acc day a)
    show ?thesis
    proof (cases "(acc, day, a) \<in> set (outstanding s)")
      case True
      let ?b = "refund acc day (investigation_budget_limits cfg a) (ledger s)"
      have s: "spent acc' key day' ?b = int (count_where (charges cfg acc' key day') (remove1 (acc, day, a) (outstanding s)))"
        if "key \<in> sentinels" for acc' key day'
      proof -
        have n: "spent acc' key day' (ledger s) = int (count_where (charges cfg acc' key day') (outstanding s))"
          using ok that by blast
        then have "spent acc' key day' ?b = (if charges cfg acc' key day' (acc, day, a)
            then max 0 (spent acc' key day' (ledger s) - 1) else spent acc' key day' (ledger s))"
          by (intro refund_spent) simp
        with n count_remove1 [OF True, of "charges cfg acc' key day'"] show ?thesis by (simp split: if_splits)
      qed
      moreover have "spent acc' key day' ?b \<le> uint cap" if k: "(key, cap) \<in> set (investigation_budget_limits cfg a')" for acc' key day' cap a'
      proof -
        have "key \<in> sentinels" using k limits_sentinels by force
        then have "spent acc' key day' ?b \<le> spent acc' key day' (ledger s)"
          using ok s count_remove1 [OF True, of "charges cfg acc' key day'"] by simp
        with within [OF k, of acc' day'] show ?thesis by linarith
      qed
      ultimately show ?thesis using True by (simp add: Refund ledger_ok_def)
    qed (use assms(2) in \<open>simp add: Refund\<close>)
  next
    case (Charge acc t day)
    with assms(1) have "spent acc' key day' (snd (stage2_increment_budget acc t day (ledger s))) = spent acc' key day' (ledger s)"
      if "key \<in> sentinels" for acc' key day' using that by (auto simp: legal_def stage2_increment_budget_def Let_def spent_charge)
    then show ?thesis using ledger_ok_cong [OF assms(2), of "snd (step cfg x s)"] by (simp add: Charge)
  next
    case (Uncharge acc t day)
    have "spent acc' key day' (stage2_refund_budget acc t day (ledger s)) = spent acc' key day' (ledger s)"
      if "key \<in> sentinels" for acc' key day'
    proof -
      have "0 \<le> spent acc' key day' (ledger s)" using ok that by simp
      with that assms(1) show ?thesis by (auto simp: Uncharge legal_def stage2_refund_budget_def spent_uncharge)
    qed
    then show ?thesis using ledger_ok_cong [OF assms(2), of "snd (step cfg x s)"] by (simp add: Uncharge)
  qed
qed

interpretation budget: guarded_machine "step cfg" "ledger_ok cfg" legal for cfg
  by unfold_locales (rule ledger_ok_step)

definition new_ledger :: budget_state where
  "new_ledger = \<lparr>ledger = [], outstanding = []\<rparr>"

lemma ledger_ok_new [simp]: "ledger_ok cfg new_ledger"
  by (simp add: ledger_ok_def new_ledger_def spent_def)

section \<open>Properties\<close>

definition arrival :: "agent_job \<Rightarrow> bool" where
  "arrival a \<longleftrightarrow> aj_foreground a \<and> aj_kind a \<noteq> ''access'' \<and> \<not> starts_with (aj_trigger a) ''revisit:''"

definition started :: "budget_state \<Rightarrow> int \<Rightarrow> string \<Rightarrow> (agent_job \<Rightarrow> bool) \<Rightarrow> nat" where
  "started s acc day p = count_where (\<lambda>(acc', day', a). acc' = acc \<and> day' = day \<and> p a) (outstanding s)"

text \<open>C17. The caps hold: however reservations, refunds and charges to threads interleave, the runs of
  an account on a day that were granted and not given back never exceed the daily cap, those in
  the background their own cap, which is below the daily cap unless that is zero, and those that
  look again at old mail theirs; and the ledger is exactly their count.\<close>

theorem daily_caps_hold:
  assumes "list_all legal xs" "s = final (step cfg) xs new_ledger"
  shows "started s acc day (\<lambda>a. True) \<le> unat (daily_run_cap cfg)
     \<and> started s acc day (\<lambda>a. \<not> aj_foreground a \<or> aj_kind a = ''access'') \<le> unat (background_daily_run_cap cfg)
     \<and> started s acc day (\<lambda>a. \<not> aj_foreground a \<or> aj_kind a = ''access'') \<le> unat (daily_run_cap cfg) - 1
     \<and> started s acc day (\<lambda>a. starts_with (aj_trigger a) ''revisit:'') \<le> unat (revisit_daily_cap cfg)
     \<and> spent acc GLOBAL_BUDGET_KEY day (ledger s) = int (started s acc day (\<lambda>a. True))"
proof -
  have ok: "ledger_ok cfg s" unfolding assms(2) by (rule budget.inv_final [OF assms(1)]) simp
  have c: "spent acc key day (ledger s) = int (started s acc day (\<lambda>a. key \<in> fst ` set (investigation_budget_limits cfg a)))"
    if "key \<in> sentinels" for key
    using ok that by (simp add: ledger_ok_def charges_def started_def)
  have c': "started s acc day (\<lambda>a. key \<in> fst ` set (investigation_budget_limits cfg a)) \<le> unat cap"
    if "key \<in> sentinels" "spent acc key day (ledger s) \<le> uint cap" for key and cap :: "32 word"
    using c [OF that(1)] that(2) by (intro le_unat) simp
  have g: "(\<lambda>a. GLOBAL_BUDGET_KEY \<in> fst ` set (investigation_budget_limits cfg a)) = (\<lambda>a. True)"
    and b: "(\<lambda>a. BACKGROUND_KEY \<in> fst ` set (investigation_budget_limits cfg a)) = (\<lambda>a. \<not> aj_foreground a \<or> aj_kind a = ''access'')"
    and r: "(\<lambda>a. REVISIT_KEY \<in> fst ` set (investigation_budget_limits cfg a)) = (\<lambda>a. starts_with (aj_trigger a) ''revisit:'')"
    by (auto simp: investigation_budget_limits_def fun_eq_iff)
  define a0 where "a0 = \<lparr>aj_id = 0, aj_account = 0, aj_message = 0, aj_kind = ''triage'', aj_trigger = ''revisit:'',
    aj_token = '''', aj_attempts = 0, aj_eligible = False, aj_foreground = False\<rparr>"
  have "(GLOBAL_BUDGET_KEY, daily_run_cap cfg) \<in> set (investigation_budget_limits cfg a0)"
    "(BACKGROUND_KEY, effective_background_daily_run_cap cfg) \<in> set (investigation_budget_limits cfg a0)"
    "(REVISIT_KEY, revisit_daily_cap cfg) \<in> set (investigation_budget_limits cfg a0)"
    by (simp_all add: investigation_budget_limits_def a0_def)
  then have "spent acc GLOBAL_BUDGET_KEY day (ledger s) \<le> uint (daily_run_cap cfg)"
    "spent acc BACKGROUND_KEY day (ledger s) \<le> uint (effective_background_daily_run_cap cfg)"
    "spent acc REVISIT_KEY day (ledger s) \<le> uint (revisit_daily_cap cfg)"
    using ok unfolding ledger_ok_def by blast+
  then have caps: "started s acc day (\<lambda>a. True) \<le> unat (daily_run_cap cfg)"
    "started s acc day (\<lambda>a. \<not> aj_foreground a \<or> aj_kind a = ''access'') \<le> unat (effective_background_daily_run_cap cfg)"
    "started s acc day (\<lambda>a. starts_with (aj_trigger a) ''revisit:'') \<le> unat (revisit_daily_cap cfg)"
    using c' [of GLOBAL_BUDGET_KEY, unfolded g] c' [of BACKGROUND_KEY, unfolded b] c' [of REVISIT_KEY, unfolded r]
    by (simp_all add: sentinels_def)
  moreover have "unat (effective_background_daily_run_cap cfg) \<le> unat (background_daily_run_cap cfg)"
    "unat (effective_background_daily_run_cap cfg) \<le> unat (daily_run_cap cfg) - 1"
    by (auto simp: effective_background_daily_run_cap_def min_def word_le_nat_alt unat_minus_one)
  moreover have "spent acc GLOBAL_BUDGET_KEY day (ledger s) = int (started s acc day (\<lambda>a. True))"
    using c [of GLOBAL_BUDGET_KEY] unfolding g by (simp add: sentinels_def)
  ultimately show ?thesis by (intro conjI) (assumption | erule (1) order_trans)+
qed


text \<open>Old work cannot use up the day of new mail: when a first classification of newly arrived
  mail is refused, at least as many runs in the foreground stand as the daily cap leaves above
  the background cap, and at least one if the cap is not zero; a refusal changes nothing.\<close>

theorem arrivals_keep_their_share:
  assumes "list_all legal xs" "s = final (step cfg) xs new_ledger" "arrival a" "\<not> fst (step cfg (Reserve acc day a) s)"
  shows "unat (daily_run_cap cfg) - unat (background_daily_run_cap cfg)
       \<le> started s acc day (\<lambda>a. aj_foreground a \<and> aj_kind a \<noteq> ''access'')
     \<and> (daily_run_cap cfg = 0 \<or> 0 < started s acc day (\<lambda>a. aj_foreground a \<and> aj_kind a \<noteq> ''access''))
     \<and> snd (step cfg (Reserve acc day a) s) = s"
proof -
  have l: "investigation_budget_limits cfg a = [(GLOBAL_BUDGET_KEY, daily_run_cap cfg)]"
    using assms(3) by (simp add: investigation_budget_limits_def arrival_def)
  have ok: "ledger_ok cfg s" unfolding assms(2) by (rule budget.inv_final [OF assms(1)]) simp
  have r: "uint (daily_run_cap cfg) \<le> spent acc GLOBAL_BUDGET_KEY day (ledger s)"
    using assms(4) by (auto simp: reserve_def l split: if_splits)
  have "(\<lambda>(acc', day', a). acc' = acc \<and> day' = day \<and> True) = charges cfg acc GLOBAL_BUDGET_KEY day"
    "(\<lambda>(acc', day', a). acc' = acc \<and> day' = day \<and> (\<not> aj_foreground a \<or> aj_kind a = ''access'')) = charges cfg acc BACKGROUND_KEY day"
    by (auto simp: charges_def investigation_budget_limits_def fun_eq_iff)
  then have n: "spent acc GLOBAL_BUDGET_KEY day (ledger s) = int (started s acc day (\<lambda>a. True))"
    and b: "spent acc BACKGROUND_KEY day (ledger s) = int (started s acc day (\<lambda>a. \<not> aj_foreground a \<or> aj_kind a = ''access''))"
    using ok by (simp_all add: ledger_ok_def started_def sentinels_def)
  have "count_where (\<lambda>(acc', day', a). acc' = acc \<and> day' = day \<and> True) os
      = count_where (\<lambda>(acc', day', a). acc' = acc \<and> day' = day \<and> (\<not> aj_foreground a \<or> aj_kind a = ''access'')) os
        + count_where (\<lambda>(acc', day', a). acc' = acc \<and> day' = day \<and> aj_foreground a \<and> aj_kind a \<noteq> ''access'') os" for os
    by (induction os) auto
  then have split: "started s acc day (\<lambda>a. True) = started s acc day (\<lambda>a. \<not> aj_foreground a \<or> aj_kind a = ''access'')
      + started s acc day (\<lambda>a. aj_foreground a \<and> aj_kind a \<noteq> ''access'')" unfolding started_def .
  have "unat (daily_run_cap cfg) \<le> started s acc day (\<lambda>a. True)"
    using r n by (metis nat_int nat_mono unat_eq_nat_uint)
  moreover have "(BACKGROUND_KEY, effective_background_daily_run_cap cfg)
      \<in> set (investigation_budget_limits cfg (a\<lparr>aj_foreground := False\<rparr>))" by (simp add: investigation_budget_limits_def)
  then have "spent acc BACKGROUND_KEY day (ledger s) \<le> uint (effective_background_daily_run_cap cfg)"
    using ok unfolding ledger_ok_def by blast
  then have "started s acc day (\<lambda>a. \<not> aj_foreground a \<or> aj_kind a = ''access'') \<le> unat (effective_background_daily_run_cap cfg)"
    using b by (intro le_unat) simp
  moreover have "unat (effective_background_daily_run_cap cfg) \<le> unat (background_daily_run_cap cfg)"
    "unat (effective_background_daily_run_cap cfg) \<le> unat (daily_run_cap cfg) - 1"
    by (auto simp: effective_background_daily_run_cap_def min_def word_le_nat_alt unat_minus_one)
  moreover have "daily_run_cap cfg = 0 \<or> 0 < unat (daily_run_cap cfg)" by (simp add: unat_gt_0)
  moreover have "snd (step cfg (Reserve acc day a) s) = s"
    using assms(4) by (auto simp: reserve_def split: if_splits)
  ultimately show ?thesis using split by linarith
qed

definition cfg0 :: budget_config where
  "cfg0 = \<lparr>daily_run_cap = 2, background_daily_run_cap = 5, revisit_daily_cap = 1\<rparr>"

definition job0 :: "bool \<Rightarrow> agent_job" where
  "job0 fg = \<lparr>aj_id = 1, aj_account = 1, aj_message = 1, aj_kind = ''triage'', aj_trigger = ''ingest'', aj_token = ''t'',
     aj_attempts = 1, aj_eligible = False, aj_foreground = fg\<rparr>"

definition day0 :: "op list" where
  "day0 = [Reserve 1 ''d'' (job0 False), Reserve 1 ''d'' (job0 False), Reserve 1 ''d'' (job0 True)]"

lemma day0_legal: "list_all legal day0"
  by (simp add: day0_def legal_def)

theorem daily_caps_hold_witness:
  "spent 1 GLOBAL_BUDGET_KEY ''d'' (ledger (final (step cfg0) day0 new_ledger)) = 2
   \<and> started (final (step cfg0) day0 new_ledger) 1 ''d'' (\<lambda>a. \<not> aj_foreground a \<or> aj_kind a = ''access'') \<le> 1"
proof -
  have "started (final (step cfg0) day0 new_ledger) 1 ''d'' (\<lambda>a. True) = 2" by code_simp
  with daily_caps_hold [OF day0_legal refl, of cfg0 1 "''d''"] show ?thesis by (simp add: cfg0_def)
qed

theorem arrivals_keep_their_share_witness:
  "0 < started (final (step cfg0) day0 new_ledger) 1 ''d'' (\<lambda>a. aj_foreground a \<and> aj_kind a \<noteq> ''access'')"
proof -
  have "arrival (job0 True)" "\<not> fst (step cfg0 (Reserve 1 ''d'' (job0 True)) (final (step cfg0) day0 new_ledger))"
    by code_simp+
  from arrivals_keep_their_share [OF day0_legal refl this] show ?thesis by (simp add: cfg0_def)
qed

end
