(* ===== verification/Rows.thy ===== *)
theory Rows
  imports Prelude "HOL-Library.Product_Lexorder" "HOL-Library.Multiset"
begin

text \<open>
  Rows of a table in the order of a key, as \<open>ORDER BY ... LIMIT\<close> reads them: which rows the first
  \<open>n\<close> are, how a table that grows at its end is read page by page, and how many rows a bound keeps.
\<close>

lemma filter_less_strictly_sorted:
  fixes k :: "'r \<Rightarrow> 'k::linorder"
  assumes "sorted_wrt (<) (map k ys)" "i < length ys"
  shows "filter (\<lambda>y. k y < k (ys ! i)) ys = take i ys"
proof -
  have lt: "k (ys ! a) < k (ys ! b)" if "a < b" "b < length ys" for a b
    using assms(1) that by (auto simp: sorted_wrt_iff_nth_less)
  have "filter (\<lambda>y. k y < k (ys ! i)) (take i ys) = take i ys"
    using lt assms(2) by (auto simp: in_set_conv_nth intro!: filter_True)
  moreover have "filter (\<lambda>y. k y < k (ys ! i)) (drop i ys) = []"
  proof (rule filter_False, rule ballI)
    fix y assume "y \<in> set (drop i ys)"
    then obtain j where "j < length ys - i" "y = ys ! (i + j)" by (auto simp: in_set_conv_nth)
    then show "\<not> k y < k (ys ! i)" using lt [of i "i + j"] by (cases "j = 0") (auto simp: less_diff_conv add.commute)
  qed
  ultimately show ?thesis by (metis append_Nil2 append_take_drop_id filter_append)
qed

lemma strictly_sorted_sort_key: "distinct (map k xs) \<Longrightarrow> sorted_wrt (<) (map k (sort_key k xs))"
  by (simp add: strict_sorted_iff distinct_map)

lemma count_where_mset: "mset xs = mset ys \<Longrightarrow> count_where p xs = count_where p ys"
  unfolding count_where_def by (metis mset_filter size_mset)

lemma mset_sort_key_filter: "mset (filter p xs) = mset (filter p (sort_key k xs))"
  by simp

text \<open>The first \<open>n\<close> rows of an order are those with fewer than \<open>n\<close> rows before them.\<close>

lemma in_take_sort_key:
  fixes k :: "'r \<Rightarrow> 'k::linorder"
  assumes "distinct (map k xs)" "x \<in> set xs"
  shows "x \<in> set (take n (sort_key k xs)) \<longleftrightarrow> count_where (\<lambda>y. k y < k x) xs < n"
proof -
  let ?ys = "sort_key k xs"
  from assms(2) obtain i where i: "i < length ?ys" "x = ?ys ! i" by (metis in_set_conv_nth set_sort)
  note s = strictly_sorted_sort_key [OF assms(1)]
  have "count_where (\<lambda>y. k y < k x) xs = length (filter (\<lambda>y. k y < k x) ?ys)"
    unfolding count_where_def [symmetric] by (rule count_where_mset) simp
  also have "\<dots> = i" using filter_less_strictly_sorted [OF s i(1)] i by simp
  finally have c: "count_where (\<lambda>y. k y < k x) xs = i" .
  have d: "distinct ?ys" using assms(1) by (simp add: distinct_map)
  have "x \<in> set (take n ?ys) \<longleftrightarrow> i < n"
    using i d by (auto simp: in_set_conv_nth nth_eq_iff_index_eq)
  with c show ?thesis by simp
qed

lemma count_where_trichotomy:
  fixes k :: "'r \<Rightarrow> 'k::linorder"
  assumes "distinct (map k xs)" "x \<in> set xs"
  shows "count_where (\<lambda>y. k y < k x) xs + 1 + count_where (\<lambda>y. k x < k y) xs = length xs"
  using assms
proof (induction xs)
  case Nil
  then show ?case by simp
next
  case (Cons a xs)
  show ?case
  proof (cases "a = x")
    case True
    have "count_where (\<lambda>y. k y < k x) xs + count_where (\<lambda>y. k x < k y) xs = length xs"
      if "k x \<notin> set (map k xs)" for xs using that by (induction xs) (auto simp: not_less_iff_gr_or_eq)
    with Cons.prems True show ?thesis by simp
  next
    case False
    with Cons have "k a \<noteq> k x" by auto
    with Cons False show ?thesis by auto
  qed
qed

text \<open>How many rows stay: all that fit.\<close>

lemma length_filter_count_less:
  fixes k :: "'r \<Rightarrow> 'k::linorder"
  assumes "distinct (map k xs)"
  shows "length (filter (\<lambda>x. count_where (\<lambda>y. k y < k x) xs < n) xs) = min n (length xs)"
proof -
  have "filter (\<lambda>x. count_where (\<lambda>y. k y < k x) xs < n) xs = filter (\<lambda>x. x \<in> set (take n (sort_key k xs))) xs"
    using in_take_sort_key [OF assms] by (intro filter_cong) auto
  moreover have "mset (filter (\<lambda>x. x \<in> set (take n ys)) ys) = mset (take n ys)" if "distinct ys" for ys :: "'r list"
  proof -
    have "filter (\<lambda>x. x \<in> set (take n ys)) (take n ys @ drop n ys) = take n ys"
      using set_take_disj_set_drop_if_distinct [OF that order_refl, of n]
      by (auto simp only: filter_append) (auto intro!: filter_False filter_True)
    then show ?thesis by simp
  qed
  moreover note mset_sort_key_filter [of _ xs k]
  moreover have "distinct (sort_key k xs)" using assms by (simp add: distinct_map)
  ultimately have "mset (filter (\<lambda>x. count_where (\<lambda>y. k y < k x) xs < n) xs) = mset (take n (sort_key k xs))" by metis
  then have "length (filter (\<lambda>x. count_where (\<lambda>y. k y < k x) xs < n) xs) = length (take n (sort_key k xs))"
    by (metis size_mset)
  then show ?thesis by (simp add: min.commute)
qed

text \<open>A table whose keys only grow is in order as it stands.\<close>

lemma sort_key_sorted: "sorted (map k xs) \<Longrightarrow> sort_key k xs = xs"
  by (induction xs) (auto intro: insort_is_Cons)

lemma strictly_sorted_filter: "sorted_wrt (<) (map k xs) \<Longrightarrow> sorted_wrt (<) (map k (filter p xs))"
  by (induction xs) auto

lemma sort_key_strictly_sorted:
  fixes k :: "'r \<Rightarrow> 'k::linorder"
  shows "sorted_wrt (<) (map k xs) \<Longrightarrow> sort_key k xs = xs"
  by (rule sort_key_sorted) (simp add: strict_sorted_iff)

text \<open>What comes after the last row read is what is left to read.\<close>

lemma filter_greater_strictly_sorted:
  fixes k :: "'r \<Rightarrow> 'k::linorder"
  assumes "sorted_wrt (<) (map k xs)" "i < length xs"
  shows "filter (\<lambda>y. k (xs ! i) < k y) xs = drop (Suc i) xs"
  using assms
proof (induction xs arbitrary: i)
  case (Cons x xs)
  show ?case
  proof (cases i)
    case 0
    with Cons.prems show ?thesis by (auto intro: filter_True)
  next
    case (Suc j)
    with Cons.prems have "k x < k (xs ! j)" by simp
    with Cons Suc show ?thesis by (simp add: not_less less_imp_le)
  qed
qed simp

text \<open>Reading page by page, each page from the key of the last row seen, is reading at once.\<close>

lemma paging:
  fixes k :: "'r \<Rightarrow> 'k::linorder"
  assumes "sorted_wrt (<) (map k (xs @ ys))" "take n (filter (\<lambda>r. c < k r) xs) = page" "page \<noteq> []"
  shows "take (length page + n') (filter (\<lambda>r. c < k r) (xs @ ys))
      = page @ take n' (filter (\<lambda>r. k (last page) < k r) (xs @ ys))"
proof -
  let ?L = "filter (\<lambda>r. c < k r) (xs @ ys)"
  have s: "sorted_wrt (<) (map k ?L)" using assms(1) by (rule strictly_sorted_filter)
  have le: "length page \<le> length (filter (\<lambda>r. c < k r) xs)" using assms(2) by auto
  have p: "take (length page) ?L = page" using assms(2) le by (auto simp: min_def split: if_splits)
  obtain m where m: "length page = Suc m" using assms(3) by (cases page) auto
  with le have lt: "m < length ?L" by simp
  have "last page = ?L ! m" using p m assms(3) by (metis diff_Suc_1 last_conv_nth lessI nth_take)
  then have "filter (\<lambda>r. k (last page) < k r) ?L = drop (length page) ?L"
    using filter_greater_strictly_sorted [OF s lt] m by simp
  moreover have "last page \<in> set (filter (\<lambda>r. c < k r) xs)" using assms(2,3) by (metis in_set_takeD last_in_set)
  then have "c < k (last page)" by simp
  then have "filter (\<lambda>r. k (last page) < k r) ?L = filter (\<lambda>r. k (last page) < k r) (xs @ ys)"
    unfolding filter_filter by (intro filter_cong) auto
  ultimately have "filter (\<lambda>r. k (last page) < k r) (xs @ ys) = drop (length page) ?L" by metis
  then show ?thesis by (simp only: take_add p)
qed


lemma count_where_distinct: "distinct (map k rs) \<Longrightarrow> count_where (\<lambda>r. k r = i) rs \<le> 1"
proof (induction rs)
  case (Cons r rs)
  then have "k r = i \<Longrightarrow> count_where (\<lambda>r. k r = i) rs = 0" by (force simp: count_where_0 image_iff)
  with Cons show ?case by auto
qed simp


lemma find_append: "find p (xs @ ys) = (case find p xs of None \<Rightarrow> find p ys | Some x \<Rightarrow> Some x)"
  by (induction xs) auto


section \<open>Two orders read to the same depth\<close>

text \<open>
  To read the first \<open>n\<close> of two lists in one order it is enough to have the first \<open>n\<close> of each.
\<close>

lemma merge_to_depth:
  fixes k :: "'r \<Rightarrow> 'k::linorder"
  assumes A: "sorted_wrt (<) (map k A)" and B: "sorted_wrt (<) (map k B)" and d: "distinct (map k (A @ B))"
  shows "take n (sort_key k (take n A @ take n B)) = take n (sort_key k (A @ B))"
proof -
  let ?S = "sort_key k (A @ B)"
  let ?P = "\<lambda>x. x \<in> set (take n A) \<union> set (take n B)"
  have top: "?P x" if x: "x \<in> set (take n ?S)" for x
  proof -
    have xs: "x \<in> set (A @ B)" using x by (auto dest: in_set_takeD)
    have few: "count_where (\<lambda>y. k y < k x) (A @ B) < n" using x in_take_sort_key [OF d xs] by simp
    have in_own: "x \<in> set (take n C)" if "x \<in> set C" "sorted_wrt (<) (map k C)" "count_where (\<lambda>y. k y < k x) C < n" for C
    proof -
      have "distinct (map k C)" using that(2) by (simp add: strict_sorted_iff)
      from in_take_sort_key [OF this that(1), of n] that(3) show ?thesis by (simp add: sort_key_strictly_sorted [OF that(2)])
    qed
    from xs consider "x \<in> set A" | "x \<in> set B" by auto
    then show ?thesis
    proof cases
      case 1
      with few A show ?thesis by (intro UnI1 in_own) simp_all
    next
      case 2
      with few B show ?thesis by (intro UnI2 in_own) simp_all
    qed
  qed
  have disj: "set A \<inter> set B = {}" "distinct A" "distinct B" using d by (auto simp: distinct_map)
  have own: "filter (\<lambda>x. x \<in> set (take n C)) C = take n C" if "distinct C" for C
  proof -
    have "filter (\<lambda>x. x \<in> set (take n C)) (take n C @ drop n C) = take n C"
      using set_take_disj_set_drop_if_distinct [OF that order_refl, of n]
      by (auto simp only: filter_append) (auto intro!: filter_False filter_True)
    then show ?thesis by simp
  qed
  have "filter ?P A = filter (\<lambda>x. x \<in> set (take n A)) A" "filter ?P B = filter (\<lambda>x. x \<in> set (take n B)) B"
    using disj(1) by (auto intro!: filter_cong dest: in_set_takeD)
  then have "filter ?P (A @ B) = take n A @ take n B" using own [OF disj(2)] own [OF disj(3)] by simp
  then have T: "sort_key k (take n A @ take n B) = filter ?P ?S" by (simp only: filter_sort)
  have "filter ?P ?S = filter ?P (take n ?S) @ filter ?P (drop n ?S)" by (metis append_take_drop_id filter_append)
  also have "filter ?P (take n ?S) = take n ?S" using top by (intro filter_True) blast
  finally have split: "filter ?P ?S = take n ?S @ filter ?P (drop n ?S)" .
  show ?thesis
  proof (cases "n \<le> length ?S")
    case True
    then have "take n (take n ?S @ filter ?P (drop n ?S)) = take n ?S" by simp
    then show ?thesis unfolding T split .
  next
    case False
    then show ?thesis unfolding T split by simp
  qed
qed

lemma merge_page:
  fixes k :: "'r \<Rightarrow> 'k::linorder"
  assumes "sorted_wrt (<) (map k A)" "sorted_wrt (<) (map k B)" "distinct (map k (A @ B))"
  shows "take l (drop i (sort_key k (take (l + i) A @ take (l + i) B))) = take l (drop i (sort_key k (A @ B)))"
  using merge_to_depth [OF assms, of "l + i"] by (metis take_drop)

end
