(* ===== verification/Open_Buffer.thy ===== *)
theory Open_Buffer
  imports Machine Rust_Text Rows
begin

text \<open>
  The relay's buffer of observed opens (\<open>squelch-relay/src/opens.rs\<close>) and the two routes that
  reach it (\<open>pixel\<close> and \<open>opens\<close> in \<open>squelch-relay/src/handlers.rs\<close>): a public pixel writes
  rows, the daemon drains them and acknowledges with a cursor, and two clocks keep the table
  small. A call holds the buffer's mutex from end to end: one step here.

  \<open>last_id\<close> is SQLite's \<open>AUTOINCREMENT\<close> counter of the table; that it may run out (at 2^63)
  is not modelled. Unix times are seconds. \<open>now\<close> is the monotonic clock, read once a call.
  A statement that fails (the disk is full) changes nothing and is not modelled.
\<close>

definition MAX_PER_TOKEN :: nat where
  "MAX_PER_TOKEN = 50"

definition RETENTION_SECS :: int where
  "RETENTION_SECS = 90 * 24 * 60 * 60"

definition MAX_ROWS :: nat where
  "MAX_ROWS = 1000000"

definition PURGE_EVERY :: duration where
  "PURGE_EVERY = secs 600"

definition TRIM_EVERY :: duration where
  "TRIM_EVERY = secs 60"

definition MAX_USER_AGENT :: nat where
  "MAX_USER_AGENT = 512"

definition DRAIN_LIMIT :: nat where
  "DRAIN_LIMIT = 500"

definition OPEN_TOKEN_MIN_LEN :: nat where
  "OPEN_TOKEN_MIN_LEN = 16"

definition OPEN_TOKEN_MAX_LEN :: nat where
  "OPEN_TOKEN_MAX_LEN = 64"

record open_row =
  o_id :: int
  o_token :: string
  o_opened_at :: int
  o_user_agent :: "string option"

record buffer =
  opens :: "open_row list"
  last_id :: int
  last_purge :: instant
  last_trim :: instant

definition open_buffer :: "instant \<Rightarrow> buffer" where
  "open_buffer now = \<lparr>opens = [], last_id = 0, last_purge = now, last_trim = now\<rparr>"

definition mk_open :: "int \<Rightarrow> string \<times> int \<times> string option \<Rightarrow> open_row" where
  "mk_open i = (\<lambda>(t, at, ua). \<lparr>o_id = i, o_token = t, o_opened_at = at, o_user_agent = ua\<rparr>)"

definition insert_open :: "string \<Rightarrow> int \<Rightarrow> string option \<Rightarrow> buffer \<Rightarrow> buffer" where
  "insert_open t at ua b =
     (if count_where (\<lambda>r. o_token r = t) (opens b) < MAX_PER_TOKEN
      then b\<lparr>opens := opens b @ [mk_open (last_id b + 1) (t, at, ua)], last_id := last_id b + 1\<rparr> else b)"

definition purge_if_due :: "int \<Rightarrow> instant \<Rightarrow> buffer \<Rightarrow> buffer" where
  "purge_if_due now_unix now b =
     (if since now (last_purge b) < PURGE_EVERY then b
      else b\<lparr>last_purge := now, opens := delete_where (\<lambda>r. o_opened_at r < now_unix - RETENTION_SECS) (opens b)\<rparr>)"

text \<open>\<open>row_number() OVER (PARTITION BY token ORDER BY id)\<close>.\<close>

definition depth :: "open_row list \<Rightarrow> open_row \<Rightarrow> nat" where
  "depth rs r = count_where (\<lambda>q. o_token q = o_token r \<and> o_id q \<le> o_id r) rs"

definition victims :: "nat \<Rightarrow> open_row list \<Rightarrow> int list" where
  "victims n rs = map o_id (take n (sort_key (\<lambda>r. (- int (depth rs r), - o_id r)) rs))"

definition trim_to :: "nat \<Rightarrow> buffer \<Rightarrow> nat \<times> buffer" where
  "trim_to max_rows b =
     (let excess = length (opens b) - max_rows in
      if excess = 0 then (0, b)
      else let vs = victims excess (opens b) in
        (count_where (\<lambda>r. o_id r \<in> set vs) (opens b),
         b\<lparr>opens := delete_where (\<lambda>r. o_id r \<in> set vs) (opens b)\<rparr>))"

definition trim_if_due :: "instant \<Rightarrow> buffer \<Rightarrow> buffer" where
  "trim_if_due now b =
     (if since now (last_trim b) < TRIM_EVERY then b else snd (trim_to MAX_ROWS (b\<lparr>last_trim := now\<rparr>)))"

text \<open>\<open>OpenStore::record\<close>.\<close>

definition buffer_open :: "string \<Rightarrow> int \<Rightarrow> string option \<Rightarrow> instant \<Rightarrow> buffer \<Rightarrow> buffer" where
  "buffer_open t at ua now b = trim_if_due now (purge_if_due at now (insert_open t at ua b))"

definition drain :: "int \<Rightarrow> buffer \<Rightarrow> open_row list \<times> buffer" where
  "drain cursor b =
     (let b = b\<lparr>opens := delete_where (\<lambda>r. o_id r \<le> cursor) (opens b)\<rparr>
      in (take DRAIN_LIMIT (sort_key o_id (filter (\<lambda>r. cursor < o_id r) (opens b))), b))"

section \<open>The routes\<close>

definition is_open_token :: "string \<Rightarrow> bool" where
  "is_open_token t \<longleftrightarrow> OPEN_TOKEN_MIN_LEN \<le> byte_len t \<and> byte_len t \<le> OPEN_TOKEN_MAX_LEN
     \<and> list_all (\<lambda>c. is_ascii_alnum c \<or> c = CHR ''_'' \<or> c = CHR ''-'') t"

text \<open>The longest prefix of whole characters within \<open>n\<close> bytes.\<close>

fun char_prefix :: "nat \<Rightarrow> string \<Rightarrow> string" where
  "char_prefix n [] = []"
| "char_prefix n (c # s) = (let k = byte_len [c] in if k \<le> n then c # char_prefix (n - k) s else [])"

definition truncate_user_agent :: "string \<Rightarrow> string" where
  "truncate_user_agent ua = (if byte_len ua \<le> MAX_USER_AGENT then ua else char_prefix MAX_USER_AGENT ua)"

text \<open>The answer of the pixel route is one constant, so only what it does to the buffer is a result.\<close>

definition pixel :: "string option \<Rightarrow> string option \<Rightarrow> int \<Rightarrow> instant \<Rightarrow> buffer \<Rightarrow> buffer" where
  "pixel token user_agent now_unix now b = (case token of
       None \<Rightarrow> b
     | Some t \<Rightarrow> if is_open_token t then buffer_open t now_unix (map_option truncate_user_agent user_agent) now b else b)"

definition opens_route :: "int option \<Rightarrow> buffer \<Rightarrow> open_row list \<times> buffer" where
  "opens_route cursor b = drain (max (case cursor of None \<Rightarrow> 0 | Some c \<Rightarrow> c) 0) b"

datatype op = Pixel "string option" "string option" int instant | Drain "int option"

fun step :: "op \<Rightarrow> buffer \<Rightarrow> open_row list \<times> buffer" where
  "step (Pixel t ua at now) b = ([], pixel t ua at now b)"
| "step (Drain c) b = opens_route c b"


section \<open>Eviction\<close>

definition rank :: "open_row list \<Rightarrow> open_row \<Rightarrow> nat \<times> int" where
  "rank rs r = (depth rs r, o_id r)"

lemma rank_distinct: "distinct (map o_id rs) \<Longrightarrow> distinct (map (\<lambda>r. (- int (depth rs r), - o_id r)) rs)"
  by (auto simp: distinct_map inj_on_def)

lemma neg_rank: "((- int (depth rs a), - o_id a) < (- int (depth rs b), - o_id b)) = (rank rs b < rank rs a)"
  by (auto simp: rank_def)

lemma in_victims:
  assumes "distinct (map o_id rs)" "r \<in> set rs"
  shows "o_id r \<in> set (victims n rs) \<longleftrightarrow> count_where (\<lambda>q. rank rs r < rank rs q) rs < n"
proof -
  let ?k = "\<lambda>r. (- int (depth rs r), - o_id r)"
  have "o_id r \<in> set (victims n rs) \<longleftrightarrow> r \<in> set (take n (sort_key ?k rs))"
    using assms set_take_subset [of n "sort_key ?k rs"] by (auto simp: victims_def dest: distinct_map_eq)
  also have "\<dots> \<longleftrightarrow> count_where (\<lambda>q. rank rs r < rank rs q) rs < n"
    using in_take_sort_key [OF rank_distinct [OF assms(1)] assms(2), of n] by (simp only: neg_rank)
  finally show ?thesis .
qed

lemma rank_trichotomy:
  assumes "distinct (map o_id rs)" "r \<in> set rs"
  shows "count_where (\<lambda>q. rank rs q < rank rs r) rs + 1 + count_where (\<lambda>q. rank rs r < rank rs q) rs = length rs"
  using assms by (intro count_where_trichotomy) (auto simp: distinct_map inj_on_def rank_def)

lemma trim_to_keeps:
  assumes "distinct (map o_id (opens b))"
  shows "opens (snd (trim_to m b)) = filter (\<lambda>r. count_where (\<lambda>q. rank (opens b) q < rank (opens b) r) (opens b) < m) (opens b)"
proof -
  have "(o_id r \<in> set (victims (length (opens b) - m) (opens b))) =
      (\<not> count_where (\<lambda>q. rank (opens b) q < rank (opens b) r) (opens b) < m)" if "r \<in> set (opens b)" for r
    using in_victims [OF assms that, of "length (opens b) - m"] rank_trichotomy [OF assms that] by auto
  then have "opens (snd (trim_to m b)) = filter (\<lambda>r. count_where (\<lambda>q. rank (opens b) q < rank (opens b) r) (opens b) < m) (opens b)"
    if "length (opens b) > m" using that
    by (auto simp: trim_to_def Let_def delete_where_def intro!: filter_cong)
  moreover have "count_where (\<lambda>q. rank (opens b) q < rank (opens b) r) (opens b) < m"
    if "length (opens b) \<le> m" "r \<in> set (opens b)" for r
    using that rank_trichotomy [OF assms that(2)] by linarith
  then have "opens (snd (trim_to m b)) = filter (\<lambda>r. count_where (\<lambda>q. rank (opens b) q < rank (opens b) r) (opens b) < m) (opens b)"
    if "length (opens b) \<le> m" using that by (auto simp: trim_to_def)
  ultimately show ?thesis by linarith
qed

lemma trim_to_frame [simp]:
  "last_id (snd (trim_to m b)) = last_id b" "last_purge (snd (trim_to m b)) = last_purge b"
  "last_trim (snd (trim_to m b)) = last_trim b"
  by (simp_all add: trim_to_def Let_def)

lemma length_trim_to:
  assumes "distinct (map o_id (opens b))"
  shows "length (opens (snd (trim_to m b))) = min m (length (opens b))"
  unfolding trim_to_keeps [OF assms]
  by (rule length_filter_count_less) (use assms in \<open>auto simp: distinct_map inj_on_def rank_def\<close>)


section \<open>The invariant\<close>

definition row_ok :: "open_row \<Rightarrow> bool" where
  "row_ok r \<longleftrightarrow> is_open_token (o_token r)
     \<and> (case o_user_agent r of None \<Rightarrow> True | Some ua \<Rightarrow> byte_len ua \<le> MAX_USER_AGENT)"

definition buffer_inv :: "buffer \<Rightarrow> bool" where
  "buffer_inv b \<longleftrightarrow> sorted_wrt (<) (map o_id (opens b)) \<and> 0 \<le> last_id b
     \<and> (\<forall>r \<in> set (opens b). 0 < o_id r \<and> o_id r \<le> last_id b \<and> row_ok r)
     \<and> (\<forall>t. count_where (\<lambda>r. o_token r = t) (opens b) \<le> MAX_PER_TOKEN)"

lemma sorted_wrt_filter_map: "sorted_wrt (<) (map f xs) \<Longrightarrow> sorted_wrt (<) (map f (filter p xs))"
  by (induction xs) auto

lemma count_where_filter_le: "count_where q (filter p rs) \<le> count_where q rs"
  by (induction rs) auto

text \<open>Deleting rows, whichever, keeps it.\<close>

lemma buffer_inv_filter:
  assumes "buffer_inv b" "opens b' = filter p (opens b)" "last_id b' = last_id b"
  shows "buffer_inv b'"
  using assms by (auto simp: buffer_inv_def intro: sorted_wrt_filter_map order_trans [OF count_where_filter_le])

lemma buffer_inv_distinct: "buffer_inv b \<Longrightarrow> distinct (map o_id (opens b))"
  by (simp add: buffer_inv_def strict_sorted_iff)

lemma buffer_inv_insert:
  assumes "buffer_inv b" "is_open_token t" "case ua of None \<Rightarrow> True | Some u \<Rightarrow> byte_len u \<le> MAX_USER_AGENT"
  shows "buffer_inv (insert_open t at ua b)"
  using assms by (auto simp: buffer_inv_def insert_open_def mk_open_def row_ok_def sorted_wrt_append less_Suc_eq_le [symmetric])

text \<open>Both clocks only delete.\<close>

lemma purge_filter:
  obtains p where "opens (purge_if_due at now b) = filter p (opens b)" "last_id (purge_if_due at now b) = last_id b"
    "\<And>r. at - RETENTION_SECS \<le> o_opened_at r \<Longrightarrow> p r"
proof (cases "since now (last_purge b) < PURGE_EVERY")
  case True
  then show ?thesis using that [of "\<lambda>_. True"] by (simp add: purge_if_due_def)
next
  case False
  then show ?thesis using that [of "\<lambda>r. \<not> o_opened_at r < at - RETENTION_SECS"]
    by (simp add: purge_if_due_def delete_where_def)
qed

lemma trim_if_due_opens:
  assumes "distinct (map o_id (opens b))"
  shows "opens (trim_if_due now b) = (if since now (last_trim b) < TRIM_EVERY then opens b
      else filter (\<lambda>r. count_where (\<lambda>q. rank (opens b) q < rank (opens b) r) (opens b) < MAX_ROWS) (opens b))"
  using trim_to_keeps [of "b\<lparr>last_trim := now\<rparr>" MAX_ROWS] assms by (simp add: trim_if_due_def)

lemma trim_if_due_last_id [simp]: "last_id (trim_if_due now b) = last_id b"
  by (simp add: trim_if_due_def)

lemma buffer_inv_purge: "buffer_inv b \<Longrightarrow> buffer_inv (purge_if_due at now b)"
  by (rule purge_filter [of at now b]) (rule buffer_inv_filter)

lemma buffer_inv_trim: "buffer_inv b \<Longrightarrow> buffer_inv (trim_if_due now b)"
proof -
  assume b: "buffer_inv b"
  note o' = trim_if_due_opens [OF buffer_inv_distinct [OF b], of now]
  have "\<exists>p. opens (trim_if_due now b) = filter p (opens b)"
    by (cases "since now (last_trim b) < TRIM_EVERY") (auto simp: o' intro: exI [of _ "\<lambda>_. True"])
  with b show ?thesis by (auto intro: buffer_inv_filter)
qed

lemma byte_len_char_prefix: "byte_len (char_prefix n s) \<le> n"
proof (induction s arbitrary: n)
  case (Cons c s)
  have "byte_len (c # char_prefix m s) = byte_len [c] + byte_len (char_prefix m s)" for m by (simp add: byte_len_def)
  with Cons [of "n - byte_len [c]"] show ?case by (auto simp: Let_def byte_len_def)
qed (simp add: byte_len_def)

lemma truncate_user_agent_short: "byte_len (truncate_user_agent ua) \<le> MAX_USER_AGENT"
  by (simp add: truncate_user_agent_def byte_len_char_prefix)

lemma drain_opens: "opens (snd (drain c b)) = filter (\<lambda>r. c < o_id r) (opens b)"
  by (auto simp: drain_def Let_def delete_where_def not_le intro!: filter_cong)

lemma drain_last_id [simp]: "last_id (snd (drain c b)) = last_id b"
  by (simp add: drain_def Let_def)

lemma buffer_inv_step: "buffer_inv b \<Longrightarrow> buffer_inv (snd (step x b))"
proof (cases x)
  case (Drain c)
  assume "buffer_inv b"
  with Drain show ?thesis by (auto simp: opens_route_def intro: buffer_inv_filter [OF _ drain_opens])
next
  case (Pixel t ua at now)
  assume b: "buffer_inv b"
  have "buffer_inv (insert_open k at (map_option truncate_user_agent ua) b)" if "is_open_token k" for k
    using buffer_inv_insert [OF b that, of "map_option truncate_user_agent ua"]
    by (auto simp: truncate_user_agent_short split: option.split)
  with b Pixel show ?thesis
    by (auto simp: pixel_def buffer_open_def intro: buffer_inv_trim buffer_inv_purge split: option.split)
qed

interpretation relay: invariant_machine step buffer_inv
  by unfold_locales (rule buffer_inv_step)

lemma buffer_inv_open [simp]: "buffer_inv (open_buffer now)"
  by (simp add: buffer_inv_def open_buffer_def)


interpretation rows: id_table o_id mk_open
  by unfold_locales (auto simp: mk_open_def split: prod.splits)

lemma buffer_inv_wf: "buffer_inv b \<Longrightarrow> rows.wf (last_id b + 1) (opens b)"
  by (auto simp: rows.wf_def buffer_inv_distinct) (auto simp: buffer_inv_def)

section \<open>The first open of a token\<close>

definition spares :: "open_row \<Rightarrow> op \<Rightarrow> bool" where
  "spares r x = (case x of Pixel t ua at now \<Rightarrow> at - RETENTION_SECS \<le> o_opened_at r
     | Drain c \<Rightarrow> max (case c of None \<Rightarrow> 0 | Some c \<Rightarrow> c) 0 < o_id r)"

definition first_of_its_token :: "open_row \<Rightarrow> buffer \<Rightarrow> bool" where
  "first_of_its_token r b \<longleftrightarrow> r \<in> set (opens b)
     \<and> list_all (\<lambda>q. o_token q \<noteq> o_token r \<or> o_id r \<le> o_id q) (opens b)
     \<and> count_where (\<lambda>q. o_id q < o_id r) (opens b) < MAX_ROWS"

lemma depth_pos: "q \<in> set rs \<Longrightarrow> depth rs q \<noteq> 0"
  by (auto simp: depth_def count_where_0)

lemma first_depth: "buffer_inv b \<Longrightarrow> first_of_its_token r b \<Longrightarrow> depth (opens b) r \<le> 1"
proof -
  assume b: "buffer_inv b" and r: "first_of_its_token r b"
  then have "depth (opens b) r \<le> count_where (\<lambda>q. o_id q = o_id r \<and> True) (opens b)"
    unfolding depth_def by (intro count_where_mono) (auto simp: first_of_its_token_def list_all_iff)
  also have "\<dots> \<le> 1" by (rule rows.count_id_le_1 [OF buffer_inv_wf [OF b]])
  finally show ?thesis .
qed

lemma first_rank:
  assumes "buffer_inv b" "first_of_its_token r b"
  shows "count_where (\<lambda>q. rank (opens b) q < rank (opens b) r) (opens b) < MAX_ROWS"
proof -
  have "count_where (\<lambda>q. rank (opens b) q < rank (opens b) r) (opens b) \<le> count_where (\<lambda>q. o_id q < o_id r) (opens b)"
    using first_depth [OF assms] depth_pos by (intro count_where_mono) (fastforce simp: rank_def)
  with assms(2) show ?thesis by (simp add: first_of_its_token_def)
qed

lemma first_filter:
  "first_of_its_token r b \<Longrightarrow> opens b' = filter p (opens b) \<Longrightarrow> p r \<Longrightarrow> first_of_its_token r b'"
  by (auto simp: first_of_its_token_def list_all_iff intro: le_less_trans [OF count_where_filter_le])

lemma first_insert: "buffer_inv b \<Longrightarrow> first_of_its_token r b \<Longrightarrow> first_of_its_token r (insert_open t at ua b)"
  by (force simp: first_of_its_token_def list_all_iff insert_open_def mk_open_def buffer_inv_def)

lemma first_trim: "buffer_inv b \<Longrightarrow> first_of_its_token r b \<Longrightarrow> first_of_its_token r (trim_if_due now b)"
  using trim_if_due_opens [of b now] first_rank [of b r]
  by (auto simp: buffer_inv_distinct first_of_its_token_def list_all_iff intro: le_less_trans [OF count_where_filter_le])

lemma first_step:
  assumes "buffer_inv b" "first_of_its_token r b" "spares r x"
  shows "first_of_its_token r (snd (step x b))"
proof (cases x)
  case (Drain c)
  with assms show ?thesis by (auto simp: opens_route_def spares_def intro: first_filter [OF _ drain_opens])
next
  case (Pixel tok ua at now)
  have "first_of_its_token r (buffer_open t at u now b)"
    if "is_open_token t" "case u of None \<Rightarrow> True | Some u \<Rightarrow> byte_len u \<le> MAX_USER_AGENT" for t u
  proof -
    obtain p where p: "opens (purge_if_due at now (insert_open t at u b)) = filter p (opens (insert_open t at u b))"
      "\<And>r. at - RETENTION_SECS \<le> o_opened_at r \<Longrightarrow> p r"
      by (rule purge_filter [of at now "insert_open t at u b"]) blast
    have "p r" using assms(3) Pixel by (auto simp: spares_def intro: p(2))
    with p(1) first_insert [OF assms(1,2)] have "first_of_its_token r (purge_if_due at now (insert_open t at u b))"
      by (auto intro: first_filter)
    with assms(1) that show ?thesis
      by (simp add: buffer_open_def first_trim buffer_inv_purge buffer_inv_insert)
  qed
  with assms(2) Pixel show ?thesis
    by (auto simp: pixel_def truncate_user_agent_short split: option.split)
qed

section \<open>Properties\<close>

text \<open>What a trim evicts: with rows ranked by how many opens of their token came before them and
  then by age, the rows kept are exactly the first \<open>m\<close>, so every token keeps its first open
  before any token keeps a second; and the number it answers is how many rows are gone.\<close>

theorem trim_keeps_the_shallowest:
  assumes "buffer_inv b"
  shows "opens (snd (trim_to m b)) = filter (\<lambda>r. count_where
             (\<lambda>q. depth (opens b) q < depth (opens b) r \<or> depth (opens b) q = depth (opens b) r \<and> o_id q < o_id r)
             (opens b) < m) (opens b)
       \<and> length (opens (snd (trim_to m b))) = min m (length (opens b))
       \<and> fst (trim_to m b) = length (opens b) - m"
proof (intro conjI)
  note d = buffer_inv_distinct [OF assms]
  have r: "(rank (opens b) q < rank (opens b) r) =
      (depth (opens b) q < depth (opens b) r \<or> depth (opens b) q = depth (opens b) r \<and> o_id q < o_id r)" for q r
    by (auto simp: rank_def)
  show "opens (snd (trim_to m b)) = filter (\<lambda>r. count_where
             (\<lambda>q. depth (opens b) q < depth (opens b) r \<or> depth (opens b) q = depth (opens b) r \<and> o_id q < o_id r)
             (opens b) < m) (opens b)"
    using trim_to_keeps [OF d, of m] by (simp only: r)
  show l: "length (opens (snd (trim_to m b))) = min m (length (opens b))" by (rule length_trim_to [OF d])
  show "fst (trim_to m b) = length (opens b) - m"
  proof (cases "length (opens b) \<le> m")
    case True
    then show ?thesis by (simp add: trim_to_def)
  next
    case False
    let ?p = "\<lambda>r. o_id r \<in> set (victims (length (opens b) - m) (opens b))"
    have "length (filter ?p (opens b)) + length (filter (\<lambda>r. \<not> ?p r) (opens b)) = length (opens b)"
      by (rule sum_length_filter_compl)
    moreover have "length (filter (\<lambda>r. \<not> ?p r) (opens b)) = m"
      using l False by (simp add: trim_to_def Let_def delete_where_def)
    ultimately show ?thesis using False by (simp add: trim_to_def Let_def count_where_def)
  qed
qed

definition flood0 :: buffer where
  "flood0 = \<lparr>opens = [mk_open 1 (replicate 16 CHR ''a'', 0, None), mk_open 2 (replicate 16 CHR ''a'', 0, None),
       mk_open 3 (replicate 16 CHR ''b'', 0, None)],
     last_id = 3, last_purge = 0, last_trim = 0\<rparr>"

lemma flood0_inv: "buffer_inv flood0"
proof -
  have "list_all row_ok (opens flood0)" by code_simp
  moreover have "count_where p (opens flood0) \<le> MAX_PER_TOKEN" for p
    by (rule order_trans [OF count_where_le]) (simp add: flood0_def MAX_PER_TOKEN_def)
  ultimately show ?thesis
    by (simp add: buffer_inv_def list_all_iff) (simp add: flood0_def mk_open_def)
qed

theorem trim_keeps_the_shallowest_witness: "map o_id (opens (snd (trim_to 2 flood0))) = [1, 3]"
proof -
  have "map o_id (filter (\<lambda>r. count_where (\<lambda>q. depth (opens flood0) q < depth (opens flood0) r
      \<or> depth (opens flood0) q = depth (opens flood0) r \<and> o_id q < o_id r) (opens flood0) < 2) (opens flood0)) = [1, 3]"
    by code_simp
  then show ?thesis using trim_keeps_the_shallowest [OF flood0_inv, of 2] by simp
qed

text \<open>A flood cannot choose what the relay forgets: whatever is fetched and drained, the first
  open of a token stays in the buffer as long as its id is not acknowledged and its retention has
  not passed, if fewer than \<open>MAX_ROWS\<close> buffered opens are older than it.\<close>

theorem first_open_survives_a_flood:
  assumes "buffer_inv b" "first_of_its_token r b" "list_all (spares r) xs"
  shows "r \<in> set (opens (final step xs b))"
proof -
  have "first_of_its_token r (final step xs b)"
    using assms by (induction xs arbitrary: b) (auto intro: first_step buffer_inv_step)
  then show ?thesis by (simp add: first_of_its_token_def)
qed

theorem first_open_survives_a_flood_witness:
  "mk_open 3 (replicate 16 CHR ''b'', 0, None) \<in> set (opens (final step
     [Pixel (Some (replicate 16 CHR ''j'')) None 5 (secs 100), Drain (Some 2)] flood0))"
  by (rule first_open_survives_a_flood [OF flood0_inv])
    (simp_all add: flood0_def mk_open_def first_of_its_token_def spares_def MAX_ROWS_def RETENTION_SECS_def)

section \<open>Bounds\<close>

text \<open>An operation keeps rows or writes rows with new ids.\<close>

definition grew :: "buffer \<Rightarrow> buffer \<Rightarrow> bool" where
  "grew b b' \<longleftrightarrow> last_id b \<le> last_id b' \<and> (\<forall>r \<in> set (opens b'). r \<in> set (opens b) \<or> last_id b < o_id r)"

lemma grew_trans: "grew a b \<Longrightarrow> grew b c \<Longrightarrow> grew a c"
  by (fastforce simp: grew_def)

lemma grew_filter: "opens b' = filter p (opens b) \<Longrightarrow> last_id b' = last_id b \<Longrightarrow> grew b b'"
  by (auto simp: grew_def)

lemma grew_step: "grew b (snd (step x b))"
proof (cases x)
  case (Drain c)
  then show ?thesis by (auto simp: opens_route_def intro: grew_filter [OF drain_opens])
next
  case (Pixel tok ua at now)
  have "grew b (buffer_open t at u now b)" for t u
  proof -
    have "grew b (insert_open t at u b)" by (auto simp: grew_def insert_open_def mk_open_def)
    moreover have "grew (insert_open t at u b) (purge_if_due at now (insert_open t at u b))"
      by (rule purge_filter [of at now "insert_open t at u b"]) (rule grew_filter)
    moreover have "grew (purge_if_due at now (insert_open t at u b)) (buffer_open t at u now b)"
      by (auto simp: buffer_open_def grew_def trim_if_due_def trim_to_def Let_def delete_where_def)
    ultimately show ?thesis by (blast intro: grew_trans)
  qed
  with Pixel show ?thesis by (auto simp: pixel_def grew_def split: option.split)
qed

lemma grew_final: "grew b (final step xs b)"
proof (induction xs arbitrary: b)
  case (Cons x xs)
  from grew_trans [OF grew_step Cons.IH] show ?case by simp
qed (simp add: grew_def)

lemma buffer_open_bounded:
  assumes "buffer_inv (purge_if_due at now (insert_open t at ua b))"
  shows "since now (last_trim b) < TRIM_EVERY \<or> length (opens (buffer_open t at ua now b)) \<le> MAX_ROWS"
proof -
  have "last_trim (purge_if_due at now (insert_open t at ua b)) = last_trim b"
    by (simp add: purge_if_due_def insert_open_def)
  then show ?thesis
    using length_trim_to [of "purge_if_due at now (insert_open t at ua b)\<lparr>last_trim := now\<rparr>" MAX_ROWS]
      buffer_inv_distinct [OF assms]
    by (auto simp: buffer_open_def trim_if_due_def)
qed

text \<open>What the relay stores is bounded and shaped, whatever clients send and however the clocks
  run: every row has a token of the daemon's shape and a user agent within the limit, no token
  has more than \<open>MAX_PER_TOKEN\<close> rows, a row written later has an id above every id handed out
  before, and a fetch of the pixel that finds the trim due leaves at most \<open>MAX_ROWS\<close> rows.\<close>

theorem buffer_is_bounded:
  "list_all row_ok (opens (final step xs (open_buffer t0)))
   \<and> count_where (\<lambda>r. o_token r = t) (opens (final step xs (open_buffer t0))) \<le> MAX_PER_TOKEN
   \<and> list_all (\<lambda>r. r \<in> set (opens (final step xs (open_buffer t0))) \<or> last_id (final step xs (open_buffer t0)) < o_id r)
       (opens (final step ys (final step xs (open_buffer t0))))
   \<and> (since now (last_trim (final step xs (open_buffer t0))) < TRIM_EVERY
      \<or> length (opens (if is_open_token k then pixel (Some k) ua at now (final step xs (open_buffer t0)) else open_buffer t0)) \<le> MAX_ROWS)"
proof -
  let ?b = "final step xs (open_buffer t0)"
  have b: "buffer_inv ?b" by (rule relay.inv_final) simp
  have "buffer_inv (purge_if_due at now (insert_open k at (map_option truncate_user_agent ua) ?b))" if "is_open_token k"
    using buffer_inv_insert [OF b that, of "map_option truncate_user_agent ua"]
    by (auto simp: truncate_user_agent_short intro!: buffer_inv_purge split: option.split)
  then have "since now (last_trim ?b) < TRIM_EVERY
      \<or> length (opens (if is_open_token k then pixel (Some k) ua at now ?b else open_buffer t0)) \<le> MAX_ROWS"
    using buffer_open_bounded [of at now k "map_option truncate_user_agent ua" ?b]
    by (auto simp: pixel_def open_buffer_def)
  with b grew_final [of ?b ys] show ?thesis by (simp add: buffer_inv_def list_all_iff grew_def)
qed

end
