(* ===== verification/Mail_Events.thy ===== *)
theory Mail_Events
  imports Agent_Jobs Rows
begin

text \<open>
  The notification log and the devices it is pushed to
  (\<open>squelch-core/src/store/sqlite/events.rs\<close>), and the qualification that decides which mail
  makes an event (\<open>squelch-core/src/triage/events.rs\<close>). The log is append only; its reader
  pages through it with the id of the last event it has seen.

  What a person does to a message (opening it, marking it done, setting a reminder) is the
  state of its \<open>triage\<close> row; any operation of the store may change it, so here it is an
  operation that puts any rows in place. Timestamps are instants; a column that is read as an
  opaque string stays one.
\<close>

section \<open>Names\<close>

datatype tier = PastDue | Deadline | Signal | Noise

primrec tier_as_str :: "tier \<Rightarrow> string" where
  "tier_as_str PastDue = ''past_due''"
| "tier_as_str Deadline = ''deadline''"
| "tier_as_str Signal = ''signal''"
| "tier_as_str Noise = ''noise''"

definition tier_parse :: "string \<Rightarrow> tier option" where
  "tier_parse s = (if s = ''past_due'' then Some PastDue else if s = ''deadline'' then Some Deadline
     else if s = ''signal'' then Some Signal else if s = ''noise'' then Some Noise else None)"

datatype event_kind = Urgent | DeadlineEvent | Surfaced | Opened

primrec kind_as_str :: "event_kind \<Rightarrow> string" where
  "kind_as_str Urgent = ''urgent''"
| "kind_as_str DeadlineEvent = ''deadline''"
| "kind_as_str Surfaced = ''surfaced''"
| "kind_as_str Opened = ''opened''"

definition kind_parse :: "string \<Rightarrow> event_kind option" where
  "kind_parse s = (if s = ''urgent'' then Some Urgent else if s = ''deadline'' then Some DeadlineEvent
     else if s = ''surfaced'' then Some Surfaced else if s = ''opened'' then Some Opened else None)"

datatype sealed_kind = Otp | PasswordReset | MagicLink | LoginAlert | Verification

primrec sealed_as_str :: "sealed_kind \<Rightarrow> string" where
  "sealed_as_str Otp = ''otp''"
| "sealed_as_str PasswordReset = ''password_reset''"
| "sealed_as_str MagicLink = ''magic_link''"
| "sealed_as_str LoginAlert = ''login_alert''"
| "sealed_as_str Verification = ''verification''"

definition sealed_parse :: "string \<Rightarrow> sealed_kind option" where
  "sealed_parse s = (if s = ''otp'' then Some Otp else if s = ''password_reset'' then Some PasswordReset
     else if s = ''magic_link'' then Some MagicLink else if s = ''login_alert'' then Some LoginAlert
     else if s = ''verification'' then Some Verification else None)"

section \<open>Qualification\<close>

record event_context =
  cx_account :: int
  cx_message :: int
  cx_thread :: string
  cx_sender :: string
  cx_one_line :: string
  cx_eligible_at :: "instant option"
  cx_sent :: bool
  cx_spam :: bool
  cx_tier :: tier
  cx_importance :: "8 word"

record notify_config =
  min_importance :: "8 word"
  freshness_window_secs :: int
  rescue_window_secs :: int

record new_event =
  n_account :: int
  n_message :: int
  n_thread :: string
  n_kind :: event_kind
  n_auth :: bool
  n_tier :: tier
  n_importance :: "8 word"
  n_sender :: string
  n_one_line :: string
  n_deadline :: "string option"
  n_sealed :: "sealed_kind option"

datatype refusal = NotWorthy | Suppressed | Expired

definition MAX_FUTURE_SKEW_SECS :: int where
  "MAX_FUTURE_SKEW_SECS = 3600"

definition is_fresh :: "instant \<Rightarrow> notify_config \<Rightarrow> instant \<Rightarrow> bool" where
  "is_fresh received cfg now \<longleftrightarrow>
     now - secs (freshness_window_secs cfg) \<le> received \<and> received \<le> now + secs MAX_FUTURE_SKEW_SECS"

definition notification_kind :: "event_context \<Rightarrow> bool \<Rightarrow> notify_config \<Rightarrow> instant \<Rightarrow> refusal + event_kind" where
  "notification_kind ctx is_auth cfg now =
     (if cx_sent ctx \<or> cx_spam ctx then Inl NotWorthy
      else case cx_eligible_at ctx of None \<Rightarrow> Inl NotWorthy | Some eligible_at \<Rightarrow>
        if \<not> is_auth \<and> cx_importance ctx < min_importance cfg then Inl NotWorthy
        else if secs (rescue_window_secs cfg) < now - eligible_at then Inl Expired
        else Inr (if is_auth then Urgent else Surfaced))"

definition worthy_kind :: "event_context \<Rightarrow> notify_config \<Rightarrow> instant \<Rightarrow> refusal + event_kind" where
  "worthy_kind ctx cfg now = notification_kind ctx False cfg now"

definition notification_event :: "event_context \<Rightarrow> bool \<Rightarrow> notify_config \<Rightarrow> instant \<Rightarrow> refusal + new_event" where
  "notification_event ctx is_auth cfg now = (case notification_kind ctx is_auth cfg now of
       Inl e \<Rightarrow> Inl e
     | Inr k \<Rightarrow> Inr \<lparr>n_account = cx_account ctx, n_message = cx_message ctx, n_thread = cx_thread ctx, n_kind = k,
         n_auth = is_auth, n_tier = Signal, n_importance = cx_importance ctx, n_sender = cx_sender ctx,
         n_one_line = cx_one_line ctx, n_deadline = None, n_sealed = None\<rparr>)"

definition event_for :: "event_context \<Rightarrow> notify_config \<Rightarrow> instant \<Rightarrow> refusal + new_event" where
  "event_for ctx cfg now = notification_event ctx False cfg now"

section \<open>The log\<close>

record triage_row =
  t_account :: int
  t_message :: int
  t_status :: "string option"
  t_opened_at :: "instant option"
  t_remind_at :: "instant option"

record event_row =
  e_id :: int
  e_account :: int
  e_message :: int
  e_thread :: string
  e_kind :: string
  e_tier :: string
  e_importance :: int
  e_sender :: string
  e_one_line :: string
  e_deadline :: "string option"
  e_sealed :: "string option"
  e_created :: instant
  e_auth :: bool

record event =
  ev_id :: int
  ev_message :: int
  ev_thread :: string
  ev_kind :: event_kind
  ev_tier :: tier
  ev_importance :: "8 word"
  ev_sender :: string
  ev_one_line :: string
  ev_deadline :: "string option"
  ev_sealed :: "sealed_kind option"
  ev_created :: instant
  ev_auth :: bool

record device =
  d_id :: int
  d_account :: int
  d_token :: string
  d_platform :: string
  d_tag :: "string option"
  d_created :: instant
  d_registered :: instant

record events_db =
  events :: "event_row list"
  devices :: "device list"
  triage :: "triage_row list"

definition map_event :: "event_row \<Rightarrow> event" where
  "map_event r = \<lparr>ev_id = e_id r, ev_message = e_message r, ev_thread = e_thread r,
     ev_kind = (case kind_parse (e_kind r) of None \<Rightarrow> Surfaced | Some k \<Rightarrow> k),
     ev_tier = (case tier_parse (e_tier r) of None \<Rightarrow> Noise | Some t \<Rightarrow> t),
     ev_importance = word_of_int (min (max (e_importance r) 0) 255), ev_sender = e_sender r, ev_one_line = e_one_line r,
     ev_deadline = e_deadline r, ev_sealed = Option.bind (e_sealed r) sealed_parse,
     ev_created = e_created r, ev_auth = e_auth r\<rparr>"

text \<open>The guard an event and its delivery share: mail somebody else sent, that nobody has
  acted on; an open receipt passes as it is. The message's \<open>triage\<close> row is joined if there is one.\<close>

definition interrupts :: "mail list \<Rightarrow> string \<Rightarrow> int \<Rightarrow> int \<Rightarrow> events_db \<Rightarrow> bool" where
  "interrupts mail k account i d \<longleftrightarrow> list_ex (\<lambda>m. m_account m = account \<and> m_id m = i
     \<and> (k = ''opened'' \<or> \<not> m_sent m \<and> \<not> m_spam m
        \<and> (case find (\<lambda>t. t_message t = i \<and> t_account t = account) (triage d) of
             None \<Rightarrow> True
           | Some t \<Rightarrow> t_opened_at t = None \<and> t_status t \<noteq> Some ''done'' \<and> t_remind_at t = None))) mail"

definition mk_event :: "int \<Rightarrow> new_event \<times> instant \<Rightarrow> event_row" where
  "mk_event i = (\<lambda>(ev, now). \<lparr>e_id = i, e_account = n_account ev, e_message = n_message ev, e_thread = n_thread ev,
     e_kind = kind_as_str (n_kind ev), e_tier = tier_as_str (n_tier ev), e_importance = uint (n_importance ev),
     e_sender = n_sender ev, e_one_line = n_one_line ev, e_deadline = n_deadline ev,
     e_sealed = map_option sealed_as_str (n_sealed ev), e_created = now, e_auth = n_auth ev\<rparr>)"

definition append_event :: "mail list \<Rightarrow> new_event \<Rightarrow> instant \<Rightarrow> events_db \<Rightarrow> int option \<times> events_db" where
  "append_event mail ev now d =
     (if interrupts mail (kind_as_str (n_kind ev)) (n_account ev) (n_message ev) d
         \<and> \<not> list_ex (\<lambda>r. e_message r = n_message ev) (events d)
      then let i = fresh_id (map e_id (events d)) in (Some i, d\<lparr>events := events d @ [mk_event i (ev, now)]\<rparr>)
      else (None, d))"

definition notification_delivery_allowed :: "mail list \<Rightarrow> int \<Rightarrow> int \<Rightarrow> events_db \<Rightarrow> bool" where
  "notification_delivery_allowed mail account i d \<longleftrightarrow>
     list_ex (\<lambda>r. e_account r = account \<and> e_id r = i \<and> interrupts mail (e_kind r) account (e_message r) d) (events d)"

definition message_has_event :: "int \<Rightarrow> int \<Rightarrow> events_db \<Rightarrow> bool" where
  "message_has_event account i d \<longleftrightarrow> list_ex (\<lambda>r. e_account r = account \<and> e_message r = i) (events d)"

definition events_after :: "int \<Rightarrow> int \<Rightarrow> nat \<Rightarrow> events_db \<Rightarrow> event list" where
  "events_after account after_id limit d =
     map map_event (take limit (sort_key e_id (filter (\<lambda>r. e_account r = account \<and> after_id < e_id r) (events d))))"

definition event_by_id :: "int \<Rightarrow> int \<Rightarrow> events_db \<Rightarrow> event option" where
  "event_by_id account i d = map_option map_event (find (\<lambda>r. e_account r = account \<and> e_id r = i) (events d))"

text \<open>\<open>MAX(id)\<close>, 0 when there is none.\<close>

definition latest_event_id :: "int \<Rightarrow> events_db \<Rightarrow> int" where
  "latest_event_id account d = (case map e_id (filter (\<lambda>r. e_account r = account) (events d)) of
     [] \<Rightarrow> 0 | i # is \<Rightarrow> fold max is i)"

section \<open>Devices\<close>

definition mk_device :: "int \<Rightarrow> int \<times> string \<times> string \<times> string option \<times> instant \<Rightarrow> device" where
  "mk_device i = (\<lambda>(acc, tok, platform, tag, now). \<lparr>d_id = i, d_account = acc, d_token = tok, d_platform = platform,
     d_tag = tag, d_created = now, d_registered = now\<rparr>)"

definition upsert_device ::
    "int \<Rightarrow> string \<Rightarrow> string \<Rightarrow> string option \<Rightarrow> instant \<Rightarrow> events_db \<Rightarrow> (core_error + device) \<times> events_db" where
  "upsert_device account tok platform tag now d =
     (case find (\<lambda>v. d_token v = tok) (devices d) of
        None \<Rightarrow> (let v = mk_device (fresh_id (map d_id (devices d))) (account, tok, platform, tag, now)
          in (Inr v, d\<lparr>devices := devices d @ [v]\<rparr>))
      | Some old \<Rightarrow>
          if d_account old \<noteq> account then (Inl InvalidInput, d)
          else (let f = (\<lambda>v. v\<lparr>d_platform := platform, d_tag := tag, d_registered := now\<rparr>)
            in (Inr (f old), d\<lparr>devices := update_where (\<lambda>v. d_token v = tok) f (devices d)\<rparr>)))"

definition list_devices :: "int \<Rightarrow> events_db \<Rightarrow> device list" where
  "list_devices account d = sort_key d_id (filter (\<lambda>v. d_account v = account) (devices d))"

definition delete_device_by_token :: "int \<Rightarrow> string \<Rightarrow> events_db \<Rightarrow> bool \<times> events_db" where
  "delete_device_by_token account tok d =
     (let p = (\<lambda>v. d_account v = account \<and> d_token v = tok)
      in (0 < count_where p (devices d), d\<lparr>devices := delete_where p (devices d)\<rparr>))"

datatype op =
    Append new_event instant
  | Act "triage_row list"
  | Register int string string "string option" instant
  | Forget int string

datatype out = Appended "int option" | Acted | Registered "core_error + device" | Forgot bool

fun step :: "mail list \<Rightarrow> op \<Rightarrow> events_db \<Rightarrow> out \<times> events_db" where
  "step mail (Append ev now) d = map_prod Appended id (append_event mail ev now d)"
| "step mail (Act ts) d = (Acted, d\<lparr>triage := ts\<rparr>)"
| "step mail (Register acc tok pl tag now) d = map_prod Registered id (upsert_device acc tok pl tag now d)"
| "step mail (Forget acc tok) d = map_prod Forgot id (delete_device_by_token acc tok d)"


section \<open>The invariant\<close>

definition events_inv :: "events_db \<Rightarrow> bool" where
  "events_inv d \<longleftrightarrow> sorted_wrt (<) (map e_id (events d)) \<and> distinct (map e_message (events d))
     \<and> distinct (map d_token (devices d))"

definition empty_events :: events_db where
  "empty_events = \<lparr>events = [], devices = [], triage = []\<rparr>"

lemma events_inv_empty [simp]: "events_inv empty_events"
  by (simp add: events_inv_def empty_events_def)

lemma append_event_cases:
  obtains "append_event mail ev now d = (None, d)"
  | i where "append_event mail ev now d = (Some i, d\<lparr>events := events d @ [mk_event i (ev, now)]\<rparr>)"
      "i = fresh_id (map e_id (events d))" "\<forall>r \<in> set (events d). e_message r \<noteq> n_message ev"
      "interrupts mail (kind_as_str (n_kind ev)) (n_account ev) (n_message ev) d"
  by (cases "append_event mail ev now d = (None, d)")
    (auto simp: append_event_def Let_def list_ex_iff split: if_splits)

lemma fresh_event_id: "r \<in> set (events d) \<Longrightarrow> e_id r < fresh_id (map e_id (events d))"
  by (rule fresh_id_new) simp

lemma mk_event_simps [simp]: "e_id (mk_event i (ev, now)) = i" "e_message (mk_event i (ev, now)) = n_message ev"
    "e_account (mk_event i (ev, now)) = n_account ev" "e_kind (mk_event i (ev, now)) = kind_as_str (n_kind ev)"
  by (simp_all add: mk_event_def)

interpretation event_rows: id_table e_id mk_event
  by unfold_locales (auto simp: mk_event_def split: prod.splits)

interpretation device_rows: id_table d_id mk_device
  by unfold_locales (auto simp: mk_device_def split: prod.splits)

lemma upsert_device_tokens:
  "distinct (map d_token (devices d)) \<Longrightarrow> distinct (map d_token (devices (snd (upsert_device acc tok pl tag now d))))"
proof -
  assume d: "distinct (map d_token (devices d))"
  have "map d_token (update_where (\<lambda>v. d_token v = tok) (\<lambda>v. v\<lparr>d_platform := pl, d_tag := tag, d_registered := now\<rparr>) vs)
      = map d_token vs" for vs :: "device list" by (simp add: update_where_def)
  with d show ?thesis
    by (auto simp: upsert_device_def Let_def mk_device_def find_None_iff image_iff split: option.split)
qed

lemma events_inv_step: "events_inv d \<Longrightarrow> events_inv (snd (step mail x d))"
proof (cases x)
  case (Append ev now)
  assume "events_inv d"
  then show ?thesis
    by (rule_tac append_event_cases [of mail ev now d])
      (auto simp: Append events_inv_def sorted_wrt_append fresh_event_id)
qed (auto simp: events_inv_def upsert_device_tokens delete_device_by_token_def Let_def delete_where_def distinct_map_filter,
  simp_all add: upsert_device_def Let_def split: option.split)

interpretation event_log: invariant_machine "step mail" events_inv for mail
  by unfold_locales (rule events_inv_step)

text \<open>The log is append only.\<close>

lemma events_step: "\<exists>new. events (snd (step mail x d)) = events d @ new"
proof (cases x)
  case (Append ev now)
  show ?thesis by (rule append_event_cases [of mail ev now d]) (auto simp: Append)
qed (auto simp: upsert_device_def delete_device_by_token_def Let_def split: option.split)

lemma events_final: "\<exists>new. events (final (step mail) xs d) = events d @ new"
proof (induction xs arbitrary: d)
  case (Cons x xs)
  obtain new new' where "events (snd (step mail x d)) = events d @ new"
    "events (final (step mail) xs (snd (step mail x d))) = events (snd (step mail x d)) @ new'"
    using events_step Cons.IH by blast
  then show ?case by simp
qed simp

fun announces :: "int \<Rightarrow> op \<Rightarrow> out \<Rightarrow> bool" where
  "announces i (Append ev now) (Appended (Some k)) = (n_message ev = i)"
| "announces i _ _ = False"

lemma announced:
  "times (announces i) (trace (step mail) xs d) + count_where (\<lambda>r. e_message r = i) (events d)
     = count_where (\<lambda>r. e_message r = i) (events (final (step mail) xs d))"
proof (induction xs arbitrary: d)
  case (Cons x xs)
  have "(if announces i x (fst (step mail x d)) then 1 else 0) + count_where (\<lambda>r. e_message r = i) (events d)
      = count_where (\<lambda>r. e_message r = i) (events (snd (step mail x d)))"
  proof (cases x)
    case (Append ev now)
    show ?thesis by (rule append_event_cases [of mail ev now d]) (auto simp: Append)
  qed (auto simp: upsert_device_def delete_device_by_token_def Let_def split: option.split)
  with Cons.IH [of "snd (step mail x d)"] show ?case by (simp split: if_splits)
qed simp

lemma events_after_eq:
  "events_inv d \<Longrightarrow> events_after account c n d
     = map map_event (take n (filter (\<lambda>r. c < e_id r) (filter (\<lambda>r. e_account r = account) (events d))))"
  by (simp add: events_after_def events_inv_def sort_key_strictly_sorted strictly_sorted_filter filter_filter conj_commute)

section \<open>Properties\<close>

text \<open>C18. A message makes at most one event, ever: over any sequence of appended events, actions of
  people and device registrations at most one append for a message succeeds, the log only grows
  at its end, and its ids only grow, so a reader's cursor never passes an event it has not seen.\<close>

theorem one_event_a_message:
  "times (announces i) (trace (step mail) xs empty_events) \<le> 1
   \<and> sorted_wrt (<) (map e_id (events (final (step mail) xs empty_events)))
   \<and> take (length (events (final (step mail) xs empty_events))) (events (final (step mail) (xs @ ys) empty_events))
       = events (final (step mail) xs empty_events)"
proof -
  let ?d = "final (step mail) xs empty_events"
  have d: "events_inv ?d" by (rule event_log.inv_final) simp
  then have "count_where (\<lambda>r. e_message r = i) (events ?d) \<le> 1"
    by (intro count_where_distinct) (simp add: events_inv_def)
  with announced [of i mail xs empty_events] d events_final [of mail ys ?d] show ?thesis
    by (auto simp: final_append events_inv_def)
qed

text \<open>The feed delivers every event once and in order: reading a page and then, after whatever
  else has happened, the page that follows its last event, is reading both at once from the
  log as it is then.\<close>

theorem feed_skips_nothing:
  assumes "events_after account c n (final (step mail) xs empty_events) = page" "page \<noteq> []"
  shows "events_after account c (length page + n') (final (step mail) (xs @ ys) empty_events)
      = page @ events_after account (ev_id (last page)) n' (final (step mail) (xs @ ys) empty_events)"
proof -
  let ?d = "final (step mail) xs empty_events" and ?mine = "filter (\<lambda>r. e_account r = account)"
  have d: "events_inv ?d" and d': "events_inv (final (step mail) (xs @ ys) empty_events)"
    by (rule event_log.inv_final, simp)+
  obtain new where new: "events (final (step mail) (xs @ ys) empty_events) = events ?d @ new"
    using events_final [of mail ys ?d] by (auto simp: final_append)
  obtain rows where rows: "rows = take n (filter (\<lambda>r. c < e_id r) (?mine (events ?d)))" by simp
  then have page: "page = map map_event rows" using assms(1) by (simp add: events_after_eq [OF d])
  with assms(2) have "rows \<noteq> []" by simp
  then have last: "ev_id (last page) = e_id (last rows)" by (simp add: page last_map map_event_def)
  have "sorted_wrt (<) (map e_id (?mine (events ?d) @ ?mine new))"
    using d' unfolding events_inv_def new by (metis filter_append strictly_sorted_filter)
  from paging [OF this rows [symmetric] \<open>rows \<noteq> []\<close>, of n'] show ?thesis
    unfolding events_after_eq [OF d'] new last by (simp add: page)
qed


definition mail0 :: "mail list" where
  "mail0 = map (\<lambda>i. \<lparr>m_id = i, m_account = 1, m_thread = ''t'', m_from = ''a'', m_subject = ''s'', m_body = ''b'',
     m_received = i, m_sent = False, m_spam = False\<rparr>) [1, 2]"

definition new0 :: "int \<Rightarrow> new_event" where
  "new0 i = \<lparr>n_account = 1, n_message = i, n_thread = ''t'', n_kind = Surfaced, n_auth = False, n_tier = Signal,
     n_importance = 60, n_sender = ''a'', n_one_line = ''s'', n_deadline = None, n_sealed = None\<rparr>"

theorem feed_skips_nothing_witness:
  "map ev_message (events_after 1 0 2 (final (step mail0) [Append (new0 1) 5, Append (new0 2) 6] empty_events)) = [1, 2]"
proof -
  define page where "page = events_after 1 0 1 (final (step mail0) [Append (new0 1) 5] empty_events)"
  have p: "map (\<lambda>e. (ev_id e, ev_message e)) page = [(1, 1)]" unfolding page_def by code_simp
  then have "page \<noteq> []" by auto
  from feed_skips_nothing [OF page_def [symmetric] this, of 1 "[Append (new0 2) 6]"]
  have "events_after 1 0 (length page + 1) (final (step mail0) [Append (new0 1) 5, Append (new0 2) 6] empty_events)
      = page @ events_after 1 (ev_id (last page)) 1 (final (step mail0) [Append (new0 1) 5, Append (new0 2) 6] empty_events)"
    by simp
  moreover have "length page = 1" "ev_id (last page) = 1" "map ev_message page = [1]"
    using p by (auto simp: map_eq_Cons_conv)
  moreover have "map ev_message (events_after 1 1 1 (final (step mail0) [Append (new0 1) 5, Append (new0 2) 6] empty_events)) = [2]"
    by code_simp
  ultimately show ?thesis by (simp add: numeral_2_eq_2)
qed

definition dealt_with :: "int \<Rightarrow> int \<Rightarrow> events_db \<Rightarrow> bool" where
  "dealt_with account i d \<longleftrightarrow> (case find (\<lambda>t. t_message t = i \<and> t_account t = account) (triage d) of None \<Rightarrow> False
     | Some t \<Rightarrow> t_opened_at t \<noteq> None \<or> t_status t = Some ''done'' \<or> t_remind_at t \<noteq> None)"

lemma dealt_with_quiet: "dealt_with account i d \<Longrightarrow> k \<noteq> ''opened'' \<Longrightarrow> \<not> interrupts mail k account i d"
  by (auto simp: dealt_with_def interrupts_def list_ex_iff split: option.splits)

text \<open>Nobody is interrupted about mail they have already dealt with: once a message has been
  opened, marked done or given a reminder, an event other than an open receipt is not appended
  for it, and one appended before may no longer be delivered.\<close>

theorem dealt_with_mail_is_quiet:
  assumes "events_inv d" "dealt_with account i d" "n_account ev = account" "n_message ev = i" "n_kind ev \<noteq> Opened"
  shows "append_event mail ev now d = (None, d)
     \<and> list_all (\<lambda>r. e_account r \<noteq> account \<or> e_message r \<noteq> i \<or> e_kind r = ''opened''
          \<or> notification_delivery_allowed mail account (e_id r) d = False) (events d)"
proof
  have "kind_as_str (n_kind ev) \<noteq> ''opened''" using assms(5) by (cases "n_kind ev") auto
  with assms(2-4) show "append_event mail ev now d = (None, d)" by (simp add: append_event_def dealt_with_quiet)
  have "distinct (map e_id (events d))" using assms(1) by (simp add: events_inv_def strict_sorted_iff)
  then show "list_all (\<lambda>r. e_account r \<noteq> account \<or> e_message r \<noteq> i \<or> e_kind r = ''opened''
          \<or> notification_delivery_allowed mail account (e_id r) d = False) (events d)"
    using dealt_with_quiet [OF assms(2)]
    by (auto simp: notification_delivery_allowed_def list_all_iff list_ex_iff dest: distinct_map_eq)
qed

text \<open>An event reads back as it was appended, and only for its account.\<close>

lemma tier_parse_as_str [simp]: "tier_parse (tier_as_str t) = Some t"
  by (cases t) (simp_all add: tier_parse_def)

lemma kind_parse_as_str [simp]: "kind_parse (kind_as_str k) = Some k"
  by (cases k) (simp_all add: kind_parse_def)

lemma sealed_parse_as_str [simp]: "sealed_parse (sealed_as_str k) = Some k"
  by (cases k) (simp_all add: sealed_parse_def)

lemma uint_clamp: "word_of_int (min (uint (x :: 8 word)) 255) = x"
proof -
  have "min (uint x) 255 = uint x" using uint_lt2p [of x] by simp
  then show ?thesis by simp
qed

text \<open>What is announced is what was appended: an event just appended is the newest of its
  account, reads back under its id with every field as it was given, and no other account can
  read it.\<close>

theorem appended_event_reads_back:
  assumes "append_event mail ev now d = (Some i, d')"
  shows "event_by_id (n_account ev) i d' = Some \<lparr>ev_id = i, ev_message = n_message ev, ev_thread = n_thread ev,
       ev_kind = n_kind ev, ev_tier = n_tier ev, ev_importance = n_importance ev, ev_sender = n_sender ev,
       ev_one_line = n_one_line ev, ev_deadline = n_deadline ev, ev_sealed = n_sealed ev, ev_created = now,
       ev_auth = n_auth ev\<rparr>
     \<and> latest_event_id (n_account ev) d' = i \<and> message_has_event (n_account ev) (n_message ev) d'
     \<and> (other = n_account ev \<or> event_by_id other i d' = None)"
proof -
  have d': "d' = d\<lparr>events := events d @ [mk_event i (ev, now)]\<rparr>" and i: "i = fresh_id (map e_id (events d))"
    using assms by (auto simp: append_event_def Let_def split: if_splits)
  have new: "find (\<lambda>r. e_account r = a \<and> e_id r = i) (events d @ [mk_event i (ev, now)])
      = (if n_account ev = a then Some (mk_event i (ev, now)) else None)" for a
  proof -
    have "find (\<lambda>r. e_account r = a \<and> e_id r = i) (events d) = None"
      unfolding find_None_iff using fresh_event_id i by fastforce
    then show ?thesis by (simp add: find_append)
  qed

  have "latest_event_id (n_account ev) d' = i"
  proof -
    have le: "fold max xs (m :: int) \<le> b" if "m \<le> b" "\<And>x. x \<in> set xs \<Longrightarrow> x \<le> b" for xs m b
      using that by (induction xs arbitrary: m) auto
    let ?is = "map e_id (filter (\<lambda>r. e_account r = n_account ev) (events d))"
    have lt: "x < i" if "x \<in> set ?is" for x using that fresh_event_id i by auto
    show ?thesis
    proof (cases ?is)
      case Nil
      then show ?thesis by (simp add: latest_event_id_def d')
    next
      case (Cons a as)
      have "fold max as a \<le> i" using lt unfolding Cons by (intro le) (auto intro: less_imp_le)
      with Cons show ?thesis by (simp add: latest_event_id_def d' max_def)
    qed
  qed
  moreover have "map_event (mk_event i (ev, now)) = \<lparr>ev_id = i, ev_message = n_message ev, ev_thread = n_thread ev,
       ev_kind = n_kind ev, ev_tier = n_tier ev, ev_importance = n_importance ev, ev_sender = n_sender ev,
       ev_one_line = n_one_line ev, ev_deadline = n_deadline ev, ev_sealed = n_sealed ev, ev_created = now,
       ev_auth = n_auth ev\<rparr>"
    by (cases "n_sealed ev") (simp_all add: map_event_def mk_event_def uint_clamp)
  ultimately show ?thesis by (simp add: event_by_id_def d' new message_has_event_def)
qed


lemma qualifies0: "fst (append_event mail0 (new0 1) 7 empty_events) = Some 1"
  by code_simp

theorem appended_event_reads_back_witness:
  "event_by_id 2 1 (snd (append_event mail0 (new0 1) 7 empty_events)) = None
   \<and> map_option ev_importance (event_by_id 1 1 (snd (append_event mail0 (new0 1) 7 empty_events))) = Some 60"
proof -
  have "append_event mail0 (new0 1) 7 empty_events = (Some 1, snd (append_event mail0 (new0 1) 7 empty_events))"
    using qualifies0 by (metis prod.collapse)
  from appended_event_reads_back [OF this, of 2] show ?thesis by (simp add: new0_def)
qed

definition opened0 :: events_db where
  "opened0 = \<lparr>events = [mk_event 1 (new0 1, 5)], devices = [],
     triage = [\<lparr>t_account = 1, t_message = 1, t_status = None, t_opened_at = Some 6, t_remind_at = None\<rparr>]\<rparr>"

theorem dealt_with_mail_is_quiet_witness:
  "append_event mail0 (new0 1) 7 opened0 = (None, opened0) \<and> \<not> notification_delivery_allowed mail0 1 1 opened0"
proof -
  have "append_event mail0 (new0 1) 7 opened0 = (None, opened0)
     \<and> list_all (\<lambda>r. e_account r \<noteq> 1 \<or> e_message r \<noteq> 1 \<or> e_kind r = ''opened''
          \<or> notification_delivery_allowed mail0 1 (e_id r) opened0 = False) (events opened0)"
    by (rule dealt_with_mail_is_quiet)
      (simp_all add: events_inv_def opened0_def new0_def dealt_with_def)
  then show ?thesis by (simp add: opened0_def new0_def)
qed

text \<open>A device token is never moved to another account behind its owner's back.\<close>

lemma device_step:
  assumes "find (\<lambda>v. d_token v = tok) (devices d) = Some v" "x \<noteq> Forget (d_account v) tok"
  shows "\<exists>v'. find (\<lambda>v. d_token v = tok) (devices (snd (step mail x d))) = Some v' \<and> d_account v' = d_account v"
proof (cases x)
  case (Append ev now)
  show ?thesis by (rule append_event_cases [of mail ev now d]) (use assms in \<open>auto simp: Append\<close>)
next
  case (Act ts)
  with assms show ?thesis by simp
next
  case (Register acc t pl tag now)
  have f: "\<exists>v'. find (\<lambda>v. d_token v = tok) (update_where (\<lambda>v. d_token v = t) g vs) = Some v' \<and> d_account v' = d_account v"
    if "find (\<lambda>v. d_token v = tok) vs = Some v" "\<And>v. d_token (g v) = d_token v \<and> d_account (g v) = d_account v"
    for vs and g :: "device \<Rightarrow> device"
    using that by (induction vs) (auto simp: update_where_def split: if_splits)
  from assms(1) show ?thesis
    by (auto simp: Register upsert_device_def Let_def find_append intro!: f split: option.split)
next
  case (Forget acc t)
  have "find (\<lambda>v. d_token v = tok) (delete_where (\<lambda>v. d_account v = acc \<and> d_token v = t) vs) = Some v"
    if "find (\<lambda>v. d_token v = tok) vs = Some v" for vs
    using that assms(2) Forget by (induction vs) (auto simp: delete_where_def split: if_splits)
  with assms(1) Forget show ?thesis by (simp add: delete_device_by_token_def Let_def)
qed

text \<open>Pushes cannot be redirected: while its owner does not unregister it, a device token stays
  with the account that registered it first, whatever is registered, and a registration under
  another account is refused with an error.\<close>

theorem device_stays_with_its_account:
  assumes "find (\<lambda>v. d_token v = tok) (devices d) = Some v" "Forget (d_account v) tok \<notin> set xs"
  shows "map_option d_account (find (\<lambda>v. d_token v = tok) (devices (final (step mail) xs d))) = Some (d_account v)
     \<and> (acc = d_account v \<or> fst (upsert_device acc tok pl tag now (final (step mail) xs d)) = Inl InvalidInput)"
proof -
  have "\<exists>v'. find (\<lambda>v. d_token v = tok) (devices (final (step mail) xs d)) = Some v' \<and> d_account v' = d_account v"
    using assms
  proof (induction xs arbitrary: d v)
    case (Cons x xs)
    then obtain v' where "find (\<lambda>v. d_token v = tok) (devices (snd (step mail x d))) = Some v'" "d_account v' = d_account v"
      using device_step [of tok d v x mail] by auto
    with Cons.IH [of "snd (step mail x d)" v'] Cons.prems(2) show ?case by simp
  qed simp
  then show ?thesis by (auto simp: upsert_device_def split: if_splits)
qed

theorem device_stays_with_its_account_witness:
  "fst (upsert_device 2 ''k'' ''ios'' None 9 (final (step []) [Forget 2 ''k''] (snd (upsert_device 1 ''k'' ''ios'' None 5 empty_events))))
     = Inl InvalidInput"
proof -
  let ?d = "snd (upsert_device 1 ''k'' ''ios'' None 5 empty_events)"
  have f: "find (\<lambda>v. d_token v = ''k'') (devices ?d) = Some (mk_device 1 (1, ''k'', ''ios'', None, 5))" by code_simp
  have "Forget (d_account (mk_device 1 (1, ''k'', ''ios'', None, 5))) ''k'' \<notin> set [Forget 2 ''k'']"
    by (simp add: mk_device_def)
  from device_stays_with_its_account [OF f this, of "[]" 2 "''ios''" None 9] show ?thesis by (simp add: mk_device_def)
qed

text \<open>What qualifies does not depend on the tier, and unauthenticated mail never makes an urgent event.\<close>

theorem urgency_is_authentication:
  "worthy_kind (ctx\<lparr>cx_tier := t\<rparr>) cfg now = worthy_kind ctx cfg now
   \<and> worthy_kind ctx cfg now \<in> {Inl NotWorthy, Inl Expired, Inr Surfaced}
   \<and> notification_kind ctx True cfg now \<in> {Inl NotWorthy, Inl Expired, Inr Urgent}"
  by (auto simp: worthy_kind_def notification_kind_def split: option.split)

end
