(* ===== verification/Open_Poller.thy ===== *)
theory Open_Poller
  imports Open_Buffer Mail_Events
begin

text \<open>
  Read tracking on the daemon's side: the trackers of sent mail and the opens they collect
  (\<open>squelch-core/src/store/sqlite/tracking.rs\<close>), and the poller that drains the relay's buffer into
  them (\<open>OpensPoller\<close> in \<open>squelch-core/src/tracking.rs\<close>), composed with the relay of \<open>Open_Buffer\<close>
  and the event log of \<open>Mail_Events\<close>.

  One iteration of the poller's loop is one request and then, row by row, two durable writes:
  the open, and the cursor. Each may be the last before the daemon stops or the store fails;
  \<open>k\<close> counts the writes that still happen. A pixel that is fetched between two of these writes
  only touches the relay, so it commutes with them and is a step of its own. \<open>written\<close> is a
  history variable: the rows \<open>record_open\<close> has been called with.
\<close>

definition MAX_OPENS_PER_TOKEN :: nat where
  "MAX_OPENS_PER_TOKEN = 50"

definition TRACKER_RETENTION_SECS :: int where
  "TRACKER_RETENTION_SECS = 180 * 24 * 60 * 60"

definition OPEN_PROXIED :: string where
  "OPEN_PROXIED = ''proxied''"

definition OPEN_UNKNOWN :: string where
  "OPEN_UNKNOWN = ''unknown''"

definition OPENED_IMPORTANCE :: "8 word" where
  "OPENED_IMPORTANCE = 50"

section \<open>Trackers\<close>

record tracker =
  k_token :: string
  k_account :: int
  k_message :: "int option"
  k_created :: int

record seen_row =
  s_id :: int
  s_token :: string
  s_opened_at :: int
  s_user_agent :: "string option"
  s_class :: string

record message_open =
  mo_opened_at :: int
  mo_user_agent :: "string option"
  mo_class :: string

record tracked_message =
  tm_message :: int
  tm_thread :: string
  tm_subject :: string
  tm_from :: string

record tracking =
  trackers :: "tracker list"
  seen :: "seen_row list"
  seen_last :: int

definition map_open :: "seen_row \<Rightarrow> message_open" where
  "map_open r = \<lparr>mo_opened_at = s_opened_at r, mo_user_agent = s_user_agent r, mo_class = s_class r\<rparr>"

definition insert_send_tracker :: "int \<Rightarrow> string \<Rightarrow> int option \<Rightarrow> int \<Rightarrow> tracking \<Rightarrow> core_error + tracking" where
  "insert_send_tracker account t message created_at d =
     (if list_ex (\<lambda>k. k_token k = t) (trackers d) then Inl Sqlite
      else Inr (d\<lparr>trackers := trackers d @ [\<lparr>k_token = t, k_account = account, k_message = message, k_created = created_at\<rparr>]\<rparr>))"

definition set_send_tracker_message :: "int \<Rightarrow> string \<Rightarrow> int \<Rightarrow> tracking \<Rightarrow> bool \<times> tracking" where
  "set_send_tracker_message account t message d =
     (let p = (\<lambda>k. k_token k = t \<and> k_account k = account)
      in (0 < count_where p (trackers d), d\<lparr>trackers := update_where p (\<lambda>k. k\<lparr>k_message := Some message\<rparr>) (trackers d)\<rparr>))"

definition delete_send_tracker :: "int \<Rightarrow> string \<Rightarrow> tracking \<Rightarrow> bool \<times> tracking" where
  "delete_send_tracker account t d =
     (let mine = list_ex (\<lambda>k. k_token k = t \<and> k_account k = account) (trackers d);
          p = (\<lambda>k. k_token k = t \<and> k_account k = account)
      in (0 < count_where p (trackers d),
          d\<lparr>seen := delete_where (\<lambda>r. s_token r = t \<and> mine) (seen d), trackers := delete_where p (trackers d)\<rparr>))"

definition mk_seen :: "int \<Rightarrow> string \<times> int \<times> string option \<times> string \<Rightarrow> seen_row" where
  "mk_seen i = (\<lambda>(t, at, ua, c). \<lparr>s_id = i, s_token = t, s_opened_at = at, s_user_agent = ua, s_class = c\<rparr>)"

text \<open>One statement: the tracker is ours, it is not too old, and it has not collected enough.\<close>

definition record_open :: "int \<Rightarrow> string \<Rightarrow> int \<Rightarrow> string option \<Rightarrow> string \<Rightarrow> tracking \<Rightarrow> bool \<times> tracking" where
  "record_open account t opened_at ua c d =
     (if list_ex (\<lambda>k. k_token k = t \<and> k_account k = account \<and> opened_at - k_created k < TRACKER_RETENTION_SECS) (trackers d)
         \<and> count_where (\<lambda>r. s_token r = t) (seen d) < MAX_OPENS_PER_TOKEN
      then (True, d\<lparr>seen := seen d @ [mk_seen (seen_last d + 1) (t, opened_at, ua, c)], seen_last := seen_last d + 1\<rparr>)
      else (False, d))"

definition message_opens :: "int \<Rightarrow> int \<Rightarrow> tracking \<Rightarrow> message_open list" where
  "message_opens account message d = map map_open (sort_key (\<lambda>r. (s_opened_at r, s_id r))
     (filter (\<lambda>r. list_ex (\<lambda>k. k_token k = s_token r \<and> k_account k = account \<and> k_message k = Some message) (trackers d)) (seen d)))"

definition find_tracked :: "mail list \<Rightarrow> int \<Rightarrow> string \<Rightarrow> tracking \<Rightarrow> tracked_message option" where
  "find_tracked mail account t d =
     (case find (\<lambda>k. k_token k = t \<and> k_account k = account) (trackers d) of None \<Rightarrow> None
      | Some k \<Rightarrow> map_option (\<lambda>m. \<lparr>tm_message = m_id m, tm_thread = m_thread m, tm_subject = m_subject m, tm_from = m_from m\<rparr>)
          (find (\<lambda>m. Some (m_id m) = k_message k \<and> m_account m = k_account k) mail))"

definition classify_user_agent :: "string option \<Rightarrow> string" where
  "classify_user_agent ua = (case ua of None \<Rightarrow> OPEN_UNKNOWN
     | Some s \<Rightarrow> if contains s ''GoogleImageProxy'' then OPEN_PROXIED else OPEN_UNKNOWN)"

section \<open>The poller\<close>

record daemon =
  tracking :: tracking
  log :: events_db
  poll_cursor :: "int option"
  written :: "open_row list"

definition cursor :: "daemon \<Rightarrow> int" where
  "cursor s = (case poll_cursor s of None \<Rightarrow> 0 | Some c \<Rightarrow> c)"

definition set_cursor :: "int \<Rightarrow> daemon \<Rightarrow> daemon" where
  "set_cursor i s = s\<lparr>poll_cursor := Some (max i 0)\<rparr>"

definition notify_open :: "mail list \<Rightarrow> int \<Rightarrow> instant \<Rightarrow> string \<Rightarrow> daemon \<Rightarrow> daemon" where
  "notify_open mail account now t s = (case find_tracked mail account t (tracking s) of
       None \<Rightarrow> s
     | Some m \<Rightarrow> s\<lparr>log := snd (append_event mail
         \<lparr>n_account = account, n_message = tm_message m, n_thread = tm_thread m, n_kind = Opened, n_auth = False,
          n_tier = Signal, n_importance = OPENED_IMPORTANCE, n_sender = tm_from m, n_one_line = tm_subject m,
          n_deadline = None, n_sealed = None\<rparr> now (log s))\<rparr>)"

text \<open>The rows of a page above the cursor \<open>c\<close> it was asked with; \<open>None\<close> when it was cut short.\<close>

fun collect :: "int \<Rightarrow> int \<Rightarrow> open_row list \<Rightarrow> nat \<Rightarrow> string list \<Rightarrow> daemon \<Rightarrow> string list option \<times> daemon" where
  "collect account c [] k newly s = (Some newly, s)"
| "collect account c (r # rs) k newly s =
     (if o_id r \<le> c then collect account c rs k newly s
      else if k = 0 then (None, s)
      else let (recorded, tr) = record_open account (o_token r) (o_opened_at r) (o_user_agent r)
                 (classify_user_agent (o_user_agent r)) (tracking s);
               s = s\<lparr>tracking := tr, written := written s @ [r]\<rparr> in
        if k = 1 then (None, s)
        else collect account c rs (k - 2)
               (if recorded \<and> o_token r \<notin> set newly then newly @ [o_token r] else newly) (set_cursor (o_id r) s))"

datatype pass = Finished | Stopped | Again

text \<open>One iteration of \<open>drain\<close>.\<close>

definition poll_page :: "mail list \<Rightarrow> int \<Rightarrow> nat \<Rightarrow> instant \<Rightarrow> buffer \<times> daemon \<Rightarrow> pass \<times> buffer \<times> daemon" where
  "poll_page mail account k now = (\<lambda>(relay, s).
     let c = cursor s; (rows, relay) = opens_route (Some c) relay in
     if rows = [] then (Finished, relay, s)
     else if list_all (\<lambda>r. o_id r \<le> c) rows then (Finished, relay, s)
     else case collect account c rows k [] s of
         (None, s) \<Rightarrow> (Stopped, relay, s)
       | (Some newly, s) \<Rightarrow> (Again, relay, fold (notify_open mail account now) newly s))"

definition next_backoff :: "duration option \<Rightarrow> duration" where
  "next_backoff current = (case current of None \<Rightarrow> secs 5 | Some d \<Rightarrow> min (d * 2) (secs 300))"

text \<open>
  What can happen to the two: a pixel is fetched from the relay, or from the daemon itself; mail
  is sent with a tracker, echoed, or not sent after all; the poller asks for a page and is cut
  after \<open>k\<close> writes; or the answer to its request is lost on the way back.
\<close>

datatype sys_op =
    Visit "string option" "string option" int instant
  | Direct string int "string option" instant
  | Track int string "int option" int
  | Echo int string int
  | Untrack int string
  | Page nat instant
  | Lost

fun sys_step :: "mail list \<Rightarrow> int \<Rightarrow> sys_op \<Rightarrow> buffer \<times> daemon \<Rightarrow> unit \<times> buffer \<times> daemon" where
  "sys_step mail acc (Visit t ua at now) (relay, s) = ((), pixel t ua at now relay, s)"
| "sys_step mail acc (Direct t at ua now) (relay, s) =
     ((), relay, s\<lparr>tracking := snd (record_open acc t at ua (classify_user_agent ua) (tracking s))\<rparr>)"
| "sys_step mail acc (Track a t m at) (relay, s) =
     ((), relay, case insert_send_tracker a t m at (tracking s) of Inl e \<Rightarrow> s | Inr d \<Rightarrow> s\<lparr>tracking := d\<rparr>)"
| "sys_step mail acc (Echo a t m) (relay, s) = ((), relay, s\<lparr>tracking := snd (set_send_tracker_message a t m (tracking s))\<rparr>)"
| "sys_step mail acc (Untrack a t) (relay, s) = ((), relay, s\<lparr>tracking := snd (delete_send_tracker a t (tracking s))\<rparr>)"
| "sys_step mail acc (Page k now) (relay, s) = ((), snd (poll_page mail acc k now (relay, s)))"
| "sys_step mail acc Lost (relay, s) = ((), snd (opens_route (Some (cursor s)) relay), s)"

definition fresh_daemon :: daemon where
  "fresh_daemon = \<lparr>tracking = \<lparr>trackers = [], seen = [], seen_last = 0\<rparr>, log = empty_events, poll_cursor = None, written = []\<rparr>"


section \<open>A page\<close>

lemma set_cursor_simps [simp]: "tracking (set_cursor i s) = tracking s" "log (set_cursor i s) = log s"
    "written (set_cursor i s) = written s" "poll_cursor (set_cursor i s) = Some (max i 0)"
  by (simp_all add: set_cursor_def)

lemma notify_open_frame [simp]: "tracking (notify_open mail acc now t s) = tracking s"
    "written (notify_open mail acc now t s) = written s" "poll_cursor (notify_open mail acc now t s) = poll_cursor s"
  by (simp_all add: notify_open_def split: option.split)

lemma notify_all_frame [simp]: "tracking (fold (notify_open mail acc now) ts s) = tracking s"
    "written (fold (notify_open mail acc now) ts s) = written s"
    "poll_cursor (fold (notify_open mail acc now) ts s) = poll_cursor s"
  by (induction ts arbitrary: s) simp_all

lemma collect_spec:
  assumes "\<forall>r \<in> set rows. c < o_id r \<and> 0 \<le> o_id r"
  shows "written (snd (collect acc c rows k newly s)) = written s @ take ((k + 1) div 2) rows
     \<and> poll_cursor (snd (collect acc c rows k newly s))
         = (if take (k div 2) rows = [] then poll_cursor s else Some (o_id (last (take (k div 2) rows))))
     \<and> (fst (collect acc c rows k newly s) = None \<longleftrightarrow> k < 2 * length rows)"
  using assms
proof (induction rows arbitrary: k newly s)
  case (Cons r rows)
  consider "k = 0" | "k = 1" | j where "k = j + 2" by (metis One_nat_def Suc_eq_plus1 add_2_eq_Suc' nat.exhaust)
  then show ?case
  proof cases
    case 3
    have "(j + 2 + 1) div 2 = Suc ((j + 1) div 2)" "(j + 2) div 2 = Suc (j div 2)" by linarith+
    with Cons 3 show ?thesis by (auto simp: Let_def max_def split: prod.split)
  qed (use Cons.prems in \<open>auto simp: Let_def split: prod.split\<close>)
qed simp

lemma last_take_le:
  assumes "sorted_wrt (<) (map o_id xs)" "r \<in> set xs" "take n xs \<noteq> []" "o_id r \<le> o_id (last (take n xs))"
  shows "r \<in> set (take n xs)"
proof (rule ccontr)
  assume "r \<notin> set (take n xs)"
  with assms(2) have d: "r \<in> set (drop n xs)" by (metis Un_iff append_take_drop_id set_append)
  obtain m where m: "min n (length xs) = Suc m" using assms(3) by (cases "min n (length xs)") (auto simp: min_def split: if_splits)
  then have "last (take n xs) = xs ! m" using assms(3) by (simp add: last_conv_nth min.commute)
  moreover have "drop n xs = drop (Suc m) xs" using m d by (auto simp: min_def split: if_splits)
  then have "r \<in> set (filter (\<lambda>y. o_id (xs ! m) < o_id y) xs)"
    using filter_greater_strictly_sorted [OF assms(1), of m] m d by auto
  ultimately show False using assms(4) by auto
qed

section \<open>Nothing is acknowledged that was not written\<close>

definition acked :: "buffer \<times> daemon \<Rightarrow> bool" where
  "acked = (\<lambda>(relay, s). buffer_inv relay \<and> 0 \<le> cursor s \<and> cursor s \<le> last_id relay
     \<and> (\<forall>r \<in> set (opens relay). o_id r \<le> cursor s \<longrightarrow> r \<in> set (written s)))"

lemma opens_route_eq:
  assumes "buffer_inv relay" "0 \<le> c"
  shows "fst (opens_route (Some c) relay) = take DRAIN_LIMIT (filter (\<lambda>r. c < o_id r) (opens relay))"
    "opens (snd (opens_route (Some c) relay)) = filter (\<lambda>r. c < o_id r) (opens relay)"
    "last_id (snd (opens_route (Some c) relay)) = last_id relay"
    "buffer_inv (snd (opens_route (Some c) relay))"
proof -
  have "sorted_wrt (<) (map o_id (filter (\<lambda>r. c < o_id r) (opens relay)))"
    using assms(1) by (simp add: buffer_inv_def strictly_sorted_filter)
  then have "sort_key o_id (filter (\<lambda>r. c < o_id r) (opens relay)) = filter (\<lambda>r. c < o_id r) (opens relay)"
    by (rule sort_key_strictly_sorted)
  moreover have "filter (\<lambda>r. c < o_id r) (delete_where (\<lambda>r. o_id r \<le> c) rs) = filter (\<lambda>r. c < o_id r) rs" for rs :: "open_row list"
    by (auto simp: delete_where_def intro: filter_cong)
  ultimately show "fst (opens_route (Some c) relay) = take DRAIN_LIMIT (filter (\<lambda>r. c < o_id r) (opens relay))"
    using assms(2) by (simp add: opens_route_def drain_def Let_def)
  show "opens (snd (opens_route (Some c) relay)) = filter (\<lambda>r. c < o_id r) (opens relay)"
    "last_id (snd (opens_route (Some c) relay)) = last_id relay"
    "buffer_inv (snd (opens_route (Some c) relay))"
    using assms by (simp_all add: opens_route_def drain_opens) (rule buffer_inv_filter [OF assms(1) drain_opens], simp)
qed

text \<open>What one iteration does to the relay, to the history and to the cursor.\<close>

lemma poll_page_spec:
  assumes "acked (relay, s)"
  obtains relay' s' where "snd (poll_page mail acc k now (relay, s)) = (relay', s')"
    "opens relay' = filter (\<lambda>r. cursor s < o_id r) (opens relay)" "last_id relay' = last_id relay" "buffer_inv relay'"
    "written s' = written s @ take ((k + 1) div 2) (take DRAIN_LIMIT (opens relay'))"
    "cursor s' = (if take (k div 2) (take DRAIN_LIMIT (opens relay')) = [] then cursor s
        else o_id (last (take (k div 2) (take DRAIN_LIMIT (opens relay')))))"
    "fst (poll_page mail acc k now (relay, s)) = (if opens relay' = [] then Finished
        else if k < 2 * length (take DRAIN_LIMIT (opens relay')) then Stopped else Again)"
proof -
  let ?c = "cursor s"
  have c: "0 \<le> ?c" and b: "buffer_inv relay" using assms by (auto simp: acked_def)
  obtain rows relay' where o': "opens_route (Some ?c) relay = (rows, relay')" by (cases "opens_route (Some ?c) relay")
  note e = opens_route_eq [OF b c, unfolded o' fst_conv snd_conv]
  have rows: "rows = take DRAIN_LIMIT (opens relay')" using e by simp
  have gt: "\<forall>r \<in> set rows. ?c < o_id r \<and> 0 \<le> o_id r" using e(1) c by (fastforce dest: in_set_takeD)
  have empty: "rows = [] \<longleftrightarrow> opens relay' = []" unfolding rows by (simp add: DRAIN_LIMIT_def)
  have some: "\<not> list_all (\<lambda>r. o_id r \<le> ?c) rows" if "rows \<noteq> []" using gt that by (cases rows) auto
  note sp = collect_spec [OF gt, of acc k "[]" s]
  show ?thesis
  proof (cases "rows = []")
    case True
    then show ?thesis using that [of relay' s] e empty by (simp add: poll_page_def o' Let_def rows [symmetric])
  next
    case False
    obtain res t where t: "collect acc ?c rows k [] s = (res, t)" by (cases "collect acc ?c rows k [] s")
    let ?s' = "case res of None \<Rightarrow> t | Some newly \<Rightarrow> fold (notify_open mail acc now) newly t"
    have p: "snd (poll_page mail acc k now (relay, s)) = (relay', ?s')"
      using False some by (simp add: poll_page_def o' Let_def t split: option.split)
    have w: "written ?s' = written s @ take ((k + 1) div 2) rows"
      and u: "cursor ?s' = (if take (k div 2) rows = [] then cursor s else o_id (last (take (k div 2) rows)))"
    proof -
      have "written t = written s @ take ((k + 1) div 2) rows"
        "poll_cursor t = (if take (k div 2) rows = [] then poll_cursor s else Some (o_id (last (take (k div 2) rows))))"
        using sp unfolding t by auto
      moreover have "written ?s' = written t" "poll_cursor ?s' = poll_cursor t" by (simp_all split: option.split)
      ultimately show "written ?s' = written s @ take ((k + 1) div 2) rows"
        "cursor ?s' = (if take (k div 2) rows = [] then cursor s else o_id (last (take (k div 2) rows)))"
        unfolding cursor_def by auto
    qed
    have f: "fst (poll_page mail acc k now (relay, s)) = (if opens relay' = [] then Finished
        else if k < 2 * length rows then Stopped else Again)"
      using False some sp empty by (cases res) (auto simp: poll_page_def o' Let_def t)
    show ?thesis by (rule that [OF p e(2-4) w [unfolded rows] u [unfolded rows] f [unfolded rows]])
  qed
qed


lemma cursor_page:
  assumes "buffer_inv relay'" "0 \<le> c" "c \<le> last_id relay'" "L = take n (take m (opens relay'))"
  shows "(if L = [] then c else o_id (last L)) \<le> last_id relay' \<and> 0 \<le> (if L = [] then c else o_id (last L))"
proof (cases "L = []")
  case False
  then have "last L \<in> set L" by simp
  then have "last L \<in> set (opens relay')" unfolding assms(4) by (auto dest: in_set_takeD)
  with assms(1) False show ?thesis by (auto simp: buffer_inv_def)
qed (use assms in simp)

lemma acked_step:
  assumes "acked x"
  shows "acked (snd (sys_step mail acc y x))"
proof -
  obtain relay s where x: "x = (relay, s)" by (cases x)
  have same: "acked (relay, s')" if "cursor s' = cursor s" "written s' = written s" for s'
    using assms that by (simp add: x acked_def)
  show ?thesis
  proof (cases y)
    case (Visit t ua at now)
    have "grew relay (pixel t ua at now relay)" "buffer_inv (pixel t ua at now relay)"
      using grew_step [of relay "Pixel t ua at now"] buffer_inv_step [of relay "Pixel t ua at now"] assms
      by (auto simp: x acked_def)
    with assms show ?thesis unfolding x Visit by (fastforce simp: acked_def grew_def)
  next
    case (Page k now)
    have a: "acked (relay, s)" using assms by (simp add: x)
    obtain relay' s' where p: "snd (poll_page mail acc k now (relay, s)) = (relay', s')"
      and o': "opens relay' = filter (\<lambda>r. cursor s < o_id r) (opens relay)" "last_id relay' = last_id relay" "buffer_inv relay'"
      and w: "written s' = written s @ take ((k + 1) div 2) (take DRAIN_LIMIT (opens relay'))"
      and u: "cursor s' = (if take (k div 2) (take DRAIN_LIMIT (opens relay')) = [] then cursor s
        else o_id (last (take (k div 2) (take DRAIN_LIMIT (opens relay')))))"
      by (rule poll_page_spec [OF a, of mail acc k now])
    have "r \<in> set (written s')" if r: "r \<in> set (opens relay')" "o_id r \<le> cursor s'" for r
    proof -
      have gt: "cursor s < o_id r" using r(1) o'(1) by simp
      with r(2) u have L: "take (min (k div 2) DRAIN_LIMIT) (opens relay') \<noteq> []"
          "o_id r \<le> o_id (last (take (min (k div 2) DRAIN_LIMIT) (opens relay')))"
        by (auto split: if_splits)
      have "r \<in> set (take (min (k div 2) DRAIN_LIMIT) (opens relay'))"
        by (rule last_take_le [OF _ r(1) L]) (use o'(3) in \<open>simp add: buffer_inv_def\<close>)
      moreover have "min (k div 2) DRAIN_LIMIT \<le> min ((k + 1) div 2) DRAIN_LIMIT" by (simp add: div_le_mono)
      then have "set (take (min (k div 2) DRAIN_LIMIT) (opens relay')) \<subseteq> set (take (min ((k + 1) div 2) DRAIN_LIMIT) (opens relay'))"
        by (rule set_take_subset_set_take)
      ultimately show ?thesis by (auto simp: w)
    qed
    with cursor_page [OF o'(3), of "cursor s" "take (k div 2) (take DRAIN_LIMIT (opens relay'))" "k div 2" DRAIN_LIMIT] a o' u
    show ?thesis unfolding x Page by (simp add: p acked_def)
  next
    case Lost
    have "0 \<le> cursor s" "buffer_inv relay" using assms by (auto simp: x acked_def)
    from opens_route_eq [OF this(2,1)] assms show ?thesis unfolding x Lost by (simp add: acked_def)
  qed (auto simp: x cursor_def intro: same split: sum.split)
qed

interpretation tracking_sys: invariant_machine "sys_step mail acc" acked for mail acc
  by unfold_locales (rule acked_step)

lemma acked_fresh [simp]: "acked (open_buffer t0, fresh_daemon)"
  by (simp add: acked_def open_buffer_def fresh_daemon_def cursor_def buffer_inv_def)

section \<open>In order, and once\<close>

definition whole :: "sys_op \<Rightarrow> bool" where
  "whole x = (case x of Page k now \<Rightarrow> even k | _ \<Rightarrow> True)"

definition in_order :: "buffer \<times> daemon \<Rightarrow> bool" where
  "in_order = (\<lambda>(relay, s). acked (relay, s) \<and> sorted_wrt (<) (map o_id (written s))
     \<and> (\<forall>r \<in> set (written s). o_id r \<le> cursor s))"

lemma strictly_sorted_take: "sorted_wrt (<) (map k xs) \<Longrightarrow> sorted_wrt (<) (map k (take n xs))"
  by (metis sorted_wrt_take take_map)

lemma last_greatest:
  fixes k :: "'r \<Rightarrow> int"
  shows "sorted_wrt (<) (map k xs) \<Longrightarrow> r \<in> set xs \<Longrightarrow> k r \<le> k (last xs)"
  by (induction xs) (auto intro: less_imp_le)

lemma in_order_step:
  assumes "whole y" "in_order x"
  shows "in_order (snd (sys_step mail acc y x))"
proof -
  obtain relay s where x: "x = (relay, s)" by (cases x)
  have a: "acked (relay, s)" using assms(2) by (simp add: x in_order_def)
  have same: "in_order (snd (sys_step mail acc y x))"
    if "cursor (snd (snd (sys_step mail acc y x))) = cursor s" "written (snd (snd (sys_step mail acc y x))) = written s"
    using acked_step [of x mail acc y] a assms(2) that by (cases "snd (sys_step mail acc y x)") (simp add: x in_order_def)
  show ?thesis
  proof (cases y)
    case (Page k now)
    obtain relay' s' where p: "snd (poll_page mail acc k now (relay, s)) = (relay', s')"
      and o': "opens relay' = filter (\<lambda>r. cursor s < o_id r) (opens relay)" "buffer_inv relay'"
      and w: "written s' = written s @ take ((k + 1) div 2) (take DRAIN_LIMIT (opens relay'))"
      and u: "cursor s' = (if take (k div 2) (take DRAIN_LIMIT (opens relay')) = [] then cursor s
        else o_id (last (take (k div 2) (take DRAIN_LIMIT (opens relay')))))"
      by (rule poll_page_spec [OF a, of mail acc k now])
    define L where "L = take (k div 2) (take DRAIN_LIMIT (opens relay'))"
    have k: "(k + 1) div 2 = k div 2" using assms(1) Page by (simp add: whole_def)
    have L: "sorted_wrt (<) (map o_id L)" using o'(2) unfolding L_def
      by (intro strictly_sorted_take) (simp add: buffer_inv_def)
    have above: "cursor s < o_id r" if "r \<in> set L" for r using that o'(1) unfolding L_def by (auto dest!: in_set_takeD)
    have le: "o_id r \<le> cursor s" if "r \<in> set (written s)" for r using assms(2) that by (simp add: x in_order_def)
    have ws: "written s' = written s @ L" and us: "cursor s' = (if L = [] then cursor s else o_id (last L))"
      using w u unfolding k L_def by simp_all
    have "sorted_wrt (<) (map o_id (written s'))"
      using assms(2) L above le by (force simp: ws x in_order_def sorted_wrt_append)
    moreover have "o_id r \<le> cursor s'" if "r \<in> set (written s')" for r
    proof (cases "L = []")
      case False
      then have "cursor s < o_id (last L)" by (simp add: above)
      with False that le [of r] last_greatest [OF L, of r] show ?thesis by (auto simp: ws us)
    qed (use that le in \<open>simp add: ws us\<close>)
    moreover have "acked (relay', s')" using acked_step [OF a, of mail acc "Page k now"] p by simp
    ultimately show ?thesis by (simp add: x Page p in_order_def)
  qed (rule same; auto simp: x cursor_def split: sum.split)+
qed

interpretation whole_polls: guarded_machine "sys_step mail acc" in_order whole for mail acc
  by unfold_locales (rule in_order_step)

lemma in_order_fresh [simp]: "in_order (open_buffer t0, fresh_daemon)"
  by (simp add: in_order_def) (simp add: fresh_daemon_def)


section \<open>A drain ends\<close>

text \<open>Every row of a page the loop goes round for is above the cursor, and the cursor ends at one of them.\<close>

lemma poll_page_again:
  assumes "poll_page mail acc k now (relay, s) = (Again, relay', s')" "2 * DRAIN_LIMIT \<le> k"
  shows "length (filter (\<lambda>r. cursor s' < o_id r) (opens relay')) < length (filter (\<lambda>r. cursor s < o_id r) (opens relay))"
proof -
  let ?c = "cursor s"
  obtain rows where o': "opens_route (Some ?c) relay = (rows, relay')"
    using assms(1) by (auto simp: poll_page_def Let_def split: prod.splits if_splits option.splits)
  obtain newly t where t: "collect acc ?c rows k [] s = (Some newly, t)" and s': "s' = fold (notify_open mail acc now) newly t"
    and ne: "rows \<noteq> []" using assms(1) o' by (auto simp: poll_page_def Let_def split: prod.splits if_splits option.splits)
  have relay': "opens relay' = filter (\<lambda>r. max ?c 0 < o_id r) (opens relay)"
    using o' drain_opens [of "max ?c 0" relay] by (simp add: opens_route_def)
  have rows: "rows = take DRAIN_LIMIT (sort_key o_id (filter (\<lambda>r. max ?c 0 < o_id r) (opens relay')))"
    using o' by (auto simp: opens_route_def drain_def Let_def)
  then have in_rows: "r \<in> set (opens relay) \<and> max ?c 0 < o_id r" if "r \<in> set rows" for r
    using that relay' by (auto dest!: in_set_takeD)
  have k: "take (k div 2) rows = rows" using rows assms(2) by simp
  have "\<forall>r \<in> set rows. ?c < o_id r \<and> 0 \<le> o_id r" using in_rows by fastforce
  from collect_spec [OF this, of acc k "[]" s] have "poll_cursor t = Some (o_id (last rows))"
    using ne by (simp add: t k)
  then have u: "cursor s' = o_id (last rows)" by (simp add: s' cursor_def)
  have l: "last rows \<in> set (opens relay)" "max ?c 0 < cursor s'" using in_rows [of "last rows"] ne by (simp_all add: u)
  have "filter (\<lambda>r. cursor s' < o_id r) (opens relay') = filter (\<lambda>r. cursor s' < o_id r) (filter (\<lambda>r. ?c < o_id r) (opens relay))"
    unfolding relay' filter_filter using l(2) by (auto intro: filter_cong)
  moreover have "last rows \<in> set (filter (\<lambda>r. ?c < o_id r) (opens relay))" using l by (simp add: u)
  then have "length (filter (\<lambda>r. cursor s' < o_id r) (filter (\<lambda>r. ?c < o_id r) (opens relay)))
      < length (filter (\<lambda>r. ?c < o_id r) (opens relay))"
    by (rule length_filter_less) (simp add: u)
  ultimately show ?thesis by (simp only:)
qed

function drain_loop :: "mail list \<Rightarrow> int \<Rightarrow> instant \<Rightarrow> buffer \<times> daemon \<Rightarrow> buffer \<times> daemon" where
  "drain_loop mail acc now x = (case poll_page mail acc (2 * DRAIN_LIMIT) now x of
       (Again, x') \<Rightarrow> drain_loop mail acc now x'
     | (_, x') \<Rightarrow> x')"
  by pat_completeness auto

termination
  by (relation "measure (\<lambda>(mail, acc, now, relay, s). length (filter (\<lambda>r. cursor s < o_id r) (opens relay)))")
    (auto dest: poll_page_again [OF sym])

declare drain_loop.simps [simp del]

lemma drain_loop_spec:
  assumes "acked x"
  shows "acked (drain_loop mail acc now x) \<and> opens (fst (drain_loop mail acc now x)) = []
     \<and> written (snd (drain_loop mail acc now x)) = written (snd x) @ filter (\<lambda>r. cursor (snd x) < o_id r) (opens (fst x))"
  using assms
proof (induction mail acc now x rule: drain_loop.induct)
  case (1 mail acc now x)
  obtain relay s where x: "x = (relay, s)" by (cases x)
  have a: "acked (relay, s)" using 1(2) by (simp add: x)
  obtain relay' s' where p: "snd (poll_page mail acc (2 * DRAIN_LIMIT) now (relay, s)) = (relay', s')"
    and o': "opens relay' = filter (\<lambda>r. cursor s < o_id r) (opens relay)" "buffer_inv relay'"
    and w: "written s' = written s @ take ((2 * DRAIN_LIMIT + 1) div 2) (take DRAIN_LIMIT (opens relay'))"
    and u: "cursor s' = (if take (2 * DRAIN_LIMIT div 2) (take DRAIN_LIMIT (opens relay')) = [] then cursor s
        else o_id (last (take (2 * DRAIN_LIMIT div 2) (take DRAIN_LIMIT (opens relay')))))"
    and f: "fst (poll_page mail acc (2 * DRAIN_LIMIT) now (relay, s)) = (if opens relay' = [] then Finished
        else if 2 * DRAIN_LIMIT < 2 * length (take DRAIN_LIMIT (opens relay')) then Stopped else Again)"
    by (rule poll_page_spec [OF a, of mail acc "2 * DRAIN_LIMIT" now])
  have a': "acked (relay', s')" using acked_step [OF a, of mail acc "Page (2 * DRAIN_LIMIT) now"] p by simp
  show ?case
  proof (cases "opens relay' = []")
    case True
    then have "poll_page mail acc (2 * DRAIN_LIMIT) now (relay, s) = (Finished, relay', s')"
      using f p by (simp add: prod_eq_iff)
    then have "drain_loop mail acc now (relay, s) = (relay', s')" by (simp add: drain_loop.simps)
    with True a' w o' show ?thesis by (simp add: x)
  next
    case False
    let ?p = "take DRAIN_LIMIT (opens relay')"
    from False have again: "poll_page mail acc (2 * DRAIN_LIMIT) now (relay, s) = (Again, relay', s')"
      using f p by (simp add: prod_eq_iff)
    then have l: "drain_loop mail acc now (relay, s) = drain_loop mail acc now (relay', s')" by (simp add: drain_loop.simps)
    have n: "?p \<noteq> []" using False by (simp add: DRAIN_LIMIT_def)
    obtain m where m: "length ?p = Suc m" using n by (cases ?p) auto
    have lt: "m < length (opens relay')" using m by (auto simp: min_def split: if_splits)
    have "last ?p = opens relay' ! m" using n m by (simp add: last_conv_nth)
    then have "cursor s' = o_id (opens relay' ! m)" using u n by simp
    then have rest: "filter (\<lambda>r. cursor s' < o_id r) (opens relay') = drop (length ?p) (opens relay')"
      using filter_greater_strictly_sorted [OF _ lt, of o_id] o'(2) m by (simp add: buffer_inv_def)
    have "?p @ drop (length ?p) (opens relay') = opens relay'"
      by (metis append_take_drop_id length_take min.commute take_drop take_eq_Nil2 append_take_drop_id min_def drop_all nle_le take_all)
    moreover from 1(1) [OF again [symmetric, folded x] refl a'] x
    have "acked (drain_loop mail acc now (relay', s')) \<and> opens (fst (drain_loop mail acc now (relay', s'))) = []
      \<and> written (snd (drain_loop mail acc now (relay', s'))) = written s' @ drop (length ?p) (opens relay')"
      by (simp add: rest)
    ultimately show ?thesis using w o' by (simp add: x l)
  qed
qed


section \<open>Trackers hold what is theirs\<close>

definition tracks :: "tracking \<Rightarrow> bool" where
  "tracks d \<longleftrightarrow> distinct (map k_token (trackers d))
     \<and> (\<forall>r \<in> set (seen d). \<exists>k \<in> set (trackers d). k_token k = s_token r)
     \<and> (\<forall>t. count_where (\<lambda>r. s_token r = t) (seen d) \<le> MAX_OPENS_PER_TOKEN)"

lemma tracks_record: "tracks d \<Longrightarrow> tracks (snd (record_open acc t at ua c d))"
  by (auto simp: tracks_def record_open_def mk_seen_def list_ex_iff)

lemma tracks_insert: "tracks d \<Longrightarrow> insert_send_tracker acc t m at d = Inr d' \<Longrightarrow> tracks d'"
  by (auto simp: tracks_def insert_send_tracker_def list_ex_iff split: if_splits)

lemma map_token_update:
  "map k_token (update_where p (\<lambda>k. k\<lparr>k_message := Some m\<rparr>) ks) = map k_token (ks :: tracker list)"
  by (simp add: update_where_def)

lemma tracks_cong:
  assumes "tracks d" "map k_token (trackers d') = map k_token (trackers d)" "seen d' = seen d"
  shows "tracks d'"
proof -
  have "(\<exists>k \<in> set ks. k_token k = x) = (x \<in> set (map k_token ks))" for ks :: "tracker list" and x by auto
  moreover have "k_token ` set (trackers d') = k_token ` set (trackers d)" using assms(2) by (metis set_map)
  ultimately show ?thesis using assms by (simp add: tracks_def)
qed

lemma tracks_echo: "tracks d \<Longrightarrow> tracks (snd (set_send_tracker_message acc t m d))"
  by (rule tracks_cong) (simp_all add: set_send_tracker_message_def Let_def map_token_update)

lemma tracks_delete: "tracks d \<Longrightarrow> tracks (snd (delete_send_tracker acc t d))"
proof -
  assume d: "tracks d"
  let ?d' = "snd (delete_send_tracker acc t d)"
  have "distinct (map k_token (trackers ?d'))"
    using d by (simp add: tracks_def delete_send_tracker_def Let_def delete_where_def distinct_map_filter)
  moreover have "\<exists>k \<in> set (trackers ?d'). k_token k = s_token r" if r: "r \<in> set (seen ?d')" for r
  proof -
    from r have "r \<in> set (seen d)" by (simp add: delete_send_tracker_def Let_def set_delete_where)
    with d obtain k where "k \<in> set (trackers d)" "k_token k = s_token r" by (auto simp: tracks_def)
    with r show ?thesis by (auto simp: delete_send_tracker_def Let_def set_delete_where list_ex_iff)
  qed
  moreover have "count_where (\<lambda>r. s_token r = u) (seen ?d') \<le> MAX_OPENS_PER_TOKEN" for u
    using d order_trans [OF count_where_filter_le, of "\<lambda>r. s_token r = u" "seen d"]
    by (simp add: tracks_def delete_send_tracker_def Let_def delete_where_def)
  ultimately show ?thesis unfolding tracks_def by blast
qed

lemma collect_tracks: "tracks (tracking s) \<Longrightarrow> tracks (tracking (snd (collect acc c rows k newly s)))"
proof (induction rows arbitrary: k newly s)
  case (Cons r rows)
  obtain b tr where o': "record_open acc (o_token r) (o_opened_at r) (o_user_agent r)
      (classify_user_agent (o_user_agent r)) (tracking s) = (b, tr)" by fastforce
  then have "tracks tr" using tracks_record [OF Cons.prems] by (metis snd_conv)
  with Cons o' show ?case by (simp add: Let_def)
qed simp

lemma tracks_step: "tracks (tracking (snd x)) \<Longrightarrow> tracks (tracking (snd (snd (sys_step mail acc y x))))"
proof -
  assume d: "tracks (tracking (snd x))"
  obtain relay s where x: "x = (relay, s)" by (cases x)
  show ?thesis
  proof (cases y)
    case (Page k now)
    obtain rows relay' where o': "opens_route (Some (cursor s)) relay = (rows, relay')"
      by (cases "opens_route (Some (cursor s)) relay")
    have "tracks (tracking (snd (collect acc (cursor s) rows k [] s)))" using d by (simp add: x collect_tracks)
    with d o' show ?thesis
      by (auto simp: x Page poll_page_def Let_def split: prod.split option.split)
  qed (use d in \<open>auto simp: x tracks_record tracks_echo tracks_delete intro: tracks_insert split: sum.split\<close>)
qed

interpretation tracker_rows: invariant_machine "sys_step mail acc" "\<lambda>x. tracks (tracking (snd x))" for mail acc
  by unfold_locales (rule tracks_step)

section \<open>Properties\<close>

abbreviation sys_run :: "mail list \<Rightarrow> int \<Rightarrow> instant \<Rightarrow> sys_op list \<Rightarrow> buffer \<times> daemon" where
  "sys_run mail acc t0 xs \<equiv> final (sys_step mail acc) xs (open_buffer t0, fresh_daemon)"

text \<open>C3. An acknowledgement never deletes an open that was not collected: whatever is fetched, lost
  or cut short between two writes, every open the relay holds at or below the daemon's cursor has
  been handed to the store, and the next request, answered or not, deletes no other.\<close>

theorem only_collected_opens_are_acknowledged:
  "case sys_run mail acc t0 xs of (relay, s) \<Rightarrow>
     list_all (\<lambda>r. cursor s < o_id r \<or> r \<in> set (written s)) (opens relay)
     \<and> list_all (\<lambda>r. r \<in> set (opens (fst (snd (sys_step mail acc (Page k now) (relay, s))))) \<or> r \<in> set (written s)) (opens relay)
     \<and> list_all (\<lambda>r. r \<in> set (opens (fst (snd (sys_step mail acc Lost (relay, s))))) \<or> r \<in> set (written s)) (opens relay)"
proof (cases "sys_run mail acc t0 xs")
  case (Pair relay s)
  have "acked (sys_run mail acc t0 xs)" by (rule tracking_sys.inv_final) simp
  with Pair have a: "acked (relay, s)" by simp
  then have c: "buffer_inv relay" "0 \<le> cursor s"
    and w: "\<And>r. r \<in> set (opens relay) \<Longrightarrow> cursor s < o_id r \<or> r \<in> set (written s)" by (auto simp: acked_def not_less)
  have "opens (fst (snd (poll_page mail acc k now (relay, s)))) = filter (\<lambda>r. cursor s < o_id r) (opens relay)"
    by (rule poll_page_spec [OF a, of mail acc k now]) simp
  with w opens_route_eq(2) [OF c] show ?thesis by (auto simp: Pair list_all_iff)
qed

text \<open>Opens are collected once and in order: as long as no poll is cut between the two writes of
  a row, whatever else happens, the ids of the rows handed to the store strictly increase.\<close>

theorem opens_are_collected_once:
  assumes "list_all whole xs"
  shows "sorted_wrt (<) (map o_id (written (snd (sys_run mail acc t0 xs))))"
proof -
  have "in_order (sys_run mail acc t0 xs)" using assms by (rule whole_polls.inv_final) simp
  then show ?thesis by (auto simp: in_order_def)
qed

text \<open>A drain that nothing interrupts ends, after however many pages, with the relay empty and
  every open it held above the cursor handed to the store, once and in order.\<close>

theorem drain_collects_everything:
  "case sys_run mail acc t0 xs of (relay, s) \<Rightarrow>
     opens (fst (drain_loop mail acc now (relay, s))) = []
     \<and> written (snd (drain_loop mail acc now (relay, s))) = written s @ filter (\<lambda>r. cursor s < o_id r) (opens relay)"
proof (cases "sys_run mail acc t0 xs")
  case (Pair relay s)
  have "acked (sys_run mail acc t0 xs)" by (rule tracking_sys.inv_final) simp
  with drain_loop_spec [of "(relay, s)" mail acc now] show ?thesis by (simp add: Pair)
qed

text \<open>Only what was minted collects: an open of a token the account has no tracker for changes
  nothing, and after any history every stored open belongs to a tracker that exists, tokens are
  unique, and no token has more than \<open>MAX_OPENS_PER_TOKEN\<close> opens.\<close>

theorem strangers_leave_no_trace:
  "case tracking (snd (sys_run mail acc t0 xs)) of d \<Rightarrow>
     (list_ex (\<lambda>k. k_token k = t \<and> k_account k = a) (trackers d) \<or> record_open a t at ua c d = (False, d))
     \<and> list_all (\<lambda>r. list_ex (\<lambda>k. k_token k = s_token r) (trackers d)) (seen d)
     \<and> distinct (map k_token (trackers d))
     \<and> count_where (\<lambda>r. s_token r = t) (seen d) \<le> MAX_OPENS_PER_TOKEN"
proof -
  have "tracks (tracking (snd (sys_run mail acc t0 xs)))"
    by (rule tracker_rows.inv_final) (simp add: fresh_daemon_def tracks_def)
  then show ?thesis by (auto simp: tracks_def list_all_iff list_ex_iff record_open_def)
qed

definition history0 :: "sys_op list" where
  "history0 = [Track 1 (replicate 16 CHR ''a'') (Some 1) 0, Visit (Some (replicate 16 CHR ''a'')) None 5 6,
     Visit (Some (replicate 16 CHR ''a'')) None 7 8, Page 2 9, Lost, Page 4 10]"

theorem opens_are_collected_once_witness:
  "sorted_wrt (<) (map o_id (written (snd (sys_run mail0 1 0 history0))))"
  by (rule opens_are_collected_once) (simp add: history0_def whole_def)

end
