(* ===== verification/Sender_Rules.thy ===== *)
theory Sender_Rules
  imports Prelude Rust_Text "HOL-Library.While_Combinator"
begin

text \<open>
  Sender rules (\<open>squelch-core/src/triage/rules.rs\<close>): the glob matcher that decides which rule of
  its owner a sender falls under. The code is a loop over two indices that goes back to the last
  \<open>*\<close>; here it is the same loop, a \<open>while_option\<close> over the same variables, and \<open>globs\<close> is what a
  pattern means.
\<close>

record glob_state =
  gp :: nat
  gc :: nat
  star :: "nat option"
  mark :: nat
  gave_up :: bool

definition glob_more :: "string \<Rightarrow> glob_state \<Rightarrow> bool" where
  "glob_more cand s \<longleftrightarrow> \<not> gave_up s \<and> gc s < length cand"

definition glob_body :: "string \<Rightarrow> string \<Rightarrow> glob_state \<Rightarrow> glob_state" where
  "glob_body pat cand s =
     (if gp s < length pat \<and> pat ! gp s = CHR ''*'' then s\<lparr>star := Some (gp s), mark := gc s, gp := gp s + 1\<rparr>
      else if gp s < length pat \<and> pat ! gp s = cand ! gc s then s\<lparr>gp := gp s + 1, gc := gc s + 1\<rparr>
      else case star s of
          Some sp \<Rightarrow> s\<lparr>gp := sp + 1, mark := mark s + 1, gc := mark s + 1\<rparr>
        | None \<Rightarrow> s\<lparr>gave_up := True\<rparr>)"

definition glob_start :: glob_state where
  "glob_start = \<lparr>gp = 0, gc = 0, star = None, mark = 0, gave_up = False\<rparr>"

definition glob_rec :: "string \<Rightarrow> string \<Rightarrow> bool option" where
  "glob_rec pat cand = map_option
     (\<lambda>s. \<not> gave_up s \<and> dropWhile (\<lambda>c. c = CHR ''*'') (drop (gp s) pat) = [])
     (while_option (glob_more cand) (glob_body pat cand) glob_start)"

definition glob_match :: "string \<Rightarrow> string \<Rightarrow> bool option" where
  "glob_match pat cand = glob_rec (to_ascii_lowercase pat) (to_ascii_lowercase cand)"

datatype rule_disposition = Surface | Squelch | Filtered

record sender_rule =
  rule_id :: int
  rule_account :: int
  match_pattern :: string
  want_text :: string
  disposition :: rule_disposition
  rule_updated_at :: instant

definition match_sender_rule :: "string \<Rightarrow> sender_rule list \<Rightarrow> sender_rule option" where
  "match_sender_rule from_addr rules = find (\<lambda>r. glob_match (match_pattern r) from_addr = Some True) rules"

definition current_rule :: "string \<Rightarrow> sender_rule list \<Rightarrow> rule_disposition option" where
  "current_rule from_addr rules = map_option disposition (match_sender_rule from_addr rules)"

section \<open>What a pattern means\<close>

fun globs :: "string \<Rightarrow> string \<Rightarrow> bool" where
  "globs [] s = (s = [])"
| "globs (x # p) [] = (x = CHR ''*'' \<and> globs p [])"
| "globs (x # p) (c # s) = (if x = CHR ''*'' then globs p (c # s) \<or> globs (x # p) s else x = c \<and> globs p s)"

lemma globs_star: "globs (CHR ''*'' # p) s \<longleftrightarrow> (\<exists>n. globs p (drop n s))"
proof (induction s)
  case (Cons c s)
  have "(\<exists>n. globs p (drop n (c # s))) \<longleftrightarrow> globs p (c # s) \<or> (\<exists>n. globs p (drop n s))"
    by (metis drop0 drop_Suc_Cons not0_implies_Suc)
  with Cons show ?case by simp
qed simp

lemma globs_star_drop: "globs (CHR ''*'' # p) (drop n s) \<Longrightarrow> m \<le> n \<Longrightarrow> globs (CHR ''*'' # p) (drop m s)"
  unfolding globs_star by (metis drop_drop le_add_diff_inverse2)

lemma globs_literal: "CHR ''*'' \<notin> set l \<Longrightarrow> globs (l @ p) s \<longleftrightarrow> (\<exists>s'. s = l @ s' \<and> globs p s')"
proof (induction l arbitrary: s)
  case (Cons x l)
  then show ?case by (cases s) auto
qed simp

lemma globs_empty: "globs p [] \<longleftrightarrow> dropWhile (\<lambda>c. c = CHR ''*'') p = []"
  by (induction p) auto

section \<open>The loop\<close>

text \<open>
  What holds each time round: since the last star the pattern was taken literally, from \<open>mark\<close>
  on, and the candidate matches exactly when what follows that star matches somewhere from
  \<open>mark\<close> on.
\<close>

definition glob_inv :: "string \<Rightarrow> string \<Rightarrow> glob_state \<Rightarrow> bool" where
  "glob_inv pat cand s \<longleftrightarrow> gp s \<le> length pat \<and> gc s \<le> length cand
     \<and> (if gave_up s then \<not> globs pat cand
        else case star s of
          None \<Rightarrow> globs pat cand = globs (drop (gp s) pat) (drop (gc s) cand)
        | Some sp \<Rightarrow> sp < gp s \<and> mark s \<le> gc s
           \<and> (\<exists>l. CHR ''*'' \<notin> set l \<and> drop (sp + 1) pat = l @ drop (gp s) pat \<and> drop (mark s) cand = l @ drop (gc s) cand)
           \<and> globs pat cand = globs (CHR ''*'' # drop (sp + 1) pat) (drop (mark s) cand))"

lemma glob_inv_start: "glob_inv pat cand glob_start"
  by (simp add: glob_inv_def glob_start_def)


lemma drop_nth: "i < length xs \<Longrightarrow> drop i xs = xs ! i # drop (i + 1) xs"
  by (simp add: Cons_nth_drop_Suc)

lemma glob_inv_body:
  assumes "glob_inv pat cand s" "glob_more cand s"
  shows "glob_inv pat cand (glob_body pat cand s)"
proof -
  have c: "drop (gc s) cand = cand ! gc s # drop (gc s + 1) cand" and g: "\<not> gave_up s"
    and le: "gp s \<le> length pat" "gc s < length cand"
    using assms by (auto simp: glob_more_def glob_inv_def drop_nth)
  consider (star) "gp s < length pat" "pat ! gp s = CHR ''*''"
    | (eq) "gp s < length pat" "pat ! gp s \<noteq> CHR ''*''" "pat ! gp s = cand ! gc s"
    | (neq) "gp s < length pat \<longrightarrow> pat ! gp s \<noteq> CHR ''*'' \<and> pat ! gp s \<noteq> cand ! gc s"
    by blast
  then show ?thesis
  proof cases
    case star
    have p: "drop (gp s) pat = CHR ''*'' # drop (gp s + 1) pat" using star by (simp add: drop_nth)
    have "globs pat cand = globs (drop (gp s) pat) (drop (gc s) cand)"
    proof (cases "star s")
      case None
      with assms(1) g show ?thesis by (simp add: glob_inv_def)
    next
      case (Some sp)
      with assms(1) g obtain l where l: "CHR ''*'' \<notin> set l" "drop (sp + 1) pat = l @ drop (gp s) pat"
          "drop (mark s) cand = l @ drop (gc s) cand"
        and m: "globs pat cand = globs (CHR ''*'' # drop (sp + 1) pat) (drop (mark s) cand)" by (auto simp: glob_inv_def)
      have "globs (drop (gp s) pat) (drop (gc s) cand)" if r: "globs (drop (sp + 1) pat) (drop n (drop (mark s) cand))" for n
      proof -
        from r l(1,2) obtain t where t: "drop n (drop (mark s) cand) = l @ t" "globs (drop (gp s) pat) t"
          by (auto simp: globs_literal)
        have "t = drop (n + length l) (l @ drop (gc s) cand)" using t(1) l(3) by (metis append_eq_conv_conj drop_drop add.commute)
        then have "t = drop n (drop (gc s) cand)" by simp
        with t(2) have "globs (CHR ''*'' # drop (gp s + 1) pat) (drop n (drop (gc s) cand))" by (simp only: p)
        from globs_star_drop [OF this, of 0] show ?thesis by (simp add: p)
      qed
      moreover have "globs (drop (sp + 1) pat) (drop 0 (drop (mark s) cand))" if "globs (drop (gp s) pat) (drop (gc s) cand)"
        using that l by (auto simp: globs_literal)
      ultimately show ?thesis unfolding m globs_star by blast
    qed
    with star le g show ?thesis by (simp add: glob_body_def glob_inv_def p)
  next
    case eq
    have p: "drop (gp s) pat = cand ! gc s # drop (gp s + 1) pat" using eq by (simp add: drop_nth)
    have n: "cand ! gc s \<noteq> CHR ''*''" using eq by simp
    show ?thesis
    proof (cases "star s")
      case None
      with assms(1) eq le g n show ?thesis by (simp add: glob_body_def glob_inv_def p c)
    next
      case (Some sp)
      with assms(1) g obtain l where l: "CHR ''*'' \<notin> set l" "drop (sp + 1) pat = l @ drop (gp s) pat"
          "drop (mark s) cand = l @ drop (gc s) cand"
        and m: "globs pat cand = globs (CHR ''*'' # drop (sp + 1) pat) (drop (mark s) cand)" "sp < gp s" "mark s \<le> gc s"
        by (auto simp: glob_inv_def)
      have "drop (sp + 1) pat = (l @ [cand ! gc s]) @ drop (gp s + 1) pat" "drop (mark s) cand = (l @ [cand ! gc s]) @ drop (gc s + 1) cand"
        "CHR ''*'' \<notin> set (l @ [cand ! gc s])" using l n by (simp_all add: p c)
      then have "\<exists>l. CHR ''*'' \<notin> set l \<and> drop (sp + 1) pat = l @ drop (gp s + 1) pat \<and> drop (mark s) cand = l @ drop (gc s + 1) cand"
        by blast
      with eq le g m Some show ?thesis by (simp add: glob_body_def glob_inv_def)
    qed
  next
    case neq
    have f: "\<not> globs (drop (gp s) pat) (drop (gc s) cand)"
    proof (cases "gp s < length pat")
      case True
      with neq show ?thesis by (simp add: drop_nth [OF True] c)
    qed (simp add: c)
    show ?thesis
    proof (cases "star s")
      case None
      with assms(1) neq le g f show ?thesis by (auto simp: glob_body_def glob_inv_def)
    next
      case (Some sp)
      with assms(1) g obtain l where l: "CHR ''*'' \<notin> set l" "drop (sp + 1) pat = l @ drop (gp s) pat"
          "drop (mark s) cand = l @ drop (gc s) cand"
        and m: "globs pat cand = globs (CHR ''*'' # drop (sp + 1) pat) (drop (mark s) cand)" "sp < gp s" "mark s \<le> gc s"
        by (auto simp: glob_inv_def)
      have "\<not> globs (drop (sp + 1) pat) (drop (mark s) cand)" using f l by (simp add: globs_literal)
      moreover have "drop (mark s) cand = cand ! mark s # drop (mark s + 1) cand" using m le by (simp add: drop_nth)
      ultimately have "globs (CHR ''*'' # drop (sp + 1) pat) (drop (mark s) cand)
          = globs (CHR ''*'' # drop (sp + 1) pat) (drop (mark s + 1) cand)" by simp
      with neq le g m Some show ?thesis by (auto simp: glob_body_def glob_inv_def intro: exI [of _ "[]"])
    qed
  qed
qed


text \<open>
  The measure: each time round either a later star becomes the last one, or the last star takes
  one more character, or one more character is matched.
\<close>

definition glob_measure :: "string \<Rightarrow> string \<Rightarrow> glob_state \<Rightarrow> nat \<times> nat \<times> nat \<times> nat" where
  "glob_measure pat cand s = (if gave_up s then 0 else 1,
     length pat - (case star s of None \<Rightarrow> 0 | Some sp \<Rightarrow> sp + 1), length cand - mark s, length cand - gc s)"

lemma glob_measure_less:
  assumes "glob_inv pat cand s" "glob_more cand s"
  shows "(glob_measure pat cand (glob_body pat cand s), glob_measure pat cand s)
    \<in> less_than <*lex*> less_than <*lex*> less_than <*lex*> less_than"
  using assms by (auto simp: glob_measure_def glob_body_def glob_inv_def glob_more_def split: option.splits if_splits)

lemma glob_rec_eq: "glob_rec pat cand = Some (globs pat cand)"
proof -
  let ?R = "inv_image (less_than <*lex*> less_than <*lex*> less_than <*lex*> less_than) (glob_measure pat cand)"
  have "wf ?R" by (intro wf_inv_image wf_lex_prod wf_less_than)
  moreover have "{(t, s). (glob_inv pat cand s \<and> glob_more cand s) \<and> t = glob_body pat cand s} \<subseteq> ?R"
    using glob_measure_less by auto
  ultimately have "wf {(t, s). (glob_inv pat cand s \<and> glob_more cand s) \<and> t = glob_body pat cand s}"
    by (rule wf_subset)
  then obtain t where t: "while_option (glob_more cand) (glob_body pat cand) glob_start = Some t"
    using wf_while_option_Some [of "glob_inv pat cand" "glob_more cand" "glob_body pat cand" glob_start]
      glob_inv_body glob_inv_start by blast
  have inv: "glob_inv pat cand t" by (rule while_option_rule [OF glob_inv_body t glob_inv_start])
  have stop: "\<not> glob_more cand t" by (rule while_option_stop [OF t])
  have "globs pat cand = (\<not> gave_up t \<and> globs (drop (gp t) pat) [])"
  proof (cases "gave_up t")
    case False
    with inv stop have c: "gc t = length cand" by (auto simp: glob_inv_def glob_more_def)
    show ?thesis
    proof (cases "star t")
      case None
      with inv False c show ?thesis by (simp add: glob_inv_def)
    next
      case (Some sp)
      with inv False obtain l where l: "CHR ''*'' \<notin> set l" "drop (sp + 1) pat = l @ drop (gp t) pat" "drop (mark t) cand = l"
        and m: "globs pat cand = globs (CHR ''*'' # drop (sp + 1) pat) (drop (mark t) cand)" by (auto simp: glob_inv_def c)
      have "globs (drop (gp t) pat) []" if "globs (drop (sp + 1) pat) (drop n l)" for n
      proof -
        from that l(1,2) obtain s where s: "drop n l = l @ s" "globs (drop (gp t) pat) s" by (auto simp: globs_literal)
        from arg_cong [OF s(1), of length] have "s = []" by (cases s) auto
        with s(2) show ?thesis by simp
      qed
      moreover have "globs (drop (sp + 1) pat) (drop 0 l)" if "globs (drop (gp t) pat) []"
        using that l(1,2) by (simp add: globs_literal)
      ultimately show ?thesis using False unfolding m l(3) globs_star by blast
    qed
  qed (use inv in \<open>simp add: glob_inv_def\<close>)
  then show ?thesis by (simp add: glob_rec_def t globs_empty)
qed

section \<open>Properties\<close>

text \<open>C34. The matcher is right and always answers: its loop ends on every pattern and candidate, and
  the answer is what the pattern means, a star standing for any run of characters and every
  other character for itself, upper and lower case ASCII letters alike.\<close>

theorem glob_match_is_globs:
  "glob_match pat cand = Some (globs (to_ascii_lowercase pat) (to_ascii_lowercase cand))"
  by (simp add: glob_match_def glob_rec_eq)

text \<open>The rule found is the first whose pattern means the sender.\<close>

lemma match_sender_rule_first:
  "match_sender_rule a rs = find (\<lambda>r. globs (to_ascii_lowercase (match_pattern r)) (to_ascii_lowercase a)) rs"
  by (simp add: match_sender_rule_def glob_match_def glob_rec_eq)

end
