(* ===== verification/Search_Query.thy ===== *)
theory Search_Query
  imports Rust_Text Prelude
begin

text \<open>
  The search box (\<open>squelch-core/src/store/search_query.rs\<close>): splitting what a reader typed into
  words and operators, the structured filter, and the two FTS5 expressions one search runs.

  \<open>NaiveDate::parse_from_str\<close> is the argument \<open>parse_day\<close>. \<open>lex\<close> is not of the program: it reads an
  expression the way FTS5 documents its strings (\<open>""\<close> inside quotes is a quote) and its
  operators, to state what the expressions mean.
\<close>

section \<open>The filter\<close>

datatype search_sort = Recent | BestMatch

definition sort_parse :: "string \<Rightarrow> search_sort option" where
  "sort_parse s = (if s = ''recent'' then Some Recent else if s = ''best_match'' then Some BestMatch else None)"

primrec sort_as_str :: "search_sort \<Rightarrow> string" where
  "sort_as_str Recent = ''recent''"
| "sort_as_str BestMatch = ''best_match''"

definition considers_recency :: "search_sort \<Rightarrow> bool" where
  "considers_recency s \<longleftrightarrow> s = Recent"

record search_filter =
  unfinished_first :: bool
  exclude_ids :: "int list"
  include_sent :: bool
  f_done :: "bool option"
  f_from :: "string option"
  f_after :: "instant option"
  f_before :: "instant option"

definition default_filter :: search_filter where
  "default_filter = \<lparr>unfinished_first = False, exclude_ids = [], include_sent = False, f_done = None, f_from = None,
     f_after = None, f_before = None\<rparr>"

definition is_empty :: "search_filter \<Rightarrow> bool" where
  "is_empty f \<longleftrightarrow> f_done f = None \<and> f_from f = None \<and> f_after f = None \<and> f_before f = None"

record search_hit =
  h_id :: int
  h_thread :: string
  h_from_addr :: string
  h_from_name :: "string option"
  h_subject :: string
  h_received :: instant
  h_snippet :: string
  h_done :: bool
  h_subject_matches :: "string list"
  h_snippet_matches :: "string list"

definition order_hits :: "('h \<Rightarrow> bool) \<Rightarrow> search_filter \<Rightarrow> 'h list \<Rightarrow> 'h list" where
  "order_hits is_done f hits = (if unfinished_first f then sort_key is_done hits else hits)"

definition filter_matches :: "search_filter \<Rightarrow> search_hit \<Rightarrow> bool" where
  "filter_matches f hit =
     (if h_id hit \<in> set (exclude_ids f) then False
      else if (case f_done f of None \<Rightarrow> False | Some d \<Rightarrow> d \<noteq> h_done hit) then False
      else if (case f_from f of None \<Rightarrow> False | Some from \<Rightarrow>
                 let needle = to_ascii_lowercase from; addr = to_ascii_lowercase (h_from_addr hit);
                     name = to_ascii_lowercase (case h_from_name hit of None \<Rightarrow> [] | Some n \<Rightarrow> n)
                 in \<not> contains addr needle \<and> \<not> contains name needle) then False
      else if (case f_after f of None \<Rightarrow> False | Some a \<Rightarrow> h_received hit < a) then False
      else if (case f_before f of None \<Rightarrow> False | Some b \<Rightarrow> b \<le> h_received hit) then False
      else True)"

section \<open>Operators\<close>

text \<open>\<open>tokenize\<close>: the loop over the characters, its two variables as arguments.\<close>

fun tokenize_from :: "string \<Rightarrow> bool \<Rightarrow> string \<Rightarrow> string list" where
  "tokenize_from cur q [] = (if cur \<noteq> [] then [cur] else [])"
| "tokenize_from cur q (c # cs) =
     (if c = CHR 0x22 then tokenize_from (cur @ [c]) (\<not> q) cs
      else if is_whitespace c \<and> \<not> q then (if cur \<noteq> [] then [cur] else []) @ tokenize_from [] q cs
      else tokenize_from (cur @ [c]) q cs)"

definition tokenize :: "string \<Rightarrow> string list" where
  "tokenize raw = tokenize_from [] False raw"

text \<open>The prefix is ASCII, so its bytes are its characters and a prefix of the token that equals it ends between two.\<close>

definition strip_prefix_ci :: "string \<Rightarrow> string \<Rightarrow> string option" where
  "strip_prefix_ci token p = (let n = length p in
     if n \<le> length token \<and> to_ascii_lowercase (take n token) = to_ascii_lowercase p then Some (drop n token) else None)"

definition unquote :: "string \<Rightarrow> string" where
  "unquote v = trim_matches (CHR 0x22) v"

text \<open>\<open>replace('"', "\"\"")\<close>.\<close>

definition double_quotes :: "string \<Rightarrow> string" where
  "double_quotes s = concat (map (\<lambda>c. if c = CHR 0x22 then [c, c] else [c]) s)"

definition quoted :: "string \<Rightarrow> string" where
  "quoted s = CHR 0x22 # s @ [CHR 0x22]"

definition as_fts_phrase :: "string \<Rightarrow> string" where
  "as_fts_phrase token = quoted (double_quotes token)"

text \<open>What one token adds: a word of the search text, or a constraint.\<close>

definition take_token ::
    "(string \<Rightarrow> instant option) \<Rightarrow> string \<Rightarrow> string list \<times> search_filter \<Rightarrow> string list \<times> search_filter" where
  "take_token parse_day token = (\<lambda>(words, f).
     case strip_prefix_ci token ''from:'' of Some v \<Rightarrow>
       (let v = unquote v in (words, if v \<noteq> [] then f\<lparr>f_from := Some v\<rparr> else f))
     | None \<Rightarrow> (case strip_prefix_ci token ''after:'' of Some v \<Rightarrow>
       (let v = unquote v in
        if v = [] then (words, f)
        else case parse_day v of Some d \<Rightarrow> (words, f\<lparr>f_after := Some d\<rparr>) | None \<Rightarrow> (words @ [as_fts_phrase token], f))
     | None \<Rightarrow> (case strip_prefix_ci token ''before:'' of Some v \<Rightarrow>
       (let v = unquote v in
        if v = [] then (words, f)
        else case parse_day v of Some d \<Rightarrow> (words, f\<lparr>f_before := Some d\<rparr>) | None \<Rightarrow> (words @ [as_fts_phrase token], f))
     | None \<Rightarrow>
       if CHR '':'' \<in> set token \<and> \<not> starts_with token [CHR 0x22] then (words @ [as_fts_phrase token], f)
       else (words @ [token], f))))"

definition parse_search_query :: "(string \<Rightarrow> instant option) \<Rightarrow> string \<Rightarrow> string \<times> search_filter" where
  "parse_search_query parse_day raw =
     (case fold (take_token parse_day) (tokenize raw) ([], default_filter) of (words, f) \<Rightarrow> (join '' '' words, f))"

section \<open>Expressions\<close>

definition FTS_SYNTAX :: "char list" where
  "FTS_SYNTAX = ''()*^:-+''"

datatype query_token = Word string | Phrase string

definition push_word :: "string \<Rightarrow> query_token list" where
  "push_word w = (if list_ex is_alphanumeric w then [Word w] else [])"

text \<open>The scanner's loop: whether it is in a phrase, the word and the phrase so far.\<close>

fun scan :: "bool \<Rightarrow> string \<Rightarrow> string \<Rightarrow> string \<Rightarrow> query_token list" where
  "scan in_phrase word ph [] =
     (if in_phrase then concat (map push_word (split_whitespace ph)) else []) @ push_word word"
| "scan in_phrase word ph (c # cs) =
     (if in_phrase then
        if c = CHR 0x22 then
          (case cs of
             d # ds \<Rightarrow> if d = CHR 0x22 then scan True word (ph @ [CHR 0x22]) ds
               else (let done = join '' '' (split_whitespace ph)
                     in (if list_ex is_alphanumeric done then [Phrase done] else []) @ scan False word [] cs)
           | [] \<Rightarrow> (let done = join '' '' (split_whitespace ph)
                     in (if list_ex is_alphanumeric done then [Phrase done] else []) @ scan False word [] cs))
        else scan True word (ph @ [if c \<in> set FTS_SYNTAX then CHR '' '' else c]) cs
      else if c = CHR 0x22 then push_word word @ scan True [] ph cs
      else if is_whitespace c \<or> c \<in> set FTS_SYNTAX then push_word word @ scan False [] ph cs
      else scan False (word @ [c]) ph cs)"

definition scan_query :: "string \<Rightarrow> query_token list" where
  "scan_query s = scan False [] [] s"

definition PARTIAL_MIN_TRUNCATION :: nat where
  "PARTIAL_MIN_TRUNCATION = 3"

definition partial_tail_expr :: "string \<Rightarrow> string" where
  "partial_tail_expr tail =
     (let alts = (quoted tail @ ''*'') # map (\<lambda>n. quoted (take n tail)) (rev [PARTIAL_MIN_TRUNCATION..<length tail])
      in if length alts = 1 then hd alts else ''('' @ join '' OR '' alts @ '')'')"

record fts_query =
  strict :: string
  any :: string
  terms :: "string list"
  term_exprs :: "string list"

definition term_of :: "query_token \<Rightarrow> string" where
  "term_of t = (case t of Word w \<Rightarrow> w | Phrase p \<Rightarrow> p)"

definition expr_of :: "bool \<Rightarrow> query_token \<Rightarrow> string" where
  "expr_of tail t = (case t of
       Word w \<Rightarrow> if tail then partial_tail_expr w else quoted w
     | Phrase p \<Rightarrow> quoted (double_quotes p))"

definition build :: "string \<Rightarrow> bool \<Rightarrow> fts_query" where
  "build s partial = (let tokens = scan_query s;
       exprs = map (\<lambda>(i, t). expr_of (partial \<and> i + 1 = length tokens) t) (enumerate 0 tokens) in
     if tokens = [] then \<lparr>strict = [], any = [], terms = [], term_exprs = []\<rparr>
     else \<lparr>strict = join '' AND '' exprs, any = join '' OR '' exprs, terms = map term_of tokens, term_exprs = exprs\<rparr>)"

definition query_is_empty :: "fts_query \<Rightarrow> bool" where
  "query_is_empty q \<longleftrightarrow> terms q = []"


section \<open>How an expression reads\<close>

datatype lexeme = Str string | Star | And | Or | LPar | RPar

text \<open>The first argument is the string that is open, if one is.\<close>

fun lex :: "string option \<Rightarrow> string \<Rightarrow> lexeme list option" where
  "lex None [] = Some []"
| "lex (Some a) [] = None"
| "lex (Some a) (c # cs) =
     (if c = CHR 0x22 then
        (case cs of
           d # ds \<Rightarrow> if d = CHR 0x22 then lex (Some (a @ [c])) ds else map_option (Cons (Str a)) (lex None cs)
         | [] \<Rightarrow> Some [Str a])
      else lex (Some (a @ [c])) cs)"
| "lex None (c # cs) =
     (if c = CHR '' '' then lex None cs
      else if c = CHR 0x22 then lex (Some []) cs
      else if c = CHR ''*'' then map_option (Cons Star) (lex None cs)
      else if c = CHR ''('' then map_option (Cons LPar) (lex None cs)
      else if c = CHR '')'' then map_option (Cons RPar) (lex None cs)
      else if c = CHR ''A'' then
        (case cs of d # e # ds \<Rightarrow> if d = CHR ''N'' \<and> e = CHR ''D'' then map_option (Cons And) (lex None ds) else None | _ \<Rightarrow> None)
      else if c = CHR ''O'' then
        (case cs of d # ds \<Rightarrow> if d = CHR ''R'' then map_option (Cons Or) (lex None ds) else None | _ \<Rightarrow> None)
      else None)"

text \<open>\<open>reads e g\<close>: wherever the expression \<open>e\<close> stands, unless a quote follows it, it reads as \<open>g\<close>.\<close>

definition closed_by :: "string \<Rightarrow> bool" where
  "closed_by r \<longleftrightarrow> r = [] \<or> hd r \<noteq> CHR 0x22"

definition reads :: "string \<Rightarrow> lexeme list \<Rightarrow> bool" where
  "reads e g \<longleftrightarrow> (\<forall>r. closed_by r \<longrightarrow> lex None (e @ r) = map_option (\<lambda>x. g @ x) (lex None r))"

lemma readsI: "(\<And>r. closed_by r \<Longrightarrow> lex None (e @ r) = map_option (\<lambda>x. g @ x) (lex None r)) \<Longrightarrow> reads e g"
  unfolding reads_def by blast

lemma readsD: "reads e g \<Longrightarrow> closed_by r \<Longrightarrow> lex None (e @ r) = map_option (\<lambda>x. g @ x) (lex None r)"
  unfolding reads_def by blast

lemma closed_by_simps [simp]: "closed_by []" "closed_by (c # cs) \<longleftrightarrow> c \<noteq> CHR 0x22"
  by (auto simp: closed_by_def)

lemma closed_by_append: "closed_by e \<Longrightarrow> closed_by r \<Longrightarrow> closed_by (e @ r)"
  by (cases e) auto

lemma lex_open:
  "closed_by r \<Longrightarrow> lex (Some a) (double_quotes s @ CHR 0x22 # r) = map_option (\<lambda>x. Str (a @ s) # x) (lex None r)"
proof (induction s arbitrary: a)
  case Nil
  then show ?case by (cases r) (auto simp: double_quotes_def)
next
  case (Cons c s)
  then show ?case by (simp add: double_quotes_def)
qed

lemma reads_quoted: "reads (quoted (double_quotes s)) [Str s]"
  by (rule readsI) (simp add: quoted_def lex_open)

lemma double_quotes_id: "CHR 0x22 \<notin> set s \<Longrightarrow> double_quotes s = s"
  unfolding double_quotes_def by (induction s) auto

lemma reads_quoted_plain: "CHR 0x22 \<notin> set s \<Longrightarrow> reads (quoted s) [Str s]"
  using reads_quoted [of s] by (simp add: double_quotes_id)

lemma reads_append:
  assumes "reads e g" "reads e' g'" "closed_by e'"
  shows "reads (e @ e') (g @ g')"
proof (rule readsI)
  fix r :: string assume r: "closed_by r"
  show "lex None ((e @ e') @ r) = map_option (\<lambda>x. (g @ g') @ x) (lex None r)"
    using readsD [OF assms(1) closed_by_append [OF assms(3) r]] readsD [OF assms(2) r] by (simp add: option.map_comp o_def)
qed

lemma reads_star: "reads ''*'' [Star]" and reads_rpar: "reads '')'' [RPar]"
  by (simp_all add: reads_def)

lemma reads_operator:
  assumes "reads e g"
  shows reads_lpar: "reads (''('' @ e) (LPar # g)"
    and reads_and: "reads ('' AND '' @ e) (And # g)"
    and reads_or: "reads ('' OR '' @ e) (Or # g)"
  by (rule readsI; simp add: readsD [OF assms] option.map_comp o_def)+

lemma reads_Nil [simp]: "reads [] []"
  by (rule readsI) (simp add: option.map_ident)

lemma reads_join:
  assumes "list_all2 reads es gs" "sep = '' AND '' \<and> x = And \<or> sep = '' OR '' \<and> x = Or"
  shows "reads (join sep es) (join [x] gs)"
  using assms(1)
proof (induction es arbitrary: gs rule: induct_list012)
  case (2 w)
  then show ?case by (auto simp: list_all2_Cons1)
next
  case (3 e e' es)
  then obtain g gs' where g: "gs = g # gs'" "reads e g" "list_all2 reads (e' # es) gs'" by (auto simp: list_all2_Cons1)
  then obtain g' gs'' where gs': "gs' = g' # gs''" by (auto simp: list_all2_Cons1)
  have IH: "reads (join sep (e' # es)) (join [x] gs')" using 3(2) [OF g(3)] by simp
  have "reads (sep @ join sep (e' # es)) (x # join [x] gs')"
    using assms(2) reads_and [OF IH] reads_or [OF IH] by auto
  from reads_append [OF g(2) this] assms(2) show ?case by (auto simp: g(1) gs')
qed simp

lemma reads_lex: "reads e g \<Longrightarrow> lex None e = Some g"
  using readsD [of e g "[]"] by simp

section \<open>What the words become\<close>

definition tail_group :: "string \<Rightarrow> lexeme list" where
  "tail_group w = (let alts = [Str w, Star] # map (\<lambda>n. [Str (take n w)]) (rev [PARTIAL_MIN_TRUNCATION..<length w])
     in if length alts = 1 then hd alts else LPar # join [Or] alts @ [RPar])"

definition group_of :: "bool \<Rightarrow> query_token \<Rightarrow> lexeme list" where
  "group_of tail t = (case t of Word w \<Rightarrow> if tail then tail_group w else [Str w] | Phrase p \<Rightarrow> [Str p])"

definition quote_free :: "query_token \<Rightarrow> bool" where
  "quote_free t \<longleftrightarrow> (case t of Word w \<Rightarrow> CHR 0x22 \<notin> set w | Phrase _ \<Rightarrow> True)"

lemma reads_tail: "CHR 0x22 \<notin> set w \<Longrightarrow> reads (partial_tail_expr w) (tail_group w)"
proof -
  assume w: "CHR 0x22 \<notin> set w"
  let ?ns = "rev [PARTIAL_MIN_TRUNCATION..<length w]"
  have first: "reads (quoted w @ ''*'') [Str w, Star]"
    using reads_append [OF reads_quoted_plain [OF w] reads_star] by simp
  have "reads (quoted (take n w)) [Str (take n w)]" for n
    using w by (intro reads_quoted_plain) (auto dest: in_set_takeD)
  then have alts: "list_all2 reads ((quoted w @ ''*'') # map (\<lambda>n. quoted (take n w)) ?ns) ([Str w, Star] # map (\<lambda>n. [Str (take n w)]) ?ns)"
    using first by (auto simp: list_all2_map1 list_all2_map2 intro!: list.rel_refl)
  have "reads (''('' @ join '' OR '' ((quoted w @ ''*'') # map (\<lambda>n. quoted (take n w)) ?ns) @ '')'')
      (LPar # join [Or] ([Str w, Star] # map (\<lambda>n. [Str (take n w)]) ?ns) @ [RPar])"
    by (rule reads_lpar) (rule reads_append [OF reads_join [OF alts] reads_rpar]; simp)
  with first show ?thesis by (simp add: partial_tail_expr_def tail_group_def Let_def)
qed

lemma reads_expr: "quote_free t \<Longrightarrow> reads (expr_of tail t) (group_of tail t)"
  by (cases t) (auto simp: quote_free_def expr_of_def group_of_def reads_tail reads_quoted reads_quoted_plain)


abbreviation quote_mark :: char where
  "quote_mark \<equiv> CHR 0x22"

definition plain_quotes :: "string \<Rightarrow> bool" where
  "plain_quotes s \<longleftrightarrow> even (count_list s quote_mark) \<or> \<not> contains s [quote_mark, quote_mark]"

lemma push_word_quote_free: "quote_mark \<notin> set w \<Longrightarrow> \<forall>t \<in> set (push_word w). quote_free t"
  by (simp add: push_word_def quote_free_def)

lemma quote_free_phrase [simp]: "quote_free (Phrase p)"
  by (simp add: quote_free_def)

lemma not_contains_tail: "\<not> contains (c # cs) p \<Longrightarrow> \<not> contains cs p"
  by simp


lemma split_whitespace_chars: "w \<in> set (split_whitespace s) \<Longrightarrow> set w \<subseteq> set s"
proof -
  assume "w \<in> set (split_whitespace s)"
  then have "set w \<subseteq> set (concat (split_whitespace s))" by auto
  then show ?thesis by (auto simp: concat_split_whitespace)
qed

lemma scan_quote_free:
  assumes "quote_mark \<notin> set word"
    "(even (count_list cs quote_mark) \<longleftrightarrow> \<not> in_phrase) \<or> quote_mark \<notin> set ph \<and> \<not> contains cs [quote_mark, quote_mark]"
  shows "\<forall>t \<in> set (scan in_phrase word ph cs). quote_free t"
  using assms
proof (induction in_phrase word ph cs rule: scan.induct)
  case (1 in_phrase word ph)
  then show ?case by (auto simp: split_whitespace_chars dest!: split_whitespace_chars push_word_quote_free [rule_format, rotated])
next
  case (2 in_phrase word ph c cs)
  note IH = "2.IH" and prems = "2.prems"
  show ?case
  proof (cases in_phrase)
    case out: False
    have w: "\<forall>t \<in> set (push_word word). quote_free t" using prems(1) by (rule push_word_quote_free)
    consider "c = quote_mark" | "c \<noteq> quote_mark" "is_whitespace c \<or> c \<in> set FTS_SYNTAX"
      | "c \<noteq> quote_mark" "\<not> (is_whitespace c \<or> c \<in> set FTS_SYNTAX)" by blast
    then show ?thesis
    proof cases
      case 1
      then show ?thesis using out prems IH(5) w by auto
    next
      case 2
      then show ?thesis using out prems IH(6) w by auto
    next
      case 3
      then show ?thesis using out prems IH(7) by auto
    qed
  next
    case inside: True
    let ?done = "join '' '' (split_whitespace ph)"
    let ?phrase = "if list_ex is_alphanumeric ?done then [Phrase ?done] else []"
    have closes: "\<forall>t \<in> set (?phrase @ ts). quote_free t" if "\<forall>t \<in> set ts. quote_free t" for ts
      using that by auto
    consider ds where "c = quote_mark" "cs = quote_mark # ds" | d ds where "c = quote_mark" "cs = d # ds" "d \<noteq> quote_mark"
      | "c = quote_mark" "cs = []" | "c \<noteq> quote_mark"
      by (cases cs) auto
    then show ?thesis
    proof cases
      case (1 ds)
      then show ?thesis using inside prems IH(2) [OF inside 1(1) 1(2) refl] by (simp add: starts_with_iff)
    next
      case (2 d ds)
      then have "\<forall>t \<in> set (scan False word [] cs). quote_free t" using inside prems(2) by (intro IH(3) [OF inside 2 refl prems(1)]) (auto simp: starts_with_iff)
      from closes [OF this] show ?thesis using 2 inside by (simp add: Let_def del: scan.simps add: scan.simps(2) [of True])
    next
      case 3
      then have "\<forall>t \<in> set (scan False word [] []). quote_free t" using prems push_word_quote_free by simp
      from closes [OF this] show ?thesis using 3 inside by (simp add: Let_def)
    next
      case 4
      then show ?thesis using inside prems IH(4) by auto
    qed
  qed
qed


definition groups_of :: "bool \<Rightarrow> query_token list \<Rightarrow> lexeme list list" where
  "groups_of partial ts = map (\<lambda>(i, t). group_of (partial \<and> i + 1 = length ts) t) (enumerate 0 ts)"

lemma build_reads:
  assumes free: "\<forall>t \<in> set (scan_query s). quote_free t"
    and sep: "sep = '' AND '' \<and> x = And \<or> sep = '' OR '' \<and> x = Or"
  shows "reads (join sep (term_exprs (build s partial))) (join [x] (groups_of partial (scan_query s)))"
proof (rule reads_join [OF _ sep])
  let ?ts = "scan_query s"
  have "list_all2 reads (map (\<lambda>(i, t). expr_of (partial \<and> i + 1 = length ?ts) t) (enumerate 0 ?ts)) (groups_of partial ?ts)"
    unfolding groups_of_def list_all2_map1 list_all2_map2
  proof (rule list.rel_refl_strong, clarsimp)
    fix i t assume "(i, t) \<in> set (enumerate 0 ?ts)"
    from imageI [OF this, of snd] have "t \<in> set (map snd (enumerate 0 ?ts))" unfolding set_map by simp
    then have "t \<in> set ?ts" by (simp only: map_snd_enumerate)
    with free show "reads (expr_of (partial \<and> Suc i = length ?ts) t) (group_of (partial \<and> Suc i = length ?ts) t)"
      by (auto intro: reads_expr)
  qed
  then show "list_all2 reads (term_exprs (build s partial)) (groups_of partial ?ts)"
    by (auto simp: build_def Let_def groups_of_def)
qed

lemma build_joins:
  "strict (build s partial) = join '' AND '' (term_exprs (build s partial))"
  "any (build s partial) = join '' OR '' (term_exprs (build s partial))"
  "terms (build s partial) = map term_of (scan_query s)"
  by (simp_all add: build_def Let_def)

text \<open>C21. What a reader types stays words: when its quotes pair up (or none stand side by side),
  the strict expression reads as exactly the scanned words and phrases joined by AND, the wide one as
  the same joined by OR, each one a string, but for the alternatives of the word being typed.\<close>
theorem reader_words_stay_words:
  assumes "plain_quotes s"
  shows "lex None (strict (build s partial)) = Some (join [And] (groups_of partial (scan_query s)))
      \<and> lex None (any (build s partial)) = Some (join [Or] (groups_of partial (scan_query s)))
      \<and> terms (build s partial) = map term_of (scan_query s)"
proof -
  have "\<forall>t \<in> set (scan_query s). quote_free t"
    using assms unfolding scan_query_def plain_quotes_def by (intro scan_quote_free) auto
  note r = build_reads [OF this, THEN reads_lex]
  show ?thesis using r [of "'' AND ''" And] r [of "'' OR ''" Or] by (simp add: build_joins)
qed

theorem reader_words_stay_words_witness:
  "lex None (strict (build (''rent '' @ quoted ''due: today'' @ '' ship'') True))
     = Some [Str ''rent'', And, Str ''due today'', And, LPar, Str ''ship'', Star, Or, Str ''shi'', RPar]"
proof -
  let ?s = "''rent '' @ quoted ''due: today'' @ '' ship''"
  have p: "plain_quotes ?s" by code_simp
  have g: "join [And] (groups_of True (scan_query ?s))
      = [Str ''rent'', And, Str ''due today'', And, LPar, Str ''ship'', Star, Or, Str ''shi'', RPar]" by code_simp
  show ?thesis using reader_words_stay_words [OF p, of True] unfolding g by blast
qed

subsection \<open>A phrase that never closes\<close>



text \<open>How many quotes the bare words hold.\<close>

definition word_quotes :: "query_token list \<Rightarrow> nat" where
  "word_quotes ts = sum_list (map (\<lambda>t. case t of Word w \<Rightarrow> count_list w quote_mark | Phrase _ \<Rightarrow> 0) ts)"

lemma word_quotes_simps [simp]:
  "word_quotes [] = 0" "word_quotes (t # ts) = (case t of Word w \<Rightarrow> count_list w quote_mark | Phrase _ \<Rightarrow> 0) + word_quotes ts"
  "word_quotes (ts @ us) = word_quotes ts + word_quotes us"
  by (simp_all add: word_quotes_def)


















section \<open>What is left over parses to itself\<close>

text \<open>A token as the tokenizer leaves them: every space of it inside quotes; and whether its quotes pair up.\<close>

fun unsplit :: "bool \<Rightarrow> string \<Rightarrow> bool" where
  "unsplit q [] = True"
| "unsplit q (c # cs) = (if c = quote_mark then unsplit (\<not> q) cs else (is_whitespace c \<longrightarrow> q) \<and> unsplit q cs)"

fun left_open :: "bool \<Rightarrow> string \<Rightarrow> bool" where
  "left_open q [] = q"
| "left_open q (c # cs) = left_open (if c = quote_mark then \<not> q else q) cs"

fun whole_tokens :: "string list \<Rightarrow> bool" where
  "whole_tokens [] = True"
| "whole_tokens (t # ts) = (t \<noteq> [] \<and> unsplit False t \<and> (ts \<noteq> [] \<longrightarrow> \<not> left_open False t) \<and> whole_tokens ts)"

lemma left_open_append [simp]: "left_open q (a @ b) = left_open (left_open q a) b"
  by (induction a arbitrary: q) auto

lemma unsplit_append [simp]: "unsplit q (a @ b) \<longleftrightarrow> unsplit q a \<and> unsplit (left_open q a) b"
  by (induction a arbitrary: q) auto

lemma tokenize_from_whole:
  "unsplit False cur \<Longrightarrow> q = left_open False cur \<Longrightarrow> whole_tokens (tokenize_from cur q s)"
  by (induction cur q s rule: tokenize_from.induct) auto

lemma tokenize_from_token:
  "unsplit q w \<Longrightarrow> tokenize_from cur q (w @ r) = tokenize_from (cur @ w) (left_open q w) r"
  by (induction w arbitrary: cur q) auto

lemma tokenize_join: "whole_tokens ts \<Longrightarrow> tokenize (join '' '' ts) = ts"
proof (induction ts rule: induct_list012)
  case (3 t u ts)
  have "is_whitespace CHR '' ''" by code_simp
  with 3 show ?case by (simp add: tokenize_def tokenize_from_token)
next
  case (2 t)
  then show ?case using tokenize_from_token [of False t "[]" "[]"] by (simp add: tokenize_def)
qed (simp add: tokenize_def)

text \<open>What a token leaves of itself in the search text.\<close>

definition kept :: "(string \<Rightarrow> instant option) \<Rightarrow> string \<Rightarrow> string list" where
  "kept parse_day t = fst (take_token parse_day t ([], default_filter))"

lemma take_token_fst: "fst (take_token parse_day t (ws, f)) = ws @ kept parse_day t"
  unfolding kept_def take_token_def by (auto simp: Let_def split: option.splits)

lemma fold_kept: "fst (fold (take_token parse_day) ts (ws, f)) = ws @ concat (map (kept parse_day) ts)"
proof (induction ts arbitrary: ws f)
  case (Cons t ts)
  then show ?case by (cases "take_token parse_day t (ws, f)") (use take_token_fst [of parse_day t ws f] in simp)
qed simp

lemma kept_cases: "kept parse_day t = [] \<or> kept parse_day t = [t] \<or> kept parse_day t = [as_fts_phrase t]"
  unfolding kept_def take_token_def by (auto simp: Let_def split: option.splits)

lemma double_quotes_open [simp]: "left_open q (double_quotes s) = q"
  unfolding double_quotes_def by (induction s arbitrary: q) auto

lemma double_quotes_unsplit [simp]: "unsplit True (double_quotes s)"
  unfolding double_quotes_def by (induction s) auto

lemma whole_tokens_kept: "whole_tokens ts \<Longrightarrow> whole_tokens (concat (map (kept parse_day) ts))"
proof (induction ts)
  case (Cons t ts)
  then show ?case
    using kept_cases [of parse_day t] by (auto simp: as_fts_phrase_def quoted_def)
qed simp

text \<open>A kept word is not an operator any more: it stays as it is.\<close>

lemma strip_prefix_quote:
  assumes "p \<in> {''from:'', ''after:'', ''before:''}"
  shows "strip_prefix_ci (quote_mark # s) p = None"
proof -
  have "ascii_lower quote_mark = quote_mark" "to_ascii_lowercase ''from:'' = ''from:''"
    "to_ascii_lowercase ''after:'' = ''after:''" "to_ascii_lowercase ''before:'' = ''before:''" by code_simp+
  with assms show ?thesis by (auto simp: strip_prefix_ci_def Let_def to_ascii_lowercase_def numeral_eq_Suc)
qed

lemma kept_stays:
  assumes "w \<in> set (kept parse_day t)"
  shows "take_token parse_day w (ws, f) = (ws @ [w], f)"
proof -
  consider "w = as_fts_phrase t"
    | "w = t" "strip_prefix_ci t ''from:'' = None" "strip_prefix_ci t ''after:'' = None" "strip_prefix_ci t ''before:'' = None"
      "\<not> (CHR '':'' \<in> set t \<and> \<not> starts_with t [quote_mark])"
    using assms unfolding kept_def take_token_def by (auto simp: Let_def split: option.splits if_splits)
  then show ?thesis
  proof cases
    case 1
    then show ?thesis
      by (simp add: as_fts_phrase_def quoted_def take_token_def strip_prefix_quote starts_with_iff)
  next
    case 2
    then show ?thesis by (auto simp: take_token_def)
  qed
qed

lemma fold_stays:
  "\<forall>w \<in> set ws. \<exists>t. w \<in> set (kept parse_day t) \<Longrightarrow> fold (take_token parse_day) ws (vs, f) = (vs @ ws, f)"
  by (induction ws arbitrary: vs) (auto simp: kept_stays)

text \<open>The text an operator-laden query leaves over is plain search text: parsing it again yields the
  same text and no constraint, whatever quotes, colons or failed dates it carries.\<close>
theorem leftover_text_is_plain:
  "parse_search_query parse_day (fst (parse_search_query parse_day raw))
     = (fst (parse_search_query parse_day raw), default_filter)"
proof -
  let ?ws = "concat (map (kept parse_day) (tokenize raw))"
  have leftover: "fst (parse_search_query parse_day r) = join '' '' (concat (map (kept parse_day) (tokenize r)))" for r
    using fold_kept [of parse_day "tokenize r" "[]" default_filter] by (auto simp: parse_search_query_def split: prod.splits)
  have "tokenize (join '' '' ?ws) = ?ws"
    using tokenize_from_whole [of "[]" False raw] by (intro tokenize_join whole_tokens_kept) (simp add: tokenize_def)
  moreover have "fold (take_token parse_day) ?ws ([], default_filter) = ([] @ ?ws, default_filter)"
    by (rule fold_stays) auto
  ultimately show ?thesis unfolding leftover by (simp add: parse_search_query_def)
qed

end
