(* ===== verification/Rate_Limit.thy ===== *)
theory Rate_Limit
  imports Complex_Main Machine Rows
begin

text \<open>
  The per-client token buckets (\<open>squelch-ratelimit/src/lib.rs\<close>), shared by the relay and the broker,
  and the copies of it the control plane and the warden carry.

  An \<open>f64\<close> is a rational, and every operation on it is the exact one followed by \<open>rnd\<close>, the rounding of
  IEEE 754, an argument; \<open>f64_rounding\<close> is what is used of it. No quantity here overflows, and none is
  small enough to be subnormal.
\<close>

type_synonym rounding = "rat \<Rightarrow> rat"

definition f64_rounding :: "rounding \<Rightarrow> bool" where
  "f64_rounding rnd \<longleftrightarrow> (\<forall>x y. x \<le> y \<longrightarrow> rnd x \<le> rnd y) \<and> (\<forall>n. n < 2 ^ 53 \<longrightarrow> rnd (of_nat n) = of_nat n)
     \<and> (\<forall>x. 1 / 64 \<le> x \<longrightarrow> x / 2 \<le> rnd x)"

definition IDLE_TTL :: duration where "IDLE_TTL = secs 120"
definition PRUNE_AT :: nat where "PRUNE_AT = 1024"
definition PRUNE_EVERY :: duration where "PRUNE_EVERY = secs 10"
definition MAX_BUCKETS :: nat where "MAX_BUCKETS = 65536"
definition EVICT_TO :: nat where "EVICT_TO = MAX_BUCKETS div 2"

record bucket =
  tokens :: rat
  last_seen :: instant

record limiter =
  buckets :: "(ip_addr, bucket) table"
  capacity :: rat
  refill_per_sec :: rat
  last_prune :: "instant option"

definition per_minute :: "rounding \<Rightarrow> rat \<Rightarrow> limiter" where
  "per_minute rnd n = \<lparr>buckets = [], capacity = n, refill_per_sec = rnd (n / 60), last_prune = None\<rparr>"

definition prune :: "instant \<Rightarrow> limiter \<Rightarrow> limiter" where
  "prune now l = l\<lparr>buckets := retain (\<lambda>b. since now (last_seen b) < IDLE_TTL) (buckets l)\<rparr>"

definition evict_oldest_to :: "nat \<Rightarrow> limiter \<Rightarrow> limiter" where
  "evict_oldest_to target l =
     (if length (buckets l) \<le> target then l
      else let excess = length (buckets l) - target;
               times = map (\<lambda>(_, b). last_seen b) (buckets l);
               cutoff = sort times ! (excess - 1)
           in l\<lparr>buckets := retain (\<lambda>b. cutoff < last_seen b) (buckets l)\<rparr>)"

definition maintain :: "ip_addr \<Rightarrow> instant \<Rightarrow> limiter \<Rightarrow> limiter" where
  "maintain ip now l =
     (if length (buckets l) < PRUNE_AT then l
      else let due = (case last_prune l of None \<Rightarrow> True | Some t \<Rightarrow> PRUNE_EVERY \<le> since now t);
               l = (if due then (prune now l)\<lparr>last_prune := Some now\<rparr> else l)
           in if MAX_BUCKETS \<le> length (buckets l) \<and> map_of (buckets l) ip = None then evict_oldest_to EVICT_TO l else l)"

text \<open>\<open>Duration::as_secs_f64\<close>: the whole seconds plus the nanoseconds over a billion.\<close>

definition as_secs_f64 :: "rounding \<Rightarrow> duration \<Rightarrow> rat" where
  "as_secs_f64 rnd d = rnd (of_int (d div 1000000000) + rnd (of_int (d mod 1000000000) / 1000000000))"

definition charge :: "rounding \<Rightarrow> rat \<Rightarrow> rat \<Rightarrow> instant \<Rightarrow> bucket \<Rightarrow> bool \<times> bucket" where
  "charge rnd cap refill now b =
     (let elapsed = as_secs_f64 rnd (since now (last_seen b));
          t = min (rnd (tokens b + rnd (elapsed * refill))) cap
      in if 1 \<le> t then (True, \<lparr>tokens = rnd (t - 1), last_seen = now\<rparr>) else (False, \<lparr>tokens = t, last_seen = now\<rparr>))"

definition check :: "rounding \<Rightarrow> ip_addr \<Rightarrow> instant \<Rightarrow> limiter \<Rightarrow> bool \<times> limiter" where
  "check rnd ip now l =
     (let l = maintain ip now l;
          b = (case map_of (buckets l) ip of Some b \<Rightarrow> b | None \<Rightarrow> \<lparr>tokens = capacity l, last_seen = now\<rparr>);
          (ok, b) = charge rnd (capacity l) (refill_per_sec l) now b
      in (ok, l\<lparr>buckets := AList.update ip b (buckets l)\<rparr>))"

text \<open>The control plane and the warden prune inside \<open>maintain\<close>, and are otherwise the same.\<close>

definition control_maintain :: "ip_addr \<Rightarrow> instant \<Rightarrow> limiter \<Rightarrow> limiter" where
  "control_maintain ip now l =
     (if length (buckets l) < PRUNE_AT then l
      else let due = (case last_prune l of None \<Rightarrow> True | Some t \<Rightarrow> PRUNE_EVERY \<le> since now t);
               l = (if due then l\<lparr>buckets := retain (\<lambda>b. since now (last_seen b) < IDLE_TTL) (buckets l), last_prune := Some now\<rparr> else l)
           in if MAX_BUCKETS \<le> length (buckets l) \<and> map_of (buckets l) ip = None then evict_oldest_to EVICT_TO l else l)"

definition step :: "rounding \<Rightarrow> ip_addr \<times> instant \<Rightarrow> limiter \<Rightarrow> bool \<times> limiter" where
  "step rnd req l = check rnd (fst req) (snd req) l"

section \<open>The table stays bounded\<close>

lemma control_maintain_eq: "control_maintain ip now l = maintain ip now l"
  by (simp add: control_maintain_def maintain_def prune_def Let_def)

lemma length_filter_sort_greater:
  fixes ts :: "int list"
  assumes "0 < k" "k \<le> length ts"
  shows "length (filter (\<lambda>t. sort ts ! (k - 1) < t) ts) \<le> length ts - k"
proof -
  let ?s = "sort ts" let ?c = "?s ! (k - 1)"
  have "filter (\<lambda>t. ?c < t) (take k ?s) = []"
  proof (rule filter_False, rule ballI)
    fix t assume "t \<in> set (take k ?s)"
    then obtain j where "j < k" "j < length ?s" "t = ?s ! j" by (auto simp: in_set_conv_nth)
    then show "\<not> ?c < t" using assms sorted_nth_mono [OF sorted_sort, of j "k - 1" ts] by (simp add: not_less)
  qed
  then have "filter (\<lambda>t. ?c < t) ?s = filter (\<lambda>t. ?c < t) (drop k ?s)"
    by (metis append_Nil append_take_drop_id filter_append)
  moreover have "length (filter (\<lambda>t. ?c < t) ts) = length (filter (\<lambda>t. ?c < t) ?s)"
    by (metis mset_filter mset_sort size_mset)
  ultimately show ?thesis using length_filter_le [of "\<lambda>t. ?c < t" "drop k ?s"] by simp
qed

lemma evict_bound: "length (buckets (evict_oldest_to n l)) \<le> n"
proof (cases "length (buckets l) \<le> n")
  case False
  let ?ts = "map (\<lambda>(_, b). last_seen b) (buckets l)"
  have "length (retain (\<lambda>b. sort ?ts ! (length (buckets l) - n - 1) < last_seen b) (buckets l))
      = length (filter (\<lambda>t. sort ?ts ! (length (buckets l) - n - 1) < t) ?ts)"
    by (simp add: retain_def filter_map o_def split_def)
  also have "\<dots> \<le> n" using length_filter_sort_greater [of "length (buckets l) - n" ?ts] False by simp
  finally show ?thesis using False by (simp add: evict_oldest_to_def Let_def)
qed (simp add: evict_oldest_to_def)

lemma prune_length: "length (buckets (prune now l)) \<le> length (buckets l)"
  by (simp add: prune_def)

lemma maintain_room:
  assumes "length (buckets l) \<le> MAX_BUCKETS"
  shows "length (buckets (maintain ip now l)) \<le> MAX_BUCKETS"
    and "map_of (buckets (maintain ip now l)) ip = None \<Longrightarrow> length (buckets (maintain ip now l)) < MAX_BUCKETS"
proof -
  let ?p = "(prune now l)\<lparr>last_prune := Some now\<rparr>"
  have p: "length (buckets ?p) \<le> MAX_BUCKETS" using assms prune_length [of now l] by simp
  have e: "length (buckets (evict_oldest_to EVICT_TO m)) < MAX_BUCKETS" for m
    using evict_bound [of EVICT_TO m] by (simp add: EVICT_TO_def MAX_BUCKETS_def)
  show "length (buckets (maintain ip now l)) \<le> MAX_BUCKETS"
    using assms p less_imp_le [OF e] unfolding maintain_def Let_def by (auto split: option.splits)
  show "map_of (buckets (maintain ip now l)) ip = None \<Longrightarrow> length (buckets (maintain ip now l)) < MAX_BUCKETS"
    using assms p e unfolding maintain_def Let_def
    by (auto simp: PRUNE_AT_def MAX_BUCKETS_def not_le split: option.splits if_splits)
qed

lemma check_room:
  assumes "length (buckets l) \<le> MAX_BUCKETS"
  shows "length (buckets (snd (check rnd ip now l))) \<le> MAX_BUCKETS"
proof -
  note r = maintain_room [OF assms, of ip now]
  have "length (AList.update ip b (buckets (maintain ip now l))) \<le> MAX_BUCKETS" for b
    using r by (auto simp: length_update map_of_None_fresh [symmetric])
  then show ?thesis unfolding check_def Let_def by (simp split: prod.splits)
qed


interpretation bucket_table: invariant_machine "step rnd" "\<lambda>l. length (buckets l) \<le> MAX_BUCKETS" for rnd
  by unfold_locales (simp add: step_def check_room)

text \<open>However many addresses ask, at whatever times, in whatever order, the limiter never tracks more
  than \<open>MAX_BUCKETS\<close> of them, in the shared engine and in the copies alike.\<close>
theorem bucket_table_bounded:
  "length (buckets (final (step rnd) reqs (per_minute rnd n))) \<le> MAX_BUCKETS
   \<and> control_maintain ip now l = maintain ip now l"
  using bucket_table.inv_final [of "per_minute rnd n" rnd reqs] control_maintain_eq by (simp add: per_minute_def)

section \<open>Pruning is unobservable\<close>

text \<open>A bucket of its own for every client, kept for ever.\<close>

definition plain_check :: "rounding \<Rightarrow> rat \<Rightarrow> ip_addr \<times> instant \<Rightarrow> (ip_addr \<Rightarrow> bucket option) \<Rightarrow> bool \<times> (ip_addr \<Rightarrow> bucket option)" where
  "plain_check rnd n req m =
     (let (ip, now) = req;
          b = (case m ip of Some b \<Rightarrow> b | None \<Rightarrow> \<lparr>tokens = n, last_seen = now\<rparr>);
          (ok, b) = charge rnd n (rnd (n / 60)) now b
      in (ok, m(ip \<mapsto> b)))"

lemma charge_last [simp]: "last_seen (snd (charge rnd cap refill now b)) = now"
  by (simp add: charge_def Let_def)

lemma rndD:
  assumes "f64_rounding rnd"
  shows "x \<le> y \<Longrightarrow> rnd x \<le> rnd y" "n < 2 ^ 53 \<Longrightarrow> rnd (of_nat n) = of_nat n" "1 / 64 \<le> x \<Longrightarrow> x / 2 \<le> rnd x"
  using assms by (auto simp: f64_rounding_def)

lemma rnd_0: "f64_rounding rnd \<Longrightarrow> rnd 0 = 0"
  using rndD(2) [of rnd 0] by simp

lemma rnd_nonneg: "f64_rounding rnd \<Longrightarrow> 0 \<le> x \<Longrightarrow> 0 \<le> rnd x"
  using rndD(1) [of rnd 0 x] by (simp add: rnd_0)

lemma charge_nonneg:
  assumes "f64_rounding rnd" "0 \<le> tokens b" "0 \<le> refill" "0 \<le> cap"
  shows "0 \<le> tokens (snd (charge rnd cap refill now b))"
proof -
  have "0 \<le> since now (last_seen b)" by simp
  then have "0 \<le> as_secs_f64 rnd (since now (last_seen b))"
    unfolding as_secs_f64_def by (intro rnd_nonneg [OF assms(1)] add_nonneg_nonneg divide_nonneg_pos) (simp_all add: pos_imp_zdiv_nonneg_iff)
  then have "0 \<le> rnd (tokens b + rnd (as_secs_f64 rnd (since now (last_seen b)) * refill))"
    using assms(2,3) by (intro rnd_nonneg [OF assms(1)] add_nonneg_nonneg mult_nonneg_nonneg)
  then show ?thesis using assms(4) by (auto simp: charge_def Let_def intro!: rnd_nonneg [OF assms(1)])
qed

text \<open>After \<open>IDLE_TTL\<close> a bucket is full again, so it is worth as much as a fresh one.\<close>

lemma idle_refills:
  assumes r: "f64_rounding rnd" and d: "IDLE_TTL \<le> d" and n: "0 < n" "n < 2 ^ 53" and t: "0 \<le> t"
  shows "min (rnd (t + rnd (as_secs_f64 rnd d * rnd (of_nat n / 60)))) (of_nat n) = of_nat n"
proof -
  have "(1 :: rat) \<le> of_nat n" using n(1) by (simp add: Suc_le_eq)
  then have refill: "of_nat n / 120 \<le> rnd (of_nat n / 60 :: rat)"
    using rndD(3) [OF r, of "of_nat n / 60"] by simp
  have "120 \<le> d div 1000000000" using d by (simp add: IDLE_TTL_def secs_def)
  then have "(120 :: rat) \<le> of_int (d div 1000000000)" by linarith
  moreover have "0 \<le> rnd (of_int (d mod 1000000000) / 1000000000)" by (intro rnd_nonneg [OF r]) simp_all
  ultimately have "rnd (of_nat 120) \<le> as_secs_f64 rnd d" unfolding as_secs_f64_def by (intro rndD(1) [OF r]) simp
  then have "120 \<le> as_secs_f64 rnd d" using rndD(2) [OF r, of 120] by simp
  then have "120 * (of_nat n / 120) \<le> as_secs_f64 rnd d * rnd (of_nat n / 60)"
    using refill by (intro mult_mono) auto
  then have "rnd (of_nat n) \<le> rnd (as_secs_f64 rnd d * rnd (of_nat n / 60))" by (intro rndD(1) [OF r]) simp
  then have "rnd (of_nat n) \<le> rnd (t + rnd (as_secs_f64 rnd d * rnd (of_nat n / 60)))"
    using t rndD(2) [OF r n(2)] by (intro rndD(1) [OF r]) simp
  then show ?thesis using rndD(2) [OF r n(2)] by simp
qed

lemma fresh_is_full:
  assumes "f64_rounding rnd" "0 < n" "n < 2 ^ 53"
  shows "min (rnd (of_nat n + rnd (as_secs_f64 rnd 0 * refill))) (of_nat n) = of_nat n"
  using assms by (simp add: as_secs_f64_def rnd_0 rndD(2))

lemma charge_idle:
  assumes "f64_rounding rnd" "IDLE_TTL \<le> since now (last_seen b)" "0 < n" "n < 2 ^ 53" "0 \<le> tokens b"
  shows "charge rnd (of_nat n) (rnd (of_nat n / 60)) now b = charge rnd (of_nat n) (rnd (of_nat n / 60)) now \<lparr>tokens = of_nat n, last_seen = now\<rparr>"
  unfolding charge_def Let_def bucket.select_convs since_self
    idle_refills [OF assms(1-4,5)] fresh_is_full [OF assms(1,3,4)] by (rule refl)


definition covers :: "instant \<Rightarrow> limiter \<Rightarrow> (ip_addr \<Rightarrow> bucket option) \<Rightarrow> bool" where
  "covers now l m \<longleftrightarrow> wf_table (buckets l)
     \<and> (\<forall>ip. map_of (buckets l) ip = m ip
          \<or> map_of (buckets l) ip = None \<and> (\<exists>b. m ip = Some b \<and> IDLE_TTL \<le> since now (last_seen b)))
     \<and> (\<forall>ip b. m ip = Some b \<longrightarrow> 0 \<le> tokens b)"

lemma covers_later: "covers now l m \<Longrightarrow> now \<le> now' \<Longrightarrow> covers now' l m"
  unfolding covers_def by (meson order_trans since_mono)

lemma covers_prune: "covers now l m \<Longrightarrow> covers now (prune now l) m"
proof -
  assume c: "covers now l m"
  let ?q = "\<lambda>b. since now (last_seen b) < IDLE_TTL"
  have wf: "wf_table (buckets l)" using c by (simp add: covers_def)
  have "map_of (retain ?q (buckets l)) ip = m ip
      \<or> map_of (retain ?q (buckets l)) ip = None \<and> (\<exists>b. m ip = Some b \<and> IDLE_TTL \<le> since now (last_seen b))" for ip
  proof (cases "map_of (buckets l) ip = m ip")
    case True
    then show ?thesis by (cases "m ip") (auto simp: map_of_retain [OF wf])
  next
    case False
    with c have "map_of (buckets l) ip = None \<and> (\<exists>b. m ip = Some b \<and> IDLE_TTL \<le> since now (last_seen b))"
      unfolding covers_def by blast
    then show ?thesis by (simp add: map_of_retain [OF wf])
  qed
  with c show ?thesis unfolding covers_def prune_def by simp
qed

lemma prune_keys: "fst ` set (buckets (prune now l)) \<subseteq> fst ` set (buckets l)"
  by (auto simp: prune_def set_retain)

lemma no_eviction:
  assumes "wf_table (buckets l)" "fst ` set (buckets l) \<subseteq> C" "ip \<in> C" "finite C" "card C \<le> MAX_BUCKETS"
    "map_of (buckets l) ip = None"
  shows "length (buckets l) < MAX_BUCKETS"
proof -
  have "length (buckets l) = card (fst ` set (buckets l))"
    using assms(1) unfolding wf_table_def by (metis distinct_card length_map set_map)
  also have "\<dots> < card C"
    using assms(2-4,6) by (intro psubset_card_mono) (auto simp: map_of_None_fresh)
  finally show ?thesis using assms(5) by simp
qed

lemma maintain_covers:
  assumes "covers now l m" "fst ` set (buckets l) \<subseteq> C" "ip \<in> C" "finite C" "card C \<le> MAX_BUCKETS"
  defines "l' \<equiv> maintain ip now l"
  shows "covers now l' m \<and> fst ` set (buckets l') \<subseteq> C \<and> capacity l' = capacity l \<and> refill_per_sec l' = refill_per_sec l"
proof -
  let ?p = "(prune now l)\<lparr>last_prune := Some now\<rparr>"
  have p: "covers now ?p m" using covers_prune [OF assms(1)] by (simp add: covers_def)
  have k: "fst ` set (buckets ?p) \<subseteq> C" using prune_keys [of now l] assms(2) by auto
  have kept: "capacity ?p = capacity l" "refill_per_sec ?p = refill_per_sec l" by (simp_all add: prune_def)
  have wf: "wf_table (buckets l)" "wf_table (buckets ?p)" using assms(1) p by (simp_all add: covers_def)
  note e = no_eviction [OF wf(1) assms(2-5)] no_eviction [OF wf(2) k assms(3-5)]
  have "l' = l \<or> l' = ?p" unfolding l'_def maintain_def Let_def using e by (auto split: option.splits)
  then show ?thesis using assms(1,2) p k kept by (elim disjE) simp_all
qed

text \<open>One request: the same answer, and the tables still agree.\<close>

lemma check_covers:
  assumes r: "f64_rounding rnd" and n: "0 < n" "n < 2 ^ 53"
    and c: "covers now l m" "fst ` set (buckets l) \<subseteq> C" "ip \<in> C" "finite C" "card C \<le> MAX_BUCKETS"
    and l: "capacity l = of_nat n" "refill_per_sec l = rnd (of_nat n / 60)"
  defines "l' \<equiv> snd (check rnd ip now l)" and "m' \<equiv> snd (plain_check rnd (of_nat n) (ip, now) m)"
  shows "fst (check rnd ip now l) = fst (plain_check rnd (of_nat n) (ip, now) m) \<and> covers now l' m'
    \<and> fst ` set (buckets l') \<subseteq> C \<and> capacity l' = of_nat n \<and> refill_per_sec l' = rnd (of_nat n / 60)"
proof -
  let ?n = "of_nat n :: rat" and ?k = "maintain ip now l"
  let ?fresh = "\<lparr>tokens = ?n, last_seen = now\<rparr>"
  let ?b = "case map_of (buckets ?k) ip of Some b \<Rightarrow> b | None \<Rightarrow> ?fresh"
  let ?b' = "case m ip of Some b \<Rightarrow> b | None \<Rightarrow> ?fresh"
  let ?ch = "\<lambda>b. charge rnd ?n (rnd (?n / 60)) now b"
  from maintain_covers [OF c] l have k: "covers now ?k m" "fst ` set (buckets ?k) \<subseteq> C" "capacity ?k = ?n" "refill_per_sec ?k = rnd (?n / 60)"
    by auto
  have same: "?ch ?b = ?ch ?b'"
  proof (cases "map_of (buckets ?k) ip = m ip")
    case False
    with k(1) obtain b where b: "map_of (buckets ?k) ip = None" "m ip = Some b" "IDLE_TTL \<le> since now (last_seen b)" "0 \<le> tokens b"
      unfolding covers_def by blast
    then show ?thesis using charge_idle [OF r b(3) n b(4)] by simp
  qed simp
  have "0 \<le> tokens ?b'" using k(1) by (auto simp: covers_def split: option.splits)
  moreover have "0 \<le> rnd (?n / 60)" by (intro rnd_nonneg [OF r]) simp_all
  ultimately have pos: "0 \<le> tokens (snd (?ch ?b'))" by (intro charge_nonneg [OF r]) simp_all
  have l': "l' = ?k\<lparr>buckets := AList.update ip (snd (?ch ?b')) (buckets ?k)\<rparr>"
    unfolding l'_def check_def Let_def k(3,4) same by (simp add: split_beta)
  have m': "m' = m(ip \<mapsto> snd (?ch ?b'))" unfolding m'_def plain_check_def Let_def by (simp add: split_beta)
  have "fst (check rnd ip now l) = fst (?ch ?b')" unfolding check_def Let_def k(3,4) same by (simp add: split_beta)
  moreover have "fst (plain_check rnd ?n (ip, now) m) = fst (?ch ?b')" unfolding plain_check_def Let_def by (simp add: split_beta)
  moreover have "covers now l' m'"
    using k(1) pos unfolding covers_def l' m' by (auto simp: map_of_update)
  ultimately show ?thesis using k c(3) by (auto simp: l' dom_update)
qed


lemma trace_covers:
  assumes "f64_rounding rnd" "0 < n" "n < 2 ^ 53" "finite C" "card C \<le> MAX_BUCKETS"
    and "fst ` set reqs \<subseteq> C" "sorted (map snd reqs)" "\<forall>t \<in> set (map snd reqs). now \<le> t"
    and "covers now l m" "fst ` set (buckets l) \<subseteq> C" "capacity l = of_nat n" "refill_per_sec l = rnd (of_nat n / 60)"
  shows "trace (step rnd) reqs l = trace (plain_check rnd (of_nat n)) reqs m"
  using assms(6-12)
proof (induction reqs arbitrary: now l m)
  case (Cons req reqs)
  obtain ip t where req: "req = (ip, t)" by (cases req)
  have "now \<le> t" using Cons.prems(3) req by simp
  with Cons.prems(4) have t: "covers t l m" by (rule covers_later)
  have ip: "ip \<in> C" using Cons.prems(1) req by simp
  note c = check_covers [OF assms(1-3) t Cons.prems(5) ip assms(4,5) Cons.prems(6,7)]
  have "trace (step rnd) reqs (snd (check rnd ip t l)) = trace (plain_check rnd (of_nat n)) reqs (snd (plain_check rnd (of_nat n) (ip, t) m))"
  proof (rule Cons.IH)
    show "covers t (snd (check rnd ip t l)) (snd (plain_check rnd (of_nat n) (ip, t) m))" using c by blast
    show "fst ` set reqs \<subseteq> C" "sorted (map snd reqs)" "\<forall>u \<in> set (map snd reqs). t \<le> u"
      using Cons.prems(1,2) req by simp_all
  qed (use c in blast)+
  moreover have "step rnd req l = check rnd ip t l" by (simp add: step_def req)
  ultimately show ?case using c by (simp add: req)
qed simp

text \<open>A client's own bucket knows nothing of the others.\<close>

lemma plain_alone:
  "m c = m' c \<Longrightarrow> filter (\<lambda>(req, ok). fst req = c) (trace (plain_check rnd n) reqs m)
     = trace (plain_check rnd n) (filter (\<lambda>req. fst req = c) reqs) m'"
proof (induction reqs arbitrary: m m')
  case (Cons req reqs)
  obtain ip t where req: "req = (ip, t)" by (cases req)
  show ?case
  proof (cases "ip = c")
    case True
    have same: "fst (plain_check rnd n req m) = fst (plain_check rnd n req m')"
      "snd (plain_check rnd n req m) c = snd (plain_check rnd n req m') c"
      using Cons.prems True by (simp_all add: plain_check_def Let_def req split_beta)
    have "filter (\<lambda>(req, ok). fst req = c) (trace (plain_check rnd n) reqs (snd (plain_check rnd n req m)))
        = trace (plain_check rnd n) (filter (\<lambda>req. fst req = c) reqs) (snd (plain_check rnd n req m'))"
      by (rule Cons.IH) (rule same(2))
    with same(1) True req show ?thesis by simp
  next
    case False
    then have "snd (plain_check rnd n req m) c = m' c" using Cons.prems by (simp add: plain_check_def Let_def req split_beta)
    then have "filter (\<lambda>(req, ok). fst req = c) (trace (plain_check rnd n) reqs (snd (plain_check rnd n req m)))
        = trace (plain_check rnd n) (filter (\<lambda>req. fst req = c) reqs) m'"
      by (rule Cons.IH)
    with False req show ?thesis by simp
  qed
qed simp

text \<open>C19. Each client is metered on its own requests alone, as if nothing were ever forgotten: while no more
  than \<open>MAX_BUCKETS\<close> addresses ask, what the limiter answers one of them, with all its pruning and
  whoever else asks, is what a bucket that serves only it and is never dropped answers.\<close>
theorem clients_are_metered_alone:
  assumes "f64_rounding rnd" "0 < n" "n < 2 ^ 53" "sorted (map snd reqs)" "card (fst ` set reqs) \<le> MAX_BUCKETS"
  shows "filter (\<lambda>(req, ok). fst req = c) (trace (step rnd) reqs (per_minute rnd (of_nat n)))
       = trace (plain_check rnd (of_nat n)) (filter (\<lambda>req. fst req = c) reqs) Map.empty"
proof -
  let ?now = "Min (insert 0 (snd ` set reqs))"
  have "trace (step rnd) reqs (per_minute rnd (of_nat n)) = trace (plain_check rnd (of_nat n)) reqs Map.empty"
    using assms by (intro trace_covers [of rnd n "fst ` set reqs" reqs ?now]) (auto simp: covers_def per_minute_def)
  then show ?thesis using plain_alone [of Map.empty c Map.empty rnd "of_nat n" reqs] by simp
qed

text \<open>Rounding down to a multiple of \<open>2 ^ -60\<close> is such a rounding.\<close>

lemma floor_rounding: "f64_rounding (\<lambda>x. of_int \<lfloor>x * 2 ^ 60\<rfloor> / 2 ^ 60)"
proof -
  have a: "(of_int \<lfloor>x * 2 ^ 60\<rfloor> :: rat) / 2 ^ 60 \<le> of_int \<lfloor>y * 2 ^ 60\<rfloor> / 2 ^ 60" if "x \<le> y" for x y :: rat
    using that by (intro divide_right_mono) (simp_all add: floor_mono)
  have b: "(of_int \<lfloor>of_nat n * (2 ^ 60 :: rat)\<rfloor> :: rat) / 2 ^ 60 = of_nat n" for n
  proof -
    have "\<lfloor>of_nat n * (2 ^ 60 :: rat)\<rfloor> = int n * 2 ^ 60"
      by (metis floor_of_int of_int_mult of_int_numeral of_int_of_nat_eq of_int_power)
    then show ?thesis by simp
  qed
  have d: "x / 2 \<le> (of_int \<lfloor>x * 2 ^ 60\<rfloor> :: rat) / 2 ^ 60" if "1 / 64 \<le> x" for x :: rat
  proof -
    have "x * 2 ^ 60 < of_int \<lfloor>x * 2 ^ 60\<rfloor> + 1" by linarith
    then show ?thesis using that by (simp add: field_simps)
  qed
  show ?thesis unfolding f64_rounding_def using a b d by blast
qed

theorem clients_are_metered_alone_witness:
  "filter (\<lambda>(req, ok). fst req = V4 1)
     (trace (step (\<lambda>x. of_int \<lfloor>x * 2 ^ 60\<rfloor> / 2 ^ 60)) [(V4 1, 0), (V4 2, secs 1), (V4 1, secs 130)]
       (per_minute (\<lambda>x. of_int \<lfloor>x * 2 ^ 60\<rfloor> / 2 ^ 60) (of_nat 10)))
   = trace (plain_check (\<lambda>x. of_int \<lfloor>x * 2 ^ 60\<rfloor> / 2 ^ 60) (of_nat 10)) [(V4 1, 0), (V4 1, secs 130)] Map.empty"
proof -
  let ?reqs = "[(V4 1, 0), (V4 2, secs 1), (V4 1, secs 130)]"
  have mine: "filter (\<lambda>req. fst req = V4 1) ?reqs = [(V4 1, 0), (V4 1, secs 130)]" by simp
  have "card (fst ` set ?reqs) \<le> length ?reqs" by (metis card_length length_map set_map)
  then have few: "card (fst ` set ?reqs) \<le> MAX_BUCKETS" by (simp add: MAX_BUCKETS_def)
  have "sorted (map snd ?reqs)" by (simp add: secs_def)
  from clients_are_metered_alone [OF floor_rounding _ _ this few, of 10 "V4 1"] show ?thesis unfolding mine by simp
qed

end
