(* ===== verification/Client_Address.thy ===== *)
theory Client_Address
  imports Prelude Rust_Text
begin

text \<open>
  Which client a request is metered under: the walk over \<open>X-Forwarded-For\<close>
  (\<open>squelch-ratelimit/src/lib.rs\<close>), and the blocks of addresses the relay trusts as proxies
  (\<open>squelch-relay/src/config.rs\<close>, \<open>ratelimit.rs\<close>).

  \<open>HeaderValue::to_str\<close>, the parsers of \<open>IpAddr\<close>, \<open>SocketAddr\<close> and \<open>u8\<close> are the arguments \<open>to_str\<close>,
  \<open>parse_ip\<close>, \<open>parse_socket\<close> and \<open>parse_u8\<close>; the header's values are a list, in the order \<open>get_all\<close> has.
\<close>

unbundle bit_operations_syntax

section \<open>The header\<close>

definition strip_both :: "char \<Rightarrow> char \<Rightarrow> string \<Rightarrow> string option" where
  "strip_both a b s = (case s of [] \<Rightarrow> None
     | c # cs \<Rightarrow> if c = a then strip_suffix cs [b] else None)"

definition parse_entry :: "(string \<Rightarrow> ip_addr option) \<Rightarrow> (string \<Rightarrow> (ip_addr \<times> nat) option) \<Rightarrow> string \<Rightarrow> ip_addr option" where
  "parse_entry parse_ip parse_socket entry =
     (case parse_ip entry of Some ip \<Rightarrow> Some ip
      | None \<Rightarrow> (case parse_socket entry of Some (ip, _) \<Rightarrow> Some ip
      | None \<Rightarrow> (case strip_both CHR ''['' CHR '']'' entry of None \<Rightarrow> None | Some inner \<Rightarrow> parse_ip inner)))"

definition entries :: "('v \<Rightarrow> string option) \<Rightarrow> 'v list \<Rightarrow> string list" where
  "entries to_str hs = filter (\<lambda>e. e \<noteq> []) (map trim (concat (map (split_on CHR '','') (List.map_filter to_str hs))))"

text \<open>The \<open>VecDeque\<close> of the last \<open>hops\<close> entries.\<close>

definition push_tail :: "nat \<Rightarrow> string \<Rightarrow> string list \<Rightarrow> string list" where
  "push_tail hops e tail = (if length tail = hops then tl tail else tail) @ [e]"

definition forwarded_for_ip ::
    "('v \<Rightarrow> string option) \<Rightarrow> (string \<Rightarrow> ip_addr option) \<Rightarrow> (string \<Rightarrow> (ip_addr \<times> nat) option)
     \<Rightarrow> 'v list \<Rightarrow> ip_addr \<Rightarrow> nat \<Rightarrow> ip_addr" where
  "forwarded_for_ip to_str parse_ip parse_socket hs peer hops =
     (if hops = 0 then peer
      else let tail = fold (push_tail hops) (entries to_str hs) []
           in if length tail < hops then peer
              else case (case tail of [] \<Rightarrow> None | e # _ \<Rightarrow> parse_entry parse_ip parse_socket e) of
                     Some ip \<Rightarrow> ip | None \<Rightarrow> peer)"

section \<open>Blocks of addresses\<close>

definition octets :: "nat \<Rightarrow> 'a::len word \<Rightarrow> 8 word list" where
  "octets n w = map (\<lambda>i. ucast (drop_bit (8 * (n - 1 - i)) w)) [0..<n]"

text \<open>\<open>IpAddr::to_canonical\<close>: an IPv4-mapped address is the IPv4 address.\<close>

definition mapped :: "128 word \<Rightarrow> bool" where
  "mapped w \<longleftrightarrow> drop_bit 32 w = 0xFFFF"

definition to_canonical :: "ip_addr \<Rightarrow> ip_addr" where
  "to_canonical ip = (case ip of V4 w \<Rightarrow> V4 w | V6 w \<Rightarrow> if mapped w then V4 (ucast w) else V6 w)"

definition is_ipv4 :: "ip_addr \<Rightarrow> bool" where
  "is_ipv4 ip = (case ip of V4 _ \<Rightarrow> True | V6 _ \<Rightarrow> False)"

record cidr =
  addr :: ip_addr
  bits :: nat

definition prefix_eq :: "8 word list \<Rightarrow> 8 word list \<Rightarrow> nat \<Rightarrow> bool" where
  "prefix_eq net ip n =
     (let whole = n div 8
      in if take whole net \<noteq> take whole ip then False
         else let rest = n mod 8
              in rest = 0 \<or> (net ! whole XOR ip ! whole) AND push_bit (8 - rest) 0xFF = 0)"

definition cidr_contains :: "cidr \<Rightarrow> ip_addr \<Rightarrow> bool" where
  "cidr_contains c ip =
     (case (addr c, to_canonical ip) of
        (V4 net, V4 ip) \<Rightarrow> prefix_eq (octets 4 net) (octets 4 ip) (bits c)
      | (V6 net, V6 ip) \<Rightarrow> prefix_eq (octets 16 net) (octets 16 ip) (bits c)
      | _ \<Rightarrow> False)"

text \<open>\<open>Cidr::parse\<close>, first the text, then the block it names.\<close>

definition read_cidr :: "(string \<Rightarrow> ip_addr option) \<Rightarrow> (string \<Rightarrow> nat option) \<Rightarrow> string \<Rightarrow> (ip_addr \<times> nat option) option" where
  "read_cidr parse_ip parse_u8 s =
     (if CHR ''/'' \<in> set s then
        (case parse_ip (trim (takeWhile (\<lambda>c. c \<noteq> CHR ''/'') s)) of None \<Rightarrow> None
         | Some a \<Rightarrow> (case parse_u8 (trim (tl (dropWhile (\<lambda>c. c \<noteq> CHR ''/'') s))) of None \<Rightarrow> None | Some b \<Rightarrow> Some (a, Some b)))
      else map_option (\<lambda>a. (a, None)) (parse_ip (trim s)))"

definition block_of :: "ip_addr \<Rightarrow> nat option \<Rightarrow> cidr option" where
  "block_of a b =
     (let width = (if is_ipv4 a then 32 else 128);
          n = (case b of Some b \<Rightarrow> b | None \<Rightarrow> width)
      in if width < n then None
         else case to_canonical a of
                V4 v4 \<Rightarrow> if \<not> is_ipv4 a then (if n < 96 then None else Some \<lparr>addr = V4 v4, bits = n - 96\<rparr>)
                         else Some \<lparr>addr = a, bits = n\<rparr>
              | V6 _ \<Rightarrow> Some \<lparr>addr = a, bits = n\<rparr>)"

definition cidr_parse :: "(string \<Rightarrow> ip_addr option) \<Rightarrow> (string \<Rightarrow> nat option) \<Rightarrow> string \<Rightarrow> cidr option" where
  "cidr_parse parse_ip parse_u8 s =
     (case read_cidr parse_ip parse_u8 s of None \<Rightarrow> None | Some (a, b) \<Rightarrow> block_of a b)"

definition DEFAULT_TRUSTED_PROXY_CIDRS :: "cidr list" where
  "DEFAULT_TRUSTED_PROXY_CIDRS =
     [\<lparr>addr = V4 0x7F000000, bits = 8\<rparr>, \<lparr>addr = V6 1, bits = 128\<rparr>, \<lparr>addr = V4 0x0A000000, bits = 8\<rparr>,
      \<lparr>addr = V4 0xAC100000, bits = 12\<rparr>, \<lparr>addr = V4 0xC0A80000, bits = 16\<rparr>, \<lparr>addr = V6 (push_bit 112 0xFC00), bits = 7\<rparr>]"

datatype config_error = InvalidEntry string | EmptyList

fun collect_cidrs :: "(string \<Rightarrow> cidr option) \<Rightarrow> string list \<Rightarrow> cidr list \<Rightarrow> config_error + cidr list" where
  "collect_cidrs parse [] cidrs = Inr cidrs"
| "collect_cidrs parse (e # es) cidrs =
     (case parse e of None \<Rightarrow> Inl (InvalidEntry e) | Some c \<Rightarrow> collect_cidrs parse es (cidrs @ [c]))"

definition parse_cidrs :: "(string \<Rightarrow> ip_addr option) \<Rightarrow> (string \<Rightarrow> nat option) \<Rightarrow> string \<Rightarrow> config_error + cidr list" where
  "parse_cidrs parse_ip parse_u8 raw =
     (case collect_cidrs (cidr_parse parse_ip parse_u8) (filter (\<lambda>e. e \<noteq> []) (map trim (split_on CHR '','' raw))) [] of
        Inl e \<Rightarrow> Inl e
      | Inr cidrs \<Rightarrow> if cidrs = [] then Inl EmptyList else Inr cidrs)"

definition proxy_allowlist :: "cidr list option \<Rightarrow> cidr list" where
  "proxy_allowlist trusted_proxy_cidrs = (case trusted_proxy_cidrs of Some cs \<Rightarrow> cs | None \<Rightarrow> DEFAULT_TRUSTED_PROXY_CIDRS)"

text \<open>The relay reads the header of a trusted peer only.\<close>

definition client_ip ::
    "('v \<Rightarrow> string option) \<Rightarrow> (string \<Rightarrow> ip_addr option) \<Rightarrow> (string \<Rightarrow> (ip_addr \<times> nat) option)
     \<Rightarrow> 'v list \<Rightarrow> ip_addr \<Rightarrow> nat \<Rightarrow> cidr list \<Rightarrow> ip_addr" where
  "client_ip to_str parse_ip parse_socket hs peer hops trusted =
     (if \<not> list_ex (\<lambda>c. cidr_contains c peer) trusted then peer
      else forwarded_for_ip to_str parse_ip parse_socket hs peer hops)"


section \<open>The entry that counts\<close>

lemma push_tail_full:
  assumes "0 < hops"
  shows "fold (push_tail hops) es (drop (length ds - hops) ds) = drop (length (ds @ es) - hops) (ds @ es)"
proof (induction es arbitrary: ds)
  case (Cons e es)
  let ?t = "drop (length ds - hops) ds"
  have "push_tail hops e ?t = drop (length (ds @ [e]) - hops) (ds @ [e])"
  proof (cases "hops \<le> length ds")
    case True
    then have "Suc (length ds) - hops = Suc (length ds - hops)" by simp
    with True assms show ?thesis by (simp add: push_tail_def drop_Suc tl_drop)
  next
    case False
    then show ?thesis by (simp add: push_tail_def)
  qed
  then show ?case using Cons [of "ds @ [e]"] by simp
qed simp

lemma forwarded_for_ip_eq:
  "forwarded_for_ip to_str parse_ip parse_socket hs peer hops =
     (let es = entries to_str hs
      in if hops = 0 \<or> length es < hops then peer
         else case parse_entry parse_ip parse_socket (es ! (length es - hops)) of Some ip \<Rightarrow> ip | None \<Rightarrow> peer)"
proof (cases "hops = 0")
  case False
  let ?es = "entries to_str hs"
  have t: "fold (push_tail hops) ?es [] = drop (length ?es - hops) ?es"
    using push_tail_full [of hops ?es "[]"] False by simp
  show ?thesis
  proof (cases "length ?es < hops")
    case True
    then show ?thesis using False by (simp add: forwarded_for_ip_def t Let_def)
  next
    case f: False
    then have "drop (length ?es - hops) ?es = ?es ! (length ?es - hops) # drop (Suc (length ?es - hops)) ?es"
      using False by (simp add: Cons_nth_drop_Suc)
    with f False show ?thesis by (simp add: forwarded_for_ip_def t Let_def)
  qed
qed (simp add: forwarded_for_ip_def)


lemma entries_append: "entries to_str (a @ b) = entries to_str a @ entries to_str b"
  by (simp add: entries_def List.map_filter_def)






text \<open>The header as bytes: \<open>to_str\<close> gives a value only when all of it is visible ASCII or a tab.\<close>

definition visible_str :: "string \<Rightarrow> string option" where
  "visible_str s = (if list_all (\<lambda>c. 32 \<le> cp c \<and> cp c < 127 \<or> cp c = 9) s then Some s else None)"

text \<open>C40. One byte outside visible ASCII, in front of what the first proxy appends, hands the choice to the caller:
  the whole line is passed over, the proxy's entry with it, and an entry of an earlier line, which the caller
  wrote, is the one that counts, whatever address it names and whatever else the caller sends.\<close>
theorem unreadable_line_hands_over_the_key:
  assumes "to_str v = None" "to_str line = Some e" "CHR '','' \<notin> set e" "trim e \<noteq> []" "parse_ip (trim e) = Some chosen"
    "hops = Suc (length (entries to_str infra))"
  shows "forwarded_for_ip to_str parse_ip parse_socket (caller @ [line, v] @ infra) peer hops = chosen"
proof -
  have "split_on CHR '','' e = [e]" using assms(3) by (induction e) auto
  then have "entries to_str [line, v] = [trim e]" using assms(1,2,4) by (simp add: entries_def List.map_filter_simps)
  then have all: "entries to_str (caller @ [line, v] @ infra) = entries to_str caller @ trim e # entries to_str infra"
    unfolding entries_append by simp
  show ?thesis
    unfolding forwarded_for_ip_eq Let_def all by (simp add: assms(6) nth_append parse_entry_def assms(5))
qed

theorem unreadable_line_hands_over_the_key_witness:
  "forwarded_for_ip visible_str (\<lambda>s. if s = ''203.0.113.66'' then Some (V4 0xCB007142) else None) (\<lambda>_. None)
     [''203.0.113.66'', CHR 0xE9 # '', 192.0.2.1''] (V4 1) 1 = V4 0xCB007142"
proof -
  have v: "visible_str (CHR 0xE9 # '', 192.0.2.1'') = None" "visible_str ''203.0.113.66'' = Some ''203.0.113.66''"
    "trim ''203.0.113.66'' = ''203.0.113.66''" "1 = Suc (length (entries visible_str []))" by code_simp+
  show ?thesis
    using unreadable_line_hands_over_the_key [where caller = "[]" and infra = "[]", OF v(1,2) _ _ _ v(4)] by (simp add: v(3))
qed

section \<open>What a block contains\<close>

lemma length_octets [simp]: "length (octets n w) = n"
  by (simp add: octets_def)

lemma bit_octet: "i < n \<Longrightarrow> j < 8 \<Longrightarrow> bit (octets n w ! i) j = bit w (8 * (n - 1 - i) + j)"
  by (simp add: octets_def bit_ucast_iff bit_drop_bit_eq)

lemma octet_eqI: "(x :: 8 word) = y \<longleftrightarrow> (\<forall>j < 8. bit x j = bit y j)"
  by (auto intro: bit_word_eqI)

lemma octet_eq_iff:
  fixes v w :: "'a::len word"
  assumes "i < n"
  shows "octets n v ! i = octets n w ! i \<longleftrightarrow> (\<forall>j < 8. bit v (8 * (n - 1 - i) + j) = bit w (8 * (n - 1 - i) + j))"
  using assms by (simp add: octet_eqI bit_octet)

lemma masked_eq_iff:
  fixes x y :: "8 word"
  assumes "r \<le> 8"
  shows "(x XOR y) AND push_bit (8 - r) 0xFF = 0 \<longleftrightarrow> (\<forall>j < 8. 8 - r \<le> j \<longrightarrow> bit x j = bit y j)"
proof -
  have "bit (push_bit (8 - r) (0xFF :: 8 word)) j \<longleftrightarrow> 8 - r \<le> j" if "j < 8" for j
  proof -
    have "(0xFF :: 8 word) = -1" by simp
    then show ?thesis using that by (simp only: bit_push_bit_iff bit_minus_1_iff) auto
  qed
  then show ?thesis by (auto simp: octet_eqI bit_and_iff bit_xor_iff)
qed

lemma take_eq_iff: "n \<le> length xs \<Longrightarrow> n \<le> length ys \<Longrightarrow> take n xs = take n ys \<longleftrightarrow> (\<forall>i < n. xs ! i = ys ! i)"
  by (auto simp: list_eq_iff_nth_eq)

text \<open>Counting bits from the top, through the octets.\<close>

lemma all_bits_of_octets:
  fixes n q :: nat
  assumes "q \<le> n"
  shows "(\<forall>i < q. \<forall>j < 8. P (8 * (n - 1 - i) + j)) \<longleftrightarrow> (\<forall>k < 8 * q. P (8 * n - 1 - k))" (is "?L \<longleftrightarrow> ?R")
proof
  assume h: ?L
  show ?R
  proof (intro allI impI)
    fix k assume k: "k < 8 * q"
    obtain i j :: nat where ij: "k = 8 * i + j" "j < 8" by (metis mult_div_mod_eq mod_less_divisor zero_less_numeral)
    have "i < q" and e: "8 * (n - 1 - i) + (7 - j) = 8 * n - 1 - k" using k ij assms by arith+
    from h this(1) have "P (8 * (n - 1 - i) + (7 - j))" by simp
    then show "P (8 * n - 1 - k)" unfolding e .
  qed
next
  assume h: ?R
  show ?L
  proof (intro allI impI)
    fix i j :: nat assume ij: "i < q" "j < 8"
    have "8 * i + (7 - j) < 8 * q" and e: "8 * n - 1 - (8 * i + (7 - j)) = 8 * (n - 1 - i) + j" using ij assms by arith+
    from h this(1) have "P (8 * n - 1 - (8 * i + (7 - j)))" by blast
    then show "P (8 * (n - 1 - i) + j)" unfolding e .
  qed
qed

lemma high_bits_of_octet:
  fixes n q r :: nat
  assumes "q < n" "r < 8"
  shows "(\<forall>j < 8. 8 - r \<le> j \<longrightarrow> P (8 * (n - 1 - q) + j)) \<longleftrightarrow> (\<forall>k < r. P (8 * n - 1 - (8 * q + k)))" (is "?L \<longleftrightarrow> ?R")
proof
  assume h: ?L
  show ?R
  proof (intro allI impI)
    fix k assume k: "k < r"
    have e: "8 * (n - 1 - q) + (7 - k) = 8 * n - 1 - (8 * q + k)" and j: "7 - k < 8" "8 - r \<le> 7 - k" using k assms by arith+
    from h j have "P (8 * (n - 1 - q) + (7 - k))" by blast
    then show "P (8 * n - 1 - (8 * q + k))" unfolding e .
  qed
next
  assume h: ?R
  show ?L
  proof (intro allI impI)
    fix j :: nat assume j: "j < 8" "8 - r \<le> j"
    have e: "8 * n - 1 - (8 * q + (7 - j)) = 8 * (n - 1 - q) + j" and k: "7 - j < r" using j assms by arith+
    from h k have "P (8 * n - 1 - (8 * q + (7 - j)))" by blast
    then show "P (8 * (n - 1 - q) + j)" unfolding e .
  qed
qed

lemma all_less_split: "(\<forall>k < a + b. P k) \<longleftrightarrow> (\<forall>k < a. P k) \<and> (\<forall>k < b. P (a + k))" for a b :: nat
  by (metis add_less_cancel_left less_diff_conv2 linorder_not_less le_add_diff_inverse trans_less_add1)

lemma prefix_eq_octets:
  fixes v w :: "'a::len word"
  assumes "b \<le> 8 * n"
  shows "prefix_eq (octets n v) (octets n w) b \<longleftrightarrow> (\<forall>k < b. bit v (8 * n - 1 - k) = bit w (8 * n - 1 - k))"
proof -
  define q r where "q = b div 8" and "r = b mod 8"
  have b: "b = 8 * q + r" "r < 8" by (simp_all add: q_def r_def)
  have q: "q \<le> n" "r \<noteq> 0 \<Longrightarrow> q < n" using b assms by arith+
  let ?same = "\<lambda>p. bit v p = bit w p"
  have "take q (octets n v) = take q (octets n w) \<longleftrightarrow> (\<forall>k < 8 * q. ?same (8 * n - 1 - k))"
    using q(1) all_bits_of_octets [of q n ?same] by (simp add: take_eq_iff octet_eq_iff)
  moreover have "(octets n v ! q XOR octets n w ! q) AND push_bit (8 - r) 0xFF = 0 \<longleftrightarrow> (\<forall>k < r. ?same (8 * n - 1 - (8 * q + k)))"
    if "r \<noteq> 0"
    using q(2) [OF that] b(2) high_bits_of_octet [of q n r ?same] by (simp add: masked_eq_iff bit_octet)
  moreover have "prefix_eq (octets n v) (octets n w) b \<longleftrightarrow> take q (octets n v) = take q (octets n w)
      \<and> (r = 0 \<or> (octets n v ! q XOR octets n w ! q) AND push_bit (8 - r) 0xFF = 0)"
    by (simp add: prefix_eq_def q_def r_def Let_def)
  moreover have "(\<forall>k < b. ?same (8 * n - 1 - k)) \<longleftrightarrow> (\<forall>k < 8 * q. ?same (8 * n - 1 - k)) \<and> (\<forall>k < r. ?same (8 * n - 1 - (8 * q + k)))"
    unfolding b(1) by (rule all_less_split)
  ultimately show ?thesis by (cases "r = 0") simp_all
qed


text \<open>Every address as 128 bits, and a prefix length counted on them.\<close>

definition wide :: "ip_addr \<Rightarrow> 128 word" where
  "wide ip = (case ip of V4 w \<Rightarrow> push_bit 32 (mask 16) OR ucast w | V6 w \<Rightarrow> w)"

definition wide_length :: "ip_addr \<Rightarrow> nat option \<Rightarrow> nat" where
  "wide_length a b = (case b of None \<Rightarrow> 128 | Some n \<Rightarrow> if is_ipv4 a then n + 96 else n)"

lemma bit_mask_16: "bit (mask 16 :: 128 word) k \<longleftrightarrow> k < 16"
  by (simp only: bit_mask_iff possible_bit_word) auto

lemma bit_wide_V4:
  "bit (wide (V4 w)) p \<longleftrightarrow> (if p < 32 then bit w p else p < 48)"
proof -
  have "bit (push_bit 32 (mask 16 :: 128 word)) p \<longleftrightarrow> 32 \<le> p \<and> p < 128 \<and> p < 48"
    by (simp only: bit_push_bit_iff bit_mask_16 possible_bit_word) auto
  moreover have "bit (ucast w :: 128 word) p \<longleftrightarrow> p < 32 \<and> bit w p"
    using bit_imp_le_length [of w p] by (auto simp: bit_ucast_iff)
  ultimately show ?thesis unfolding wide_def ip_addr.case bit_or_iff by auto
qed

lemma wide_canonical: "wide (to_canonical ip) = wide ip"
proof (cases ip)
  case (V6 w)
  have "wide (V4 (ucast w)) = w" if m: "mapped w"
  proof (rule bit_word_eqI)
    fix p assume "p < LENGTH(128)"
    have "drop_bit 32 w = mask 16" using m unfolding mapped_def by (simp add: mask_eq_exp_minus_1)
    then have "bit (drop_bit 32 w) (p - 32) \<longleftrightarrow> p - 32 < 16" by (simp only: bit_mask_16)
    then have "32 \<le> p \<Longrightarrow> bit w p \<longleftrightarrow> p < 48" by (auto simp: bit_drop_bit_eq)
    then show "bit (wide (V4 (ucast w))) p \<longleftrightarrow> bit w p" by (auto simp: bit_wide_V4 bit_ucast_iff)
  qed
  then show ?thesis using V6 by (simp add: to_canonical_def wide_def)
qed (simp add: to_canonical_def)

lemma top_bits_iff:
  fixes v w :: "'a::len word"
  assumes "n \<le> LENGTH('a)"
  shows "drop_bit (LENGTH('a) - n) v = drop_bit (LENGTH('a) - n) w
    \<longleftrightarrow> (\<forall>k < n. bit v (LENGTH('a) - 1 - k) = bit w (LENGTH('a) - 1 - k))"
proof
  assume h: "drop_bit (LENGTH('a) - n) v = drop_bit (LENGTH('a) - n) w"
  show "\<forall>k < n. bit v (LENGTH('a) - 1 - k) = bit w (LENGTH('a) - 1 - k)"
  proof (intro allI impI)
    fix k assume k: "k < n"
    have e: "LENGTH('a) - n + (n - 1 - k) = LENGTH('a) - 1 - k" using k assms by arith
    from arg_cong [OF h, of "\<lambda>x. bit x (n - 1 - k)"] show "bit v (LENGTH('a) - 1 - k) = bit w (LENGTH('a) - 1 - k)"
      unfolding bit_drop_bit_eq o_apply e .
  qed
next
  assume h: "\<forall>k < n. bit v (LENGTH('a) - 1 - k) = bit w (LENGTH('a) - 1 - k)"
  show "drop_bit (LENGTH('a) - n) v = drop_bit (LENGTH('a) - n) w"
  proof (rule bit_word_eqI)
    fix j assume "j < LENGTH('a)"
    show "bit (drop_bit (LENGTH('a) - n) v) j = bit (drop_bit (LENGTH('a) - n) w) j"
    proof (cases "j < n")
      case True
      have e: "LENGTH('a) - 1 - (n - 1 - j) = LENGTH('a) - n + j" using True assms by arith
      have "n - 1 - j < n" using True by simp
      with h have "bit v (LENGTH('a) - 1 - (n - 1 - j)) = bit w (LENGTH('a) - 1 - (n - 1 - j))" by blast
      then show ?thesis unfolding bit_drop_bit_eq o_apply e .
    next
      case False
      then have "LENGTH('a) \<le> LENGTH('a) - n + j" by simp
      then show ?thesis by (auto simp: bit_drop_bit_eq dest: bit_imp_le_length)
    qed
  qed
qed

lemma top_bits_V4:
  assumes "n \<le> 32"
  shows "prefix_eq (octets 4 x) (octets 4 y) n \<longleftrightarrow> drop_bit (32 - n) (wide (V4 x)) = drop_bit (32 - n) (wide (V4 y))"
proof -
  have "(\<forall>k < 96 + n. bit (wide (V4 x)) (127 - k) = bit (wide (V4 y)) (127 - k)) \<longleftrightarrow> (\<forall>k < n. bit x (31 - k) = bit y (31 - k))"
  proof -
    have "bit (wide (V4 x)) (127 - k) = bit (wide (V4 y)) (127 - k)" if "k < 96" for k
    proof -
      have "\<not> 127 - k < 32" using that by simp
      then show ?thesis by (simp add: bit_wide_V4)
    qed
    moreover have "bit (wide (V4 z)) (127 - (96 + k)) = bit z (31 - k)" if "k < n" for z k
      using that assms by (auto simp: bit_wide_V4)
    ultimately show ?thesis unfolding all_less_split by simp
  qed
  with top_bits_iff [of "96 + n" "wide (V4 x)" "wide (V4 y)"] prefix_eq_octets [of n 4 x y] assms show ?thesis by simp
qed

text \<open>A trusted block means what its text says: whichever way the operator wrote it, plain, host route or
  IPv4-mapped, and whichever way the listener reports the peer, the peer is in the block exactly when
  it is of the same family and agrees with the address written on the prefix written.\<close>
theorem block_contains_its_prefix:
  assumes "block_of a b = Some c"
  shows "cidr_contains c ip \<longleftrightarrow> is_ipv4 (to_canonical ip) = is_ipv4 (to_canonical a)
      \<and> drop_bit (128 - wide_length a b) (wide ip) = drop_bit (128 - wide_length a b) (wide a)"
proof -
  note eqs = wide_canonical [of a] wide_canonical [of ip]
  show ?thesis
  proof (cases "to_canonical a")
    case (V4 x)
    with assms have c: "addr c = V4 x" "bits c \<le> 32" "wide_length a b = bits c + 96"
      by (cases a; cases b;  auto simp: block_of_def Let_def is_ipv4_def wide_length_def to_canonical_def split: if_splits)+
    then show ?thesis
      using top_bits_V4 [OF c(2), of x] V4 eqs by (cases "to_canonical ip") (auto simp: cidr_contains_def is_ipv4_def)
  next
    case (V6 w)
    then have a: "a = V6 w" by (cases a) (auto simp: to_canonical_def split: if_splits)
    with assms V6 obtain n where c: "c = \<lparr>addr = V6 w, bits = n\<rparr>" "n \<le> 128" "wide_length a b = n"
      by (cases b) (auto simp: block_of_def Let_def is_ipv4_def wide_length_def split: if_splits)
    have "prefix_eq (octets 16 w) (octets 16 y) n \<longleftrightarrow> drop_bit (128 - n) y = drop_bit (128 - n) w" for y
      using prefix_eq_octets [of n 16 w y] top_bits_iff [of n w y] c(2) by auto
    then show ?thesis using V6 a eqs c(1,3)
      by (cases "to_canonical ip") (auto simp: cidr_contains_def is_ipv4_def wide_def)
  qed
qed

theorem block_contains_its_prefix_witness:
  "cidr_contains \<lparr>addr = V4 0x0A000000, bits = 8\<rparr> (V6 0xFFFF0A010203)
   \<longleftrightarrow> is_ipv4 (to_canonical (V6 0xFFFF0A010203)) = is_ipv4 (to_canonical (V6 0xFFFF0A000000))
      \<and> drop_bit (128 - wide_length (V6 0xFFFF0A000000) (Some 104)) (wide (V6 0xFFFF0A010203))
        = drop_bit (128 - wide_length (V6 0xFFFF0A000000) (Some 104)) (wide (V6 0xFFFF0A000000))"
proof (rule block_contains_its_prefix)
  show "block_of (V6 0xFFFF0A000000) (Some 104) = Some \<lparr>addr = V4 0x0A000000, bits = 8\<rparr>" by code_simp
qed

end
