(* ===== verification/Draft_Files.thy ===== *)
theory Draft_Files
  imports Machine Rust_Text "HOL-Library.Char_ord" "HOL-Library.List_Lexorder"
begin

text \<open>
  Drafts and the files staged for a send (\<open>squelch-core/src/store/sqlite/drafts.rs\<close>, \<open>outbound.rs\<close>), and
  how a send loads the files it names (\<open>load_send_attachments\<close> in \<open>squelch-api/src/handlers.rs\<close>).

  A store method holds the lock and is one step; what a request does in several calls is several
  steps, between which any other may come. Both tables have an \<open>INTEGER PRIMARY KEY\<close> without
  \<open>AUTOINCREMENT\<close>. Timestamps are RFC 3339 text that sorts as the instants do.
\<close>

definition OUTBOUND_UNCLAIMED_TTL :: duration where
  "OUTBOUND_UNCLAIMED_TTL = hours 24"

definition MAX_SEND_ATTACHMENT_BYTES :: int where
  "MAX_SEND_ATTACHMENT_BYTES = 25 * 1024 * 1024"

section \<open>Data\<close>

record attachment_meta =
  m_id :: int
  m_filename :: string
  m_mime :: string
  m_size :: int
  m_cid :: string

record staged =
  a_id :: int
  a_account :: int
  a_draft :: "int option"
  a_filename :: string
  a_mime :: string
  a_size :: int
  a_cid :: string
  a_data :: "8 word list"
  a_created :: instant

record draft_fields =
  f_to :: string
  f_cc :: string
  f_bcc :: string
  f_subject :: string
  f_body :: string

record draft_row =
  r_id :: int
  r_account :: int
  r_reply :: "int option"
  r_fields :: draft_fields
  r_created :: instant
  r_updated :: instant

record draft = draft_row +
  attachments :: "attachment_meta list"

record outbox =
  drafts :: "draft_row list"
  files :: "staged list"

definition map_meta :: "staged \<Rightarrow> attachment_meta" where
  "map_meta a = \<lparr>m_id = a_id a, m_filename = a_filename a, m_mime = a_mime a, m_size = a_size a, m_cid = a_cid a\<rparr>"

section \<open>Staged files\<close>

definition leftover :: "int \<Rightarrow> instant \<Rightarrow> outbox \<Rightarrow> staged \<Rightarrow> bool" where
  "leftover acc now s a \<longleftrightarrow> a_account a = acc
     \<and> (case a_draft a of None \<Rightarrow> a_created a < now - OUTBOUND_UNCLAIMED_TTL
        | Some d \<Rightarrow> \<not> list_ex (\<lambda>r. r_account r = acc \<and> r_id r = d) (drafts s))"

definition sweep :: "int \<Rightarrow> instant \<Rightarrow> outbox \<Rightarrow> outbox" where
  "sweep acc now s = s\<lparr>files := delete_where (leftover acc now s) (files s)\<rparr>"

definition mk_staged :: "int \<Rightarrow> int \<times> string \<times> string \<times> string \<times> 8 word list \<times> instant \<Rightarrow> staged" where
  "mk_staged i = (\<lambda>(acc, name, mime, cid, data, now). \<lparr>a_id = i, a_account = acc, a_draft = None, a_filename = name,
     a_mime = mime, a_size = int (length data), a_cid = cid, a_data = data, a_created = now\<rparr>)"

definition stage_outbound_attachment ::
    "int \<Rightarrow> string \<Rightarrow> string \<Rightarrow> string \<Rightarrow> 8 word list \<Rightarrow> instant \<Rightarrow> outbox \<Rightarrow> attachment_meta \<times> outbox" where
  "stage_outbound_attachment acc name mime cid data now s =
     (let s = sweep acc now s;
          a = mk_staged (fresh_id (map a_id (files s))) (acc, name, mime, cid, data, now)
      in (map_meta a, s\<lparr>files := files s @ [a]\<rparr>))"

definition outbound_attachment :: "int \<Rightarrow> outbox \<Rightarrow> int \<Rightarrow> staged option" where
  "outbound_attachment acc s i = find (\<lambda>a. a_account a = acc \<and> a_id a = i) (files s)"

definition outbound_attachments :: "int \<Rightarrow> int list \<Rightarrow> outbox \<Rightarrow> staged list" where
  "outbound_attachments acc ids s = List.map_filter (outbound_attachment acc s) ids"

definition outbound_attachment_sizes :: "int \<Rightarrow> int list \<Rightarrow> outbox \<Rightarrow> (int \<times> int \<times> string) list" where
  "outbound_attachment_sizes acc ids s =
     List.map_filter (\<lambda>i. map_option (\<lambda>a. (a_id a, a_size a, a_cid a)) (outbound_attachment acc s i)) ids"

definition delete_outbound_attachment :: "int \<Rightarrow> int \<Rightarrow> outbox \<Rightarrow> bool \<times> outbox" where
  "delete_outbound_attachment acc i s =
     (let p = (\<lambda>a. a_account a = acc \<and> a_id a = i)
      in (0 < count_where p (files s), s\<lparr>files := delete_where p (files s)\<rparr>))"

definition delete_outbound_attachments :: "int \<Rightarrow> int list \<Rightarrow> outbox \<Rightarrow> outbox" where
  "delete_outbound_attachments acc ids s = fold (\<lambda>i s. snd (delete_outbound_attachment acc i s)) ids s"

definition claim_one :: "int \<Rightarrow> int \<Rightarrow> int \<Rightarrow> outbox \<Rightarrow> outbox" where
  "claim_one acc d i s =
     s\<lparr>files := update_where (\<lambda>a. a_account a = acc \<and> a_id a = i \<and> a_draft a = None) (\<lambda>a. a\<lparr>a_draft := Some d\<rparr>) (files s)\<rparr>"

definition claim_outbound_attachments :: "int \<Rightarrow> int \<Rightarrow> int list \<Rightarrow> instant \<Rightarrow> outbox \<Rightarrow> outbox" where
  "claim_outbound_attachments acc d ids now s =
     (let s = sweep acc now s;
          s = s\<lparr>files := update_where (\<lambda>a. a_account a = acc \<and> a_draft a = Some d) (\<lambda>a. a\<lparr>a_draft := None\<rparr>) (files s)\<rparr>
      in fold (claim_one acc d) ids s)"

definition draft_attachments :: "int \<Rightarrow> int \<Rightarrow> outbox \<Rightarrow> attachment_meta list" where
  "draft_attachments acc d s =
     map map_meta (sort_key a_id (filter (\<lambda>a. a_account a = acc \<and> a_draft a = Some d) (files s)))"

section \<open>Drafts\<close>

definition mk_draft :: "int \<Rightarrow> int \<times> int option \<times> draft_fields \<times> instant \<Rightarrow> draft_row" where
  "mk_draft i = (\<lambda>(acc, reply, fs, now). \<lparr>r_id = i, r_account = acc, r_reply = reply, r_fields = fs, r_created = now, r_updated = now\<rparr>)"

definition with_files :: "int \<Rightarrow> outbox \<Rightarrow> draft_row \<Rightarrow> draft" where
  "with_files acc s r = draft_row.extend r \<lparr>attachments = draft_attachments acc (r_id r) s\<rparr>"

text \<open>The lookup by key, then an update of the row found or an insert; the answer is read back.\<close>

definition save_row :: "int \<Rightarrow> int option \<Rightarrow> draft_fields \<Rightarrow> instant \<Rightarrow> outbox \<Rightarrow> int \<times> outbox" where
  "save_row acc reply fs now s =
     (case find (\<lambda>r. r_account r = acc \<and> r_reply r = reply) (drafts s) of
        Some r \<Rightarrow> (r_id r, s\<lparr>drafts := update_where (\<lambda>q. r_id q = r_id r) (\<lambda>q. q\<lparr>r_fields := fs, r_updated := now\<rparr>) (drafts s)\<rparr>)
      | None \<Rightarrow> (let i = fresh_id (map r_id (drafts s)) in (i, s\<lparr>drafts := drafts s @ [mk_draft i (acc, reply, fs, now)]\<rparr>)))"

definition upsert_draft :: "int \<Rightarrow> int option \<Rightarrow> draft_fields \<Rightarrow> instant \<Rightarrow> outbox \<Rightarrow> draft option \<times> outbox" where
  "upsert_draft acc reply fs now s =
     (let (i, s) = save_row acc reply fs now s
      in (map_option (with_files acc s) (find (\<lambda>r. r_id r = i) (drafts s)), s))"

definition draft_by_id :: "int \<Rightarrow> int \<Rightarrow> outbox \<Rightarrow> draft option" where
  "draft_by_id acc i s = map_option (with_files acc s) (find (\<lambda>r. r_account r = acc \<and> r_id r = i) (drafts s))"

definition list_drafts :: "int \<Rightarrow> outbox \<Rightarrow> draft list" where
  "list_drafts acc s = map (with_files acc s) (sort_key (\<lambda>r. - r_updated r) (filter (\<lambda>r. r_account r = acc) (drafts s)))"

definition delete_draft :: "int \<Rightarrow> int \<Rightarrow> outbox \<Rightarrow> bool \<times> outbox" where
  "delete_draft acc i s =
     (let s = s\<lparr>files := delete_where (\<lambda>a. a_account a = acc \<and> a_draft a = Some i) (files s)\<rparr>;
          p = (\<lambda>r. r_account r = acc \<and> r_id r = i)
      in (0 < count_where p (drafts s), s\<lparr>drafts := delete_where p (drafts s)\<rparr>))"

text \<open>\<open>PUT /client/drafts\<close>: save, and where the body names files, claim them and read the draft again.\<close>

definition put_draft :: "int \<Rightarrow> int option \<Rightarrow> draft_fields \<Rightarrow> int list option \<Rightarrow> instant \<Rightarrow> outbox \<Rightarrow> draft option \<times> outbox" where
  "put_draft acc reply fs ids now s =
     (let (d, s) = upsert_draft acc reply fs now s
      in case (ids, d) of
           (Some ids, Some dr) \<Rightarrow>
             (let s = claim_outbound_attachments acc (r_id dr) ids now s
              in (case draft_by_id acc (r_id dr) s of Some fresh \<Rightarrow> Some fresh | None \<Rightarrow> d, s))
         | _ \<Rightarrow> (d, s))"

section \<open>What a send carries\<close>

datatype send_error = AttachmentMissing | TooLarge | CidClash

record mail_attachment =
  p_filename :: string
  p_mime :: string
  p_cid :: "string option"
  p_inline :: bool
  p_method :: "string option"
  p_data :: "8 word list"

definition wanted_ids :: "int list \<Rightarrow> int list" where
  "wanted_ids ids = fold (\<lambda>i w. if i \<in> set w then w else w @ [i]) ids []"

fun adjacent_equal :: "'a list \<Rightarrow> bool" where
  "adjacent_equal (a # b # xs) = (a = b \<or> adjacent_equal (b # xs))"
| "adjacent_equal _ = False"

text \<open>The sizes are read first and the rows afterwards, in a later state of the store.\<close>

definition load_send_attachments :: "int \<Rightarrow> int list \<Rightarrow> outbox \<Rightarrow> outbox \<Rightarrow> send_error + mail_attachment list" where
  "load_send_attachments acc ids s s' =
     (if ids = [] then Inr []
      else let wanted = wanted_ids ids; sizes = outbound_attachment_sizes acc wanted s
           in if length sizes \<noteq> length wanted then Inl AttachmentMissing
              else if MAX_SEND_ATTACHMENT_BYTES < sum_list (map (\<lambda>(_, size, _). size) sizes) then Inl TooLarge
              else if adjacent_equal (sort (map (\<lambda>(_, _, cid). cid) sizes)) then Inl CidClash
              else let rows = outbound_attachments acc wanted s'
                   in if length rows \<noteq> length wanted then Inl AttachmentMissing
                      else Inr (map (\<lambda>a. \<lparr>p_filename = a_filename a, p_mime = a_mime a, p_cid = Some (a_cid a),
                                         p_inline = False, p_method = None, p_data = a_data a\<rparr>) rows))"


section \<open>Executions\<close>

datatype op =
    Stage int string string string "8 word list" instant
  | Remove int int
  | Consume int "int list"
  | Claim int int "int list" instant
  | Save int "int option" draft_fields instant
  | Discard int int

datatype answer = Staged attachment_meta | Saved "draft option" | Flag bool | Done

fun step :: "op \<Rightarrow> outbox \<Rightarrow> answer \<times> outbox" where
  "step (Stage acc name mime cid data now) s = map_prod Staged id (stage_outbound_attachment acc name mime cid data now s)"
| "step (Remove acc i) s = map_prod Flag id (delete_outbound_attachment acc i s)"
| "step (Consume acc ids) s = (Done, delete_outbound_attachments acc ids s)"
| "step (Claim acc d ids now) s = (Done, claim_outbound_attachments acc d ids now s)"
| "step (Save acc reply fs now) s = map_prod Saved id (upsert_draft acc reply fs now s)"
| "step (Discard acc i) s = map_prod Flag id (delete_draft acc i s)"

text \<open>The operations that leave file \<open>i\<close> of draft \<open>d\<close> to it: all but its own send, removal, save without it, or discard.\<close>

fun leaves :: "int \<Rightarrow> int \<Rightarrow> int \<Rightarrow> op \<Rightarrow> bool" where
  "leaves acc d i (Remove acc' j) \<longleftrightarrow> \<not> (acc' = acc \<and> j = i)"
| "leaves acc d i (Consume acc' js) \<longleftrightarrow> \<not> (acc' = acc \<and> i \<in> set js)"
| "leaves acc d i (Claim acc' d' js now) \<longleftrightarrow> (acc' = acc \<and> d' = d \<longrightarrow> i \<in> set js)"
| "leaves acc d i (Discard acc' d') \<longleftrightarrow> \<not> (acc' = acc \<and> d' = d)"
| "leaves acc d i _ \<longleftrightarrow> True"

definition has_draft :: "int \<Rightarrow> int \<Rightarrow> outbox \<Rightarrow> bool" where
  "has_draft acc d s \<longleftrightarrow> (\<exists>r \<in> set (drafts s). r_account r = acc \<and> r_id r = d)"

definition holds_file :: "int \<Rightarrow> int \<Rightarrow> staged \<Rightarrow> outbox \<Rightarrow> bool" where
  "holds_file acc d a s \<longleftrightarrow> a \<in> set (files s) \<and> a_account a = acc \<and> a_draft a = Some d \<and> has_draft acc d s"

lemma sweep_drafts [simp]: "drafts (sweep acc now s) = drafts s"
  by (simp add: sweep_def)

lemma sweep_keeps: "holds_file acc d a s \<Longrightarrow> holds_file acc d a (sweep acc' now s)"
  unfolding holds_file_def has_draft_def
  by (auto simp: sweep_def set_delete_where leftover_def list_ex_iff)

lemma fold_delete:
  "drafts (delete_outbound_attachments acc ids s) = drafts s
   \<and> set (files (delete_outbound_attachments acc ids s)) = {a \<in> set (files s). \<not> (a_account a = acc \<and> a_id a \<in> set ids)}"
  unfolding delete_outbound_attachments_def
  by (induction ids arbitrary: s) (auto simp: delete_outbound_attachment_def set_delete_where Let_def)

lemma fold_claim_drafts [simp]: "drafts (fold (claim_one acc d) ids s) = drafts s"
  by (induction ids arbitrary: s) (simp_all add: claim_one_def)

lemma fold_claim_held:
  "a \<in> set (files s) \<Longrightarrow> a_draft a \<noteq> None \<Longrightarrow> a \<in> set (files (fold (claim_one acc d) ids s))"
proof (induction ids arbitrary: s)
  case (Cons i ids)
  then have "a \<in> set (files (claim_one acc d i s))" by (force simp: claim_one_def set_update_where)
  with Cons show ?case by simp
qed simp

lemma fold_claim_takes:
  "a\<lparr>a_draft := None\<rparr> \<in> set (files s) \<Longrightarrow> a_account a = acc \<Longrightarrow> a_draft a = Some d \<Longrightarrow> a_id a \<in> set ids
     \<Longrightarrow> a \<in> set (files (fold (claim_one acc d) ids s))"
proof (induction ids arbitrary: s)
  case (Cons i ids)
  show ?case
  proof (cases "a_id a = i")
    case True
    have a: "(a\<lparr>a_draft := None\<rparr>)\<lparr>a_draft := Some d\<rparr> = a" using Cons.prems(3) by (cases a) simp
    have "a \<in> set (files (claim_one acc d i s))"
      using in_update_where [OF Cons.prems(1), of "\<lambda>a. a_account a = acc \<and> a_id a = i \<and> a_draft a = None" "\<lambda>a. a\<lparr>a_draft := Some d\<rparr>"]
        Cons.prems(2) True by (simp add: claim_one_def a)
    then show ?thesis using Cons.prems(3) by (simp add: fold_claim_held)
  next
    case False
    then have "a\<lparr>a_draft := None\<rparr> \<in> set (files (claim_one acc d i s))"
      using Cons.prems(1) by (force simp: claim_one_def set_update_where)
    with Cons False show ?thesis by simp
  qed
qed simp

lemma claim_keeps:
  assumes "holds_file acc d a s" "leaves acc d (a_id a) (Claim acc' d' ids now)"
  shows "holds_file acc d a (claim_outbound_attachments acc' d' ids now s)"
proof -
  let ?s = "sweep acc' now s"
  let ?r = "?s\<lparr>files := update_where (\<lambda>a. a_account a = acc' \<and> a_draft a = Some d') (\<lambda>a. a\<lparr>a_draft := None\<rparr>) (files ?s)\<rparr>"
  have h: "holds_file acc d a ?s" using assms(1) by (rule sweep_keeps)
  have "a \<in> set (files (fold (claim_one acc' d') ids ?r))"
  proof (cases "acc' = acc \<and> d' = d")
    case True
    then have "a\<lparr>a_draft := None\<rparr> \<in> set (files ?r)" using h by (force simp: holds_file_def set_update_where)
    then show ?thesis using h True assms(2) by (intro fold_claim_takes) (auto simp: holds_file_def)
  next
    case False
    then have "a \<in> set (files ?r)" using h by (force simp: holds_file_def set_update_where)
    then show ?thesis using h by (intro fold_claim_held) (auto simp: holds_file_def)
  qed
  then show ?thesis using h by (simp add: claim_outbound_attachments_def Let_def holds_file_def has_draft_def)
qed

lemma has_draft_update:
  "has_draft acc d s \<Longrightarrow> has_draft acc d (s\<lparr>drafts := update_where p (\<lambda>q. q\<lparr>r_fields := fs, r_updated := now\<rparr>) (drafts s)\<rparr>)"
  unfolding has_draft_def
proof (elim bexE)
  fix r assume r: "r \<in> set (drafts s)" "r_account r = acc \<and> r_id r = d"
  let ?f = "\<lambda>q. q\<lparr>r_fields := fs, r_updated := now\<rparr>"
  show "\<exists>r \<in> set (drafts (s\<lparr>drafts := update_where p ?f (drafts s)\<rparr>)). r_account r = acc \<and> r_id r = d"
    using in_update_where [OF r(1), of p ?f] r(2) by (intro bexI [of _ "if p r then ?f r else r"]) simp_all
qed

lemma save_keeps: "holds_file acc d a s \<Longrightarrow> holds_file acc d a (snd (save_row acc' reply fs now s))"
  using has_draft_update [of acc d s]
  by (cases "find (\<lambda>r. r_account r = acc' \<and> r_reply r = reply) (drafts s)")
    (auto simp: holds_file_def save_row_def Let_def has_draft_def)

lemma step_keeps:
  assumes "holds_file acc d a s" "leaves acc d (a_id a) x"
  shows "holds_file acc d a (snd (step x s))"
proof (cases x)
  case (Stage acc' name mime cid data now)
  then show ?thesis using sweep_keeps [OF assms(1), of acc' now]
    by (simp add: stage_outbound_attachment_def Let_def holds_file_def has_draft_def)
next
  case (Claim acc' d' ids now)
  then show ?thesis using claim_keeps assms by simp
next
  case (Save acc' reply fs now)
  then show ?thesis using save_keeps [OF assms(1)] by (simp add: upsert_draft_def split_beta Let_def)
qed (use assms fold_delete in \<open>auto simp: holds_file_def has_draft_def delete_outbound_attachment_def delete_draft_def set_delete_where Let_def\<close>)

text \<open>C28. A file a draft holds waits for it: whatever else is uploaded, saved, claimed, sent or swept, on this
  account or another, it stays that draft's, unchanged, until it is removed or sent, its draft is saved
  without it, or discarded.\<close>
theorem claimed_file_waits_for_its_draft:
  assumes "holds_file acc d a s" "list_all (leaves acc d (a_id a)) xs"
  shows "holds_file acc d a (final step xs s)"
  using assms by (induction xs arbitrary: s) (auto simp: step_keeps)


theorem claimed_file_waits_for_its_draft_witness:
  defines "fs \<equiv> \<lparr>f_to = ''a@b'', f_cc = [], f_bcc = [], f_subject = ''Hi'', f_body = []\<rparr>"
  defines "a \<equiv> \<lparr>a_id = 1, a_account = 1, a_draft = Some 1, a_filename = ''n.txt'', a_mime = ''text/plain'', a_size = 1,
    a_cid = ''c1'', a_data = [7], a_created = 0\<rparr>"
  defines "s \<equiv> \<lparr>drafts = [mk_draft 1 (1, None, fs, 0)], files = [a]\<rparr>"
  shows "holds_file 1 1 a (final step [Stage 1 ''m.txt'' ''text/plain'' ''c2'' [8] (hours 48), Save 1 (Some 5) fs (hours 48),
    Claim 1 2 [1, 2] (hours 49), Discard 1 2] s)"
proof (rule claimed_file_waits_for_its_draft)
  show "holds_file 1 1 a s" by (simp add: holds_file_def has_draft_def s_def a_def mk_draft_def)
qed (simp add: a_def)

lemma wanted_fold:
  "distinct w \<Longrightarrow> distinct (fold (\<lambda>i w. if i \<in> set w then w else w @ [i]) ids w)
     \<and> set (fold (\<lambda>i w. if i \<in> set w then w else w @ [i]) ids w) = set w \<union> set ids"
  by (induction ids arbitrary: w) auto

lemma wanted_ids: "distinct (wanted_ids ids)" "set (wanted_ids ids) = set ids"
  using wanted_fold [of "[]" ids] by (simp_all add: wanted_ids_def)

lemma map_filter_length: "length (List.map_filter f xs) = length xs \<Longrightarrow> map Some (List.map_filter f xs) = map f xs"
proof (induction xs)
  case (Cons x xs)
  have "length (List.map_filter f xs) \<le> length xs" by (simp add: List.map_filter_def)
  with Cons show ?case by (auto simp: map_filter_simps split: option.splits)
qed (simp add: map_filter_simps)

lemma found_file: "outbound_attachment acc s i = Some a \<Longrightarrow> a \<in> set (files s) \<and> a_account a = acc \<and> a_id a = i"
  unfolding outbound_attachment_def by (auto simp: find_Some_iff)

text \<open>A mail that goes out carries the tray as it was named: one part an id, in the order the ids were
  given, duplicates collapsed, each the file of that id and account, however the store changed between
  the two reads. A file that is missing refuses the whole send.\<close>
theorem send_carries_the_whole_tray:
  assumes "load_send_attachments acc ids s s' = Inr parts"
  shows "distinct (wanted_ids ids) \<and> set (wanted_ids ids) = set ids
    \<and> (\<exists>rows. map a_id rows = wanted_ids ids \<and> set rows \<subseteq> {a \<in> set (files s'). a_account a = acc}
         \<and> map p_data parts = map a_data rows \<and> map p_filename parts = map a_filename rows)"
proof (cases "ids = []")
  case True
  then show ?thesis using assms by (simp add: load_send_attachments_def wanted_ids_def)
next
  case False
  let ?w = "wanted_ids ids" let ?rows = "outbound_attachments acc ?w s'"
  have len: "length ?rows = length ?w" and parts: "map p_data parts = map a_data ?rows" "map p_filename parts = map a_filename ?rows"
    using assms False by (auto simp: load_send_attachments_def Let_def split: if_splits)
  have "map Some ?rows = map (outbound_attachment acc s') ?w"
    using map_filter_length len unfolding outbound_attachments_def by blast
  then have nth: "outbound_attachment acc s' (?w ! k) = Some (?rows ! k)" if "k < length ?w" for k
    using that len by (metis nth_map)
  have row: "?rows ! k \<in> set (files s') \<and> a_account (?rows ! k) = acc \<and> a_id (?rows ! k) = ?w ! k" if "k < length ?w" for k
    using found_file [OF nth [OF that]] .
  have "map a_id ?rows = ?w"
    using row len by (intro nth_equalityI) simp_all
  moreover have "set ?rows \<subseteq> {a \<in> set (files s'). a_account a = acc}"
    using row len by (auto simp: in_set_conv_nth)
  ultimately show ?thesis using parts wanted_ids by blast
qed

theorem send_carries_the_whole_tray_witness:
  defines "a \<equiv> \<lparr>a_id = 1, a_account = 1, a_draft = Some 1, a_filename = ''n.txt'', a_mime = ''text/plain'', a_size = 1,
    a_cid = ''c1'', a_data = [7], a_created = 0\<rparr>"
  defines "s \<equiv> \<lparr>drafts = [], files = [a]\<rparr>"
  shows "set (wanted_ids [1, 1]) = {1 :: int}"
proof -
  have "load_send_attachments 1 [1, 1] s s = Inr [\<lparr>p_filename = ''n.txt'', p_mime = ''text/plain'', p_cid = Some ''c1'',
      p_inline = False, p_method = None, p_data = [7]\<rparr>]"
    unfolding s_def a_def by code_simp
  from send_carries_the_whole_tray [OF this] show ?thesis by simp
qed

text \<open>But an id is not one file for ever: an upload sweeps and then inserts, and may give the file it
  stores the id of one it has just swept, so a composer left open over the night sends a file
  that another composer staged, which its writer never attached.\<close>
theorem swept_id_names_another_file:
  "let (mine, s) = stage_outbound_attachment 1 ''minutes.txt'' ''text/plain'' ''c1'' [1] 0 \<lparr>drafts = [], files = []\<rparr>;
       (theirs, s') = stage_outbound_attachment 1 ''salaries.txt'' ''text/plain'' ''c2'' [2] (hours 25) s
   in m_id theirs = m_id mine
      \<and> load_send_attachments 1 [m_id mine] s' s' = Inr [\<lparr>p_filename = ''salaries.txt'', p_mime = ''text/plain'',
           p_cid = Some ''c2'', p_inline = False, p_method = None, p_data = [2]\<rparr>]"
  by code_simp

end
