(* ===== verification/Send_Groups.thy ===== *)
theory Send_Groups
  imports Machine Rust_Text Rows "HOL-Library.Char_ord" "HOL-Library.List_Lexorder"
begin

text \<open>
  Send groups: named audiences, their members and the history of what was sent to them
  (\<open>squelch-core/src/store/sqlite/groups.rs\<close>), and the fan-out that writes to each member in turn
  (\<open>squelch-api/src/group_send.rs\<close>).

  A store method is one step. \<open>send_groups.id\<close> and \<open>group_sends.id\<close> are \<open>INTEGER PRIMARY KEY\<close> without
  \<open>AUTOINCREMENT\<close>. What Gmail answers to one message of a fan-out, and the local id of its echoed copy,
  is the argument \<open>send\<close>. Rows that an \<open>ORDER BY\<close> leaves tied come in the order they were stored.
\<close>

definition MAX_GROUP_MEMBERS :: nat where
  "MAX_GROUP_MEMBERS = 100"

section \<open>Text\<close>

definition group_slug :: "string \<Rightarrow> string" where
  "group_slug name = join '' '' (map to_ascii_lowercase (split_whitespace name))"

definition normalize_addr :: "string \<Rightarrow> string" where
  "normalize_addr raw = (let trimmed = trim raw;
     inner = (case (rsplit CHR ''<'' trimmed, rsplit CHR ''>'' trimmed) of
       (Some (before, _), Some (front, _)) \<Rightarrow>
         if length before + 1 < length front then drop (length before + 1) front else trimmed
     | _ \<Rightarrow> trimmed)
   in to_ascii_lowercase (trim inner))"

section \<open>Data\<close>

datatype group_mode = ToAll | BccAll | Individual

datatype send_status = Pending | Sent | Failed

record new_member =
  nm_addr :: string
  nm_name :: "string option"

record group_row =
  g_id :: int
  g_account :: int
  g_name :: string
  g_slug :: string
  g_mode :: group_mode
  g_note :: string
  g_created :: instant
  g_updated :: instant

record member_row =
  mb_group :: int
  mb_account :: int
  mb_addr :: string
  mb_name :: "string option"
  mb_added :: instant

record send_row =
  s_id :: int
  s_account :: int
  s_group :: int
  s_subject :: string
  s_mode :: group_mode
  s_at :: instant
  s_recipients :: int

record recipient_row =
  rc_send :: int
  rc_account :: int
  rc_addr :: string
  rc_message :: "int option"
  rc_status :: send_status
  rc_error :: "string option"

record send_recipient =
  sr_addr :: string
  sr_message :: "int option"
  sr_status :: send_status
  sr_error :: "string option"

record mail_row =
  ml_id :: int
  ml_account :: int
  ml_thread :: string
  ml_subject :: string
  ml_snippet :: string
  ml_received :: instant
  ml_sent :: bool

record groups_db =
  groups :: "group_row list"
  members :: "member_row list"
  sends :: "send_row list"
  recipients :: "recipient_row list"
  mails :: "mail_row list"
  mail_recipients :: "(int \<times> int \<times> string) list"
  trackers :: "(string \<times> int \<times> int option) list"
  opens :: "string list"

datatype group_error = InvalidInput string


section \<open>Membership\<close>

fun collect_members :: "new_member list \<Rightarrow> string list \<Rightarrow> (string \<times> string option) list \<Rightarrow> group_error + (string \<times> string option) list" where
  "collect_members [] seen out = Inr out"
| "collect_members (m # ms) seen out =
     (let addr = normalize_addr (nm_addr m)
      in if addr = [] \<or> addr \<in> set seen then collect_members ms seen out
         else if CHR ''@'' \<notin> set addr \<or> starts_with addr ''@'' \<or> ends_with addr ''@''
           then Inl (InvalidInput (CHR 0x22 # trim (nm_addr m) @ CHR 0x22 # '' is not an email address''))
         else let name = (case nm_name m of None \<Rightarrow> None | Some n \<Rightarrow> if trim n = [] then None else Some (trim n))
              in collect_members ms (seen @ [addr]) (out @ [(addr, name)]))"

definition prepare_members :: "new_member list \<Rightarrow> group_error + (string \<times> string option) list" where
  "prepare_members ms = (case collect_members ms [] [] of Inl e \<Rightarrow> Inl e
     | Inr out \<Rightarrow> if MAX_GROUP_MEMBERS < length out then Inl (InvalidInput (''a group holds at most '' @ show_nat MAX_GROUP_MEMBERS @ '' addresses (this one has '' @ show_nat (length out) @ '')'')) else Inr out)"

definition write_member :: "int \<Rightarrow> int \<Rightarrow> instant \<Rightarrow> string \<times> string option \<Rightarrow> groups_db \<Rightarrow> groups_db" where
  "write_member acc g now m db =
     (let p = (\<lambda>r. mb_group r = g \<and> mb_addr r = fst m)
      in if list_ex p (members db) then db\<lparr>members := update_where p (\<lambda>r. r\<lparr>mb_name := snd m\<rparr>) (members db)\<rparr>
         else db\<lparr>members := members db @ [\<lparr>mb_group = g, mb_account = acc, mb_addr = fst m, mb_name = snd m, mb_added = now\<rparr>]\<rparr>)"

definition write_members :: "int \<Rightarrow> int \<Rightarrow> (string \<times> string option) list \<Rightarrow> instant \<Rightarrow> groups_db \<Rightarrow> groups_db" where
  "write_members acc g ms now db = fold (write_member acc g now) ms db"

section \<open>Groups\<close>

definition mk_group :: "int \<Rightarrow> int \<times> string \<times> group_mode \<times> string \<times> instant \<Rightarrow> group_row" where
  "mk_group i = (\<lambda>(acc, name, mode, note, now). \<lparr>g_id = i, g_account = acc, g_name = name, g_slug = group_slug name,
     g_mode = mode, g_note = trim note, g_created = now, g_updated = now\<rparr>)"

definition slug_taken :: "int \<Rightarrow> string \<Rightarrow> groups_db \<Rightarrow> bool" where
  "slug_taken acc slug db \<longleftrightarrow> list_ex (\<lambda>r. g_account r = acc \<and> g_slug r = slug) (groups db)"

definition create_send_group ::
    "int \<Rightarrow> string \<Rightarrow> group_mode \<Rightarrow> string \<Rightarrow> new_member list \<Rightarrow> instant \<Rightarrow> groups_db \<Rightarrow> (group_error + int) \<times> groups_db" where
  "create_send_group acc name mode note ms now db =
     (let name = trim name in
      if group_slug name = [] then (Inl (InvalidInput ''a group needs a name''), db)
      else case prepare_members ms of Inl e \<Rightarrow> (Inl e, db)
      | Inr prepared \<Rightarrow>
          if slug_taken acc (group_slug name) db then (Inl (InvalidInput ''a group with that name already exists''), db)
          else let g = mk_group (fresh_id (map g_id (groups db))) (acc, name, mode, note, now)
               in (Inr (g_id g), write_members acc (g_id g) prepared now (db\<lparr>groups := groups db @ [g]\<rparr>)))"

definition update_send_group ::
    "int \<Rightarrow> int \<Rightarrow> string \<Rightarrow> group_mode \<Rightarrow> string \<Rightarrow> new_member list \<Rightarrow> instant \<Rightarrow> groups_db \<Rightarrow> (group_error + bool) \<times> groups_db" where
  "update_send_group acc i name mode note ms now db =
     (let name = trim name; p = (\<lambda>r. g_account r = acc \<and> g_id r = i) in
      if group_slug name = [] then (Inl (InvalidInput ''a group needs a name''), db)
      else case prepare_members ms of Inl e \<Rightarrow> (Inl e, db)
      | Inr prepared \<Rightarrow>
          if count_where p (groups db) = 0 then (Inr False, db)
          else if list_ex (\<lambda>r. g_account r = acc \<and> g_slug r = group_slug name \<and> g_id r \<noteq> i) (groups db)
            then (Inl (InvalidInput ''a group with that name already exists''), db)
          else (Inr True, write_members acc i prepared now
                 (db\<lparr>groups := update_where p (\<lambda>r. r\<lparr>g_name := name, g_slug := group_slug name, g_mode := mode,
                                                  g_note := trim note, g_updated := now\<rparr>) (groups db),
                     members := delete_where (\<lambda>r. mb_group r = i) (members db)\<rparr>)))"

text \<open>\<open>ON DELETE CASCADE\<close> takes the members; the recorded sends stay.\<close>

definition delete_send_group :: "int \<Rightarrow> int \<Rightarrow> groups_db \<Rightarrow> bool \<times> groups_db" where
  "delete_send_group acc i db =
     (let p = (\<lambda>r. g_account r = acc \<and> g_id r = i)
      in if count_where p (groups db) = 0 then (False, db)
         else (True, db\<lparr>groups := delete_where p (groups db), members := delete_where (\<lambda>r. mb_group r = i) (members db)\<rparr>))"

record send_group =
  row :: group_row
  member_count :: nat
  member_list :: "(string \<times> string option) list"
  last_sent_at :: "instant option"

definition last_sent :: "groups_db \<Rightarrow> group_row \<Rightarrow> instant option" where
  "last_sent db r = (case filter (\<lambda>s. s_account s = g_account r \<and> s_group s = g_id r) (sends db) of
     [] \<Rightarrow> None | s # ss \<Rightarrow> Some (fold max (map s_at ss) (s_at s)))"

definition read_group :: "groups_db \<Rightarrow> group_row \<Rightarrow> send_group" where
  "read_group db r = \<lparr>row = r, member_count = count_where (\<lambda>m. mb_group m = g_id r) (members db), member_list = [],
     last_sent_at = last_sent db r\<rparr>"

text \<open>\<open>COALESCE(display_name, addr) COLLATE NOCASE\<close>.\<close>

definition member_key :: "member_row \<Rightarrow> string" where
  "member_key m = to_ascii_lowercase (case mb_name m of Some n \<Rightarrow> n | None \<Rightarrow> mb_addr m)"

definition members_of :: "int \<Rightarrow> groups_db \<Rightarrow> (string \<times> string option) list" where
  "members_of g db = map (\<lambda>m. (mb_addr m, mb_name m)) (sort_key member_key (filter (\<lambda>m. mb_group m = g) (members db)))"

definition list_send_groups :: "int \<Rightarrow> groups_db \<Rightarrow> send_group list" where
  "list_send_groups acc db =
     map (read_group db) (sort_key (\<lambda>r. to_ascii_lowercase (g_name r)) (filter (\<lambda>r. g_account r = acc) (groups db)))"

definition get_send_group :: "int \<Rightarrow> int \<Rightarrow> groups_db \<Rightarrow> send_group option" where
  "get_send_group acc i db =
     map_option (\<lambda>r. (read_group db r)\<lparr>member_list := members_of i db\<rparr>) (find (\<lambda>r. g_account r = acc \<and> g_id r = i) (groups db))"

text \<open>The two \<open>LIKE\<close>s: the fragment's metacharacters are escaped, and \<open>LIKE\<close> ignores ASCII case.\<close>

definition search_send_groups :: "int \<Rightarrow> string \<Rightarrow> nat \<Rightarrow> groups_db \<Rightarrow> send_group list" where
  "search_send_groups acc q limit db =
     (let q = to_ascii_lowercase (trim q);
          slug = (\<lambda>r. to_ascii_lowercase (g_slug r))
      in if q = [] then []
         else map (read_group db) (take limit
           (sort_key (\<lambda>r. (if starts_with (slug r) q then 0 else 1 :: int, to_ascii_lowercase (g_name r)))
             (filter (\<lambda>r. g_account r = acc \<and> contains (slug r) q) (groups db)))))"

definition send_group_by_slug :: "int \<Rightarrow> string \<Rightarrow> groups_db \<Rightarrow> int option" where
  "send_group_by_slug acc slug db = map_option g_id (find (\<lambda>r. g_account r = acc \<and> g_slug r = group_slug slug) (groups db))"

definition send_group_addrs :: "int \<Rightarrow> int \<Rightarrow> groups_db \<Rightarrow> string list" where
  "send_group_addrs acc g db =
     map mb_addr (sort_key member_key (filter (\<lambda>m. mb_account m = acc \<and> mb_group m = g) (members db)))"

section \<open>Recorded sends\<close>

definition mk_send :: "int \<Rightarrow> int \<times> int \<times> string \<times> group_mode \<times> instant \<times> int \<Rightarrow> send_row" where
  "mk_send i = (\<lambda>(acc, g, subject, mode, at, n). \<lparr>s_id = i, s_account = acc, s_group = g, s_subject = subject, s_mode = mode,
     s_at = at, s_recipients = n\<rparr>)"

definition record_recipient :: "int \<Rightarrow> int \<Rightarrow> send_recipient \<Rightarrow> groups_db \<Rightarrow> groups_db" where
  "record_recipient acc i r db =
     (let p = (\<lambda>q. rc_send q = i \<and> rc_addr q = normalize_addr (sr_addr r))
      in if list_ex p (recipients db)
         then db\<lparr>recipients := update_where p (\<lambda>q. q\<lparr>rc_message := sr_message r, rc_status := sr_status r, rc_error := sr_error r\<rparr>) (recipients db)\<rparr>
         else db\<lparr>recipients := recipients db @ [\<lparr>rc_send = i, rc_account = acc, rc_addr = normalize_addr (sr_addr r),
                rc_message = sr_message r, rc_status = sr_status r, rc_error = sr_error r\<rparr>]\<rparr>)"

definition record_group_send ::
    "int \<Rightarrow> int \<Rightarrow> string \<Rightarrow> group_mode \<Rightarrow> instant \<Rightarrow> send_recipient list \<Rightarrow> groups_db \<Rightarrow> int \<times> groups_db" where
  "record_group_send acc g subject mode at rs db =
     (let s = mk_send (fresh_id (map s_id (sends db))) (acc, g, subject, mode, at, int (length rs))
      in (s_id s, fold (record_recipient acc (s_id s)) rs (db\<lparr>sends := sends db @ [s]\<rparr>)))"

definition set_group_send_result ::
    "int \<Rightarrow> int \<Rightarrow> string \<Rightarrow> send_status \<Rightarrow> int option \<Rightarrow> string option \<Rightarrow> groups_db \<Rightarrow> bool \<times> groups_db" where
  "set_group_send_result acc i addr status message error db =
     (let p = (\<lambda>q. rc_account q = acc \<and> rc_send q = i \<and> rc_addr q = normalize_addr addr)
      in (0 < count_where p (recipients db),
          db\<lparr>recipients := update_where p (\<lambda>q. q\<lparr>rc_status := status,
               rc_message := (case message of Some m \<Rightarrow> Some m | None \<Rightarrow> rc_message q), rc_error := error\<rparr>) (recipients db)\<rparr>))"

definition fail_pending_group_sends :: "int \<Rightarrow> string \<Rightarrow> groups_db \<Rightarrow> nat \<times> groups_db" where
  "fail_pending_group_sends acc reason db =
     (let p = (\<lambda>q. rc_account q = acc \<and> rc_status q = Pending)
      in (count_where p (recipients db),
          db\<lparr>recipients := update_where p (\<lambda>q. q\<lparr>rc_status := Failed, rc_error := Some reason\<rparr>) (recipients db)\<rparr>))"

definition sync_message_recipients :: "int \<Rightarrow> int \<Rightarrow> string list \<Rightarrow> groups_db \<Rightarrow> groups_db" where
  "sync_message_recipients acc m addrs db =
     (let lcs = filter (\<lambda>a. a \<noteq> []) (map (\<lambda>a. to_ascii_lowercase (trim a)) addrs)
      in db\<lparr>mail_recipients := filter (\<lambda>(acc', m', _). \<not> (acc' = acc \<and> m' = m)) (mail_recipients db)
             @ map (\<lambda>a. (acc, m, a)) (fold (\<lambda>a seen. if a \<in> set seen then seen else seen @ [a]) lcs [])\<rparr>)"


section \<open>History\<close>

record history_entry =
  e_send :: "int option"
  e_message :: "int option"
  e_thread :: "string option"
  e_subject :: string
  e_snippet :: string
  e_at :: instant
  e_mode :: group_mode
  e_reached :: int
  e_size :: int
  e_failed :: int
  e_pending :: int
  e_opens :: int

text \<open>Opens of a message of the account, through its trackers.\<close>

definition opens_of :: "int \<Rightarrow> int \<Rightarrow> groups_db \<Rightarrow> int" where
  "opens_of acc m db = int (sum_list (map (\<lambda>(tok, acc', m'). if acc' = acc \<and> m' = Some m then count_where (\<lambda>t. t = tok) (opens db) else 0) (trackers db)))"

definition recipients_of :: "int \<Rightarrow> groups_db \<Rightarrow> recipient_row list" where
  "recipients_of i db = filter (\<lambda>r. rc_send r = i) (recipients db)"

definition recorded_entry :: "int \<Rightarrow> groups_db \<Rightarrow> send_row \<Rightarrow> history_entry" where
  "recorded_entry acc db s =
     (let rs = recipients_of (s_id s) db;
          ids = List.map_filter rc_message rs;
          message = (case ids of [] \<Rightarrow> None | i # is \<Rightarrow> Some (fold min is i));
          echo = (case message of None \<Rightarrow> None | Some m \<Rightarrow> find (\<lambda>ml. ml_account ml = acc \<and> ml_id ml = m) (mails db))
      in \<lparr>e_send = Some (s_id s), e_message = message, e_thread = map_option ml_thread echo, e_subject = s_subject s,
          e_snippet = (case echo of None \<Rightarrow> [] | Some ml \<Rightarrow> ml_snippet ml), e_at = s_at s, e_mode = s_mode s,
          e_reached = int (count_where (\<lambda>r. rc_status r = Sent) rs), e_size = s_recipients s,
          e_failed = int (count_where (\<lambda>r. rc_status r = Failed) rs), e_pending = int (count_where (\<lambda>r. rc_status r = Pending) rs),
          e_opens = sum_list (map (\<lambda>m. opens_of (s_account s) m db) ids)\<rparr>)"

definition recorded_history :: "int \<Rightarrow> int \<Rightarrow> nat \<Rightarrow> groups_db \<Rightarrow> history_entry list" where
  "recorded_history acc g depth db = map (recorded_entry acc db)
     (take depth (sort_key (\<lambda>s. (- s_at s, - s_id s)) (filter (\<lambda>s. s_account s = acc \<and> s_group s = g) (sends db))))"

definition reached_addrs :: "int \<Rightarrow> int \<Rightarrow> groups_db \<Rightarrow> mail_row \<Rightarrow> string list" where
  "reached_addrs acc g db ml = remdups (filter (\<lambda>a. list_ex (\<lambda>m. mb_account m = acc \<and> mb_group m = g \<and> mb_addr m = a) (members db))
     (map (\<lambda>(_, _, a). a) (filter (\<lambda>(acc', m, _). acc' = acc \<and> m = ml_id ml) (mail_recipients db))))"

definition claimed_by_send :: "int \<Rightarrow> int \<Rightarrow> groups_db \<Rightarrow> int \<Rightarrow> bool" where
  "claimed_by_send acc g db m \<longleftrightarrow>
     list_ex (\<lambda>r. rc_message r = Some m \<and> list_ex (\<lambda>s. s_id s = rc_send r \<and> s_account s = acc \<and> s_group s = g) (sends db)) (recipients db)"

definition derived_entry :: "int \<Rightarrow> int \<Rightarrow> groups_db \<Rightarrow> mail_row \<Rightarrow> history_entry" where
  "derived_entry acc g db ml =
     \<lparr>e_send = None, e_message = Some (ml_id ml), e_thread = Some (ml_thread ml), e_subject = ml_subject ml,
      e_snippet = ml_snippet ml, e_at = ml_received ml, e_mode = ToAll, e_reached = int (length (reached_addrs acc g db ml)),
      e_size = int (count_where (\<lambda>m. mb_account m = acc \<and> mb_group m = g) (members db)), e_failed = 0, e_pending = 0,
      e_opens = opens_of acc (ml_id ml) db\<rparr>"

definition derived_rows :: "int \<Rightarrow> int \<Rightarrow> groups_db \<Rightarrow> mail_row list" where
  "derived_rows acc g db = filter (\<lambda>ml. ml_account ml = acc \<and> ml_sent ml \<and> reached_addrs acc g db ml \<noteq> []
     \<and> \<not> claimed_by_send acc g db (ml_id ml)) (mails db)"

definition derived_history :: "int \<Rightarrow> int \<Rightarrow> nat \<Rightarrow> groups_db \<Rightarrow> history_entry list" where
  "derived_history acc g depth db =
     (if count_where (\<lambda>m. mb_account m = acc \<and> mb_group m = g) (members db) = 0 then []
      else map (derived_entry acc g db) (take depth (sort_key (\<lambda>ml. (- ml_received ml, - ml_id ml)) (derived_rows acc g db))))"

text \<open>Newest first, then the larger message id, an entry without one last.\<close>

definition merge_key :: "history_entry \<Rightarrow> int \<times> int \<times> int" where
  "merge_key e = (- e_at e, case e_message e of Some m \<Rightarrow> (0, - m) | None \<Rightarrow> (1, 0))"

definition group_history :: "int \<Rightarrow> int \<Rightarrow> nat \<Rightarrow> nat \<Rightarrow> groups_db \<Rightarrow> history_entry list" where
  "group_history acc g limit offset db =
     (let depth = limit + offset
      in take limit (drop offset (sort_key merge_key (recorded_history acc g depth db @ derived_history acc g depth db))))"

section \<open>The fan-out\<close>

datatype api_error = Api_NotFound | Api_BadRequest

record audience =
  au_group :: int
  au_mode :: group_mode
  au_addrs :: "string list"

definition resolve_group :: "int \<Rightarrow> int \<Rightarrow> groups_db \<Rightarrow> groups_db \<Rightarrow> api_error + audience" where
  "resolve_group acc g db db' = (case get_send_group acc g db of None \<Rightarrow> Inl Api_NotFound
     | Some gr \<Rightarrow> let addrs = send_group_addrs acc g db'
                  in if addrs = [] then Inl Api_BadRequest
                     else Inr \<lparr>au_group = g, au_mode = g_mode (row gr), au_addrs = addrs\<rparr>)"

definition reject_unresolved_tokens :: "string \<Rightarrow> api_error + unit" where
  "reject_unresolved_tokens v =
     (if list_ex (\<lambda>t. starts_with (trim t) ''#'') (split_on CHR '','' v) then Inl Api_BadRequest else Inr ())"

definition record_single :: "int \<Rightarrow> audience \<Rightarrow> string \<Rightarrow> int option \<Rightarrow> instant \<Rightarrow> groups_db \<Rightarrow> groups_db" where
  "record_single acc au subject message now db =
     snd (record_group_send acc (au_group au) subject (au_mode au) now
       (map (\<lambda>a. \<lparr>sr_addr = a, sr_message = message, sr_status = Sent, sr_error = None\<rparr>) (au_addrs au)) db)"

definition start_fan_out :: "int \<Rightarrow> audience \<Rightarrow> string \<Rightarrow> instant \<Rightarrow> groups_db \<Rightarrow> int \<times> groups_db" where
  "start_fan_out acc au subject now db =
     record_group_send acc (au_group au) subject Individual now
       (map (\<lambda>a. \<lparr>sr_addr = a, sr_message = None, sr_status = Pending, sr_error = None\<rparr>) (au_addrs au)) db"

text \<open>One recipient: the message goes out or not, and its outcome is written.\<close>

definition settle_one :: "(string \<Rightarrow> string + int option) \<Rightarrow> int \<Rightarrow> int \<Rightarrow> string \<Rightarrow> groups_db \<Rightarrow> groups_db" where
  "settle_one send acc i addr db = (case send addr of
     Inr message \<Rightarrow> snd (set_group_send_result acc i addr Sent message None db)
   | Inl reason \<Rightarrow> snd (set_group_send_result acc i addr Failed None (Some reason) db))"

definition run_fan_out :: "(string \<Rightarrow> string + int option) option \<Rightarrow> int \<Rightarrow> int \<Rightarrow> audience \<Rightarrow> groups_db \<Rightarrow> groups_db" where
  "run_fan_out client acc i au db = (case client of
     None \<Rightarrow> snd (fail_pending_group_sends acc ''write credential unavailable'' db)
   | Some send \<Rightarrow> fold (settle_one send acc i) (au_addrs au) db)"

section \<open>A group made after another is deleted\<close>

definition no_groups :: groups_db where
  "no_groups = \<lparr>groups = [], members = [], sends = [], recipients = [], mails = [], mail_recipients = [], trackers = [], opens = []\<rparr>"

text \<open>An open is counted once for every recipient: a mail sent to two in one message, opened once, reads
  as opened twice, since each of its recipient rows joins the one tracker.\<close>
theorem one_open_counts_for_every_recipient:
  "let au = \<lparr>au_group = 1, au_mode = ToAll, au_addrs = [''a@x'', ''b@y'']\<rparr>;
       db = record_single 1 au ''Hi'' (Some 7) 0 (no_groups\<lparr>trackers := [(''t'', 1, Some 7)], opens := [''t'']\<rparr>)
   in opens_of 1 7 db = 1 \<and> map e_opens (group_history 1 1 10 0 db) = [2]"
  by code_simp

section \<open>Pages of the history\<close>

definition whole_history :: "int \<Rightarrow> int \<Rightarrow> groups_db \<Rightarrow> history_entry list" where
  "whole_history acc g db = sort_key merge_key
     (recorded_history acc g (length (sends db)) db @ derived_history acc g (length (mails db)) db)"

lemma write_members_rest: "\<exists>ms'. write_members acc g ms now db = db\<lparr>members := ms'\<rparr>"
  unfolding write_members_def
proof (induction ms arbitrary: db)
  case Nil
  show ?case by (intro exI [of _ "members db"]) simp
next
  case (Cons m ms)
  obtain ms1 where "write_member acc g now m db = db\<lparr>members := ms1\<rparr>" by (simp add: write_member_def Let_def) metis
  with Cons [of "db\<lparr>members := ms1\<rparr>"] show ?case by simp
qed

lemma created_group:
  assumes "create_send_group acc name mode note ms now db = (Inr g, db')"
  obtains r ms' where "g = fresh_id (map g_id (groups db))" "db' = db\<lparr>groups := groups db @ [r], members := ms'\<rparr>"
    "g_id r = g" "g_account r = acc"
proof -
  let ?r = "mk_group (fresh_id (map g_id (groups db))) (acc, trim name, mode, note, now)"
  have r: "g_id ?r = fresh_id (map g_id (groups db))" "g_account ?r = acc" by (simp_all add: mk_group_def)
  obtain res where "g = g_id ?r" "db' = write_members acc (g_id ?r) res now (db\<lparr>groups := groups db @ [?r]\<rparr>)"
    using assms by (auto simp: create_send_group_def Let_def split: if_splits sum.splits)
  moreover obtain ms' where "write_members acc (g_id ?r) res now (db\<lparr>groups := groups db @ [?r]\<rparr>) = db\<lparr>groups := groups db @ [?r], members := ms'\<rparr>"
    using write_members_rest [of acc "g_id ?r" res now "db\<lparr>groups := groups db @ [?r]\<rparr>"] by auto
  ultimately show thesis using that [where r = ?r and ms' = ms'] r by simp
qed

lemma found_group:
  "r \<in> set (groups db) \<Longrightarrow> g_account r = acc \<Longrightarrow> g_id r = g \<Longrightarrow>
     map_option last_sent_at (get_send_group acc g db) = Some (last_sent db r)"
proof -
  assume r: "r \<in> set (groups db)" "g_account r = acc" "g_id r = g"
  then obtain q where q: "find (\<lambda>r. g_account r = acc \<and> g_id r = g) (groups db) = Some q"
    by (cases "find (\<lambda>r. g_account r = acc \<and> g_id r = g) (groups db)") (auto simp: find_None_iff)
  then have "g_account q = acc" "g_id q = g" by (auto simp: find_Some_iff)
  then show ?thesis using q r by (simp add: get_send_group_def read_group_def last_sent_def)
qed

text \<open>The group made last, found again once others may have changed, but none was made or deleted.\<close>

lemma made_last:
  assumes "create_send_group acc name mode note ms t db = (Inr g, db1)"
    "map (\<lambda>r. (g_account r, g_id r)) (groups db2) = map (\<lambda>r. (g_account r, g_id r)) (groups db1)"
  obtains gs r2 where "groups db2 = gs @ [r2]" "g_account r2 = acc" "g_id r2 = g" "g = fresh_id (map g_id gs)" "\<And>q. q \<in> set gs \<Longrightarrow> g_id q \<noteq> g"
proof -
  obtain r ms1 where r: "g = fresh_id (map g_id (groups db))" "db1 = db\<lparr>groups := groups db @ [r], members := ms1\<rparr>" "g_id r = g" "g_account r = acc"
    by (rule created_group [OF assms(1)])
  have "length (groups db2) = length (groups db @ [r])" using arg_cong [OF assms(2), of length] by (simp add: r(2))
  then obtain gs r2 where gs: "groups db2 = gs @ [r2]" by (metis append_butlast_last_id length_append_singleton list.size(3) nat.distinct(1))
  with assms(2) r have old: "map (\<lambda>r. (g_account r, g_id r)) gs = map (\<lambda>r. (g_account r, g_id r)) (groups db)" "g_account r2 = acc" "g_id r2 = g" by simp_all
  have ids: "map g_id gs = map g_id (groups db)"
  proof -
    have "map snd (map (\<lambda>r. (g_account r, g_id r)) gs) = map snd (map (\<lambda>r. (g_account r, g_id r)) (groups db))" by (simp only: old(1))
    then show ?thesis by (simp add: comp_def del: map_eq_conv)
  qed
  have fresh: "g_id q \<noteq> g" if "q \<in> set gs" for q
  proof -
    have "g_id q \<in> set (map g_id (groups db))" unfolding ids [symmetric] using that by simp
    from fresh_id_new [OF this] show ?thesis by (simp add: r(1))
  qed
  show thesis by (rule that [OF gs old(2,3) _ fresh]) (simp_all only: r(1) ids)
qed

text \<open>C39. A deleted group's sends outlive it, as they should, but under an id that the next group gets: whatever was
  sent to the group made last, and whatever its members became, once it is deleted the next group of the
  account, under any name and with any members, has its id, shows every one of its sends as its own, and
  was last sent to when it was.\<close>
theorem deleted_group_haunts_the_next:
  assumes "create_send_group acc name mode note ms t db = (Inr g, db1)"
    "map (\<lambda>r. (g_account r, g_id r)) (groups db2) = map (\<lambda>r. (g_account r, g_id r)) (groups db1)"
    "create_send_group acc name' mode' note' ms' t' (snd (delete_send_group acc g db2)) = (Inr g', db3)"
  shows "g' = g \<and> (\<forall>s \<in> set (sends db2). s_account s = acc \<and> s_group s = g \<longrightarrow> recorded_entry acc db2 s \<in> set (whole_history acc g' db3))
    \<and> map_option last_sent_at (get_send_group acc g' db3) = map_option last_sent_at (get_send_group acc g db2)"
proof -
  obtain gs r2 where gs: "groups db2 = gs @ [r2]" and old: "g_account r2 = acc" "g_id r2 = g" and ids: "g = fresh_id (map g_id gs)"
    and fresh: "\<And>q. q \<in> set gs \<Longrightarrow> g_id q \<noteq> g"
    by (rule made_last [OF assms(1,2)]) blast
  let ?db = "db2\<lparr>groups := gs, members := delete_where (\<lambda>m. mb_group m = g) (members db2)\<rparr>"
  have "count_where (\<lambda>q. g_account q = acc \<and> g_id q = g) (groups db2) \<noteq> 0" by (simp add: gs old count_where_def)
  moreover have "delete_where (\<lambda>q. g_account q = acc \<and> g_id q = g) (groups db2) = gs"
    using fresh by (simp add: gs old delete_where_def filter_id_conv)
  ultimately have del: "snd (delete_send_group acc g db2) = ?db" by (simp add: delete_send_group_def)
  obtain r3 ms3 where c3: "g' = fresh_id (map g_id (groups ?db))" "db3 = ?db\<lparr>groups := groups ?db @ [r3], members := ms3\<rparr>"
    "g_id r3 = g'" "g_account r3 = acc" by (rule created_group [OF assms(3) [unfolded del]])
  then have r3: "g' = fresh_id (map g_id gs)" "db3 = ?db\<lparr>groups := gs @ [r3], members := ms3\<rparr>" "g_id r3 = g'" "g_account r3 = acc" by simp_all
  have g': "g' = g" by (simp add: r3(1) ids)
  have kept: "recipients db3 = recipients db2" "mails db3 = mails db2" "trackers db3 = trackers db2" "opens db3 = opens db2"
    by (simp_all add: r3(2))
  have rec: "recorded_entry acc db3 s = recorded_entry acc db2 s" for s
    unfolding recorded_entry_def recipients_of_def opens_of_def kept ..
  have "recorded_entry acc db2 s \<in> set (whole_history acc g' db3)" if "s \<in> set (sends db2)" "s_account s = acc" "s_group s = g" for s
  proof -
    have "recorded_entry acc db3 s \<in> set (recorded_history acc g' (length (sends db3)) db3)"
      using that by (simp add: recorded_history_def g' r3(2))
    then show ?thesis by (simp add: whole_history_def rec)
  qed
  moreover have "last_sent db3 r3 = last_sent db2 r2"
  proof -
    have e: "sends db3 = sends db2" "g_id r3 = g" using g' by (simp_all add: r3(2,3))
    show ?thesis unfolding last_sent_def e r3(4) old ..
  qed
  moreover have "map_option last_sent_at (get_send_group acc g' db3) = Some (last_sent db3 r3)"
    by (rule found_group [OF _ r3(4,3)]) (simp add: r3(2))
  moreover have "map_option last_sent_at (get_send_group acc g db2) = Some (last_sent db2 r2)"
    by (rule found_group [OF _ old]) (simp add: gs)
  ultimately show ?thesis using g' by (metis (no_types, lifting))
qed

theorem deleted_group_haunts_the_next_witness:
  "let db = snd (create_send_group 1 ''Board'' Individual [] [\<lparr>nm_addr = ''a@x'', nm_name = None\<rparr>] 0 no_groups);
       db = snd (record_group_send 1 1 ''Layoffs'' Individual 1 [\<lparr>sr_addr = ''a@x'', sr_message = None, sr_status = Sent, sr_error = None\<rparr>] db);
       (r, db) = create_send_group 1 ''Friends'' ToAll [] [\<lparr>nm_addr = ''b@y'', nm_name = None\<rparr>] 2 (snd (delete_send_group 1 1 db))
   in r = Inr 1 \<and> ''Layoffs'' \<in> e_subject ` set (whole_history 1 1 db)"
proof -
  define c where "c = create_send_group 1 ''Board'' Individual [] [\<lparr>nm_addr = ''a@x'', nm_name = None\<rparr>] 0 no_groups"
  define db2 where "db2 = snd (record_group_send 1 1 ''Layoffs'' Individual 1 [\<lparr>sr_addr = ''a@x'', sr_message = None, sr_status = Sent, sr_error = None\<rparr>] (snd c))"
  define d where "d = create_send_group 1 ''Friends'' ToAll [] [\<lparr>nm_addr = ''b@y'', nm_name = None\<rparr>] 2 (snd (delete_send_group 1 1 db2))"
  let ?s = "\<lparr>s_id = 1, s_account = 1, s_group = 1, s_subject = ''Layoffs'', s_mode = Individual, s_at = 1, s_recipients = 1\<rparr>"
  have f: "fst c = Inr 1" "groups db2 = groups (snd c)" "fst d = Inr 1" "sends db2 = [?s]" unfolding d_def db2_def c_def by code_simp+
  have c: "create_send_group 1 ''Board'' Individual [] [\<lparr>nm_addr = ''a@x'', nm_name = None\<rparr>] 0 no_groups = (Inr 1, snd c)"
    unfolding c_def [symmetric] using f(1) by (cases c) simp
  have d: "create_send_group 1 ''Friends'' ToAll [] [\<lparr>nm_addr = ''b@y'', nm_name = None\<rparr>] 2 (snd (delete_send_group 1 1 db2)) = (Inr 1, snd d)"
    unfolding d_def [symmetric] using f(3) by (cases d) simp
  have g: "map (\<lambda>r. (g_account r, g_id r)) (groups db2) = map (\<lambda>r. (g_account r, g_id r)) (groups (snd c))" by (simp only: f(2))
  have "recorded_entry 1 db2 ?s \<in> set (whole_history 1 1 (snd d))"
    using deleted_group_haunts_the_next [OF c g d] f(4) by simp
  moreover have "e_subject (recorded_entry 1 db2 ?s) = ''Layoffs''" by (simp add: recorded_entry_def Let_def)
  ultimately have "''Layoffs'' \<in> e_subject ` set (whole_history 1 1 (snd d))" by (metis imageI)
  then show ?thesis unfolding c_def [symmetric] db2_def [symmetric] Let_def d by simp
qed

lemma recorded_take:
  "recorded_history acc g n db = take n (recorded_history acc g (length (sends db)) db)"
proof -
  let ?R = "filter (\<lambda>s. s_account s = acc \<and> s_group s = g) (sends db)"
  have "length ?R \<le> length (sends db)" by simp
  then show ?thesis by (simp add: recorded_history_def take_map)
qed

lemma derived_take:
  "derived_history acc g n db = take n (derived_history acc g (length (mails db)) db)"
proof -
  have "length (derived_rows acc g db) \<le> length (mails db)" by (simp add: derived_rows_def)
  then show ?thesis by (simp add: derived_history_def take_map)
qed

lemma recorded_sorted:
  assumes "distinct (map s_at (filter (\<lambda>s. s_account s = acc \<and> s_group s = g) (sends db)))"
  shows "sorted_wrt (<) (map merge_key (recorded_history acc g (length (sends db)) db))"
proof -
  let ?R = "filter (\<lambda>s. s_account s = acc \<and> s_group s = g) (sends db)"
  let ?k = "\<lambda>s. (- s_at s, - s_id s)"
  let ?S = "sort_key ?k ?R"
  have "sorted (map ?k ?S)" by simp
  then have "sorted_wrt (\<lambda>a b. - s_at a \<le> - s_at b) ?S"
    unfolding sorted_wrt_map by (rule sorted_wrt_mono_rel [rotated]) (auto simp: less_eq_prod_def)
  moreover have "distinct (map s_at ?S)" using assms by (simp add: distinct_map)
  ultimately have "sorted_wrt (\<lambda>a b. - s_at a < - s_at b) ?S"
    by (auto simp: sorted_wrt_iff_nth_less distinct_conv_nth order_le_less)
  then have "sorted_wrt (\<lambda>a b. merge_key (recorded_entry acc db a) < merge_key (recorded_entry acc db b)) ?S"
    by (rule sorted_wrt_mono_rel [rotated]) (simp add: merge_key_def recorded_entry_def Let_def)
  then show ?thesis by (simp add: recorded_history_def sorted_wrt_map)
qed

lemma derived_sorted:
  assumes "distinct (map ml_id (mails db))"
  shows "sorted_wrt (<) (map merge_key (derived_history acc g (length (mails db)) db))"
proof -
  let ?k = "\<lambda>ml. (- ml_received ml, - ml_id ml)"
  have "distinct (map ml_id (derived_rows acc g db))" using assms by (simp add: derived_rows_def distinct_map_filter)
  then have "distinct (map ?k (derived_rows acc g db))" by (auto simp: distinct_map inj_on_def)
  from strictly_sorted_sort_key [OF this]
  have "sorted_wrt (\<lambda>a b. ?k a < ?k b) (sort_key ?k (derived_rows acc g db))" by (simp add: sorted_wrt_map)
  then have "sorted_wrt (\<lambda>a b. merge_key (derived_entry acc g db a) < merge_key (derived_entry acc g db b)) (sort_key ?k (derived_rows acc g db))"
    by (rule sorted_wrt_mono_rel [rotated]) (auto simp: merge_key_def derived_entry_def)
  moreover have "length (derived_rows acc g db) \<le> length (mails db)" by (simp add: derived_rows_def)
  ultimately show ?thesis by (simp add: derived_history_def sorted_wrt_map)
qed

text \<open>A message a recorded send claims is not derived a second time.\<close>

lemma fold_min_in: "fold min xs i \<in> set (i # xs)" for i :: int
  using Min_in [of "set (i # xs)"] by (simp only: Min.set_eq_fold) simp

lemma recorded_message_claimed:
  assumes "e \<in> set (recorded_history acc g n db)" "e_message e = Some m"
  shows "claimed_by_send acc g db m"
proof -
  from assms(1) obtain s where s: "s \<in> set (sends db)" "s_account s = acc" "s_group s = g" "e = recorded_entry acc db s"
    by (auto simp: recorded_history_def dest!: in_set_takeD)
  have "m \<in> set (List.map_filter rc_message (recipients_of (s_id s) db))"
    using assms(2) fold_min_in by (auto simp: s(4) recorded_entry_def Let_def split: list.splits)
  then obtain r where "r \<in> set (recipients db)" "rc_send r = s_id s" "rc_message r = Some m"
    by (auto simp: List.map_filter_def recipients_of_def)
  with s show ?thesis unfolding claimed_by_send_def list_ex_iff by force
qed

lemma derived_message:
  assumes "e \<in> set (derived_history acc g n db)"
  shows "\<exists>m. e_message e = Some m \<and> \<not> claimed_by_send acc g db m"
  using assms by (auto simp: derived_history_def derived_rows_def derived_entry_def dest!: in_set_takeD split: if_splits)

text \<open>A page of a group's history is that slice of the whole of it: reading each half, what was recorded and
  what is derived from the mail, only to the depth of the page, merging and cutting loses nothing and
  shows nothing twice, if no two of the group's recorded sends bear the same time.\<close>
theorem history_pages_are_slices:
  assumes "distinct (map s_at (filter (\<lambda>s. s_account s = acc \<and> s_group s = g) (sends db)))" "distinct (map ml_id (mails db))"
  shows "group_history acc g limit offset db = take limit (drop offset (whole_history acc g db))
    \<and> distinct (map merge_key (whole_history acc g db))"
proof -
  let ?A = "recorded_history acc g (length (sends db)) db" and ?B = "derived_history acc g (length (mails db)) db"
  note A = recorded_sorted [OF assms(1)] and B = derived_sorted [OF assms(2), of acc g]
  have "merge_key a \<noteq> merge_key b" if "a \<in> set ?A" "b \<in> set ?B" for a b
    using recorded_message_claimed [OF that(1)] derived_message [OF that(2)]
    by (auto simp: merge_key_def split: option.splits)
  then have "set (map merge_key ?A) \<inter> set (map merge_key ?B) = {}" unfolding set_map by blast
  moreover have "distinct (map merge_key ?A)" "distinct (map merge_key ?B)" using A B by (simp_all add: strict_sorted_iff)
  ultimately have d: "distinct (map merge_key (?A @ ?B))" unfolding map_append distinct_append by blast
  then have "distinct (map merge_key (whole_history acc g db))"
    unfolding whole_history_def using strictly_sorted_sort_key [OF d] by (simp only: strict_sorted_iff)
  moreover have "group_history acc g limit offset db = take limit (drop offset (whole_history acc g db))"
    using merge_page [OF A B d, of limit offset]
    by (simp only: group_history_def whole_history_def Let_def recorded_take [of acc g "limit + offset"] derived_take [of acc g "limit + offset"])
  ultimately show ?thesis by blast
qed


theorem history_pages_are_slices_witness:
  "let db = no_groups\<lparr>sends := [mk_send 1 (1, 1, ''One'', Individual, 5, 0), mk_send 2 (1, 1, ''Two'', ToAll, 6, 0)]\<rparr>
   in map e_subject (group_history 1 1 1 1 db) = [''One'']"
proof -
  let ?db = "no_groups\<lparr>sends := [mk_send 1 (1, 1, ''One'', Individual, 5, 0), mk_send 2 (1, 1, ''Two'', ToAll, 6, 0)]\<rparr>"
  have d: "distinct (map s_at (filter (\<lambda>s. s_account s = 1 \<and> s_group s = 1) (sends ?db)))" "distinct (map ml_id (mails ?db))"
    by code_simp+
  have "map e_subject (take 1 (drop 1 (whole_history 1 1 ?db))) = [''One'']" by code_simp
  then show ?thesis using history_pages_are_slices [OF d, of 1 1] by (simp add: Let_def)
qed

section \<open>Addresses\<close>

definition mailbox :: "string \<Rightarrow> bool" where
  "mailbox a \<longleftrightarrow> normalize_addr a = a \<and> CHR ''@'' \<in> set a \<and> \<not> starts_with a ''@'' \<and> \<not> ends_with a ''@''"

lemma ascii_lower_other: "\<not> is_ascii_lower q \<Longrightarrow> \<not> is_ascii_upper q \<Longrightarrow> ascii_lower c = q \<longleftrightarrow> c = q"
  by (auto simp: ascii_lower_def is_ascii_lower_def is_ascii_upper_def)

lemma angle_lower:
  "ascii_lower c = CHR ''<'' \<longleftrightarrow> c = CHR ''<''" "ascii_lower c = CHR ''>'' \<longleftrightarrow> c = CHR ''>''"
proof -
  have "\<not> is_ascii_lower CHR ''<''" "\<not> is_ascii_upper CHR ''<''" "\<not> is_ascii_lower CHR ''>''" "\<not> is_ascii_upper CHR ''>''"
    by code_simp+
  then show "ascii_lower c = CHR ''<'' \<longleftrightarrow> c = CHR ''<''" "ascii_lower c = CHR ''>'' \<longleftrightarrow> c = CHR ''>''"
    by (simp_all add: ascii_lower_other)
qed

lemma rsplit_lower:
  assumes "\<And>c. ascii_lower c = q \<longleftrightarrow> c = q"
  shows "rsplit q (to_ascii_lowercase s) = map_option (map_prod to_ascii_lowercase to_ascii_lowercase) (rsplit q s)"
proof (cases "rsplit q s")
  case None
  have "q \<notin> set (to_ascii_lowercase s)"
  proof
    assume "q \<in> set (to_ascii_lowercase s)"
    then obtain c where "c \<in> set s" "ascii_lower c = q" by (auto simp: to_ascii_lowercase_def)
    then show False using assms None by (simp add: rsplit_None)
  qed
  then show ?thesis using None by (simp add: rsplit_def)
next
  case (Some ab)
  obtain a b where ab: "s = a @ q # b" "q \<notin> set b" "ab = (a, b)" using Some rsplit_Some by (cases ab) blast
  have "ascii_lower q = q" using assms by blast
  moreover have "q \<notin> set (to_ascii_lowercase b)"
  proof
    assume "q \<in> set (to_ascii_lowercase b)"
    then obtain c where "c \<in> set b" "ascii_lower c = q" by (auto simp: to_ascii_lowercase_def)
    with assms ab(2) show False by simp
  qed
  ultimately have "rsplit q (to_ascii_lowercase s) = Some (to_ascii_lowercase a, to_ascii_lowercase b)"
    unfolding rsplit_Some by (simp add: ab(1) to_ascii_lowercase_def)
  with Some ab(3) show ?thesis by simp
qed

lemma trim_lower_trim [simp]: "trim (to_ascii_lowercase (trim s)) = to_ascii_lowercase (trim s)"
  by (simp add: trim_to_ascii_lowercase)

lemma lower_lower [simp]: "to_ascii_lowercase (to_ascii_lowercase s) = to_ascii_lowercase s"
  by (simp add: to_ascii_lowercase_def)

lemma length_lower: "length (to_ascii_lowercase s) = length s"
  by (simp add: to_ascii_lowercase_def)

text \<open>A stored address is its own normal form.\<close>

lemma normalize_addr_idem: "normalize_addr (normalize_addr raw) = normalize_addr raw"
proof -
  let ?t = "trim raw"
  show ?thesis
  proof (cases "rsplit CHR ''<'' ?t")
    case None
    then have "normalize_addr raw = to_ascii_lowercase ?t" by (simp add: normalize_addr_def)
    with None show ?thesis by (simp add: normalize_addr_def rsplit_lower angle_lower)
  next
    case (Some p)
    then obtain pre post where b: "rsplit CHR ''<'' ?t = Some (pre, post)" by (cases p) simp
    show ?thesis
    proof (cases "\<exists>front tail. rsplit CHR ''>'' ?t = Some (front, tail) \<and> length pre + 1 < length front")
      case True
      then obtain front tail where f: "rsplit CHR ''>'' ?t = Some (front, tail)" "length pre + 1 < length front" by blast
      have t: "?t = pre @ CHR ''<'' # post" "CHR ''<'' \<notin> set post" "?t = front @ CHR ''>'' # tail"
        using b f(1) rsplit_Some by blast+
      have "drop (length pre + 1) ?t = post" by (simp add: t(1))
      moreover have "drop (length pre + 1) ?t = drop (length pre + 1) front @ CHR ''>'' # tail" using f(2) by (simp add: t(3))
      ultimately have "CHR ''<'' \<notin> set (drop (length pre + 1) front)" using t(2) by (metis Un_iff set_append)
      then have none: "CHR ''<'' \<notin> set (trim (drop (length pre + 1) front))" using set_trim by blast
      have n: "normalize_addr raw = to_ascii_lowercase (trim (drop (length pre + 1) front))"
        using b f by (simp add: normalize_addr_def)
      have "rsplit CHR ''<'' (normalize_addr raw) = None" unfolding n using none by (simp add: rsplit_lower angle_lower rsplit_None)
      moreover have "trim (normalize_addr raw) = normalize_addr raw" "to_ascii_lowercase (normalize_addr raw) = normalize_addr raw"
        unfolding n by simp_all
      ultimately show ?thesis by (simp add: normalize_addr_def [of "normalize_addr raw"])
    next
      case False
      then have n: "normalize_addr raw = to_ascii_lowercase ?t"
        using b by (cases "rsplit CHR ''>'' ?t") (auto simp: normalize_addr_def Let_def split: prod.splits)
      have "trim (normalize_addr raw) = normalize_addr raw" "to_ascii_lowercase (normalize_addr raw) = normalize_addr raw"
        unfolding n by simp_all
      with False b show ?thesis
        by (cases "rsplit CHR ''>'' ?t")
          (auto simp: normalize_addr_def [of "to_ascii_lowercase ?t"] n Let_def rsplit_lower angle_lower length_lower split: prod.splits)
    qed
  qed
qed



section \<open>What a group table keeps\<close>

lemma normalize_addr_bare: "CHR ''<'' \<notin> set (trim s) \<Longrightarrow> normalize_addr s = to_ascii_lowercase (trim s)"
  by (simp add: normalize_addr_def rsplit_def)

lemma collect_members_ok:
  "collect_members ms seen out = Inr res \<Longrightarrow> seen = map fst out \<Longrightarrow> distinct seen \<Longrightarrow> list_all mailbox seen
     \<Longrightarrow> distinct (map fst res) \<and> list_all (\<lambda>m. mailbox (fst m)) res"
proof (induction ms arbitrary: seen out)
  case Nil
  then show ?case by (simp add: list_all_iff)
next
  case (Cons m ms)
  let ?a = "normalize_addr (nm_addr m)"
  let ?n = "case nm_name m of None \<Rightarrow> None | Some n \<Rightarrow> if trim n = [] then None else Some (trim n)"
  consider (skip) "?a = [] \<or> ?a \<in> set seen" | (bad) "?a \<noteq> []" "?a \<notin> set seen" "\<not> mailbox ?a"
    | (take) "?a \<notin> set seen" "mailbox ?a" by blast
  then show ?case
  proof cases
    case skip
    then have "collect_members ms seen out = Inr res" using Cons.prems(1) by (simp add: Let_def)
    from Cons.IH [OF this Cons.prems(2-4)] show ?thesis .
  next
    case bad
    then show ?thesis using Cons.prems(1) by (simp add: Let_def mailbox_def normalize_addr_idem)
  next
    case take
    then have ne: "?a \<noteq> []" "\<not> (CHR ''@'' \<notin> set ?a \<or> starts_with ?a ''@'' \<or> ends_with ?a ''@'')"
      by (auto simp: mailbox_def)
    then have "collect_members ms (seen @ [?a]) (out @ [(?a, ?n)]) = Inr res"
      using Cons.prems(1) take(1) by (simp only: collect_members.simps Let_def if_False simp_thms)
    from Cons.IH [OF this] Cons.prems(2-4) take show ?thesis by simp
  qed
qed

lemma prepare_members_ok:
  assumes "prepare_members ms = Inr res"
  shows "distinct (map fst res) \<and> list_all (\<lambda>m. mailbox (fst m)) res \<and> length res \<le> MAX_GROUP_MEMBERS"
  using assms collect_members_ok [of ms "[]" "[]"] by (auto simp: prepare_members_def split: sum.splits if_splits)

definition mk_member :: "int \<Rightarrow> int \<Rightarrow> instant \<Rightarrow> string \<times> string option \<Rightarrow> member_row" where
  "mk_member acc g now m = \<lparr>mb_group = g, mb_account = acc, mb_addr = fst m, mb_name = snd m, mb_added = now\<rparr>"

lemma write_members_new:
  assumes "distinct (map fst ms)" "\<And>r m. r \<in> set (members db) \<Longrightarrow> m \<in> set ms \<Longrightarrow> \<not> (mb_group r = g \<and> mb_addr r = fst m)"
  shows "write_members acc g ms now db = db\<lparr>members := members db @ map (mk_member acc g now) ms\<rparr>"
  using assms
proof (induction ms arbitrary: db)
  case Nil
  then show ?case by (simp add: write_members_def)
next
  case (Cons m ms)
  have "\<not> list_ex (\<lambda>r. mb_group r = g \<and> mb_addr r = fst m) (members db)" unfolding list_ex_iff using Cons.prems(2) [of _ m] by simp
  then have one: "write_member acc g now m db = db\<lparr>members := members db @ [mk_member acc g now m]\<rparr>"
    by (simp only: write_member_def mk_member_def Let_def if_False)
  let ?db = "db\<lparr>members := members db @ [mk_member acc g now m]\<rparr>"
  have "\<not> (mb_group r = g \<and> mb_addr r = fst x)" if "r \<in> set (members ?db)" "x \<in> set ms" for r x
  proof (cases "r \<in> set (members db)")
    case True
    then show ?thesis using Cons.prems(2) [of r x] that(2) by simp
  next
    case False
    then have "r = mk_member acc g now m" using that(1) by simp
    moreover have "fst m \<noteq> fst x" using Cons.prems(1) that(2) by auto
    ultimately show ?thesis by (simp add: mk_member_def)
  qed
  moreover have "distinct (map fst ms)" using Cons.prems(1) by simp
  ultimately have "write_members acc g ms now ?db = ?db\<lparr>members := members ?db @ map (mk_member acc g now) ms\<rparr>"
    by (intro Cons.IH)
  then show ?case by (simp add: write_members_def one)
qed


definition names_ok :: "group_row list \<Rightarrow> bool" where
  "names_ok gs \<longleftrightarrow> distinct (map g_id gs) \<and> distinct (map (\<lambda>r. (g_account r, g_slug r)) gs)
     \<and> (\<forall>r \<in> set gs. group_slug (g_name r) = g_slug r \<and> g_slug r \<noteq> [])"

definition members_ok :: "group_row list \<Rightarrow> member_row list \<Rightarrow> bool" where
  "members_ok gs ms \<longleftrightarrow> distinct (map (\<lambda>m. (mb_group m, mb_addr m)) ms)
     \<and> (\<forall>m \<in> set ms. mailbox (mb_addr m) \<and> (\<exists>r \<in> set gs. g_id r = mb_group m \<and> g_account r = mb_account m))
     \<and> (\<forall>g. count_where (\<lambda>m. mb_group m = g) ms \<le> MAX_GROUP_MEMBERS)"

definition sends_ok :: "send_row list \<Rightarrow> recipient_row list \<Rightarrow> bool" where
  "sends_ok ss rs \<longleftrightarrow> distinct (map s_id ss) \<and> distinct (map (\<lambda>r. (rc_send r, rc_addr r)) rs)
     \<and> (\<forall>r \<in> set rs. \<exists>s \<in> set ss. s_id s = rc_send r \<and> s_account s = rc_account r)"

definition groups_ok :: "groups_db \<Rightarrow> bool" where
  "groups_ok db \<longleftrightarrow> names_ok (groups db) \<and> members_ok (groups db) (members db) \<and> sends_ok (sends db) (recipients db)"

text \<open>Putting the prepared members of a group that has none.\<close>

lemma members_ok_append:
  assumes ok: "members_ok gs ms" and none: "count_where (\<lambda>m. mb_group m = g) ms = 0"
    and p: "distinct (map fst res)" "list_all (\<lambda>m. mailbox (fst m)) res" "length res \<le> MAX_GROUP_MEMBERS"
    and g: "\<exists>r \<in> set gs. g_id r = g \<and> g_account r = acc"
  shows "members_ok gs (ms @ map (mk_member acc g now) res)"
proof -
  have fresh: "mb_group r \<noteq> g" if "r \<in> set ms" for r using none that by (auto simp: count_where_0)
  let ?N = "map (mk_member acc g now) res" let ?k = "\<lambda>m. (mb_group m, mb_addr m)"
  have "distinct (map ?k ?N)" using p by (auto simp: comp_def mk_member_def distinct_map inj_on_def)
  moreover have "set (map ?k ms) \<inter> set (map ?k ?N) = {}" using fresh by (auto simp: mk_member_def)
  ultimately have d: "distinct (map ?k (ms @ ?N))" using ok by (simp add: members_ok_def)
  have m: "mailbox (mb_addr m) \<and> (\<exists>r \<in> set gs. g_id r = mb_group m \<and> g_account r = mb_account m)" if "m \<in> set ?N" for m
    using that p g by (auto simp: mk_member_def list_all_iff)
  have c: "count_where (\<lambda>m. mb_group m = i) (ms @ ?N) \<le> MAX_GROUP_MEMBERS" for i
  proof (cases "i = g")
    case True
    have "count_where (\<lambda>m. mb_group m = g) ?N \<le> length res" using count_where_le [of _ ?N] by simp
    with True none p show ?thesis by simp
  next
    case False
    then have "count_where (\<lambda>m. mb_group m = i) ?N = 0" by (auto simp: count_where_0 mk_member_def)
    with ok show ?thesis by (simp add: members_ok_def)
  qed
  have b: "\<forall>m \<in> set (ms @ ?N). mailbox (mb_addr m) \<and> (\<exists>r \<in> set gs. g_id r = mb_group m \<and> g_account r = mb_account m)"
    using ok m unfolding members_ok_def set_append by blast
  from d b c show ?thesis unfolding members_ok_def by blast
qed

lemma write_members_ok:
  assumes ok: "groups_ok db" and none: "count_where (\<lambda>m. mb_group m = g) (members db) = 0"
    and prep: "prepare_members ms = Inr res" and g: "\<exists>r \<in> set (groups db). g_id r = g \<and> g_account r = acc"
  shows "groups_ok (write_members acc g res now db)"
proof -
  note p = prepare_members_ok [OF prep]
  have "mb_group r \<noteq> g" if "r \<in> set (members db)" for r using none that by (auto simp: count_where_0)
  then have "write_members acc g res now db = db\<lparr>members := members db @ map (mk_member acc g now) res\<rparr>"
    using p by (intro write_members_new) auto
  then show ?thesis using ok p members_ok_append [OF _ none _ _ _ g] by (simp add: groups_ok_def)
qed

text \<open>Fewer groups' members, and groups with other names.\<close>

lemma members_ok_delete:
  assumes "members_ok gs ms" "\<And>r. r \<in> set gs \<Longrightarrow> g_id r \<noteq> g \<Longrightarrow> \<exists>r' \<in> set gs'. g_id r' = g_id r \<and> g_account r' = g_account r"
  shows "members_ok gs' (delete_where (\<lambda>m. mb_group m = g) ms)"
proof -
  have "distinct (map (\<lambda>m. (mb_group m, mb_addr m)) (delete_where (\<lambda>m. mb_group m = g) ms))"
    using assms(1) by (simp add: members_ok_def delete_where_def distinct_map_filter)
  moreover have "\<exists>r \<in> set gs'. g_id r = mb_group m \<and> g_account r = mb_account m" if m: "m \<in> set ms" "mb_group m \<noteq> g" for m
  proof -
    obtain r where "r \<in> set gs" "g_id r = mb_group m" "g_account r = mb_account m" using assms(1) m(1) unfolding members_ok_def by blast
    with assms(2) [of r] m(2) show ?thesis by auto
  qed
  moreover have "count_where (\<lambda>m. mb_group m = i) (delete_where (\<lambda>m. mb_group m = g) ms) \<le> MAX_GROUP_MEMBERS" for i
  proof -
    have "count_where (\<lambda>m. mb_group m = i) (delete_where (\<lambda>m. mb_group m = g) ms) \<le> count_where (\<lambda>m. mb_group m = i) ms"
      unfolding count_where_delete by (rule count_where_mono) simp
    with assms(1) show ?thesis unfolding members_ok_def by (meson order_trans)
  qed
  ultimately show ?thesis using assms(1) by (auto simp: members_ok_def set_delete_where)
qed


lemma names_ok_append:
  assumes "names_ok gs" "group_slug (g_name r) = g_slug r" "g_slug r \<noteq> []"
    "g_id r \<notin> g_id ` set gs" "\<And>q. q \<in> set gs \<Longrightarrow> \<not> (g_account q = g_account r \<and> g_slug q = g_slug r)"
  shows "names_ok (gs @ [r])"
proof -
  have "(g_account r, g_slug r) \<notin> (\<lambda>r. (g_account r, g_slug r)) ` set gs"
  proof
    assume "(g_account r, g_slug r) \<in> (\<lambda>r. (g_account r, g_slug r)) ` set gs"
    then obtain q where "q \<in> set gs" "g_account q = g_account r" "g_slug q = g_slug r" by auto
    then show False using assms(5) by blast
  qed
  with assms(1-4) show ?thesis by (simp add: names_ok_def)
qed

lemma distinct_update_where:
  assumes "distinct (map k rs)" "\<And>a b. a \<in> set rs \<Longrightarrow> b \<in> set rs \<Longrightarrow> p a \<Longrightarrow> a \<noteq> b \<Longrightarrow> k (f a) \<noteq> k (if p b then f b else b)"
  shows "distinct (map k (update_where p f rs))"
proof -
  let ?u = "\<lambda>r. if p r then f r else r"
  have "inj_on (k \<circ> ?u) (set rs)"
  proof
    fix a b assume ab: "a \<in> set rs" "b \<in> set rs" "(k \<circ> ?u) a = (k \<circ> ?u) b"
    show "a = b"
    proof (rule ccontr)
      assume ne: "a \<noteq> b"
      then have "k a \<noteq> k b" using assms(1) ab by (metis distinct_map_eq)
      with assms(2) [OF ab(1,2)] assms(2) [OF ab(2,1)] ne ab(3) show False by (auto split: if_splits)
    qed
  qed
  moreover have "distinct rs" using assms(1) by (simp add: distinct_map)
  ultimately show ?thesis by (simp add: update_where_def distinct_map)
qed

lemma create_ok: "groups_ok db \<Longrightarrow> groups_ok (snd (create_send_group acc name mode note ms now db))"
proof (cases "group_slug (trim name) = [] \<or> (\<exists>e. prepare_members ms = Inl e) \<or> slug_taken acc (group_slug (trim name)) db")
  case True
  then show "groups_ok db \<Longrightarrow> ?thesis" by (auto simp: create_send_group_def Let_def split: sum.splits)
next
  case False
  assume ok: "groups_ok db"
  obtain res where res: "prepare_members ms = Inr res" using False by (cases "prepare_members ms") auto
  let ?i = "fresh_id (map g_id (groups db))"
  let ?g = "mk_group ?i (acc, trim name, mode, note, now)" let ?db = "db\<lparr>groups := groups db @ [?g]\<rparr>"
  have new: "?i \<notin> g_id ` set (groups db)" using fresh_id_new [of _ "map g_id (groups db)"] by (metis image_set less_irrefl)
  have "names_ok (groups db @ [?g])"
    using ok False new by (intro names_ok_append) (auto simp: mk_group_def groups_ok_def slug_taken_def list_ex_iff)
  moreover have "members_ok (groups db @ [?g]) (members db)" using ok by (auto simp: groups_ok_def members_ok_def)
  ultimately have ok': "groups_ok ?db" using ok by (simp add: groups_ok_def)
  have none: "count_where (\<lambda>m. mb_group m = ?i) (members ?db) = 0"
  proof -
    have "mb_group m \<noteq> ?i" if "m \<in> set (members db)" for m
    proof -
      obtain r where r: "r \<in> set (groups db)" "g_id r = mb_group m" using ok \<open>m \<in> set (members db)\<close> unfolding groups_ok_def members_ok_def by blast
      from imageI [OF r(1), of g_id] r(2) new show ?thesis by auto
    qed
    then show ?thesis by (simp add: count_where_0)
  qed
  have "groups_ok (write_members acc ?i res now ?db)"
    using write_members_ok [OF ok' none res] by (simp add: mk_group_def)
  then show ?thesis using False res by (simp add: create_send_group_def Let_def mk_group_def)
qed


lemma update_ok: "groups_ok db \<Longrightarrow> groups_ok (snd (update_send_group acc i name mode note ms now db))"
proof -
  assume ok: "groups_ok db"
  let ?p = "\<lambda>r. g_account r = acc \<and> g_id r = i"
  let ?clash = "list_ex (\<lambda>r. g_account r = acc \<and> g_slug r = group_slug (trim name) \<and> g_id r \<noteq> i) (groups db)"
  let ?f = "\<lambda>r. r\<lparr>g_name := trim name, g_slug := group_slug (trim name), g_mode := mode, g_note := trim note, g_updated := now\<rparr>"
  let ?gs = "update_where ?p ?f (groups db)"
  let ?db = "db\<lparr>groups := ?gs, members := delete_where (\<lambda>r. mb_group r = i) (members db)\<rparr>"
  show ?thesis
  proof (cases "group_slug (trim name) = [] \<or> (\<exists>e. prepare_members ms = Inl e) \<or> count_where ?p (groups db) = 0 \<or> ?clash")
    case True
    with ok show ?thesis by (auto simp: update_send_group_def Let_def split: sum.splits)
  next
    case False
    obtain res where res: "prepare_members ms = Inr res" using False by (cases "prepare_members ms") auto
    have ids: "g_id (if ?p r then ?f r else r) = g_id r \<and> g_account (if ?p r then ?f r else r) = g_account r" for r by simp
    have kept: "\<exists>r' \<in> set ?gs. g_id r' = g_id r \<and> g_account r' = g_account r" if "r \<in> set (groups db)" for r
      using in_update_where [OF that, of ?p ?f] ids by blast
    have d: "distinct (map g_id (groups db))" using ok by (simp add: groups_ok_def names_ok_def)
    have clash: "\<not> (g_account r = acc \<and> g_slug r = group_slug (trim name))" if "r \<in> set (groups db)" "g_id r \<noteq> i" for r
      using False that unfolding list_ex_iff by blast
    have "distinct (map (\<lambda>r. (g_account r, g_slug r)) ?gs)"
    proof (rule distinct_update_where)
      show "distinct (map (\<lambda>r. (g_account r, g_slug r)) (groups db))" using ok by (simp add: groups_ok_def names_ok_def)
      fix a b assume "a \<in> set (groups db)" "b \<in> set (groups db)" "?p a" "a \<noteq> b"
      then have "g_id b \<noteq> i" using distinct_map_eq [OF d] by metis
      with clash [of b] \<open>b \<in> set (groups db)\<close> \<open>?p a\<close>
      show "(g_account (?f a), g_slug (?f a)) \<noteq> (g_account (if ?p b then ?f b else b), g_slug (if ?p b then ?f b else b))" by auto
    qed
    moreover have "distinct (map g_id ?gs)"
      using d distinct_map_eq [OF d] by (intro distinct_update_where) auto
    moreover have "group_slug (g_name r) = g_slug r \<and> g_slug r \<noteq> []" if "r \<in> set ?gs" for r
    proof -
      from that obtain q where "q \<in> set (groups db)" "r = (if ?p q then ?f q else q)" by (elim update_whereE)
      then show ?thesis using ok False by (auto simp: groups_ok_def names_ok_def)
    qed
    ultimately have "names_ok ?gs" by (simp add: names_ok_def)
    moreover have "members_ok ?gs (delete_where (\<lambda>r. mb_group r = i) (members db))"
      using ok kept by (intro members_ok_delete) (auto simp: groups_ok_def)
    ultimately have ok': "groups_ok ?db" using ok by (simp add: groups_ok_def)
    have none: "count_where (\<lambda>m. mb_group m = i) (members ?db) = 0" by (simp add: count_where_0 set_delete_where)
    obtain r where r: "r \<in> set (groups db)" "?p r" using False unfolding count_where_0 by blast
    have g: "\<exists>r \<in> set (groups ?db). g_id r = i \<and> g_account r = acc" using kept [OF r(1)] r(2) by simp
    show ?thesis using write_members_ok [OF ok' none res g] False res by (simp add: update_send_group_def Let_def)
  qed
qed

lemma delete_ok: "groups_ok db \<Longrightarrow> groups_ok (snd (delete_send_group acc i db))"
proof -
  assume ok: "groups_ok db"
  let ?p = "\<lambda>r. g_account r = acc \<and> g_id r = i"
  have "names_ok (delete_where ?p (groups db))"
    using ok by (auto simp: groups_ok_def names_ok_def delete_where_def distinct_map_filter)
  moreover have "members_ok (delete_where ?p (groups db)) (delete_where (\<lambda>r. mb_group r = i) (members db))"
    using ok by (intro members_ok_delete [of "groups db"]) (auto simp: groups_ok_def set_delete_where)
  ultimately show ?thesis using ok by (simp add: delete_send_group_def Let_def groups_ok_def)
qed


text \<open>The recorded sends.\<close>

lemma record_recipient_frame [simp]:
  "groups (record_recipient acc i r db) = groups db" "members (record_recipient acc i r db) = members db"
  "sends (record_recipient acc i r db) = sends db"
  by (simp_all add: record_recipient_def Let_def)

lemma sends_ok_update:
  assumes "sends_ok ss rs" "\<And>r. rc_send (f r) = rc_send r \<and> rc_account (f r) = rc_account r \<and> rc_addr (f r) = rc_addr r"
  shows "sends_ok ss (update_where p f rs)"
proof -
  have keys: "(rc_send (if p r then f r else r), rc_addr (if p r then f r else r)) = (rc_send r, rc_addr r)" for r
    using assms(2) by simp
  have "map (\<lambda>r. (rc_send r, rc_addr r)) (update_where p f rs) = map (\<lambda>r. (rc_send r, rc_addr r)) rs"
    unfolding update_where_def map_map comp_def keys ..
  moreover have "\<exists>s \<in> set ss. s_id s = rc_send r \<and> s_account s = rc_account r" if r: "r \<in> set (update_where p f rs)" for r
  proof -
    from r obtain q where q: "q \<in> set rs" "r = (if p q then f q else q)" by (elim update_whereE)
    then have "rc_send r = rc_send q" "rc_account r = rc_account q" using assms(2) by simp_all
    with q(1) assms(1) show ?thesis by (auto simp: sends_ok_def)
  qed
  ultimately show ?thesis using assms(1) by (simp add: sends_ok_def)
qed

lemma record_recipient_ok:
  assumes "sends_ok (sends db) (recipients db)" "\<exists>s \<in> set (sends db). s_id s = i \<and> s_account s = acc"
  shows "sends_ok (sends db) (recipients (record_recipient acc i r db))"
proof (cases "list_ex (\<lambda>q. rc_send q = i \<and> rc_addr q = normalize_addr (sr_addr r)) (recipients db)")
  case True
  then show ?thesis using assms(1) by (simp add: record_recipient_def Let_def sends_ok_update)
next
  case False
  then have "(i, normalize_addr (sr_addr r)) \<notin> (\<lambda>r. (rc_send r, rc_addr r)) ` set (recipients db)" by (auto simp: list_ex_iff)
  with False assms show ?thesis by (simp add: record_recipient_def Let_def sends_ok_def)
qed

lemma fold_recipients_ok:
  assumes "groups_ok db" "\<exists>s \<in> set (sends db). s_id s = i \<and> s_account s = acc"
  shows "groups_ok (fold (record_recipient acc i) rs db) \<and> sends (fold (record_recipient acc i) rs db) = sends db"
  using assms
proof (induction rs arbitrary: db)
  case (Cons r rs)
  then have "groups_ok (record_recipient acc i r db)" using record_recipient_ok by (simp add: groups_ok_def)
  with Cons show ?case by simp
qed simp

lemma record_ok: "groups_ok db \<Longrightarrow> groups_ok (snd (record_group_send acc g subject mode at rs db))"
proof -
  assume ok: "groups_ok db"
  let ?i = "fresh_id (map s_id (sends db))"
  let ?s = "mk_send ?i (acc, g, subject, mode, at, int (length rs))" let ?db = "db\<lparr>sends := sends db @ [?s]\<rparr>"
  have "?i \<notin> s_id ` set (sends db)" using fresh_id_new [of ?i "map s_id (sends db)"] by auto
  then have "sends_ok (sends db @ [?s]) (recipients db)"
    using ok by (auto simp: groups_ok_def sends_ok_def mk_send_def)
  then have ok': "groups_ok ?db" using ok by (simp add: groups_ok_def)
  have "\<exists>s \<in> set (sends ?db). s_id s = ?i \<and> s_account s = acc" by (simp add: mk_send_def)
  from fold_recipients_ok [OF ok' this] show ?thesis by (simp add: record_group_send_def Let_def mk_send_def)
qed

lemma set_result_ok: "groups_ok db \<Longrightarrow> groups_ok (snd (set_group_send_result acc i addr status message error db))"
  by (simp add: set_group_send_result_def Let_def groups_ok_def sends_ok_update)

lemma fail_pending_ok: "groups_ok db \<Longrightarrow> groups_ok (snd (fail_pending_group_sends acc reason db))"
  by (simp add: fail_pending_group_sends_def Let_def groups_ok_def sends_ok_update)

section \<open>The store as a machine\<close>

datatype op =
    Create int string group_mode string "new_member list" instant
  | Update int int string group_mode string "new_member list" instant
  | Delete int int
  | RecordSend int int string group_mode instant "send_recipient list"
  | SetResult int int string send_status "int option" "string option"
  | FailPending int string
  | SyncMessage int int "string list"

datatype answer = Made "group_error + int" | Changed "group_error + bool" | Did bool | Logged int | Marked nat | Done

primrec step :: "op \<Rightarrow> groups_db \<Rightarrow> answer \<times> groups_db" where
  "step (Create acc name mode note ms now) db = apfst Made (create_send_group acc name mode note ms now db)"
| "step (Update acc i name mode note ms now) db = apfst Changed (update_send_group acc i name mode note ms now db)"
| "step (Delete acc i) db = apfst Did (delete_send_group acc i db)"
| "step (RecordSend acc g subject mode at rs) db = apfst Logged (record_group_send acc g subject mode at rs db)"
| "step (SetResult acc i addr status message error) db = apfst Did (set_group_send_result acc i addr status message error db)"
| "step (FailPending acc reason) db = apfst Marked (fail_pending_group_sends acc reason db)"
| "step (SyncMessage acc m addrs) db = (Done, sync_message_recipients acc m addrs db)"

lemma sync_ok: "groups_ok db \<Longrightarrow> groups_ok (sync_message_recipients acc m addrs db)"
  by (simp add: sync_message_recipients_def Let_def groups_ok_def)

interpretation gs: invariant_machine step groups_ok
proof
  show "groups_ok (snd (step x db))" if "groups_ok db" for x db
    using that by (cases x) (auto simp: create_ok update_ok delete_ok record_ok set_result_ok fail_pending_ok sync_ok)
qed

text \<open>C35. Whatever is created, changed, deleted and recorded, no account has two groups of one name up to case and
  spacing, and none without a name; a group lists an address once, in its normal form and with something on
  either side of an @, and at most a hundred of them; its members are its own account's; and a recorded
  send keeps one line a recipient.\<close>
theorem groups_stay_well_formed: "groups_ok (final step xs no_groups)"
  by (rule gs.inv_final) (simp add: groups_ok_def names_ok_def members_ok_def sends_ok_def no_groups_def)


section \<open>The record of a fan-out\<close>

lemma resolved_addrs:
  assumes "groups_ok db" "resolve_group acc g db' db = Inr au"
  shows "au_group au = g \<and> distinct (au_addrs au) \<and> set (au_addrs au) = mb_addr ` {m \<in> set (members db). mb_account m = acc \<and> mb_group m = g}
    \<and> list_all (\<lambda>a. normalize_addr a = a) (au_addrs au)"
proof -
  let ?M = "filter (\<lambda>m. mb_account m = acc \<and> mb_group m = g) (members db)"
  have au: "au_addrs au = map mb_addr (sort_key member_key ?M)" "au_group au = g"
    using assms(2) by (auto simp: resolve_group_def send_group_addrs_def Let_def split: option.splits if_splits)
  have "distinct (map (\<lambda>m. (mb_group m, mb_addr m)) ?M)" using assms(1) by (simp add: groups_ok_def members_ok_def distinct_map_filter)
  then have "distinct (map mb_addr ?M)" by (auto simp: distinct_map inj_on_def)
  then have "distinct (au_addrs au)" unfolding au(1) by (simp add: distinct_map)
  moreover have "list_all (\<lambda>a. normalize_addr a = a) (au_addrs au)"
    using assms(1) by (auto simp: au(1) list_all_iff groups_ok_def members_ok_def mailbox_def)
  ultimately show ?thesis using au by auto
qed

definition pending_row :: "int \<Rightarrow> int \<Rightarrow> string \<Rightarrow> recipient_row" where
  "pending_row acc i a = \<lparr>rc_send = i, rc_account = acc, rc_addr = a, rc_message = None, rc_status = Pending, rc_error = None\<rparr>"

definition settled_row :: "(string \<Rightarrow> string + int option) \<Rightarrow> int \<Rightarrow> int \<Rightarrow> string \<Rightarrow> recipient_row" where
  "settled_row send acc i a = (case send a of
     Inr message \<Rightarrow> (pending_row acc i a)\<lparr>rc_message := message, rc_status := Sent\<rparr>
   | Inl reason \<Rightarrow> (pending_row acc i a)\<lparr>rc_status := Failed, rc_error := Some reason\<rparr>)"

lemma record_new:
  assumes "distinct as" "list_all (\<lambda>a. normalize_addr a = a) as"
    "\<And>r a. r \<in> set (recipients db) \<Longrightarrow> a \<in> set as \<Longrightarrow> \<not> (rc_send r = i \<and> rc_addr r = a)"
  shows "recipients (fold (record_recipient acc i) (map (\<lambda>a. \<lparr>sr_addr = a, sr_message = None, sr_status = Pending, sr_error = None\<rparr>) as) db)
    = recipients db @ map (pending_row acc i) as"
  using assms
proof (induction as arbitrary: db)
  case (Cons a as)
  let ?r = "\<lparr>sr_addr = a, sr_message = None, sr_status = Pending, sr_error = None\<rparr>"
  have "\<not> list_ex (\<lambda>q. rc_send q = i \<and> rc_addr q = a) (recipients db)"
    unfolding list_ex_iff using Cons.prems(3) [of _ a] by simp
  then have one: "recipients (record_recipient acc i ?r db) = recipients db @ [pending_row acc i a]"
    using Cons.prems(2) by (simp add: record_recipient_def pending_row_def)
  have "\<not> (rc_send r = i \<and> rc_addr r = x)" if "r \<in> set (recipients (record_recipient acc i ?r db))" "x \<in> set as" for r x
  proof (cases "r \<in> set (recipients db)")
    case True
    then show ?thesis using Cons.prems(3) [of r x] that(2) by simp
  next
    case False
    then have "r = pending_row acc i a" using that(1) by (simp add: one)
    then show ?thesis using Cons.prems(1) that(2) by (auto simp: pending_row_def)
  qed
  then have "recipients (fold (record_recipient acc i) (map (\<lambda>a. \<lparr>sr_addr = a, sr_message = None, sr_status = Pending, sr_error = None\<rparr>) as)
      (record_recipient acc i ?r db)) = recipients (record_recipient acc i ?r db) @ map (pending_row acc i) as"
    using Cons.prems(1,2) by (intro Cons.IH) simp_all
  then show ?case by (simp add: one)
qed simp

lemma settle_one_recipients:
  assumes "normalize_addr a = a" "\<And>r. r \<in> set P \<union> set Q \<Longrightarrow> \<not> (rc_send r = i \<and> rc_addr r = a)"
    and "recipients db = P @ pending_row acc i a # Q"
  shows "recipients (settle_one send acc i a db) = P @ settled_row send acc i a # Q"
proof -
  have keep: "update_where (\<lambda>q. rc_account q = acc \<and> rc_send q = i \<and> rc_addr q = a) f R = R"
    if "\<And>r. r \<in> set R \<Longrightarrow> \<not> (rc_send r = i \<and> rc_addr r = a)" for R and f :: "recipient_row \<Rightarrow> recipient_row"
    using that by (intro update_where_none) (auto simp: count_where_0)
  have app: "update_where p f (P @ x # Q) = update_where p f P @ (if p x then f x else x) # update_where p f Q"
    for p and f :: "recipient_row \<Rightarrow> recipient_row" and x by (simp add: update_where_def)
  show ?thesis
    using keep [of P] keep [of Q] assms
    by (cases "send a") (simp_all add: settle_one_def set_group_send_result_def Let_def app settled_row_def pending_row_def split: option.splits)
qed

lemma settle_prefix:
  assumes "distinct as" "list_all (\<lambda>a. normalize_addr a = a) as" "recipients db = P @ map (pending_row acc i) as @ Q"
    "\<And>r a. r \<in> set P \<union> set Q \<Longrightarrow> a \<in> set as \<Longrightarrow> \<not> (rc_send r = i \<and> rc_addr r = a)"
  shows "recipients (fold (settle_one send acc i) as db) = P @ map (settled_row send acc i) as @ Q"
  using assms
proof (induction as arbitrary: db P)
  case (Cons a as)
  have key: "rc_send (settled_row send acc i a) = i \<and> rc_addr (settled_row send acc i a) = a"
    by (simp add: settled_row_def pending_row_def split: sum.splits)
  have rest: "\<not> (rc_send r = i \<and> rc_addr r = a)" if "r \<in> set P \<union> set (map (pending_row acc i) as @ Q)" for r
  proof (cases "r \<in> set P \<union> set Q")
    case True
    then show ?thesis using Cons.prems(4) by simp
  next
    case False
    then have "r \<in> pending_row acc i ` set as" using that by auto
    then show ?thesis using Cons.prems(1) by (auto simp: pending_row_def)
  qed
  have a: "normalize_addr a = a" using Cons.prems(2) by simp
  have "recipients db = P @ pending_row acc i a # map (pending_row acc i) as @ Q" using Cons.prems(3) by simp
  from settle_one_recipients [OF a rest this]
  have one: "recipients (settle_one send acc i a db) = (P @ [settled_row send acc i a]) @ map (pending_row acc i) as @ Q" by simp
  have "\<not> (rc_send r = i \<and> rc_addr r = x)" if "r \<in> set (P @ [settled_row send acc i a]) \<union> set Q" "x \<in> set as" for r x
  proof (cases "r \<in> set P \<union> set Q")
    case True
    then show ?thesis using Cons.prems(4) [of r x] that(2) by simp
  next
    case False
    then have "r = settled_row send acc i a" using that(1) by simp
    then show ?thesis using key Cons.prems(1) that(2) by auto
  qed
  then have "recipients (fold (settle_one send acc i) as (settle_one send acc i a db))
      = (P @ [settled_row send acc i a]) @ map (settled_row send acc i) as @ Q"
    using Cons.prems(1,2) by (intro Cons.IH [OF _ _ one]) simp_all
  then show ?case by simp
qed simp


text \<open>C22. A fan-out's record is true at every moment: it opens with one pending line for each member of the group,
  once each, and after the first \<open>k\<close> members were written to exactly their lines tell how that went and
  the rest still wait. No earlier record is touched.\<close>
theorem fan_out_record_is_true:
  assumes "groups_ok db0" "resolve_group acc g db db0 = Inr au" "groups_ok db'" "start_fan_out acc au subject now db' = (i, started)"
  shows "recipients (fold (settle_one send acc i) (take k (au_addrs au)) started) = recipients db'
      @ map (settled_row send acc i) (take k (au_addrs au)) @ map (pending_row acc i) (drop k (au_addrs au))
    \<and> distinct (au_addrs au) \<and> set (au_addrs au) = mb_addr ` {m \<in> set (members db0). mb_account m = acc \<and> mb_group m = g}"
proof -
  let ?as = "au_addrs au"
  note au = resolved_addrs [OF assms(1,2)]
  have i: "i = fresh_id (map s_id (sends db'))" using assms(4) by (simp add: start_fan_out_def record_group_send_def Let_def mk_send_def)
  have old: "rc_send r \<noteq> i" if r: "r \<in> set (recipients db')" for r
  proof -
    obtain s where s: "s \<in> set (sends db')" "s_id s = rc_send r" using assms(3) r unfolding groups_ok_def sends_ok_def by blast
    have "s_id s \<in> set (map s_id (sends db'))" using s(1) by simp
    from fresh_id_new [OF this] show ?thesis using s(2) i by simp
  qed
  have started: "recipients started = recipients db' @ map (pending_row acc i) ?as"
  proof -
    let ?db = "db'\<lparr>sends := sends db' @ [mk_send i (acc, au_group au, subject, Individual, now, int (length ?as))]\<rparr>"
    have "started = fold (record_recipient acc i) (map (\<lambda>a. \<lparr>sr_addr = a, sr_message = None, sr_status = Pending, sr_error = None\<rparr>) ?as) ?db"
      using assms(4) by (auto simp: start_fan_out_def record_group_send_def Let_def mk_send_def)
    moreover have "recipients ?db = recipients db'" by simp
    ultimately show ?thesis using record_new [of ?as ?db i acc] au old by simp
  qed
  have "recipients started = recipients db' @ map (pending_row acc i) (take k ?as) @ map (pending_row acc i) (drop k ?as)"
    unfolding started map_append [symmetric] append_take_drop_id ..
  moreover have "distinct (take k ?as)" "list_all (\<lambda>a. normalize_addr a = a) (take k ?as)"
    using au by (auto simp: list_all_iff dest: in_set_takeD)
  moreover have "\<not> (rc_send r = i \<and> rc_addr r = a)"
    if "r \<in> set (recipients db') \<union> set (map (pending_row acc i) (drop k ?as))" "a \<in> set (take k ?as)" for r a
  proof -
    have "a \<notin> set (drop k ?as)" using that(2) au set_take_disj_set_drop_if_distinct [of ?as k k] by blast
    moreover have "rc_addr r \<in> set (drop k ?as)" if "r \<in> set (map (pending_row acc i) (drop k ?as))"
      using that by (auto simp: pending_row_def)
    ultimately show ?thesis using that(1) old by auto
  qed
  ultimately show ?thesis using settle_prefix [of "take k ?as" started "recipients db'" acc i "map (pending_row acc i) (drop k ?as)" send] au
    by blast
qed

theorem fan_out_record_is_true_witness:
  "let db = snd (create_send_group 1 ''Board'' Individual [] [\<lparr>nm_addr = ''a@x'', nm_name = None\<rparr>, \<lparr>nm_addr = ''b@y'', nm_name = None\<rparr>] 0 no_groups);
       (i, started) = start_fan_out 1 \<lparr>au_group = 1, au_mode = Individual, au_addrs = [''a@x'', ''b@y'']\<rparr> ''Hi'' 5 db
   in map rc_status (recipients (fold (settle_one (\<lambda>a. Inr None) 1 i) (take 1 [''a@x'', ''b@y'']) started)) = [Sent, Pending]"
proof -
  let ?op = "Create 1 ''Board'' Individual [] [\<lparr>nm_addr = ''a@x'', nm_name = None\<rparr>, \<lparr>nm_addr = ''b@y'', nm_name = None\<rparr>] 0"
  let ?db = "snd (create_send_group 1 ''Board'' Individual [] [\<lparr>nm_addr = ''a@x'', nm_name = None\<rparr>, \<lparr>nm_addr = ''b@y'', nm_name = None\<rparr>] 0 no_groups)"
  let ?au = "\<lparr>au_group = 1, au_mode = Individual, au_addrs = [''a@x'', ''b@y'']\<rparr>"
  have "groups_ok no_groups" by (simp add: groups_ok_def names_ok_def members_ok_def sends_ok_def no_groups_def)
  then have ok: "groups_ok ?db" by (rule create_ok)
  have r: "resolve_group 1 1 ?db ?db = Inr ?au" by code_simp
  obtain i started where st: "start_fan_out 1 ?au ''Hi'' 5 ?db = (i, started)" by (cases "start_fan_out 1 ?au ''Hi'' 5 ?db")
  have "recipients ?db = []" by code_simp
  with fan_out_record_is_true [OF ok r ok st, of "\<lambda>a. Inr None" 1] st show ?thesis
    by (simp add: settled_row_def pending_row_def Let_def)
qed

end
