(* ===== verification/Mail_Headers.thy ===== *)
theory Mail_Headers
  imports Rust_Text
begin

text \<open>
  Who a reply goes to and what it is called (\<open>squelch-api/src/gmail_write.rs\<close>): subjects, the reference
  chain, and the recipients derived from the headers of the mail replied to, which its sender wrote.

  The parser of address lists is the crate \<open>mail-parser\<close>: it is the argument \<open>parser\<close>, which gives for a
  message the addresses of its \<open>To\<close> header, each present or not, or nothing.
\<close>

section \<open>Subjects and references\<close>

text \<open>\<open>str::get(..n)\<close>: nothing past the end or inside a character.\<close>

fun get_to :: "nat \<Rightarrow> string \<Rightarrow> string option" where
  "get_to 0 s = Some []"
| "get_to (Suc n) [] = None"
| "get_to (Suc n) (c # s) =
     (if byte_len [c] \<le> Suc n then map_option (Cons c) (get_to (Suc n - byte_len [c]) s) else None)"

definition eq_ignore_ascii_case :: "string \<Rightarrow> string \<Rightarrow> bool" where
  "eq_ignore_ascii_case a b \<longleftrightarrow> to_ascii_lowercase a = to_ascii_lowercase b"

definition prefixed :: "string \<Rightarrow> string \<Rightarrow> bool" where
  "prefixed p s \<longleftrightarrow> (case get_to (length p) s of Some t \<Rightarrow> eq_ignore_ascii_case t p | None \<Rightarrow> False)"

definition reply_subject :: "string \<Rightarrow> string" where
  "reply_subject original = (let trimmed = trim original
     in if prefixed ''re:'' trimmed then trimmed else ''Re: '' @ trimmed)"

definition forward_subject :: "string \<Rightarrow> string" where
  "forward_subject original = (let trimmed = trim original
     in if trimmed = [] then ''Fwd:''
        else if prefixed ''fwd:'' trimmed \<or> prefixed ''fw:'' trimmed then trimmed else ''Fwd: '' @ trimmed)"

definition build_references :: "string option \<Rightarrow> string option \<Rightarrow> string option" where
  "build_references parent_message_id parent_references = (case (parent_references, parent_message_id) of
     (Some refs, Some mid) \<Rightarrow> Some (refs @ '' '' @ mid) | (Some refs, None) \<Rightarrow> Some refs
   | (None, Some mid) \<Rightarrow> Some mid | (None, None) \<Rightarrow> None)"

section \<open>Addresses\<close>

definition addr_is_emittable :: "string \<Rightarrow> bool" where
  "addr_is_emittable addr \<longleftrightarrow> (case split_on (CHR ''@'') addr of
     [local, domain] \<Rightarrow> local \<noteq> [] \<and> domain \<noteq> []
       \<and> \<not> list_ex (\<lambda>c. is_control c \<or> is_whitespace c \<or> c \<in> {CHR '','', CHR ''<'', CHR ''>'', CHR 0x22, CHR '';'', CHR '':'', CHR 0x5C}) addr
   | _ \<Rightarrow> False)"

definition is_name_char :: "char \<Rightarrow> bool" where
  "is_name_char c \<longleftrightarrow> is_ascii_lower c \<or> is_ascii_upper c \<or> c = CHR ''-''"

text \<open>The scan for a header name: in a quote or not, the depth of angles, where a name began, the position.\<close>

fun scan_name :: "bool \<Rightarrow> int \<Rightarrow> nat option \<Rightarrow> nat \<Rightarrow> string \<Rightarrow> nat option" where
  "scan_name in_quote angle_depth token_start i [] = None"
| "scan_name in_quote angle_depth token_start i (b # bs) =
     (if b = CHR 0x22 then scan_name (\<not> in_quote) angle_depth None (Suc i) bs
      else if b = CHR ''<'' \<and> \<not> in_quote then scan_name in_quote (angle_depth + 1) None (Suc i) bs
      else if b = CHR ''>'' \<and> \<not> in_quote then scan_name in_quote (max (angle_depth - 1) 0) None (Suc i) bs
      else if b = CHR '':'' \<and> \<not> in_quote \<and> angle_depth = 0 then
        (case token_start of Some start \<Rightarrow> Some start | None \<Rightarrow> scan_name in_quote angle_depth None (Suc i) bs)
      else if in_quote \<or> 0 < angle_depth then scan_name in_quote angle_depth token_start (Suc i) bs
      else if is_name_char b then
        scan_name in_quote angle_depth (case token_start of None \<Rightarrow> Some i | Some t \<Rightarrow> Some t) (Suc i) bs
      else scan_name in_quote angle_depth None (Suc i) bs)"

definition truncate_at_injected_header :: "string \<Rightarrow> string" where
  "truncate_at_injected_header value = (case scan_name False 0 None 0 value of Some start \<Rightarrow> take start value | None \<Rightarrow> value)"

definition parse_addr_list :: "(string \<Rightarrow> string option list option) \<Rightarrow> string \<Rightarrow> string list" where
  "parse_addr_list parser value = (if trim value = [] then []
     else let flattened = map (\<lambda>c. if c = CHR 0x0D \<or> c = CHR 0x0A then CHR '' '' else c) value;
              sanitized = truncate_at_injected_header flattened;
              synthetic = ''To: '' @ sanitized @ [CHR 0x0D, CHR 0x0A, CHR 0x0D, CHR 0x0A]
          in case parser synthetic of None \<Rightarrow> []
             | Some addrs \<Rightarrow> filter addr_is_emittable (map trim (List.map_filter id addrs)))"

definition contains_addr :: "string list \<Rightarrow> string \<Rightarrow> bool" where
  "contains_addr seen addr \<longleftrightarrow> to_ascii_lowercase addr \<in> set seen"

section \<open>Recipients of a reply\<close>

record parent_headers =
  h_message_id :: "string option"
  h_references :: "string option"
  h_reply_to :: "string option"
  h_from :: "string option"
  h_to :: "string option"
  h_cc :: "string option"

text \<open>The headers of the parent as Gmail lists them: of a repeated one the values are joined, but of the two that name
  messages the last counts.\<close>

definition append_value :: "string option \<Rightarrow> string \<Rightarrow> string option" where
  "append_value slot value = (case slot of Some existing \<Rightarrow> Some (existing @ '', '' @ value) | None \<Rightarrow> Some value)"

definition take_header :: "parent_headers \<Rightarrow> string \<times> string \<Rightarrow> parent_headers" where
  "take_header out = (\<lambda>(name, value).
     if eq_ignore_ascii_case name ''message-id'' then out\<lparr>h_message_id := Some value\<rparr>
     else if eq_ignore_ascii_case name ''references'' then out\<lparr>h_references := Some value\<rparr>
     else if eq_ignore_ascii_case name ''reply-to'' then out\<lparr>h_reply_to := append_value (h_reply_to out) value\<rparr>
     else if eq_ignore_ascii_case name ''from'' then out\<lparr>h_from := append_value (h_from out) value\<rparr>
     else if eq_ignore_ascii_case name ''to'' then out\<lparr>h_to := append_value (h_to out) value\<rparr>
     else if eq_ignore_ascii_case name ''cc'' then out\<lparr>h_cc := append_value (h_cc out) value\<rparr>
     else out)"

definition read_parent_headers :: "(string \<times> string) list \<Rightarrow> parent_headers" where
  "read_parent_headers headers = foldl take_header
     \<lparr>h_message_id = None, h_references = None, h_reply_to = None, h_from = None, h_to = None, h_cc = None\<rparr> headers"

record reply_recipients =
  to_line :: string
  cc_line :: string

fun copy_unseen :: "string list \<Rightarrow> string list \<Rightarrow> string list \<Rightarrow> string list" where
  "copy_unseen seen cc [] = cc"
| "copy_unseen seen cc (addr # addrs) =
     (if contains_addr seen addr then copy_unseen seen cc addrs
      else copy_unseen (seen @ [to_ascii_lowercase addr]) (cc @ [addr]) addrs)"

definition reply_to_list :: "(string \<Rightarrow> string list) \<Rightarrow> parent_headers \<Rightarrow> string \<Rightarrow> bool \<Rightarrow> string list" where
  "reply_to_list parse headers own reply_all =
     (let from = parse (case h_from headers of Some v \<Rightarrow> v | None \<Rightarrow> []);
          reply_to = parse (case h_reply_to headers of Some v \<Rightarrow> v | None \<Rightarrow> []);
          to = (if reply_to = [] then from else reply_to)
      in if \<not> reply_all then to
         else let header_to = parse (case h_to headers of Some v \<Rightarrow> v | None \<Rightarrow> []);
                  promoted = filter (\<lambda>a. to_ascii_lowercase a \<noteq> own) header_to
              in if own \<noteq> [] \<and> to \<noteq> [] \<and> list_all (\<lambda>a. to_ascii_lowercase a = own) to \<and> promoted \<noteq> [] then promoted else to)"

definition reply_cc_list :: "(string \<Rightarrow> string list) \<Rightarrow> parent_headers \<Rightarrow> string \<Rightarrow> bool \<Rightarrow> string list" where
  "reply_cc_list parse headers own reply_all =
     (if \<not> reply_all then []
      else copy_unseen (map to_ascii_lowercase (reply_to_list parse headers own reply_all) @ (if own \<noteq> [] then [own] else [])) []
             (parse (case h_to headers of Some v \<Rightarrow> v | None \<Rightarrow> []) @ parse (case h_cc headers of Some v \<Rightarrow> v | None \<Rightarrow> [])))"

definition derive_reply_recipients :: "(string \<Rightarrow> string option list option) \<Rightarrow> parent_headers \<Rightarrow> string \<Rightarrow> bool \<Rightarrow> reply_recipients" where
  "derive_reply_recipients parser headers own_addr reply_all =
     (let own = to_ascii_lowercase (trim own_addr)
      in \<lparr>to_line = join '', '' (reply_to_list (parse_addr_list parser) headers own reply_all),
          cc_line = join '', '' (reply_cc_list (parse_addr_list parser) headers own reply_all)\<rparr>)"

definition count_addrs :: "(string \<Rightarrow> string option list option) \<Rightarrow> string \<Rightarrow> nat" where
  "count_addrs parser value = length (parse_addr_list parser value)"

definition kept_addrs :: "(string \<Rightarrow> string list) \<Rightarrow> string \<Rightarrow> string list \<Rightarrow> string list" where
  "kept_addrs parse xs exclude =
     (let excluded = map to_ascii_lowercase (concat (map parse exclude))
      in filter (\<lambda>a. \<not> contains_addr excluded a) (parse xs))"

definition addrs_excluding :: "(string \<Rightarrow> string option list option) \<Rightarrow> string \<Rightarrow> string list \<Rightarrow> string" where
  "addrs_excluding parser xs exclude = join '', '' (kept_addrs (parse_addr_list parser) xs exclude)"

definition cc_excluding :: "(string \<Rightarrow> string option list option) \<Rightarrow> string \<Rightarrow> string \<Rightarrow> string" where
  "cc_excluding parser cc to = addrs_excluding parser cc [to]"


section \<open>What a recipient line names\<close>

definition named :: "string \<Rightarrow> string list" where
  "named line = (if line = [] then [] else map trim (split_on (CHR '','') line))"

lemma emittable_chars:
  assumes "addr_is_emittable a"
  shows "a \<noteq> []" "CHR '','' \<notin> set a" "\<And>c. c \<in> set a \<Longrightarrow> \<not> is_whitespace c \<and> \<not> is_control c"
proof -
  let ?bad = "\<lambda>c. is_control c \<or> is_whitespace c \<or> c \<in> {CHR '','', CHR ''<'', CHR ''>'', CHR 0x22, CHR '';'', CHR '':'', CHR 0x5C}"
  have ok: "\<not> list_ex ?bad a" "a \<noteq> []"
    using assms unfolding addr_is_emittable_def by (cases a; simp split: list.splits)+
  then have "\<not> ?bad c" if "c \<in> set a" for c using that unfolding list_ex_iff by blast
  then show "CHR '','' \<notin> set a" "\<And>c. c \<in> set a \<Longrightarrow> \<not> is_whitespace c \<and> \<not> is_control c" by blast+
  show "a \<noteq> []" by (rule ok(2))
qed

lemma split_on_join:
  assumes "q \<noteq> CHR '' ''" "list_all (\<lambda>a. q \<notin> set a) (a # as)"
  shows "split_on q (join [q, CHR '' ''] (a # as)) = a # map (Cons (CHR '' '')) as"
  using assms(2)
proof (induction as arbitrary: a)
  case Nil
  then show ?case by (simp add: split_on_fresh)
next
  case (Cons b as)
  have "split_on q (join [q, CHR '' ''] (a # b # as)) = a # split_on q (CHR '' '' # join [q, CHR '' ''] (b # as))"
    using Cons.prems by (simp add: split_on_append)
  also have "split_on q (CHR '' '' # join [q, CHR '' ''] (b # as)) = (CHR '' '' # b) # map (Cons (CHR '' '')) as"
    using Cons assms(1) by simp
  finally show ?case by simp
qed

lemma trim_emittable: "addr_is_emittable a \<Longrightarrow> trim a = a" "addr_is_emittable a \<Longrightarrow> trim (CHR '' '' # a) = a"
proof -
  assume a: "addr_is_emittable a"
  then show t: "trim a = a" using emittable_chars(3) by (intro trim_no_ws) blast
  have "is_whitespace CHR '' ''" by code_simp
  with t show "trim (CHR '' '' # a) = a" by (simp add: trim_def trim_start_def)
qed

lemma named_join:
  assumes "list_all addr_is_emittable as"
  shows "named (join '', '' as) = as"
proof (cases as)
  case Nil
  then show ?thesis by (simp add: named_def)
next
  case (Cons a bs)
  have "list_all (\<lambda>a. CHR '','' \<notin> set a) (a # bs)" using assms emittable_chars(2) unfolding Cons list_all_iff by blast
  then have s: "split_on CHR '','' (join '', '' as) = a # map (Cons (CHR '' '')) bs"
    unfolding Cons by (intro split_on_join) simp_all
  have "join '', '' as \<noteq> []" using assms emittable_chars(1) by (cases bs) (auto simp: Cons)
  moreover have "map trim (a # map (Cons (CHR '' '')) bs) = a # bs"
    using assms trim_emittable by (auto simp: Cons list_all_iff intro!: map_idI)
  ultimately show ?thesis unfolding named_def s by (simp add: Cons)
qed

lemma set_join: "set (join sep ws) \<subseteq> set sep \<union> \<Union> (set ` set ws)"
  by (induction sep ws rule: join.induct) auto

lemma join_one_line:
  assumes "list_all addr_is_emittable as"
  shows "\<not> list_ex is_control (join '', '' as)"
proof -
  have "\<not> is_control CHR '',''" "\<not> is_control CHR '' ''" by code_simp+
  moreover have "set (join '', '' as) \<subseteq> {CHR '','', CHR '' ''} \<union> \<Union> (set ` set as)" using set_join [of "'', ''" as] by simp
  ultimately show ?thesis using assms emittable_chars(3) unfolding list_ex_iff list_all_iff by blast
qed

lemma parse_emittable: "list_all addr_is_emittable (parse_addr_list parser value)"
  by (auto simp: parse_addr_list_def Let_def list_all_iff split: option.splits)

lemma set_copy_unseen: "set (copy_unseen seen cc as) \<subseteq> set cc \<union> set as"
  by (induction seen cc as rule: copy_unseen.induct) auto

lemma reply_lists_emittable:
  "list_all addr_is_emittable (reply_to_list (parse_addr_list parser) headers own all)"
  "list_all addr_is_emittable (reply_cc_list (parse_addr_list parser) headers own all)"
proof -
  show "list_all addr_is_emittable (reply_to_list (parse_addr_list parser) headers own all)"
    using parse_emittable [of parser] by (auto simp: reply_to_list_def Let_def list_all_iff)
  show "list_all addr_is_emittable (reply_cc_list (parse_addr_list parser) headers own all)"
    using parse_emittable [of parser] set_copy_unseen by (fastforce simp: reply_cc_list_def list_all_iff)
qed

text \<open>Whatever the headers of a mail say and whatever the parser makes of them, the lines a reply to it
  carries are lists of bare addresses that read back as the addresses derived, each of them in a shape
  that can be sent, and neither line holds a control character, so none can open a header.\<close>
theorem derived_lines_read_back:
  "let r = derive_reply_recipients parser headers own_addr all; own = to_ascii_lowercase (trim own_addr) in
     named (to_line r) = reply_to_list (parse_addr_list parser) headers own all
   \<and> named (cc_line r) = reply_cc_list (parse_addr_list parser) headers own all
   \<and> list_all addr_is_emittable (named (to_line r) @ named (cc_line r))
   \<and> \<not> list_ex is_control (to_line r @ cc_line r)"
  using reply_lists_emittable [of parser headers "to_ascii_lowercase (trim own_addr)" all]
  by (simp add: derive_reply_recipients_def Let_def named_join join_one_line)

lemma copy_unseen_lower:
  assumes "distinct (map to_ascii_lowercase cc)" "set (map to_ascii_lowercase cc) \<subseteq> set seen"
  shows "distinct (map to_ascii_lowercase (copy_unseen seen cc as))
    \<and> set (map to_ascii_lowercase (copy_unseen seen cc as)) = set (map to_ascii_lowercase cc) \<union> (set (map to_ascii_lowercase as) - set seen)"
  using assms
proof (induction seen cc as rule: copy_unseen.induct)
  case (2 seen cc addr addrs)
  show ?case
  proof (cases "contains_addr seen addr")
    case True
    with 2 show ?thesis by (auto simp: contains_addr_def)
  next
    case False
    then have "distinct (map to_ascii_lowercase (cc @ [addr]))" using 2(3,4) by (auto simp: contains_addr_def)
    moreover have "set (map to_ascii_lowercase (cc @ [addr])) \<subseteq> set (seen @ [to_ascii_lowercase addr])" using 2(4) by auto
    ultimately show ?thesis using 2(2) [OF False] False by (auto simp: contains_addr_def)
  qed
qed simp

text \<open>C24. A reply to all leaves nobody out and writes to nobody twice: up to case, the copied addresses are
  exactly those the mail named in its To and Cc, but for the account's own and those the reply is
  addressed to.\<close>
theorem reply_all_reaches_everyone_once:
  "let r = derive_reply_recipients parser headers own_addr True; low = map to_ascii_lowercase;
       the_room = parse_addr_list parser (case h_to headers of Some v \<Rightarrow> v | None \<Rightarrow> [])
         @ parse_addr_list parser (case h_cc headers of Some v \<Rightarrow> v | None \<Rightarrow> [])
   in distinct (low (named (cc_line r)))
    \<and> set (low (named (cc_line r))) = set (low the_room) - set (low (named (to_line r))) - {to_ascii_lowercase (trim own_addr)}"
proof -
  let ?own = "to_ascii_lowercase (trim own_addr)" let ?p = "parse_addr_list parser"
  let ?to = "reply_to_list ?p headers ?own True"
  let ?room = "?p (case h_to headers of Some v \<Rightarrow> v | None \<Rightarrow> []) @ ?p (case h_cc headers of Some v \<Rightarrow> v | None \<Rightarrow> [])"
  let ?seen = "map to_ascii_lowercase ?to @ (if ?own \<noteq> [] then [?own] else [])"
  have "list_all addr_is_emittable ?room" using parse_emittable [of parser] by simp
  then have "[] \<notin> set (map to_ascii_lowercase ?room)" using emittable_chars(1) by (auto simp: list_all_iff to_ascii_lowercase_def)
  then have "set (map to_ascii_lowercase ?room) - set ?seen = set (map to_ascii_lowercase ?room) - set (map to_ascii_lowercase ?to) - {?own}"
    by auto
  moreover have "reply_cc_list ?p headers ?own True = copy_unseen ?seen [] ?room" by (simp add: reply_cc_list_def)
  ultimately show ?thesis using copy_unseen_lower [of "[]" ?seen ?room] derived_lines_read_back [of parser headers own_addr True]
    unfolding Let_def by simp
qed


section \<open>Header names inside a value\<close>

text \<open>
  What the scan looks for: after a text that leaves quotes closed and angles balanced, a colon that ends a
  name of letters and hyphens.
\<close>

definition lex_char :: "bool \<times> int \<Rightarrow> char \<Rightarrow> bool \<times> int" where
  "lex_char = (\<lambda>(q, d) c. if c = CHR 0x22 then (\<not> q, d) else if c = CHR ''<'' \<and> \<not> q then (q, d + 1)
     else if c = CHR ''>'' \<and> \<not> q then (q, max (d - 1) 0) else (q, d))"

definition lex :: "string \<Rightarrow> bool \<times> int" where
  "lex s = foldl lex_char (False, 0) s"

definition name_before :: "string \<Rightarrow> string" where
  "name_before s = rev (takeWhile is_name_char (rev s))"

definition opens_header :: "string \<Rightarrow> nat \<Rightarrow> bool" where
  "opens_header v n \<longleftrightarrow> v ! n = CHR '':'' \<and> lex (take n v) = (False, 0) \<and> name_before (take n v) \<noteq> []"

definition token_at :: "string \<Rightarrow> nat option" where
  "token_at s = (if lex s = (False, 0) \<and> name_before s \<noteq> [] then Some (length s - length (name_before s)) else None)"

lemma lex_snoc: "lex (s @ [c]) = lex_char (lex s) c"
  by (simp add: lex_def)

lemma name_before_snoc: "name_before (s @ [c]) = (if is_name_char c then name_before s @ [c] else [])"
  by (simp add: name_before_def)

lemma name_char_plain: "is_name_char c \<Longrightarrow> c \<noteq> CHR 0x22 \<and> c \<noteq> CHR ''<'' \<and> c \<noteq> CHR ''>'' \<and> c \<noteq> CHR '':''"
proof -
  have "\<not> is_name_char CHR 0x22" "\<not> is_name_char CHR ''<''" "\<not> is_name_char CHR ''>''" "\<not> is_name_char CHR '':''" by code_simp+
  then show "is_name_char c \<Longrightarrow> ?thesis" by auto
qed

lemma depth_nonneg: "0 \<le> snd (lex s)"
  by (induction s rule: rev_induct) (auto simp: lex_snoc lex_char_def lex_def split: prod.splits)

lemma length_name_before: "length (name_before s) \<le> length s"
  by (metis length_rev length_takeWhile_le name_before_def)

lemma token_at_snoc:
  "token_at (s @ [c]) = (if lex (s @ [c]) = (False, 0) \<and> is_name_char c
     then (case token_at s of None \<Rightarrow> Some (length s) | Some t \<Rightarrow> Some t) else None)"
proof (cases "is_name_char c")
  case True
  then have "lex (s @ [c]) = lex s" using name_char_plain by (simp add: lex_snoc lex_char_def split: prod.splits)
  then show ?thesis using True length_name_before [of s] by (simp add: token_at_def name_before_snoc Suc_diff_le)
next
  case False
  then show ?thesis by (simp add: token_at_def name_before_snoc)
qed

lemma scan_name_spec:
  "scan_name (fst (lex p)) (snd (lex p)) (token_at p) (length p) s
    = map_option (\<lambda>n. n - length (name_before (take n (p @ s)))) (find (opens_header (p @ s)) [length p..<length (p @ s)])"
proof (induction s arbitrary: p)
  case Nil
  then show ?case by simp
next
  case (Cons b bs)
  obtain q d where l: "lex p = (q, d)" by (cases "lex p")
  then have d: "0 \<le> d" using depth_nonneg [of p] by simp
  have IH: "scan_name (fst (lex (p @ [b]))) (snd (lex (p @ [b]))) (token_at (p @ [b])) (Suc (length p)) bs
      = map_option (\<lambda>n. n - length (name_before (take n (p @ b # bs)))) (find (opens_header (p @ b # bs)) [Suc (length p)..<length (p @ b # bs)])"
    using Cons.IH [of "p @ [b]"] by simp
  have here: "opens_header (p @ b # bs) (length p) \<longleftrightarrow> b = CHR '':'' \<and> token_at p \<noteq> None"
    by (auto simp: opens_header_def token_at_def nth_append)
  have range: "[length p..<length (p @ b # bs)] = length p # [Suc (length p)..<length (p @ b # bs)]"
    by (simp add: upt_rec)
  show ?case
  proof (cases "b = CHR '':'' \<and> token_at p \<noteq> None")
    case True
    then have "lex p = (False, 0)" "token_at p = Some (length p - length (name_before p))" by (auto simp: token_at_def split: if_splits)
    moreover have "find (opens_header (p @ b # bs)) [length p..<length (p @ b # bs)] = Some (length p)"
      unfolding range using True here by simp
    ultimately show ?thesis using True l by simp
  next
    case False
    have "scan_name q d (token_at p) (length p) (b # bs)
      = scan_name (fst (lex (p @ [b]))) (snd (lex (p @ [b]))) (token_at (p @ [b])) (Suc (length p)) bs"
    proof (cases "is_name_char b")
      case True
      note c = name_char_plain [OF True]
      have lb: "lex (p @ [b]) = (q, d)" using c l by (simp add: lex_snoc lex_char_def)
      show ?thesis
      proof (cases "(q, d) = (False, 0)")
        case top: True
        with True c l lb show ?thesis by (simp add: token_at_snoc)
      next
        case top: False
        then have "token_at p = None" "token_at (p @ [b]) = None" using l lb by (auto simp: token_at_def)
        with top d c True lb show ?thesis by (cases q) auto
      qed
    next
      case nc: False
      then have t: "token_at (p @ [b]) = None" by (simp add: token_at_snoc)
      have deep: "token_at p = None" if "q \<or> 0 < d" using that l by (auto simp: token_at_def)
      have "\<not> is_name_char CHR '':''" by code_simp
      show ?thesis
        using nc t deep False l d by (auto simp: lex_snoc lex_char_def split: option.splits)
    qed
    moreover have "\<not> opens_header (p @ b # bs) (length p)" using False here by blast
    then have "find (opens_header (p @ b # bs)) [length p..<length (p @ b # bs)]
        = find (opens_header (p @ b # bs)) [Suc (length p)..<length (p @ b # bs)]"
      by (simp only: range find.simps if_False)
    ultimately show ?thesis using IH by (simp only: l fst_conv snd_conv)
  qed
qed

text \<open>C27. A header value is cut exactly before the name that its first top-level colon ends, and what is left of
  it has no such colon; a value without one is left whole.\<close>
theorem cut_before_the_first_header:
  "truncate_at_injected_header v = (case find (opens_header v) [0..<length v] of
       None \<Rightarrow> v | Some n \<Rightarrow> take (n - length (name_before (take n v))) v)
   \<and> find (opens_header (truncate_at_injected_header v)) [0..<length (truncate_at_injected_header v)] = None"
proof -
  have "scan_name False 0 None 0 v = map_option (\<lambda>n. n - length (name_before (take n v))) (find (opens_header v) [0..<length v])"
    using scan_name_spec [of "[]" v] by (simp add: lex_def token_at_def name_before_def)
  then have t: "truncate_at_injected_header v = (case find (opens_header v) [0..<length v] of
       None \<Rightarrow> v | Some n \<Rightarrow> take (n - length (name_before (take n v))) v)"
    by (simp add: truncate_at_injected_header_def split: option.splits)
  have "find (opens_header (truncate_at_injected_header v)) [0..<length (truncate_at_injected_header v)] = None"
  proof (cases "find (opens_header v) [0..<length v]")
    case None
    then show ?thesis by (simp add: t)
  next
    case (Some n)
    let ?k = "n - length (name_before (take n v))"
    have k: "truncate_at_injected_header v = take ?k v" by (simp add: t Some)
    have first: "\<not> opens_header v m" if "m < n" for m using Some that unfolding find_Some_iff by auto
    have n: "n < length v" using Some unfolding find_Some_iff by auto
    have "\<not> opens_header (take ?k v) m" if "m < ?k" for m
    proof -
      have "opens_header (take ?k v) m \<longleftrightarrow> opens_header v m"
        using that by (simp add: opens_header_def min_def)
      with first [of m] that show ?thesis by simp
    qed
    moreover have "x < ?k" if "x \<in> set [0..<length (take ?k v)]" for x using that by simp
    ultimately show ?thesis unfolding k find_None_iff by blast
  qed
  with t show ?thesis by blast
qed

text \<open>
  The scan knows no \<open>\\<close>: in a quoted string \<open>\"\<close> is a character of it (RFC 5322, quoted-pair). \<open>lex_pairs\<close> reads
  a value so.
\<close>

fun lex_pairs :: "bool \<times> int \<Rightarrow> string \<Rightarrow> bool \<times> int" where
  "lex_pairs st [] = st"
| "lex_pairs st [c] = lex_char st c"
| "lex_pairs st (c # b # s) = (if fst st \<and> c = CHR 0x5C then lex_pairs st s else lex_pairs (lex_char st c) (b # s))"

lemma scan_inside: "CHR 0x22 \<notin> set s \<Longrightarrow> scan_name True d None i (s @ r) = scan_name True d None (i + length s) r"
proof (induction s arbitrary: i)
  case (Cons c s)
  then have "c \<noteq> CHR 0x22" by auto
  then show ?case using Cons by simp
qed simp

lemma scan_outside:
  "CHR 0x22 \<notin> set s \<Longrightarrow> CHR '':'' \<notin> set s \<Longrightarrow> \<exists>d' i'. scan_name False d t i (s @ CHR 0x22 # r) = scan_name True d' None i' r"
proof (induction s arbitrary: d t i)
  case Nil
  show ?case by (intro exI [of _ d] exI [of _ "Suc i"]) simp
next
  case (Cons c s)
  then have c: "c \<noteq> CHR 0x22" "c \<noteq> CHR '':''" by auto
  let ?d = "if c = CHR ''<'' then d + 1 else if c = CHR ''>'' then max (d - 1) 0 else d"
  let ?t = "if c = CHR ''<'' \<or> c = CHR ''>'' then None else if 0 < d then t
    else if is_name_char c then (case t of None \<Rightarrow> Some i | Some t \<Rightarrow> Some t) else None"
  have e: "scan_name False d t i ((c # s) @ CHR 0x22 # r) = scan_name False ?d ?t (Suc i) (s @ CHR 0x22 # r)"
    using c by simp
  have "CHR 0x22 \<notin> set s" "CHR '':'' \<notin> set s" using Cons.prems by simp_all
  from Cons.IH [OF this, of ?d ?t "Suc i"] show ?case unfolding e .
qed

lemma pairs_inside:
  "CHR 0x22 \<notin> set s \<Longrightarrow> CHR 0x5C \<notin> set s \<Longrightarrow> lex_pairs (True, d) (s @ c # r) = lex_pairs (True, d) (c # r)"
proof (induction s)
  case (Cons b s)
  then show ?case by (cases "s @ c # r") (auto simp: lex_char_def)
qed simp

text \<open>An escaped quote hides a header: behind a quoted name with one escaped quote in it, everything up to the
  next quote stands outside every quote and angle, and the scan, which takes the escaped quote for the
  closing one and the closing one for another opening, cuts nothing of it, whatever header it holds.\<close>
theorem escaped_quote_hides_a_header:
  assumes "CHR 0x22 \<notin> set a" "CHR 0x5C \<notin> set a" "CHR 0x22 \<notin> set b" "CHR 0x5C \<notin> set b" "CHR '':'' \<notin> set b"
    "CHR 0x22 \<notin> set rest" "name = CHR 0x22 # a @ CHR 0x5C # CHR 0x22 # b @ [CHR 0x22]"
  shows "lex_pairs (False, 0) name = (False, 0) \<and> truncate_at_injected_header (name @ rest) = name @ rest"
proof
  have "lex_pairs (False, 0) name = lex_pairs (True, 0) (a @ CHR 0x5C # CHR 0x22 # b @ [CHR 0x22])"
    by (cases a) (simp_all add: assms(7) lex_char_def)
  also have "\<dots> = lex_pairs (True, 0) (b @ [CHR 0x22])" using pairs_inside [OF assms(1,2)] by simp
  also have "\<dots> = (False, 0)" using pairs_inside [OF assms(3,4), of 0 "CHR 0x22" "[]"] by (simp add: lex_char_def)
  finally show "lex_pairs (False, 0) name = (False, 0)" .
next
  have "scan_name False 0 None 0 (name @ rest) = scan_name True 0 None 1 ((a @ [CHR 0x5C]) @ CHR 0x22 # b @ CHR 0x22 # rest)"
    by (simp add: assms(7))
  also have "\<dots> = scan_name False 0 None (Suc (1 + length (a @ [CHR 0x5C]))) (b @ CHR 0x22 # rest)"
    using scan_inside [of "a @ [CHR 0x5C]" 0 1 "CHR 0x22 # b @ CHR 0x22 # rest"] assms(1) by simp
  finally obtain d i where "scan_name False 0 None 0 (name @ rest) = scan_name True d None i rest"
    using scan_outside [OF assms(3,5)] by metis
  also have "\<dots> = None" using scan_inside [OF assms(6), of d i "[]"] by simp
  finally show "truncate_at_injected_header (name @ rest) = name @ rest" by (simp add: truncate_at_injected_header_def)
qed

theorem escaped_quote_hides_a_header_witness:
  "let name = CHR 0x22 # ''Bob '' @ CHR 0x5C # CHR 0x22 # '' B'' @ [CHR 0x22]; rest = '' <bob@x> Bcc: evil@y''
   in lex_pairs (False, 0) name = (False, 0) \<and> truncate_at_injected_header (name @ rest) = name @ rest
      \<and> truncate_at_injected_header rest = '' <bob@x> ''"
proof -
  have "truncate_at_injected_header '' <bob@x> Bcc: evil@y'' = '' <bob@x> ''" by code_simp
  then show ?thesis
    using escaped_quote_hides_a_header [of "''Bob ''" "'' B''" "'' <bob@x> Bcc: evil@y''"] by (simp add: Let_def)
qed

section \<open>Subjects keep one prefix\<close>

lemma get_to_prefix: "get_to n s = Some t \<Longrightarrow> \<exists>u. s = t @ u"
  by (induction n s arbitrary: t rule: get_to.induct) (auto split: if_splits)

lemma trim_Cons_append:
  assumes "\<not> is_whitespace c" "trim s = s" "s \<noteq> []"
  shows "trim (c # a @ s) = c # a @ s"
proof -
  have "trim_end s = s"
    using assms(2) by (metis trim_def trim_end_idem)
  then have "\<not> is_whitespace (last s)"
    unfolding trim_end_def using assms(3)
    by (metis dropWhile_eq_self_iff hd_rev rev_is_Nil_conv rev_rev_ident)
  then have "trim_end (c # a @ s) = c # a @ s"
    using assms(3) by (simp add: trim_end_def dropWhile_eq_self_iff hd_append hd_rev)
  then show ?thesis using assms(1) by (simp add: trim_def trim_start_def)
qed

lemma trim_prefix:
  assumes "\<not> is_whitespace c" "\<not> is_whitespace (last (c # a))"
  shows "trim (c # a @ CHR '' '' # trim s) = (if trim s = [] then c # a else c # a @ CHR '' '' # trim s)"
proof (cases "trim s = []")
  case True
  have "is_whitespace CHR '' ''" by code_simp
  moreover have "dropWhile is_whitespace (rev (c # a)) = rev (c # a)"
    using assms(2) by (metis dropWhile_eq_self_iff hd_rev)
  ultimately have "trim_end (c # a @ [CHR '' '']) = c # a" by (simp add: trim_end_def)
  then show ?thesis using True assms(1) by (simp add: trim_def trim_start_def)
next
  case False
  then show ?thesis using trim_Cons_append [OF assms(1) trim_idem False, of "a @ '' ''"] by simp
qed

lemma prefixed_literal: "prefixed ''re:'' (''Re:'' @ u)" "prefixed ''fwd:'' (''Fwd:'' @ u)"
proof -
  have "byte_len [CHR ''R''] = 1" "byte_len [CHR ''e''] = 1" "byte_len [CHR '':''] = 1" "byte_len [CHR ''F''] = 1"
    "byte_len [CHR ''w''] = 1" "byte_len [CHR ''d''] = 1" by code_simp+
  moreover have "eq_ignore_ascii_case ''Re:'' ''re:''" "eq_ignore_ascii_case ''Fwd:'' ''fwd:''" by code_simp+
  ultimately show "prefixed ''re:'' (''Re:'' @ u)" "prefixed ''fwd:'' (''Fwd:'' @ u)"
    by (simp_all add: prefixed_def)
qed

text \<open>Prefixes do not pile up: replying to a reply and forwarding a forward leave the subject as it is, but for
  the blank after the prefix of an untitled one.\<close>
theorem subjects_keep_one_prefix:
  "reply_subject (reply_subject s) = trim (reply_subject s) \<and> forward_subject (forward_subject s) = forward_subject s"
proof
  have ws: "\<not> is_whitespace CHR ''R''" "\<not> is_whitespace CHR ''F''" "\<not> is_whitespace CHR '':''" by code_simp+
  have re: "trim (''Re: '' @ trim s) = (if trim s = [] then ''Re:'' else ''Re: '' @ trim s)"
    using trim_prefix [OF ws(1), of "''e:''" s] ws(3) by simp
  show "reply_subject (reply_subject s) = trim (reply_subject s)"
    using prefixed_literal(1) [of "'' '' @ trim s"] prefixed_literal(1) [of "[]"] re
    by (simp add: reply_subject_def Let_def)
  have fwd: "trim (''Fwd: '' @ trim s) = ''Fwd: '' @ trim s" if "trim s \<noteq> []"
    using trim_prefix [OF ws(2), of "''wd:''" s] ws(3) that by simp
  have "trim ''Fwd:'' = ''Fwd:''" by code_simp
  then show "forward_subject (forward_subject s) = forward_subject s"
    using prefixed_literal(2) [of "'' '' @ trim s"] prefixed_literal(2) [of "[]"] fwd
    by (simp add: forward_subject_def Let_def)
qed


section \<open>The lines of a send\<close>

datatype recipient_error = No_recipient

definition blank :: "string \<Rightarrow> bool" where
  "blank s \<longleftrightarrow> trim s = []"

definition send_to_derived :: "string \<Rightarrow> reply_recipients option \<Rightarrow> string option \<Rightarrow> string option \<Rightarrow> recipient_error + string" where
  "send_to_derived bcc_requested derived parent_from own =
     (case (case derived of Some d \<Rightarrow> if blank (to_line d) then None else Some (to_line d) | None \<Rightarrow> None) of
        Some d_to \<Rightarrow> Inr d_to
      | None \<Rightarrow> (case parent_from of Some from_addr \<Rightarrow> Inr from_addr
          | None \<Rightarrow> if \<not> blank bcc_requested then
                      (case own of Some o_addr \<Rightarrow> if blank o_addr then Inl No_recipient else Inr o_addr | None \<Rightarrow> Inl No_recipient)
                    else Inl No_recipient))"

text \<open>\<open>to\<close>, \<open>cc\<close> and \<open>bcc\<close> as the request states them, what was derived, the stored sender of the mail
  replied to, and the account's own address where it could be read.\<close>

definition send_to :: "string option \<Rightarrow> string \<Rightarrow> reply_recipients option \<Rightarrow> string option \<Rightarrow> string option \<Rightarrow> recipient_error + string" where
  "send_to to bcc_requested derived parent_from own = (case to of
     Some t \<Rightarrow> if \<not> blank t then Inr t else send_to_derived bcc_requested derived parent_from own
   | None \<Rightarrow> send_to_derived bcc_requested derived parent_from own)"

definition send_lines ::
    "(string \<Rightarrow> string option list option) \<Rightarrow> string option \<Rightarrow> string option \<Rightarrow> string option \<Rightarrow> reply_recipients option
       \<Rightarrow> string option \<Rightarrow> string option \<Rightarrow> recipient_error + string \<times> string \<times> string" where
  "send_lines parser to cc bcc derived parent_from own =
     (let derived_cc = (case derived of Some d \<Rightarrow> cc_line d | None \<Rightarrow> []);
          bcc_requested = (case bcc of Some b \<Rightarrow> b | None \<Rightarrow> [])
      in case send_to to bcc_requested derived parent_from own of Inl e \<Rightarrow> Inl e
      | Inr to \<Rightarrow> let cc = (case cc of Some stated \<Rightarrow> stated | None \<Rightarrow> cc_excluding parser derived_cc to)
                 in Inr (to, cc, addrs_excluding parser bcc_requested [to, cc]))"


lemma kept_addrs_emittable: "list_all addr_is_emittable (kept_addrs (parse_addr_list parser) xs exclude)"
  using parse_emittable [of parser xs] by (auto simp: kept_addrs_def Let_def list_all_iff)

text \<open>The blind copies of a send are exactly the addresses asked for that are visible on neither of its other
  lines, up to case, and a derived copy list loses those already addressed: nobody is written to twice
  by two lines of one mail.\<close>
theorem blind_copies_are_not_visible:
  assumes "send_lines parser to cc bcc derived parent_from own = Inr (t, c, b)"
  shows "let low = map to_ascii_lowercase in
     set (low (named b)) = set (low (parse_addr_list parser (case bcc of Some b \<Rightarrow> b | None \<Rightarrow> [])))
         - set (low (parse_addr_list parser t)) - set (low (parse_addr_list parser c))
   \<and> (if cc = None then set (low (named c)) \<inter> set (low (parse_addr_list parser t)) = {} else cc = Some c)
   \<and> \<not> list_ex is_control b"
proof -
  let ?p = "parse_addr_list parser" let ?b = "case bcc of Some b \<Rightarrow> b | None \<Rightarrow> []" let ?d = "case derived of Some d \<Rightarrow> cc_line d | None \<Rightarrow> []"
  have b: "b = join '', '' (kept_addrs ?p ?b [t, c])" and c: "cc = None \<Longrightarrow> c = join '', '' (kept_addrs ?p ?d [t])"
    and c': "cc \<noteq> None \<Longrightarrow> cc = Some c"
    using assms by (auto simp: send_lines_def Let_def cc_excluding_def addrs_excluding_def split: sum.splits option.splits)
  have "set (map to_ascii_lowercase (kept_addrs ?p ?b [t, c]))
      = set (map to_ascii_lowercase (?p ?b)) - set (map to_ascii_lowercase (?p t)) - set (map to_ascii_lowercase (?p c))"
    by (auto simp: kept_addrs_def contains_addr_def)
  moreover have "set (map to_ascii_lowercase (kept_addrs ?p ?d [t])) \<inter> set (map to_ascii_lowercase (?p t)) = {}"
    by (auto simp: kept_addrs_def contains_addr_def)
  ultimately show ?thesis
    using c c' by (simp add: b named_join kept_addrs_emittable join_one_line Let_def)
qed

theorem blind_copies_are_not_visible_witness:
  defines "parser \<equiv> \<lambda>m. if contains m ''b@y'' then Some [Some ''A@x'', Some ''b@y''] else Some [Some ''a@x'']"
  shows "set (map to_ascii_lowercase (named ''b@y'')) = {''a@x'', ''b@y''} - {''a@x''}"
proof -
  have s: "send_lines parser (Some ''a@x'') (Some []) (Some ''A@x, b@y'') None None None = Inr (''a@x'', [], ''b@y'')"
    unfolding parser_def by code_simp
  have "map to_ascii_lowercase (parse_addr_list parser ''A@x, b@y'') = [''a@x'', ''b@y'']"
    "map to_ascii_lowercase (parse_addr_list parser ''a@x'') = [''a@x'']" "parse_addr_list parser [] = []"
    unfolding parser_def by code_simp+
  with blind_copies_are_not_visible [OF s] show ?thesis unfolding Let_def option.case by (simp only: list.set list.map) simp
qed

end
