(* ===== verification/Mail_Encoding.thy ===== *)
theory Mail_Encoding
  imports Draft_Files
begin

text \<open>
  The encodings an outgoing mail is written in (\<open>squelch-api/src/gmail_write.rs\<close>): quoted-printable, wrapped
  base64, the parameters of an attachment's headers, and the boundaries between parts.

  The base64 crate is the argument \<open>b64\<close>. The digest of \<open>DefaultHasher\<close>, whose algorithm the standard
  library leaves open, is the argument \<open>digest\<close>.
\<close>

abbreviation CR :: char where "CR \<equiv> CHR 0x0D"
abbreviation LF :: char where "LF \<equiv> CHR 0x0A"
abbreviation QUOTE :: char where "QUOTE \<equiv> CHR 0x22"
abbreviation BACKSLASH :: char where "BACKSLASH \<equiv> CHR 0x5C"

definition CRLF :: string where
  "CRLF = [CR, LF]"

section \<open>Lines\<close>

text \<open>\<open>str::replace\<close> of one character, and of the two of a line ending.\<close>

definition replace_char :: "char \<Rightarrow> string \<Rightarrow> string \<Rightarrow> string" where
  "replace_char q r s = concat (map (\<lambda>c. if c = q then r else [c]) s)"

fun crlf_to_lf :: "string \<Rightarrow> string" where
  "crlf_to_lf (c # d # s) = (if c = CR \<and> d = LF then LF # crlf_to_lf s else c # crlf_to_lf (d # s))"
| "crlf_to_lf s = s"

definition to_crlf :: "string \<Rightarrow> string" where
  "to_crlf s = replace_char LF CRLF (crlf_to_lf s)"

definition to_crlf_strict :: "string \<Rightarrow> string" where
  "to_crlf_strict s = replace_char LF CRLF (replace_char CR [LF] (crlf_to_lf s))"

definition strip_newlines :: "string \<Rightarrow> string" where
  "strip_newlines s = filter (\<lambda>c. c \<noteq> CR \<and> c \<noteq> LF) s"

section \<open>Quoted-printable\<close>

definition QP_MAX_LINE :: nat where
  "QP_MAX_LINE = 76"

definition hex_upper :: "8 word \<Rightarrow> string" where
  "hex_upper b = [''0123456789ABCDEF'' ! unat (drop_bit 4 b), ''0123456789ABCDEF'' ! unat (and b 15)]"

definition qp_token :: "8 word \<Rightarrow> 8 word list \<Rightarrow> string" where
  "qp_token b bs = (let ends_line = (b = 32 \<or> b = 9) \<and> (bs = [] \<or> take 2 bs = [13, 10])
     in if b = 61 \<or> \<not> (32 \<le> b \<and> b \<le> 126) \<or> ends_line then CHR ''='' # hex_upper b else [char_of (unat b)])"

fun qp_from :: "nat \<Rightarrow> 8 word list \<Rightarrow> string" where
  "qp_from line [] = []"
| "qp_from line (b # bs) =
     (if b = 13 \<and> take 1 bs = [10] then CRLF @ qp_from 0 (tl bs)
      else let token = qp_token b bs
           in if QP_MAX_LINE - 1 < line + length token then ''='' @ CRLF @ token @ qp_from (length token) bs
              else token @ qp_from (line + length token) bs)"

definition qp_encode :: "string \<Rightarrow> string" where
  "qp_encode text = qp_from 0 (utf8 text)"

section \<open>Wrapped base64\<close>

fun chunks :: "nat \<Rightarrow> 'a list \<Rightarrow> 'a list list" where
  "chunks n [] = []"
| "chunks n (x # xs) = (if n = 0 then [] else take n (x # xs) # chunks n (drop n (x # xs)))"

definition base64_body :: "(8 word list \<Rightarrow> string) \<Rightarrow> 8 word list \<Rightarrow> string" where
  "base64_body b64 data = concat (map (\<lambda>c. c @ CRLF) (chunks 76 (b64 data)))"

section \<open>Parameters\<close>

definition quoted_param :: "string \<Rightarrow> string" where
  "quoted_param value = filter (\<lambda>c. c \<notin> {CR, LF, QUOTE, BACKSLASH}) value"

definition mime_token :: "string \<Rightarrow> string" where
  "mime_token value = (let cleaned = filter (\<lambda>c. is_ascii_alnum c \<or> c \<in> {CHR ''/'', CHR ''+'', CHR ''-'', CHR ''.'', CHR ''_''}) value
     in if cleaned = [] then ''application/octet-stream'' else cleaned)"

definition param_token :: "string \<Rightarrow> string option" where
  "param_token value = (let cleaned = filter (\<lambda>c. is_ascii_alnum c \<or> c \<in> {CHR ''-'', CHR ''.'', CHR ''_'', CHR ''+''}) (trim value)
     in if cleaned = [] then None else Some cleaned)"

definition content_id_token :: "string \<Rightarrow> string" where
  "content_id_token value = (let s = dropWhile (\<lambda>c. c = CHR ''<'') (trim value);
       s = rev (dropWhile (\<lambda>c. c = CHR ''>'') (rev s))
     in filter (\<lambda>c. \<not> is_control c \<and> \<not> is_whitespace c \<and> c \<noteq> CHR ''<'' \<and> c \<noteq> CHR ''>'') s)"

definition is_printable_ascii :: "string \<Rightarrow> bool" where
  "is_printable_ascii s \<longleftrightarrow> list_all (\<lambda>c. is_ascii_graphic c \<or> c = CHR '' '') s"

definition ascii_projection :: "string \<Rightarrow> string" where
  "ascii_projection s = map (\<lambda>c. if is_ascii_graphic c \<or> c = CHR '' '' then c else CHR ''_'') s"

definition truncate_filename :: "string \<Rightarrow> nat \<Rightarrow> string" where
  "truncate_filename name max_len = (if length name \<le> max_len then name
     else let ext = (case rsplit CHR ''.'' name of Some (_, suffix) \<Rightarrow> if length suffix + 1 \<le> 16 then CHR ''.'' # suffix else [] | None \<Rightarrow> []);
              keep = max (max_len - length ext) 1
          in take keep name @ ext)"

definition rfc2231_plain :: "8 word \<Rightarrow> bool" where
  "rfc2231_plain b \<longleftrightarrow> (48 \<le> b \<and> b \<le> 57) \<or> (65 \<le> b \<and> b \<le> 90) \<or> (97 \<le> b \<and> b \<le> 122)
     \<or> b \<in> set (map (\<lambda>c. word_of_nat (cp c)) ''!#$&+-.^_`|~'')"

definition rfc2231_encode :: "string \<Rightarrow> string" where
  "rfc2231_encode s = concat (map (\<lambda>b. if rfc2231_plain b then [char_of (unat b)] else CHR ''%'' # hex_upper b) (utf8 s))"

section \<open>Boundaries\<close>

definition BOUNDARY_ALT :: string where "BOUNDARY_ALT = ''=_passband_alt_''"

definition BOUNDARY_MIX :: string where "BOUNDARY_MIX = ''=_passband_mix_''"

definition BOUNDARY_REL :: string where "BOUNDARY_REL = ''=_passband_rel_''"

definition BOUNDARY_BUMP_LIMIT :: nat where "BOUNDARY_BUMP_LIMIT = 16"

definition hex16 :: "64 word \<Rightarrow> string" where
  "hex16 w = map (\<lambda>k. ''0123456789abcdef'' ! unat (and (drop_bit (4 * k) w) 15)) (rev [0..<16])"

definition absent :: "string list \<Rightarrow> string \<Rightarrow> bool" where
  "absent parts boundary \<longleftrightarrow> list_all (\<lambda>p. \<not> contains p boundary) parts"

lemma show_nat_inj: "show_nat a = show_nat b \<Longrightarrow> a = b"
proof (induction a arbitrary: b rule: less_induct)
  case (less a)
  have digit: "d = e" if "char_of (48 + d) = (char_of (48 + e) :: char)" "d < 10" "e < 10" for d e :: nat
    using that arg_cong [OF that(1), of "of_char :: char \<Rightarrow> nat"] by (simp add: of_char_of)
  have ne: "show_nat n \<noteq> []" for n by (subst show_nat.simps) simp
  show ?case
  proof (cases "a < 10 \<or> b < 10")
    case True
    then show ?thesis
      using less.prems digit ne ne [THEN not_sym] show_nat.simps [of a] show_nat.simps [of b]
      by (auto split: if_splits)
  next
    case False
    then have "show_nat (a div 10) @ [char_of (48 + a mod 10)] = show_nat (b div 10) @ [char_of (48 + b mod 10)]"
      using less.prems show_nat.simps [of a] show_nat.simps [of b] by simp
    then have "show_nat (a div 10) = show_nat (b div 10)" "a mod 10 = b mod 10" using digit by auto
    moreover have "a div 10 < a" using False by simp
    ultimately have "a div 10 = b div 10" "a mod 10 = b mod 10" using less.IH by blast+
    then show ?thesis by (metis div_mult_mod_eq)
  qed
qed

text \<open>Of a family of distinct boundaries only finitely many can occur in a given text.\<close>

lemma finite_present: "finite {m. \<not> absent parts (prefix @ show_nat m)}"
proof -
  have "finite {w. \<exists>a b. p = a @ w @ b}" for p :: string
  proof (rule finite_subset)
    show "{w. \<exists>a b. p = a @ w @ b} \<subseteq> {w. set w \<subseteq> set p \<and> length w \<le> length p}" by auto
  qed (rule finite_lists_length_le, simp)
  then have "finite (\<Union>p \<in> set parts. {w. \<exists>a b. p = a @ w @ b})" by blast
  moreover have "(\<lambda>m. prefix @ show_nat m) ` {m. \<not> absent parts (prefix @ show_nat m)} \<subseteq> (\<Union>p \<in> set parts. {w. \<exists>a b. p = a @ w @ b})"
    by (auto simp: absent_def list_all_iff contains_iff) blast
  moreover have "inj (\<lambda>m. prefix @ show_nat m)" by (rule injI) (simp add: show_nat_inj)
  ultimately show ?thesis by (meson finite_imageD finite_subset inj_on_subset subset_UNIV)
qed

function bump :: "string \<Rightarrow> string list \<Rightarrow> nat \<Rightarrow> string" where
  "bump prefix parts m = (if absent parts (prefix @ show_nat m) then prefix @ show_nat m else bump prefix parts (Suc m))"
  by auto
termination
proof (relation "measure (\<lambda>(prefix, parts, m). card {n. m \<le> n \<and> \<not> absent parts (prefix @ show_nat n)})")
  fix prefix parts m assume "\<not> absent parts (prefix @ show_nat m)"
  then have "m \<in> {n. m \<le> n \<and> \<not> absent parts (prefix @ show_nat n)}" "m \<notin> {n. Suc m \<le> n \<and> \<not> absent parts (prefix @ show_nat n)}"
    by simp_all
  moreover have "{n. Suc m \<le> n \<and> \<not> absent parts (prefix @ show_nat n)} \<subseteq> {n. m \<le> n \<and> \<not> absent parts (prefix @ show_nat n)}" by auto
  ultimately have "{n. Suc m \<le> n \<and> \<not> absent parts (prefix @ show_nat n)} \<subset> {n. m \<le> n \<and> \<not> absent parts (prefix @ show_nat n)}" by blast
  moreover have "finite {n. m \<le> n \<and> \<not> absent parts (prefix @ show_nat n)}"
    by (rule finite_subset [OF _ finite_present [of parts prefix]]) auto
  ultimately show "((prefix, parts, Suc m), (prefix, parts, m))
      \<in> measure (\<lambda>(prefix, parts, m). card {n. m \<le> n \<and> \<not> absent parts (prefix @ show_nat n)})"
    by (simp add: psubset_card_mono)
qed simp

declare bump.simps [simp del]

definition boundary_with_prefix :: "(string list \<Rightarrow> 64 word) \<Rightarrow> string \<Rightarrow> string list \<Rightarrow> string" where
  "boundary_with_prefix digest prefix parts =
     (case find (\<lambda>n. absent parts (prefix @ show_nat n)) [0..<BOUNDARY_BUMP_LIMIT] of
        Some n \<Rightarrow> prefix @ show_nat n
      | None \<Rightarrow> bump (prefix @ hex16 (digest parts) @ ''_'') parts 0)"


section \<open>Quoted-printable reads back\<close>

text \<open>The decoder of RFC 2045, on what the encoder can write.\<close>

definition unhex :: "char \<Rightarrow> nat" where
  "unhex c = (if cp c < 58 then cp c - 48 else cp c - 55)"

fun qp_decode :: "string \<Rightarrow> 8 word list" where
  "qp_decode [] = []"
| "qp_decode (c # s) = (if c = CHR ''='' then
       (if take 2 s = CRLF then qp_decode (drop 2 s)
        else (case s of h # l # t \<Rightarrow> word_of_nat (16 * unhex h + unhex l) # qp_decode t | _ \<Rightarrow> []))
     else word_of_nat (cp c) # qp_decode s)"

lemma hex_digits:
  "n < 16 \<Longrightarrow> unhex (''0123456789ABCDEF'' ! n) = n \<and> ''0123456789ABCDEF'' ! n \<in> set ''0123456789ABCDEF''"
proof -
  have "list_all (\<lambda>n. unhex (''0123456789ABCDEF'' ! n) = n) [0..<16]" by code_simp
  then have u: "\<forall>n \<in> set [0..<16]. unhex (''0123456789ABCDEF'' ! n) = n" by (simp only: list_all_iff)
  assume n: "n < 16"
  then have "n \<in> set [0..<16]" by simp
  with u have "unhex (''0123456789ABCDEF'' ! n) = n" by blast
  moreover have "''0123456789ABCDEF'' ! n \<in> set ''0123456789ABCDEF''" using n by (intro nth_mem) simp
  ultimately show ?thesis by blast
qed

lemma nibbles: "unat (drop_bit 4 (b :: 8 word)) < 16" "unat (and b 15 :: 8 word) < 16"
  "16 * unat (drop_bit 4 b) + unat (and b 15) = unat b"
proof -
  have m: "and b 15 = take_bit 4 b" by (simp add: take_bit_eq_mask mask_eq_exp_minus_1)
  have u: "unat (take_bit 4 b) = unat b mod 16" unfolding unsigned_take_bit_eq by (simp add: take_bit_eq_mod)
  have d: "unat (drop_bit 4 b) = unat b div 16" unfolding unat_drop_bit_eq by (simp add: drop_bit_eq_div)
  have "unat b < 256" using unsigned_less [of b, where ?'a = nat] by simp
  then show "unat (drop_bit 4 b) < 16" by (simp add: d)
  show "unat (and b 15) < 16" by (simp add: m u)
  show "16 * unat (drop_bit 4 b) + unat (and b 15) = unat b" by (simp add: m u d)
qed

lemma hex_upper_cases:
  obtains h l where "hex_upper b = [h, l]" "h \<in> set ''0123456789ABCDEF''" "l \<in> set ''0123456789ABCDEF''"
    "word_of_nat (16 * unhex h + unhex l) = b"
proof
  let ?h = "''0123456789ABCDEF'' ! unat (drop_bit 4 b)" let ?l = "''0123456789ABCDEF'' ! unat (and b 15)"
  show "hex_upper b = [?h, ?l]" by (simp add: hex_upper_def)
  show "?h \<in> set ''0123456789ABCDEF''" "?l \<in> set ''0123456789ABCDEF''" using hex_digits nibbles by blast+
  have "unhex ?h = unat (drop_bit 4 b)" "unhex ?l = unat (and b 15)" using hex_digits nibbles by blast+
  then have "16 * unhex ?h + unhex ?l = unat b" by (simp only: nibbles)
  then show "word_of_nat (16 * unhex ?h + unhex ?l) = b" by simp
qed

lemma hex_plain: "c \<in> set ''0123456789ABCDEF'' \<Longrightarrow> c \<noteq> CHR ''='' \<and> c \<noteq> CR \<and> c \<noteq> LF \<and> c \<noteq> CHR ''_'' \<and> is_ascii_graphic c"
proof -
  have "list_all (\<lambda>c. c \<noteq> CHR ''='' \<and> c \<noteq> CR \<and> c \<noteq> LF \<and> c \<noteq> CHR ''_'' \<and> is_ascii_graphic c) ''0123456789ABCDEF''" by code_simp
  then have "\<forall>c \<in> set ''0123456789ABCDEF''. c \<noteq> CHR ''='' \<and> c \<noteq> CR \<and> c \<noteq> LF \<and> c \<noteq> CHR ''_'' \<and> is_ascii_graphic c" unfolding list_all_iff .
  then show "c \<in> set ''0123456789ABCDEF'' \<Longrightarrow> ?thesis" by blast
qed

text \<open>A token is an escape or a plain character.\<close>

lemma qp_token_cases:
  obtains (escape) h l where "qp_token b bs = [CHR ''='', h, l]" "h \<in> set ''0123456789ABCDEF''" "l \<in> set ''0123456789ABCDEF''"
      "word_of_nat (16 * unhex h + unhex l) = b"
    | (plain) c where "qp_token b bs = [c]" "c \<noteq> CHR ''=''" "is_ascii_graphic c \<or> c = CHR '' ''" "word_of_nat (cp c) = b"
        "c = CHR '' '' \<Longrightarrow> bs \<noteq> [] \<and> take 2 bs \<noteq> [13, 10]"
proof (cases "b = 61 \<or> \<not> (32 \<le> b \<and> b \<le> 126) \<or> ((b = 32 \<or> b = 9) \<and> (bs = [] \<or> take 2 bs = [13, 10]))")
  case True
  obtain h l where "hex_upper b = [h, l]" "h \<in> set ''0123456789ABCDEF''" "l \<in> set ''0123456789ABCDEF''"
    "word_of_nat (16 * unhex h + unhex l) = b" by (rule hex_upper_cases)
  with True escape show ?thesis by (simp add: qp_token_def Let_def)
next
  case False
  have u: "unat b < 256" using unsigned_less [of b, where ?'a = nat] by simp
  have r: "32 \<le> unat b" "unat b \<le> 126" using False by (auto simp: word_le_nat_alt)
  have cpb: "cp (char_of (unat b)) = unat b" using u by simp
  have "char_of (unat b) \<noteq> CHR ''=''"
  proof
    assume "char_of (unat b) = CHR ''=''"
    then have "unat b = 61" using cpb by simp
    then have "word_of_nat (unat b) = (61 :: 8 word)" by simp
    then have "b = 61" by simp
    with False show False by blast
  qed
  moreover have "is_ascii_graphic (char_of (unat b)) \<or> char_of (unat b) = CHR '' ''"
  proof (cases "unat b = 32")
    case True
    have "cp CHR '' '' = 32" by simp
    then have "char_of (unat b) = CHR '' ''" unfolding True by (metis char_of_char)
    then show ?thesis by simp
  next
    case False
    with r show ?thesis by (simp add: is_ascii_graphic_def cpb)
  qed
  moreover have "bs \<noteq> [] \<and> take 2 bs \<noteq> [13, 10]" if "char_of (unat b) = CHR '' ''"
  proof -
    have "unat b = 32" using that cpb by simp
    then have "word_of_nat (unat b) = (32 :: 8 word)" by simp
    then have "b = 32" by simp
    with False show ?thesis by blast
  qed
  ultimately show ?thesis using False cpb by (intro plain [of "char_of (unat b)"]) (simp_all add: qp_token_def Let_def)
qed


lemma qp_from_step:
  assumes "\<not> (b = 13 \<and> take 1 bs = [10])"
  shows "qp_from line (b # bs) = (if QP_MAX_LINE - 1 < line + length (qp_token b bs)
    then ''='' @ CRLF @ qp_token b bs @ qp_from (length (qp_token b bs)) bs
    else qp_token b bs @ qp_from (line + length (qp_token b bs)) bs)"
  unfolding qp_from.simps Let_def if_not_P [OF assms] ..

lemma qp_from_decodes: "qp_decode (qp_from line bs) = bs"
proof (induction line bs rule: qp_from.induct)
  case (1 line)
  then show ?case by simp
next
  case (2 line b bs)
  have w: "word_of_nat (cp CR) = (13 :: 8 word)" "word_of_nat (cp LF) = (10 :: 8 word)" by code_simp+
  show ?case
  proof (cases "b = 13 \<and> take 1 bs = [10]")
    case True
    then obtain cs where bs: "bs = 10 # cs" by (cases bs) auto
    then have "qp_decode (qp_from 0 cs) = cs" using 2(1) True by simp
    then show ?thesis using True w by (simp add: bs CRLF_def)
  next
    case False
    have tok: "qp_decode (qp_token b bs @ s) = b # qp_decode s" for s
    proof (cases rule: qp_token_cases [of b bs])
      case (escape h l)
      then have "h \<noteq> CR" using hex_plain by blast
      with escape show ?thesis by (simp add: CRLF_def)
    qed (simp add: CRLF_def)
    have soft: "qp_decode (''='' @ CRLF @ s) = qp_decode s" for s by (simp add: CRLF_def)
    show ?thesis unfolding qp_from_step [OF False] using 2(2,3) [OF False refl] by (simp only: tok soft split: if_split) blast
  qed
qed

text \<open>No two characters of the output are the \<open>=_\<close> with which every boundary begins.\<close>

lemma contains_Cons2: "contains (c # s) ''=_'' \<longleftrightarrow> (c = CHR ''='' \<and> take 1 s = ''_'') \<or> contains s ''=_''"
  by (cases s) auto

lemma qp_no_boundary: "\<not> contains (qp_from line bs) ''=_''"
proof (induction line bs rule: qp_from.induct)
  case (1 line)
  then show ?case by simp
next
  case (2 line b bs)
  have tok: "\<not> contains (qp_token b bs @ s) ''=_''" if "\<not> contains s ''=_''" for s
  proof (cases rule: qp_token_cases [of b bs])
    case (escape h l)
    then have "h \<noteq> CHR ''_''" "h \<noteq> CHR ''=''" "l \<noteq> CHR ''=''" using hex_plain by blast+
    with escape that show ?thesis by (simp add: contains_Cons2)
  qed (use that in \<open>simp_all add: contains_Cons2\<close>)
  show ?case
  proof (cases "b = 13 \<and> take 1 bs = [10]")
    case True
    then show ?thesis using 2(1) by (simp add: CRLF_def contains_Cons2)
  next
    case False
    have soft: "\<not> contains (''='' @ CRLF @ s) ''=_''" if "\<not> contains s ''=_''" for s using that by (simp add: CRLF_def contains_Cons2)
    show ?thesis unfolding qp_from_step [OF False] using 2(2,3) [OF False refl] tok soft by (simp split: if_split)
  qed
qed

text \<open>Its lines.\<close>

definition line_ok :: "string \<Rightarrow> bool" where
  "line_ok l \<longleftrightarrow> length l \<le> QP_MAX_LINE \<and> list_all (\<lambda>c. is_ascii_graphic c \<or> c = CHR '' '') l \<and> (l \<noteq> [] \<longrightarrow> last l \<noteq> CHR '' '')"

text \<open>What follows a line of \<open>n\<close> characters already written: the rest of that line, then whole lines.\<close>

inductive fills :: "nat \<Rightarrow> string \<Rightarrow> bool" where
  fills_end: "fills n []"
| fills_break: "fills 0 s \<Longrightarrow> fills n (CR # LF # s)"
| fills_char: "is_ascii_graphic c \<Longrightarrow> n < QP_MAX_LINE \<Longrightarrow> fills (Suc n) s \<Longrightarrow> fills n (c # s)"
| fills_space: "Suc n < QP_MAX_LINE \<Longrightarrow> fills (Suc n) s \<Longrightarrow> s \<noteq> [] \<Longrightarrow> take 2 s \<noteq> CRLF \<Longrightarrow> fills n (CHR '' '' # s)"

lemma qp_from_not_Nil: "bs \<noteq> [] \<Longrightarrow> qp_from line bs \<noteq> []"
proof (cases bs)
  case (Cons b cs)
  have "qp_token b cs \<noteq> []" by (rule qp_token_cases [of b cs]) auto
  then show ?thesis by (simp add: Cons CRLF_def Let_def)
qed simp

lemma qp_from_no_break:
  assumes "take 2 bs \<noteq> [13, 10]"
  shows "take 2 (qp_from line bs) \<noteq> CRLF"
proof (cases bs)
  case Nil
  then show ?thesis by (simp add: CRLF_def)
next
  case (Cons b cs)
  have no: "\<not> (b = 13 \<and> take 1 cs = [10])" using assms by (cases cs) (auto simp: Cons)
  have "\<not> is_ascii_graphic CR" "CR \<noteq> CHR '' ''" by code_simp+
  then have "\<exists>c t. qp_token b cs = c # t \<and> c \<noteq> CR" by (cases rule: qp_token_cases [of b cs]) auto
  then show ?thesis using no by (auto simp: Cons CRLF_def Let_def)
qed

lemma qp_fills: "line < QP_MAX_LINE \<Longrightarrow> fills line (qp_from line bs)"
proof (induction line bs rule: qp_from.induct)
  case (1 line)
  then show ?case by (simp add: fills_end)
next
  case (2 line b bs)
  have eq: "is_ascii_graphic CHR ''=''" by code_simp
  have tok: "fills n (qp_token b bs @ s)"
    if "n + length (qp_token b bs) < QP_MAX_LINE" "fills (n + length (qp_token b bs)) s"
      "bs \<noteq> [] \<and> take 2 bs \<noteq> [13, 10] \<Longrightarrow> s \<noteq> [] \<and> take 2 s \<noteq> CRLF" for n s
  proof (cases rule: qp_token_cases [of b bs])
    case (escape h l)
    then have gh: "is_ascii_graphic h" "is_ascii_graphic l" using hex_plain by blast+
    have n: "n < QP_MAX_LINE" "Suc n < QP_MAX_LINE" "Suc (Suc n) < QP_MAX_LINE" "fills (Suc (Suc (Suc n))) s"
      using that(1,2) unfolding escape(1) by (simp_all add: numeral_3_eq_3)
    have "fills n (CHR ''='' # h # l # s)"
      by (rule fills_char [OF eq n(1)], rule fills_char [OF gh(1) n(2)], rule fills_char [OF gh(2) n(3) n(4)])
    then show ?thesis unfolding escape(1) by simp
  next
    case (plain c)
    show ?thesis
    proof (cases "is_ascii_graphic c")
      case True
      have "fills n (c # s)" using that(1,2) unfolding plain(1) by (intro fills_char [OF True]) simp_all
      then show ?thesis unfolding plain(1) by simp
    next
      case False
      with plain(3) have c: "c = CHR '' ''" by blast
      have "fills n (CHR '' '' # s)" using that(1,2) that(3) [OF plain(5) [OF c]] unfolding plain(1) by (intro fills_space) simp_all
      then show ?thesis unfolding plain(1) c by simp
    qed
  qed
  have len: "length (qp_token b bs) \<le> 3" by (rule qp_token_cases [of b bs]) auto
  show ?case
  proof (cases "b = 13 \<and> take 1 bs = [10]")
    case True
    then show ?thesis using 2(1) by (simp add: CRLF_def QP_MAX_LINE_def fills_break)
  next
    case False
    have rest: "bs \<noteq> [] \<and> take 2 bs \<noteq> [13, 10] \<Longrightarrow> qp_from n bs \<noteq> [] \<and> take 2 (qp_from n bs) \<noteq> CRLF" for n
      using qp_from_not_Nil qp_from_no_break by blast
    show ?thesis
    proof (cases "QP_MAX_LINE - 1 < line + length (qp_token b bs)")
      case True
      have "fills 0 (qp_token b bs @ qp_from (length (qp_token b bs)) bs)"
        using tok [of 0] 2(2) [OF False refl True] rest len by (simp add: QP_MAX_LINE_def)
      then have "fills line (''='' @ CRLF @ qp_token b bs @ qp_from (length (qp_token b bs)) bs)"
        using 2(4) eq by (auto simp: CRLF_def intro!: fills_char fills_break)
      then show ?thesis unfolding qp_from_step [OF False] using True by simp
    next
      case small: False
      have "fills line (qp_token b bs @ qp_from (line + length (qp_token b bs)) bs)"
        using tok [of line] 2(3) [OF False refl small] rest small 2(4) by (simp add: QP_MAX_LINE_def)
      then show ?thesis unfolding qp_from_step [OF False] using small by simp
    qed
  qed
qed


fun split_crlf :: "string \<Rightarrow> string list" where
  "split_crlf (c # d # s) = (if c = CR \<and> d = LF then [] # split_crlf s
     else case split_crlf (d # s) of [] \<Rightarrow> [[c]] | l # ls \<Rightarrow> (c # l) # ls)"
| "split_crlf s = [s]"

lemma split_crlf_not_Nil [simp]: "split_crlf s \<noteq> []"
  by (induction s rule: split_crlf.induct) (auto split: list.splits)

lemma split_crlf_Cons: "c \<noteq> CR \<Longrightarrow> split_crlf (c # s) = (c # hd (split_crlf s)) # tl (split_crlf s)"
  by (cases s) (auto split: list.splits)

lemma hd_split_crlf: "s \<noteq> [] \<Longrightarrow> take 2 s \<noteq> CRLF \<Longrightarrow> hd (split_crlf s) \<noteq> []"
  by (cases s rule: split_crlf.cases) (auto simp: CRLF_def split: list.splits)

lemma fills_lines:
  "fills n s \<Longrightarrow> n \<le> QP_MAX_LINE \<Longrightarrow> n + length (hd (split_crlf s)) \<le> QP_MAX_LINE
     \<and> list_all (\<lambda>c. is_ascii_graphic c \<or> c = CHR '' '') (hd (split_crlf s))
     \<and> (hd (split_crlf s) \<noteq> [] \<longrightarrow> last (hd (split_crlf s)) \<noteq> CHR '' '') \<and> list_all line_ok (tl (split_crlf s))"
proof (induction n s rule: fills.induct)
  case (fills_end n)
  then show ?case by simp
next
  case (fills_break s n)
  from fills_break.IH have "line_ok (hd (split_crlf s))" unfolding line_ok_def by simp
  moreover have "list_all line_ok (tl (split_crlf s))" using fills_break.IH by simp
  ultimately have "list_all line_ok (split_crlf s)" by (cases "split_crlf s") simp_all
  with fills_break.prems show ?case by simp
next
  case (fills_char c n s)
  have "\<not> is_ascii_graphic CR" "\<not> is_ascii_graphic CHR '' ''" by code_simp+
  then have "c \<noteq> CR" "c \<noteq> CHR '' ''" using fills_char.hyps(1) by auto
  with fills_char show ?case by (simp add: split_crlf_Cons)
next
  case (fills_space n s)
  have "CHR '' '' \<noteq> CR" by code_simp
  with fills_space hd_split_crlf [of s] show ?case by (simp add: split_crlf_Cons)
qed

text \<open>C25. Quoted-printable text survives its way: the decoder gives back exactly the bytes that were encoded; every
  line has at most 76 characters, all of them printable ASCII, and ends in no blank that a relay might
  strip; and none can be taken for the delimiter of a part.\<close>
theorem quoted_printable_travels:
  "qp_decode (qp_encode t) = utf8 t \<and> list_all line_ok (split_crlf (qp_encode t)) \<and> \<not> contains (qp_encode t) ''=_''"
proof (intro conjI)
  have "fills 0 (qp_encode t)" by (simp add: qp_encode_def qp_fills QP_MAX_LINE_def)
  then have "line_ok (hd (split_crlf (qp_encode t)))" "list_all line_ok (tl (split_crlf (qp_encode t)))"
    using fills_lines [of 0 "qp_encode t"] by (simp_all add: line_ok_def)
  then show "list_all line_ok (split_crlf (qp_encode t))" by (cases "split_crlf (qp_encode t)") simp_all
qed (simp_all add: qp_encode_def qp_from_decodes qp_no_boundary)

section \<open>Boundaries occur nowhere\<close>

lemma bump_absent: "absent parts (bump prefix parts m) \<and> (\<exists>n \<ge> m. bump prefix parts m = prefix @ show_nat n)"
proof (induction prefix parts m rule: bump.induct)
  case (1 prefix parts m)
  show ?case
  proof (cases "absent parts (prefix @ show_nat m)")
    case True
    then show ?thesis by (auto simp: bump.simps [of prefix parts m])
  next
    case False
    then have s: "bump prefix parts m = bump prefix parts (Suc m)" by (simp add: bump.simps [of prefix parts m])
    from 1 [OF False] obtain n where "absent parts (bump prefix parts (Suc m))" "Suc m \<le> n" "bump prefix parts (Suc m) = prefix @ show_nat n" by blast
    then show ?thesis unfolding s by (intro conjI exI [of _ n]) simp_all
  qed
qed

lemma boundary_facts:
  "let b = boundary_with_prefix digest prefix parts in
     absent parts b \<and> (\<exists>s. b = prefix @ s \<and> s \<noteq> [] \<and> list_all (\<lambda>c. is_ascii_alnum c \<or> c = CHR ''_'') s)
   \<and> (if absent parts prefix then b = prefix @ ''0'' else True)"
proof -
  let ?b = "boundary_with_prefix digest prefix parts"
  have digit: "list_all is_ascii_alnum (show_nat n) \<and> show_nat n \<noteq> []" for n
  proof (induction n rule: less_induct)
    case (less n)
    have d: "is_ascii_alnum (char_of (48 + k))" if "k < 10" for k :: nat
      using that by (simp add: is_ascii_alnum_def is_ascii_digit_def)
    show ?case
    proof (cases "n < 10")
      case True
      with d show ?thesis by (simp add: show_nat.simps [of n])
    next
      case False
      with less [of "n div 10"] d [of "n mod 10"] show ?thesis by (simp add: show_nat.simps [of n])
    qed
  qed
  have hex: "list_all is_ascii_alnum (hex16 w)" for w
  proof -
    have "list_all is_ascii_alnum ''0123456789abcdef''" by code_simp
    moreover have "''0123456789abcdef'' ! unat (and v 15 :: 64 word) \<in> set ''0123456789abcdef''" for v
    proof (rule nth_mem)
      have "and v 15 \<le> 15" by (rule word_and_le1)
      then show "unat (and v 15) < length ''0123456789abcdef''" by (simp add: word_le_nat_alt)
    qed
    ultimately have "is_ascii_alnum (''0123456789abcdef'' ! unat (and v 15 :: 64 word))" for v unfolding list_all_iff by blast
    then show ?thesis by (simp add: hex16_def list_all_iff)
  qed
  show ?thesis
  proof (cases "find (\<lambda>n. absent parts (prefix @ show_nat n)) [0..<BOUNDARY_BUMP_LIMIT]")
    case None
    have b: "?b = bump (prefix @ hex16 (digest parts) @ ''_'') parts 0" by (simp add: boundary_with_prefix_def None)
    obtain n where n: "?b = (prefix @ hex16 (digest parts) @ ''_'') @ show_nat n" "absent parts ?b"
      using bump_absent unfolding b by blast
    have "\<not> absent parts (prefix @ show_nat 0)" using None unfolding find_None_iff by (auto simp: BOUNDARY_BUMP_LIMIT_def)
    then have "\<not> absent parts prefix" by (fastforce simp: absent_def list_all_iff contains_iff)
    with n digit [of n] hex [of "digest parts"] show ?thesis
      unfolding Let_def by (intro conjI exI [of _ "hex16 (digest parts) @ ''_'' @ show_nat n"]) (auto simp: list_all_iff)
  next
    case (Some n)
    have b: "?b = prefix @ show_nat n" by (simp add: boundary_with_prefix_def Some)
    have n: "absent parts ?b" "\<And>m. m < n \<Longrightarrow> \<not> absent parts (prefix @ show_nat m)"
      using Some unfolding b find_Some_iff by (auto simp: BOUNDARY_BUMP_LIMIT_def)
    have "n = 0" if "absent parts prefix"
    proof (rule ccontr)
      assume "n \<noteq> 0"
      with n(2) [of 0] have "\<not> absent parts (prefix @ show_nat 0)" by simp
      with that show False by (fastforce simp: absent_def list_all_iff contains_iff)
    qed
    moreover have "show_nat 0 = ''0''" by code_simp
    ultimately show ?thesis using n(1) digit [of n] by (auto simp: Let_def b list_all_iff)
  qed
qed

text \<open>The search for a boundary always ends, with one that occurs in none of the parts, whatever they hold and
  whatever the digest; it keeps its prefix, so the levels of a mail never share one, and it is written
  on one line. Parts without the prefix keep the first boundary of the family.\<close>
theorem boundary_occurs_nowhere:
  "let b = boundary_with_prefix digest prefix parts in
     absent parts b \<and> (\<exists>s. b = prefix @ s \<and> s \<noteq> [] \<and> list_all (\<lambda>c. is_ascii_alnum c \<or> c = CHR ''_'') s)
   \<and> (if absent parts prefix then b = prefix @ ''0'' else True)"
  by (rule boundary_facts)

end
