(* ===== verification/Mail_Compose.thy ===== *)
theory Mail_Compose
  imports Mail_Encoding
begin

text \<open>
  The bytes of an outgoing mail (\<open>squelch-api/src/gmail_write.rs\<close>): replies and new mail
  (\<open>build_reply_rfc822\<close>), forwards (\<open>build_forward_rfc822\<close>) and the attachments of both. The result is the
  text whose UTF-8 goes out. What \<open>mail-parser\<close> read of a forwarded original is the record
  \<open>parsed_message\<close>.
\<close>

section \<open>HTML\<close>

definition escape_html :: "string \<Rightarrow> string" where
  "escape_html s = replace_char (CHR 0x27) ''&#39;'' (replace_char QUOTE ''&quot;'' (replace_char CHR ''>'' ''&gt;''
     (replace_char CHR ''<'' ''&lt;'' (replace_char CHR ''&'' ''&amp;'' s))))"

text \<open>\<open>str::split\<close> on two line feeds.\<close>

fun split_blank :: "string \<Rightarrow> string list" where
  "split_blank (c # d # s) = (if c = LF \<and> d = LF then [] # split_blank s
     else case split_blank (d # s) of [] \<Rightarrow> [[c]] | w # ws \<Rightarrow> (c # w) # ws)"
| "split_blank s = [s]"

definition paragraphs_html :: "string \<Rightarrow> string" where
  "paragraphs_html body = concat (List.map_filter (\<lambda>para. let para = trim_matches LF para
       in if trim para = [] then None
          else Some (''<p>'' @ join ''<br>'' (map escape_html (lines_of para)) @ ''</p>'' @ [LF]))
     (split_blank (crlf_to_lf body)))"

definition pixel_img :: "string option \<Rightarrow> string" where
  "pixel_img url = (case url of Some u \<Rightarrow> ''<img src='' @ QUOTE # escape_html u @ QUOTE # '' width='' @ QUOTE # ''1'' @ QUOTE
       # '' height='' @ QUOTE # ''1'' @ QUOTE # '' alt='' @ QUOTE # QUOTE # ''>'' @ [LF] | None \<Rightarrow> [])"

section \<open>Composing a reply\<close>

record reply_parts =
  rp_to :: string
  rp_cc :: "string option"
  rp_bcc :: "string option"
  rp_subject :: string
  rp_body :: string
  rp_in_reply_to :: "string option"
  rp_references :: "string option"
  rp_html :: "string option"
  rp_pixel :: "string option"
  rp_attachments :: "mail_attachment list"

definition html_alternative :: "reply_parts \<Rightarrow> string option" where
  "html_alternative parts = (if rp_html parts = None \<and> rp_pixel parts = None then None
     else let inner = (case rp_html parts of Some html \<Rightarrow> html | None \<Rightarrow> paragraphs_html (rp_body parts))
          in Some (''<html><body>'' @ [LF] @ inner @ pixel_img (rp_pixel parts) @ ''</body></html>'' @ [LF]))"

text \<open>The headers of one attachment; the delimiter line goes before them and the encoded bytes after.\<close>

definition sent_filename :: "mail_attachment \<Rightarrow> string \<times> string" where
  "sent_filename att = (let mime = mime_token (p_mime att);
       f = quoted_param (p_filename att);
       filename = (if trim f = [] then ''attachment'' else f);
       (mime, filename) = (if starts_with (to_ascii_lowercase mime) ''message/''
         then (''application/octet-stream'',
               if ends_with (to_ascii_lowercase filename) ''.eml'' then filename
               else if filename = ''attachment'' then ''forwarded.eml'' else filename @ ''.eml'')
         else (mime, filename))
     in (mime, truncate_filename filename 80))"

definition type_line :: "mail_attachment \<Rightarrow> string" where
  "type_line att = (let (mime, filename) = sent_filename att
     in ''Content-Type: '' @ mime
        @ (if is_printable_ascii filename then ''; name='' @ QUOTE # filename @ [QUOTE] else [])
        @ (if starts_with mime ''text/'' then ''; charset='' @ QUOTE # ''utf-8'' @ [QUOTE] else [])
        @ (case Option.bind (p_method att) param_token of Some m \<Rightarrow> ''; method='' @ m | None \<Rightarrow> []))"

definition disposition_line :: "mail_attachment \<Rightarrow> string" where
  "disposition_line att = (let (mime, filename) = sent_filename att;
       disposition = (if p_inline att then ''inline'' else ''attachment'')
     in ''Content-Disposition: '' @ disposition
        @ (if is_printable_ascii filename then ''; filename='' @ QUOTE # filename @ [QUOTE]
           else ''; filename*=utf-8'' @ CHR 0x27 # CHR 0x27 # rfc2231_encode filename
                @ ''; filename='' @ QUOTE # ascii_projection filename @ [QUOTE]))"

definition cid_lines :: "mail_attachment \<Rightarrow> string list" where
  "cid_lines att = (case p_cid att of None \<Rightarrow> []
     | Some cid \<Rightarrow> let token = content_id_token cid in if token = [] then [] else [''Content-ID: <'' @ token @ ''>''])"

definition header_block :: "string list \<Rightarrow> string" where
  "header_block ls = concat (map (\<lambda>l. l @ CRLF) ls)"

definition attachment_section :: "mail_attachment \<Rightarrow> string \<Rightarrow> string" where
  "attachment_section att encoded =
     header_block ([type_line att, ''Content-Transfer-Encoding: base64'', disposition_line att] @ cid_lines att) @ CRLF @ encoded"

definition attachment_part :: "string \<Rightarrow> mail_attachment \<Rightarrow> string \<Rightarrow> string" where
  "attachment_part boundary att encoded = ''--'' @ boundary @ CRLF @ attachment_section att encoded"

definition mark_inline :: "mail_attachment list \<Rightarrow> string option \<Rightarrow> mail_attachment list" where
  "mark_inline atts html = map (\<lambda>att. att\<lparr>p_inline := (case (p_cid att, html) of
       (Some cid, Some html) \<Rightarrow> let token = content_id_token cid
          in token \<noteq> [] \<and> contains html (''src='' @ QUOTE # ''cid:'' @ token @ [QUOTE])
     | _ \<Rightarrow> False)\<rparr>) atts"

text \<open>The value of a multipart \<open>Content-Type\<close>, and its closing line.\<close>

definition multipart_type :: "string \<Rightarrow> string \<Rightarrow> string" where
  "multipart_type kind boundary = ''multipart/'' @ kind @ ''; boundary='' @ QUOTE # boundary @ [QUOTE]"

definition closing :: "string \<Rightarrow> string" where
  "closing boundary = ''--'' @ boundary @ ''--'' @ CRLF"

definition PLAIN_TYPE :: string where
  "PLAIN_TYPE = ''text/plain; charset='' @ QUOTE # ''UTF-8'' @ [QUOTE]"

definition HTML_TYPE :: string where
  "HTML_TYPE = ''text/html; charset='' @ QUOTE # ''UTF-8'' @ [QUOTE]"

definition text_section :: "string \<Rightarrow> string \<Rightarrow> string" where
  "text_section content_type content = ''Content-Type: '' @ content_type @ CRLF @ CRLF @ content @ CRLF"

definition reply_alternative :: "string \<Rightarrow> string \<Rightarrow> string \<Rightarrow> string" where
  "reply_alternative alt text html =
     ''--'' @ alt @ CRLF @ text_section PLAIN_TYPE text @ ''--'' @ alt @ CRLF @ text_section HTML_TYPE html @ closing alt"

definition body_root :: "string \<Rightarrow> string \<Rightarrow> string option \<Rightarrow> string \<times> string" where
  "body_root alt text html = (case html of
     Some html \<Rightarrow> (multipart_type ''alternative'' alt, reply_alternative alt text html)
   | None \<Rightarrow> (PLAIN_TYPE, text @ CRLF))"

definition body_related :: "string \<Rightarrow> (mail_attachment \<times> string) list \<Rightarrow> string \<times> string \<Rightarrow> string \<times> string" where
  "body_related rel inline = (\<lambda>(body_ct, body). if inline = [] then (body_ct, body)
     else let root_type = trim (hd (split_on CHR '';'' body_ct))
          in (multipart_type ''related'' rel @ ''; type='' @ QUOTE # root_type @ [QUOTE],
              ''--'' @ rel @ CRLF @ ''Content-Type: '' @ body_ct @ CRLF @ CRLF @ body
                @ concat (map (\<lambda>(att, enc). attachment_part rel att enc) inline) @ closing rel))"

definition body_mixed :: "string \<Rightarrow> (mail_attachment \<times> string) list \<Rightarrow> string \<times> string \<Rightarrow> string" where
  "body_mixed mix attached = (\<lambda>(inner_ct, inner). if attached = []
     then ''Content-Type: '' @ inner_ct @ CRLF @ ''MIME-Version: 1.0'' @ CRLF @ CRLF @ inner
     else ''Content-Type: '' @ multipart_type ''mixed'' mix @ CRLF @ ''MIME-Version: 1.0'' @ CRLF @ CRLF
            @ ''--'' @ mix @ CRLF @ ''Content-Type: '' @ inner_ct @ CRLF @ CRLF @ inner
            @ concat (map (\<lambda>(att, enc). attachment_part mix att enc) attached) @ closing mix)"

definition probe :: "string \<Rightarrow> string option \<Rightarrow> string list \<Rightarrow> string list" where
  "probe text html encoded = text # (case html of Some h \<Rightarrow> [h] | None \<Rightarrow> []) @ encoded"

definition body_with_attachments ::
    "(string list \<Rightarrow> 64 word) \<Rightarrow> (8 word list \<Rightarrow> string) \<Rightarrow> string \<Rightarrow> string option \<Rightarrow> mail_attachment list \<Rightarrow> string" where
  "body_with_attachments digest b64 text html atts =
     (let encoded = map (\<lambda>a. base64_body b64 (p_data a)) atts;
          boundary = (\<lambda>prefix. boundary_with_prefix digest prefix (probe text html encoded));
          pairs = zip atts encoded
      in body_mixed (boundary BOUNDARY_MIX) (filter (\<lambda>(a, _). \<not> p_inline a) pairs)
           (body_related (boundary BOUNDARY_REL) (filter (\<lambda>(a, _). p_inline a) pairs)
             (body_root (boundary BOUNDARY_ALT) text html)))"

datatype write_error = MissingCredential string | Api_error nat string | Transport string | Invalid string

text \<open>The first field, in the order given, that holds a line ending.\<close>

definition bad_field :: "(string \<times> string) list \<Rightarrow> string option" where
  "bad_field fs = map_option fst (find (\<lambda>(_, v). CR \<in> set v \<or> LF \<in> set v) fs)"

definition or_empty :: "string option \<Rightarrow> string" where
  "or_empty v = (case v of Some s \<Rightarrow> s | None \<Rightarrow> [])"

definition line_unless :: "(string \<Rightarrow> bool) \<Rightarrow> string \<Rightarrow> string option \<Rightarrow> string list" where
  "line_unless omit name v = (case v of Some s \<Rightarrow> if omit s then [] else [name @ '': '' @ s] | None \<Rightarrow> [])"

definition reply_head :: "reply_parts \<Rightarrow> string list" where
  "reply_head parts = [''To: '' @ rp_to parts]
     @ line_unless (\<lambda>s. trim s = []) ''Cc'' (rp_cc parts) @ line_unless (\<lambda>s. trim s = []) ''Bcc'' (rp_bcc parts)
     @ [''Subject: '' @ rp_subject parts]
     @ line_unless (\<lambda>s. s = []) ''In-Reply-To'' (rp_in_reply_to parts) @ line_unless (\<lambda>s. s = []) ''References'' (rp_references parts)"

definition reply_fields :: "reply_parts \<Rightarrow> (string \<times> string) list" where
  "reply_fields parts = [(''To'', rp_to parts), (''Cc'', or_empty (rp_cc parts)), (''Bcc'', or_empty (rp_bcc parts)),
     (''Subject'', rp_subject parts), (''In-Reply-To'', or_empty (rp_in_reply_to parts)), (''References'', or_empty (rp_references parts))]"

definition plain_or_alternative :: "(string list \<Rightarrow> 64 word) \<Rightarrow> string \<Rightarrow> string option \<Rightarrow> string" where
  "plain_or_alternative digest text html = (case html of
     None \<Rightarrow> ''Content-Type: '' @ PLAIN_TYPE @ CRLF @ ''MIME-Version: 1.0'' @ CRLF @ CRLF @ text
   | Some html \<Rightarrow> let boundary = boundary_with_prefix digest BOUNDARY_ALT [text, html]
       in ''Content-Type: '' @ multipart_type ''alternative'' boundary @ CRLF @ ''MIME-Version: 1.0'' @ CRLF @ CRLF
          @ reply_alternative boundary text html)"

definition build_reply_rfc822 ::
    "(string list \<Rightarrow> 64 word) \<Rightarrow> (8 word list \<Rightarrow> string) \<Rightarrow> reply_parts \<Rightarrow> write_error + string" where
  "build_reply_rfc822 digest b64 parts = (case bad_field (reply_fields parts) of
     Some name \<Rightarrow> Inl (Invalid (name @ '' header must not contain CR/LF''))
   | None \<Rightarrow> if trim (rp_to parts) = [] then Inl (Invalid ''reply has no recipient'')
     else let out = header_block (reply_head parts);
              text = to_crlf (rp_body parts);
              html = map_option to_crlf (html_alternative parts)
          in Inr (out @ (if rp_attachments parts \<noteq> [] then body_with_attachments digest b64 text html (rp_attachments parts)
                         else plain_or_alternative digest text html)))"

section \<open>The forwarded original\<close>

record forwarded_original =
  o_from :: string
  o_date :: string
  o_to :: string
  o_cc :: string
  o_subject :: string
  o_text :: string
  o_html :: "string option"
  o_attachments :: "mail_attachment list"

definition DISPLAY_NAME_SPECIALS :: "char list" where
  "DISPLAY_NAME_SPECIALS = ''()<>[]:;@'' @ [BACKSLASH, CHR '','', QUOTE]"

definition quoted_display_name :: "string \<Rightarrow> string" where
  "quoted_display_name name = (if \<not> list_ex (\<lambda>c. c \<in> set DISPLAY_NAME_SPECIALS) name then name
     else QUOTE # replace_char QUOTE [BACKSLASH, QUOTE] (replace_char BACKSLASH [BACKSLASH, BACKSLASH] name) @ [QUOTE])"

definition present :: "string option \<Rightarrow> string option" where
  "present v = (case v of Some s \<Rightarrow> if trim s = [] then None else Some (trim s) | None \<Rightarrow> None)"

definition address_display :: "(string option \<times> string option) list option \<Rightarrow> string" where
  "address_display addr = (case addr of None \<Rightarrow> []
     | Some boxes \<Rightarrow> join '', '' (List.map_filter (\<lambda>(n, e). case (present n, present e) of
           (Some n, Some e) \<Rightarrow> Some (quoted_display_name n @ '' <'' @ e @ ''>'')
         | (None, Some e) \<Rightarrow> Some e
         | (Some n, None) \<Rightarrow> Some (quoted_display_name n)
         | (None, None) \<Rightarrow> None) boxes))"

text \<open>What the parser gives for a part and for a message.\<close>

record parsed_part =
  pt_multipart :: bool
  pt_cid :: "string option"
  pt_inline :: "bool option"
  pt_name :: "string option"
  pt_type :: "(string \<times> string option) option"
  pt_method :: "string option"
  pt_data :: "8 word list"

record parsed_message =
  pm_parts :: "parsed_part list"
  pm_text :: "string option list"
  pm_html :: "string option list"
  pm_from :: "(string option \<times> string option) list option"
  pm_to :: "(string option \<times> string option) list option"
  pm_cc :: "(string option \<times> string option) list option"
  pm_date :: "string option"
  pm_subject :: "string option"

definition carried_part :: "nat \<Rightarrow> parsed_part \<Rightarrow> mail_attachment option" where
  "carried_part i part = (if pt_multipart part then None
     else let content_id = present (pt_cid part)
          in Some \<lparr>p_filename = (case present (pt_name part) of Some n \<Rightarrow> n | None \<Rightarrow> ''attachment-'' @ show_nat (i + 1)),
                   p_mime = (case present (map_option (\<lambda>(t, sub). case sub of Some s \<Rightarrow> t @ ''/'' @ s | None \<Rightarrow> t) (pt_type part)) of
                               Some m \<Rightarrow> m | None \<Rightarrow> ''application/octet-stream''),
                   p_cid = content_id,
                   p_inline = (content_id \<noteq> None \<and> (case pt_inline part of None \<Rightarrow> True | Some b \<Rightarrow> b)),
                   p_method = present (pt_method part), p_data = pt_data part\<rparr>)"

definition parse_forwarded_original :: "parsed_message option \<Rightarrow> forwarded_original option" where
  "parse_forwarded_original parsed = map_option (\<lambda>msg.
     let html_views = List.map_filter id (pm_html msg)
     in \<lparr>o_from = address_display (pm_from msg), o_date = or_empty (pm_date msg), o_to = address_display (pm_to msg),
         o_cc = address_display (pm_cc msg), o_subject = or_empty (pm_subject msg),
         o_text = join [LF, LF] (List.map_filter id (pm_text msg)),
         o_html = (if html_views = [] then None else Some (join [LF] html_views)),
         o_attachments = List.map_filter (\<lambda>(i, p). carried_part i p) (List.enumerate 0 (pm_parts msg))\<rparr>) parsed"

section \<open>Charset declarations\<close>

text \<open>\<open>u8::is_ascii_whitespace\<close>.\<close>

definition is_ascii_ws :: "char \<Rightarrow> bool" where
  "is_ascii_ws c \<longleftrightarrow> c \<in> {CHR '' '', CHR 0x09, LF, CHR 0x0C, CR}"

definition is_html_quote :: "char \<Rightarrow> bool" where
  "is_html_quote c \<longleftrightarrow> c = QUOTE \<or> c = CHR 0x27"

text \<open>The open quote if any, the last character outside one that was not white space, the position.\<close>

fun tag_end_from :: "char option \<Rightarrow> char \<Rightarrow> nat \<Rightarrow> string \<Rightarrow> nat option" where
  "tag_end_from q p i [] = None"
| "tag_end_from (Some q) p i (b # bs) =
     (if b = q then tag_end_from None (CHR 0x00) (Suc i) bs else tag_end_from (Some q) p (Suc i) bs)"
| "tag_end_from None p i (b # bs) =
     (if is_html_quote b \<and> p = CHR ''='' then tag_end_from (Some b) p (Suc i) bs
      else if b = CHR ''>'' then Some (Suc i)
      else tag_end_from None (if is_ascii_ws b then p else b) (Suc i) bs)"

definition tag_end :: "string \<Rightarrow> nat option" where
  "tag_end tag = tag_end_from None (CHR 0x00) 0 tag"

definition name_stops :: "char \<Rightarrow> bool" where
  "name_stops c \<longleftrightarrow> is_ascii_ws c \<or> c \<in> {CHR ''='', CHR ''>'', CHR ''/''}"

text \<open>The value after a name, and what follows it: nothing is consumed where there is no \<open>=\<close>.\<close>

definition attribute_value :: "string \<Rightarrow> string \<times> string" where
  "attribute_value s = (case dropWhile is_ascii_ws s of
     c # t \<Rightarrow> if c = CHR ''='' then
         (case dropWhile is_ascii_ws t of
            q # u \<Rightarrow> if is_html_quote q then (takeWhile (\<lambda>b. b \<noteq> q) u, drop 1 (dropWhile (\<lambda>b. b \<noteq> q) u))
                     else (takeWhile (\<lambda>b. \<not> is_ascii_ws b \<and> b \<noteq> CHR ''>'') (q # u), dropWhile (\<lambda>b. \<not> is_ascii_ws b \<and> b \<noteq> CHR ''>'') (q # u))
          | [] \<Rightarrow> ([], []))
       else ([], s)
   | [] \<Rightarrow> ([], s))"

lemma attribute_value_eq: "length (snd (attribute_value (CHR ''='' # t))) \<le> length t"
proof -
  have no: "\<not> is_ascii_ws CHR ''=''" by code_simp
  show ?thesis
  proof (cases "dropWhile is_ascii_ws t")
    case Nil
    have "dropWhile is_ascii_ws (CHR ''='' # t) = CHR ''='' # t" by (simp add: no)
    then show ?thesis unfolding attribute_value_def by (simp only: list.case Nil if_True simp_thms snd_conv list.size)
  next
    case (Cons q u)
    have u: "Suc (length u) \<le> length t" using length_dropWhile_le [of is_ascii_ws t] unfolding Cons by simp
    have d: "length (dropWhile P v) \<le> length v" for P :: "char \<Rightarrow> bool" and v by (rule length_dropWhile_le)
    have "length (drop 1 (dropWhile (\<lambda>b. b \<noteq> q) u)) \<le> length t" using d [of "\<lambda>b. b \<noteq> q" u] u by simp
    moreover have "length (dropWhile (\<lambda>b. \<not> is_ascii_ws b \<and> b \<noteq> CHR ''>'') (q # u)) \<le> length t"
      using d [of "\<lambda>b. \<not> is_ascii_ws b \<and> b \<noteq> CHR ''>''" "q # u"] u by (simp del: dropWhile.simps)
    ultimately show ?thesis by (simp only: attribute_value_def dropWhile.simps no if_False list.case Cons simp_thms if_True) simp
  qed
qed

lemma attribute_value_le: "length (snd (attribute_value s)) \<le> length s"
proof (cases "dropWhile is_ascii_ws s")
  case (Cons c t)
  have t: "Suc (length t) \<le> length s" using length_dropWhile_le [of is_ascii_ws s] unfolding Cons by simp
  show ?thesis
  proof (cases "c = CHR ''=''")
    case True
    have "\<not> is_ascii_ws CHR ''=''" by code_simp
    then have "attribute_value s = attribute_value (CHR ''='' # t)" unfolding attribute_value_def Cons True by simp
    with attribute_value_eq [of t] t show ?thesis by simp
  qed (simp add: attribute_value_def Cons)
next
  case Nil
  show ?thesis unfolding attribute_value_def Nil by simp
qed

text \<open>What is left of a tag after an attribute is shorter: a name was taken, or an \<open>=\<close>.\<close>

lemma attributes_shrink:
  assumes "dropWhile (\<lambda>c. is_ascii_ws c \<or> c = CHR ''/'') s = c # t" "c \<noteq> CHR ''>''"
  shows "length (snd (attribute_value (dropWhile (\<lambda>c. \<not> name_stops c) (c # t)))) < length s"
proof -
  have le: "Suc (length t) \<le> length s"
    using length_dropWhile_le [of "\<lambda>c. is_ascii_ws c \<or> c = CHR ''/''" s] unfolding assms(1) by simp
  have c: "\<not> (is_ascii_ws c \<or> c = CHR ''/'')" using hd_dropWhile [of "\<lambda>c. is_ascii_ws c \<or> c = CHR ''/''" s] unfolding assms(1) by simp
  show ?thesis
  proof (cases "name_stops c")
    case True
    then have "c = CHR ''=''" using c assms(2) by (auto simp: name_stops_def)
    moreover have "dropWhile (\<lambda>c. \<not> name_stops c) (c # t) = c # t" using True by simp
    ultimately show ?thesis using attribute_value_eq [of t] le by simp
  next
    case False
    then have "dropWhile (\<lambda>c. \<not> name_stops c) (c # t) = dropWhile (\<lambda>c. \<not> name_stops c) t" by simp
    then have "length (snd (attribute_value (dropWhile (\<lambda>c. \<not> name_stops c) (c # t)))) \<le> length t"
      using attribute_value_le [of "dropWhile (\<lambda>c. \<not> name_stops c) t"] length_dropWhile_le [of "\<lambda>c. \<not> name_stops c" t] by simp
    with le show ?thesis by simp
  qed
qed

lemma attributes_shrink':
  assumes "dropWhile (\<lambda>c. is_ascii_ws c \<or> c = CHR ''/'') s = c # t" "c \<noteq> CHR ''>''"
    "p = attribute_value (dropWhile (\<lambda>c. \<not> name_stops c) (c # t))" "(v, r) = p"
  shows "(r, s) \<in> measure length"
  using attributes_shrink [OF assms(1,2)] unfolding assms(3) [symmetric] assms(4) [symmetric] by simp

function attributes_from :: "string \<Rightarrow> (string \<times> string) list" where
  "attributes_from s = (case dropWhile (\<lambda>c. is_ascii_ws c \<or> c = CHR ''/'') s of
     [] \<Rightarrow> []
   | c # t \<Rightarrow> if c = CHR ''>'' then []
       else let name = takeWhile (\<lambda>c. \<not> name_stops c) (c # t);
                (value, rest) = attribute_value (dropWhile (\<lambda>c. \<not> name_stops c) (c # t))
            in if name \<noteq> [] then (name, value) # attributes_from rest else attributes_from rest)"
  by pat_completeness auto
termination
  by (relation "measure length") (simp only: wf_measure, (erule (3) attributes_shrink')+)

declare attributes_from.simps [simp del]

definition tag_attributes :: "string \<Rightarrow> (string \<times> string) list" where
  "tag_attributes tag = attributes_from (dropWhile (\<lambda>c. \<not> is_ascii_ws c) tag)"

definition meta_declares_charset :: "string \<Rightarrow> bool" where
  "meta_declares_charset tag \<longleftrightarrow> list_ex (\<lambda>(name, value). name = ''charset'' \<or> (name = ''http-equiv'' \<and> trim value = ''content-type''))
     (tag_attributes tag)"

text \<open>\<open>str::find\<close>.\<close>

fun find_sub :: "string \<Rightarrow> string \<Rightarrow> nat option" where
  "find_sub p [] = (if p = [] then Some 0 else None)"
| "find_sub p (c # s) = (if starts_with (c # s) p then Some 0 else map_option Suc (find_sub p s))"

lemma tag_end_bounds: "tag_end_from q p i s = Some e \<Longrightarrow> i < e \<and> e \<le> i + length s"
  by (induction q p i s rule: tag_end_from.induct) (auto split: if_splits)

text \<open>The html from the cursor on; a lower-case copy is searched, which has the same offsets.\<close>

function strip_charset_meta :: "string \<Rightarrow> string" where
  "strip_charset_meta html = (case find_sub ''<meta'' (to_ascii_lowercase html) of
     None \<Rightarrow> html
   | Some k \<Rightarrow> let start = drop k html; lower = to_ascii_lowercase start;
         is_meta = (case drop 5 lower of [] \<Rightarrow> True | c # _ \<Rightarrow> is_whitespace c \<or> c = CHR ''/'' \<or> c = CHR ''>'')
       in case tag_end lower of
            None \<Rightarrow> html
          | Some e \<Rightarrow> take k html @ (if is_meta \<and> meta_declares_charset (take e lower) then [] else take e start)
                        @ strip_charset_meta (drop e start))"
  by pat_completeness auto
termination
proof (relation "measure length")
  fix html k start lower is_meta e
  assume a: "find_sub ''<meta'' (to_ascii_lowercase html) = Some k" "start = drop k html" "lower = to_ascii_lowercase start"
    "tag_end lower = Some e"
  have "0 < e \<and> e \<le> length lower" using tag_end_bounds [of None _ 0 lower e] a(4) by (simp add: tag_end_def)
  then show "(drop e start, html) \<in> measure length" using a(2,3) by (auto simp: to_ascii_lowercase_def)
qed simp

declare strip_charset_meta.simps [simp del]

section \<open>Composing a forward\<close>

record forward_parts =
  fp_to :: string
  fp_cc :: "string option"
  fp_bcc :: "string option"
  fp_subject :: string
  fp_note :: string
  fp_note_html :: "string option"
  fp_pixel :: "string option"
  fp_original :: forwarded_original

definition FORWARD_BANNER :: string where
  "FORWARD_BANNER = ''---------- Forwarded message ---------''"

definition forward_text_part :: "forward_parts \<Rightarrow> string" where
  "forward_text_part parts = (let og = fp_original parts in
     (if trim (fp_note parts) = [] then [] else fp_note parts @ [LF, LF])
     @ FORWARD_BANNER @ [LF]
     @ ''From: '' @ strip_newlines (o_from og) @ [LF]
     @ ''Date: '' @ strip_newlines (o_date og) @ [LF]
     @ ''Subject: '' @ strip_newlines (o_subject og) @ [LF]
     @ ''To: '' @ strip_newlines (o_to og) @ [LF]
     @ (if trim (o_cc og) = [] then [] else ''Cc: '' @ strip_newlines (o_cc og) @ [LF])
     @ [LF] @ o_text og)"

definition quoted_rows :: "forwarded_original \<Rightarrow> (string \<times> string) list" where
  "quoted_rows og = filter (\<lambda>(label, value). \<not> (label = ''Cc'' \<and> trim value = []))
     [(''From'', o_from og), (''Date'', o_date og), (''Subject'', o_subject og), (''To'', o_to og), (''Cc'', o_cc og)]"

definition forward_html_part :: "forward_parts \<Rightarrow> string" where
  "forward_html_part parts = (let og = fp_original parts;
       note = (case fp_note_html parts of Some html \<Rightarrow> html | None \<Rightarrow> paragraphs_html (fp_note parts));
       original_html = (case o_html og of Some html \<Rightarrow> strip_charset_meta html | None \<Rightarrow> paragraphs_html (o_text og))
     in ''<html><body>'' @ [LF] @ note @ ''<div class='' @ QUOTE # ''passband_forward'' @ QUOTE # ''>'' @ [LF] @ ''<hr>'' @ [LF] @ ''<p>''
        @ FORWARD_BANNER @ ''<br>'' @ [LF]
        @ concat (map (\<lambda>(label, value). ''<b>'' @ label @ '':</b> '' @ escape_html (strip_newlines value) @ ''<br>'' @ [LF]) (quoted_rows og))
        @ ''</p>'' @ [LF] @ original_html @ [LF] @ ''</div>'' @ [LF] @ pixel_img (fp_pixel parts) @ ''</body></html>'' @ [LF])"

definition qp_section :: "string \<Rightarrow> string \<Rightarrow> string" where
  "qp_section content_type content =
     ''Content-Type: '' @ content_type @ CRLF @ ''Content-Transfer-Encoding: quoted-printable'' @ CRLF @ CRLF @ content @ CRLF"

definition alternative_section :: "string \<Rightarrow> string \<Rightarrow> string \<Rightarrow> string" where
  "alternative_section boundary text html =
     ''--'' @ boundary @ CRLF @ qp_section PLAIN_TYPE text @ ''--'' @ boundary @ CRLF @ qp_section HTML_TYPE html @ closing boundary"

definition forward_head :: "forward_parts \<Rightarrow> string list" where
  "forward_head parts = [''To: '' @ fp_to parts]
     @ line_unless (\<lambda>s. trim s = []) ''Cc'' (fp_cc parts) @ line_unless (\<lambda>s. trim s = []) ''Bcc'' (fp_bcc parts)
     @ [''Subject: '' @ fp_subject parts]"

definition forward_fields :: "forward_parts \<Rightarrow> (string \<times> string) list" where
  "forward_fields parts = [(''To'', fp_to parts), (''Cc'', or_empty (fp_cc parts)), (''Bcc'', or_empty (fp_bcc parts)),
     (''Subject'', fp_subject parts)]"

definition forward_body ::
    "(string list \<Rightarrow> 64 word) \<Rightarrow> string \<Rightarrow> string \<Rightarrow> (mail_attachment \<times> string) list \<Rightarrow> string" where
  "forward_body digest text html attached =
     (let probed = text # html # map snd attached;
          alt = boundary_with_prefix digest BOUNDARY_ALT probed;
          mix = boundary_with_prefix digest BOUNDARY_MIX probed
      in if attached = [] then ''Content-Type: '' @ multipart_type ''alternative'' alt @ CRLF @ ''MIME-Version: 1.0'' @ CRLF @ CRLF
              @ alternative_section alt text html
         else ''Content-Type: '' @ multipart_type ''mixed'' mix @ CRLF @ ''MIME-Version: 1.0'' @ CRLF @ CRLF
              @ ''--'' @ mix @ CRLF @ ''Content-Type: '' @ multipart_type ''alternative'' alt @ CRLF @ CRLF @ alternative_section alt text html
              @ concat (map (\<lambda>(att, enc). attachment_part mix att enc) attached) @ closing mix)"

definition build_forward_rfc822 ::
    "(string list \<Rightarrow> 64 word) \<Rightarrow> (8 word list \<Rightarrow> string) \<Rightarrow> forward_parts \<Rightarrow> write_error + string" where
  "build_forward_rfc822 digest b64 parts = (case bad_field (forward_fields parts) of
     Some name \<Rightarrow> Inl (Invalid (name @ '' header must not contain CR/LF''))
   | None \<Rightarrow> if trim (fp_to parts) = [] then Inl (Invalid ''forward has no recipient'')
     else let text = qp_encode (to_crlf_strict (forward_text_part parts));
              html = qp_encode (to_crlf_strict (forward_html_part parts));
              atts = o_attachments (fp_original parts);
              encoded = map (\<lambda>a. base64_body b64 (p_data a)) atts
          in Inr (header_block (forward_head parts) @ forward_body digest text html (zip atts encoded)))"

end
