(* ===== verification/Mail_Reading.thy ===== *)
theory Mail_Reading
  imports Mail_Compose
begin

text \<open>
  How the mail that \<open>Mail_Compose\<close> writes reads: a reader of messages and of multipart bodies, as RFC 5322 and
  RFC 2046 have them, and what it finds in a reply and in a forward.
\<close>

section \<open>A reader\<close>

text \<open>Header lines up to the first empty line, and the rest.\<close>

definition read_message :: "string \<Rightarrow> string list \<times> string" where
  "read_message s = (let ls = split_crlf s
     in (takeWhile (\<lambda>l. l \<noteq> []) ls, join CRLF (tl (dropWhile (\<lambda>l. l \<noteq> []) ls))))"

text \<open>The lines between delimiter lines, which begin with \<open>--\<close> and the boundary.\<close>

fun sections :: "(string \<Rightarrow> bool) \<Rightarrow> string list \<Rightarrow> string list list" where
  "sections p [] = [[]]"
| "sections p (l # ls) = (if p l then [] # sections p ls
     else case sections p ls of [] \<Rightarrow> [[l]] | g # gs \<Rightarrow> (l # g) # gs)"

definition delimiter :: "string \<Rightarrow> string \<Rightarrow> bool" where
  "delimiter b l \<longleftrightarrow> starts_with l (''--'' @ b)"

text \<open>What stands before the first delimiter and after the last is no part.\<close>

definition mime_parts :: "string \<Rightarrow> string \<Rightarrow> string list" where
  "mime_parts b body = map (\<lambda>g. join CRLF (g @ [[]])) (butlast (tl (sections (delimiter b) (split_crlf body))))"

text \<open>A content type that names a boundary, and the parts the body has at it.\<close>

definition reads_as :: "string \<Rightarrow> string \<Rightarrow> string list \<Rightarrow> bool" where
  "reads_as content_type body ps \<longleftrightarrow>
     (\<exists>kind b rest. content_type = multipart_type kind b @ rest \<and> QUOTE \<notin> set b \<and> mime_parts b body = ps)"

definition one_line :: "string \<Rightarrow> bool" where
  "one_line l \<longleftrightarrow> CR \<notin> set l \<and> LF \<notin> set l"

section \<open>Lines\<close>

lemma split_crlf_other: "\<not> (c = CR \<and> d = LF) \<Longrightarrow> split_crlf (d # s) = l # ls \<Longrightarrow> split_crlf (c # d # s) = (c # l) # ls"
  by auto

lemma split_crlf_append: "split_crlf (a @ CRLF @ s) = split_crlf a @ split_crlf s"
proof (induction a rule: split_crlf.induct)
  case (1 c d a)
  show ?case
  proof (cases "c = CR \<and> d = LF")
    case True
    with 1(1) show ?thesis by simp
  next
    case False
    have "split_crlf (d # a) \<noteq> []" by simp
    then obtain l ls where l: "split_crlf (d # a) = l # ls" by (cases "split_crlf (d # a)") auto
    with 1(2) [OF False] have "split_crlf (d # a @ CRLF @ s) = l # ls @ split_crlf s" by simp
    then have "split_crlf (c # d # a @ CRLF @ s) = (c # l) # ls @ split_crlf s" by (intro split_crlf_other [OF False]) simp
    moreover have "split_crlf (c # d # a) = (c # l) # ls" by (rule split_crlf_other [OF False l])
    ultimately show ?thesis by (simp del: split_crlf.simps)
  qed
qed (auto simp: CRLF_def)

lemma split_crlf_line: "one_line l \<Longrightarrow> split_crlf l = [l]"
  by (induction l rule: split_crlf.induct) (auto simp: one_line_def)

lemma join_split_crlf: "join CRLF (split_crlf s) = s"
proof (induction s rule: split_crlf.induct)
  case (1 c d s)
  show ?case
  proof (cases "c = CR \<and> d = LF")
    case True
    obtain l ls where "split_crlf s = l # ls" by (cases "split_crlf s") auto
    with True 1(1) show ?thesis by (simp add: CRLF_def)
  next
    case False
    obtain l ls where l: "split_crlf (d # s) = l # ls" by (cases "split_crlf (d # s)") auto
    have "join CRLF ((c # l) # ls) = c # join CRLF (l # ls)" by (cases ls) simp_all
    with 1(2) [OF False] show ?thesis unfolding split_crlf_other [OF False l] l by simp
  qed
qed simp_all

lemma header_block_Nil [simp]: "header_block [] = []"
  by (simp add: header_block_def)

lemma header_block_Cons: "header_block (l # ls) = l @ CRLF @ header_block ls"
  by (simp add: header_block_def)

lemma header_block_append: "header_block (a @ b) = header_block a @ header_block b"
  by (simp add: header_block_def)

lemma split_header_block: "list_all one_line ls \<Longrightarrow> split_crlf (header_block ls @ s) = ls @ split_crlf s"
proof (induction ls)
  case (Cons l ls)
  then show ?case by (simp add: header_block_Cons split_crlf_append split_crlf_line)
qed simp

text \<open>Headers of one line each, then a blank line: that is how the message reads.\<close>

lemma read_message_block:
  assumes "list_all (\<lambda>l. one_line l \<and> l \<noteq> []) ls"
  shows "read_message (header_block ls @ CRLF @ body) = (ls, body)"
proof -
  have "split_crlf (CRLF @ body) = [] # split_crlf body" using split_crlf_append [of "[]" body] by simp
  then have s: "split_crlf (header_block ls @ CRLF @ body) = ls @ [] # split_crlf body"
    using assms by (subst split_header_block) (auto simp: list_all_iff)
  have "takeWhile (\<lambda>l. l \<noteq> []) (ls @ [] # split_crlf body) = ls" "dropWhile (\<lambda>l. l \<noteq> []) (ls @ [] # split_crlf body) = [] # split_crlf body"
    using assms by (auto simp: list_all_iff takeWhile_append dropWhile_append)
  then show ?thesis unfolding read_message_def Let_def s by (simp add: join_split_crlf)
qed

section \<open>Parts\<close>

definition clean :: "string \<Rightarrow> string \<Rightarrow> bool" where
  "clean b s \<longleftrightarrow> list_all (\<lambda>l. \<not> delimiter b l) (split_crlf s)"

lemma clean_append: "clean b (a @ CRLF @ s) \<longleftrightarrow> clean b a \<and> clean b s"
  by (simp add: clean_def split_crlf_append)

lemma clean_line: "one_line l \<Longrightarrow> clean b l \<longleftrightarrow> \<not> delimiter b l"
  by (simp add: clean_def split_crlf_line)

lemma clean_Nil [simp]: "clean b []"
  by (simp add: clean_def delimiter_def)

lemma clean_block: "list_all (\<lambda>l. one_line l \<and> \<not> delimiter b l) ls \<Longrightarrow> clean b s \<Longrightarrow> clean b (header_block ls @ s)"
  by (induction ls) (simp_all add: header_block_Cons clean_append clean_line)

lemma in_join: "l \<in> set ls \<Longrightarrow> \<exists>a c. join sep ls = a @ l @ c"
proof (induction sep ls rule: join.induct)
  case (3 sep w v ws)
  show ?case
  proof (cases "l = w")
    case True
    then have "join sep (w # v # ws) = [] @ l @ (sep @ join sep (v # ws))" by simp
    then show ?thesis by blast
  next
    case False
    then obtain a c where "join sep (v # ws) = a @ l @ c" using 3 by auto
    then have "join sep (w # v # ws) = (w @ sep @ a) @ l @ c" by simp
    then show ?thesis by blast
  qed
qed (auto intro: exI [of _ "[]"])

lemma clean_absent: "\<not> contains s b \<Longrightarrow> clean b s"
proof -
  assume no: "\<not> contains s b"
  have "\<not> delimiter b l" if l: "l \<in> set (split_crlf s)" for l
  proof
    assume "delimiter b l"
    then obtain t where "l = ''--'' @ b @ t" unfolding delimiter_def starts_with_iff by auto
    moreover obtain a c where "s = a @ l @ c" using in_join [OF l, of CRLF] unfolding join_split_crlf by blast
    ultimately have "s = (a @ ''--'') @ b @ (t @ c)" by simp
    with no show False unfolding contains_iff by blast
  qed
  then show ?thesis by (simp add: clean_def list_all_iff)
qed

lemma sections_not_Nil [simp]: "sections p ls \<noteq> []"
  by (induction ls) (auto split: list.splits)

lemma sections_append: "list_all (\<lambda>l. \<not> p l) xs \<Longrightarrow> p d \<Longrightarrow> sections p (xs @ d # ys) = xs # sections p ys"
  by (induction xs) auto

lemma join_snoc_Nil: "ls \<noteq> [] \<Longrightarrow> join sep (ls @ [[]]) = join sep ls @ sep"
proof (induction sep ls rule: join.induct)
  case (3 sep w v ws)
  then show ?case by simp
qed simp_all

definition multipart :: "string \<Rightarrow> string list \<Rightarrow> string" where
  "multipart b ps = concat (map (\<lambda>p. ''--'' @ b @ CRLF @ p) ps) @ closing b"

text \<open>A multipart body reads as its parts, if each ends its last line and has no delimiter line.\<close>

lemma mime_parts_multipart:
  assumes "one_line b" "list_all (\<lambda>q. clean b q) qs"
  shows "mime_parts b (multipart b (map (\<lambda>q. q @ CRLF) qs)) = map (\<lambda>q. q @ CRLF) qs"
proof -
  have dl: "one_line (''--'' @ b)" "one_line (''--'' @ b @ ''--'')" using assms(1) by (simp_all add: one_line_def)
  have d: "delimiter b (''--'' @ b)" "delimiter b (''--'' @ b @ ''--'')" by (auto simp: delimiter_def starts_with_iff)
  have close: "split_crlf (closing b) = [''--'' @ b @ ''--'', []]"
    using split_crlf_append [of "''--'' @ b @ ''--''" "[]"] split_crlf_line [OF dl(2)] by (simp add: closing_def del: split_crlf.simps) simp
  let ?S = "\<lambda>qs. split_crlf (multipart b (map (\<lambda>q. q @ CRLF) qs))"
  have step: "?S (q # qs) = (''--'' @ b) # split_crlf q @ ?S qs" for q qs
    using split_crlf_append [of "''--'' @ b" "q @ CRLF @ multipart b (map (\<lambda>q. q @ CRLF) qs)"]
      split_crlf_append [of q "multipart b (map (\<lambda>q. q @ CRLF) qs)"]
      split_crlf_line [OF dl(1)] by (simp add: multipart_def del: split_crlf.simps)
  have all: "sections (delimiter b) (ls @ ?S qs) = ls # map split_crlf qs @ [[[]]]"
    if "list_all (\<lambda>l. \<not> delimiter b l) ls" for ls
    using assms(2) that
  proof (induction qs arbitrary: ls)
    case Nil
    have "\<not> delimiter b []" by (simp add: delimiter_def)
    then show ?case using sections_append [OF Nil(2) d(2), of "[[]]"] by (simp add: multipart_def close)
  next
    case (Cons q qs)
    have "sections (delimiter b) (ls @ (''--'' @ b) # split_crlf q @ ?S qs) = ls # sections (delimiter b) (split_crlf q @ ?S qs)"
      by (rule sections_append [OF Cons.prems(2) d(1)])
    moreover have "sections (delimiter b) (split_crlf q @ ?S qs) = split_crlf q # map split_crlf qs @ [[[]]]"
      using Cons by (simp add: clean_def)
    ultimately show ?case unfolding step by simp
  qed
  have "sections (delimiter b) (?S qs) = [] # map split_crlf qs @ [[[]]]" using all [of "[]"] by simp
  then show ?thesis unfolding mime_parts_def by (simp add: comp_def join_snoc_Nil join_split_crlf)
qed


section \<open>What the header fields hold\<close>

lemma one_line_append [simp]: "one_line (a @ b) \<longleftrightarrow> one_line a \<and> one_line b"
  by (auto simp: one_line_def)

lemma one_line_Nil [simp]: "one_line []"
  by (simp add: one_line_def)

lemma one_line_Cons: "one_line (c # s) \<longleftrightarrow> c \<noteq> CR \<and> c \<noteq> LF \<and> one_line s"
  by (auto simp: one_line_def)

lemma one_line_concat: "one_line (concat ls) \<longleftrightarrow> list_all one_line ls"
  by (auto simp: one_line_def list_all_iff)

lemma bad_field_None: "bad_field fs = None \<longleftrightarrow> list_all (\<lambda>(_, v). one_line v) fs"
  by (auto simp: bad_field_def find_None_iff list_all_iff one_line_def)

lemma line_unless_ok:
  assumes "one_line name" "name \<noteq> []" "one_line (or_empty v)"
  shows "list_all (\<lambda>l. one_line l \<and> l \<noteq> []) (line_unless omit name v)"
  using assms by (auto simp: line_unless_def or_empty_def one_line_Cons split: option.splits)

lemma reply_head_ok:
  assumes "bad_field (reply_fields p) = None"
  shows "list_all (\<lambda>l. one_line l \<and> l \<noteq> []) (reply_head p)"
  using assms by (auto simp: bad_field_None reply_fields_def reply_head_def one_line_Cons intro!: line_unless_ok)

lemma forward_head_ok:
  assumes "bad_field (forward_fields p) = None"
  shows "list_all (\<lambda>l. one_line l \<and> l \<noteq> []) (forward_head p)"
  using assms by (auto simp: bad_field_None forward_fields_def forward_head_def one_line_Cons intro!: line_unless_ok)

section \<open>The headers of an attachment\<close>

lemma one_line_filter: "(\<And>c. P c \<Longrightarrow> c \<noteq> CR \<and> c \<noteq> LF) \<Longrightarrow> one_line (filter P s)"
  by (auto simp: one_line_def)

lemma plain_char: "is_ascii_alnum c \<Longrightarrow> c \<noteq> CR \<and> c \<noteq> LF"
proof -
  have "\<not> is_ascii_alnum CR" "\<not> is_ascii_alnum LF" by code_simp+
  then show "is_ascii_alnum c \<Longrightarrow> ?thesis" by auto
qed

lemma one_line_mime: "one_line (mime_token m)"
proof -
  have "one_line (filter (\<lambda>c. is_ascii_alnum c \<or> c \<in> {CHR ''/'', CHR ''+'', CHR ''-'', CHR ''.'', CHR ''_''}) m)"
    by (rule one_line_filter) (auto dest: plain_char)
  moreover have "one_line ''application/octet-stream''" by code_simp
  ultimately show ?thesis by (simp add: mime_token_def Let_def)
qed

lemma one_line_param: "param_token v = Some t \<Longrightarrow> one_line t"
  by (auto simp: param_token_def Let_def split: if_splits intro!: one_line_filter dest: plain_char)

lemma one_line_cid: "one_line (content_id_token v)"
proof -
  have "is_control CR" "is_control LF" by code_simp+
  then show ?thesis unfolding content_id_token_def Let_def by (intro one_line_filter) auto
qed

lemma one_line_subset: "one_line s \<Longrightarrow> set t \<subseteq> set s \<Longrightarrow> one_line t"
  by (auto simp: one_line_def)

lemma set_truncate: "set (truncate_filename name n) \<subseteq> set name"
proof -
  have "set (CHR ''.'' # b) \<subseteq> set name" if "rsplit CHR ''.'' name = Some (a, b)" for a b
    using that unfolding rsplit_Some by auto
  then show ?thesis
    by (auto simp: truncate_filename_def Let_def split: option.splits if_splits dest: in_set_takeD)
qed

lemma sent_filename_chars:
  assumes "sent_filename att = (mime, filename)"
  shows "one_line mime" "one_line filename" "QUOTE \<notin> set filename" "BACKSLASH \<notin> set filename"
proof -
  let ?bad = "{CR, LF, QUOTE, BACKSLASH}"
  have "set (quoted_param v) \<inter> ?bad = {}" for v by (auto simp: quoted_param_def)
  moreover have "set ''attachment'' \<inter> ?bad = {}" "set ''forwarded.eml'' \<inter> ?bad = {}" "set ''.eml'' \<inter> ?bad = {}" by simp_all
  ultimately have "set filename \<inter> ?bad = {}"
    using assms set_truncate unfolding sent_filename_def Let_def
    by (auto split: if_splits dest!: subsetD [OF set_truncate])
  then show "one_line filename" "QUOTE \<notin> set filename" "BACKSLASH \<notin> set filename" by (auto simp: one_line_def)
  have "one_line ''application/octet-stream''" by code_simp
  then show "one_line mime" using assms one_line_mime by (auto simp: sent_filename_def Let_def split: if_splits)
qed

lemma one_line_rfc2231: "one_line (rfc2231_encode s)"
proof -
  have "one_line (if rfc2231_plain b then [char_of (unat b)] else CHR ''%'' # hex_upper b)" for b
  proof (cases "rfc2231_plain b")
    case True
    have ne: "\<not> rfc2231_plain 13" "\<not> rfc2231_plain 10" by code_simp+
    have u: "unat b < 256" using unsigned_less [of b, where ?'a = nat] by simp
    have from_cp: "b = word_of_nat (cp c)" if "char_of (unat b) = c" for c using that u by auto
    have "char_of (unat b) \<noteq> CR" "char_of (unat b) \<noteq> LF"
      using from_cp [of CR] from_cp [of LF] ne True by auto
    with True show ?thesis by (simp add: one_line_Cons)
  next
    case False
    obtain h l where "hex_upper b = [h, l]" "h \<in> set ''0123456789ABCDEF''" "l \<in> set ''0123456789ABCDEF''" by (rule hex_upper_cases)
    with False hex_plain show ?thesis by (auto simp: one_line_Cons)
  qed
  then show ?thesis by (simp only: rfc2231_encode_def one_line_concat list_all_iff set_map ball_simps simp_thms) simp
qed

lemma attachment_lines_ok:
  "list_all (\<lambda>l. one_line l \<and> l \<noteq> [] \<and> \<not> delimiter b l)
     ([type_line att, ''Content-Transfer-Encoding: base64'', disposition_line att] @ cid_lines att)"
proof -
  obtain mime filename where f: "sent_filename att = (mime, filename)" by (cases "sent_filename att")
  note chars = sent_filename_chars [OF f]
  have "one_line (type_line att)"
    using chars one_line_param by (auto simp: type_line_def f one_line_Cons bind_eq_Some_conv split: option.splits)
  moreover have "one_line (ascii_projection filename)"
  proof -
    have "\<not> is_ascii_graphic CR" "\<not> is_ascii_graphic LF" by code_simp+
    then show ?thesis by (auto simp: ascii_projection_def one_line_def)
  qed
  then have "one_line (disposition_line att)" using chars one_line_rfc2231 by (auto simp: disposition_line_def f one_line_Cons)
  moreover have "list_all one_line (cid_lines att)" using one_line_cid by (auto simp: cid_lines_def Let_def one_line_Cons split: option.splits)
  moreover have "\<not> delimiter b (CHR ''C'' # s)" for s by (simp add: delimiter_def)
  then have "\<not> delimiter b (type_line att)" "\<not> delimiter b (disposition_line att)" "list_all (\<lambda>l. \<not> delimiter b l) (cid_lines att)"
    by (simp_all add: type_line_def disposition_line_def f cid_lines_def Let_def split: option.splits)
  ultimately show ?thesis
    by (auto simp: list_all_iff one_line_Cons delimiter_def type_line_def disposition_line_def f cid_lines_def Let_def split: option.splits if_splits)
qed

text \<open>Whatever a file is called, whatever type, identifier and method it claims, it goes out under its own
  three or four header lines and its bytes follow them: nothing its author wrote opens a further header
  or closes the quotes of its name.\<close>
theorem attachment_headers_are_its_own:
  "read_message (attachment_section att encoded)
     = ([type_line att, ''Content-Transfer-Encoding: base64'', disposition_line att] @ cid_lines att, encoded)
   \<and> QUOTE \<notin> set (snd (sent_filename att)) \<and> BACKSLASH \<notin> set (snd (sent_filename att))"
proof -
  have "list_all (\<lambda>l. one_line l \<and> l \<noteq> []) ([type_line att, ''Content-Transfer-Encoding: base64'', disposition_line att] @ cid_lines att)"
    using attachment_lines_ok [of "[]" att] by (simp only: list_all_iff) blast
  from read_message_block [OF this, of encoded] show ?thesis
    unfolding attachment_section_def using sent_filename_chars [of att] by (metis prod.collapse)
qed


section \<open>Levels\<close>

definition level :: "string \<Rightarrow> bool" where
  "level prefix \<longleftrightarrow> prefix \<in> {BOUNDARY_ALT, BOUNDARY_MIX, BOUNDARY_REL}"

text \<open>What holds of the boundary of a level over what was probed.\<close>

lemma boundary_level:
  assumes "level prefix"
  shows "one_line (boundary_with_prefix digest prefix ps)" "QUOTE \<notin> set (boundary_with_prefix digest prefix ps)"
    "list_all (\<lambda>s. clean (boundary_with_prefix digest prefix ps) s) ps"
proof -
  obtain s where b: "boundary_with_prefix digest prefix ps = prefix @ s" "list_all (\<lambda>c. is_ascii_alnum c \<or> c = CHR ''_'') s"
    "absent ps (boundary_with_prefix digest prefix ps)"
    using boundary_facts [of digest prefix ps] unfolding Let_def by blast
  have "list_all (\<lambda>p. one_line p \<and> QUOTE \<notin> set p) [BOUNDARY_ALT, BOUNDARY_MIX, BOUNDARY_REL]" by code_simp
  then have p: "one_line prefix" "QUOTE \<notin> set prefix" using assms by (auto simp: level_def)
  have "\<not> is_ascii_alnum QUOTE" by code_simp
  then have "one_line s" "QUOTE \<notin> set s" using b(2) plain_char by (auto simp: one_line_def list_all_iff)
  with p show "one_line (boundary_with_prefix digest prefix ps)" "QUOTE \<notin> set (boundary_with_prefix digest prefix ps)"
    by (simp_all add: b(1))
  show "list_all (\<lambda>s. clean (boundary_with_prefix digest prefix ps) s) ps"
    using b(3) clean_absent by (auto simp: absent_def list_all_iff)
qed

lemma delimiter_levels:
  assumes "level p" "level q" "p \<noteq> q"
  shows "\<not> delimiter (boundary_with_prefix digest p ps) (''--'' @ boundary_with_prefix digest q ps @ t)"
proof -
  obtain s where s: "boundary_with_prefix digest p ps = p @ s" using boundary_facts [of digest p ps] unfolding Let_def by blast
  obtain u where u: "boundary_with_prefix digest q ps = q @ u" using boundary_facts [of digest q ps] unfolding Let_def by blast
  have "q @ w \<noteq> p @ v" for v w
    using assms by (auto simp: level_def BOUNDARY_ALT_def BOUNDARY_MIX_def BOUNDARY_REL_def)
  then show ?thesis unfolding delimiter_def starts_with_iff s u by auto
qed

lemma levels [simp]: "level BOUNDARY_ALT" "level BOUNDARY_MIX" "level BOUNDARY_REL"
  "BOUNDARY_ALT \<noteq> BOUNDARY_MIX" "BOUNDARY_ALT \<noteq> BOUNDARY_REL" "BOUNDARY_REL \<noteq> BOUNDARY_MIX"
  "BOUNDARY_MIX \<noteq> BOUNDARY_ALT" "BOUNDARY_REL \<noteq> BOUNDARY_ALT" "BOUNDARY_MIX \<noteq> BOUNDARY_REL"
  by (simp_all add: level_def BOUNDARY_ALT_def BOUNDARY_MIX_def BOUNDARY_REL_def)

text \<open>A multipart body of one level passes through another untouched.\<close>

lemma clean_multipart:
  assumes "level p" "level q" "p \<noteq> q" "list_all (\<lambda>x. clean (boundary_with_prefix digest p ps) x) qs"
  shows "clean (boundary_with_prefix digest p ps) (multipart (boundary_with_prefix digest q ps) (map (\<lambda>x. x @ CRLF) qs))"
  using assms(4)
proof (induction qs)
  case Nil
  have "one_line (''--'' @ boundary_with_prefix digest q ps @ ''--'')" using boundary_level [OF assms(2)] by (simp add: one_line_Cons)
  then show ?case using delimiter_levels [OF assms(1-3), of digest ps "''--''"] clean_append [of _ "''--'' @ boundary_with_prefix digest q ps @ ''--''" "[]"]
    by (simp add: multipart_def closing_def clean_line)
next
  case (Cons x qs)
  let ?b = "boundary_with_prefix digest p ps" and ?d = "''--'' @ boundary_with_prefix digest q ps"
  have "one_line ?d" using boundary_level [OF assms(2)] by (simp add: one_line_Cons)
  then have "clean ?b ?d" using delimiter_levels [OF assms(1-3), of digest ps "[]"] by (simp only: clean_line append_Nil2 simp_thms)
  moreover have "multipart (boundary_with_prefix digest q ps) (map (\<lambda>x. x @ CRLF) (x # qs))
      = ?d @ CRLF @ (x @ CRLF @ multipart (boundary_with_prefix digest q ps) (map (\<lambda>x. x @ CRLF) qs))" by (simp add: multipart_def)
  moreover have "clean ?b x" "clean ?b (multipart (boundary_with_prefix digest q ps) (map (\<lambda>x. x @ CRLF) qs))" using Cons by simp_all
  ultimately show ?case by (simp only: clean_append simp_thms)
qed

text \<open>A part ends its last line: it is some text and a line ending.\<close>

definition ended :: "string \<Rightarrow> string \<Rightarrow> bool" where
  "ended b p \<longleftrightarrow> (\<exists>q. p = q @ CRLF \<and> clean b q)"

lemma ended_multipart:
  assumes "one_line b" "list_all (ended b) ps"
  shows "mime_parts b (multipart b ps) = ps"
proof -
  have "\<exists>qs. ps = map (\<lambda>q. q @ CRLF) qs \<and> list_all (\<lambda>q. clean b q) qs"
    using assms(2)
  proof (induction ps)
    case (Cons p ps)
    then obtain q qs where "p = q @ CRLF" "clean b q" "ps = map (\<lambda>q. q @ CRLF) qs" "list_all (\<lambda>q. clean b q) qs" by (auto simp: ended_def)
    then show ?case by (intro exI [of _ "q # qs"]) simp
  qed simp
  then show ?thesis using mime_parts_multipart [OF assms(1)] by blast
qed

lemma clean_ended: "ended b p \<Longrightarrow> clean b p"
  unfolding ended_def using clean_append [of b _ "[]"] by auto

lemma ended_head: "list_all (\<lambda>l. one_line l \<and> \<not> delimiter b l) ls \<Longrightarrow> ls \<noteq> [] \<Longrightarrow> body = [] \<or> ended b body
    \<Longrightarrow> ended b (header_block ls @ CRLF @ body)"
proof -
  assume ls: "list_all (\<lambda>l. one_line l \<and> \<not> delimiter b l) ls" "ls \<noteq> []" and "body = [] \<or> ended b body"
  then consider "body = []" | q where "body = q @ CRLF" "clean b q" by (auto simp: ended_def)
  then show "ended b (header_block ls @ CRLF @ body)"
  proof cases
    case 1
    have "clean b (header_block ls)" using clean_block [OF ls(1), of "[]"] by simp
    then show ?thesis using 1 by (auto simp: ended_def)
  next
    case 2
    have "clean b (header_block ls @ CRLF @ q)" using 2 clean_block [OF ls(1), of "CRLF @ q"] clean_append [of b "[]" q] by simp
    then show ?thesis using 2 unfolding ended_def by (intro exI [of _ "header_block ls @ CRLF @ q"]) simp
  qed
qed


lemma ended_iff: "ended b p \<longleftrightarrow> clean b p \<and> (\<exists>q. p = q @ CRLF)"
  using clean_append [of b _ "[]"] by (auto simp: ended_def)

lemma ended_split: "list_all (ended b) ps \<Longrightarrow> \<exists>qs. ps = map (\<lambda>q. q @ CRLF) qs \<and> list_all (\<lambda>q. clean b q) qs"
proof (induction ps)
  case (Cons p ps)
  then obtain q qs where "p = q @ CRLF" "clean b q" "ps = map (\<lambda>q. q @ CRLF) qs" "list_all (\<lambda>q. clean b q) qs" by (auto simp: ended_def)
  then show ?case by (intro exI [of _ "q # qs"]) simp
qed simp

lemma ended_multipart_level:
  assumes "level p" "level q" "p \<noteq> q" "list_all (ended (boundary_with_prefix digest p ps)) xs"
  shows "ended (boundary_with_prefix digest p ps) (multipart (boundary_with_prefix digest q ps) xs)"
proof -
  obtain qs where qs: "xs = map (\<lambda>q. q @ CRLF) qs" "list_all (\<lambda>x. clean (boundary_with_prefix digest p ps) x) qs"
    using ended_split [OF assms(4)] by blast
  have "\<exists>y. multipart b' xs = y @ CRLF" for b' by (simp add: multipart_def closing_def)
  then show ?thesis unfolding ended_iff using clean_multipart [OF assms(1-3) qs(2)] qs(1) by blast
qed

lemma ended_section:
  assumes "one_line ct" "ended b body"
  shows "ended b (''Content-Type: '' @ ct @ CRLF @ CRLF @ body)"
proof -
  have "\<not> delimiter b (''Content-Type: '' @ ct)" by (simp add: delimiter_def)
  moreover have "one_line (''Content-Type: '' @ ct)" using assms(1) by (simp add: one_line_Cons)
  ultimately show ?thesis using ended_head [of b "[''Content-Type: '' @ ct]" body] assms(2) by (simp add: header_block_Cons)
qed

lemma ended_text: "clean b text \<Longrightarrow> ended b (text @ CRLF)"
  by (auto simp: ended_def)

lemma one_line_types [simp]: "one_line PLAIN_TYPE" "one_line HTML_TYPE"
  by code_simp+

lemma one_line_multipart: "one_line kind \<Longrightarrow> one_line b \<Longrightarrow> one_line (multipart_type kind b)"
  by (simp add: multipart_type_def one_line_Cons)

lemma ended_base64:
  assumes "clean b (base64_body b64 data)"
  shows "base64_body b64 data = [] \<or> ended b (base64_body b64 data)"
proof (cases "chunks 76 (b64 data)" rule: rev_cases)
  case Nil
  then show ?thesis by (simp add: base64_body_def)
next
  case (snoc xs c)
  then have "base64_body b64 data = (header_block xs @ c) @ CRLF" by (simp add: base64_body_def header_block_def)
  then show ?thesis using assms by (auto simp: ended_iff)
qed

lemma ended_attachment:
  assumes "clean b (base64_body b64 data)"
  shows "ended b (attachment_section att (base64_body b64 data))"
  unfolding attachment_section_def
proof (rule ended_head)
  show "list_all (\<lambda>l. one_line l \<and> \<not> delimiter b l) ([type_line att, ''Content-Transfer-Encoding: base64'', disposition_line att] @ cid_lines att)"
    using attachment_lines_ok [of b att] unfolding list_all_iff by blast
qed (use ended_base64 [OF assms] in simp_all)

text \<open>
  The tree of a mail with attachments: the files beside the body, the inline images beside its root.
\<close>

definition tree ::
    "string \<Rightarrow> string \<Rightarrow> (mail_attachment \<times> string) list \<Rightarrow> (mail_attachment \<times> string) list \<Rightarrow> string \<Rightarrow> string \<Rightarrow> bool" where
  "tree ct body attached inline root_ct root \<longleftrightarrow> (\<exists>inner_ct inner.
     (if attached = [] then ct = inner_ct \<and> body = inner
      else reads_as ct body ((''Content-Type: '' @ inner_ct @ CRLF @ CRLF @ inner) # map (\<lambda>(a, e). attachment_section a e) attached))
   \<and> (if inline = [] then inner_ct = root_ct \<and> inner = root
      else reads_as inner_ct inner ((''Content-Type: '' @ root_ct @ CRLF @ CRLF @ root) # map (\<lambda>(a, e). attachment_section a e) inline)))"

lemma reads_as_multipart:
  assumes "one_line b" "QUOTE \<notin> set b" "list_all (ended b) ps"
  shows "reads_as (multipart_type kind b @ rest) (multipart b ps) ps"
  unfolding reads_as_def using ended_multipart [OF assms(1,3)] assms(2) by blast

lemma attachments_multipart:
  "concat (map (\<lambda>(att, enc). attachment_part b att enc) xs) @ closing b = multipart b (map (\<lambda>(a, e). attachment_section a e) xs)"
  by (induction xs) (auto simp: multipart_def attachment_part_def)

lemma multipart_Cons: "multipart b (p # ps) = ''--'' @ b @ CRLF @ p @ multipart b ps"
  by (simp add: multipart_def)

lemma reply_alternative_reads:
  assumes "one_line b" "QUOTE \<notin> set b" "clean b text" "clean b html"
  shows "reply_alternative b text html = multipart b [text_section PLAIN_TYPE text, text_section HTML_TYPE html]"
    "reads_as (multipart_type kind b) (reply_alternative b text html) [text_section PLAIN_TYPE text, text_section HTML_TYPE html]"
proof -
  show eq: "reply_alternative b text html = multipart b [text_section PLAIN_TYPE text, text_section HTML_TYPE html]"
    by (simp add: reply_alternative_def multipart_def)
  have "list_all (ended b) [text_section PLAIN_TYPE text, text_section HTML_TYPE html]"
    using assms(3,4) by (simp add: text_section_def ended_section ended_text del: append.simps append_Cons)
  from reads_as_multipart [OF assms(1,2) this, of kind "[]"]
  show "reads_as (multipart_type kind b) (reply_alternative b text html) [text_section PLAIN_TYPE text, text_section HTML_TYPE html]"
    by (simp add: eq)
qed


section \<open>A reply\<close>

definition text_parts :: "string option \<Rightarrow> string \<Rightarrow> string \<Rightarrow> string \<Rightarrow> string \<Rightarrow> bool" where
  "text_parts html text ending ct root \<longleftrightarrow> (case html of
     None \<Rightarrow> ct = PLAIN_TYPE \<and> root = text @ ending
   | Some h \<Rightarrow> reads_as ct root [text_section PLAIN_TYPE text, text_section HTML_TYPE h])"

lemma body_root_reads:
  assumes "body_root (boundary_with_prefix digest BOUNDARY_ALT (probe text html encoded)) text html = (ct, root)"
  shows "text_parts html text CRLF ct root" "one_line ct"
    "p \<in> {BOUNDARY_MIX, BOUNDARY_REL} \<Longrightarrow> ended (boundary_with_prefix digest p (probe text html encoded)) root"
proof -
  let ?P = "probe text html encoded" let ?alt = "boundary_with_prefix digest BOUNDARY_ALT ?P"
  have alt: "one_line ?alt" "QUOTE \<notin> set ?alt" "list_all (clean ?alt) ?P" using boundary_level [of BOUNDARY_ALT digest ?P] by simp_all
  have ct: "one_line (multipart_type ''alternative'' ?alt)" using alt(1) by (intro one_line_multipart) (simp_all add: one_line_Cons)
  show "text_parts html text CRLF ct root"
  proof (cases html)
    case None
    then show ?thesis using assms by (simp add: text_parts_def body_root_def)
  next
    case (Some h)
    then have "clean ?alt text" "clean ?alt h" using alt(3) by (simp_all add: probe_def)
    from reply_alternative_reads(2) [OF alt(1,2) this, of "''alternative''"] show ?thesis using assms Some by (auto simp: text_parts_def body_root_def)
  qed
  show "one_line ct" using assms ct by (cases html) (auto simp: body_root_def)
  show "ended (boundary_with_prefix digest p ?P) root" if p: "p \<in> {BOUNDARY_MIX, BOUNDARY_REL}"
  proof -
    have l: "level p" "p \<noteq> BOUNDARY_ALT" using p by auto
    have c: "list_all (clean (boundary_with_prefix digest p ?P)) ?P" using boundary_level(3) [OF l(1), of digest ?P] .
    show ?thesis
    proof (cases html)
      case None
      then show ?thesis using assms c by (auto simp: body_root_def probe_def ended_text)
    next
      case (Some h)
      have "list_all (ended (boundary_with_prefix digest p ?P)) [text_section PLAIN_TYPE text, text_section HTML_TYPE h]"
        using c Some by (simp add: probe_def text_section_def ended_section ended_text del: append.simps append_Cons)
      from ended_multipart_level [OF l(1) levels(1) l(2) this]
      show ?thesis using assms Some alt c
        reply_alternative_reads(1) [of ?alt "text" h] by (simp add: body_root_def probe_def)
    qed
  qed
qed

lemma ended_attachments:
  assumes "list_all (clean b) (map snd xs)" "\<And>a e. (a, e) \<in> set xs \<Longrightarrow> \<exists>d. e = base64_body b64 d"
  shows "list_all (ended b) (map (\<lambda>(a, e). attachment_section a e) xs)"
  using assms
proof (induction xs)
  case (Cons x xs)
  obtain a e where x: "x = (a, e)" by (cases x)
  then obtain d where "e = base64_body b64 d" using Cons.prems(2) by auto
  with Cons x show ?case by (simp add: ended_attachment) blast
qed simp

text \<open>The wrappers: what stands in a multipart of one more part than it has attachments.\<close>

lemma wrapped:
  assumes "one_line b" "QUOTE \<notin> set b" "one_line ct" "ended b root" "list_all (ended b) (map (\<lambda>(a, e). attachment_section a e) xs)"
  shows "list_all (ended b) ((''Content-Type: '' @ ct @ CRLF @ CRLF @ root) # map (\<lambda>(a, e). attachment_section a e) xs)"
    "reads_as (multipart_type kind b @ rest)
       (''--'' @ b @ CRLF @ ''Content-Type: '' @ ct @ CRLF @ CRLF @ root @ concat (map (\<lambda>(att, enc). attachment_part b att enc) xs) @ closing b)
       ((''Content-Type: '' @ ct @ CRLF @ CRLF @ root) # map (\<lambda>(a, e). attachment_section a e) xs)"
proof -
  show e: "list_all (ended b) ((''Content-Type: '' @ ct @ CRLF @ CRLF @ root) # map (\<lambda>(a, e). attachment_section a e) xs)"
    using ended_section [OF assms(3,4)] assms(5) by simp
  have "''--'' @ b @ CRLF @ ''Content-Type: '' @ ct @ CRLF @ CRLF @ root @ concat (map (\<lambda>(att, enc). attachment_part b att enc) xs) @ closing b
      = multipart b ((''Content-Type: '' @ ct @ CRLF @ CRLF @ root) # map (\<lambda>(a, e). attachment_section a e) xs)"
    unfolding multipart_Cons attachments_multipart [symmetric] by simp
  with reads_as_multipart [OF assms(1,2) e, of kind rest]
  show "reads_as (multipart_type kind b @ rest)
       (''--'' @ b @ CRLF @ ''Content-Type: '' @ ct @ CRLF @ CRLF @ root @ concat (map (\<lambda>(att, enc). attachment_part b att enc) xs) @ closing b)
       ((''Content-Type: '' @ ct @ CRLF @ CRLF @ root) # map (\<lambda>(a, e). attachment_section a e) xs)" by metis
qed


lemma body_related_reads:
  assumes ct: "body_related (boundary_with_prefix digest BOUNDARY_REL ps) inline (root_ct, root) = (inner_ct, inner)"
    and root: "one_line root_ct" "\<And>p. p \<in> {BOUNDARY_MIX, BOUNDARY_REL} \<Longrightarrow> ended (boundary_with_prefix digest p ps) root"
    and xs: "\<And>p. level p \<Longrightarrow> list_all (ended (boundary_with_prefix digest p ps)) (map (\<lambda>(a, e). attachment_section a e) inline)"
  shows "if inline = [] then inner_ct = root_ct \<and> inner = root
      else reads_as inner_ct inner ((''Content-Type: '' @ root_ct @ CRLF @ CRLF @ root) # map (\<lambda>(a, e). attachment_section a e) inline)"
    "one_line inner_ct" "ended (boundary_with_prefix digest BOUNDARY_MIX ps) inner"
proof -
  let ?rel = "boundary_with_prefix digest BOUNDARY_REL ps" let ?mix = "boundary_with_prefix digest BOUNDARY_MIX ps"
  let ?ps = "(''Content-Type: '' @ root_ct @ CRLF @ CRLF @ root) # map (\<lambda>(a, e). attachment_section a e) inline"
  have rel: "one_line ?rel" "QUOTE \<notin> set ?rel" using boundary_level [of BOUNDARY_REL digest ps] by simp_all
  have all: "(if inline = [] then inner_ct = root_ct \<and> inner = root else reads_as inner_ct inner ?ps)
      \<and> one_line inner_ct \<and> ended ?mix inner"
  proof (cases "inline = []")
    case True
    then show ?thesis using ct root by (simp add: body_related_def)
  next
    case False
    let ?type = "''; type='' @ QUOTE # trim (hd (split_on CHR '';'' root_ct)) @ [QUOTE]"
    have inner: "inner_ct = multipart_type ''related'' ?rel @ ?type"
      "inner = ''--'' @ ?rel @ CRLF @ ''Content-Type: '' @ root_ct @ CRLF @ CRLF @ root
         @ concat (map (\<lambda>(att, enc). attachment_part ?rel att enc) inline) @ closing ?rel"
      using ct False by (auto simp: body_related_def Let_def)
    note w = wrapped [OF rel root(1) root(2) xs [of BOUNDARY_REL]]
    have reads: "reads_as inner_ct inner ?ps" unfolding inner by (rule w(2)) simp_all
    have "set (hd (split_on CHR '';'' root_ct)) \<subseteq> set root_ct"
      by (induction root_ct) (auto split: list.splits)
    then have "one_line (trim (hd (split_on CHR '';'' root_ct)))" using root(1) set_trim by (blast intro: one_line_subset)
    then have "one_line inner_ct" using rel(1) unfolding inner(1) by (simp add: one_line_multipart one_line_Cons)
    moreover have "ended ?mix inner"
    proof -
      have "inner = multipart ?rel ?ps" unfolding inner(2) multipart_Cons attachments_multipart [symmetric] by simp
      moreover have "list_all (ended ?mix) ?ps"
        using ended_section [OF root(1) root(2) [of BOUNDARY_MIX]] xs [of BOUNDARY_MIX] by simp
      ultimately show ?thesis using ended_multipart_level [of BOUNDARY_MIX BOUNDARY_REL digest ps ?ps] by simp
    qed
    ultimately show ?thesis using reads False by simp
  qed
  then show "if inline = [] then inner_ct = root_ct \<and> inner = root else reads_as inner_ct inner ?ps" "one_line inner_ct" "ended ?mix inner"
    by blast+
qed

text \<open>A message as its header lines and what follows the blank one.\<close>

lemma read_typed:
  assumes "list_all (\<lambda>l. one_line l \<and> l \<noteq> []) head" "one_line ct"
  shows "read_message (header_block head @ ''Content-Type: '' @ ct @ CRLF @ ''MIME-Version: 1.0'' @ CRLF @ CRLF @ body)
    = (head @ [''Content-Type: '' @ ct, ''MIME-Version: 1.0''], body)"
proof -
  have "list_all (\<lambda>l. one_line l \<and> l \<noteq> []) (head @ [''Content-Type: '' @ ct, ''MIME-Version: 1.0''])"
    using assms by (simp add: one_line_Cons)
  from read_message_block [OF this, of body] show ?thesis by (simp add: header_block_append header_block_Cons)
qed

lemma reply_body_reads:
  obtains ct root where "text_parts html t [] ct root" "one_line ct"
    "plain_or_alternative digest t html = ''Content-Type: '' @ ct @ CRLF @ ''MIME-Version: 1.0'' @ CRLF @ CRLF @ root"
proof (cases html)
  case None
  then show ?thesis using that [of PLAIN_TYPE t] by (simp add: text_parts_def plain_or_alternative_def)
next
  case (Some h)
  let ?alt = "boundary_with_prefix digest BOUNDARY_ALT [t, h]"
  have alt: "one_line ?alt" "QUOTE \<notin> set ?alt" "clean ?alt t" "clean ?alt h"
    using boundary_level [of BOUNDARY_ALT digest "[t, h]"] by simp_all
  have "one_line (multipart_type ''alternative'' ?alt)" using alt(1) by (intro one_line_multipart) (simp_all add: one_line_Cons)
  then show ?thesis
    using that [of "multipart_type ''alternative'' ?alt" "reply_alternative ?alt t h"] reply_alternative_reads(2) [OF alt] Some
    by (simp add: text_parts_def plain_or_alternative_def Let_def)
qed

lemma attached_body_reads:
  assumes pairs_def: "pairs = map (\<lambda>a. (a, base64_body b64 (p_data a))) atts"
  obtains ct body root_ct root where
    "body_with_attachments digest b64 t html atts = ''Content-Type: '' @ ct @ CRLF @ ''MIME-Version: 1.0'' @ CRLF @ CRLF @ body"
    "one_line ct" "tree ct body (filter (\<lambda>(a, _). \<not> p_inline a) pairs) (filter (\<lambda>(a, _). p_inline a) pairs) root_ct root"
    "text_parts html t CRLF root_ct root"
proof -
  let ?enc = "map (\<lambda>a. base64_body b64 (p_data a)) atts"
  have zip: "zip atts ?enc = pairs" unfolding pairs_def by (induction atts) (auto simp: zip_map2 zip_same_conv_map)
  let ?P = "probe t html ?enc" let ?b = "\<lambda>pre. boundary_with_prefix digest pre ?P"
  let ?files = "filter (\<lambda>(a, _). \<not> p_inline a) pairs" let ?inl = "filter (\<lambda>(a, _). p_inline a) pairs"
  obtain root_ct root where root: "body_root (?b BOUNDARY_ALT) t html = (root_ct, root)" by fastforce
  obtain inner_ct inner where inner: "body_related (?b BOUNDARY_REL) ?inl (root_ct, root) = (inner_ct, inner)" by fastforce
  have all: "body_with_attachments digest b64 t html atts = body_mixed (?b BOUNDARY_MIX) ?files (inner_ct, inner)"
    using root inner zip by (simp add: body_with_attachments_def Let_def)
  note r = body_root_reads [OF root]
  have atts: "list_all (ended (?b pre)) (map (\<lambda>(a, e). attachment_section a e) (filter q pairs))" if "level pre" for pre q
  proof (rule ended_attachments)
    show "list_all (clean (?b pre)) (map snd (filter q pairs))"
      using boundary_level(3) [OF that, of digest ?P] by (auto simp: probe_def list_all_iff pairs_def)
  qed (auto simp: pairs_def)
  note i = body_related_reads [OF inner r(2,3) atts]
  have mix: "one_line (?b BOUNDARY_MIX)" "QUOTE \<notin> set (?b BOUNDARY_MIX)" using boundary_level [of BOUNDARY_MIX digest ?P] by simp_all
  note w = wrapped(2) [OF mix i(2,3) atts [of BOUNDARY_MIX], of "''mixed''" "[]"]
  show thesis
  proof (cases "?files = []")
    case True
    then have "tree inner_ct inner ?files ?inl root_ct root" unfolding tree_def using i(1) by auto
    with True i(2) r(1) show thesis by (intro that [of inner_ct inner root_ct root]) (simp_all add: all body_mixed_def)
  next
    case False
    have "one_line (multipart_type ''mixed'' (?b BOUNDARY_MIX))" using mix(1) by (intro one_line_multipart) (simp_all add: one_line_Cons)
    moreover from False w i(1) have "tree (multipart_type ''mixed'' (?b BOUNDARY_MIX)) (''--'' @ ?b BOUNDARY_MIX @ CRLF @ ''Content-Type: '' @ inner_ct
        @ CRLF @ CRLF @ inner @ concat (map (\<lambda>(att, enc). attachment_part (?b BOUNDARY_MIX) att enc) ?files) @ closing (?b BOUNDARY_MIX)) ?files ?inl root_ct root"
      unfolding tree_def by (intro exI [of _ inner_ct] exI [of _ inner]) simp
    ultimately show thesis using False r(1) by (intro that [OF _ _ _ r(1)]) (simp_all add: all body_mixed_def)
  qed
qed

text \<open>A header line read as its field, and the fields that a mail has: those given, under the names of RFC 5322.\<close>

definition field_of :: "string \<Rightarrow> string \<times> string" where
  "field_of l = (takeWhile (\<lambda>c. c \<noteq> CHR '':'') l, drop 2 (dropWhile (\<lambda>c. c \<noteq> CHR '':'') l))"

lemma field_of_line [simp]: "CHR '':'' \<notin> set n \<Longrightarrow> field_of (n @ CHR '':'' # CHR '' '' # v) = (n, v)"
proof -
  assume "CHR '':'' \<notin> set n"
  then have "\<And>x. x \<in> set n \<Longrightarrow> x \<noteq> CHR '':''" by metis
  then show ?thesis by (simp add: field_of_def)
qed

definition given_as :: "(string \<Rightarrow> bool) \<Rightarrow> string \<Rightarrow> string option \<Rightarrow> (string \<times> string) list" where
  "given_as blank name v = (case v of Some s \<Rightarrow> if blank s then [] else [(name, s)] | None \<Rightarrow> [])"

lemma fields_of_line_unless: "CHR '':'' \<notin> set n \<Longrightarrow> map field_of (line_unless blank n v) = given_as blank n v"
  by (simp add: line_unless_def given_as_def split: option.split)

lemma reply_head_fields: "map field_of (reply_head p) = [(''To'', rp_to p)]
    @ given_as (\<lambda>s. trim s = []) ''Cc'' (rp_cc p) @ given_as (\<lambda>s. trim s = []) ''Bcc'' (rp_bcc p) @ [(''Subject'', rp_subject p)]
    @ given_as (\<lambda>s. s = []) ''In-Reply-To'' (rp_in_reply_to p) @ given_as (\<lambda>s. s = []) ''References'' (rp_references p)"
  using field_of_line [of "''To''" "rp_to p"] field_of_line [of "''Subject''" "rp_subject p"] by (simp add: reply_head_def fields_of_line_unless)

lemma forward_head_fields: "map field_of (forward_head p) = [(''To'', fp_to p)]
    @ given_as (\<lambda>s. trim s = []) ''Cc'' (fp_cc p) @ given_as (\<lambda>s. trim s = []) ''Bcc'' (fp_bcc p) @ [(''Subject'', fp_subject p)]"
  using field_of_line [of "''To''" "fp_to p"] field_of_line [of "''Subject''" "fp_subject p"] by (simp add: forward_head_def fields_of_line_unless)

text \<open>C26. A mail reads as it was written: its header is its own fields, names and values, in their order, its content
  type and no other line, whatever the fields hold; below a file or an inline image its body splits at the boundary its
  content type names into the body and one part an attachment, in their order; and its text and its html
  come back whole, whatever delimiters their author imitated.\<close>
theorem reply_reads_as_written:
  assumes "build_reply_rfc822 digest b64 p = Inr out"
  shows "let text = to_crlf (rp_body p); html = map_option to_crlf (html_alternative p);
       pairs = map (\<lambda>a. (a, base64_body b64 (p_data a))) (rp_attachments p)
     in \<exists>ct body root_ct root. read_message out = (reply_head p @ [''Content-Type: '' @ ct, ''MIME-Version: 1.0''], body)
       \<and> map field_of (reply_head p) = [(''To'', rp_to p)]
           @ given_as (\<lambda>s. trim s = []) ''Cc'' (rp_cc p) @ given_as (\<lambda>s. trim s = []) ''Bcc'' (rp_bcc p) @ [(''Subject'', rp_subject p)]
           @ given_as (\<lambda>s. s = []) ''In-Reply-To'' (rp_in_reply_to p) @ given_as (\<lambda>s. s = []) ''References'' (rp_references p)
       \<and> tree ct body (filter (\<lambda>(a, _). \<not> p_inline a) pairs) (filter (\<lambda>(a, _). p_inline a) pairs) root_ct root
       \<and> text_parts html text (if pairs = [] then [] else CRLF) root_ct root"
proof -
  let ?text = "to_crlf (rp_body p)" let ?html = "map_option to_crlf (html_alternative p)"
  have head: "list_all (\<lambda>l. one_line l \<and> l \<noteq> []) (reply_head p)"
    using assms reply_head_ok by (auto simp: build_reply_rfc822_def split: option.splits)
  show ?thesis
  proof (cases "rp_attachments p = []")
    case True
    have out: "out = header_block (reply_head p) @ plain_or_alternative digest ?text ?html"
      using assms True by (auto simp: build_reply_rfc822_def Let_def split: option.splits if_splits)
    obtain ct root where r: "text_parts ?html ?text [] ct root" "one_line ct"
      "plain_or_alternative digest ?text ?html = ''Content-Type: '' @ ct @ CRLF @ ''MIME-Version: 1.0'' @ CRLF @ CRLF @ root"
      by (rule reply_body_reads)
    have "read_message out = (reply_head p @ [''Content-Type: '' @ ct, ''MIME-Version: 1.0''], root)"
      unfolding out r(3) by (rule read_typed [OF head r(2)])
    moreover have "tree ct root [] [] ct root" by (simp add: tree_def)
    ultimately show ?thesis using True r(1) reply_head_fields [of p] unfolding Let_def by auto
  next
    case False
    have out: "out = header_block (reply_head p) @ body_with_attachments digest b64 ?text ?html (rp_attachments p)"
      using assms False by (auto simp: build_reply_rfc822_def Let_def split: option.splits if_splits)
    show ?thesis
    proof (rule attached_body_reads [OF refl, of digest b64 ?text ?html "rp_attachments p"])
      fix ct body root_ct root
      assume b: "body_with_attachments digest b64 ?text ?html (rp_attachments p) = ''Content-Type: '' @ ct @ CRLF @ ''MIME-Version: 1.0'' @ CRLF @ CRLF @ body"
        "one_line ct" and "tree ct body (filter (\<lambda>(a, _). \<not> p_inline a) (map (\<lambda>a. (a, base64_body b64 (p_data a))) (rp_attachments p)))
          (filter (\<lambda>(a, _). p_inline a) (map (\<lambda>a. (a, base64_body b64 (p_data a))) (rp_attachments p))) root_ct root"
        "text_parts ?html ?text CRLF root_ct root"
      moreover have "read_message out = (reply_head p @ [''Content-Type: '' @ ct, ''MIME-Version: 1.0''], body)"
        unfolding out b(1) by (rule read_typed [OF head b(2)])
      ultimately show ?thesis using False reply_head_fields [of p] unfolding Let_def by auto
    qed
  qed
qed

theorem reply_reads_as_written_witness:
  "read_message (projr (build_reply_rfc822 (\<lambda>_. 0) (\<lambda>_. ''QQ=='')
     \<lparr>rp_to = ''b@y'', rp_cc = None, rp_bcc = Some [], rp_subject = ''Hi'', rp_body = ''x'', rp_in_reply_to = None, rp_references = None,
       rp_html = None, rp_pixel = None, rp_attachments = []\<rparr>))
   = ([''To: b@y'', ''Subject: Hi'', ''Content-Type: '' @ PLAIN_TYPE, ''MIME-Version: 1.0''], ''x'')"
proof -
  let ?p = "\<lparr>rp_to = ''b@y'', rp_cc = None, rp_bcc = Some [], rp_subject = ''Hi'', rp_body = ''x'', rp_in_reply_to = None, rp_references = None,
       rp_html = None, rp_pixel = None, rp_attachments = []\<rparr>"
  have "bad_field (reply_fields ?p) = None" "trim (rp_to ?p) \<noteq> []" by code_simp+
  then have b: "build_reply_rfc822 (\<lambda>_. 0) (\<lambda>_. ''QQ=='') ?p = Inr (projr (build_reply_rfc822 (\<lambda>_. 0) (\<lambda>_. ''QQ=='') ?p))"
    by (simp add: build_reply_rfc822_def Let_def)
  have "to_crlf ''x'' = ''x''" "reply_head ?p = [''To: b@y'', ''Subject: Hi'']" "html_alternative ?p = None" by code_simp+
  with reply_reads_as_written [OF b] show ?thesis by (simp add: Let_def tree_def text_parts_def)
qed

text \<open>A reply keeps a bare carriage return of its body, which no mail may carry and which a forward turns into a
  line ending.\<close>
theorem reply_keeps_a_bare_return:
  "let s = ''a'' @ [CR] @ ''b''; out = build_reply_rfc822 (\<lambda>_. 0) (\<lambda>_. [])
     \<lparr>rp_to = ''b@y'', rp_cc = None, rp_bcc = None, rp_subject = ''Hi'', rp_body = s, rp_in_reply_to = None, rp_references = None,
       rp_html = None, rp_pixel = None, rp_attachments = []\<rparr>
   in list_all one_line (split_crlf (projr out)) = False \<and> list_all one_line (split_crlf (to_crlf_strict s))"
  by code_simp

section \<open>A forward\<close>

lemma replace_char_Cons: "replace_char q r (c # s) = (if c = q then r else [c]) @ replace_char q r s"
  by (simp add: replace_char_def)

lemma set_replace_char: "set (replace_char q r s) \<subseteq> (set s - {q}) \<union> set r"
  by (auto simp: replace_char_def)

lemma strict_lines: "list_all one_line (split_crlf (to_crlf_strict s))"
proof -
  have "list_all one_line (split_crlf (replace_char LF CRLF u))" if "CR \<notin> set u" for u
    using that
  proof (induction u)
    case Nil
    then show ?case by (simp add: replace_char_def)
  next
    case (Cons c u)
    have IH: "list_all one_line (split_crlf (replace_char LF CRLF u))" using Cons by simp
    show ?case
    proof (cases "c = LF")
      case True
      then show ?thesis using IH split_crlf_append [of "[]" "replace_char LF CRLF u"] by (simp add: replace_char_Cons)
    next
      case False
      have c: "c \<noteq> CR" using Cons.prems by auto
      obtain l ls where "split_crlf (replace_char LF CRLF u) = l # ls" by (cases "split_crlf (replace_char LF CRLF u)") auto
      then show ?thesis using IH False c split_crlf_Cons [OF c, of "replace_char LF CRLF u"] by (simp add: replace_char_Cons one_line_Cons)
    qed
  qed
  moreover have "CR \<notin> set (replace_char CR [LF] (crlf_to_lf s))" using set_replace_char [of CR "[LF]" "crlf_to_lf s"] by auto
  ultimately show ?thesis unfolding to_crlf_strict_def by blast
qed

lemma alternative_reads:
  assumes "one_line b" "QUOTE \<notin> set b" "clean b text" "clean b html"
  shows "alternative_section b text html = multipart b [qp_section PLAIN_TYPE text, qp_section HTML_TYPE html]"
    "reads_as (multipart_type kind b) (alternative_section b text html) [qp_section PLAIN_TYPE text, qp_section HTML_TYPE html]"
    "list_all (ended b') [qp_section PLAIN_TYPE text, qp_section HTML_TYPE html] \<longleftrightarrow> clean b' text \<and> clean b' html"
proof -
  have e: "ended b' (qp_section ct t) \<longleftrightarrow> clean b' t" if "one_line ct" for b' ct t
  proof -
    have l: "list_all (\<lambda>l. one_line l \<and> \<not> delimiter b' l) [''Content-Type: '' @ ct, ''Content-Transfer-Encoding: quoted-printable'']"
      using that by (simp add: one_line_Cons delimiter_def)
    have s: "qp_section ct t = header_block [''Content-Type: '' @ ct, ''Content-Transfer-Encoding: quoted-printable''] @ CRLF @ t @ CRLF"
      by (simp add: qp_section_def header_block_Cons)
    have "clean b' (qp_section ct t) \<Longrightarrow> clean b' t"
      unfolding s clean_append [of b' _ "t @ CRLF"] using clean_append [of b' t "[]"] by simp
    then show ?thesis using ended_head [OF l, of "t @ CRLF"] ended_text [of b' t] clean_ended [of b' "qp_section ct t"] unfolding s by blast
  qed
  show eq: "alternative_section b text html = multipart b [qp_section PLAIN_TYPE text, qp_section HTML_TYPE html]"
    by (simp add: alternative_section_def multipart_def)
  have "list_all (ended b) [qp_section PLAIN_TYPE text, qp_section HTML_TYPE html]" using assms(3,4) e by simp
  from reads_as_multipart [OF assms(1,2) this, of kind "[]"]
  show "reads_as (multipart_type kind b) (alternative_section b text html) [qp_section PLAIN_TYPE text, qp_section HTML_TYPE html]"
    by (simp add: eq)
  show "list_all (ended b') [qp_section PLAIN_TYPE text, qp_section HTML_TYPE html] \<longleftrightarrow> clean b' text \<and> clean b' html" using e by simp
qed


lemma wrapped_alternative:
  assumes "alt = boundary_with_prefix digest BOUNDARY_ALT ps" "clean alt text" "clean alt html"
    "clean (boundary_with_prefix digest BOUNDARY_MIX ps) text" "clean (boundary_with_prefix digest BOUNDARY_MIX ps) html"
  shows "reads_as (multipart_type ''alternative'' alt) (alternative_section alt text html) [qp_section PLAIN_TYPE text, qp_section HTML_TYPE html]"
    "one_line (multipart_type ''alternative'' alt)"
    "ended (boundary_with_prefix digest BOUNDARY_MIX ps) (alternative_section alt text html)"
proof -
  have alt: "one_line alt" "QUOTE \<notin> set alt" using boundary_level [of BOUNDARY_ALT digest ps] unfolding assms(1) by simp_all
  note a = alternative_reads [OF alt assms(2,3)]
  show "reads_as (multipart_type ''alternative'' alt) (alternative_section alt text html) [qp_section PLAIN_TYPE text, qp_section HTML_TYPE html]"
    by (rule a(2))
  show "one_line (multipart_type ''alternative'' alt)" using alt(1) by (intro one_line_multipart) (simp_all add: one_line_Cons)
  have "list_all (ended (boundary_with_prefix digest BOUNDARY_MIX ps)) [qp_section PLAIN_TYPE text, qp_section HTML_TYPE html]"
    using a(3) assms(4,5) by blast
  then show "ended (boundary_with_prefix digest BOUNDARY_MIX ps) (alternative_section alt text html)"
    unfolding a(1) unfolding assms(1) by (intro ended_multipart_level) simp_all
qed

lemma forward_body_reads:
  assumes "list_all (\<lambda>(a, e). e = base64_body b64 (p_data a)) attached"
  obtains ct body root_ct root where
    "forward_body digest text html attached = ''Content-Type: '' @ ct @ CRLF @ ''MIME-Version: 1.0'' @ CRLF @ CRLF @ body"
    "one_line ct" "tree ct body attached [] root_ct root"
    "reads_as root_ct root [qp_section PLAIN_TYPE text, qp_section HTML_TYPE html]"
proof -
  let ?P = "text # html # map snd attached"
  let ?alt = "boundary_with_prefix digest BOUNDARY_ALT ?P" let ?mix = "boundary_with_prefix digest BOUNDARY_MIX ?P"
  let ?ct = "multipart_type ''alternative'' ?alt" let ?body = "alternative_section ?alt text html"
  have "list_all (clean ?alt) ?P" "list_all (clean ?mix) ?P" by (rule boundary_level(3), simp)+
  then have clean: "clean ?alt text" "clean ?alt html" "clean ?mix text" "clean ?mix html" "list_all (clean ?mix) (map snd attached)"
    by simp_all
  note a = wrapped_alternative [OF refl clean(1-4)]
  show thesis
  proof (cases "attached = []")
    case True
    then show thesis using a by (intro that [of ?ct ?body ?ct ?body]) (simp_all add: forward_body_def Let_def tree_def)
  next
    case False
    have mix: "one_line ?mix" "QUOTE \<notin> set ?mix" using boundary_level [of BOUNDARY_MIX digest ?P] by simp_all
    have atts: "list_all (ended ?mix) (map (\<lambda>(a, e). attachment_section a e) attached)"
      by (rule ended_attachments [OF clean(5)]) (use assms in \<open>auto simp: list_all_iff\<close>)
    note w = wrapped(2) [OF mix a(2,3) atts, of "''mixed''" "[]"]
    have "one_line (multipart_type ''mixed'' ?mix)" using mix(1) by (intro one_line_multipart) (simp_all add: one_line_Cons)
    with False w a(1) show thesis
      by (intro that [of "multipart_type ''mixed'' ?mix" "''--'' @ ?mix @ CRLF @ ''Content-Type: '' @ ?ct @ CRLF @ CRLF @ ?body
              @ concat (map (\<lambda>(att, enc). attachment_part ?mix att enc) attached) @ closing ?mix" ?ct ?body])
        (simp_all add: forward_body_def Let_def tree_def)
  qed
qed

text \<open>C23. A forward reads as it was written: its header is its own fields, names and values, in their order, its
  content type and no other line; its body
  splits into the text, the html and one part for each file of the original, in their order; and text and
  html, whatever a stranger's mail put into them, decode to exactly what was composed, in lines without a
  stray carriage return or line feed.\<close>
theorem forward_reads_as_written:
  assumes "build_forward_rfc822 digest b64 p = Inr out"
  shows "let text = to_crlf_strict (forward_text_part p); html = to_crlf_strict (forward_html_part p);
       pairs = map (\<lambda>a. (a, base64_body b64 (p_data a))) (o_attachments (fp_original p))
     in \<exists>ct body root_ct root. read_message out = (forward_head p @ [''Content-Type: '' @ ct, ''MIME-Version: 1.0''], body)
       \<and> map field_of (forward_head p) = [(''To'', fp_to p)]
           @ given_as (\<lambda>s. trim s = []) ''Cc'' (fp_cc p) @ given_as (\<lambda>s. trim s = []) ''Bcc'' (fp_bcc p) @ [(''Subject'', fp_subject p)]
       \<and> tree ct body pairs [] root_ct root
       \<and> reads_as root_ct root [qp_section PLAIN_TYPE (qp_encode text), qp_section HTML_TYPE (qp_encode html)]
       \<and> qp_decode (qp_encode text) = utf8 text \<and> qp_decode (qp_encode html) = utf8 html
       \<and> list_all one_line (split_crlf text) \<and> list_all one_line (split_crlf html)"
proof -
  let ?text = "to_crlf_strict (forward_text_part p)" let ?html = "to_crlf_strict (forward_html_part p)"
  let ?atts = "o_attachments (fp_original p)" let ?enc = "map (\<lambda>a. base64_body b64 (p_data a)) ?atts"
  let ?pairs = "map (\<lambda>a. (a, base64_body b64 (p_data a))) ?atts"
  have zip: "zip ?atts ?enc = ?pairs" by (induction "?atts") (auto simp: zip_map2 zip_same_conv_map)
  have head: "list_all (\<lambda>l. one_line l \<and> l \<noteq> []) (forward_head p)"
    using assms forward_head_ok by (auto simp: build_forward_rfc822_def split: option.splits)
  have out: "out = header_block (forward_head p) @ forward_body digest (qp_encode ?text) (qp_encode ?html) ?pairs"
    using assms zip by (auto simp: build_forward_rfc822_def Let_def split: option.splits if_splits)
  have decodes: "qp_decode (qp_encode t) = utf8 t" for t by (simp add: qp_encode_def qp_from_decodes)
  have "list_all (\<lambda>(a, e). e = base64_body b64 (p_data a)) ?pairs" by (auto simp: list_all_iff)
  then obtain ct body root_ct root where f:
    "forward_body digest (qp_encode ?text) (qp_encode ?html) ?pairs = ''Content-Type: '' @ ct @ CRLF @ ''MIME-Version: 1.0'' @ CRLF @ CRLF @ body"
    "one_line ct" "tree ct body ?pairs [] root_ct root"
    "reads_as root_ct root [qp_section PLAIN_TYPE (qp_encode ?text), qp_section HTML_TYPE (qp_encode ?html)]"
    by (rule forward_body_reads)
  have "read_message out = (forward_head p @ [''Content-Type: '' @ ct, ''MIME-Version: 1.0''], body)"
    unfolding out f(1) by (rule read_typed [OF head f(2)])
  with f(3,4) show ?thesis unfolding Let_def using strict_lines decodes forward_head_fields by blast
qed

theorem forward_reads_as_written_witness:
  "let p = \<lparr>fp_to = ''b@y'', fp_cc = None, fp_bcc = None, fp_subject = ''Fwd: Hi'', fp_note = ''see'', fp_note_html = None, fp_pixel = None,
       fp_original = \<lparr>o_from = ''a@x'', o_date = [], o_to = [], o_cc = [], o_subject = ''Hi'', o_text = ''x'' @ [CR] @ ''=_y'',
         o_html = None, o_attachments = []\<rparr>\<rparr>;
       lines = fst (read_message (projr (build_forward_rfc822 (\<lambda>_. 0) (\<lambda>_. ''QQ=='') p)))
   in take 2 lines = [''To: b@y'', ''Subject: Fwd: Hi''] \<and> drop 3 lines = [''MIME-Version: 1.0'']"
proof -
  let ?p = "\<lparr>fp_to = ''b@y'', fp_cc = None, fp_bcc = None, fp_subject = ''Fwd: Hi'', fp_note = ''see'', fp_note_html = None, fp_pixel = None,
       fp_original = \<lparr>o_from = ''a@x'', o_date = [], o_to = [], o_cc = [], o_subject = ''Hi'', o_text = ''x'' @ [CR] @ ''=_y'',
         o_html = None, o_attachments = []\<rparr>\<rparr>"
  have "bad_field (forward_fields ?p) = None" "trim (fp_to ?p) \<noteq> []" by code_simp+
  then have b: "build_forward_rfc822 (\<lambda>_. 0) (\<lambda>_. ''QQ=='') ?p = Inr (projr (build_forward_rfc822 (\<lambda>_. 0) (\<lambda>_. ''QQ=='') ?p))"
    by (simp add: build_forward_rfc822_def Let_def)
  obtain ct body root_ct root where r:
    "read_message (projr (build_forward_rfc822 (\<lambda>_. 0) (\<lambda>_. ''QQ=='') ?p)) = (forward_head ?p @ [''Content-Type: '' @ ct, ''MIME-Version: 1.0''], body)"
    "tree ct body [] [] root_ct root"
    using forward_reads_as_written [OF b] by (auto simp: Let_def)
  have "forward_head ?p = [''To: b@y'', ''Subject: Fwd: Hi'']" by code_simp
  with r show ?thesis by (simp add: Let_def)
qed

text \<open>As long as the base64 of a file holds no underscore, the boundaries of a forward are the first of their
  families, whatever its text, its html and its files: no content of a forwarded mail can move them.\<close>
theorem forward_boundaries_never_move:
  assumes "list_all (\<lambda>a. CHR ''_'' \<notin> set (b64 (p_data a))) atts"
  shows "let probed = qp_encode text # qp_encode html # map (\<lambda>a. base64_body b64 (p_data a)) atts
     in boundary_with_prefix digest BOUNDARY_ALT probed = BOUNDARY_ALT @ ''0''
      \<and> boundary_with_prefix digest BOUNDARY_MIX probed = BOUNDARY_MIX @ ''0''"
proof -
  have qp: "\<not> contains (qp_encode t) (''=_'' @ s)" for t s
    using qp_no_boundary [of 0 "utf8 t"] unfolding qp_encode_def contains_iff by (metis append.assoc)
  have part: "c \<in> set (chunks n s) \<Longrightarrow> set c \<subseteq> set s" for n s c
  proof (induction n s rule: chunks.induct)
    case (2 n x xs)
    from 2(2) have "0 < n \<and> (c = take n (x # xs) \<or> c \<in> set (chunks n (drop n (x # xs))))" by (simp split: if_splits)
    with 2(1) show ?case using set_take_subset [of n "x # xs"] set_drop_subset [of n "x # xs"] by blast
  qed simp
  have chunk: "set (concat (map (\<lambda>c. c @ CRLF) (chunks n s))) \<subseteq> set s \<union> {CR, LF}" for n s
    using part [of _ n s] by (auto simp: CRLF_def)
  have b64: "\<not> contains (base64_body b64 (p_data a)) (''=_'' @ s)" if "a \<in> set atts" for a s
  proof
    assume "contains (base64_body b64 (p_data a)) (''=_'' @ s)"
    then have "CHR ''_'' \<in> set (base64_body b64 (p_data a))" unfolding contains_iff by auto
    then show False using chunk [of 76 "b64 (p_data a)"] assms that by (auto simp: base64_body_def list_all_iff)
  qed
  let ?P = "qp_encode text # qp_encode html # map (\<lambda>a. base64_body b64 (p_data a)) atts"
  have "absent ?P (''=_'' @ s)" for s using qp b64 by (auto simp: absent_def list_all_iff)
  moreover have "BOUNDARY_ALT = ''=_'' @ drop 2 BOUNDARY_ALT" "BOUNDARY_MIX = ''=_'' @ drop 2 BOUNDARY_MIX" by code_simp+
  ultimately have "absent ?P BOUNDARY_ALT" "absent ?P BOUNDARY_MIX" by metis+
  then show ?thesis using boundary_facts [of digest BOUNDARY_ALT ?P] boundary_facts [of digest BOUNDARY_MIX ?P] unfolding Let_def by simp
qed

theorem forward_boundaries_never_move_witness:
  "boundary_with_prefix (\<lambda>_. 7) BOUNDARY_MIX [qp_encode (BOUNDARY_MIX @ ''0''), qp_encode [], base64_body (\<lambda>_. ''QQ=='') [65]] = BOUNDARY_MIX @ ''0''"
  using forward_boundaries_never_move [of "\<lambda>_. ''QQ==''" "[\<lparr>p_filename = [], p_mime = [], p_cid = None, p_inline = False, p_method = None, p_data = [65]\<rparr>]"
    "BOUNDARY_MIX @ ''0''" "[]" "\<lambda>_. 7"] by (simp add: Let_def)


section \<open>What a forward drops of its original\<close>

lemma find_sub_Some: "find_sub p s = Some k \<Longrightarrow> starts_with (drop k s) p \<and> k \<le> length s"
  by (induction p s arbitrary: k rule: find_sub.induct) (auto split: if_splits simp: starts_with_iff)

lemma tag_end_from_gt: "tag_end_from q p i s = Some e \<Longrightarrow> s ! (e - i - 1) = CHR ''>''"
proof (induction q p i s arbitrary: e rule: tag_end_from.induct)
  case (2 q p i b bs)
  then obtain q' p' where s: "tag_end_from q' p' (Suc i) bs = Some e" "bs ! (e - Suc i - 1) = CHR ''>''" by (auto split: if_splits)
  then have "Suc i < e" using tag_end_bounds by blast
  with s(2) show ?case by (simp add: nth_Cons')
next
  case (3 p i b bs)
  show ?case
  proof (cases "e = Suc i")
    case True
    have "\<not> (tag_end_from q' p' (Suc i) bs = Some (Suc i))" for q' p' using tag_end_bounds [of q' p' "Suc i" bs "Suc i"] by blast
    with 3(3) True show ?thesis by (auto split: if_splits)
  next
    case False
    with 3(3) have cases: "is_html_quote b \<and> p = CHR ''='' \<and> tag_end_from (Some b) p (Suc i) bs = Some e
      \<or> \<not> (is_html_quote b \<and> p = CHR ''='') \<and> b \<noteq> CHR ''>'' \<and> tag_end_from None (if is_ascii_ws b then p else b) (Suc i) bs = Some e"
      by (auto split: if_splits)
    then have s: "bs ! (e - Suc i - 1) = CHR ''>''" using 3(1,2) by blast
    from cases have "Suc i < e" using tag_end_bounds by blast
    with s(1) show ?thesis by (simp add: nth_Cons')
  qed
qed simp

lemma find_sub_first: "find_sub p s = Some k \<Longrightarrow> p \<noteq> [] \<Longrightarrow> \<not> contains (take k s) p"
proof (induction p s arbitrary: k rule: find_sub.induct)
  case (2 p c s)
  show ?case
  proof (cases "starts_with (c # s) p")
    case True
    with 2(2,3) show ?thesis by (auto simp: contains_iff)
  next
    case False
    with 2(2) obtain j where j: "find_sub p s = Some j" "k = Suc j" by auto
    have "\<not> contains (take j s) p" using 2(1) [OF False j(1) 2(3)] .
    moreover have "\<not> starts_with (c # take j s) p" using False by (metis append_take_drop_id append_Cons append_assoc starts_with_iff)
    ultimately show ?thesis unfolding j(2) by simp
  qed
qed (auto split: if_splits)

lemma find_sub_None: "find_sub p s = None \<Longrightarrow> \<not> contains s p"
  by (induction p s rule: find_sub.induct) (auto split: if_splits)

lemma tag_end_from_prefix: "tag_end_from q p i s = Some e \<Longrightarrow> tag_end_from q p i (take (e - i) s) = Some e"
proof (induction q p i s arbitrary: e rule: tag_end_from.induct)
  case (2 q p i b bs)
  then obtain q' p' where "tag_end_from q' p' (Suc i) bs = Some e" by (auto split: if_splits)
  then have "Suc i < e" using tag_end_bounds by blast
  with 2 show ?case by (auto simp: take_Cons' split: if_splits)
next
  case (3 p i b bs)
  have step: "Suc i < e" if "tag_end_from q' p' (Suc i) bs = Some e" for q' p' using tag_end_bounds [OF that] by simp
  have t: "take (e - i) (b # bs) = b # take (e - Suc i) bs" if "i < e" using that by (simp add: take_Cons' Suc_diff_Suc)
  consider "is_html_quote b \<and> p = CHR ''=''" | "\<not> (is_html_quote b \<and> p = CHR ''='')" "b = CHR ''>''"
    | "\<not> (is_html_quote b \<and> p = CHR ''='')" "b \<noteq> CHR ''>''" by blast
  then show ?case
  proof cases
    case q: 1
    then have e: "tag_end_from (Some b) p (Suc i) bs = Some e" using 3(3) by simp
    have i: "i < e" using step [OF e] by simp
    from 3(1) [OF q e] q show ?thesis unfolding t [OF i] by simp
  next
    case 2
    with 3 t show ?thesis by auto
  next
    case d: 3
    then have e: "tag_end_from None (if is_ascii_ws b then p else b) (Suc i) bs = Some e"
      using 3(3) unfolding tag_end_from.simps if_not_P [OF d(1)] if_not_P [OF d(2)] by blast
    have i: "i < e" using step [OF e] by simp
    from 3(2) [OF d e] show ?thesis unfolding t [OF i] tag_end_from.simps if_not_P [OF d(1)] if_not_P [OF d(2)] by blast
  qed
qed simp

text \<open>A whole \<open>meta\<close> tag that declares a charset, and the pieces of a page: stretches without a \<open>meta\<close>, \<open>meta\<close> tags up
  to their end, and what follows one that never ends.\<close>

definition charset_tag :: "string \<Rightarrow> bool" where
  "charset_tag tag \<longleftrightarrow> (let lower = to_ascii_lowercase tag in starts_with lower ''<meta'' \<and> tag_end lower = Some (length tag)
     \<and> (case drop 5 lower of [] \<Rightarrow> True | c # _ \<Rightarrow> is_whitespace c \<or> c = CHR ''/'' \<or> c = CHR ''>'') \<and> meta_declares_charset lower)"

definition page_piece :: "string \<Rightarrow> bool" where
  "page_piece s \<longleftrightarrow> (if starts_with (to_ascii_lowercase s) ''<meta'' then tag_end (to_ascii_lowercase s) \<in> {None, Some (length s)}
     else \<not> contains (to_ascii_lowercase s) ''<meta'')"

lemma lower_gt: "ascii_lower c = CHR ''>'' \<Longrightarrow> c = CHR ''>''"
proof -
  assume c: "ascii_lower c = CHR ''>''"
  have "cp (ascii_lower c) = cp c + 32" if "is_ascii_upper c" using that by (simp add: ascii_lower_def is_ascii_upper_def)
  moreover have "cp (ascii_lower c) = 62" unfolding c by simp
  ultimately have "\<not> is_ascii_upper c" by (auto simp: is_ascii_upper_def)
  with c show "c = CHR ''>''" by (simp add: ascii_lower_def)
qed

lemma lower_take_drop:
  "to_ascii_lowercase (drop n s) = drop n (to_ascii_lowercase s)" "to_ascii_lowercase (take n s) = take n (to_ascii_lowercase s)"
  "length (to_ascii_lowercase s) = length s"
  by (simp_all add: to_ascii_lowercase_def drop_map take_map)

lemma starts_meta: "contains s p \<or> \<not> starts_with s p"
  by (auto simp: starts_with_iff contains_iff intro: exI [of _ "[]"])

lemma meta_tag_piece:
  assumes "find_sub ''<meta'' (to_ascii_lowercase html) = Some k" "tag_end (to_ascii_lowercase (drop k html)) = Some e"
  shows "page_piece (take e (drop k html))"
    "charset_tag (take e (drop k html)) \<longleftrightarrow> (case drop 5 (to_ascii_lowercase (drop k html)) of [] \<Rightarrow> True
        | c # _ \<Rightarrow> is_whitespace c \<or> c = CHR ''/'' \<or> c = CHR ''>'') \<and> meta_declares_charset (take e (to_ascii_lowercase (drop k html)))"
proof -
  let ?s = "drop k html" let ?l = "to_ascii_lowercase ?s"
  have e: "0 < e" "e \<le> length ?s" "?l ! (e - 1) = CHR ''>''"
    using tag_end_bounds [OF assms(2) [unfolded tag_end_def]] tag_end_from_gt [OF assms(2) [unfolded tag_end_def]]
    by (simp_all add: lower_take_drop)
  obtain t where t: "?l = ''<meta'' @ t" using find_sub_Some [OF assms(1)] unfolding lower_take_drop(1) [symmetric] starts_with_iff by blast
  have "\<not> e - 1 < 5"
  proof
    assume "e - 1 < 5"
    then have "e - 1 = 0 \<or> e - 1 = 1 \<or> e - 1 = 2 \<or> e - 1 = 3 \<or> e - 1 = 4" by linarith
    with e(3) t show False by auto
  qed
  then have len: "6 \<le> e" by simp
  have te: "take e ?l = ''<meta'' @ take (e - 5) t" using len unfolding t by (simp add: numeral_eq_Suc take_Cons')
  then have st: "starts_with (take e ?l) ''<meta''" unfolding starts_with_iff by blast
  have end_at: "tag_end (take e ?l) = Some e"
    using tag_end_from_prefix [OF assms(2) [unfolded tag_end_def]] by (simp add: tag_end_def)
  have size: "length (take e ?s) = e" using e(2) by simp
  show "page_piece (take e ?s)" unfolding page_piece_def lower_take_drop(2) end_at size using st by simp
  have five: "drop 5 (''<meta'' @ u) = u" for u by (simp add: numeral_eq_Suc)
  have head: "(case take (e - 5) t of [] \<Rightarrow> True | c # _ \<Rightarrow> P c) \<longleftrightarrow> (case t of [] \<Rightarrow> True | c # _ \<Rightarrow> P c)" for P
    using len by (cases t) (auto simp: take_Cons')
  let ?n = "\<lambda>l. case drop 5 l of [] \<Rightarrow> True | c # _ \<Rightarrow> is_whitespace c \<or> c = CHR ''/'' \<or> c = CHR ''>''"
  have name: "?n (take e ?l) \<longleftrightarrow> ?n ?l" unfolding te five head unfolding t five by (rule refl)
  show "charset_tag (take e ?s) \<longleftrightarrow> (case drop 5 ?l of [] \<Rightarrow> True
        | c # _ \<Rightarrow> is_whitespace c \<or> c = CHR ''/'' \<or> c = CHR ''>'') \<and> meta_declares_charset (take e ?l)"
    unfolding charset_tag_def Let_def lower_take_drop(2) by (simp only: st end_at size name simp_thms)
qed

text \<open>A forward cuts out of the html it carries exactly the \<open>meta\<close> tags that declare a charset, wherever they stand
  and in whatever case: every other character is sent, in order, other \<open>meta\<close> tags and one that never
  ends included.\<close>
theorem only_charset_tags_are_dropped:
  "\<exists>pieces. concat pieces = html \<and> list_all page_piece pieces
     \<and> strip_charset_meta html = concat (filter (\<lambda>s. \<not> charset_tag s) pieces)"
proof (induction html rule: strip_charset_meta.induct)
  case (1 html)
  have plain: "page_piece s \<and> \<not> charset_tag s" if "\<not> contains (to_ascii_lowercase s) ''<meta''" for s
    using that starts_meta by (auto simp: page_piece_def charset_tag_def Let_def)
  show ?case
  proof (cases "find_sub ''<meta'' (to_ascii_lowercase html)")
    case None
    then show ?thesis using plain [OF find_sub_None [OF None]] by (intro exI [of _ "[html]"]) (simp add: strip_charset_meta.simps [of html])
  next
    case (Some k)
    let ?start = "drop k html" let ?lower = "to_ascii_lowercase ?start"
    let ?is = "case drop 5 ?lower of [] \<Rightarrow> True | c # _ \<Rightarrow> is_whitespace c \<or> c = CHR ''/'' \<or> c = CHR ''>''"
    have pre: "page_piece (take k html)" "\<not> charset_tag (take k html)"
      using plain [of "take k html"] find_sub_first [OF Some] by (simp_all add: lower_take_drop)
    show ?thesis
    proof (cases "tag_end ?lower")
      case None
      have "starts_with ?lower ''<meta''" using find_sub_Some [OF Some] by (simp add: lower_take_drop)
      with None have "page_piece ?start" "\<not> charset_tag ?start" by (simp_all add: page_piece_def charset_tag_def Let_def)
      moreover have "strip_charset_meta html = html" by (simp only: strip_charset_meta.simps [of html] Some Let_def option.case None)
      ultimately show ?thesis using pre by (intro exI [of _ "[take k html, ?start]"]) simp
    next
      case e: (Some e)
      from 1 [OF Some refl refl refl e] obtain pieces where s: "concat pieces = drop e ?start" "list_all page_piece pieces"
        "strip_charset_meta (drop e ?start) = concat (filter (\<lambda>s. \<not> charset_tag s) pieces)" by blast
      note m = meta_tag_piece [OF Some e]
      have "strip_charset_meta html = take k html @ (if charset_tag (take e ?start) then [] else take e ?start) @ strip_charset_meta (drop e ?start)"
        unfolding m(2) by (simp only: strip_charset_meta.simps [of html] Some Let_def option.case e)
      moreover have "take k html @ take e ?start @ drop e ?start = html" by (simp only: append_take_drop_id)
      ultimately show ?thesis using s m(1) pre
        by (intro exI [of _ "take k html # take e ?start # pieces"]) (simp del: drop_drop)
    qed
  qed
qed

end
