(* ===== verification/Gmail_Calls.thy ===== *)
theory Gmail_Calls
  imports Rust_Text Prelude
begin

text \<open>
  One call of the Gmail API (\<open>squelch-core/src/sync/mod.rs\<close>): the pacing of requests by what each method costs
  (\<open>bearer_get\<close>), the renewed token after a 401 (\<open>send_get\<close>) and the pauses at a quota limit
  (\<open>get_json_with_retry\<close>). The network is a function from the number of exchanges so far to what the next
  one brings, so a property for every such function is one for every behaviour of Gmail.
\<close>

section \<open>Reading numbers\<close>

text \<open>\<open>str::parse::<u64>\<close>: an optional plus sign, digits, and no overflow.\<close>

fun digits_value :: "nat \<Rightarrow> string \<Rightarrow> nat option" where
  "digits_value v [] = Some v"
| "digits_value v (c # s) = (if is_ascii_digit c then digits_value (10 * v + (cp c - 48)) s else None)"

definition parse_u64 :: "string \<Rightarrow> nat option" where
  "parse_u64 s = (let t = (case s of c # r \<Rightarrow> if c = CHR ''+'' then r else s | [] \<Rightarrow> s)
     in if t = [] then None else case digits_value 0 t of
          Some v \<Rightarrow> if v < 2 ^ 64 then Some v else None | None \<Rightarrow> None)"

definition parse_history_id :: "string \<Rightarrow> nat" where
  "parse_history_id s = (case parse_u64 (trim s) of Some v \<Rightarrow> v | None \<Rightarrow> 0)"

section \<open>Quotas\<close>

datatype quota_profile = Standard | Legacy

datatype gmail_error_kind = Auth_error | Quota_error | Http_error | Network_error

datatype gmail_retry = No_retry | Catch_up

definition GMAIL_QUOTA_RETRIES :: nat where
  "GMAIL_QUOTA_RETRIES = 2"

definition GMAIL_QUOTA_RETRY_CAP :: duration where
  "GMAIL_QUOTA_RETRY_CAP = secs 30"

definition gmail_quota_delay :: "duration \<Rightarrow> duration option \<Rightarrow> duration option" where
  "gmail_quota_delay backoff retry_after =
     (if (case retry_after of Some d \<Rightarrow> GMAIL_QUOTA_RETRY_CAP < d | None \<Rightarrow> False) then None
      else Some (max (min backoff GMAIL_QUOTA_RETRY_CAP) (case retry_after of Some d \<Rightarrow> d | None \<Rightarrow> 0)))"

definition gmail_method_cost :: "quota_profile \<Rightarrow> string \<Rightarrow> nat" where
  "gmail_method_cost profile path =
     (if path = ''/profile'' then 1 else if path = ''/history'' then 2 else if path = ''/messages'' then 5
      else if starts_with path ''/labels/'' then 1
      else case profile of Standard \<Rightarrow> 20 | Legacy \<Rightarrow> 5)"

definition gmail_unit_spacing :: "quota_profile \<Rightarrow> duration" where
  "gmail_unit_spacing profile = (case profile of Standard \<Rightarrow> 12500000 | Legacy \<Rightarrow> 5000000)"

text \<open>\<open>parse_date\<close> reads an HTTP date; what is past already is no delay.\<close>

definition gmail_retry_after :: "(string \<Rightarrow> instant option) \<Rightarrow> instant \<Rightarrow> string \<Rightarrow> duration option" where
  "gmail_retry_after parse_date now value = (case parse_u64 value of Some s \<Rightarrow> Some (secs (int s))
     | None \<Rightarrow> map_option (\<lambda>t. max 0 (t - now)) (parse_date value))"

definition QUOTA_REASONS :: "string list" where
  "QUOTA_REASONS = [''rate_limit_exceeded'', ''quota_exceeded'', ''ratelimitexceeded'', ''userratelimitexceeded'',
     ''quotaexceeded'', ''dailylimitexceeded'']"

definition classify_gmail_status :: "nat \<Rightarrow> string \<Rightarrow> gmail_error_kind" where
  "classify_gmail_status status body = (if status = 401 then Auth_error else if status = 429 then Quota_error
     else if status = 403 then
       let head = to_lowercase (take 2048 body)
       in if list_ex (contains head) QUOTA_REASONS then Quota_error else Http_error
     else Http_error)"

section \<open>Exchanges\<close>

text \<open>What an exchange brings: no token, no answer, or a response; its payload is what the JSON decodes to.\<close>

record 'p http_response =
  rs_status :: nat
  rs_retry_after :: "duration option"
  rs_body :: string
  rs_json :: "'p option"

datatype 'p outcome = No_token | Unreachable | Response "'p http_response"

datatype sync_error = Not_found | Api_failure

definition is_success :: "nat \<Rightarrow> bool" where
  "is_success status \<longleftrightarrow> 200 \<le> status \<and> status < 300"

text \<open>The response, and the number of exchanges after it: a 401 is answered by one more, with a new token.\<close>

definition one_exchange :: "'p outcome \<Rightarrow> sync_error + 'p http_response" where
  "one_exchange out = (case out of Response r \<Rightarrow> Inr r | _ \<Rightarrow> Inl Api_failure)"

definition send_get :: "(nat \<Rightarrow> 'p outcome) \<Rightarrow> nat \<Rightarrow> (sync_error + 'p http_response) \<times> nat" where
  "send_get net n = (case one_exchange (net n) of
     Inr r \<Rightarrow> if rs_status r = 401 then (one_exchange (net (Suc n)), n + 2) else (Inr r, Suc n)
   | Inl e \<Rightarrow> (Inl e, Suc n))"

text \<open>The attempts from one on: the answer, the exchanges so far, and the pauses taken.\<close>

function get_attempts ::
    "(nat \<Rightarrow> 'p outcome) \<Rightarrow> gmail_retry \<Rightarrow> duration \<Rightarrow> nat \<Rightarrow> nat \<Rightarrow> (sync_error + 'p) \<times> nat \<times> duration list" where
  "get_attempts net retry backoff attempt n = (case send_get net n of
     (Inl e, n) \<Rightarrow> (Inl e, n, [])
   | (Inr r, n) \<Rightarrow>
       if is_success (rs_status r) then ((case rs_json r of Some v \<Rightarrow> Inr v | None \<Rightarrow> Inl Api_failure), n, [])
       else if rs_status r = 404 then (Inl Not_found, n, [])
       else case gmail_quota_delay backoff (rs_retry_after r) of
           None \<Rightarrow> (Inl Api_failure, n, [])
         | Some delay \<Rightarrow>
             if classify_gmail_status (rs_status r) (rs_body r) = Quota_error \<and> retry = Catch_up \<and> attempt < GMAIL_QUOTA_RETRIES
             then let (res, n, sleeps) = get_attempts net retry (min (2 * backoff) GMAIL_QUOTA_RETRY_CAP) (Suc attempt) n
                  in (res, n, delay # sleeps)
             else (Inl Api_failure, n, []))"
  by pat_completeness auto
termination
  by (relation "measure (\<lambda>(_, _, _, attempt, _). GMAIL_QUOTA_RETRIES - attempt)") auto

declare get_attempts.simps [simp del]

text \<open>\<open>gmail_quota_backoff\<close> is one second.\<close>

definition get_json_with_retry :: "(nat \<Rightarrow> 'p outcome) \<Rightarrow> gmail_retry \<Rightarrow> nat \<Rightarrow> (sync_error + 'p) \<times> nat \<times> duration list" where
  "get_json_with_retry net retry n = get_attempts net retry (secs 1) 0 n"

section \<open>Pacing\<close>

text \<open>A request is admitted no earlier than the slot, and moves the slot by its cost.\<close>

definition admit :: "quota_profile \<Rightarrow> instant \<Rightarrow> string \<Rightarrow> instant \<Rightarrow> instant \<times> instant" where
  "admit profile slot path now = (let start = max now slot
     in (start, start + gmail_unit_spacing profile * int (gmail_method_cost profile path)))"

text \<open>The starts of the requests of a run, each with the path and the clock when it asks.\<close>

fun admissions :: "quota_profile \<Rightarrow> instant \<Rightarrow> (string \<times> instant) list \<Rightarrow> (instant \<times> nat) list" where
  "admissions profile slot [] = []"
| "admissions profile slot ((path, now) # rs) = (let (start, slot') = admit profile slot path now
     in (start, gmail_method_cost profile path) # admissions profile slot' rs)"

lemma admissions_start: "(t, c) \<in> set (admissions profile slot rs) \<Longrightarrow> slot \<le> t"
proof (induction profile slot rs arbitrary: t c rule: admissions.induct)
  case (2 profile slot path now rs)
  let ?s = "max now slot" let ?slot' = "?s + gmail_unit_spacing profile * int (gmail_method_cost profile path)"
  have "0 \<le> gmail_unit_spacing profile * int (gmail_method_cost profile path)"
    by (simp add: gmail_unit_spacing_def split: quota_profile.splits)
  with 2 show ?case by (fastforce simp: admit_def Let_def)
qed simp

text \<open>C29. The quota of the account holds whatever asks and however fast: between the starts of any two requests
  there is time for the units of every request from the first to just before the second, at the
  profile's rate.\<close>
theorem requests_keep_to_the_quota:
  assumes "i < j" "j < length (admissions profile slot rs)"
  shows "gmail_unit_spacing profile * int (sum_list (map snd (take (j - i) (drop i (admissions profile slot rs)))))
    \<le> fst (admissions profile slot rs ! j) - fst (admissions profile slot rs ! i)"
  using assms
proof (induction profile slot rs arbitrary: i j rule: admissions.induct)
  case (2 profile slot path now rs)
  let ?s = "max now slot" let ?c = "gmail_method_cost profile path"
  let ?slot' = "?s + gmail_unit_spacing profile * int ?c" let ?as = "admissions profile ?slot' rs"
  have step: "admissions profile slot ((path, now) # rs) = (?s, ?c) # ?as" by (simp add: admit_def Let_def)
  have IH: "i < j \<Longrightarrow> j < length ?as \<Longrightarrow> gmail_unit_spacing profile * int (sum_list (map snd (take (j - i) (drop i ?as)))) \<le> fst (?as ! j) - fst (?as ! i)" for i j
    by (rule 2(1) [of "(?s, ?slot')" ?s ?slot']) (simp_all add: admit_def Let_def)
  obtain j' where j: "j = Suc j'" using 2(2) by (cases j) auto
  have j': "j' < length ?as" using 2(3) unfolding step j by simp
  show ?case
  proof (cases i)
    case (Suc i')
    then show ?thesis using IH [of i' j'] 2(2) j' unfolding step j by simp
  next
    case 0
    have "gmail_unit_spacing profile * int (sum_list (map snd (take j' ?as))) \<le> fst (?as ! j') - ?slot'"
    proof (cases j')
      case 0
      have "?as ! 0 \<in> set ?as" using j' unfolding 0 by (rule nth_mem)
      then show ?thesis using admissions_start [of "fst (?as ! 0)" "snd (?as ! 0)" profile ?slot' rs] 0 by simp
    next
      case (Suc k)
      have "?as ! 0 \<in> set ?as" using j' by (intro nth_mem) (rule order_le_less_trans [OF le0])
      then have "?slot' \<le> fst (?as ! 0)" using admissions_start [of "fst (?as ! 0)" "snd (?as ! 0)" profile ?slot' rs] by simp
      with IH [of 0 j'] Suc j' show ?thesis by simp
    qed
    then show ?thesis using 0 unfolding step j by (simp add: algebra_simps)
  qed
qed simp

theorem requests_keep_to_the_quota_witness:
  "gmail_unit_spacing Standard * 25 \<le> fst (admissions Standard 0 [(''/messages'', 7), (''/messages/x'', 7), (''/profile'', 7)] ! 2)
     - fst (admissions Standard 0 [(''/messages'', 7), (''/messages/x'', 7), (''/profile'', 7)] ! 0)"
proof -
  let ?rs = "[(''/messages'', 7), (''/messages/x'', 7), (''/profile'', 7)]"
  have l: "2 < length (admissions Standard 0 ?rs)"
    "int (sum_list (map snd (take (2 - 0) (drop 0 (admissions Standard 0 ?rs))))) = 25" by code_simp+
  show ?thesis using requests_keep_to_the_quota [of 0 2 Standard 0 ?rs, OF _ l(1)] unfolding l(2) by simp
qed

section \<open>Pauses\<close>

lemma get_attempts_bounds:
  assumes "get_attempts net retry backoff attempt n = (res, m, sleeps)" "0 \<le> backoff"
  shows "n < m \<and> m \<le> n + 2 * (Suc GMAIL_QUOTA_RETRIES - attempt) + (if attempt \<le> GMAIL_QUOTA_RETRIES then 0 else 2)
    \<and> length sleeps \<le> GMAIL_QUOTA_RETRIES - attempt \<and> list_all (\<lambda>d. min backoff GMAIL_QUOTA_RETRY_CAP \<le> d \<and> d \<le> GMAIL_QUOTA_RETRY_CAP) sleeps
    \<and> (retry = No_retry \<longrightarrow> sleeps = [])"
  using assms
proof (induction net retry backoff attempt n arbitrary: res m sleeps rule: get_attempts.induct)
  case (1 net retry backoff attempt n)
  obtain out n' where s: "send_get net n = (out, n')" by (cases "send_get net n")
  have n': "n < n' \<and> n' \<le> n + 2" using s by (auto simp: send_get_def split: sum.splits if_splits)
  show ?case
  proof (cases "\<exists>r delay. out = Inr r \<and> \<not> is_success (rs_status r) \<and> rs_status r \<noteq> 404 \<and> gmail_quota_delay backoff (rs_retry_after r) = Some delay
      \<and> classify_gmail_status (rs_status r) (rs_body r) = Quota_error \<and> retry = Catch_up \<and> attempt < GMAIL_QUOTA_RETRIES")
    case False
    then have "m = n' \<and> sleeps = []"
      using 1(2) unfolding get_attempts.simps [of net retry backoff attempt n] s
      by (auto split: sum.splits option.splits if_splits)
    then show ?thesis using n' by (auto simp: GMAIL_QUOTA_RETRIES_def)
  next
    case True
    then obtain r delay where r: "out = Inr r" "\<not> is_success (rs_status r)" "rs_status r \<noteq> 404"
      "gmail_quota_delay backoff (rs_retry_after r) = Some delay"
      "classify_gmail_status (rs_status r) (rs_body r) = Quota_error \<and> retry = Catch_up \<and> attempt < GMAIL_QUOTA_RETRIES" by blast
    obtain res' m' ds where rec: "get_attempts net retry (min (2 * backoff) GMAIL_QUOTA_RETRY_CAP) (Suc attempt) n' = (res', m', ds)"
      by (cases "get_attempts net retry (min (2 * backoff) GMAIL_QUOTA_RETRY_CAP) (Suc attempt) n'") auto
    have e: "m = m'" "sleeps = delay # ds"
      using 1(2) rec r(5) unfolding get_attempts.simps [of net retry backoff attempt n] s by (simp_all add: r(1-4))
    have cap: "0 \<le> GMAIL_QUOTA_RETRY_CAP" by (simp add: GMAIL_QUOTA_RETRY_CAP_def secs_def)
    have IH: "n' < m' \<and> m' \<le> n' + 2 * (Suc GMAIL_QUOTA_RETRIES - Suc attempt) + (if Suc attempt \<le> GMAIL_QUOTA_RETRIES then 0 else 2)
      \<and> length ds \<le> GMAIL_QUOTA_RETRIES - Suc attempt
      \<and> list_all (\<lambda>d. min (min (2 * backoff) GMAIL_QUOTA_RETRY_CAP) GMAIL_QUOTA_RETRY_CAP \<le> d \<and> d \<le> GMAIL_QUOTA_RETRY_CAP) ds
      \<and> (retry = No_retry \<longrightarrow> ds = [])"
      by (rule 1(1) [OF s [symmetric] r(1) r(2,3) r(4) r(5) rec]) (use 1(3) cap in simp)
    have "min backoff GMAIL_QUOTA_RETRY_CAP \<le> min (min (2 * backoff) GMAIL_QUOTA_RETRY_CAP) GMAIL_QUOTA_RETRY_CAP" using 1(3) by auto
    then have "list_all (\<lambda>d. min backoff GMAIL_QUOTA_RETRY_CAP \<le> d \<and> d \<le> GMAIL_QUOTA_RETRY_CAP) ds"
      using IH by (fastforce simp: list_all_iff)
    moreover have "min backoff GMAIL_QUOTA_RETRY_CAP \<le> delay \<and> delay \<le> GMAIL_QUOTA_RETRY_CAP"
      using r(4) cap by (auto simp: gmail_quota_delay_def split: if_splits option.splits)
    ultimately show ?thesis using IH n' r(5) unfolding e by (auto split: if_splits)
  qed
qed

text \<open>A response that refuses for the quota: a 429, or a 403 whose text names one of the reasons.\<close>

definition quota_refusal :: "'p http_response \<Rightarrow> bool" where
  "quota_refusal r \<longleftrightarrow> rs_status r = 429
     \<or> rs_status r = 403 \<and> (\<exists>reason \<in> set QUOTA_REASONS. \<exists>a b. to_lowercase (take 2048 (rs_body r)) = a @ reason @ b)"

lemma quota_refusal_classified: "classify_gmail_status (rs_status r) (rs_body r) = Quota_error \<longleftrightarrow> quota_refusal r"
  by (simp add: classify_gmail_status_def quota_refusal_def contains_iff list_ex_iff Let_def)

text \<open>What a response asks for, and the pauses of a run, one after each of the refusals at the exchanges \<open>ks\<close>.\<close>

definition asked :: "'p http_response \<Rightarrow> duration" where
  "asked r = (case rs_retry_after r of Some d \<Rightarrow> d | None \<Rightarrow> 0)"

fun pauses_after :: "(nat \<Rightarrow> 'p outcome) \<Rightarrow> nat \<Rightarrow> nat list \<Rightarrow> duration list \<Rightarrow> bool" where
  "pauses_after net i [] [] = True"
| "pauses_after net i (k # ks) (d # ds) = ((case net k of
      Response r \<Rightarrow> quota_refusal r \<and> asked r \<le> secs 30 \<and> d = max (secs (2 ^ i)) (asked r) | _ \<Rightarrow> False)
      \<and> pauses_after net (Suc i) ks ds)"
| "pauses_after net i _ _ = False"

lemma send_get_response:
  "send_get net n = (Inr r, m) \<Longrightarrow> n < m \<and> m \<le> n + 2 \<and> net (m - 1) = Response r"
  by (auto simp: send_get_def one_exchange_def split: outcome.splits if_splits)

lemma send_get_steps: "send_get net n = (out, m) \<Longrightarrow> n < m \<and> m \<le> n + 2"
  by (auto simp: send_get_def split: sum.splits if_splits)

text \<open>How the last response and the result of a run belong together.\<close>

definition run_ends :: "(nat \<Rightarrow> 'p outcome) \<Rightarrow> gmail_retry \<Rightarrow> nat \<Rightarrow> nat \<Rightarrow> sync_error + 'p \<Rightarrow> bool" where
  "run_ends net retry m paused res \<longleftrightarrow> (case net (m - 1) of Response r \<Rightarrow>
      (\<forall>v. res = Inr v \<longleftrightarrow> is_success (rs_status r) \<and> rs_json r = Some v)
    \<and> (quota_refusal r \<longrightarrow> res = Inl Api_failure \<and> (retry = No_retry \<or> paused = 2 \<or> secs 30 < asked r))
    | _ \<Rightarrow> res = Inl Api_failure)"

lemma attempt_cases:
  assumes "get_attempts net retry (secs (2 ^ i)) i n = (res, m, sleeps)" "i \<le> 2"
  obtains (ends) "n < m" "m \<le> n + 2" "sleeps = []" "run_ends net retry m i res"
    | (again) n' r ds where "retry = Catch_up" "i < 2" "n < n'" "n' \<le> n + 2" "net (n' - 1) = Response r"
        "quota_refusal r" "asked r \<le> secs 30" "sleeps = max (secs (2 ^ i)) (asked r) # ds"
        "get_attempts net retry (secs (2 ^ Suc i)) (Suc i) n' = (res, m, ds)"
proof -
  obtain out n' where s: "send_get net n = (out, n')" by (cases "send_get net n")
  note run = assms(1) [unfolded get_attempts.simps [of net retry "secs (2 ^ i)" i n] s]
  have i: "i = 0 \<or> i = 1 \<or> i = 2" using assms(2) by auto
  then have cap: "min (secs (2 ^ i)) GMAIL_QUOTA_RETRY_CAP = secs (2 ^ i)" "min (2 * secs (2 ^ i)) GMAIL_QUOTA_RETRY_CAP = secs (2 ^ Suc i)"
    "0 < secs (2 ^ i)" by (auto simp: GMAIL_QUOTA_RETRY_CAP_def secs_def)
  show thesis
  proof (cases out)
    case (Inl e)
    have "run_ends net retry n' i (Inl Api_failure)" "e = Api_failure"
      using s Inl by (auto simp: send_get_def one_exchange_def run_ends_def split: outcome.splits if_splits)
    then show thesis using ends run send_get_steps [OF s] Inl by simp
  next
    case (Inr r)
    have r: "net (n' - 1) = Response r" using send_get_response s Inr by blast
    have delay: "gmail_quota_delay (secs (2 ^ i)) (rs_retry_after r)
        = (if secs 30 < asked r then None else Some (max (secs (2 ^ i)) (asked r)))"
      unfolding gmail_quota_delay_def cap(1) by (simp add: asked_def GMAIL_QUOTA_RETRY_CAP_def secs_def split: option.split)
    show thesis
    proof (cases "\<not> is_success (rs_status r) \<and> rs_status r \<noteq> 404 \<and> \<not> secs 30 < asked r \<and> quota_refusal r \<and> retry = Catch_up \<and> i < 2")
      case True
      obtain res' m' ds where rec: "get_attempts net retry (secs (2 ^ Suc i)) (Suc i) n' = (res', m', ds)"
        by (cases "get_attempts net retry (secs (2 ^ Suc i)) (Suc i) n'") auto
      have "res = res' \<and> m = m' \<and> sleeps = max (secs (2 ^ i)) (asked r) # ds"
        using run True rec unfolding Inr cap(2)
        by (simp add: delay quota_refusal_classified GMAIL_QUOTA_RETRIES_def)
      then show thesis using send_get_steps [OF s] r True rec by (intro again [of n' r ds]) simp_all
    next
      case False
      have "m = n' \<and> sleeps = [] \<and> res = (if is_success (rs_status r) then (case rs_json r of Some v \<Rightarrow> Inr v | None \<Rightarrow> Inl Api_failure)
          else if rs_status r = 404 then Inl Not_found else Inl Api_failure)"
        using run False unfolding Inr
        by (auto simp: delay quota_refusal_classified GMAIL_QUOTA_RETRIES_def split: if_splits)
      moreover have "quota_refusal r \<Longrightarrow> rs_status r = 429 \<or> rs_status r = 403" by (auto simp: quota_refusal_def)
      ultimately have "run_ends net retry m i res"
        using False r assms(2) by (cases retry) (auto simp: run_ends_def is_success_def split: option.splits)
      then show thesis using ends send_get_steps [OF s] \<open>m = n' \<and> _\<close> by simp
    qed
  qed
qed

lemma get_attempts_story:
  assumes "get_attempts net retry (secs (2 ^ i)) i n = (res, m, sleeps)" "i \<le> 2"
  shows "n < m \<and> m \<le> n + 2 * (3 - i) \<and> length sleeps \<le> 2 - i \<and> (retry = No_retry \<longrightarrow> sleeps = [])
    \<and> run_ends net retry m (i + length sleeps) res
    \<and> (\<exists>ks. pauses_after net i ks sleeps \<and> list_all (\<lambda>k. n \<le> k) ks \<and> sorted_wrt (<) (ks @ [m - 1]))"
  using assms
proof (induction "2 - i" arbitrary: i n m sleeps)
  case 0
  from 0(2,3) show ?case
  proof (cases rule: attempt_cases)
    case ends
    then show ?thesis using 0(1,3) by (intro conjI exI [of _ "[]"]) auto
  qed (use 0(1) in simp)
next
  case (Suc j)
  from Suc(3,4) show ?case
  proof (cases rule: attempt_cases)
    case ends
    then show ?thesis using Suc(4) by (intro conjI exI [of _ "[]"]) auto
  next
    case (again n' r ds)
    have IH: "n' < m \<and> m \<le> n' + 2 * (3 - Suc i) \<and> length ds \<le> 2 - Suc i \<and> (retry = No_retry \<longrightarrow> ds = [])
      \<and> run_ends net retry m (Suc i + length ds) res
      \<and> (\<exists>ks. pauses_after net (Suc i) ks ds \<and> list_all (\<lambda>k. n' \<le> k) ks \<and> sorted_wrt (<) (ks @ [m - 1]))"
      by (rule Suc(1) [OF _ again(9)]) (use Suc(2) again(2) in auto)
    then obtain ks where ks: "pauses_after net (Suc i) ks ds" "list_all (\<lambda>k. n' \<le> k) ks" "sorted_wrt (<) (ks @ [m - 1])" by blast
    have "pauses_after net i ((n' - 1) # ks) sleeps" using again ks(1) by simp
    moreover have "list_all (\<lambda>k. n \<le> k) ((n' - 1) # ks)" using again(3) ks(2) by (auto simp: list_all_iff)
    moreover have "sorted_wrt (<) (((n' - 1) # ks) @ [m - 1])" using again(3) IH ks(2,3) by (fastforce simp: list_all_iff)
    ultimately show ?thesis using IH again by (intro conjI exI [of _ "(n' - 1) # ks"]) auto
  qed
qed

text \<open>C30. A call of Gmail ends after at most six exchanges. It pauses at most twice, and only in a catch-up: each pause
  follows an answer of its own that refused for the quota, a 429 or a 403 with one of the reasons, and is
  one second, then two, or as long as that answer asked when it asked for more. The last answer decides
  the result; when it too refuses for the quota the call fails, and then it was no catch-up, or both
  pauses were spent, or Gmail asked for more than half a minute.\<close>
theorem calls_are_bounded:
  "case get_json_with_retry net retry n of (res, m, sleeps) \<Rightarrow>
      n < m \<and> m \<le> n + 6 \<and> length sleeps \<le> 2 \<and> (retry = No_retry \<longrightarrow> sleeps = [])
    \<and> (\<exists>ks. pauses_after net 0 ks sleeps \<and> list_all (\<lambda>k. n \<le> k) ks \<and> sorted_wrt (<) (ks @ [m - 1]))
    \<and> run_ends net retry m (length sleeps) res"
proof -
  obtain res m sleeps where g: "get_attempts net retry (secs 1) 0 n = (res, m, sleeps)" by (cases "get_attempts net retry (secs 1) 0 n")
  from g have "get_attempts net retry (secs (2 ^ 0)) 0 n = (res, m, sleeps)" by simp
  from get_attempts_story [OF this] show ?thesis unfolding get_json_with_retry_def g by simp
qed

text \<open>Refused twice, then served: two pauses, the second as long as Gmail asked.\<close>

definition sample_refusals :: "nat \<Rightarrow> nat outcome" where
  "sample_refusals k = Response \<lparr>rs_status = (if k < 2 then 429 else 200), rs_retry_after = (if k = 1 then Some (secs 5) else None),
     rs_body = [], rs_json = Some 7\<rparr>"

theorem calls_are_bounded_witness:
  "get_json_with_retry sample_refusals Catch_up 0 = (Inr 7, 3, [secs 1, secs 5])
   \<and> (\<exists>ks. pauses_after sample_refusals 0 ks [secs 1, secs 5] \<and> list_all (\<lambda>k. 0 \<le> k) ks \<and> sorted_wrt (<) (ks @ [2]))"
proof -
  have g: "get_json_with_retry sample_refusals Catch_up 0 = (Inr 7, 3, [secs 1, secs 5])" by code_simp
  show ?thesis using calls_are_bounded [where net = sample_refusals and retry = Catch_up and n = 0] unfolding g by simp
qed

end
