(* ===== verification/Mail_Sync.thy ===== *)
theory Mail_Sync
  imports Gmail_Calls Mail_Events "HOL-Library.Char_ord" "HOL-Library.List_Lexorder"
begin

text \<open>
  The mail of one account, fetched from Gmail (\<open>squelch-core/src/sync/mod.rs\<close>, \<open>ingest_message\<close> in
  \<open>store/sqlite/messages.rs\<close>): the first backfill, the history walk of a poll, the catch-up when Gmail has
  forgotten the history, and the spam folder on demand. A historyId, kept as the cursor, says up to
  where the mailbox has been read.

  Gmail is a function from the number of exchanges so far and a request to an outcome, so whatever
  arrives while the engine works is seen by its later requests and not by its earlier ones. A walk over pages ends when
  Gmail gives no further page token; a result \<open>None\<close> is a walk that never ends. The rows carry what
  order and visibility depend on; the rest of a mail is its \<open>content\<close>. What the parser makes of the raw
  bytes is the argument \<open>v_parse\<close>.
\<close>

section \<open>The store\<close>

record 'c new_message =
  nm_gid :: string
  nm_from :: string
  nm_received :: instant
  nm_sent :: bool
  nm_spam :: bool
  nm_to_addrs :: "string option"
  nm_content :: 'c

record 'c triaged_message =
  tm_message :: "'c new_message"
  tm_recipients :: "string list"
  tm_eligible :: "instant option"
  tm_foreground :: bool

record 'c message_row =
  mr_id :: int
  mr_gid :: string
  mr_from :: string
  mr_received :: instant
  mr_sent :: bool
  mr_spam :: bool
  mr_to_addrs :: "string option"
  mr_content :: 'c
  mr_eligible :: "instant option"

record contact_row =
  ct_addr :: string
  ct_sent_count :: int
  ct_first_seen :: instant
  ct_last_sent :: "instant option"

record unsubscribe_row =
  un_sender :: string
  un_requested :: instant
  un_resolved :: bool
  un_violations :: int
  un_last :: "instant option"

record sync_state =
  ss_uidvalidity :: nat
  ss_last_uid :: nat

record 'c mail_store =
  ms_rows :: "'c message_row list"
  ms_contacts :: "contact_row list"
  ms_unsubscribes :: "unsubscribe_row list"
  ms_sync :: "(string, sync_state) table"
  ms_spam_synced :: "instant option"

text \<open>What a conflict of the upsert leaves: each flag is the least of the two, a missing recipient list gives way.\<close>

definition merge_row :: "'c new_message \<Rightarrow> 'c message_row \<Rightarrow> 'c message_row" where
  "merge_row msg r = r\<lparr>mr_from := nm_from msg, mr_received := nm_received msg, mr_sent := mr_sent r \<and> nm_sent msg,
     mr_spam := mr_spam r \<and> nm_spam msg,
     mr_to_addrs := (case nm_to_addrs msg of Some a \<Rightarrow> Some a | None \<Rightarrow> mr_to_addrs r), mr_content := nm_content msg\<rparr>"

definition has_mail :: "string \<Rightarrow> 'c mail_store \<Rightarrow> bool" where
  "has_mail gid s \<longleftrightarrow> (\<exists>r \<in> set (ms_rows s). mr_gid r = gid)"

text \<open>The message row and, with it, the stamp of the triage row, which only the first insert writes.\<close>

definition upsert_message :: "'c new_message \<Rightarrow> instant option \<Rightarrow> 'c mail_store \<Rightarrow> 'c mail_store" where
  "upsert_message msg stamp s = s\<lparr>ms_rows :=
     (if has_mail (nm_gid msg) s then update_where (\<lambda>r. mr_gid r = nm_gid msg) (merge_row msg) (ms_rows s)
      else ms_rows s @ [\<lparr>mr_id = fresh_id (map mr_id (ms_rows s)), mr_gid = nm_gid msg, mr_from = nm_from msg, mr_received = nm_received msg,
             mr_sent = nm_sent msg, mr_spam = nm_spam msg, mr_to_addrs = nm_to_addrs msg, mr_content = nm_content msg, mr_eligible = stamp\<rparr>])\<rparr>"

definition seed_contact :: "instant \<Rightarrow> string \<Rightarrow> contact_row list \<Rightarrow> contact_row list" where
  "seed_contact first_seen addr cs = (if trim addr = [] then cs
     else if \<exists>c \<in> set cs. ct_addr c = addr
     then update_where (\<lambda>c. ct_addr c = addr) (\<lambda>c. c\<lparr>ct_sent_count := ct_sent_count c + 1,
            ct_last_sent := Some (case ct_last_sent c of Some t \<Rightarrow> max t first_seen | None \<Rightarrow> first_seen)\<rparr>) cs
     else cs @ [\<lparr>ct_addr = addr, ct_sent_count = 1, ct_first_seen = first_seen, ct_last_sent = Some first_seen\<rparr>])"

definition seed_contacts :: "string list \<Rightarrow> instant \<Rightarrow> 'c mail_store \<Rightarrow> 'c mail_store" where
  "seed_contacts recipients first_seen s = s\<lparr>ms_contacts := fold (seed_contact first_seen) recipients (ms_contacts s)\<rparr>"

definition bump_unsub_violation :: "string \<Rightarrow> instant \<Rightarrow> 'c mail_store \<Rightarrow> 'c mail_store" where
  "bump_unsub_violation from_addr received s = (let sender = to_ascii_lowercase (trim from_addr)
     in if sender = [] then s
        else s\<lparr>ms_unsubscribes := update_where
          (\<lambda>u. un_sender u = sender \<and> \<not> un_resolved u \<and> un_requested u + hours 72 < received)
          (\<lambda>u. u\<lparr>un_violations := un_violations u + 1, un_last := Some received\<rparr>) (ms_unsubscribes s)\<rparr>)"

definition ingest_message :: "'c triaged_message \<Rightarrow> 'c mail_store \<Rightarrow> 'c mail_store" where
  "ingest_message t s = (let msg = tm_message t;
       s = upsert_message msg (tm_eligible t) s;
       s = seed_contacts (tm_recipients t) (nm_received msg) s
     in if \<not> nm_sent msg then bump_unsub_violation (nm_from msg) (nm_received msg) s else s)"

definition read_sync_state :: "string \<Rightarrow> 'c mail_store \<Rightarrow> sync_state option" where
  "read_sync_state key s = map_of (ms_sync s) key"

definition set_sync_state :: "string \<Rightarrow> sync_state \<Rightarrow> 'c mail_store \<Rightarrow> 'c mail_store" where
  "set_sync_state key v s = s\<lparr>ms_sync := AList.update key v (ms_sync s)\<rparr>"

section \<open>What Gmail answers\<close>

text \<open>The requests, one a URL that the engine builds.\<close>

datatype request =
    History_list nat string "string option"
  | Messages_list string "string option" "string option"
  | Message_get string
  | Get_profile

record history_record =
  hr_id :: "string option"
  hr_added :: "string list"

record history_page =
  hp_history :: "history_record list"
  hp_next :: "string option"
  hp_history_id :: "string option"

record list_page =
  lp_messages :: "string list"
  lp_next :: "string option"

record gmail_message =
  gm_id :: string
  gm_thread :: "string option"
  gm_raw :: "string option"
  gm_date :: "string option"

datatype payload = History_page history_page | List_page list_page | Mail_payload gmail_message | Profile_payload string

definition as_history :: "payload \<Rightarrow> history_page option" where
  "as_history p = (case p of History_page h \<Rightarrow> Some h | _ \<Rightarrow> None)"

definition as_list :: "payload \<Rightarrow> list_page option" where
  "as_list p = (case p of List_page l \<Rightarrow> Some l | _ \<Rightarrow> None)"

definition as_mail :: "payload \<Rightarrow> gmail_message option" where
  "as_mail p = (case p of Mail_payload m \<Rightarrow> Some m | _ \<Rightarrow> None)"

definition as_profile :: "payload \<Rightarrow> string option" where
  "as_profile p = (case p of Profile_payload h \<Rightarrow> Some h | _ \<Rightarrow> None)"

section \<open>The engine\<close>

datatype ingest_origin = Backfill | Incremental

datatype mailbox = Inbox | Sent | Spam

definition LABEL_INBOX :: string where "LABEL_INBOX = ''INBOX''"

definition LABEL_SENT :: string where "LABEL_SENT = ''SENT''"

definition LABEL_SPAM :: string where "LABEL_SPAM = ''SPAM''"

definition HISTORY_KEY :: string where "HISTORY_KEY = ''history''"

record raw_fetched =
  rf_gid :: string
  rf_thread :: "string option"
  rf_raw :: "8 word list"
  rf_date :: "instant option"
  rf_sent :: bool
  rf_spam :: bool

text \<open>What the parser finds: the sender, the date, the recipients that may become contacts, all of them for display.\<close>

record 'c parsed_mail =
  pl_from :: string
  pl_received :: "instant option"
  pl_recipients :: "string list"
  pl_to_addrs :: "string option"
  pl_content :: 'c

text \<open>The configuration and the world: the clock is read by the number of exchanges so far.\<close>

record 'c env =
  v_net :: "nat \<Rightarrow> request \<Rightarrow> payload outcome"
  v_clock :: "nat \<Rightarrow> instant"
  v_b64 :: "bool \<Rightarrow> string \<Rightarrow> 8 word list option"
  v_date :: "string \<Rightarrow> instant option"
  v_parse :: "8 word list \<Rightarrow> 'c parsed_mail"
  v_days :: nat
  v_spam_max :: nat
  v_notify :: notify_config

record 'c engine =
  en_store :: "'c mail_store"
  en_calls :: nat
  en_wake :: bool

text \<open>The \<open>?\<close> of Rust, on a walk that may never end.\<close>

definition attempt :: "((sync_error + 'a) \<times> 's) option \<Rightarrow> ('a \<Rightarrow> 's \<Rightarrow> ((sync_error + 'b) \<times> 's) option) \<Rightarrow> ((sync_error + 'b) \<times> 's) option" where
  "attempt m f = (case m of None \<Rightarrow> None | Some (Inl e, s) \<Rightarrow> Some (Inl e, s) | Some (Inr a, s) \<Rightarrow> f a s)"

lemma attempt_Some: "attempt m f = Some (r, s') \<longleftrightarrow>
    (\<exists>e. m = Some (Inl e, s') \<and> r = Inl e) \<or> (\<exists>a s. m = Some (Inr a, s) \<and> f a s = Some (r, s'))"
  by (auto simp: attempt_def split: option.splits sum.splits)

definition call :: "'c env \<Rightarrow> gmail_retry \<Rightarrow> (payload \<Rightarrow> 'a option) \<Rightarrow> request \<Rightarrow> 'c engine \<Rightarrow> (sync_error + 'a) \<times> 'c engine" where
  "call env retry decode req en =
     (let (res, n, _) = get_json_with_retry (\<lambda>k. v_net env k req) retry (en_calls en)
      in ((case res of Inl e \<Rightarrow> Inl e | Inr p \<Rightarrow> (case decode p of Some a \<Rightarrow> Inr a | None \<Rightarrow> Inl Api_failure)), en\<lparr>en_calls := n\<rparr>))"

definition MAX_RAW_BYTES :: nat where
  "MAX_RAW_BYTES = 64 * 1024 * 1024"

definition decode_raw_b64url :: "(bool \<Rightarrow> string \<Rightarrow> 8 word list option) \<Rightarrow> string \<Rightarrow> 8 word list option" where
  "decode_raw_b64url b64 s = (let t = trim s in if MAX_RAW_BYTES < byte_len t div 4 * 3 then None
     else case b64 False t of Some bytes \<Rightarrow> Some bytes | None \<Rightarrow> b64 True t)"

datatype history_decision = Walk_from nat | Full_catch_up

definition history_poll_decision :: "nat option \<Rightarrow> bool \<Rightarrow> history_decision" where
  "history_poll_decision cursor expired = (case cursor of
     Some i \<Rightarrow> if 0 < i \<and> \<not> expired then Walk_from i else Full_catch_up | None \<Rightarrow> Full_catch_up)"

definition advance_history_cursor :: "nat \<Rightarrow> nat list \<Rightarrow> nat" where
  "advance_history_cursor current observed = fold max observed current"

definition subtract_ids :: "string list \<Rightarrow> string list \<Rightarrow> string list" where
  "subtract_ids ids claimed = filter (\<lambda>i. i \<notin> set claimed) ids"

definition load_history_cursor :: "'c mail_store \<Rightarrow> nat option" where
  "load_history_cursor s = map_option ss_last_uid (read_sync_state HISTORY_KEY s)"

definition store_history_cursor :: "nat \<Rightarrow> 'c engine \<Rightarrow> 'c engine" where
  "store_history_cursor history_id en =
     en\<lparr>en_store := set_sync_state HISTORY_KEY \<lparr>ss_uidvalidity = 0, ss_last_uid = history_id\<rparr> (en_store en)\<rparr>"

section \<open>Fetching and storing\<close>

definition ingest_with_rules :: "(8 word list \<Rightarrow> 'c parsed_mail) \<Rightarrow> raw_fetched \<Rightarrow> instant \<Rightarrow> 'c triaged_message" where
  "ingest_with_rules parse f now = (let p = parse (rf_raw f)
     in \<lparr>tm_message = \<lparr>nm_gid = rf_gid f, nm_from = pl_from p,
            nm_received = (case pl_received p of Some t \<Rightarrow> t | None \<Rightarrow> case rf_date f of Some t \<Rightarrow> t | None \<Rightarrow> now),
            nm_sent = rf_sent f, nm_spam = rf_spam f, nm_to_addrs = (if rf_sent f then pl_to_addrs p else None), nm_content = pl_content p\<rparr>,
         tm_recipients = (if rf_sent f then pl_recipients p else []), tm_eligible = None, tm_foreground = False\<rparr>)"

definition notify_eligible_stamp :: "'c triaged_message \<Rightarrow> ingest_origin \<Rightarrow> notify_config \<Rightarrow> instant \<Rightarrow> instant option" where
  "notify_eligible_stamp t origin cfg now =
     (if origin = Incremental \<and> \<not> nm_sent (tm_message t) \<and> is_fresh (nm_received (tm_message t)) cfg now then Some now else None)"

definition ingest_one :: "'c env \<Rightarrow> raw_fetched \<Rightarrow> instant \<Rightarrow> ingest_origin \<Rightarrow> 'c mail_store \<Rightarrow> 'c mail_store" where
  "ingest_one env f now origin s = (let t = ingest_with_rules (v_parse env) f now
     in ingest_message (t\<lparr>tm_eligible := notify_eligible_stamp t origin (v_notify env) now,
          tm_foreground := origin = Incremental \<and> \<not> nm_sent (tm_message t) \<and> \<not> nm_spam (tm_message t)\<rparr>) s)"

definition raw_of :: "'c env \<Rightarrow> gmail_message \<Rightarrow> 8 word list option" where
  "raw_of env msg = (case gm_raw msg of None \<Rightarrow> None | Some r \<Rightarrow> decode_raw_b64url (v_b64 env) r)"

definition stored_id :: "string \<Rightarrow> gmail_message \<Rightarrow> string" where
  "stored_id gid msg = (if gm_id msg = [] then gid else gm_id msg)"

fun fetch_each ::
    "'c env \<Rightarrow> mailbox \<Rightarrow> ingest_origin \<Rightarrow> gmail_retry \<Rightarrow> string list \<Rightarrow> nat \<Rightarrow> 'c engine \<Rightarrow> (sync_error + nat) \<times> 'c engine" where
  "fetch_each env mailbox origin retry [] tally en = (Inr tally, en)"
| "fetch_each env mailbox origin retry (gid # ids) tally en = (case call env retry as_mail (Message_get gid) en of
     (Inl e, en) \<Rightarrow> (Inl e, en)
   | (Inr msg, en) \<Rightarrow> (case raw_of env msg of
         None \<Rightarrow> fetch_each env mailbox origin retry ids tally en
       | Some raw \<Rightarrow> let f = \<lparr>rf_gid = stored_id gid msg, rf_thread = gm_thread msg, rf_raw = raw,
               rf_date = Option.bind (gm_date msg) (v_date env), rf_sent = (mailbox = Sent), rf_spam = (mailbox = Spam)\<rparr>
           in fetch_each env mailbox origin retry ids (Suc tally)
                (en\<lparr>en_store := ingest_one env f (v_clock env (en_calls en)) origin (en_store en)\<rparr>)))"

definition fetch_raw_and_ingest ::
    "'c env \<Rightarrow> string list \<Rightarrow> mailbox \<Rightarrow> ingest_origin \<Rightarrow> gmail_retry \<Rightarrow> 'c engine \<Rightarrow> ((sync_error + nat) \<times> 'c engine) option" where
  "fetch_raw_and_ingest env ids mailbox origin retry en = Some (case fetch_each env mailbox origin retry ids 0 en of
     (Inl e, en) \<Rightarrow> (Inl e, en)
   | (Inr tally, en) \<Rightarrow> (Inr tally, if 0 < tally \<and> origin = Incremental then en\<lparr>en_wake := True\<rparr> else en))"

section \<open>Listing\<close>

text \<open>Both walks over pages, the first with the ids so far and an optional cap.\<close>

partial_function (option) list_pages ::
    "'c env \<Rightarrow> gmail_retry \<Rightarrow> string \<Rightarrow> string option \<Rightarrow> nat option \<Rightarrow> string option \<Rightarrow> string list \<Rightarrow> 'c engine
       \<Rightarrow> ((sync_error + string list) \<times> 'c engine) option" where
  "list_pages env retry label q cap tok ids en = (case call env retry as_list (Messages_list label q tok) en of
     (Inl e, en) \<Rightarrow> Some (Inl e, en)
   | (Inr page, en) \<Rightarrow>
       if cap \<noteq> None \<and> the cap \<le> length (ids @ lp_messages page) then Some (Inr (take (the cap) (ids @ lp_messages page)), en)
       else (case lp_next page of
           Some t \<Rightarrow> list_pages env retry label q cap (Some t) (ids @ lp_messages page) en
         | None \<Rightarrow> Some (Inr (ids @ lp_messages page), en)))"

definition list_message_ids_capped ::
    "'c env \<Rightarrow> string \<Rightarrow> string option \<Rightarrow> nat option \<Rightarrow> gmail_retry \<Rightarrow> 'c engine \<Rightarrow> ((sync_error + string list) \<times> 'c engine) option" where
  "list_message_ids_capped env label q cap retry en = list_pages env retry label q cap None [] en"

definition observed_ids :: "history_page \<Rightarrow> nat list" where
  "observed_ids page = map parse_history_id (List.map_filter hr_id (hp_history page) @ (case hp_history_id page of Some h \<Rightarrow> [h] | None \<Rightarrow> []))"

definition added_ids :: "history_page \<Rightarrow> string list" where
  "added_ids page = concat (map hr_added (hp_history page))"

partial_function (option) history_pages ::
    "'c env \<Rightarrow> nat \<Rightarrow> string \<Rightarrow> nat \<Rightarrow> string option \<Rightarrow> string list \<Rightarrow> 'c engine
       \<Rightarrow> ((sync_error + string list \<times> nat) \<times> 'c engine) option" where
  "history_pages env start label cursor tok ids en = (case call env No_retry as_history (History_list start label tok) en of
     (Inl e, en) \<Rightarrow> Some (Inl e, en)
   | (Inr page, en) \<Rightarrow> (case hp_next page of
         Some t \<Rightarrow> history_pages env start label (advance_history_cursor cursor (observed_ids page)) (Some t) (ids @ added_ids page) en
       | None \<Rightarrow> Some (Inr (remdups (sort (ids @ added_ids page)), advance_history_cursor cursor (observed_ids page)), en)))"

definition history_walk_label :: "'c env \<Rightarrow> nat \<Rightarrow> string \<Rightarrow> 'c engine \<Rightarrow> ((sync_error + string list \<times> nat) \<times> 'c engine) option" where
  "history_walk_label env start label en = history_pages env start label start None [] en"

section \<open>Polls\<close>

text \<open>The half of a walk for mail sent from elsewhere, and the one commit of the cursor. A failure holds the cursor.\<close>

definition sent_walk :: "'c env \<Rightarrow> nat \<Rightarrow> string list \<Rightarrow> nat \<Rightarrow> 'c engine \<Rightarrow> ((sync_error + unit) \<times> 'c engine) option" where
  "sent_walk env start inbox_ids inbox_cursor en = (case history_walk_label env start LABEL_SENT en of
       None \<Rightarrow> None
     | Some (Inl e, en) \<Rightarrow> Some (if e = Not_found then Inl Not_found else Inr (), en)
     | Some (Inr (sent_ids, sent_cursor), en) \<Rightarrow>
         (case fetch_raw_and_ingest env (subtract_ids sent_ids inbox_ids) Sent Incremental No_retry en of
            None \<Rightarrow> None
          | Some (Inl e, en) \<Rightarrow> Some (Inr (), en)
          | Some (Inr _, en) \<Rightarrow>
              Some (Inr (), store_history_cursor (advance_history_cursor start [inbox_cursor, sent_cursor]) en)))"

definition history_walk :: "'c env \<Rightarrow> nat \<Rightarrow> 'c engine \<Rightarrow> ((sync_error + unit) \<times> 'c engine) option" where
  "history_walk env start en = attempt (history_walk_label env start LABEL_INBOX en) (\<lambda>(inbox_ids, inbox_cursor) en.
     attempt (fetch_raw_and_ingest env inbox_ids Inbox Incremental No_retry en) (\<lambda>_ en.
       sent_walk env start inbox_ids inbox_cursor en))"

definition window_query :: "'c env \<Rightarrow> string option" where
  "window_query env = Some (''newer_than:'' @ show_nat (v_days env) @ ''d'')"

definition fetch_profile_history_id :: "'c env \<Rightarrow> 'c engine \<Rightarrow> ((sync_error + nat) \<times> 'c engine) option" where
  "fetch_profile_history_id env en = Some (case call env Catch_up as_profile Get_profile en of
     (Inl e, en) \<Rightarrow> (Inl e, en) | (Inr h, en) \<Rightarrow> (Inr (parse_history_id h), en))"

definition backfill_inner :: "'c env \<Rightarrow> 'c engine \<Rightarrow> ((sync_error + unit) \<times> 'c engine) option" where
  "backfill_inner env en =
     attempt (list_message_ids_capped env LABEL_INBOX (window_query env) None Catch_up en) (\<lambda>inbox_ids en.
     attempt (fetch_raw_and_ingest env inbox_ids Inbox Backfill Catch_up en) (\<lambda>_ en.
     attempt (list_message_ids_capped env LABEL_SENT (window_query env) None Catch_up en) (\<lambda>sent_ids en.
     attempt (fetch_raw_and_ingest env sent_ids Sent Backfill Catch_up en) (\<lambda>_ en.
     attempt (fetch_profile_history_id env en) (\<lambda>history_id en. Some (Inr (), store_history_cursor history_id en))))))"

definition catch_up_inner :: "'c env \<Rightarrow> 'c engine \<Rightarrow> ((sync_error + unit) \<times> 'c engine) option" where
  "catch_up_inner env en =
     attempt (list_message_ids_capped env LABEL_INBOX (window_query env) None Catch_up en) (\<lambda>ids en.
     attempt (fetch_raw_and_ingest env ids Inbox Incremental Catch_up en) (\<lambda>_ en.
     attempt (list_message_ids_capped env LABEL_SENT (window_query env) None Catch_up en) (\<lambda>sent_ids en.
     attempt (fetch_raw_and_ingest env (subtract_ids sent_ids ids) Sent Incremental Catch_up en) (\<lambda>_ en.
     attempt (fetch_profile_history_id env en) (\<lambda>history_id en. Some (Inr (), store_history_cursor history_id en))))))"

definition poll_once :: "'c env \<Rightarrow> 'c engine \<Rightarrow> ((sync_error + unit) \<times> 'c engine) option" where
  "poll_once env en = (case history_poll_decision (load_history_cursor (en_store en)) False of
     Walk_from start \<Rightarrow> (case history_walk env start en of
         Some (Inl e, en) \<Rightarrow> if e = Not_found then catch_up_inner env en else Some (Inl e, en)
       | out \<Rightarrow> out)
   | Full_catch_up \<Rightarrow> catch_up_inner env en)"

definition sync_spam_window :: "'c env \<Rightarrow> 'c engine \<Rightarrow> ((sync_error + nat) \<times> 'c engine) option" where
  "sync_spam_window env en =
     attempt (list_message_ids_capped env LABEL_SPAM (window_query env) (Some (v_spam_max env)) No_retry en) (\<lambda>ids en.
     attempt (fetch_raw_and_ingest env ids Spam Backfill No_retry en) (\<lambda>n en.
       Some (Inr n, en\<lparr>en_store := (en_store en)\<lparr>ms_spam_synced := Some (v_clock env (en_calls en))\<rparr>\<rparr>)))"

text \<open>How a lifecycle begins: without a cursor with a backfill, after it with the polls.\<close>

definition start_lifecycle :: "'c env \<Rightarrow> 'c engine \<Rightarrow> ((sync_error + unit) \<times> 'c engine) option" where
  "start_lifecycle env en = (if load_history_cursor (en_store en) = None then backfill_inner env en else Some (Inr (), en))"

section \<open>Executions\<close>

text \<open>What the driver does, in any order: an error ends a lifecycle and another begins; what was stored stays.\<close>

datatype command = Begin | Poll | Spam_asked

definition step :: "'c env \<Rightarrow> command \<Rightarrow> 'c engine \<Rightarrow> 'c engine option" where
  "step env c en = (case c of
     Begin \<Rightarrow> map_option snd (start_lifecycle env en)
   | Poll \<Rightarrow> map_option snd (poll_once env en)
   | Spam_asked \<Rightarrow> map_option snd (sync_spam_window env en))"

fun exec :: "'c env \<Rightarrow> command list \<Rightarrow> 'c engine \<Rightarrow> 'c engine option" where
  "exec env [] en = Some en"
| "exec env (c # cs) en = Option.bind (step env c en) (exec env cs)"

section \<open>Small steps\<close>

text \<open>Everything an operation does is some of these, whatever Gmail answers.\<close>

inductive micro :: "'c env \<Rightarrow> ingest_origin set \<Rightarrow> 'c engine \<Rightarrow> 'c engine \<Rightarrow> bool" for env origins where
  exchange: "en_calls en \<le> n \<Longrightarrow> micro env origins en (en\<lparr>en_calls := n\<rparr>)"
| wake: "micro env origins en (en\<lparr>en_wake := True\<rparr>)"
| ingest: "origin \<in> origins \<Longrightarrow> micro env origins en (en\<lparr>en_store := ingest_one env f now origin (en_store en)\<rparr>)"
| cursor: "micro env origins en (store_history_cursor h en)"
| spam_stamp: "micro env origins en (en\<lparr>en_store := (en_store en)\<lparr>ms_spam_synced := t\<rparr>\<rparr>)"

abbreviation micros :: "'c env \<Rightarrow> ingest_origin set \<Rightarrow> 'c engine \<Rightarrow> 'c engine \<Rightarrow> bool" where
  "micros env origins \<equiv> (micro env origins)\<^sup>*\<^sup>*"

lemma call_calls: "call env retry decode req en = (r, en') \<Longrightarrow> \<exists>n. en' = en\<lparr>en_calls := n\<rparr> \<and> en_calls en < n"
proof -
  assume c: "call env retry decode req en = (r, en')"
  obtain res n sleeps where g: "get_attempts (\<lambda>k. v_net env k req) retry (secs 1) 0 (en_calls en) = (res, n, sleeps)"
    by (cases "get_attempts (\<lambda>k. v_net env k req) retry (secs 1) 0 (en_calls en)")
  have "(0::duration) \<le> secs 1" by (simp add: secs_def)
  from get_attempts_bounds [OF g this] have "en_calls en < n" by blast
  moreover have "en' = en\<lparr>en_calls := n\<rparr>" using c unfolding call_def get_json_with_retry_def g by simp
  ultimately show ?thesis by blast
qed

lemma call_micro: "call env retry decode req en = (r, en') \<Longrightarrow> micros env origins en en'"
  by (drule call_calls) (auto intro!: r_into_rtranclp exchange)

lemma fetch_each_micro:
  "fetch_each env mailbox origin retry ids tally en = (r, en') \<Longrightarrow> origin \<in> origins \<Longrightarrow> micros env origins en en'"
proof (induction env mailbox origin retry ids tally en arbitrary: r en' rule: fetch_each.induct)
  case (2 env mailbox origin retry gid ids tally en)
  obtain out en1 where c: "call env retry as_mail (Message_get gid) en = (out, en1)" by (cases "call env retry as_mail (Message_get gid) en")
  have s1: "micros env origins en en1" by (rule call_micro [OF c])
  show ?case
  proof (cases out)
    case (Inl e)
    then show ?thesis using 2(3) s1 c by simp
  next
    case (Inr msg)
    show ?thesis
    proof (cases "raw_of env msg")
      case None
      have "micros env origins en1 en'" by (rule 2(1) [OF c [symmetric] Inr None]) (use 2(3,4) c Inr None in simp_all)
      with s1 show ?thesis by simp
    next
      case (Some raw)
      let ?f = "\<lparr>rf_gid = stored_id gid msg, rf_thread = gm_thread msg, rf_raw = raw,
               rf_date = Option.bind (gm_date msg) (v_date env), rf_sent = (mailbox = Sent), rf_spam = (mailbox = Spam)\<rparr>"
      let ?en2 = "en1\<lparr>en_store := ingest_one env ?f (v_clock env (en_calls en1)) origin (en_store en1)\<rparr>"
      have "micros env origins ?en2 en'" by (rule 2(2) [OF c [symmetric] Inr Some refl]) (use 2(3,4) c Inr Some in \<open>simp_all add: Let_def\<close>)
      moreover have "micro env origins en1 ?en2" by (rule ingest [OF 2(4)])
      ultimately show ?thesis using s1 by (meson rtranclp.rtrancl_into_rtrancl rtranclp_trans)
    qed
  qed
qed simp

lemma fetch_micro:
  assumes "fetch_raw_and_ingest env ids mailbox origin retry en = Some (r, en')" "origin \<in> origins"
  shows "micros env origins en en'"
proof -
  obtain out en1 where f: "fetch_each env mailbox origin retry ids 0 en = (out, en1)" by (cases "fetch_each env mailbox origin retry ids 0 en")
  have "micros env origins en en1" by (rule fetch_each_micro [OF f assms(2)])
  moreover have "en' = en1 \<or> en' = en1\<lparr>en_wake := True\<rparr>" using assms(1) f by (auto simp: fetch_raw_and_ingest_def split: sum.splits)
  ultimately show ?thesis using wake [of env origins en1] by (auto intro: rtranclp.rtrancl_into_rtrancl)
qed

lemma list_pages_micro: "list_pages env retry label q cap tok ids en = Some (r, en') \<Longrightarrow> micros env origins en en'"
proof -
  have "micros env origins en (snd y)" if "list_pages env retry label q cap tok ids en = Some y" for y
    using that
  proof (induction env retry label q cap tok ids en y rule: list_pages.raw_induct [rotated, consumes 1])
    case (1 list_pages env retry label q cap tok ids en y)
    obtain out en1 where c: "call env retry as_list (Messages_list label q tok) en = (out, en1)"
      by (cases "call env retry as_list (Messages_list label q tok) en")
    have s1: "micros env origins en en1" by (rule call_micro [OF c])
    have "snd y = en1 \<or> (\<exists>t ids'. list_pages env retry label q cap (Some t) ids' en1 = Some y)"
      using 1(2) c by (auto split: sum.splits if_splits option.splits)
    then show ?case by (elim disjE exE) (simp add: s1, rule rtranclp_trans [OF s1 1(1)])
  qed
  from this [of "(r, en')"] show "list_pages env retry label q cap tok ids en = Some (r, en') \<Longrightarrow> ?thesis" by simp
qed

lemma history_pages_micro: "history_pages env start label cursor tok ids en = Some (r, en') \<Longrightarrow> micros env origins en en'"
proof -
  have "micros env origins en (snd y)" if "history_pages env start label cursor tok ids en = Some y" for y
    using that
  proof (induction env start label cursor tok ids en y rule: history_pages.raw_induct [rotated, consumes 1])
    case (1 history_pages env start label cursor tok ids en y)
    obtain out en1 where c: "call env No_retry as_history (History_list start label tok) en = (out, en1)"
      by (cases "call env No_retry as_history (History_list start label tok) en")
    have s1: "micros env origins en en1" by (rule call_micro [OF c])
    have "snd y = en1 \<or> (\<exists>cursor' t ids'. history_pages env start label cursor' (Some t) ids' en1 = Some y)"
      using 1(2) c by (auto split: sum.splits option.splits)
    then show ?case by (elim disjE exE) (simp add: s1, rule rtranclp_trans [OF s1 1(1)])
  qed
  from this [of "(r, en')"] show "history_pages env start label cursor tok ids en = Some (r, en') \<Longrightarrow> ?thesis" by simp
qed

lemma listing_micro:
  "list_message_ids_capped env label q cap retry en = Some (r, en') \<Longrightarrow> micros env origins en en'"
  "history_walk_label env start label en = Some (r', en') \<Longrightarrow> micros env origins en en'"
  "fetch_profile_history_id env en = Some (r'', en') \<Longrightarrow> micros env origins en en'"
  by (auto simp: list_message_ids_capped_def history_walk_label_def fetch_profile_history_id_def
      intro: list_pages_micro history_pages_micro call_micro split: sum.splits prod.splits)

lemmas fetch_any_micro = fetch_micro [of _ _ _ _ _ _ _ _ UNIV, OF _ UNIV_I]

lemma cursor_micros: "micros env origins en (store_history_cursor h en)"
  by (rule r_into_rtranclp, rule cursor)

text \<open>A chain of attempts is a chain of small steps.\<close>

lemma attempt_micros:
  assumes "attempt m f = Some (r, en')" "\<And>a en1. m = Some (a, en1) \<Longrightarrow> micros env origins en en1"
    "\<And>a en1. m = Some (Inr a, en1) \<Longrightarrow> f a en1 = Some (r, en') \<Longrightarrow> micros env origins en1 en'"
  shows "micros env origins en en'"
proof -
  from assms(1) consider e where "m = Some (Inl e, en')" | a s where "m = Some (Inr a, s)" "f a s = Some (r, en')"
    unfolding attempt_Some by blast
  then show ?thesis
  proof cases
    case 1
    then show ?thesis by (rule assms(2))
  next
    case 2
    show ?thesis by (rule rtranclp_trans [OF assms(2) [OF 2(1)] assms(3) [OF 2]])
  qed
qed

lemma backfill_micro: "backfill_inner env en = Some (r, en') \<Longrightarrow> micros env {Backfill} en en'"
  unfolding backfill_inner_def
  by (elim attempt_micros) (auto intro: listing_micro fetch_micro cursor_micros)

lemma catch_up_micro: "catch_up_inner env en = Some (r, en') \<Longrightarrow> micros env {Incremental} en en'"
  unfolding catch_up_inner_def
  by (elim attempt_micros) (auto intro: listing_micro fetch_micro cursor_micros)

lemma sent_walk_micro: "sent_walk env start inbox_ids inbox_cursor en = Some (r, en') \<Longrightarrow> micros env {Incremental} en en'"
  unfolding sent_walk_def
  by (auto split: option.splits sum.splits prod.splits intro: rtranclp_trans rtranclp.rtrancl_into_rtrancl cursor
      dest!: listing_micro(2) [where origins = "{Incremental}"] fetch_micro [where origins = "{Incremental}"])

lemma walk_micro: "history_walk env start en = Some (r, en') \<Longrightarrow> micros env {Incremental} en en'"
  unfolding history_walk_def
  by (elim attempt_micros) (auto intro: listing_micro fetch_micro sent_walk_micro elim: attempt_micros)

lemma poll_micro: "poll_once env en = Some (r, en') \<Longrightarrow> micros env {Incremental} en en'"
  by (auto simp: poll_once_def split: history_decision.splits option.splits sum.splits if_splits
      intro: walk_micro catch_up_micro rtranclp_trans [OF walk_micro catch_up_micro])

lemma spam_micro: "sync_spam_window env en = Some (r, en') \<Longrightarrow> micros env {Backfill} en en'"
  unfolding sync_spam_window_def
  by (elim attempt_micros) (auto intro: listing_micro fetch_micro r_into_rtranclp spam_stamp)

lemma micro_mono: "micro env origins en en' \<Longrightarrow> origins \<subseteq> origins' \<Longrightarrow> micro env origins' en en'"
  by (induction rule: micro.induct) (auto intro: micro.intros)

lemma micros_UNIV: "micros env origins en en' \<Longrightarrow> micros env UNIV en en'"
  by (induction rule: rtranclp_induct) (auto intro: rtranclp.rtrancl_into_rtrancl dest: micro_mono [OF _ subset_UNIV])

lemma step_micro: "step env c en = Some en' \<Longrightarrow> micros env UNIV en en'"
  by (auto simp: step_def start_lifecycle_def split: command.splits if_splits
      intro: micros_UNIV backfill_micro poll_micro spam_micro)

lemma exec_micro: "exec env cs en = Some en' \<Longrightarrow> micros env UNIV en en'"
  by (induction env cs en rule: exec.induct) (auto simp: bind_eq_Some_conv intro: rtranclp_trans step_micro)

section \<open>What no step takes back\<close>

definition wf_mail :: "'c mail_store \<Rightarrow> bool" where
  "wf_mail s \<longleftrightarrow> distinct (map mr_gid (ms_rows s)) \<and> distinct (map mr_id (ms_rows s))"

text \<open>A row keeps its id and its stamp, and shows no less than before.\<close>

definition gains :: "'c mail_store \<Rightarrow> 'c mail_store \<Rightarrow> bool" where
  "gains s s' \<longleftrightarrow> (\<forall>r \<in> set (ms_rows s). \<exists>r' \<in> set (ms_rows s'). mr_id r' = mr_id r \<and> mr_gid r' = mr_gid r
     \<and> (mr_sent r' \<longrightarrow> mr_sent r) \<and> (mr_spam r' \<longrightarrow> mr_spam r) \<and> mr_eligible r' = mr_eligible r)"

lemma gains_refl: "ms_rows s = ms_rows s' \<Longrightarrow> gains s s'"
  by (auto simp: gains_def)

lemma gains_trans: "gains a b \<Longrightarrow> gains b c \<Longrightarrow> gains a c"
  unfolding gains_def by (metis (no_types, lifting))

lemma rows_after [simp]:
  "ms_rows (seed_contacts rs t s) = ms_rows s" "ms_rows (bump_unsub_violation a t s) = ms_rows s"
  "ms_rows (set_sync_state k v s) = ms_rows s"
  by (simp_all add: seed_contacts_def bump_unsub_violation_def Let_def set_sync_state_def)

lemma rows_ingest: "ms_rows (ingest_message t s) = ms_rows (upsert_message (tm_message t) (tm_eligible t) s)"
  by (simp add: ingest_message_def Let_def)

lemma merge_row_simps [simp]:
  "mr_id (merge_row m r) = mr_id r" "mr_gid (merge_row m r) = mr_gid r" "mr_eligible (merge_row m r) = mr_eligible r"
  "mr_sent (merge_row m r) \<longleftrightarrow> mr_sent r \<and> nm_sent m" "mr_spam (merge_row m r) \<longleftrightarrow> mr_spam r \<and> nm_spam m"
  by (simp_all add: merge_row_def)

lemma map_update_where: "(\<And>r. k (f r) = k r) \<Longrightarrow> map k (update_where p f rs) = map k rs"
  by (auto simp: update_where_def)

lemma upsert_wf: "wf_mail s \<Longrightarrow> wf_mail (upsert_message m t s)"
proof (cases "has_mail (nm_gid m) s")
  case False
  assume "wf_mail s"
  moreover have "fresh_id (map mr_id (ms_rows s)) \<notin> mr_id ` set (ms_rows s)"
    using fresh_id_new [of _ "map mr_id (ms_rows s)"] by (metis image_set less_irrefl)
  ultimately show ?thesis using False by (auto simp: wf_mail_def upsert_message_def has_mail_def)
qed (simp add: wf_mail_def upsert_message_def map_update_where)

lemma upsert_gains: "gains s (upsert_message m t s)"
proof (cases "has_mail (nm_gid m) s")
  case True
  then have rows: "set (ms_rows (upsert_message m t s)) = (\<lambda>r. if mr_gid r = nm_gid m then merge_row m r else r) ` set (ms_rows s)"
    by (simp add: upsert_message_def set_update_where)
  show ?thesis
    unfolding gains_def rows
  proof
    fix r assume "r \<in> set (ms_rows s)"
    then show "\<exists>r' \<in> (\<lambda>r. if mr_gid r = nm_gid m then merge_row m r else r) ` set (ms_rows s). mr_id r' = mr_id r \<and> mr_gid r' = mr_gid r
        \<and> (mr_sent r' \<longrightarrow> mr_sent r) \<and> (mr_spam r' \<longrightarrow> mr_spam r) \<and> mr_eligible r' = mr_eligible r"
      by (intro bexI [of _ "if mr_gid r = nm_gid m then merge_row m r else r"]) auto
  qed
qed (auto simp: gains_def upsert_message_def)

lemma micro_store:
  assumes "micro env origins en en'" "wf_mail (en_store en)"
  shows "wf_mail (en_store en') \<and> gains (en_store en) (en_store en') \<and> en_calls en \<le> en_calls en'"
  using assms
proof (induction rule: micro.induct)
  case (ingest origin en f now)
  have "ms_rows (ingest_one env f now origin (en_store en)) = ms_rows (upsert_message m t (en_store en))"
    if "m = tm_message (ingest_with_rules (v_parse env) f now)"
      "t = notify_eligible_stamp (ingest_with_rules (v_parse env) f now) origin (v_notify env) now" for m t
    unfolding that by (simp add: ingest_one_def Let_def rows_ingest)
  then show ?case using upsert_wf [OF ingest(2)] upsert_gains unfolding wf_mail_def gains_def by simp
qed (simp_all add: gains_refl store_history_cursor_def wf_mail_def)

lemma micros_store:
  "micros env origins en en' \<Longrightarrow> wf_mail (en_store en)
     \<Longrightarrow> wf_mail (en_store en') \<and> gains (en_store en) (en_store en') \<and> en_calls en \<le> en_calls en'"
proof (induction rule: rtranclp_induct)
  case (step b c)
  then show ?case using micro_store [OF step(2)] by (meson gains_trans le_trans)
qed (simp add: gains_refl)

text \<open>The stamps that a backfill gives.\<close>

lemma silent_micro:
  assumes "micro env origins en en'" "origins = {Backfill}" "wf_mail (en_store en)"
  shows "\<forall>r' \<in> set (ms_rows (en_store en')). mr_eligible r' \<noteq> None
    \<longrightarrow> (\<exists>r \<in> set (ms_rows (en_store en)). mr_gid r = mr_gid r' \<and> mr_eligible r = mr_eligible r')"
  using assms
proof (induction rule: micro.induct)
  case (ingest origin en f now)
  have "notify_eligible_stamp t origin cfg now' = None" for t :: "'a triaged_message" and cfg now'
    using ingest(1,2) by (simp add: notify_eligible_stamp_def)
  then show ?case
    by (auto simp: ingest_one_def Let_def rows_ingest upsert_message_def set_update_where)
qed (auto simp: store_history_cursor_def)

lemma silent_micros:
  "micros env {Backfill} en en' \<Longrightarrow> wf_mail (en_store en)
     \<Longrightarrow> \<forall>r' \<in> set (ms_rows (en_store en')). mr_eligible r' \<noteq> None
           \<longrightarrow> (\<exists>r \<in> set (ms_rows (en_store en)). mr_gid r = mr_gid r' \<and> mr_eligible r = mr_eligible r')"
proof (induction rule: rtranclp_induct)
  case (step b c)
  have b: "wf_mail (en_store b)" using micros_store [OF step(1,4)] by blast
  show ?case
  proof (intro ballI impI)
    fix r' assume "r' \<in> set (ms_rows (en_store c))" "mr_eligible r' \<noteq> None"
    then obtain r1 where "r1 \<in> set (ms_rows (en_store b))" "mr_gid r1 = mr_gid r'" "mr_eligible r1 = mr_eligible r'" "mr_eligible r1 \<noteq> None"
      using silent_micro [OF step(2) refl b] by metis
    then show "\<exists>r \<in> set (ms_rows (en_store en)). mr_gid r = mr_gid r' \<and> mr_eligible r = mr_eligible r'" using step(3) [OF step(4)] by metis
  qed
qed auto

section \<open>The cursor\<close>

text \<open>A mail is accounted for when an exchange brought it and it was stored, or had no body that can be read.\<close>

definition accounted :: "'c env \<Rightarrow> gmail_retry \<Rightarrow> 'c engine \<Rightarrow> bool \<Rightarrow> string \<Rightarrow> bool" where
  "accounted env retry en seen gid \<longleftrightarrow> (\<exists>n < en_calls en. \<exists>msg.
     fst (call env retry as_mail (Message_get gid) (en\<lparr>en_calls := n\<rparr>)) = Inr msg
     \<and> (raw_of env msg = None \<or> (\<exists>r \<in> set (ms_rows (en_store en)). mr_gid r = stored_id gid msg \<and> (seen \<longrightarrow> \<not> mr_sent r))))"

lemma call_fst: "en_calls en = en_calls en' \<Longrightarrow> fst (call env retry decode req en) = fst (call env retry decode req en')"
  by (simp add: call_def split: prod.splits)

lemma accounted_later: "accounted env retry en seen gid \<Longrightarrow> gains (en_store en) (en_store en') \<Longrightarrow> en_calls en \<le> en_calls en'
    \<Longrightarrow> accounted env retry en' seen gid"
proof -
  assume a: "accounted env retry en seen gid" and g: "gains (en_store en) (en_store en')" "en_calls en \<le> en_calls en'"
  from a obtain n msg where n: "n < en_calls en" "fst (call env retry as_mail (Message_get gid) (en\<lparr>en_calls := n\<rparr>)) = Inr msg"
    "raw_of env msg = None \<or> (\<exists>r \<in> set (ms_rows (en_store en)). mr_gid r = stored_id gid msg \<and> (seen \<longrightarrow> \<not> mr_sent r))"
    unfolding accounted_def by blast
  have "fst (call env retry as_mail (Message_get gid) (en'\<lparr>en_calls := n\<rparr>)) = Inr msg" by (rule trans [OF call_fst n(2)]) simp
  moreover have "raw_of env msg = None \<or> (\<exists>r \<in> set (ms_rows (en_store en')). mr_gid r = stored_id gid msg \<and> (seen \<longrightarrow> \<not> mr_sent r))"
    using n(3) g(1) unfolding gains_def by metis
  ultimately show ?thesis unfolding accounted_def using n(1) g(2) by (meson less_le_trans)
qed

lemma stored_after_ingest:
  "\<exists>r \<in> set (ms_rows (ingest_one env f now origin s)). mr_gid r = rf_gid f \<and> (\<not> rf_sent f \<longrightarrow> \<not> mr_sent r)"
proof -
  define t where "t = ingest_with_rules (v_parse env) f now"
  let ?m = "tm_message t" let ?e = "notify_eligible_stamp t origin (v_notify env) now"
  have m: "nm_gid ?m = rf_gid f" "nm_sent ?m = rf_sent f" by (simp_all add: t_def ingest_with_rules_def Let_def)
  have "ms_rows (ingest_one env f now origin s) = ms_rows (upsert_message ?m ?e s)"
    by (simp add: ingest_one_def Let_def rows_ingest t_def)
  moreover have "\<exists>r \<in> set (ms_rows (upsert_message ?m ?e s)). mr_gid r = nm_gid ?m \<and> (\<not> nm_sent ?m \<longrightarrow> \<not> mr_sent r)"
  proof (cases "has_mail (nm_gid ?m) s")
    case True
    then obtain r where r: "r \<in> set (ms_rows s)" "mr_gid r = nm_gid ?m" by (auto simp: has_mail_def)
    then have "merge_row ?m r \<in> set (ms_rows (upsert_message ?m ?e s))" using True by (auto simp: upsert_message_def set_update_where)
    then show ?thesis by (rule bexI [rotated]) (simp add: r(2))
  qed (simp add: upsert_message_def)
  ultimately show ?thesis unfolding m by simp
qed

lemma fetch_each_accounts:
  "fetch_each env mailbox origin retry ids tally en = (Inr t, en') \<Longrightarrow> wf_mail (en_store en)
     \<Longrightarrow> list_all (accounted env retry en' (mailbox \<noteq> Sent)) ids"
proof (induction env mailbox origin retry ids tally en arbitrary: t en' rule: fetch_each.induct)
  case (2 env mailbox origin retry gid ids tally en)
  obtain out en1 where c: "call env retry as_mail (Message_get gid) en = (out, en1)" by (cases "call env retry as_mail (Message_get gid) en")
  obtain n where n: "en1 = en\<lparr>en_calls := n\<rparr>" "en_calls en < n" using call_calls [OF c] by blast
  obtain msg where msg: "out = Inr msg" using 2(3) c by (cases out) auto
  have got: "fst (call env retry as_mail (Message_get gid) (x\<lparr>en_calls := en_calls en\<rparr>)) = Inr msg" for x
    by (rule trans [OF call_fst [of _ en]]) (simp_all add: c msg)
  show ?case
  proof (cases "raw_of env msg")
    case None
    have rest: "fetch_each env mailbox origin retry ids tally en1 = (Inr t, en')" using 2(3) c msg None by simp
    have wf: "wf_mail (en_store en1)" using 2(4) n(1) by simp
    have m: "micros env UNIV en1 en'" by (rule fetch_each_micro [OF rest UNIV_I])
    have "accounted env retry en1 (mailbox \<noteq> Sent) gid" unfolding accounted_def using n got None by auto
    then have "accounted env retry en' (mailbox \<noteq> Sent) gid" using accounted_later micros_store [OF m wf] by blast
    with 2(1) [OF c [symmetric] msg None rest wf] show ?thesis by simp
  next
    case (Some raw)
    let ?f = "\<lparr>rf_gid = stored_id gid msg, rf_thread = gm_thread msg, rf_raw = raw,
             rf_date = Option.bind (gm_date msg) (v_date env), rf_sent = (mailbox = Sent), rf_spam = (mailbox = Spam)\<rparr>"
    let ?en2 = "en1\<lparr>en_store := ingest_one env ?f (v_clock env (en_calls en1)) origin (en_store en1)\<rparr>"
    have rest: "fetch_each env mailbox origin retry ids (Suc tally) ?en2 = (Inr t, en')" using 2(3) c msg Some by (simp add: Let_def)
    have "micro env UNIV en1 ?en2" by (rule ingest) simp
    then have wf: "wf_mail (en_store ?en2)" using micro_store [of env UNIV en1 ?en2] 2(4) n(1) by simp
    have m: "micros env UNIV ?en2 en'" by (rule fetch_each_micro [OF rest UNIV_I])
    have "accounted env retry ?en2 (mailbox \<noteq> Sent) gid"
      unfolding accounted_def using n got stored_after_ingest [of env ?f "v_clock env (en_calls en1)" origin "en_store en1"] by fastforce
    then have "accounted env retry en' (mailbox \<noteq> Sent) gid" using accounted_later micros_store [OF m wf] by blast
    with 2(2) [OF c [symmetric] msg Some refl rest wf] show ?thesis by simp
  qed
qed simp

text \<open>Listing and fetching leave the cursor where it is.\<close>

lemma history_pages_calls: "history_pages env start label cursor tok ids en = Some (r, en') \<Longrightarrow> \<exists>n. en' = en\<lparr>en_calls := n\<rparr> \<and> en_calls en < n"
proof -
  have "\<exists>n. snd y = en\<lparr>en_calls := n\<rparr> \<and> en_calls en < n" if "history_pages env start label cursor tok ids en = Some y" for y
    using that
  proof (induction env start label cursor tok ids en y rule: history_pages.raw_induct [rotated, consumes 1])
    case (1 history_pages env start label cursor tok ids en y)
    obtain out en1 where c: "call env No_retry as_history (History_list start label tok) en = (out, en1)"
      by (cases "call env No_retry as_history (History_list start label tok) en")
    obtain n where n: "en1 = en\<lparr>en_calls := n\<rparr>" "en_calls en < n" using call_calls [OF c] by blast
    have "snd y = en1 \<or> (\<exists>cursor' t ids'. history_pages env start label cursor' (Some t) ids' en1 = Some y)"
      using 1(2) c by (auto split: sum.splits option.splits)
    then show ?case
    proof (elim disjE exE)
      fix cursor' t ids' assume "history_pages env start label cursor' (Some t) ids' en1 = Some y"
      then obtain n' where "snd y = en1\<lparr>en_calls := n'\<rparr>" "en_calls en1 < n'" using 1(1) by blast
      then show ?thesis using n by (intro exI [of _ n']) simp
    qed (use n in blast)
  qed
  from this [of "(r, en')"] show "history_pages env start label cursor tok ids en = Some (r, en') \<Longrightarrow> ?thesis" by simp
qed

text \<open>The pages that Gmail served for one label, told from the exchanges alone: each answers a request at one exchange,
  or at the next when the first was a 401, and names the token of the page after it.\<close>

definition answered :: "'c env \<Rightarrow> request \<Rightarrow> nat \<Rightarrow> history_page \<Rightarrow> nat \<Rightarrow> bool" where
  "answered env req k page n \<longleftrightarrow> 0 < n \<and> (\<exists>r. v_net env (n - 1) req = Response r \<and> is_success (rs_status r) \<and> rs_json r = Some (History_page page))
     \<and> (n = Suc k \<or> n = k + 2 \<and> (\<exists>r. v_net env k req = Response r \<and> rs_status r = 401))"

inductive served :: "'c env \<Rightarrow> nat \<Rightarrow> string \<Rightarrow> string option \<Rightarrow> nat \<Rightarrow> history_page list \<Rightarrow> nat \<Rightarrow> bool" for env start label where
  last_page: "answered env (History_list start label tok) k page n \<Longrightarrow> hp_next page = None \<Longrightarrow> served env start label tok k [page] n"
| page: "answered env (History_list start label tok) k page n \<Longrightarrow> hp_next page = Some t \<Longrightarrow> served env start label (Some t) n pages m
    \<Longrightarrow> served env start label tok k (page # pages) m"

inductive_cases served_cases: "served env start label tok k pages n"

lemma call_history:
  "call env No_retry as_history req en = (Inr page, en') \<longleftrightarrow> (\<exists>n. answered env req (en_calls en) page n \<and> en' = en\<lparr>en_calls := n\<rparr>)"
proof -
  have a: "get_attempts net No_retry b 0 k = (Inr p, m, ds) \<longleftrightarrow> (\<exists>r. send_get net k = (Inr r, m) \<and> is_success (rs_status r) \<and> rs_json r = Some p \<and> ds = [])"
    for net b k m p and ds :: "duration list"
    by (subst get_attempts.simps) (auto split: prod.splits sum.splits option.splits)
  have s: "send_get net k = (Inr r, m) \<and> is_success (rs_status r) \<longleftrightarrow> 0 < m \<and> net (m - 1) = Response r \<and> is_success (rs_status r)
      \<and> (m = Suc k \<or> m = k + 2 \<and> (\<exists>r. net k = Response r \<and> rs_status r = 401))" for net k m and r :: "payload http_response"
    by (auto simp: send_get_def one_exchange_def is_success_def split: outcome.splits if_splits)
  have h: "as_history p = Some page \<longleftrightarrow> p = History_page page" for p by (auto simp: as_history_def split: payload.splits)
  let ?g = "get_attempts (\<lambda>k. v_net env k req) No_retry (secs 1) 0 (en_calls en)"
  have "call env No_retry as_history req en = (Inr page, en') \<longleftrightarrow> (\<exists>n ds. ?g = (Inr (History_page page), n, ds) \<and> en' = en\<lparr>en_calls := n\<rparr>)"
    unfolding call_def get_json_with_retry_def by (auto simp: h h [THEN iffD2, OF refl] split: prod.splits sum.splits option.splits)
  also have "\<dots> \<longleftrightarrow> (\<exists>n. answered env req (en_calls en) page n \<and> en' = en\<lparr>en_calls := n\<rparr>)"
    unfolding a answered_def using s [of "\<lambda>k. v_net env k req" "en_calls en"] by blast
  finally show ?thesis .
qed

lemma call_answered: "call env No_retry as_history req en = (Inr page, en1) \<Longrightarrow> answered env req (en_calls en) page (en_calls en1)"
  unfolding call_history by auto

lemma answered_call: "answered env req (en_calls en) page n \<Longrightarrow> call env No_retry as_history req en = (Inr page, en\<lparr>en_calls := n\<rparr>)"
  unfolding call_history by auto

text \<open>What the pages name, and what a walk over them gives.\<close>

definition listed_mail :: "history_page list \<Rightarrow> string set" where
  "listed_mail pages = {gid. \<exists>page \<in> set pages. \<exists>h \<in> set (hp_history page). gid \<in> set (hr_added h)}"

definition named_history :: "history_page list \<Rightarrow> nat set" where
  "named_history pages = parse_history_id ` {i. \<exists>page \<in> set pages. hp_history_id page = Some i \<or> (\<exists>h \<in> set (hp_history page). hr_id h = Some i)}"

lemma set_added: "set (concat (map added_ids pages)) = listed_mail pages"
  by (auto simp: listed_mail_def added_ids_def)

lemma set_observed: "set (concat (map observed_ids pages)) = named_history pages"
proof -
  have "set (observed_ids page) = parse_history_id ` {i. hp_history_id page = Some i \<or> (\<exists>h \<in> set (hp_history page). hr_id h = Some i)}" for page
    by (auto simp: observed_ids_def List.map_filter_def split: option.splits) (force intro!: image_eqI)+
  then show ?thesis by (auto simp: named_history_def)
qed

lemma finite_named: "finite (named_history pages)"
  unfolding set_observed [symmetric] by simp

lemma history_pages_served:
  "history_pages env start label cursor tok ids en = Some (Inr (gs, c), en') \<Longrightarrow>
     \<exists>pages. served env start label tok (en_calls en) pages (en_calls en') \<and> gs = remdups (sort (ids @ concat (map added_ids pages)))
       \<and> c = fold max (concat (map observed_ids pages)) cursor"
proof -
  have "fst y = Inr (gs, c) \<Longrightarrow> \<exists>pages. served env start label tok (en_calls en) pages (en_calls (snd y))
      \<and> gs = remdups (sort (ids @ concat (map added_ids pages))) \<and> c = fold max (concat (map observed_ids pages)) cursor"
    if "history_pages env start label cursor tok ids en = Some y" for y
    using that
  proof (induction env start label cursor tok ids en y rule: history_pages.raw_induct [rotated, consumes 1])
    case (1 history_pages env start label cursor tok ids en y)
    obtain out en1 where c: "call env No_retry as_history (History_list start label tok) en = (out, en1)"
      by (cases "call env No_retry as_history (History_list start label tok) en")
    show ?case
    proof (cases out)
      case (Inl e)
      then show ?thesis using 1(2,3) c by auto
    next
      case (Inr page)
      then have a: "answered env (History_list start label tok) (en_calls en) page (en_calls en1)" using c by (auto intro: call_answered)
      show ?thesis
      proof (cases "hp_next page")
        case None
        then have "y = (Inr (remdups (sort (ids @ added_ids page)), advance_history_cursor cursor (observed_ids page)), en1)"
          using 1(2) c Inr by simp
        then show ?thesis using 1(3) last_page [OF a None] by (intro exI [of _ "[page]"]) (simp add: advance_history_cursor_def)
      next
        case (Some t)
        then have "history_pages env start label (advance_history_cursor cursor (observed_ids page)) (Some t) (ids @ added_ids page) en1 = Some y"
          using 1(2) c Inr by simp
        from 1(1) [OF this 1(3)] obtain pages where p: "served env start label (Some t) (en_calls en1) pages (en_calls (snd y))"
          "gs = remdups (sort ((ids @ added_ids page) @ concat (map added_ids pages)))"
          "c = fold max (concat (map observed_ids pages)) (advance_history_cursor cursor (observed_ids page))" by blast
        show ?thesis using page [OF a Some p(1)] p(2,3) by (intro exI [of _ "page # pages"]) (simp add: advance_history_cursor_def)
      qed
    qed
  qed
  from this [of "(Inr (gs, c), en')"]
  show "history_pages env start label cursor tok ids en = Some (Inr (gs, c), en') \<Longrightarrow> ?thesis" by simp
qed

lemma served_history_pages:
  "served env start label tok k pages n \<Longrightarrow> en_calls en = k \<Longrightarrow>
     history_pages env start label cursor tok ids en = Some (Inr (remdups (sort (ids @ concat (map added_ids pages))),
       fold max (concat (map observed_ids pages)) cursor), en\<lparr>en_calls := n\<rparr>)"
proof (induction arbitrary: en cursor ids rule: served.induct)
  case (last_page tok k page n)
  then have "call env No_retry as_history (History_list start label tok) en = (Inr page, en\<lparr>en_calls := n\<rparr>)"
    by (auto intro: answered_call)
  with last_page show ?case by (simp add: history_pages.simps [of env start label cursor tok ids en] advance_history_cursor_def)
next
  case (page tok k page n t pages m)
  then have "call env No_retry as_history (History_list start label tok) en = (Inr page, en\<lparr>en_calls := n\<rparr>)"
    by (auto intro: answered_call)
  with page(2) page.IH [of "en\<lparr>en_calls := n\<rparr>"]
  show ?case by (simp add: history_pages.simps [of env start label cursor tok ids en] advance_history_cursor_def)
qed

lemma walk_label_served:
  assumes "history_walk_label env start label en = Some (Inr (gs, c), en')"
  obtains pages where "served env start label None (en_calls en) pages (en_calls en')" "set gs = listed_mail pages"
    "c = Max (insert start (named_history pages))"
proof -
  obtain pages where p: "served env start label None (en_calls en) pages (en_calls en')"
    "gs = remdups (sort ([] @ concat (map added_ids pages)))" "c = fold max (concat (map observed_ids pages)) start"
    using history_pages_served assms unfolding history_walk_label_def by blast
  have "set gs = listed_mail pages" by (simp add: p(2) set_added del: set_concat)
  moreover have "c = Max (insert start (named_history pages))"
    unfolding p(3) set_observed [symmetric] by (simp only: Max.set_eq_fold [symmetric] list.set)
  ultimately show thesis using that p(1) by blast
qed

lemma served_walk_label:
  assumes "served env start label None k pages n"
  obtains gs where "\<And>en. en_calls en = k \<Longrightarrow>
      history_walk_label env start label en = Some (Inr (gs, Max (insert start (named_history pages))), en\<lparr>en_calls := n\<rparr>)"
    "set gs = listed_mail pages"
proof
  show "history_walk_label env start label en = Some (Inr (remdups (sort ([] @ concat (map added_ids pages))),
      Max (insert start (named_history pages))), en\<lparr>en_calls := n\<rparr>)" if "en_calls en = k" for en
    unfolding history_walk_label_def served_history_pages [OF assms that] set_observed [symmetric]
    by (simp only: Max.set_eq_fold [symmetric] list.set)
qed (simp add: set_added del: set_concat)

lemma walk_label_calls: "history_walk_label env start label en = Some (r, en') \<Longrightarrow> \<exists>n. en' = en\<lparr>en_calls := n\<rparr> \<and> en_calls en < n"
  unfolding history_walk_label_def by (rule history_pages_calls)

lemma sync_ingest [simp]: "ms_sync (ingest_one env f now origin s) = ms_sync s"
  by (simp add: ingest_one_def ingest_message_def Let_def seed_contacts_def bump_unsub_violation_def upsert_message_def)

lemma fetch_each_sync:
  "fetch_each env mailbox origin retry ids tally en = (r, en') \<Longrightarrow> ms_sync (en_store en') = ms_sync (en_store en)"
proof (induction env mailbox origin retry ids tally en arbitrary: r en' rule: fetch_each.induct)
  case (2 env mailbox origin retry gid ids tally en)
  obtain out en1 where c: "call env retry as_mail (Message_get gid) en = (out, en1)" by (cases "call env retry as_mail (Message_get gid) en")
  have s: "ms_sync (en_store en1) = ms_sync (en_store en)" using call_calls [OF c] by auto
  show ?case
  proof (cases out)
    case (Inl e)
    then show ?thesis using 2(3) s c by simp
  next
    case (Inr msg)
    show ?thesis
    proof (cases "raw_of env msg")
      case None
      then show ?thesis using 2(1) [OF c [symmetric] Inr None, of r en'] 2(3) c Inr s by simp
    next
      case (Some raw)
      then show ?thesis using 2(2) [OF c [symmetric] Inr Some refl, of r en'] 2(3) c Inr s by (simp add: Let_def)
    qed
  qed
qed simp

lemma fetch_sync:
  "fetch_raw_and_ingest env ids mailbox origin retry en = Some (r, en') \<Longrightarrow> ms_sync (en_store en') = ms_sync (en_store en)"
  by (cases "fetch_each env mailbox origin retry ids 0 en")
    (auto simp: fetch_raw_and_ingest_def dest!: fetch_each_sync split: sum.splits)

lemma fetch_accounts:
  assumes "fetch_raw_and_ingest env ids mailbox origin retry en = Some (Inr t, en')" "wf_mail (en_store en)"
  shows "list_all (accounted env retry en' (mailbox \<noteq> Sent)) ids"
proof -
  obtain out en1 where f: "fetch_each env mailbox origin retry ids 0 en = (out, en1)" by (cases "fetch_each env mailbox origin retry ids 0 en")
  with assms(1) obtain k where k: "out = Inr k" "en_store en' = en_store en1" "en_calls en' = en_calls en1"
    by (cases out) (auto simp: fetch_raw_and_ingest_def split: if_splits)
  have "list_all (accounted env retry en1 (mailbox \<noteq> Sent)) ids" using fetch_each_accounts f k(1) assms(2) by blast
  then show ?thesis using accounted_later [of env retry en1 _ _ en'] k(2,3) gains_refl unfolding list_all_iff by (metis order_refl)
qed

lemma load_sync: "ms_sync s = ms_sync s' \<Longrightarrow> load_history_cursor s = load_history_cursor s'"
  by (simp add: load_history_cursor_def read_sync_state_def)

lemma load_stored [simp]: "load_history_cursor (en_store (store_history_cursor h en)) = Some h"
  by (simp add: load_history_cursor_def store_history_cursor_def read_sync_state_def set_sync_state_def map_of_update)

lemma accounted_less: "accounted env retry en True gid \<Longrightarrow> accounted env retry en seen gid"
  unfolding accounted_def by blast

lemma store_cursor_gains: "gains (en_store en) (en_store (store_history_cursor h en))" "en_calls (store_history_cursor h en) = en_calls en"
  by (simp_all add: gains_refl store_history_cursor_def)

lemma fetch_total: "\<exists>res en'. fetch_raw_and_ingest env ids mailbox origin retry en = Some (res, en')"
  by (cases "fetch_each env mailbox origin retry ids 0 en"; cases "fst (fetch_each env mailbox origin retry ids 0 en)")
    (simp_all add: fetch_raw_and_ingest_def)

lemma sent_walk_cursor:
  assumes "sent_walk env start inbox newest en = Some (r, en')" "wf_mail (en_store en)"
  shows "load_history_cursor (en_store en') = load_history_cursor (en_store en)
    \<or> (\<exists>sent newest' en1. history_walk_label env start LABEL_SENT en = Some (Inr (sent, newest'), en1) \<and> en_calls en1 \<le> en_calls en'
        \<and> list_all (accounted env No_retry en' False) (subtract_ids sent inbox)
        \<and> load_history_cursor (en_store en') = Some (max start (max newest newest')) \<and> r = Inr ())"
proof (cases "history_walk_label env start LABEL_SENT en")
  case None
  with assms(1) show ?thesis by (simp add: sent_walk_def)
next
  case (Some x)
  obtain out en1 where x: "x = (out, en1)" by (cases x)
  obtain n where n: "en1 = en\<lparr>en_calls := n\<rparr>" using walk_label_calls Some x by blast
  show ?thesis
  proof (cases out)
    case (Inl e)
    with assms(1) Some x have "en' = en1" by (simp add: sent_walk_def)
    then show ?thesis using n by simp
  next
    case (Inr p)
    obtain sent newest' where p: "p = (sent, newest')" by (cases p)
    obtain res en2 where f: "fetch_raw_and_ingest env (subtract_ids sent inbox) Sent Incremental No_retry en1 = Some (res, en2)"
      using fetch_total by blast
    have s: "load_history_cursor (en_store en2) = load_history_cursor (en_store en)" using load_sync [OF fetch_sync [OF f]] n by simp
    show ?thesis
    proof (cases res)
      case (Inl e)
      with assms(1) Some x Inr p f have "en' = en2" by (simp add: sent_walk_def)
      then show ?thesis using s by simp
    next
      case ok: (Inr k)
      with assms(1) Some x Inr p f have en': "en' = store_history_cursor (max start (max newest newest')) en2" "r = Inr ()"
        by (simp_all add: sent_walk_def advance_history_cursor_def max.commute max.left_commute)
      have "wf_mail (en_store en1)" using assms(2) n by simp
      then have "list_all (accounted env No_retry en2 False) (subtract_ids sent inbox)" using fetch_accounts [OF f [unfolded ok]] by simp
      then have "list_all (accounted env No_retry en' False) (subtract_ids sent inbox)"
        using accounted_later [of env No_retry en2 _ _ en'] store_cursor_gains [where en = en2] unfolding en'(1) list_all_iff by simp
      moreover have "en_calls en1 \<le> en_calls en'"
        using micros_store [OF fetch_any_micro [OF f] \<open>wf_mail (en_store en1)\<close>] unfolding en'(1) by (simp add: store_cursor_gains(2))
      ultimately show ?thesis using Some x Inr p en' by auto
    qed
  qed
qed

lemma history_walk_cases:
  assumes "history_walk env start en = Some (r, en')"
  obtains e where "history_walk_label env start LABEL_INBOX en = Some (Inl e, en')"
    | inbox newest en1 e where "history_walk_label env start LABEL_INBOX en = Some (Inr (inbox, newest), en1)"
        "fetch_raw_and_ingest env inbox Inbox Incremental No_retry en1 = Some (Inl e, en')"
    | inbox newest en1 k en2 where "history_walk_label env start LABEL_INBOX en = Some (Inr (inbox, newest), en1)"
        "fetch_raw_and_ingest env inbox Inbox Incremental No_retry en1 = Some (Inr k, en2)"
        "sent_walk env start inbox newest en2 = Some (r, en')"
proof -
  from assms consider e where "history_walk_label env start LABEL_INBOX en = Some (Inl e, en')"
    | a en1 where "history_walk_label env start LABEL_INBOX en = Some (Inr a, en1)"
        "(\<lambda>(inbox, newest) en. attempt (fetch_raw_and_ingest env inbox Inbox Incremental No_retry en) (\<lambda>_ en. sent_walk env start inbox newest en)) a en1
           = Some (r, en')"
    unfolding history_walk_def attempt_Some [of "history_walk_label env start LABEL_INBOX en"] by blast
  then show thesis
  proof cases
    case 1
    then show thesis by (rule that(1))
  next
    case 2
    obtain inbox newest where a: "a = (inbox, newest)" by (cases a)
    from 2(2) consider e where "fetch_raw_and_ingest env inbox Inbox Incremental No_retry en1 = Some (Inl e, en')"
      | k en2 where "fetch_raw_and_ingest env inbox Inbox Incremental No_retry en1 = Some (Inr k, en2)"
          "sent_walk env start inbox newest en2 = Some (r, en')"
      unfolding a by (auto simp: attempt_Some)
    then show thesis by cases (use that(2,3) 2(1) a in blast)+
  qed
qed

section \<open>Counting\<close>

text \<open>How often the account has written to an address, and how often an unsubscribed sender wrote after the grace.\<close>

definition sent_count :: "string \<Rightarrow> 'c mail_store \<Rightarrow> int" where
  "sent_count addr s = (case find (\<lambda>c. ct_addr c = addr) (ms_contacts s) of Some c \<Rightarrow> ct_sent_count c | None \<Rightarrow> 0)"

definition violations :: "string \<Rightarrow> 'c mail_store \<Rightarrow> int" where
  "violations sender s = (case find (\<lambda>u. un_sender u = sender) (ms_unsubscribes s) of Some u \<Rightarrow> un_violations u | None \<Rightarrow> 0)"

lemma find_update_where:
  "(\<And>r. k (f r) = k r) \<Longrightarrow> find (\<lambda>r. k r = a) (update_where p f rs) = map_option (\<lambda>r. if p r then f r else r) (find (\<lambda>r. k r = a) rs)"
  by (induction rs) (auto simp: update_where_def)

lemma sent_count_ingest:
  assumes "tm_recipients t = [addr]" "trim addr \<noteq> []"
  shows "sent_count addr (ingest_message t s) = sent_count addr s + 1"
proof -
  let ?s = "upsert_message (tm_message t) (tm_eligible t) s" let ?at = "nm_received (tm_message t)"
  have up: "ms_contacts ?s = ms_contacts s" by (simp add: upsert_message_def)
  have rows: "ms_contacts (ingest_message t s) = seed_contact ?at addr (ms_contacts s)"
    using assms(1) by (simp add: ingest_message_def Let_def bump_unsub_violation_def seed_contacts_def up)
  show ?thesis
  proof (cases "find (\<lambda>c. ct_addr c = addr) (ms_contacts s)")
    case None
    then have "\<not> (\<exists>c \<in> set (ms_contacts s). ct_addr c = addr)" by (auto simp: find_None_iff)
    then show ?thesis using None assms(2) by (simp add: sent_count_def rows seed_contact_def find_append)
  next
    case (Some c)
    then have "\<exists>c \<in> set (ms_contacts s). ct_addr c = addr" "ct_addr c = addr" by (auto simp: find_Some_iff)
    then show ?thesis using Some assms(2) by (simp add: sent_count_def rows seed_contact_def find_update_where)
  qed
qed

lemma violations_ingest:
  assumes "\<not> nm_sent (tm_message t)" "sender = to_ascii_lowercase (trim (nm_from (tm_message t)))" "sender \<noteq> []"
    "find (\<lambda>u. un_sender u = sender) (ms_unsubscribes s) = Some u" "\<not> un_resolved u" "un_requested u + hours 72 < nm_received (tm_message t)"
  shows "violations sender (ingest_message t s) = violations sender s + 1
    \<and> (\<exists>u'. find (\<lambda>u. un_sender u = sender) (ms_unsubscribes (ingest_message t s)) = Some u' \<and> \<not> un_resolved u' \<and> un_requested u' = un_requested u)"
proof -
  have u: "un_sender u = sender" using assms(4) by (auto simp: find_Some_iff)
  have "ms_unsubscribes (ingest_message t s) = update_where (\<lambda>u. un_sender u = sender \<and> \<not> un_resolved u \<and> un_requested u + hours 72 < nm_received (tm_message t))
      (\<lambda>u. u\<lparr>un_violations := un_violations u + 1, un_last := Some (nm_received (tm_message t))\<rparr>) (ms_unsubscribes s)"
    using assms(1,3) unfolding assms(2)
    by (simp add: ingest_message_def Let_def bump_unsub_violation_def seed_contacts_def upsert_message_def)
  then show ?thesis using assms(4-6) u by (simp add: violations_def find_update_where)
qed

end
