(* ===== verification/Mail_Gaps.thy ===== *)
theory Mail_Gaps
  imports Mail_Sync
begin

text \<open>
  What the sync engine (\<open>squelch-core/src/sync/mod.rs\<close>) makes of a Gmail that behaves as documented: \<open>history.list\<close>
  gives the mail added since a historyId under a label and the mailbox's present historyId,
  \<open>messages.list\<close> the mail of a label, \<open>messages.get\<close> a mail, and a 404 for one that was deleted,
  \<open>getProfile\<close> the present historyId. In
  \<open>serves\<close> every answer fits on one page; \<open>paged\<close> lets Gmail cut the history into any number of pages. The mailbox may change from one
  exchange to the next. \<open>serves\<close> says that the network is such a Gmail; it is a hypothesis of each property.
\<close>

section \<open>A mailbox\<close>

record gmail_mail =
  gx_id :: string
  gx_labels :: "string list"
  gx_history :: nat
  gx_raw :: string
  gx_recent :: bool
  gx_gone :: bool

type_synonym box = "gmail_mail list"

definition newest_history :: "box \<Rightarrow> nat" where
  "newest_history box = fold max (map gx_history box) 0"

definition labelled :: "string \<Rightarrow> box \<Rightarrow> box" where
  "labelled label box = filter (\<lambda>m. label \<in> set (gx_labels m)) box"

definition added_since :: "nat \<Rightarrow> string \<Rightarrow> box \<Rightarrow> box" where
  "added_since start label box = filter (\<lambda>m. start < gx_history m) (labelled label box)"

definition listed :: "string \<Rightarrow> box \<Rightarrow> string list" where
  "listed label box = map gx_id (filter (\<lambda>m. gx_recent m \<and> \<not> gx_gone m) (labelled label box))"

definition kept :: "string \<Rightarrow> box \<Rightarrow> gmail_mail option" where
  "kept gid box = find (\<lambda>m. gx_id m = gid \<and> \<not> gx_gone m) box"

fun gmail_answer :: "box \<Rightarrow> request \<Rightarrow> payload option" where
  "gmail_answer box (History_list start label tok) = Some (History_page
     \<lparr>hp_history = map (\<lambda>m. \<lparr>hr_id = Some (show_nat (gx_history m)), hr_added = [gx_id m]\<rparr>) (added_since start label box),
      hp_next = None, hp_history_id = Some (show_nat (newest_history box))\<rparr>)"
| "gmail_answer box (Messages_list label q tok) = Some (List_page \<lparr>lp_messages = listed label box, lp_next = None\<rparr>)"
| "gmail_answer box (Message_get gid) = (case kept gid box of
     Some m \<Rightarrow> Some (Mail_payload \<lparr>gm_id = gid, gm_thread = None, gm_raw = Some (gx_raw m), gm_date = None\<rparr>) | None \<Rightarrow> None)"
| "gmail_answer box Get_profile = Some (Profile_payload (show_nat (newest_history box)))"

definition reply :: "payload option \<Rightarrow> payload outcome" where
  "reply p = Response \<lparr>rs_status = (if p = None then 404 else 200), rs_retry_after = None, rs_body = [], rs_json = p\<rparr>"

definition serves :: "'c env \<Rightarrow> (nat \<Rightarrow> box) \<Rightarrow> bool" where
  "serves env boxes \<longleftrightarrow> (\<forall>k req. v_net env k req = reply (gmail_answer (boxes k) req))"

text \<open>Ids are distinct and not empty, historyIds are \<open>u64\<close>, and the mail can be decoded.\<close>

definition wf_box :: "'c env \<Rightarrow> box \<Rightarrow> bool" where
  "wf_box env box \<longleftrightarrow> distinct (map gx_id box) \<and> list_all (\<lambda>m. gx_id m \<noteq> [] \<and> gx_history m < 2 ^ 64
     \<and> decode_raw_b64url (v_b64 env) (gx_raw m) \<noteq> None) box"

section \<open>Numbers\<close>

lemma show_nat_nonempty: "show_nat n \<noteq> []"
  by (subst show_nat.simps) simp

lemma digits_value_append: "digits_value v (a @ b) = Option.bind (digits_value v a) (\<lambda>v. digits_value v b)"
  by (induction v a rule: digits_value.induct) auto

lemma digit_char: "d < 10 \<Longrightarrow> is_ascii_digit (char_of (48 + d)) \<and> cp (char_of (48 + d)) = 48 + d"
  by (simp add: is_ascii_digit_def of_char_of)

lemma digits_value_show: "digits_value 0 (show_nat n) = Some n"
proof (induction n rule: less_induct)
  case (less n)
  show ?case
  proof (cases "n < 10")
    case True
    then show ?thesis by (subst show_nat.simps) (simp add: digit_char)
  next
    case False
    then have "digits_value 0 (show_nat (n div 10)) = Some (n div 10)" using less.IH by simp
    then show ?thesis using False digit_char [of "n mod 10"] by (subst show_nat.simps) (simp add: digits_value_append)
  qed
qed

lemma show_nat_digits: "c \<in> set (show_nat n) \<Longrightarrow> is_ascii_digit c"
proof (induction n rule: less_induct)
  case (less n)
  show ?case
  proof (cases "n < 10")
    case True
    then show ?thesis using less.prems digit_char [of n] by (subst (asm) show_nat.simps) simp
  next
    case False
    then have "c \<in> set (show_nat (n div 10)) \<or> c = char_of (48 + n mod 10)" using less.prems by (subst (asm) show_nat.simps) auto
    then show ?thesis using less.IH [of "n div 10"] False digit_char [of "n mod 10"] by auto
  qed
qed

lemma parse_history_show [simp]: "n < 2 ^ 64 \<Longrightarrow> parse_history_id (show_nat n) = n"
proof -
  assume n: "n < 2 ^ 64"
  have "trim (show_nat n) = show_nat n"
    by (rule trim_no_ws) (auto dest!: show_nat_digits simp: is_ascii_digit_def is_whitespace_def)
  moreover obtain c s where cs: "show_nat n = c # s" using show_nat_nonempty by (cases "show_nat n") auto
  moreover have "c \<noteq> CHR ''+''" using show_nat_digits [of c n] cs by (auto simp: is_ascii_digit_def)
  ultimately show ?thesis
    using n digits_value_show [of n] by (simp add: parse_history_id_def parse_u64_def Let_def)
qed

lemma fold_max_le: "fold max xs a = max a (fold max xs (0::nat))"
  by (induction xs arbitrary: a) (simp, metis fold_simps(2) max.assoc max.commute max_0R)

lemma fold_max_bound: "(\<And>x. x \<in> set xs \<Longrightarrow> x < b) \<Longrightarrow> a < b \<Longrightarrow> fold max xs a < (b::nat)"
  by (induction xs arbitrary: a) auto

lemma newest_bound: "wf_box env box \<Longrightarrow> newest_history box < 2 ^ 64"
  unfolding newest_history_def by (rule fold_max_bound) (auto simp: wf_box_def list_all_iff)

lemma newest_upper: "m \<in> set box \<Longrightarrow> gx_history m \<le> newest_history box"
proof -
  have "x \<in> set xs \<Longrightarrow> x \<le> fold max xs a" for x xs and a :: nat
    by (induction xs arbitrary: a) (auto, metis fold_max_le max.bounded_iff order_refl)
  then show "m \<in> set box \<Longrightarrow> ?thesis" unfolding newest_history_def by simp
qed

lemma newest_append: "newest_history (box @ [m]) = max (newest_history box) (gx_history m)"
  by (simp add: newest_history_def)


section \<open>What the engine gets\<close>

lemma attempts_reply:
  "get_attempts (\<lambda>k. reply (f k)) retry backoff tries n = ((case f n of None \<Rightarrow> Inl Not_found | Some p \<Rightarrow> Inr p), Suc n, [])"
  by (cases "f n") (simp_all add: get_attempts.simps send_get_def one_exchange_def reply_def is_success_def)

lemma call_served:
  assumes "serves env boxes"
  shows "call env retry decode req en = ((case gmail_answer (boxes (en_calls en)) req of None \<Rightarrow> Inl Not_found
     | Some p \<Rightarrow> (case decode p of Some a \<Rightarrow> Inr a | None \<Rightarrow> Inl Api_failure)), en\<lparr>en_calls := Suc (en_calls en)\<rparr>)"
  using assms unfolding serves_def call_def get_json_with_retry_def
  by (simp add: attempts_reply split: option.splits)

definition new_ids :: "nat \<Rightarrow> string \<Rightarrow> box \<Rightarrow> string list" where
  "new_ids start label box = remdups (sort (map gx_id (added_since start label box)))"

lemma set_new_ids: "set (new_ids start label box) = gx_id ` {m \<in> set box. label \<in> set (gx_labels m) \<and> start < gx_history m}"
  by (auto simp: new_ids_def added_since_def labelled_def)

lemma observed_served:
  assumes "wf_box env box"
  shows "advance_history_cursor start (map parse_history_id (map (\<lambda>m. show_nat (gx_history m)) (added_since s label box)) @ [newest_history box])
    = max start (newest_history box)"
proof -
  have e: "map parse_history_id (map (\<lambda>m. show_nat (gx_history m)) (added_since s label box)) = map gx_history (added_since s label box)"
    using assms by (auto simp: wf_box_def list_all_iff added_since_def labelled_def)
  have le: "x \<le> newest_history box" if "x \<in> set (map gx_history (added_since s label box))" for x
    using that newest_upper by (auto simp: added_since_def labelled_def)
  have "fold max xs a \<le> max a b" if "\<And>x. x \<in> set xs \<Longrightarrow> x \<le> b" for xs and a b :: nat
    using that by (simp add: Max.set_eq_fold [symmetric]) (meson le_max_iff_disj)
  from this [OF le] have "fold max (map gx_history (added_since s label box)) start \<le> max start (newest_history box)" .
  moreover have "start \<le> fold max (map gx_history (added_since s label box)) start" by (subst fold_max_le) simp
  ultimately show ?thesis unfolding advance_history_cursor_def e by simp
qed

lemma walk_served:
  assumes "serves env boxes" "wf_box env (boxes (en_calls en))"
  shows "history_walk_label env start label en = Some (Inr (new_ids start label (boxes (en_calls en)), max start (newest_history (boxes (en_calls en)))),
    en\<lparr>en_calls := Suc (en_calls en)\<rparr>)"
proof -
  let ?box = "boxes (en_calls en)"
  let ?page = "\<lparr>hp_history = map (\<lambda>m. \<lparr>hr_id = Some (show_nat (gx_history m)), hr_added = [gx_id m]\<rparr>) (added_since start label ?box),
      hp_next = None, hp_history_id = Some (show_nat (newest_history ?box))\<rparr>"
  have "List.map_filter hr_id (map (\<lambda>m. \<lparr>hr_id = Some (show_nat (gx_history m)), hr_added = [gx_id m]\<rparr>) xs) = map (\<lambda>m. show_nat (gx_history m)) xs" for xs :: box
    by (induction xs) (simp_all add: List.map_filter_def)
  then have "observed_ids ?page = map parse_history_id (map (\<lambda>m. show_nat (gx_history m)) (added_since start label ?box)) @ [newest_history ?box]"
    using newest_bound [OF assms(2)] by (simp add: observed_ids_def)
  moreover have "concat (map hr_added (map (\<lambda>m. \<lparr>hr_id = Some (show_nat (gx_history m)), hr_added = [gx_id m]\<rparr>) xs)) = map gx_id xs" for xs :: box
    by (induction xs) simp_all
  then have "added_ids ?page = map gx_id (added_since start label ?box)" by (simp add: added_ids_def)
  ultimately show ?thesis
    unfolding history_walk_label_def history_pages.simps [of env start label start None "[]" en] call_served [OF assms(1)]
    by (simp add: as_history_def new_ids_def observed_served [OF assms(2)] del: map_map)
qed

lemma list_served:
  "serves env boxes \<Longrightarrow> list_message_ids_capped env label q None retry en
     = Some (Inr (listed label (boxes (en_calls en))), en\<lparr>en_calls := Suc (en_calls en)\<rparr>)"
  unfolding list_message_ids_capped_def list_pages.simps [of env retry label q None None "[]" en]
  by (simp add: call_served as_list_def)

lemma profile_served:
  assumes "serves env boxes" "wf_box env (boxes (en_calls en))"
  shows "fetch_profile_history_id env en = Some (Inr (newest_history (boxes (en_calls en))), en\<lparr>en_calls := Suc (en_calls en)\<rparr>)"
  using newest_bound [OF assms(2)] unfolding fetch_profile_history_id_def call_served [OF assms(1)] by (simp add: as_profile_def)

text \<open>The ids of the stored mail.\<close>

definition gids :: "'c engine \<Rightarrow> string set" where
  "gids en = mr_gid ` set (ms_rows (en_store en))"

lemma gids_simps [simp]:
  "gids (en\<lparr>en_calls := n\<rparr>) = gids en" "gids (en\<lparr>en_wake := b\<rparr>) = gids en" "gids (store_history_cursor h en) = gids en"
  by (simp_all add: gids_def store_history_cursor_def)

lemma gids_ingest [simp]: "gids (en\<lparr>en_store := ingest_one env f now origin (en_store en)\<rparr>) = insert (rf_gid f) (gids en)"
proof -
  have "\<exists>m t. ms_rows (ingest_one env f now origin (en_store en)) = ms_rows (upsert_message m t (en_store en)) \<and> nm_gid m = rf_gid f"
    unfolding ingest_one_def Let_def rows_ingest by (intro exI conjI) (rule refl, simp add: ingest_with_rules_def Let_def)
  then obtain m t where m: "ms_rows (ingest_one env f now origin (en_store en)) = ms_rows (upsert_message m t (en_store en))" "nm_gid m = rf_gid f" by blast
  have "mr_gid ` set (ms_rows (upsert_message m t s)) = insert (nm_gid m) (mr_gid ` set (ms_rows s))" for s :: "'a mail_store"
  proof (cases "has_mail (nm_gid m) s")
    case True
    then have "set (map mr_gid (ms_rows (upsert_message m t s))) = set (map mr_gid (ms_rows s))"
      by (simp add: upsert_message_def map_update_where)
    then show ?thesis using True by (force simp: has_mail_def)
  qed (simp add: upsert_message_def)
  then show ?thesis using m by (simp add: gids_def)
qed

text \<open>An id that can be fetched.\<close>

definition fetchable :: "'c env \<Rightarrow> box \<Rightarrow> string \<Rightarrow> bool" where
  "fetchable env box gid \<longleftrightarrow> gid \<noteq> [] \<and> (case kept gid box of Some m \<Rightarrow> decode_raw_b64url (v_b64 env) (gx_raw m) \<noteq> None | None \<Rightarrow> False)"

text \<open>Fetching needs only the answers about single mails.\<close>

definition serves_mail :: "'c env \<Rightarrow> (nat \<Rightarrow> box) \<Rightarrow> bool" where
  "serves_mail env boxes \<longleftrightarrow> (\<forall>k gid. v_net env k (Message_get gid) = reply (gmail_answer (boxes k) (Message_get gid)))"

lemma serves_serves_mail: "serves env boxes \<Longrightarrow> serves_mail env boxes"
  by (simp add: serves_def serves_mail_def)

lemma call_mail_served:
  assumes "serves_mail env boxes"
  shows "call env retry as_mail (Message_get gid) en = ((case kept gid (boxes (en_calls en)) of None \<Rightarrow> Inl Not_found
     | Some m \<Rightarrow> Inr \<lparr>gm_id = gid, gm_thread = None, gm_raw = Some (gx_raw m), gm_date = None\<rparr>), en\<lparr>en_calls := Suc (en_calls en)\<rparr>)"
  using assms unfolding serves_mail_def call_def get_json_with_retry_def
  by (simp add: attempts_reply as_mail_def split: option.splits)

lemma fetch_each_served:
  assumes "serves_mail env boxes" "\<And>k gid. en_calls en \<le> k \<Longrightarrow> gid \<in> set ids \<Longrightarrow> fetchable env (boxes k) gid"
  shows "\<exists>en'. fetch_each env mailbox origin retry ids tally en = (Inr (tally + length ids), en')
    \<and> en_calls en' = en_calls en + length ids \<and> gids en' = gids en \<union> set ids"
  using assms(2)
proof (induction ids arbitrary: tally en)
  case (Cons gid ids)
  have "fetchable env (boxes (en_calls en)) gid" using Cons(2) by simp
  then obtain m raw where m: "kept gid (boxes (en_calls en)) = Some m" "decode_raw_b64url (v_b64 env) (gx_raw m) = Some raw" "gid \<noteq> []"
    by (auto simp: fetchable_def split: option.splits)
  let ?f = "\<lparr>rf_gid = gid, rf_thread = None, rf_raw = raw, rf_date = None, rf_sent = (mailbox = Sent), rf_spam = (mailbox = Spam)\<rparr>"
  let ?en1 = "en\<lparr>en_calls := Suc (en_calls en)\<rparr>"
  let ?en = "?en1\<lparr>en_store := ingest_one env ?f (v_clock env (Suc (en_calls en))) origin (en_store ?en1)\<rparr>"
  have "fetch_each env mailbox origin retry (gid # ids) tally en = fetch_each env mailbox origin retry ids (Suc tally) ?en"
    using m by (simp add: call_mail_served [OF assms(1)] raw_of_def stored_id_def)
  moreover obtain en' where "fetch_each env mailbox origin retry ids (Suc tally) ?en = (Inr (Suc tally + length ids), en')"
    "en_calls en' = en_calls ?en + length ids" "gids en' = gids ?en \<union> set ids"
    using Cons(1) [of ?en "Suc tally"] Cons(2) by auto
  moreover have "gids ?en = insert gid (gids en)" by (subst gids_ingest) simp
  ultimately show ?case by simp
qed simp

lemma fetch_mail_served:
  assumes "serves_mail env boxes" "\<And>k gid. en_calls en \<le> k \<Longrightarrow> gid \<in> set ids \<Longrightarrow> fetchable env (boxes k) gid"
  shows "\<exists>en'. fetch_raw_and_ingest env ids mailbox origin retry en = Some (Inr (length ids), en')
    \<and> en_calls en' = en_calls en + length ids \<and> gids en' = gids en \<union> set ids \<and> ms_sync (en_store en') = ms_sync (en_store en)"
proof -
  obtain en1 where e: "fetch_each env mailbox origin retry ids 0 en = (Inr (length ids), en1)"
    "en_calls en1 = en_calls en + length ids" "gids en1 = gids en \<union> set ids"
    using fetch_each_served [where mailbox = mailbox and origin = origin and retry = retry and tally = 0 and en = en and ids = ids, OF assms]
    unfolding add_0 by blast
  then obtain en' where f: "fetch_raw_and_ingest env ids mailbox origin retry en = Some (Inr (length ids), en')"
    "en' = (if 0 < length ids \<and> origin = Incremental then en1\<lparr>en_wake := True\<rparr> else en1)"
    by (simp add: fetch_raw_and_ingest_def)
  then show ?thesis using e fetch_sync [OF f(1)] by (intro exI [of _ en']) auto
qed

lemmas fetch_served = fetch_mail_served [OF serves_serves_mail]


section \<open>A poll\<close>

text \<open>A walk, from what the two listings give and the mail that Gmail serves.\<close>

lemma walk_run_listed:
  assumes "serves_mail env boxes" "mid = n1 + length inbox"
    "history_walk_label env start LABEL_INBOX en = Some (Inr (inbox, c1), en\<lparr>en_calls := n1\<rparr>)"
    "\<And>en. en_calls en = mid \<Longrightarrow> history_walk_label env start LABEL_SENT en = Some (Inr (sent, c2), en\<lparr>en_calls := n2\<rparr>)"
    "\<And>k gid. n1 \<le> k \<Longrightarrow> gid \<in> set inbox \<Longrightarrow> fetchable env (boxes k) gid"
    "\<And>k gid. n2 \<le> k \<Longrightarrow> gid \<in> set sent - set inbox \<Longrightarrow> fetchable env (boxes k) gid"
  shows "\<exists>en'. history_walk env start en = Some (Inr (), en') \<and> gids en' = gids en \<union> set inbox \<union> set sent \<and> n2 \<le> en_calls en'
    \<and> load_history_cursor (en_store en') = Some (max start (max c1 c2))"
proof -
  let ?en1 = "en\<lparr>en_calls := n1\<rparr>"
  obtain en2 where f1: "fetch_raw_and_ingest env inbox Inbox Incremental No_retry ?en1 = Some (Inr (length inbox), en2)"
    "en_calls en2 = mid" "gids en2 = gids en \<union> set inbox"
    using fetch_mail_served [where mailbox = Inbox and origin = Incremental and retry = No_retry and en = ?en1 and ids = inbox, OF assms(1)] assms(5)
    unfolding assms(2) by auto
  let ?en3 = "en2\<lparr>en_calls := n2\<rparr>"
  have w2: "history_walk_label env start LABEL_SENT en2 = Some (Inr (sent, c2), ?en3)" by (rule assms(4) [OF f1(2)])
  obtain en4 where f2: "fetch_raw_and_ingest env (subtract_ids sent inbox) Sent Incremental No_retry ?en3 = Some (Inr (length (subtract_ids sent inbox)), en4)"
    "n2 \<le> en_calls en4" "gids en4 = gids en2 \<union> set (subtract_ids sent inbox)"
    using fetch_mail_served [where mailbox = Sent and origin = Incremental and retry = No_retry and en = ?en3 and ids = "subtract_ids sent inbox", OF assms(1)] assms(6)
    by (auto simp: subtract_ids_def)
  have "history_walk env start en = Some (Inr (), store_history_cursor (max start (max c1 c2)) en4)"
    unfolding history_walk_def sent_walk_def assms(3) attempt_def
    by (simp add: f1(1) w2 f2(1) advance_history_cursor_def max.assoc max.left_commute max.commute)
  then show ?thesis using f1(3) f2(2,3) by (auto simp: subtract_ids_def store_cursor_gains(2))
qed

lemma walk_run:
  assumes "serves env boxes" "\<And>k. wf_box env (boxes k)"
    "inbox = new_ids start LABEL_INBOX (boxes (en_calls en))" "mid = Suc (en_calls en + length inbox)"
    "sent = new_ids start LABEL_SENT (boxes mid)"
    "\<And>k gid. en_calls en < k \<Longrightarrow> gid \<in> set inbox \<Longrightarrow> fetchable env (boxes k) gid"
    "\<And>k gid. mid < k \<Longrightarrow> gid \<in> set sent - set inbox \<Longrightarrow> fetchable env (boxes k) gid"
  shows "\<exists>en'. history_walk env start en = Some (Inr (), en') \<and> gids en' = gids en \<union> set inbox \<union> set sent \<and> mid < en_calls en'
    \<and> load_history_cursor (en_store en') = Some (max start (max (newest_history (boxes (en_calls en))) (newest_history (boxes mid))))"
proof -
  let ?c1 = "max start (newest_history (boxes (en_calls en)))" let ?c2 = "max start (newest_history (boxes mid))"
  have w1: "history_walk_label env start LABEL_INBOX en = Some (Inr (inbox, ?c1), en\<lparr>en_calls := Suc (en_calls en)\<rparr>)"
    unfolding assms(3) by (rule walk_served [OF assms(1,2)])
  have w2: "history_walk_label env start LABEL_SENT x = Some (Inr (sent, ?c2), x\<lparr>en_calls := Suc mid\<rparr>)" if "en_calls x = mid" for x
    using walk_served [OF assms(1,2), where en = x] unfolding that assms(5) .
  obtain en' where "history_walk env start en = Some (Inr (), en')" "gids en' = gids en \<union> set inbox \<union> set sent" "Suc mid \<le> en_calls en'"
    "load_history_cursor (en_store en') = Some (max start (max ?c1 ?c2))"
    using walk_run_listed [OF serves_serves_mail [OF assms(1)], of mid "Suc (en_calls en)" inbox start en ?c1 sent ?c2 "Suc mid"]
      assms(4,6,7) w1 w2 by auto
  then show ?thesis by (intro exI [of _ en']) (auto simp: max.assoc max.left_commute)
qed

lemma poll_run:
  assumes "history_walk env start en = Some (Inr (), en')" "load_history_cursor (en_store en) = Some start" "0 < start"
  shows "poll_once env en = Some (Inr (), en')"
  using assms by (simp add: poll_once_def history_poll_decision_def)

lemma fetchable_member:
  assumes "wf_box env box" "m \<in> set box" "\<not> gx_gone m"
  shows "fetchable env (box @ extra) (gx_id m)"
proof -
  have "find (\<lambda>x. gx_id x = gx_id m \<and> \<not> gx_gone x) (box @ extra) = Some m"
    using assms(1,2,3) unfolding wf_box_def
    by (induction box) (auto simp: image_iff)
  then show ?thesis using assms by (auto simp: fetchable_def kept_def wf_box_def list_all_iff)
qed

text \<open>A Gmail that keeps its mailbox, and that cuts what it lists for a label into as many pages as it likes: the
  pages, following their tokens, list what the mailbox gained since the cursor under that label, and each names the mailbox's historyId.\<close>

definition history_entry :: "gmail_mail \<Rightarrow> history_record" where
  "history_entry m = \<lparr>hr_id = Some (show_nat (gx_history m)), hr_added = [gx_id m]\<rparr>"

definition paged :: "'c env \<Rightarrow> nat \<Rightarrow> box \<Rightarrow> bool" where
  "paged env start box \<longleftrightarrow> serves_mail env (\<lambda>_. box) \<and> (\<forall>label \<in> {LABEL_INBOX, LABEL_SENT}. \<forall>k. \<exists>pages n.
     served env start label None k pages n \<and> concat (map hp_history pages) = map history_entry (added_since start label box)
   \<and> (\<forall>page \<in> set pages. hp_history_id page = Some (show_nat (newest_history box))))"

lemma served_nonempty: "served env start label tok k pages n \<Longrightarrow> pages \<noteq> []"
  by (cases rule: served.cases) auto

lemma paged_walk:
  assumes "paged env start box" "wf_box env box" "label \<in> {LABEL_INBOX, LABEL_SENT}"
  obtains gs n where "\<And>en. en_calls en = k \<Longrightarrow>
      history_walk_label env start label en = Some (Inr (gs, max start (newest_history box)), en\<lparr>en_calls := n\<rparr>)"
    "set gs = gx_id ` set (added_since start label box)"
proof -
  obtain pages n where p: "served env start label None k pages n"
    "concat (map hp_history pages) = map history_entry (added_since start label box)"
    "\<And>page. page \<in> set pages \<Longrightarrow> hp_history_id page = Some (show_nat (newest_history box))"
    using assms(1,3) unfolding paged_def by meson
  have entries: "{h. \<exists>page \<in> set pages. h \<in> set (hp_history page)} = history_entry ` set (added_since start label box)"
    using arg_cong [OF p(2), of set] by auto
  have "listed_mail pages = (\<Union>h \<in> {h. \<exists>page \<in> set pages. h \<in> set (hp_history page)}. set (hr_added h))" by (auto simp: listed_mail_def)
  then have l: "listed_mail pages = gx_id ` set (added_since start label box)" unfolding entries by (auto simp: history_entry_def)
  have "{i. \<exists>page \<in> set pages. hp_history_id page = Some i \<or> (\<exists>h \<in> set (hp_history page). hr_id h = Some i)}
      = insert (show_nat (newest_history box)) {i. \<exists>h \<in> {h. \<exists>page \<in> set pages. h \<in> set (hp_history page)}. hr_id h = Some i}"
    using p(3) served_nonempty [OF p(1)] by (auto simp: neq_Nil_conv)
  also have "\<dots> = insert (show_nat (newest_history box)) ((\<lambda>m. show_nat (gx_history m)) ` set (added_since start label box))"
    unfolding entries by (auto simp: history_entry_def)
  finally have "named_history pages = insert (parse_history_id (show_nat (newest_history box)))
      ((\<lambda>m. parse_history_id (show_nat (gx_history m))) ` set (added_since start label box))"
    unfolding named_history_def by (simp add: image_image)
  also have "\<dots> = insert (newest_history box) (gx_history ` set (added_since start label box))"
    using newest_bound [OF assms(2)] assms(2) by (auto simp: wf_box_def list_all_iff added_since_def labelled_def)
  finally have "Max (insert start (named_history pages)) = max start (newest_history box)"
    using newest_upper [of _ box] by (intro Max_eqI) (auto simp: added_since_def labelled_def le_max_iff_disj)
  with served_walk_label [OF p(1)] l that show thesis by metis
qed

text \<open>C5. A poll of a mailbox that nothing changes meanwhile misses nothing, on however many pages Gmail lists it:
  when no mail since the cursor under INBOX or SENT was deleted for good and every body can be decoded,
  the poll succeeds, all that mail is in the store, what was stored still is, nothing else came, and the cursor is the
  mailbox's historyId.\<close>
theorem quiet_poll_misses_nothing:
  assumes "paged env start box" "wf_box env box"
    "\<And>m. m \<in> set box \<Longrightarrow> start < gx_history m \<Longrightarrow> LABEL_INBOX \<in> set (gx_labels m) \<or> LABEL_SENT \<in> set (gx_labels m) \<Longrightarrow> \<not> gx_gone m"
    "load_history_cursor (en_store en) = Some start" "0 < start"
  shows "\<exists>en'. poll_once env en = Some (Inr (), en') \<and> load_history_cursor (en_store en') = Some (max start (newest_history box))
    \<and> gids en' = gids en \<union> gx_id ` {m \<in> set box. start < gx_history m \<and> (LABEL_INBOX \<in> set (gx_labels m) \<or> LABEL_SENT \<in> set (gx_labels m))}"
proof -
  have set: "set (added_since start label box) = {m \<in> set box. label \<in> set (gx_labels m) \<and> start < gx_history m}" for label
    by (auto simp: added_since_def labelled_def)
  obtain inbox n1 where i: "\<And>x. en_calls x = en_calls en \<Longrightarrow>
      history_walk_label env start LABEL_INBOX x = Some (Inr (inbox, max start (newest_history box)), x\<lparr>en_calls := n1\<rparr>)"
    "set inbox = gx_id ` set (added_since start LABEL_INBOX box)" using paged_walk [OF assms(1,2), of LABEL_INBOX "en_calls en"] by auto
  let ?mid = "n1 + length inbox"
  obtain sent n2 where s: "\<And>x. en_calls x = ?mid \<Longrightarrow>
      history_walk_label env start LABEL_SENT x = Some (Inr (sent, max start (newest_history box)), x\<lparr>en_calls := n2\<rparr>)"
    "set sent = gx_id ` set (added_since start LABEL_SENT box)" using paged_walk [OF assms(1,2), of LABEL_SENT ?mid] by auto
  have f: "fetchable env box gid" if "gid \<in> set inbox \<union> set sent" for gid
    using that fetchable_member [OF assms(2), where extra = "[]"] assms(3) unfolding i(2) s(2) set by auto
  obtain en' where w: "history_walk env start en = Some (Inr (), en')" "gids en' = gids en \<union> set inbox \<union> set sent"
    "load_history_cursor (en_store en') = Some (max start (max (max start (newest_history box)) (max start (newest_history box))))"
    using walk_run_listed [OF _ refl i(1) [OF refl] s(1), of "\<lambda>_. box"] f assms(1) unfolding paged_def by blast
  have "load_history_cursor (en_store en') = Some (max start (newest_history box))" using w(3) by simp
  moreover have "gids en' = gids en \<union> gx_id ` {m \<in> set box. start < gx_history m \<and> (LABEL_INBOX \<in> set (gx_labels m) \<or> LABEL_SENT \<in> set (gx_labels m))}"
    unfolding w(2) i(2) s(2) set by auto
  ultimately show ?thesis using poll_run [OF w(1) assms(4,5)] by (intro exI [of _ en']) simp
qed

section \<open>Mail that no poll sees\<close>

text \<open>A poll with the cursor at the newest historyId finds nothing.\<close>

lemma no_new_ids: "newest_history box \<le> start \<Longrightarrow> new_ids start label box = []"
proof -
  assume "newest_history box \<le> start"
  then have "\<not> start < gx_history m" if "m \<in> set box" for m using newest_upper [OF that] by simp
  then have "set (new_ids start label box) = {}" unfolding set_new_ids by blast
  then show ?thesis by simp
qed

lemma idle_polls:
  assumes "serves env boxes" "\<And>k. wf_box env (boxes k)" "\<And>k. en_calls en \<le> k \<Longrightarrow> boxes k = box" "newest_history box \<le> start" "0 < start"
    "load_history_cursor (en_store en) = Some start"
  shows "\<exists>en'. exec env (replicate n Poll) en = Some en' \<and> gids en' = gids en \<and> load_history_cursor (en_store en') = Some start"
  using assms(3,6)
proof (induction n arbitrary: en)
  case (Suc n)
  have b: "boxes (en_calls en) = box" "boxes (Suc (en_calls en)) = box" using Suc(2) by simp_all
  have none: "new_ids start label box = []" for label by (rule no_new_ids [OF assms(4)])
  obtain en1 where w: "history_walk env start en = Some (Inr (), en1)" "gids en1 = gids en" "en_calls en < en_calls en1"
    "load_history_cursor (en_store en1) = Some (max start (max (newest_history box) (newest_history box)))"
    using walk_run [OF assms(1,2), of "[]" start en "Suc (en_calls en)" "[]"] none b by auto
  have "step env Poll en = Some en1" using poll_run [OF w(1) Suc(3) assms(5)] by (simp add: step_def)
  moreover have "load_history_cursor (en_store en1) = Some start" using w(4) assms(4) by (simp add: max_absorb1)
  then obtain en' where "exec env (replicate n Poll) en1 = Some en'" "gids en' = gids en1" "load_history_cursor (en_store en') = Some start"
    using Suc(1) [of en1] Suc(2) w(3) by auto
  ultimately show ?case using w(2) by auto
qed simp


text \<open>A mail arrives before the exchange \<open>j\<close>.\<close>

abbreviation arriving :: "nat \<Rightarrow> gmail_mail \<Rightarrow> box \<Rightarrow> nat \<Rightarrow> box" where
  "arriving j m box \<equiv> (\<lambda>k. if k < j then box else box @ [m])"

lemma wf_arriving: "wf_box env (box @ [m]) \<Longrightarrow> wf_box env (arriving j m box k)"
  by (auto simp: wf_box_def)

lemma arriving_fetchable:
  assumes "wf_box env (box @ [m])" "x \<in> set box" "\<not> gx_gone x"
  shows "fetchable env (arriving j m box k) (gx_id x)"
proof -
  have "wf_box env box" using assms(1) by (auto simp: wf_box_def)
  then show ?thesis using fetchable_member [OF _ assms(2,3), of env "[]"] fetchable_member [OF _ assms(2,3), of env "[m]"] by simp
qed

lemma later_polls:
  assumes "serves env (arriving j m box)" "wf_box env (box @ [m])" "j \<le> en_calls en" "newest_history box < gx_history m"
    "load_history_cursor (en_store en) = Some (max start (gx_history m))"
  shows "\<exists>en'. exec env (replicate n Poll) en = Some en' \<and> gids en' = gids en \<and> load_history_cursor (en_store en') = Some (max start (gx_history m))"
  by (rule idle_polls [OF assms(1) wf_arriving [OF assms(2)], where box = "box @ [m]"])
    (use assms(3-5) in \<open>simp_all add: newest_append\<close>)

text \<open>C7. Mail that arrives during a poll can be lost for good: when it comes after the answer about INBOX and before
  the question about SENT, the answer about SENT moves the cursor past it, and no later poll, however
  many there are, brings it.\<close>
theorem mail_between_the_walks_is_lost:
  assumes "serves env (arriving j m box)" "wf_box env (box @ [m])" "\<And>x. x \<in> set box \<Longrightarrow> start < gx_history x \<Longrightarrow> \<not> gx_gone x"
    "load_history_cursor (en_store en) = Some start" "0 < start"
    "en_calls en < j" "j \<le> Suc (en_calls en + length (new_ids start LABEL_INBOX box))"
    "LABEL_SENT \<notin> set (gx_labels m)" "newest_history box < gx_history m" "gx_id m \<notin> gids en"
  shows "\<exists>en'. exec env (replicate (Suc n) Poll) en = Some en' \<and> gx_id m \<notin> gids en'
    \<and> load_history_cursor (en_store en') = Some (max start (gx_history m))"
proof -
  let ?inbox = "new_ids start LABEL_INBOX box" let ?sent = "new_ids start LABEL_SENT box"
  let ?mid = "Suc (en_calls en + length ?inbox)"
  have box: "arriving j m box (en_calls en) = box" "arriving j m box ?mid = box @ [m]" using assms(6,7) by simp_all
  have sent: "?sent = new_ids start LABEL_SENT (arriving j m box ?mid)"
    unfolding box(2) using assms(8) by (simp add: new_ids_def added_since_def labelled_def)
  have f: "fetchable env (arriving j m box k) gid" if "gid \<in> set (new_ids start label box)" for k gid label
    using that arriving_fetchable [OF assms(2)] assms(3) unfolding set_new_ids by blast
  have inbox: "?inbox = new_ids start LABEL_INBOX (arriving j m box (en_calls en))" unfolding box ..
  obtain en1 where w: "history_walk env start en = Some (Inr (), en1)" "gids en1 = gids en \<union> set ?inbox \<union> set ?sent" "?mid < en_calls en1"
    "load_history_cursor (en_store en1) = Some (max start (max (newest_history (arriving j m box (en_calls en))) (newest_history (arriving j m box ?mid))))"
    using walk_run [OF assms(1) wf_arriving [OF assms(2)] inbox refl sent f [where label = LABEL_INBOX] f [where label = LABEL_SENT]] by blast
  have cursor: "load_history_cursor (en_store en1) = Some (max start (gx_history m))"
    using w(4) assms(9) unfolding box by (simp add: newest_append)
  have "j \<le> en_calls en1" using assms(7) w(3) by linarith
  then obtain en' where e: "exec env (replicate n Poll) en1 = Some en'" "gids en' = gids en1" "load_history_cursor (en_store en') = Some (max start (gx_history m))"
    using later_polls [OF assms(1,2) _ assms(9) cursor] by blast
  have "step env Poll en = Some en1" using poll_run [OF w(1) assms(4,5)] by (simp add: step_def)
  moreover have "gx_id m \<notin> gids en'" using assms(2,10) unfolding e(2) w(2) set_new_ids wf_box_def by auto
  ultimately show ?thesis using e by (intro exI [of _ en']) simp
qed

lemma listed_fetchable: "wf_box env (box @ [m]) \<Longrightarrow> gid \<in> set (listed label box) \<Longrightarrow> fetchable env (arriving j m box k) gid"
proof -
  assume wf: "wf_box env (box @ [m])" and "gid \<in> set (listed label box)"
  then obtain x where "gid = gx_id x" "x \<in> set box" "\<not> gx_gone x" by (auto simp: listed_def labelled_def)
  then show ?thesis using arriving_fetchable [OF wf] by blast
qed

lemma backfill_run:
  assumes "serves env boxes" "\<And>k. wf_box env (boxes k)"
    "inbox = listed LABEL_INBOX (boxes (en_calls en))" "mid = Suc (en_calls en + length inbox)"
    "sent = listed LABEL_SENT (boxes mid)" "tip = Suc (mid + length sent)"
    "\<And>k gid. gid \<in> set inbox \<union> set sent \<Longrightarrow> fetchable env (boxes k) gid"
  shows "\<exists>en'. backfill_inner env en = Some (Inr (), en') \<and> gids en' = gids en \<union> set inbox \<union> set sent \<and> en_calls en' = Suc tip
    \<and> load_history_cursor (en_store en') = Some (newest_history (boxes tip))"
proof -
  let ?en1 = "en\<lparr>en_calls := Suc (en_calls en)\<rparr>"
  obtain en2 where f1: "fetch_raw_and_ingest env inbox Inbox Backfill Catch_up ?en1 = Some (Inr (length inbox), en2)"
    "en_calls en2 = mid" "gids en2 = gids en \<union> set inbox"
    using fetch_served [where mailbox = Inbox and origin = Backfill and retry = Catch_up and en = ?en1 and ids = inbox, OF assms(1)] assms(7)
    unfolding assms(4) by auto
  let ?en3 = "en2\<lparr>en_calls := Suc mid\<rparr>"
  obtain en4 where f2: "fetch_raw_and_ingest env sent Sent Backfill Catch_up ?en3 = Some (Inr (length sent), en4)"
    "en_calls en4 = tip" "gids en4 = gids en2 \<union> set sent"
    using fetch_served [where mailbox = Sent and origin = Backfill and retry = Catch_up and en = ?en3 and ids = sent, OF assms(1)] assms(7)
    unfolding assms(6) by auto
  let ?en5 = "en4\<lparr>en_calls := Suc tip\<rparr>"
  have l1: "list_message_ids_capped env LABEL_INBOX (window_query env) None Catch_up en = Some (Inr inbox, ?en1)"
    unfolding assms(3) by (rule list_served [OF assms(1)])
  have l2: "list_message_ids_capped env LABEL_SENT (window_query env) None Catch_up en2 = Some (Inr sent, ?en3)"
    using list_served [OF assms(1), of LABEL_SENT "window_query env" Catch_up en2] unfolding f1(2) assms(5) .
  have p: "fetch_profile_history_id env en4 = Some (Inr (newest_history (boxes tip)), ?en5)"
    using profile_served [OF assms(1,2), of en4] unfolding f2(2) .
  have "backfill_inner env en = Some (Inr (), store_history_cursor (newest_history (boxes tip)) ?en5)"
    unfolding backfill_inner_def l1 attempt_def by (simp add: f1(1) l2 f2(1) p)
  then show ?thesis using f1(3) f2(3) by (auto simp: store_cursor_gains(2))
qed

text \<open>C8. Mail that arrives during the first backfill is lost for good, from the answer that lists INBOX until the
  cursor is read, however long the fetches between take: the cursor is then already past it, and no
  later poll brings it.\<close>
theorem mail_during_the_backfill_is_lost:
  assumes "serves env (arriving j m box)" "wf_box env (box @ [m])" "load_history_cursor (en_store en) = None"
    "en_calls en < j" "j \<le> en_calls en + length (listed LABEL_INBOX box) + length (listed LABEL_SENT box) + 2"
    "LABEL_SENT \<notin> set (gx_labels m)" "newest_history box < gx_history m" "gx_id m \<notin> gids en"
  shows "\<exists>en'. exec env (Begin # replicate n Poll) en = Some en' \<and> gx_id m \<notin> gids en' \<and> load_history_cursor (en_store en') = Some (gx_history m)"
proof -
  let ?inbox = "listed LABEL_INBOX box" let ?sent = "listed LABEL_SENT box"
  let ?mid = "Suc (en_calls en + length ?inbox)" let ?tip = "Suc (?mid + length ?sent)"
  have inbox: "?inbox = listed LABEL_INBOX (arriving j m box (en_calls en))" using assms(4) by simp
  have sent: "?sent = listed LABEL_SENT (arriving j m box ?mid)" using assms(6) by (simp add: listed_def labelled_def)
  have f: "fetchable env (arriving j m box k) gid" if "gid \<in> set ?inbox \<union> set ?sent" for k gid
    using that listed_fetchable [OF assms(2)] by blast
  obtain en1 where b: "backfill_inner env en = Some (Inr (), en1)" "gids en1 = gids en \<union> set ?inbox \<union> set ?sent" "en_calls en1 = Suc ?tip"
    "load_history_cursor (en_store en1) = Some (newest_history (arriving j m box ?tip))"
    using backfill_run [OF assms(1) wf_arriving [OF assms(2)] inbox refl sent refl f] by blast
  have cursor: "load_history_cursor (en_store en1) = Some (max 0 (gx_history m))"
    using b(4) assms(5,7) by (simp add: newest_append)
  have "j \<le> en_calls en1" using assms(5) b(3) by simp
  then obtain en' where e: "exec env (replicate n Poll) en1 = Some en'" "gids en' = gids en1" "load_history_cursor (en_store en') = Some (max 0 (gx_history m))"
    using later_polls [OF assms(1,2) _ assms(7) cursor] by blast
  have "step env Begin en = Some en1" using b(1) assms(3) by (simp add: step_def start_lifecycle_def)
  moreover have "gx_id m \<notin> gids en'" using assms(2,8) unfolding e(2) b(2) by (auto simp: listed_def labelled_def wf_box_def)
  ultimately show ?thesis using e by (intro exI [of _ en']) simp
qed


section \<open>A poll that never moves on\<close>

lemma fetch_gone:
  assumes "serves env (\<lambda>_. box)" "gid \<in> set ids" "kept gid box = None"
  shows "\<exists>e en'. fetch_each env mailbox origin retry ids tally en = (Inl e, en')"
  using assms(2)
proof (induction ids arbitrary: tally en)
  case (Cons i ids)
  show ?case
  proof (cases "kept i box")
    case None
    then show ?thesis by (simp add: call_served [OF assms(1)])
  next
    case (Some m)
    then have "gid \<in> set ids" using Cons(2) assms(3) by auto
    with Cons(1) show ?thesis
      by (simp add: call_served [OF assms(1)] Some as_mail_def Let_def split: option.split)
  qed
qed simp

text \<open>That many polls in a row, each of which succeeds.\<close>

fun succeeding_polls :: "'c env \<Rightarrow> nat \<Rightarrow> 'c engine \<Rightarrow> 'c engine option" where
  "succeeding_polls env 0 en = Some en"
| "succeeding_polls env (Suc n) en = (case poll_once env en of Some (Inr _, en) \<Rightarrow> succeeding_polls env n en | _ \<Rightarrow> None)"

lemma succeeding_polls_exec: "succeeding_polls env n en = Some en' \<Longrightarrow> exec env (replicate n Poll) en = Some en'"
  by (induction n arbitrary: en) (auto simp: step_def split: option.splits sum.splits prod.splits unit.splits)

text \<open>C32. One mail that the account sent from elsewhere and then deleted for good stops the cursor: while the history
  lists it, every poll reports success and the cursor stays where it was, however many polls there are.\<close>
theorem deleted_sent_mail_holds_the_cursor:
  assumes "serves env (\<lambda>_. box)" "wf_box env box"
    "\<And>m. m \<in> set box \<Longrightarrow> start < gx_history m \<Longrightarrow> LABEL_INBOX \<in> set (gx_labels m) \<Longrightarrow> \<not> gx_gone m"
    "load_history_cursor (en_store en) = Some start" "0 < start"
    "x \<in> set box" "LABEL_SENT \<in> set (gx_labels x)" "LABEL_INBOX \<notin> set (gx_labels x)" "start < gx_history x" "gx_gone x"
  shows "\<exists>en'. succeeding_polls env n en = Some en' \<and> load_history_cursor (en_store en') = Some start"
  using assms(4)
proof (induction n arbitrary: en)
  case (Suc n)
  let ?inbox = "new_ids start LABEL_INBOX box" let ?sent = "new_ids start LABEL_SENT box"
  let ?en1 = "en\<lparr>en_calls := Suc (en_calls en)\<rparr>"
  have unique: "y = x" if "y \<in> set box" "gx_id y = gx_id x" for y
    using assms(2,6) that by (auto simp: wf_box_def distinct_map dest: inj_onD)
  have f: "fetchable env box gid" if "gid \<in> set ?inbox" for gid
    using that fetchable_member [OF assms(2), where extra = "[]"] assms(3) unfolding set_new_ids by auto
  obtain en2 where f1: "fetch_raw_and_ingest env ?inbox Inbox Incremental No_retry ?en1 = Some (Inr (length ?inbox), en2)"
    "ms_sync (en_store en2) = ms_sync (en_store en)"
    using fetch_served [where mailbox = Inbox and origin = Incremental and retry = No_retry and en = ?en1 and ids = ?inbox, OF assms(1)] f by auto
  let ?en3 = "en2\<lparr>en_calls := Suc (en_calls en2)\<rparr>"
  have "gx_id x \<in> set ?sent" unfolding set_new_ids using assms(6,7,9) by blast
  moreover have "gx_id x \<notin> set ?inbox"
  proof
    assume "gx_id x \<in> set ?inbox"
    then obtain y where "y \<in> set box" "LABEL_INBOX \<in> set (gx_labels y)" "gx_id y = gx_id x" unfolding set_new_ids by force
    then show False using unique assms(8) by blast
  qed
  ultimately have "gx_id x \<in> set (subtract_ids ?sent ?inbox)" by (simp add: subtract_ids_def)
  moreover have "kept (gx_id x) box = None" using unique assms(10) by (auto simp: kept_def find_None_iff)
  ultimately obtain e en4 where g: "fetch_each env Sent Incremental No_retry (subtract_ids ?sent ?inbox) 0 ?en3 = (Inl e, en4)"
    using fetch_gone [OF assms(1)] by blast
  have f2: "fetch_raw_and_ingest env (subtract_ids ?sent ?inbox) Sent Incremental No_retry ?en3 = Some (Inl e, en4)"
    by (simp add: fetch_raw_and_ingest_def g)
  have w: "history_walk env start en = Some (Inr (), en4)"
    using walk_served [OF assms(1,2), of start LABEL_INBOX en] walk_served [OF assms(1,2), of start LABEL_SENT en2] f1(1) f2
    by (simp add: history_walk_def sent_walk_def attempt_def)
  have "poll_once env en = Some (Inr (), en4)" by (rule poll_run [OF w Suc(2) assms(5)])
  moreover have "load_history_cursor (en_store en4) = Some start"
    using load_sync [of "en_store en4" "en_store en"] fetch_sync [OF f2] f1(2) Suc(2) by simp
  ultimately show ?case using Suc(1) [of en4] by simp
qed simp

section \<open>Examples\<close>

definition sample_env :: "(nat \<Rightarrow> box) \<Rightarrow> unit env" where
  "sample_env boxes = \<lparr>v_net = (\<lambda>k req. reply (gmail_answer (boxes k) req)), v_clock = (\<lambda>k. secs (int k)), v_b64 = (\<lambda>_ _. Some []),
     v_date = (\<lambda>_. None), v_parse = (\<lambda>_. \<lparr>pl_from = ''ann@x.org'', pl_received = None, pl_recipients = [''bob@y.org''],
       pl_to_addrs = Some ''bob@y.org'', pl_content = ()\<rparr>), v_days = 30, v_spam_max = 50,
     v_notify = \<lparr>min_importance = 70, freshness_window_secs = 3600, rescue_window_secs = 3600\<rparr>\<rparr>"

definition sample_engine :: "nat option \<Rightarrow> unit engine" where
  "sample_engine cursor = \<lparr>en_store = \<lparr>ms_rows = [], ms_contacts = [], ms_unsubscribes = [],
     ms_sync = (case cursor of Some h \<Rightarrow> [(HISTORY_KEY, \<lparr>ss_uidvalidity = 0, ss_last_uid = h\<rparr>)] | None \<Rightarrow> []),
     ms_spam_synced = None\<rparr>, en_calls = 0, en_wake = False\<rparr>"

definition sample_mail :: "string \<Rightarrow> string \<Rightarrow> nat \<Rightarrow> bool \<Rightarrow> gmail_mail" where
  "sample_mail gid label h gone = \<lparr>gx_id = gid, gx_labels = [label], gx_history = h, gx_raw = ''eA'', gx_recent = True, gx_gone = gone\<rparr>"

definition sample_box :: box where
  "sample_box = [sample_mail ''a1'' LABEL_INBOX 12 False, sample_mail ''b2'' LABEL_SENT 13 False]"

lemma sample_facts:
  "serves (sample_env boxes) boxes" "load_history_cursor (en_store (sample_engine cursor)) = cursor" "gids (sample_engine cursor) = {}"
  "wf_mail (en_store (sample_engine cursor))" "en_calls (sample_engine cursor) = 0" "ms_rows (en_store (sample_engine cursor)) = []"
  by (simp_all add: serves_def sample_env_def sample_engine_def load_history_cursor_def read_sync_state_def gids_def wf_mail_def split: option.split)

lemma sample_decodes: "decode_raw_b64url (v_b64 (sample_env boxes)) ''eA'' = Some []"
proof -
  have "byte_len (trim ''eA'') = 2" by code_simp
  then show ?thesis by (simp add: sample_env_def decode_raw_b64url_def MAX_RAW_BYTES_def)
qed

lemma sample_boxes:
  "wf_box (sample_env boxes) sample_box" "newest_history sample_box = 13" "labelled LABEL_INBOX sample_box = [sample_mail ''a1'' LABEL_INBOX 12 False]"
  "labelled LABEL_SENT sample_box = [sample_mail ''b2'' LABEL_SENT 13 False]"
  "wf_box (sample_env boxes) (sample_box @ [sample_mail ''c3'' label 14 gone])"
  by (simp_all add: sample_box_def sample_mail_def wf_box_def sample_decodes newest_history_def labelled_def LABEL_INBOX_def LABEL_SENT_def)

lemma sample_new: "new_ids 10 LABEL_INBOX sample_box = [''a1'']" "new_ids 10 LABEL_SENT sample_box = [''b2'']"
  "listed LABEL_INBOX sample_box = [''a1'']" "listed LABEL_SENT sample_box = [''b2'']"
  by (simp_all add: new_ids_def added_since_def listed_def sample_boxes) (simp_all add: sample_mail_def)

lemma sample_fetchable: "gid \<in> {''a1'', ''b2''} \<Longrightarrow> fetchable (sample_env boxes) sample_box gid"
  by (auto simp: fetchable_def kept_def sample_box_def sample_mail_def sample_decodes)

text \<open>A Gmail that lists the first record on a page of its own.\<close>

fun cut_answer :: "box \<Rightarrow> request \<Rightarrow> payload option" where
  "cut_answer box (History_list start label tok) = Some (History_page
     \<lparr>hp_history = (if tok = None then take 1 else drop 1) (map history_entry (added_since start label box)),
      hp_next = (if tok = None then Some ''rest'' else None), hp_history_id = Some (show_nat (newest_history box))\<rparr>)"
| "cut_answer box req = gmail_answer box req"

definition cut_env :: "box \<Rightarrow> unit env" where
  "cut_env box = (sample_env (\<lambda>_. box))\<lparr>v_net := \<lambda>k req. reply (cut_answer box req)\<rparr>"

lemma cut_paged: "paged (cut_env box) start box"
proof -
  have m: "serves_mail (cut_env box) (\<lambda>_. box)" by (simp add: serves_mail_def cut_env_def)
  have "\<exists>pages n. served (cut_env box) start label None k pages n \<and> concat (map hp_history pages) = map history_entry (added_since start label box)
      \<and> (\<forall>page \<in> set pages. hp_history_id page = Some (show_nat (newest_history box)))" for label k
  proof -
    let ?es = "map history_entry (added_since start label box)" let ?h = "Some (show_nat (newest_history box))"
    let ?p1 = "\<lparr>hp_history = take 1 ?es, hp_next = Some ''rest'', hp_history_id = ?h\<rparr>"
    let ?p2 = "\<lparr>hp_history = drop 1 ?es, hp_next = None, hp_history_id = ?h\<rparr>"
    have a: "answered (cut_env box) (History_list start label None) k ?p1 (Suc k)"
      "answered (cut_env box) (History_list start label (Some ''rest'')) (Suc k) ?p2 (Suc (Suc k))"
      by (simp_all add: answered_def cut_env_def reply_def is_success_def)
    have "served (cut_env box) start label None k [?p1, ?p2] (Suc (Suc k))"
      by (rule served.page [OF a(1) _ served.last_page [OF a(2)]]) simp_all
    then show ?thesis by (intro exI conjI) (assumption, simp_all flip: map_append)
  qed
  with m show ?thesis by (simp add: paged_def)
qed

theorem quiet_poll_misses_nothing_witness:
  "\<exists>en'. poll_once (cut_env (sample_box @ [sample_mail ''c3'' LABEL_INBOX 14 False])) (sample_engine (Some 10)) = Some (Inr (), en')
    \<and> load_history_cursor (en_store en') = Some 14 \<and> gids en' = {''a1'', ''b2'', ''c3''}"
proof -
  let ?box = "sample_box @ [sample_mail ''c3'' LABEL_INBOX 14 False]"
  have g: "m \<in> set ?box \<Longrightarrow> 10 < gx_history m \<Longrightarrow> LABEL_INBOX \<in> set (gx_labels m) \<or> LABEL_SENT \<in> set (gx_labels m) \<Longrightarrow> \<not> gx_gone m" for m
    by (auto simp: sample_box_def sample_mail_def)
  have w: "wf_box (cut_env ?box) ?box" using sample_boxes(5) [of "\<lambda>_. ?box" LABEL_INBOX False] by (simp add: wf_box_def cut_env_def)
  have n: "newest_history ?box = 14" by (simp add: newest_append sample_boxes(2)) (simp add: sample_mail_def)
  have "gx_id ` {m \<in> set ?box. 10 < gx_history m \<and> (LABEL_INBOX \<in> set (gx_labels m) \<or> LABEL_SENT \<in> set (gx_labels m))} = {''a1'', ''b2'', ''c3''}"
    unfolding set_filter [symmetric] by (simp add: sample_box_def sample_mail_def)
  then show ?thesis
    using quiet_poll_misses_nothing [where start = 10, OF cut_paged w g sample_facts(2)] by (simp add: n sample_facts)
qed

theorem mail_between_the_walks_is_lost_witness:
  "\<exists>en'. exec (sample_env (arriving 2 (sample_mail ''c3'' LABEL_INBOX 14 False) sample_box)) (replicate (Suc 5) Poll) (sample_engine (Some 10)) = Some en'
    \<and> ''c3'' \<notin> gids en' \<and> load_history_cursor (en_store en') = Some 14"
proof -
  let ?m = "sample_mail ''c3'' LABEL_INBOX 14 False"
  have g: "m \<in> set sample_box \<Longrightarrow> 10 < gx_history m \<Longrightarrow> \<not> gx_gone m" for m by (auto simp: sample_box_def sample_mail_def)
  have m: "gx_id ?m = ''c3''" "gx_history ?m = 14" "LABEL_SENT \<notin> set (gx_labels ?m)" by (simp_all add: sample_mail_def LABEL_INBOX_def LABEL_SENT_def)
  show ?thesis
    using mail_between_the_walks_is_lost [where start = 10 and j = 2 and m = ?m and n = 5, OF sample_facts(1) sample_boxes(5) g sample_facts(2)]
    by (simp add: sample_boxes sample_facts sample_new m)
qed

theorem mail_during_the_backfill_is_lost_witness:
  "\<exists>en'. exec (sample_env (arriving 2 (sample_mail ''c3'' LABEL_INBOX 14 False) sample_box)) (Begin # replicate 5 Poll) (sample_engine None) = Some en'
    \<and> ''c3'' \<notin> gids en' \<and> load_history_cursor (en_store en') = Some 14"
proof -
  let ?m = "sample_mail ''c3'' LABEL_INBOX 14 False"
  have m: "gx_id ?m = ''c3''" "gx_history ?m = 14" "LABEL_SENT \<notin> set (gx_labels ?m)" by (simp_all add: sample_mail_def LABEL_INBOX_def LABEL_SENT_def)
  show ?thesis
    using mail_during_the_backfill_is_lost [where j = 2 and m = ?m and n = 5, OF sample_facts(1) sample_boxes(5) sample_facts(2)]
    by (simp add: sample_boxes sample_facts sample_new m)
qed

theorem deleted_sent_mail_holds_the_cursor_witness:
  "\<exists>en'. succeeding_polls (sample_env (\<lambda>_. sample_box @ [sample_mail ''c3'' LABEL_SENT 14 True])) 5 (sample_engine (Some 10)) = Some en'
    \<and> load_history_cursor (en_store en') = Some 10"
proof -
  let ?m = "sample_mail ''c3'' LABEL_SENT 14 True"
  have g: "m \<in> set (sample_box @ [?m]) \<Longrightarrow> 10 < gx_history m \<Longrightarrow> LABEL_INBOX \<in> set (gx_labels m) \<Longrightarrow> \<not> gx_gone m" for m
    by (auto simp: sample_box_def sample_mail_def LABEL_INBOX_def LABEL_SENT_def)
  have m: "gx_history ?m = 14" "LABEL_SENT \<in> set (gx_labels ?m)" "LABEL_INBOX \<notin> set (gx_labels ?m)" "gx_gone ?m"
    by (simp_all add: sample_mail_def LABEL_INBOX_def LABEL_SENT_def)
  show ?thesis
    using deleted_sent_mail_holds_the_cursor [where start = 10 and x = ?m and n = 5, OF sample_facts(1) sample_boxes(5) g sample_facts(2)]
    by (simp add: m)
qed

end
