(* ===== verification/Mail_Promises.thy ===== *)
theory Mail_Promises
  imports Mail_Gaps
begin

text \<open>
  What the sync engine (\<open>squelch-core/src/sync/mod.rs\<close>) promises whatever Gmail answers: what the store keeps over
  any run, what the backfill may not do, where the cursor may be, and what fetching a mail again
  changes. The lemmas are those of \<open>Mail_Sync\<close>; the examples run on the mailboxes of \<open>Mail_Gaps\<close>.
\<close>

text \<open>C6. Whatever Gmail answers and however often a mail is fetched again, under whatever label: it has one row, which
  keeps its id and the moment it was first seen; a mail once shown is never hidden as sent or as spam,
  and one that may not notify never may.\<close>
theorem mail_only_gains_visibility:
  assumes "exec env cs en = Some en'" "wf_mail (en_store en)"
  shows "wf_mail (en_store en') \<and> gains (en_store en) (en_store en')"
  using micros_store [OF exec_micro [OF assms(1)] assms(2)] by blast

text \<open>C9. The first backfill is silent for good: no mail that it stored, or that a visit to the spam folder stored,
  may ever notify, whatever is fetched again afterwards.\<close>
theorem backfilled_mail_stays_silent:
  assumes "backfill_inner env en = Some (r, en1)" "ms_rows (en_store en) = []" "exec env cs en1 = Some en'"
  shows "\<forall>m \<in> set (ms_rows (en_store en1)). \<exists>m' \<in> set (ms_rows (en_store en')). mr_gid m' = mr_gid m \<and> mr_eligible m' = None"
proof
  fix m assume m: "m \<in> set (ms_rows (en_store en1))"
  have wf: "wf_mail (en_store en)" using assms(2) by (simp add: wf_mail_def)
  have "wf_mail (en_store en1)" using micros_store [OF backfill_micro [OF assms(1)] wf] by blast
  then have "gains (en_store en1) (en_store en')" using micros_store [OF exec_micro [OF assms(3)]] by blast
  moreover have "mr_eligible m = None"
    using silent_micros [OF backfill_micro [OF assms(1)] wf] m assms(2) by auto
  ultimately show "\<exists>m' \<in> set (ms_rows (en_store en')). mr_gid m' = mr_gid m \<and> mr_eligible m' = None"
    using m unfolding gains_def by metis
qed



text \<open>C31. Every sighting of a mail counts again: fetched k times, one mail to a person makes k mails to them, and one
  late mail of a sender unsubscribed from makes k violations. A held cursor fetches the same mail at
  every poll, a catch-up the mail of the whole window.\<close>
theorem every_sighting_counts_again:
  "(tm_recipients t = [addr] \<and> trim addr \<noteq> [] \<longrightarrow> sent_count addr ((ingest_message t ^^ k) s) = sent_count addr s + int k)
   \<and> (let sender = to_ascii_lowercase (trim (nm_from (tm_message t))) in \<forall>u. \<not> nm_sent (tm_message t) \<and> sender \<noteq> []
        \<and> find (\<lambda>u. un_sender u = sender) (ms_unsubscribes s) = Some u \<and> \<not> un_resolved u \<and> un_requested u + hours 72 < nm_received (tm_message t)
      \<longrightarrow> violations sender ((ingest_message t ^^ k) s) = violations sender s + int k)"
proof (intro conjI impI)
  assume "tm_recipients t = [addr] \<and> trim addr \<noteq> []"
  then show "sent_count addr ((ingest_message t ^^ k) s) = sent_count addr s + int k"
    by (induction k) (simp_all add: sent_count_ingest)
next
  let ?sender = "to_ascii_lowercase (trim (nm_from (tm_message t)))"
  have "violations ?sender ((ingest_message t ^^ k) s) = violations ?sender s + int k
      \<and> (\<exists>u'. find (\<lambda>u. un_sender u = ?sender) (ms_unsubscribes ((ingest_message t ^^ k) s)) = Some u' \<and> \<not> un_resolved u' \<and> un_requested u' = un_requested u)"
    if "\<not> nm_sent (tm_message t)" "?sender \<noteq> []" "find (\<lambda>u. un_sender u = ?sender) (ms_unsubscribes s) = Some u" "\<not> un_resolved u"
      "un_requested u + hours 72 < nm_received (tm_message t)" for u
  proof (induction k)
    case 0
    then show ?case using that by simp
  next
    case (Suc k)
    then obtain u' where u': "find (\<lambda>u. un_sender u = ?sender) (ms_unsubscribes ((ingest_message t ^^ k) s)) = Some u'"
      "\<not> un_resolved u'" "un_requested u' = un_requested u" by blast
    have "un_requested u' + hours 72 < nm_received (tm_message t)" using u'(3) that(5) by simp
    from violations_ingest [OF that(1) refl that(2) u'(1,2) this] show ?case using Suc u'(3) by simp
  qed
  then show "let sender = ?sender in \<forall>u. \<not> nm_sent (tm_message t) \<and> sender \<noteq> []
        \<and> find (\<lambda>u. un_sender u = sender) (ms_unsubscribes s) = Some u \<and> \<not> un_resolved u \<and> un_requested u + hours 72 < nm_received (tm_message t)
      \<longrightarrow> violations sender ((ingest_message t ^^ k) s) = violations sender s + int k"
    unfolding Let_def by blast
qed


section \<open>Examples\<close>

text \<open>The backfill of the sample mailbox, and polls after it.\<close>

abbreviation quiet_env :: "unit env" where
  "quiet_env \<equiv> sample_env (\<lambda>_. sample_box)"

lemma sample_run:
  "\<exists>en en'. backfill_inner quiet_env (sample_engine None) = Some (Inr (), en) \<and> gids en = {''a1'', ''b2''} \<and> exec quiet_env (replicate n Poll) en = Some en'"
proof -
  obtain en where b: "backfill_inner quiet_env (sample_engine None) = Some (Inr (), en)" "gids en = gids (sample_engine None) \<union> set [''a1''] \<union> set [''b2'']"
    "load_history_cursor (en_store en) = Some 13"
    using backfill_run [where env = quiet_env and boxes = "\<lambda>_. sample_box" and en = "sample_engine None",
        OF sample_facts(1) sample_boxes(1) sample_new(3) [symmetric] refl sample_new(4) [symmetric] refl]
      sample_fetchable by (auto simp: sample_boxes(2))
  obtain en' where "exec quiet_env (replicate n Poll) en = Some en'"
    using idle_polls [OF sample_facts(1) sample_boxes(1) refl _ _ b(3)] sample_boxes(2) by auto
  then show ?thesis using b sample_facts(3) by auto
qed

theorem mail_only_gains_visibility_witness:
  "\<exists>en en'. exec quiet_env (replicate 3 Poll) en = Some en' \<and> gids en = {''a1'', ''b2''} \<and> wf_mail (en_store en') \<and> gains (en_store en) (en_store en')"
proof -
  obtain en en' where r: "backfill_inner quiet_env (sample_engine None) = Some (Inr (), en)" "gids en = {''a1'', ''b2''}"
    "exec quiet_env (replicate 3 Poll) en = Some en'" using sample_run by blast
  have "wf_mail (en_store en)" using micros_store [OF backfill_micro [OF r(1)] sample_facts(4)] by blast
  from mail_only_gains_visibility [OF r(3) this] show ?thesis using r by blast
qed

theorem backfilled_mail_stays_silent_witness:
  "\<exists>en en'. backfill_inner quiet_env (sample_engine None) = Some (Inr (), en) \<and> gids en = {''a1'', ''b2''} \<and> exec quiet_env (replicate 3 Poll) en = Some en'
    \<and> (\<forall>m \<in> set (ms_rows (en_store en)). \<exists>m' \<in> set (ms_rows (en_store en')). mr_gid m' = mr_gid m \<and> mr_eligible m' = None)"
proof -
  obtain en en' where r: "backfill_inner quiet_env (sample_engine None) = Some (Inr (), en)" "gids en = {''a1'', ''b2''}"
    "exec quiet_env (replicate 3 Poll) en = Some en'" using sample_run by blast
  from backfilled_mail_stays_silent [OF r(1) sample_facts(6) r(3)] show ?thesis using r by blast
qed


definition sample_sighting :: "bool \<Rightarrow> unit triaged_message" where
  "sample_sighting sent = \<lparr>tm_message = \<lparr>nm_gid = ''b2'', nm_from = ''ann@x.org'', nm_received = hours 100, nm_sent = sent, nm_spam = False,
     nm_to_addrs = None, nm_content = ()\<rparr>, tm_recipients = [''bob@y.org''], tm_eligible = None, tm_foreground = False\<rparr>"

definition sample_store :: "unit mail_store" where
  "sample_store = (en_store (sample_engine None))\<lparr>ms_unsubscribes :=
     [\<lparr>un_sender = ''ann@x.org'', un_requested = 0, un_resolved = False, un_violations = 0, un_last = None\<rparr>]\<rparr>"

theorem every_sighting_counts_again_witness:
  "sent_count ''bob@y.org'' ((ingest_message (sample_sighting True) ^^ 3) sample_store) = 3
   \<and> violations ''ann@x.org'' ((ingest_message (sample_sighting False) ^^ 3) sample_store) = 3"
proof
  have "trim ''bob@y.org'' \<noteq> []" by code_simp
  moreover have "sent_count ''bob@y.org'' sample_store = 0" by (simp add: sent_count_def sample_store_def sample_engine_def)
  ultimately show "sent_count ''bob@y.org'' ((ingest_message (sample_sighting True) ^^ 3) sample_store) = 3"
    using every_sighting_counts_again [of "sample_sighting True" "''bob@y.org''" 3 sample_store] by (simp add: sample_sighting_def)
next
  have t: "to_ascii_lowercase (trim ''ann@x.org'') = ''ann@x.org''" by code_simp
  have h: "hours 72 < hours 100" by code_simp
  have f: "nm_from (tm_message (sample_sighting False)) = ''ann@x.org''" "\<not> nm_sent (tm_message (sample_sighting False))"
    "nm_received (tm_message (sample_sighting False)) = hours 100" by (simp_all add: sample_sighting_def)
  have u: "find (\<lambda>u. un_sender u = ''ann@x.org'') (ms_unsubscribes sample_store)
      = Some \<lparr>un_sender = ''ann@x.org'', un_requested = 0, un_resolved = False, un_violations = 0, un_last = None\<rparr>"
    by (simp add: sample_store_def)
  have "violations ''ann@x.org'' ((ingest_message (sample_sighting False) ^^ 3) sample_store) = violations ''ann@x.org'' sample_store + int 3"
    using every_sighting_counts_again [of "sample_sighting False" "''bob@y.org''" 3 sample_store, THEN conjunct2]
    unfolding f t Let_def u using h f by simp
  then show "violations ''ann@x.org'' ((ingest_message (sample_sighting False) ^^ 3) sample_store) = 3"
    by (simp add: violations_def u)
qed

end
