(* ===== verification/Mail_Authenticity.thy ===== *)
theory Mail_Authenticity
  imports Rust_Text
begin

text \<open>
  Whether a mail is from whom it says (\<open>squelch-core/src/sync/ingest.rs\<close>): the verdict that Gmail wrote in an
  \<open>Authentication-Results\<close> header, read from a message whose other headers, and parts of that one, a stranger
  wrote. A header is its name, whether the parser takes it for \<open>From\<close>, and its raw value where that is UTF-8.
\<close>

section \<open>The text of a verdict\<close>

definition GMAIL_AUTHSERV_ID :: string where
  "GMAIL_AUTHSERV_ID = ''mx.google.com''"

definition eq_ignore_ascii_case :: "string \<Rightarrow> string \<Rightarrow> bool" where
  "eq_ignore_ascii_case a b \<longleftrightarrow> to_ascii_lowercase a = to_ascii_lowercase b"

definition trim_end_of :: "char list \<Rightarrow> string \<Rightarrow> string" where
  "trim_end_of cs s = rev (dropWhile (\<lambda>c. c \<in> set cs) (rev s))"

text \<open>The scanner's state, and one character.\<close>

record scan =
  sc_fields :: "string list list"
  sc_tokens :: "string list"
  sc_token :: string
  sc_depth :: nat
  sc_quoted :: bool
  sc_escaped :: bool

definition push :: "char \<Rightarrow> scan \<Rightarrow> scan" where
  "push c s = (if sc_depth s = 0 then s\<lparr>sc_token := sc_token s @ [c]\<rparr> else s)"

definition end_token :: "scan \<Rightarrow> scan" where
  "end_token s = (if sc_token s = [] then s else s\<lparr>sc_tokens := sc_tokens s @ [sc_token s], sc_token := []\<rparr>)"

definition scan_char :: "scan \<Rightarrow> char \<Rightarrow> scan" where
  "scan_char s c = (if sc_escaped s then (let s = s\<lparr>sc_escaped := False\<rparr> in if sc_quoted s then push c s else s)
     else if sc_quoted s then
       (if c = CHR 0x5C then s\<lparr>sc_escaped := True\<rparr> else if c = CHR 0x22 then push c (s\<lparr>sc_quoted := False\<rparr>) else push c s)
     else if 0 < sc_depth s then
       (if c = CHR 0x5C then s\<lparr>sc_escaped := True\<rparr> else if c = CHR 0x22 then s\<lparr>sc_quoted := True\<rparr>
        else if c = CHR ''('' then s\<lparr>sc_depth := sc_depth s + 1\<rparr> else if c = CHR '')'' then s\<lparr>sc_depth := sc_depth s - 1\<rparr> else s)
     else if c = CHR 0x22 then push c (s\<lparr>sc_quoted := True\<rparr>)
     else if c \<in> {CHR ''('', CHR '')'', CHR '';'', CHR '' '', CHR 0x09, CHR 0x0D, CHR 0x0A} then
       (let s = end_token s in if c = CHR ''('' then s\<lparr>sc_depth := 1\<rparr>
          else if c = CHR '';'' then s\<lparr>sc_fields := sc_fields s @ [sc_tokens s], sc_tokens := []\<rparr> else s)
     else push c s)"

definition scan_start :: scan where
  "scan_start = \<lparr>sc_fields = [], sc_tokens = [], sc_token = [], sc_depth = 0, sc_quoted = False, sc_escaped = False\<rparr>"

definition tokenize_auth_results :: "string \<Rightarrow> string list list option" where
  "tokenize_auth_results raw = (let s = foldl scan_char scan_start raw
     in if sc_depth s \<noteq> 0 \<or> sc_quoted s \<or> sc_escaped s then None
        else let s = end_token s in Some (filter (\<lambda>f. f \<noteq> []) (sc_fields s @ [sc_tokens s])))"

text \<open>The domain that a result is about.\<close>

fun dmarc_header_from :: "string list \<Rightarrow> string option" where
  "dmarc_header_from [] = None"
| "dmarc_header_from (t # ts) = (case split_once (CHR ''='') t of
     None \<Rightarrow> dmarc_header_from ts
   | Some (key, v) \<Rightarrow>
       if \<not> eq_ignore_ascii_case key ''header.from'' then dmarc_header_from ts
       else let v = trim_matches (CHR 0x22) v; v = (case rsplit (CHR ''@'') v of Some (_, d) \<Rightarrow> d | None \<Rightarrow> v)
            in if v = [] then None else Some v)"

definition read_signer :: "string option \<times> string option \<Rightarrow> string \<Rightarrow> string option \<times> string option" where
  "read_signer di t = (let (d, i) = di in case split_once (CHR ''='') t of
     None \<Rightarrow> (d, i)
   | Some (key, v) \<Rightarrow> let v = trim_matches (CHR 0x22) v
       in (if eq_ignore_ascii_case key ''header.d'' \<and> d = None then (if v = [] then None else Some (to_ascii_lowercase v)) else d,
           if eq_ignore_ascii_case key ''header.i'' \<and> i = None
           then (case rsplit (CHR ''@'') v of Some (_, host) \<Rightarrow> if host = [] then None else Some (to_ascii_lowercase host) | None \<Rightarrow> None)
           else i))"

definition dkim_signing_domain :: "string list \<Rightarrow> string option" where
  "dkim_signing_domain ts = (case foldl read_signer (None, None) ts of
     (Some d, Some i) \<Rightarrow> if i = d \<or> ends_with i (CHR ''.'' # d) then Some d else None
   | (Some d, None) \<Rightarrow> Some d
   | (None, i) \<Rightarrow> i)"

definition addr_domain :: "string \<Rightarrow> string option" where
  "addr_domain addr = (case rsplit (CHR ''@'') (trim addr) of None \<Rightarrow> None
   | Some (_, domain) \<Rightarrow> let domain = to_ascii_lowercase (trim_end_of ''.'' (trim domain))
       in if domain = [] then None else Some domain)"

definition domains_aligned :: "string \<Rightarrow> string \<Rightarrow> bool" where
  "domains_aligned signing from_domain = (let signing = to_ascii_lowercase (trim_end_of ''.'' (trim signing));
       from_domain = to_ascii_lowercase (trim_end_of ''.'' (trim from_domain))
     in if signing = [] \<or> from_domain = [] then False
        else signing = from_domain \<or> (case strip_suffix from_domain signing of
            Some parent \<Rightarrow> ends_with parent ''.'' \<and> 1 < byte_len parent | None \<Rightarrow> False))"

text \<open>One field of results: whether anything was evaluated, and whether the mail passed.\<close>

definition judge :: "string \<Rightarrow> bool \<times> bool \<Rightarrow> string list \<Rightarrow> bool \<times> bool" where
  "judge from_domain ev field = (let (evaluated, verdict) = ev in case split_once (CHR ''='') (hd field) of
     None \<Rightarrow> (evaluated, verdict)
   | Some (meth, result) \<Rightarrow>
       if \<not> eq_ignore_ascii_case result ''pass'' then (True, verdict)
       else if eq_ignore_ascii_case meth ''dmarc'' then
         (True, verdict \<or> (case dmarc_header_from (tl field) of Some d \<Rightarrow> domains_aligned d from_domain | None \<Rightarrow> False))
       else if eq_ignore_ascii_case meth ''dkim'' then
         (True, verdict \<or> (case dkim_signing_domain (tl field) of Some d \<Rightarrow> domains_aligned d from_domain | None \<Rightarrow> False))
       else (True, verdict))"

definition auth_results_verdict :: "string \<Rightarrow> string \<Rightarrow> bool option" where
  "auth_results_verdict raw from_addr = (case addr_domain from_addr of None \<Rightarrow> None | Some from_domain \<Rightarrow>
     (case tokenize_auth_results raw of None \<Rightarrow> None | Some [] \<Rightarrow> None | Some (f # results) \<Rightarrow>
       if \<not> eq_ignore_ascii_case (hd f) GMAIL_AUTHSERV_ID then None
       else let (evaluated, verdict) = foldl (judge from_domain) (False, False) results
            in if evaluated then Some verdict else None))"

section \<open>The headers of a message\<close>

record mail_header =
  hd_name :: string
  hd_from :: bool
  hd_raw :: "string option"

definition google_wrote :: "mail_header \<Rightarrow> bool" where
  "google_wrote h = (if eq_ignore_ascii_case (hd_name h) ''X-Google-Smtp-Source'' then True
     else if \<not> eq_ignore_ascii_case (hd_name h) ''Received'' then False
     else case hd_raw h of None \<Rightarrow> False | Some v \<Rightarrow>
       let tokens = split_whitespace v
       in list_ex (\<lambda>(a, b). eq_ignore_ascii_case a ''by'' \<and> eq_ignore_ascii_case (trim_end_of '';.,'' b) GMAIL_AUTHSERV_ID)
            (zip tokens (tl tokens)))"

definition is_auth_results :: "mail_header \<Rightarrow> bool" where
  "is_auth_results h \<longleftrightarrow> eq_ignore_ascii_case (hd_name h) ''Authentication-Results''"

definition pulled_with_pop :: "mail_header \<Rightarrow> bool" where
  "pulled_with_pop h \<longleftrightarrow> eq_ignore_ascii_case (hd_name h) ''X-Gmail-Fetch-Info''"

definition extract_auth_pass :: "mail_header list \<Rightarrow> string \<Rightarrow> bool option" where
  "extract_auth_pass hs from_addr = (if 1 < length (filter hd_from hs) then None
     else if list_ex pulled_with_pop hs then None
     else case dropWhile (\<lambda>h. \<not> is_auth_results h) hs of [] \<Rightarrow> None
       | h # _ \<Rightarrow> if \<not> list_ex google_wrote (takeWhile (\<lambda>h. \<not> is_auth_results h) hs) then None
           else case hd_raw h of None \<Rightarrow> None | Some v \<Rightarrow> auth_results_verdict v from_addr)"


section \<open>What a sender can write into the verdict\<close>

text \<open>The inside of a quoted string, as a mail server may echo it: no bare quote, and no backslash alone at the end.\<close>

fun quoted_text :: "string \<Rightarrow> bool" where
  "quoted_text [] \<longleftrightarrow> True"
| "quoted_text (c # s) \<longleftrightarrow> (if c = CHR 0x5C then (case s of [] \<Rightarrow> False | _ # r \<Rightarrow> quoted_text r) else c \<noteq> CHR 0x22 \<and> quoted_text s)"

text \<open>What it adds to the token.\<close>

fun unescaped :: "string \<Rightarrow> string" where
  "unescaped [] = []"
| "unescaped (c # s) = (if c = CHR 0x5C then (case s of [] \<Rightarrow> [] | d # r \<Rightarrow> d # unescaped r) else c # unescaped s)"

lemma scan_quoted_text:
  assumes "quoted_text q" "sc_quoted s" "\<not> sc_escaped s"
  shows "foldl scan_char s q = (if sc_depth s = 0 then s\<lparr>sc_token := sc_token s @ unescaped q\<rparr> else s)"
  using assms
proof (induction q arbitrary: s rule: quoted_text.induct)
  case (2 c q)
  show ?case
  proof (cases "c = CHR 0x5C")
    case True
    then obtain d r where q: "q = d # r" "quoted_text r" using 2(3) by (cases q) auto
    let ?s = "push d s"
    have "sc_quoted ?s" "\<not> sc_escaped ?s" using 2(4,5) by (auto simp: push_def)
    have "scan_char (scan_char s c) d = ?s" using 2(4,5) True by (cases s) (simp add: scan_char_def)
    then have "foldl scan_char s (c # q) = foldl scan_char ?s r" by (simp add: q(1))
    then show ?thesis using 2(1) [OF True q(1,2) \<open>sc_quoted ?s\<close> \<open>\<not> sc_escaped ?s\<close>] True q(1) by (simp add: push_def)
  next
    case False
    then have "quoted_text q" "c \<noteq> CHR 0x22" using 2(3) by simp_all
    let ?s = "push c s"
    have "sc_quoted ?s" "\<not> sc_escaped ?s" using 2(4,5) by (auto simp: push_def)
    have "scan_char s c = ?s" using 2(4,5) False \<open>c \<noteq> CHR 0x22\<close> by (simp add: scan_char_def)
    then show ?thesis using 2(2) [OF False \<open>quoted_text q\<close> \<open>sc_quoted ?s\<close> \<open>\<not> sc_escaped ?s\<close>] False by (simp add: push_def)
  qed
qed simp

text \<open>A whole quoted string: nothing at all in a comment, and otherwise a part of the token it stands in.\<close>

lemma scan_quoted_string:
  assumes "quoted_text q" "\<not> sc_quoted s" "\<not> sc_escaped s"
  shows "foldl scan_char s (CHR 0x22 # q @ [CHR 0x22])
    = (if sc_depth s = 0 then s\<lparr>sc_token := sc_token s @ CHR 0x22 # unescaped q @ [CHR 0x22]\<rparr> else s)"
proof -
  let ?s = "(push (CHR 0x22) s)\<lparr>sc_quoted := True\<rparr>"
  have e: "scan_char s (CHR 0x22) = ?s" using assms(2,3) by (simp add: scan_char_def push_def)
  have f: "foldl scan_char ?s q = (if sc_depth s = 0 then ?s\<lparr>sc_token := sc_token ?s @ unescaped q\<rparr> else ?s)"
    using scan_quoted_text [OF assms(1), of ?s] assms(3) by (simp add: push_def)
  have g: "scan_char u (CHR 0x22) = push (CHR 0x22) (u\<lparr>sc_quoted := False\<rparr>)" if "sc_quoted u" "\<not> sc_escaped u" for u
    using that by (simp add: scan_char_def)
  have "foldl scan_char s (CHR 0x22 # q @ [CHR 0x22]) = scan_char (foldl scan_char ?s q) (CHR 0x22)" by (simp add: e)
  also have "\<dots> = push (CHR 0x22) ((foldl scan_char ?s q)\<lparr>sc_quoted := False\<rparr>)" by (rule g) (unfold f, use assms(3) in \<open>simp_all add: push_def\<close>)
  also have "\<dots> = (if sc_depth s = 0 then s\<lparr>sc_token := sc_token s @ CHR 0x22 # unescaped q @ [CHR 0x22]\<rparr> else s)"
    unfolding f using assms(2,3) by (cases s) (simp add: push_def)
  finally show ?thesis .
qed

text \<open>Two tokens that no reader of results tells apart: equal, or properties of one name, not one of those read, with a
  quoted value.\<close>

definition unread :: "string \<Rightarrow> bool" where
  "unread key \<longleftrightarrow> CHR ''='' \<notin> set key \<and> \<not> eq_ignore_ascii_case key ''header.from'' \<and> \<not> eq_ignore_ascii_case key ''header.d''
     \<and> \<not> eq_ignore_ascii_case key ''header.i''"

definition alike :: "string \<Rightarrow> string \<Rightarrow> bool" where
  "alike t t' \<longleftrightarrow> t = t' \<or> (\<exists>key v v'. t = key @ CHR ''='' # v \<and> t' = key @ CHR ''='' # v' \<and> unread key
     \<and> CHR 0x22 \<in> set v \<and> CHR 0x22 \<in> set v')"

lemma alike_refl [simp]: "alike t t"
  by (simp add: alike_def)

lemma alike_append: "alike t t' \<Longrightarrow> alike (t @ w) (t' @ w)"
proof -
  assume "alike t t'"
  then consider "t = t'" | key v v' where "t = key @ CHR ''='' # v" "t' = key @ CHR ''='' # v'" "unread key" "CHR 0x22 \<in> set v" "CHR 0x22 \<in> set v'"
    unfolding alike_def by blast
  then show ?thesis
  proof cases
    case 2
    then have "t @ w = key @ CHR ''='' # (v @ w)" "t' @ w = key @ CHR ''='' # (v' @ w)" "CHR 0x22 \<in> set (v @ w)" "CHR 0x22 \<in> set (v' @ w)" by simp_all
    then show ?thesis unfolding alike_def using 2(3) by blast
  qed simp
qed

lemma alike_Nil: "alike t t' \<Longrightarrow> t = [] \<longleftrightarrow> t' = []"
  unfolding alike_def by auto

lemma ascii_lower_special [simp]: "ascii_lower c = CHR ''='' \<longleftrightarrow> c = CHR ''=''" "ascii_lower c = CHR 0x22 \<longleftrightarrow> c = CHR 0x22"
  by (auto simp: ascii_lower_def is_ascii_upper_def dest!: arg_cong [where f = "of_char :: char \<Rightarrow> nat"])

lemma eq_case_mem: "eq_ignore_ascii_case a b \<Longrightarrow> q \<in> {CHR ''='', CHR 0x22} \<Longrightarrow> q \<in> set a \<longleftrightarrow> q \<in> set b"
proof -
  assume e: "eq_ignore_ascii_case a b" and q: "q \<in> {CHR ''='', CHR 0x22}"
  have "q \<in> set (to_ascii_lowercase s) \<longleftrightarrow> q \<in> set s" for s
  proof -
    have c: "ascii_lower c = q \<longleftrightarrow> c = q" for c using q by auto
    have "q \<in> set (to_ascii_lowercase s) \<longleftrightarrow> (\<exists>c \<in> set s. ascii_lower c = q)" by (auto simp: to_ascii_lowercase_def)
    then show ?thesis unfolding c by blast
  qed
  then show ?thesis using e unfolding eq_ignore_ascii_case_def by metis
qed

definition same_scan :: "scan \<Rightarrow> scan \<Rightarrow> bool" where
  "same_scan s s' \<longleftrightarrow> list_all2 (list_all2 alike) (sc_fields s) (sc_fields s') \<and> list_all2 alike (sc_tokens s) (sc_tokens s')
     \<and> alike (sc_token s) (sc_token s') \<and> sc_depth s = sc_depth s' \<and> sc_quoted s = sc_quoted s' \<and> sc_escaped s = sc_escaped s'"

lemma same_push: "same_scan s s' \<Longrightarrow> same_scan (push c s) (push c s')"
  by (auto simp: same_scan_def push_def alike_append)

lemma same_end: "same_scan s s' \<Longrightarrow> same_scan (end_token s) (end_token s')"
  using alike_Nil [of "sc_token s" "sc_token s'"] by (auto simp: same_scan_def end_token_def intro: list_all2_appendI)

lemma same_updates:
  "same_scan s s' \<Longrightarrow> same_scan (s\<lparr>sc_quoted := q\<rparr>) (s'\<lparr>sc_quoted := q\<rparr>)"
  "same_scan s s' \<Longrightarrow> same_scan (s\<lparr>sc_escaped := q\<rparr>) (s'\<lparr>sc_escaped := q\<rparr>)"
  "same_scan s s' \<Longrightarrow> same_scan (s\<lparr>sc_depth := n\<rparr>) (s'\<lparr>sc_depth := n\<rparr>)"
  "same_scan s s' \<Longrightarrow> same_scan (s\<lparr>sc_fields := sc_fields s @ [sc_tokens s], sc_tokens := []\<rparr>) (s'\<lparr>sc_fields := sc_fields s' @ [sc_tokens s'], sc_tokens := []\<rparr>)"
  by (auto simp: same_scan_def intro: list_all2_appendI)

lemma same_if: "(b \<Longrightarrow> same_scan x x') \<Longrightarrow> (\<not> b \<Longrightarrow> same_scan y y') \<Longrightarrow> same_scan (if b then x else y) (if b then x' else y')"
  by simp

lemma same_scan_char: "same_scan s s' \<Longrightarrow> same_scan (scan_char s c) (scan_char s' c)"
proof -
  assume s: "same_scan s s'"
  have e: "sc_depth s' = sc_depth s" "sc_quoted s' = sc_quoted s" "sc_escaped s' = sc_escaped s" using s by (simp_all add: same_scan_def)
  have e': "sc_quoted (u\<lparr>sc_escaped := b\<rparr>) = sc_quoted u" for u b by simp
  show ?thesis
    by (simp only: scan_char_def e e' Let_def) (intro same_if same_push same_end same_updates s)
qed

lemma same_foldl: "same_scan s s' \<Longrightarrow> same_scan (foldl scan_char s w) (foldl scan_char s' w)"
  by (induction w arbitrary: s s') (simp_all add: same_scan_char)

lemma same_tokens:
  assumes "same_scan (foldl scan_char scan_start a) (foldl scan_char scan_start a')"
  shows "rel_option (list_all2 (list_all2 alike)) (tokenize_auth_results a) (tokenize_auth_results a')"
proof -
  let ?s = "foldl scan_char scan_start a" let ?s' = "foldl scan_char scan_start a'"
  have "list_all2 (list_all2 alike) (sc_fields (end_token ?s) @ [sc_tokens (end_token ?s)]) (sc_fields (end_token ?s') @ [sc_tokens (end_token ?s')])"
    using same_end [OF assms] by (auto simp: same_scan_def intro: list_all2_appendI)
  then have "list_all2 (list_all2 alike) (filter (\<lambda>f. f \<noteq> []) (sc_fields (end_token ?s) @ [sc_tokens (end_token ?s)]))
      (filter (\<lambda>f. f \<noteq> []) (sc_fields (end_token ?s') @ [sc_tokens (end_token ?s')]))"
    by (induction rule: list_all2_induct) auto
  then show ?thesis using assms by (simp add: tokenize_auth_results_def Let_def same_scan_def)
qed


lemma split_once_plain: "q \<notin> set a \<Longrightarrow> split_once q (a @ q # b) = Some (a, b)"
  by (simp add: split_once_Some)

text \<open>Each reader of a token treats two that are alike in the same way.\<close>

lemma alikeE:
  assumes "alike t t'"
  obtains "t = t'" | key v v' where "split_once (CHR ''='') t = Some (key, v)" "split_once (CHR ''='') t' = Some (key, v')"
    "unread key" "CHR 0x22 \<in> set v" "CHR 0x22 \<in> set v'" "CHR ''='' \<in> set t" "CHR ''='' \<in> set t'"
  using assms unfolding alike_def by (auto simp: split_once_plain unread_def)

lemma alike_header_from: "list_all2 alike ts ts' \<Longrightarrow> dmarc_header_from ts = dmarc_header_from ts'"
proof (induction rule: list_all2_induct)
  case (Cons t ts t' ts')
  from Cons(1) show ?case
  proof (cases rule: alikeE)
    case 1
    then show ?thesis using Cons(3) by (simp split: option.split)
  next
    case (2 key v v')
    then show ?thesis using Cons(3) by (simp add: unread_def)
  qed
qed simp

lemma alike_read_signer: "alike t t' \<Longrightarrow> read_signer di t = read_signer di t'"
  by (erule alikeE) (simp_all add: read_signer_def unread_def Let_def split: prod.split)

lemma alike_signer: "list_all2 alike ts ts' \<Longrightarrow> dkim_signing_domain ts = dkim_signing_domain ts'"
proof -
  assume "list_all2 alike ts ts'"
  then have "foldl read_signer di ts = foldl read_signer di ts'" for di
    by (induction arbitrary: di rule: list_all2_induct) (simp_all add: alike_read_signer)
  then show ?thesis by (simp add: dkim_signing_domain_def)
qed

lemma not_pass: "CHR 0x22 \<in> set v \<Longrightarrow> \<not> eq_ignore_ascii_case v ''pass''"
  using eq_case_mem [of v "''pass''" "CHR 0x22"] by auto

lemma alike_judge: "list_all2 alike f f' \<Longrightarrow> f \<noteq> [] \<Longrightarrow> judge d ev f = judge d ev f'"
proof -
  assume f: "list_all2 alike f f'" "f \<noteq> []"
  then obtain t ts t' ts' where e: "f = t # ts" "f' = t' # ts'" "alike t t'" "list_all2 alike ts ts'" by (cases f; cases f') auto
  from e(3) show ?thesis
    by (cases rule: alikeE) (simp_all add: e judge_def alike_header_from [OF e(4)] alike_signer [OF e(4)] not_pass split: prod.split option.split)
qed

lemma alike_id: "alike t t' \<Longrightarrow> eq_ignore_ascii_case t GMAIL_AUTHSERV_ID \<longleftrightarrow> eq_ignore_ascii_case t' GMAIL_AUTHSERV_ID"
  by (erule alikeE) (auto simp: GMAIL_AUTHSERV_ID_def dest: eq_case_mem [where q = "CHR ''=''"])

lemma tokenized_fields: "tokenize_auth_results raw = Some fs \<Longrightarrow> [] \<notin> set fs"
  by (auto simp: tokenize_auth_results_def Let_def split: if_splits)

lemma same_verdict:
  assumes "same_scan (foldl scan_char scan_start a) (foldl scan_char scan_start a')"
  shows "auth_results_verdict a from_addr = auth_results_verdict a' from_addr"
proof -
  consider "tokenize_auth_results a = None" "tokenize_auth_results a' = None"
    | fs fs' where "tokenize_auth_results a = Some fs" "tokenize_auth_results a' = Some fs'" "list_all2 (list_all2 alike) fs fs'"
    using same_tokens [OF assms] by (auto elim: option.rel_cases)
  then show ?thesis
  proof cases
    case 1
    then show ?thesis by (simp add: auth_results_verdict_def split: option.split)
  next
    case 2
    have "foldl (judge d) ev gs = foldl (judge d) ev gs'" if "list_all2 (list_all2 alike) gs gs'" "[] \<notin> set gs" for d ev gs gs'
      using that by (induction arbitrary: ev rule: list_all2_induct) (auto simp: alike_judge)
    moreover have "eq_ignore_ascii_case (hd f) GMAIL_AUTHSERV_ID \<longleftrightarrow> eq_ignore_ascii_case (hd f') GMAIL_AUTHSERV_ID"
      if "list_all2 alike f f'" "f \<noteq> []" for f f'
      using that alike_id by (cases f; cases f') auto
    ultimately show ?thesis using 2(3) tokenized_fields [OF 2(1)]
      by (cases fs; cases fs') (auto simp: auth_results_verdict_def 2(1,2) split: option.split)
  qed
qed

text \<open>C10. Nothing that a sender puts in a quoted string, which Gmail echoes as it stands, changes the verdict: not in a
  comment, and not in the value of a property other than the three that are read, whatever separators,
  brackets or results it spells.\<close>
theorem quoted_text_cannot_change_the_verdict:
  assumes "quoted_text q" "quoted_text q'" "\<not> sc_quoted (foldl scan_char scan_start a)" "\<not> sc_escaped (foldl scan_char scan_start a)"
    "sc_depth (foldl scan_char scan_start a) = 0 \<Longrightarrow> \<exists>key v. sc_token (foldl scan_char scan_start a) = key @ CHR ''='' # v \<and> unread key"
  shows "auth_results_verdict (a @ CHR 0x22 # q @ CHR 0x22 # b) from_addr = auth_results_verdict (a @ CHR 0x22 # q' @ CHR 0x22 # b) from_addr"
proof (rule same_verdict)
  let ?s = "foldl scan_char scan_start a"
  let ?t = "\<lambda>q. if sc_depth ?s = 0 then ?s\<lparr>sc_token := sc_token ?s @ CHR 0x22 # unescaped q @ [CHR 0x22]\<rparr> else ?s"
  have e: "foldl scan_char scan_start (a @ CHR 0x22 # q @ CHR 0x22 # b) = foldl scan_char (?t q) b" if "quoted_text q" for q
  proof -
    have "a @ CHR 0x22 # q @ CHR 0x22 # b = a @ (CHR 0x22 # q @ [CHR 0x22]) @ b" by simp
    then show ?thesis using scan_quoted_string [OF that assms(3,4)] by (simp only: foldl_append)
  qed
  have refl: "same_scan s s" for s by (simp add: same_scan_def list_all2_refl list.rel_refl)
  have "same_scan (?t q) (?t q')"
  proof (cases "sc_depth ?s = 0")
    case True
    then obtain key v where k: "sc_token ?s = key @ CHR ''='' # v" "unread key" using assms(5) by blast
    have "alike (sc_token ?s @ CHR 0x22 # unescaped q @ [CHR 0x22]) (sc_token ?s @ CHR 0x22 # unescaped q' @ [CHR 0x22])"
      unfolding alike_def k(1) using k(2) by (intro disjI2 exI [of _ key] exI [of _ "v @ CHR 0x22 # unescaped q @ [CHR 0x22]"] exI [of _ "v @ CHR 0x22 # unescaped q' @ [CHR 0x22]"]) simp
    then show ?thesis using refl [of ?s] True by (simp add: same_scan_def)
  qed (simp add: refl)
  then show "same_scan (foldl scan_char scan_start (a @ CHR 0x22 # q @ CHR 0x22 # b)) (foldl scan_char scan_start (a @ CHR 0x22 # q' @ CHR 0x22 # b))"
    unfolding e [OF assms(1)] e [OF assms(2)] by (rule same_foldl)
qed

section \<open>What a pass means\<close>

definition plain_domain :: "string \<Rightarrow> string" where
  "plain_domain d = to_ascii_lowercase (trim_end_of ''.'' (trim d))"

text \<open>A signer speaks for its own domain and for those below it.\<close>

definition vouches_for :: "string \<Rightarrow> string \<Rightarrow> bool" where
  "vouches_for signer d \<longleftrightarrow> signer \<noteq> [] \<and> (d = signer \<or> (\<exists>sub. sub \<noteq> [] \<and> d = sub @ CHR ''.'' # signer))"

lemma domains_aligned_iff: "domains_aligned signing d \<longleftrightarrow> vouches_for (plain_domain signing) (plain_domain d)"
proof -
  let ?s = "plain_domain signing" let ?d = "plain_domain d"
  have "(\<exists>parent. strip_suffix ?d ?s = Some parent \<and> ends_with parent ''.'' \<and> 1 < byte_len parent) \<longleftrightarrow> (\<exists>sub. sub \<noteq> [] \<and> ?d = sub @ CHR ''.'' # ?s)"
    (is "?l \<longleftrightarrow> ?r")
  proof
    assume ?l
    then obtain sub where "?d = (sub @ ''.'') @ ?s" "1 < byte_len (sub @ ''.'')" by (auto simp: strip_suffix_Some ends_with_iff)
    then have "?d = sub @ CHR ''.'' # ?s" "sub \<noteq> []" by (auto simp: byte_len_def is_ascii_def)
    then show ?r by blast
  next
    assume ?r
    then obtain sub where "sub \<noteq> []" "?d = (sub @ ''.'') @ ?s" by auto
    moreover have "1 < byte_len (sub @ ''.'')" using byte_len_ge [of sub] \<open>sub \<noteq> []\<close> by (cases sub) (auto simp: byte_len_def)
    ultimately show ?l by (auto simp: strip_suffix_Some ends_with_iff)
  qed
  then show ?thesis
    unfolding domains_aligned_def vouches_for_def Let_def plain_domain_def [symmetric] by (auto split: option.splits)
qed

text \<open>The values that the properties of one name have, in order, without their quotes; what stands behind the last at sign.\<close>

definition values_of :: "string \<Rightarrow> string list \<Rightarrow> string list" where
  "values_of key ts = List.map_filter (\<lambda>t. case split_once (CHR ''='') t of
     Some (k, v) \<Rightarrow> if eq_ignore_ascii_case k key then Some (trim_matches (CHR 0x22) v) else None | None \<Rightarrow> None) ts"

definition behind_at :: "string \<Rightarrow> string" where
  "behind_at v = rev (takeWhile (\<lambda>c. c \<noteq> CHR ''@'') (rev v))"

text \<open>For whom a result speaks: DMARC for the domain of the first \<open>header.from\<close>; DKIM for the first domain that a
  \<open>header.d\<close> names, unless the first identity that a \<open>header.i\<close> names is of a domain neither that nor below
  it, and without a \<open>header.d\<close> for the domain of the identity.\<close>

definition speaks_for_from :: "string list \<Rightarrow> string \<Rightarrow> bool" where
  "speaks_for_from ts signer \<longleftrightarrow> (\<exists>v vs. values_of ''header.from'' ts = v # vs \<and> signer = behind_at v \<and> signer \<noteq> [])"

definition signing_domains :: "string list \<Rightarrow> string list" where
  "signing_domains ts = filter (\<lambda>d. d \<noteq> []) (map to_ascii_lowercase (values_of ''header.d'' ts))"

definition identity_domains :: "string list \<Rightarrow> string list" where
  "identity_domains ts = filter (\<lambda>d. d \<noteq> []) (map (\<lambda>v. to_ascii_lowercase (behind_at v))
     (filter (\<lambda>v. CHR ''@'' \<in> set v) (values_of ''header.i'' ts)))"

definition speaks_for_signer :: "string list \<Rightarrow> string \<Rightarrow> bool" where
  "speaks_for_signer ts signer \<longleftrightarrow> (case (signing_domains ts, identity_domains ts) of
     (d # _, i # _) \<Rightarrow> signer = d \<and> (i = d \<or> (\<exists>sub. i = sub @ CHR ''.'' # d))
   | (d # _, []) \<Rightarrow> signer = d
   | ([], i # _) \<Rightarrow> signer = i
   | ([], []) \<Rightarrow> False)"

lemma behind_at_split: "(case rsplit (CHR ''@'') v of Some (_, d) \<Rightarrow> d | None \<Rightarrow> v) = behind_at v"
proof (cases "CHR ''@'' \<in> set v")
  case False
  then have all: "takeWhile (\<lambda>c. c \<noteq> CHR ''@'') (rev v) = rev v" by (auto simp: takeWhile_eq_all_conv)
  have "behind_at v = v" unfolding behind_at_def all by simp
  then show ?thesis using False by (simp add: rsplit_def)
qed (simp add: rsplit_def behind_at_def)

lemma collected_simps:
  "values_of key [] = []"
  "values_of key (t # ts) = (case split_once (CHR ''='') t of
     Some (k, v) \<Rightarrow> if eq_ignore_ascii_case k key then trim_matches (CHR 0x22) v # values_of key ts else values_of key ts
   | None \<Rightarrow> values_of key ts)"
  by (simp_all add: values_of_def List.map_filter_def split: option.split)

lemma dmarc_header_from_iff: "dmarc_header_from ts = Some signer \<longleftrightarrow> speaks_for_from ts signer"
proof (induction ts)
  case (Cons t ts)
  show ?case
  proof (cases "\<exists>k v. split_once (CHR ''='') t = Some (k, v) \<and> eq_ignore_ascii_case k ''header.from''")
    case True
    then obtain k v where t: "split_once (CHR ''='') t = Some (k, v)" "eq_ignore_ascii_case k ''header.from''" by blast
    let ?d = "behind_at (trim_matches (CHR 0x22) v)"
    have "dmarc_header_from (t # ts) = (if ?d = [] then None else Some ?d)" by (simp add: t behind_at_split Let_def)
    moreover have "speaks_for_from (t # ts) signer \<longleftrightarrow> signer = ?d \<and> ?d \<noteq> []" by (auto simp: speaks_for_from_def collected_simps t)
    ultimately show ?thesis by auto
  next
    case False
    then have "dmarc_header_from (t # ts) = dmarc_header_from ts" "values_of ''header.from'' (t # ts) = values_of ''header.from'' ts"
      by (auto simp: collected_simps split: option.split)
    then show ?thesis using Cons by (simp add: speaks_for_from_def)
  qed
qed (simp add: speaks_for_from_def collected_simps)

text \<open>The fold keeps the first of each.\<close>

definition first_of :: "'a option \<Rightarrow> 'a list \<Rightarrow> 'a option" where
  "first_of a xs = (case a of Some x \<Rightarrow> Some x | None \<Rightarrow> (case xs of [] \<Rightarrow> None | x # _ \<Rightarrow> Some x))"

lemma read_signer_fold:
  "foldl read_signer (d, i) ts = (first_of d (signing_domains ts), first_of i (identity_domains ts))"
proof (induction ts arbitrary: d i)
  case Nil
  then show ?case by (simp add: first_of_def signing_domains_def identity_domains_def collected_simps split: option.split)
next
  case (Cons t ts)
  show ?case
  proof (cases "split_once (CHR ''='') t")
    case None
    then have "read_signer (d, i) t = (d, i)" by (simp add: read_signer_def)
    then show ?thesis
      by (simp add: Cons None signing_domains_def identity_domains_def collected_simps)
  next
    case (Some kv)
    obtain k v where kv: "kv = (k, v)" by (cases kv)
    let ?v = "trim_matches (CHR 0x22) v"
    have no: "\<not> (eq_ignore_ascii_case k ''header.d'' \<and> eq_ignore_ascii_case k ''header.i'')"
      by (auto simp: eq_ignore_ascii_case_def to_ascii_lowercase_def ascii_lower_def is_ascii_upper_def)
    have e: "to_ascii_lowercase w = [] \<longleftrightarrow> w = []" for w by (simp add: to_ascii_lowercase_def)
    have "read_signer (d, i) t = (if eq_ignore_ascii_case k ''header.d'' \<and> d = None then (if ?v = [] then None else Some (to_ascii_lowercase ?v)) else d,
        if eq_ignore_ascii_case k ''header.i'' \<and> i = None
        then (if CHR ''@'' \<in> set ?v \<and> behind_at ?v \<noteq> [] then Some (to_ascii_lowercase (behind_at ?v)) else None) else i)"
      by (cases "CHR ''@'' \<in> set ?v") (simp_all add: read_signer_def Some kv Let_def rsplit_def behind_at_def)
    then show ?thesis
      using no by (auto simp: Some kv Cons first_of_def signing_domains_def identity_domains_def collected_simps e split: option.split)
  qed
qed

lemma dkim_signing_domain_iff: "dkim_signing_domain ts = Some signer \<longleftrightarrow> speaks_for_signer ts signer"
proof -
  have e: "ends_with i (CHR ''.'' # d) \<longleftrightarrow> (\<exists>sub. i = sub @ CHR ''.'' # d)" for i d by (auto simp: ends_with_iff)
  show ?thesis
    by (cases "signing_domains ts"; cases "identity_domains ts")
      (auto simp: dkim_signing_domain_def read_signer_fold speaks_for_signer_def first_of_def e)
qed

text \<open>The signers that one field of results names as having passed.\<close>

definition passed_signer :: "string list \<Rightarrow> string \<Rightarrow> bool" where
  "passed_signer field signer \<longleftrightarrow> (\<exists>meth result. split_once (CHR ''='') (hd field) = Some (meth, result) \<and> eq_ignore_ascii_case result ''pass''
     \<and> (eq_ignore_ascii_case meth ''dmarc'' \<and> speaks_for_from (tl field) signer
        \<or> eq_ignore_ascii_case meth ''dkim'' \<and> speaks_for_signer (tl field) signer))"

lemma judge_passed:
  "snd (judge d (e, v) field) \<longleftrightarrow> v \<or> (\<exists>signer. passed_signer field signer \<and> vouches_for (plain_domain signer) (plain_domain d))"
  "fst (judge d (e, v) field) \<longleftrightarrow> e \<or> split_once (CHR ''='') (hd field) \<noteq> None"
proof -
  have no: "\<not> (eq_ignore_ascii_case meth ''dmarc'' \<and> eq_ignore_ascii_case meth ''dkim'')" for meth
    by (auto simp: eq_ignore_ascii_case_def to_ascii_lowercase_def ascii_lower_def is_ascii_upper_def)
  show "snd (judge d (e, v) field) \<longleftrightarrow> v \<or> (\<exists>signer. passed_signer field signer \<and> vouches_for (plain_domain signer) (plain_domain d))"
    using no by (auto simp: judge_def passed_signer_def domains_aligned_iff
        simp flip: dmarc_header_from_iff dkim_signing_domain_iff split: option.splits)
qed (auto simp: judge_def split: option.split)

lemma judge_all:
  "foldl (judge d) (e, v) fs = (e \<or> (\<exists>f \<in> set fs. split_once (CHR ''='') (hd f) \<noteq> None),
     v \<or> (\<exists>f \<in> set fs. \<exists>signer. passed_signer f signer \<and> vouches_for (plain_domain signer) (plain_domain d)))"
proof (induction fs arbitrary: e v)
  case (Cons f fs)
  have "judge d (e, v) f = (e \<or> split_once (CHR ''='') (hd f) \<noteq> None,
      v \<or> (\<exists>signer. passed_signer f signer \<and> vouches_for (plain_domain signer) (plain_domain d)))"
    by (rule prod_eqI) (simp_all add: judge_passed)
  then show ?case using Cons by auto
qed simp

text \<open>The domain of an address, and whether Gmail's text has a pass that speaks for it.\<close>

definition sender_domain :: "string \<Rightarrow> string \<Rightarrow> bool" where
  "sender_domain addr d \<longleftrightarrow> (\<exists>local domain. trim addr = local @ CHR ''@'' # domain \<and> CHR ''@'' \<notin> set domain
     \<and> d = plain_domain domain \<and> d \<noteq> [])"

definition gmail_passed :: "string \<Rightarrow> string \<Rightarrow> bool" where
  "gmail_passed raw d \<longleftrightarrow> (\<exists>f fs field signer. tokenize_auth_results raw = Some (f # fs)
     \<and> eq_ignore_ascii_case (hd f) ''mx.google.com'' \<and> field \<in> set fs \<and> passed_signer field signer
     \<and> vouches_for (plain_domain signer) (plain_domain d))"

text \<open>A line that Google's servers put on a mail they took in.\<close>

definition stamped_by_google :: "mail_header \<Rightarrow> bool" where
  "stamped_by_google h \<longleftrightarrow> eq_ignore_ascii_case (hd_name h) ''X-Google-Smtp-Source''
     \<or> eq_ignore_ascii_case (hd_name h) ''Received'' \<and> (\<exists>v a x y b. hd_raw h = Some v \<and> split_whitespace v = a @ x # y # b
         \<and> eq_ignore_ascii_case x ''by'' \<and> eq_ignore_ascii_case (trim_end_of '';.,'' y) ''mx.google.com'')"

lemma zip_tl_mem: "(x, y) \<in> set (zip ts (tl ts)) \<longleftrightarrow> (\<exists>a b. ts = a @ x # y # b)"
proof (induction ts)
  case (Cons t ts)
  show ?case
  proof
    assume "(x, y) \<in> set (zip (t # ts) (tl (t # ts)))"
    then consider r where "t = x" "ts = y # r" | "(x, y) \<in> set (zip ts (tl ts))" by (cases ts) auto
    then show "\<exists>a b. t # ts = a @ x # y # b"
    proof cases
      case 1
      then show ?thesis by (intro exI [of _ "[]"] exI [of _ r]) simp
    next
      case 2
      then obtain a b where "ts = a @ x # y # b" using Cons by blast
      then show ?thesis by (intro exI [of _ "t # a"] exI [of _ b]) simp
    qed
  next
    assume "\<exists>a b. t # ts = a @ x # y # b"
    then obtain a b where ab: "t # ts = a @ x # y # b" by blast
    show "(x, y) \<in> set (zip (t # ts) (tl (t # ts)))"
    proof (cases a)
      case (Cons t' a')
      then have "(x, y) \<in> set (zip ts (tl ts))" using Cons.IH ab by auto
      then show ?thesis by (cases ts) auto
    qed (use ab in auto)
  qed
qed simp

lemma google_wrote_iff: "google_wrote h \<longleftrightarrow> stamped_by_google h"
proof -
  have "list_ex p (zip ts (tl ts)) \<longleftrightarrow> (\<exists>a x y b. ts = a @ x # y # b \<and> p (x, y))" for p and ts :: "string list"
    unfolding list_ex_iff using zip_tl_mem [of _ _ ts] by (metis surj_pair)
  then show ?thesis
    unfolding google_wrote_def stamped_by_google_def GMAIL_AUTHSERV_ID_def by (auto simp: Let_def split: option.split)
qed

lemma addr_domain_iff: "addr_domain addr = Some d \<longleftrightarrow> sender_domain addr d"
proof (cases "rsplit (CHR ''@'') (trim addr)")
  case None
  then have "CHR ''@'' \<notin> set (trim addr)" by (simp add: rsplit_None)
  then show ?thesis by (auto simp: addr_domain_def sender_domain_def None)
next
  case (Some ab)
  obtain a b where ab: "ab = (a, b)" by (cases ab)
  have "trim addr = l @ CHR ''@'' # w \<and> CHR ''@'' \<notin> set w \<longleftrightarrow> l = a \<and> w = b" for l w
    unfolding rsplit_Some [symmetric] Some ab by auto
  then have "sender_domain addr d \<longleftrightarrow> d = plain_domain b \<and> d \<noteq> []"
    unfolding sender_domain_def conj_assoc [symmetric] by auto
  then show ?thesis by (auto simp: addr_domain_def plain_domain_def Some ab Let_def)
qed

lemma verdict_passed: "auth_results_verdict raw from_addr = Some True \<longleftrightarrow> (\<exists>d. sender_domain from_addr d \<and> gmail_passed raw d)"
proof -
  have "passed_signer f signer \<Longrightarrow> split_once (CHR ''='') (hd f) \<noteq> None" for f signer by (auto simp: passed_signer_def)
  then show ?thesis
    by (auto simp: auth_results_verdict_def judge_all gmail_passed_def GMAIL_AUTHSERV_ID_def simp flip: addr_domain_iff
        split: option.splits list.splits if_splits) blast+
qed

lemma first_split:
  "(case dropWhile (\<lambda>x. \<not> p x) xs of [] \<Rightarrow> False | x # _ \<Rightarrow> Q (takeWhile (\<lambda>x. \<not> p x) xs) x)
     \<longleftrightarrow> (\<exists>a x b. xs = a @ x # b \<and> p x \<and> (\<forall>y \<in> set a. \<not> p y) \<and> Q a x)"
proof (cases "dropWhile (\<lambda>x. \<not> p x) xs")
  case Nil
  then have "\<forall>x \<in> set xs. \<not> p x" by (simp add: dropWhile_eq_Nil_conv)
  then show ?thesis unfolding Nil by auto
next
  case (Cons z zs)
  then have z: "p z" by (metis hd_dropWhile list.distinct(1) list.sel(1))
  have xs: "xs = takeWhile (\<lambda>x. \<not> p x) xs @ z # zs" using Cons by (metis takeWhile_dropWhile_id)
  have only: "a = takeWhile (\<lambda>x. \<not> p x) xs \<and> x = z" if e: "xs = a @ x # b" and x: "p x" and a: "\<forall>y \<in> set a. \<not> p y" for a x b
  proof -
    have t: "takeWhile (\<lambda>x. \<not> p x) xs = a" unfolding e using x a by (simp add: takeWhile_append2)
    have "dropWhile (\<lambda>x. \<not> p x) xs = x # b" unfolding e using x a by (simp add: dropWhile_append2)
    then show ?thesis using t Cons by simp
  qed
  have before: "\<forall>y \<in> set (takeWhile (\<lambda>x. \<not> p x) xs). \<not> p y" by (auto dest: set_takeWhileD)
  show ?thesis unfolding Cons list.case
  proof
    assume "Q (takeWhile (\<lambda>x. \<not> p x) xs) z"
    then show "\<exists>a x b. xs = a @ x # b \<and> p x \<and> (\<forall>y \<in> set a. \<not> p y) \<and> Q a x"
      by (intro exI conjI) (rule xs, rule z, rule before)
  next
    assume "\<exists>a x b. xs = a @ x # b \<and> p x \<and> (\<forall>y \<in> set a. \<not> p y) \<and> Q a x"
    then obtain a x b where e: "xs = a @ x # b" "p x" "\<forall>y \<in> set a. \<not> p y" and q: "Q a x" by (elim exE conjE)
    from only [OF e] q show "Q (takeWhile (\<lambda>x. \<not> p x) xs) z" by simp
  qed
qed

text \<open>C11. A mail passes exactly when it has one \<open>From\<close> at most, was not pulled from another account, its first
  \<open>Authentication-Results\<close> stands below a line that Google's servers put there, and that header's text, by
  \<open>mx.google.com\<close>, has a result \<open>dmarc=pass\<close> or \<open>dkim=pass\<close> that speaks for a domain which is the sender's or one the
  sender's lies below. A pass for any other domain, or for one below the sender's, or for a signer whose
  identity is not below the domain it signs for, is none.\<close>
theorem pass_is_bound_to_the_sender:
  "extract_auth_pass hs from_addr = Some True \<longleftrightarrow>
     length (filter hd_from hs) \<le> 1 \<and> (\<forall>h \<in> set hs. \<not> eq_ignore_ascii_case (hd_name h) ''X-Gmail-Fetch-Info'')
   \<and> (\<exists>above h below raw d. hs = above @ h # below
       \<and> eq_ignore_ascii_case (hd_name h) ''Authentication-Results''
       \<and> (\<forall>g \<in> set above. \<not> eq_ignore_ascii_case (hd_name g) ''Authentication-Results'')
       \<and> (\<exists>g \<in> set above. stamped_by_google g)
       \<and> hd_raw h = Some raw \<and> sender_domain from_addr d \<and> gmail_passed raw d)"
proof -
  let ?no = "\<lambda>h. \<not> is_auth_results h"
  have none: "\<not> list_ex pulled_with_pop hs \<longleftrightarrow> (\<forall>h \<in> set hs. \<not> eq_ignore_ascii_case (hd_name h) ''X-Gmail-Fetch-Info'')"
    by (auto simp: list_ex_iff pulled_with_pop_def)
  have first: "(case dropWhile ?no hs of [] \<Rightarrow> False | h # _ \<Rightarrow> list_ex google_wrote (takeWhile ?no hs) \<and> Q h)
    \<longleftrightarrow> (\<exists>above h below. hs = above @ h # below \<and> is_auth_results h \<and> (\<forall>g \<in> set above. \<not> is_auth_results g)
          \<and> (\<exists>g \<in> set above. stamped_by_google g) \<and> Q h)" for Q
    unfolding first_split [where p = is_auth_results and xs = hs and Q = "\<lambda>a h. list_ex google_wrote a \<and> Q h"] by (simp add: list_ex_iff google_wrote_iff)
  have verdict: "extract_auth_pass hs from_addr = Some True \<longleftrightarrow> length (filter hd_from hs) \<le> 1 \<and> \<not> list_ex pulled_with_pop hs
      \<and> (case dropWhile ?no hs of [] \<Rightarrow> False | h # _ \<Rightarrow> list_ex google_wrote (takeWhile ?no hs)
           \<and> (\<exists>raw d. hd_raw h = Some raw \<and> sender_domain from_addr d \<and> gmail_passed raw d))"
  proof (cases "dropWhile ?no hs")
    case (Cons h below)
    then show ?thesis unfolding extract_auth_pass_def Cons by (cases "hd_raw h") (simp_all add: verdict_passed not_less)
  next
    case Nil
    show ?thesis unfolding extract_auth_pass_def Nil by simp
  qed
  show ?thesis unfolding verdict none first unfolding is_auth_results_def by blast
qed

text \<open>Headers that a sender wrote stand below the one that Gmail put on top, and can only take a pass away: whatever is
  below the first \<open>Authentication-Results\<close>, the answer is that of the headers down to it, or none.\<close>
theorem lower_headers_only_take_away:
  assumes "list_ex is_auth_results hs"
  shows "extract_auth_pass (hs @ lower) from_addr \<in> {extract_auth_pass hs from_addr, None}"
proof -
  have "\<exists>h \<in> set hs. \<not> \<not> is_auth_results h" using assms by (auto simp: list_ex_iff)
  then have "takeWhile (\<lambda>h. \<not> is_auth_results h) (hs @ lower) = takeWhile (\<lambda>h. \<not> is_auth_results h) hs"
    "dropWhile (\<lambda>h. \<not> is_auth_results h) (hs @ lower) = dropWhile (\<lambda>h. \<not> is_auth_results h) hs @ lower"
    "dropWhile (\<lambda>h. \<not> is_auth_results h) hs \<noteq> []" by (auto simp: dropWhile_eq_Nil_conv)
  then show ?thesis unfolding extract_auth_pass_def by (cases "dropWhile (\<lambda>h. \<not> is_auth_results h) hs") auto
qed


text \<open>A sender whose address holds a forged result, echoed in the comment of the result about the envelope.\<close>

theorem quoted_text_cannot_change_the_verdict_witness:
  "auth_results_verdict (''mx.google.com; spf=fail (domain of '' @ CHR 0x22 # ''x); dmarc=pass header.from=bank.com; y'' @ CHR 0x22
     # ''@evil.org) smtp.mailfrom=z'') ''ceo@bank.com'' = Some False"
proof -
  let ?a = "''mx.google.com; spf=fail (domain of ''" let ?b = "''@evil.org) smtp.mailfrom=z''"
  have q: "quoted_text ''x); dmarc=pass header.from=bank.com; y''" "quoted_text ''x''" by code_simp+
  have s: "\<not> sc_quoted (foldl scan_char scan_start ?a)" "\<not> sc_escaped (foldl scan_char scan_start ?a)" "sc_depth (foldl scan_char scan_start ?a) \<noteq> 0"
    by code_simp+
  have v: "auth_results_verdict (?a @ CHR 0x22 # ''x'' @ CHR 0x22 # ?b) ''ceo@bank.com'' = Some False" by code_simp
  have "auth_results_verdict (?a @ CHR 0x22 # ''x); dmarc=pass header.from=bank.com; y'' @ CHR 0x22 # ?b) ''ceo@bank.com''
      = auth_results_verdict (?a @ CHR 0x22 # ''x'' @ CHR 0x22 # ?b) ''ceo@bank.com''"
    by (rule quoted_text_cannot_change_the_verdict [OF q s(1,2)]) (rule notE [OF s(3)])
  then show ?thesis using v by (rule trans)
qed

definition sample_headers :: "mail_header list" where
  "sample_headers = [\<lparr>hd_name = ''Received'', hd_from = False, hd_raw = Some '' from mail.x.org by mx.google.com with ESMTPS''\<rparr>,
     \<lparr>hd_name = ''Authentication-Results'', hd_from = False, hd_raw = Some '' mx.google.com; dkim=pass header.i=@x.org''\<rparr>,
     \<lparr>hd_name = ''From'', hd_from = True, hd_raw = Some '' Ann <ann@x.org>''\<rparr>]"

theorem lower_headers_only_take_away_witness:
  "extract_auth_pass sample_headers ''ann@x.org'' = Some True
   \<and> extract_auth_pass (sample_headers @ [\<lparr>hd_name = ''From'', hd_from = True, hd_raw = Some '' ceo@bank.com''\<rparr>]) ''ann@x.org'' \<in> {Some True, None}"
proof -
  have s: "extract_auth_pass sample_headers ''ann@x.org'' = Some True" "list_ex is_auth_results sample_headers" by code_simp+
  show ?thesis using lower_headers_only_take_away [OF s(2), of _ "''ann@x.org''"] unfolding s(1) by simp
qed


theorem pass_is_bound_to_the_sender_witness:
  "\<exists>raw d. sender_domain ''ann@x.org'' d \<and> gmail_passed raw d \<and> extract_auth_pass sample_headers ''ann@x.org'' = Some True"
proof -
  have s: "extract_auth_pass sample_headers ''ann@x.org'' = Some True" by code_simp
  then show ?thesis using pass_is_bound_to_the_sender [of sample_headers "''ann@x.org''"] by blast
qed

end
