(* ===== verification/Recipients.thy ===== *)
theory Recipients
  imports Rust_Text
begin

text \<open>
  To whom a sent mail went (\<open>squelch-core/src/sync/ingest.rs\<close>): the recipients as they are shown, the index of bare
  addresses, reading the first back into the second, and the choice of those that become contacts. A
  mailbox is an address and a display name, as the parser gives them.
\<close>

type_synonym addressee = "string \<times> string option"

section \<open>Shown recipients\<close>

definition format_recipient :: "string \<Rightarrow> string option \<Rightarrow> string" where
  "format_recipient addr name = (case name of
     Some n \<Rightarrow> let n = filter (\<lambda>c. c \<noteq> CHR 0x22) n
       in if CHR '','' \<in> set n \<or> CHR ''<'' \<in> set n then CHR 0x22 # n @ CHR 0x22 # '' <'' @ addr @ ''>'' else n @ '' <'' @ addr @ ''>''
   | None \<Rightarrow> addr)"

fun format_parts :: "string list \<Rightarrow> addressee list \<Rightarrow> string list" where
  "format_parts seen [] = []"
| "format_parts seen ((addr, name) # ms) = (let addr = trim addr; lc = to_ascii_lowercase addr
     in if addr = [] \<or> lc \<in> set seen then format_parts seen ms
        else format_recipient addr name # format_parts (seen @ [lc]) ms)"

definition format_recipients :: "addressee list \<Rightarrow> string option" where
  "format_recipients ms = (let parts = format_parts [] ms in if parts \<noteq> [] then Some (join '', '' parts) else None)"

text \<open>Two loops that keep what is new: the index of addresses, and the addresses read back.\<close>

fun push_new :: "string list \<Rightarrow> string list \<Rightarrow> string list" where
  "push_new out [] = out"
| "push_new out (a # as) = (let lc = to_ascii_lowercase (trim a)
     in if lc = [] \<or> lc \<in> set out then push_new out as else push_new (out @ [lc]) as)"

definition dedupe_lowercased :: "addressee list \<Rightarrow> string list" where
  "dedupe_lowercased ms = push_new [] (map fst ms)"

fun split_unquoted :: "string \<Rightarrow> bool \<Rightarrow> string \<Rightarrow> string list" where
  "split_unquoted cur in_quotes [] = [cur]"
| "split_unquoted cur in_quotes (c # s) =
     (if c = CHR 0x22 then split_unquoted cur (\<not> in_quotes) s
      else if c = CHR '','' \<and> \<not> in_quotes then cur # split_unquoted [] in_quotes s
      else split_unquoted (cur @ [c]) in_quotes s)"

text \<open>\<open>str::rfind\<close> of one character, as a position.\<close>

definition rfind :: "char \<Rightarrow> string \<Rightarrow> nat option" where
  "rfind q s = map_option (\<lambda>(a, _). length a) (rsplit q s)"

definition token_addr :: "string \<Rightarrow> string" where
  "token_addr token = (case (rfind (CHR ''<'') token, rfind (CHR ''>'') token) of
     (Some a, Some b) \<Rightarrow> if a + 1 < b then take (b - (a + 1)) (drop (a + 1) token) else token
   | _ \<Rightarrow> token)"

definition parse_stored_recipients :: "string \<Rightarrow> string list" where
  "parse_stored_recipients to_addrs = push_new [] (map (\<lambda>t. token_addr (trim t)) (split_unquoted [] False to_addrs))"

section \<open>Robots\<close>

text \<open>\<open>str::split\<close> on any of some characters.\<close>

fun split_any :: "char list \<Rightarrow> string \<Rightarrow> string list" where
  "split_any qs [] = [[]]"
| "split_any qs (c # s) = (if c \<in> set qs then [] # split_any qs s
     else case split_any qs s of [] \<Rightarrow> [[c]] | w # ws \<Rightarrow> (c # w) # ws)"

definition is_ascii_hexdigit :: "char \<Rightarrow> bool" where
  "is_ascii_hexdigit c \<longleftrightarrow> is_ascii_digit c \<or> (97 \<le> cp c \<and> cp c \<le> 102) \<or> (65 \<le> cp c \<and> cp c \<le> 70)"

definition is_token_blob :: "string \<Rightarrow> bool" where
  "is_token_blob s = (if byte_len s < 25 \<or> \<not> list_all is_ascii_alnum s then False
     else if \<not> list_ex is_ascii_digit s then False
     else length (filter (\<lambda>c. c \<in> set ''aeiou'') s) * 5 < byte_len s)"

definition looks_uuidish :: "string \<Rightarrow> bool" where
  "looks_uuidish s = (let groups = split_on (CHR ''-'') s in if length groups \<noteq> 5 then False
     else list_all (\<lambda>(g, n). byte_len g = n \<and> list_all is_ascii_hexdigit g) (zip groups [8, 4, 4, 4, 12]))"

definition is_hex_blob :: "string \<Rightarrow> bool" where
  "is_hex_blob s = (if byte_len s < 20 then False else list_all (\<lambda>c. is_ascii_hexdigit c \<or> c = CHR ''-'') s)"

definition DOMAIN_ROBOT_LABELS :: "string list" where
  "DOMAIN_ROBOT_LABELS = [''unsub'', ''unsubscribe'', ''leave'', ''bounce'', ''optout'', ''opt-out'']"

definition LOCAL_ROBOT_PREFIXES :: "string list" where
  "LOCAL_ROBOT_PREFIXES = [''unsubscribe'', ''unsub'', ''leave-'', ''optout'', ''opt-out'', ''bounce'', ''noreply'', ''no-reply'',
     ''donotreply'', ''do-not-reply'', ''list-'']"

definition is_robot_address :: "string \<Rightarrow> bool" where
  "is_robot_address addr = (case split_once (CHR ''@'') (to_ascii_lowercase (trim addr)) of
     None \<Rightarrow> False
   | Some (local_part, host) \<Rightarrow> if local_part = [] \<or> host = [] then False
       else if hd (split_on (CHR ''.'') host) \<in> set DOMAIN_ROBOT_LABELS then True
       else let segs = split_on (CHR ''+'') local_part
         in if list_ex (\<lambda>s. list_ex (starts_with s) LOCAL_ROBOT_PREFIXES \<or> ends_with s ''.optout'' \<or> ends_with s ''-optout'') segs then True
            else if 1 \<le> length (filter looks_uuidish segs) \<and> 2 \<le> length segs then True
            else if list_ex (\<lambda>s. looks_uuidish s \<or> is_hex_blob s) segs then True
            else list_ex is_token_blob (split_any ''.-_='' local_part))"

section \<open>Contacts\<close>

text \<open>The recipients that become contacts: not the account, not the sender, no robot, each once.\<close>

fun retain_people :: "string \<Rightarrow> string \<Rightarrow> string list \<Rightarrow> string list \<Rightarrow> string list" where
  "retain_people self from_lc seen [] = []"
| "retain_people self from_lc seen (r # rs) = (let lc = to_ascii_lowercase (trim r)
     in if lc = [] \<or> lc = self \<or> lc = from_lc \<or> lc \<in> set seen then retain_people self from_lc seen rs
        else if is_robot_address lc then retain_people self from_lc seen rs
        else r # retain_people self from_lc (seen @ [lc]) rs)"

definition contact_recipients :: "string \<Rightarrow> string \<Rightarrow> addressee list \<Rightarrow> string list" where
  "contact_recipients account_addr from_addr ms =
     retain_people (to_ascii_lowercase (trim account_addr)) (to_ascii_lowercase (trim from_addr)) [] (map fst ms)"

section \<open>Reading back\<close>

text \<open>An address without the characters that the display string gives a meaning.\<close>

definition plain_addr :: "string \<Rightarrow> bool" where
  "plain_addr a \<longleftrightarrow> list_all (\<lambda>c. c \<notin> {CHR '','', CHR 0x22, CHR ''<'', CHR ''>''}) a"

lemma split_plain: "(\<forall>c \<in> set p. c \<noteq> CHR 0x22 \<and> (c = CHR '','' \<longrightarrow> q)) \<Longrightarrow> split_unquoted cur q (p @ r) = split_unquoted (cur @ p) q r"
  by (induction p arbitrary: cur) auto

lemma split_comma: "split_unquoted cur False ('', '' @ r) = cur # split_unquoted '' '' False r"
  by simp

text \<open>What one part reads back as: its text without the quotes.\<close>

lemma split_part:
  assumes "plain_addr addr"
  shows "split_unquoted cur False (format_recipient addr name @ r) = split_unquoted (cur @ filter (\<lambda>c. c \<noteq> CHR 0x22) (format_recipient addr name)) False r"
proof -
  have a: "\<forall>c \<in> set addr. c \<noteq> CHR 0x22 \<and> c \<noteq> CHR '',''" using assms by (auto simp: plain_addr_def list_all_iff)
  then have addr: "filter (\<lambda>c. c \<noteq> CHR 0x22) addr = addr" by (auto simp: filter_id_conv)
  show ?thesis
  proof (cases name)
    case None
    then show ?thesis using split_plain [of addr False cur r] a by (simp add: format_recipient_def addr)
  next
    case (Some n)
    let ?n = "filter (\<lambda>c. c \<noteq> CHR 0x22) n"
    show ?thesis
    proof (cases "CHR '','' \<in> set ?n \<or> CHR ''<'' \<in> set ?n")
      case True
      have "split_unquoted cur False (CHR 0x22 # ?n @ CHR 0x22 # '' <'' @ addr @ ''>'' @ r)
          = split_unquoted (cur @ ?n) False ((CHR '' '' # CHR ''<'' # addr @ ''>'') @ r)"
        using split_plain [of ?n True cur] by simp
      also have "\<dots> = split_unquoted ((cur @ ?n) @ CHR '' '' # CHR ''<'' # addr @ ''>'') False r" by (rule split_plain) (use a in auto)
      finally show ?thesis using True by (simp add: format_recipient_def Some addr)
    next
      case False
      have "split_unquoted cur False ((?n @ '' <'' @ addr @ ''>'') @ r) = split_unquoted (cur @ (?n @ '' <'' @ addr @ ''>'')) False r"
        by (rule split_plain) (use a False in auto)
      then show ?thesis using False by (simp add: format_recipient_def Some addr)
    qed
  qed
qed

lemma rsplit_app: "q \<notin> set b \<Longrightarrow> rsplit q (a @ q # b) = Some (a, b)"
  by (simp add: rsplit_Some)

text \<open>The address of a part.\<close>

lemma trim_leading: "list_all is_whitespace w \<Longrightarrow> trim (w @ s) = trim s"
  by (simp add: trim_def trim_start_def list_all_iff dropWhile_append)

lemma trim_bracketed: "\<exists>x. trim (u @ CHR ''<'' # a @ ''>'') = x @ CHR ''<'' # a @ ''>''"
proof -
  have "\<not> is_whitespace (CHR ''<'')" "\<not> is_whitespace (CHR ''>'')" by (simp_all add: is_whitespace_def)
  moreover have "dropWhile p (u @ c # v) = dropWhile p u @ c # v" if "\<not> p c" for p c v using that by (induction u) auto
  ultimately show ?thesis by (simp add: trim_def trim_start_def trim_end_def)
qed

lemma token_bracketed:
  assumes "plain_addr a" "a \<noteq> []"
  shows "token_addr (x @ CHR ''<'' # a @ ''>'') = a"
proof -
  have "rsplit (CHR ''<'') (x @ CHR ''<'' # a @ ''>'') = Some (x, a @ ''>'')" "rsplit (CHR ''>'') ((x @ CHR ''<'' # a) @ CHR ''>'' # []) = Some (x @ CHR ''<'' # a, [])"
    using assms(1) by (auto simp: rsplit_Some plain_addr_def list_all_iff)
  then show ?thesis using assms(2) by (simp add: token_addr_def rfind_def)
qed

lemma addr_of_part:
  assumes "plain_addr addr" "trim addr = addr" "addr \<noteq> []" "list_all is_whitespace w"
  shows "token_addr (trim (w @ filter (\<lambda>c. c \<noteq> CHR 0x22) (format_recipient addr name))) = addr"
proof -
  have addr: "filter (\<lambda>c. c \<noteq> CHR 0x22) addr = addr" using assms(1) by (auto simp: plain_addr_def list_all_iff filter_id_conv)
  show ?thesis
  proof (cases name)
    case None
    have "CHR ''<'' \<notin> set addr" using assms(1) by (auto simp: plain_addr_def list_all_iff)
    then have "rfind (CHR ''<'') addr = None" by (simp add: rfind_def rsplit_def)
    then show ?thesis by (simp add: None format_recipient_def addr trim_leading [OF assms(4)] assms(2) token_addr_def)
  next
    case (Some n)
    let ?n = "filter (\<lambda>c. c \<noteq> CHR 0x22) n"
    have e: "filter (\<lambda>c. c \<noteq> CHR 0x22) (format_recipient addr name) = (?n @ '' '') @ CHR ''<'' # addr @ ''>''"
      by (simp add: Some format_recipient_def addr Let_def)
    obtain x where "trim ((?n @ '' '') @ CHR ''<'' # addr @ ''>'') = x @ CHR ''<'' # addr @ ''>''" using trim_bracketed by blast
    then show ?thesis unfolding e trim_leading [OF assms(4)] by (simp only: token_bracketed [OF assms(1,3)])
  qed
qed

text \<open>The parts of a display string, and the addresses in them.\<close>

fun part_addrs :: "string list \<Rightarrow> addressee list \<Rightarrow> string list" where
  "part_addrs seen [] = []"
| "part_addrs seen ((addr, name) # ms) = (let addr = trim addr; lc = to_ascii_lowercase addr
     in if addr = [] \<or> lc \<in> set seen then part_addrs seen ms else addr # part_addrs (seen @ [lc]) ms)"

lemma part_addrs_Nil: "format_parts seen ms = [] \<longleftrightarrow> part_addrs seen ms = []"
  by (induction seen ms rule: format_parts.induct) (simp_all add: Let_def)

lemma plain_trim: "plain_addr a \<Longrightarrow> plain_addr (trim a)"
  using set_trim [of a] by (auto simp: plain_addr_def list_all_iff)

lemma split_parts:
  assumes "list_all (\<lambda>(a, _). plain_addr a) ms" "format_parts seen ms \<noteq> []" "list_all is_whitespace w"
  shows "map (\<lambda>t. token_addr (trim t)) (split_unquoted w False (join '', '' (format_parts seen ms))) = part_addrs seen ms"
  using assms
proof (induction seen ms arbitrary: w rule: format_parts.induct)
  case (2 seen addr name ms)
  let ?a = "trim addr" let ?lc = "to_ascii_lowercase ?a"
  show ?case
  proof (cases "?a = [] \<or> ?lc \<in> set seen")
    case True
    then show ?thesis using 2(1) [OF refl refl True] 2(3-5) by (simp add: Let_def)
  next
    case False
    let ?p = "format_recipient ?a name" let ?f = "filter (\<lambda>c. c \<noteq> CHR 0x22)" let ?rest = "format_parts (seen @ [?lc]) ms"
    have plain: "plain_addr ?a" using 2(3) plain_trim by simp
    have tok: "token_addr (trim (w @ ?f ?p)) = ?a" by (rule addr_of_part [OF plain]) (use False 2(5) in simp_all)
    show ?thesis
    proof (cases "?rest = []")
      case True
      have "split_unquoted w False (?p @ []) = [w @ ?f ?p]" unfolding split_part [OF plain] by simp
      then show ?thesis using False True tok part_addrs_Nil [of "seen @ [?lc]" ms] by (simp add: Let_def)
    next
      case rest: False
      then have j: "join '', '' (?p # ?rest) = ?p @ '', '' @ join '', '' ?rest" by (cases ?rest) auto
      have "split_unquoted w False (join '', '' (?p # ?rest)) = (w @ ?f ?p) # split_unquoted '' '' False (join '', '' ?rest)"
        unfolding j split_part [OF plain] by simp
      moreover have "map (\<lambda>t. token_addr (trim t)) (split_unquoted '' '' False (join '', '' ?rest)) = part_addrs (seen @ [?lc]) ms"
        by (rule 2(2) [OF refl refl False _ rest]) (use 2(3) in \<open>simp_all add: is_whitespace_def\<close>)
      ultimately show ?thesis using False tok by (simp add: Let_def)
    qed
  qed
qed simp

lemma trim_lower_Nil: "to_ascii_lowercase s = [] \<longleftrightarrow> s = []"
  by (simp add: to_ascii_lowercase_def)

lemma push_parts: "push_new seen (part_addrs seen ms) = push_new seen (map fst ms)"
  by (induction seen ms rule: part_addrs.induct) (auto simp: Let_def trim_lower_Nil)

text \<open>C33. What the outbox shows reads back as what the index holds: from the shown recipients, whatever the display
  names contain, the parser recovers the addresses, each once, in the order of the headers, when no
  address has a comma, a quote or an angle bracket in it.\<close>
theorem shown_recipients_read_back:
  assumes "list_all (\<lambda>(a, _). plain_addr a) ms"
  shows "(case format_recipients ms of Some s \<Rightarrow> parse_stored_recipients s | None \<Rightarrow> []) = dedupe_lowercased ms"
proof (cases "format_parts [] ms = []")
  case True
  then have "part_addrs [] ms = []" using part_addrs_Nil by blast
  then show ?thesis using True push_parts [of "[]" ms] by (simp add: format_recipients_def dedupe_lowercased_def)
next
  case False
  then show ?thesis using split_parts [OF assms False, of "[]"] push_parts [of "[]" ms]
    by (simp add: format_recipients_def dedupe_lowercased_def parse_stored_recipients_def)
qed

theorem shown_recipients_read_back_witness:
  "(case format_recipients [(''Jane@x.org'', Some ''Doe, Jane''), (''bob@y.org'', None)] of Some s \<Rightarrow> parse_stored_recipients s | None \<Rightarrow> [])
     = [''jane@x.org'', ''bob@y.org'']"
proof -
  let ?ms = "[(''Jane@x.org'', Some ''Doe, Jane''), (''bob@y.org'', None)] :: addressee list"
  have "list_all (\<lambda>(a, _). plain_addr a) ?ms" "dedupe_lowercased ?ms = [''jane@x.org'', ''bob@y.org'']" by code_simp+
  then show ?thesis using shown_recipients_read_back [of ?ms] by simp
qed

text \<open>An address that needs quotes is not read back: \<open>"a,b"@x.org\<close>, which is a valid address, is shown as it stands
  and indexed as another one.\<close>
theorem quoted_address_is_misread:
  "dedupe_lowercased [(CHR 0x22 # ''a,b'' @ CHR 0x22 # ''@x.org'', None)] = [CHR 0x22 # ''a,b'' @ CHR 0x22 # ''@x.org'']
   \<and> map_option parse_stored_recipients (format_recipients [(CHR 0x22 # ''a,b'' @ CHR 0x22 # ''@x.org'', None)]) = Some [''a,b@x.org'']"
  by code_simp

section \<open>Who becomes a contact\<close>

definition contact_key :: "string \<Rightarrow> string" where
  "contact_key r = to_ascii_lowercase (trim r)"

definition is_person :: "string \<Rightarrow> string \<Rightarrow> string \<Rightarrow> bool" where
  "is_person account_addr from_addr lc \<longleftrightarrow> lc \<noteq> [] \<and> lc \<noteq> contact_key account_addr \<and> lc \<noteq> contact_key from_addr \<and> \<not> is_robot_address lc"

text \<open>Contacts are people: of the recipients of a sent mail exactly those become contacts whose address is not the
  account's, not the sender's and not a robot's, and no address in any spelling becomes two.\<close>
theorem contacts_are_people:
  "contact_key ` set (contact_recipients account_addr from_addr ms) = {lc \<in> contact_key ` fst ` set ms. is_person account_addr from_addr lc}
   \<and> distinct (map contact_key (contact_recipients account_addr from_addr ms))
   \<and> set (contact_recipients account_addr from_addr ms) \<subseteq> fst ` set ms"
proof -
  let ?rs = "\<lambda>seen rs. retain_people (contact_key account_addr) (contact_key from_addr) seen rs"
  have "contact_key ` set (?rs seen rs) = {lc \<in> contact_key ` set rs. is_person account_addr from_addr lc \<and> lc \<notin> set seen}
    \<and> distinct (map contact_key (?rs seen rs)) \<and> set (?rs seen rs) \<subseteq> set rs" for seen rs
    by (induction "contact_key account_addr" "contact_key from_addr" seen rs rule: retain_people.induct) (auto simp: Let_def is_person_def contact_key_def)
  from this [of "[]" "map fst ms"] show ?thesis by (simp add: contact_recipients_def contact_key_def)
qed

end
