(* ===== verification/Order_Groups.thy ===== *)
theory Order_Groups
  imports Prelude Rust_Text "HOL-Library.Multiset" "HOL-Library.Product_Lexorder"
begin

text \<open>
  Which packages are one purchase (\<open>squelch-core/src/triage/order_link.rs\<close>): packages that share an order of a known
  merchant, and those they share one with in turn, are one card. The partition is a union-find over the
  keys of the orders; its loop that looks up a root is a \<open>partial_function\<close>, and is proved to end. The
  listing (\<open>shipment_cards_conn\<close> in \<open>store/sqlite/specialists.rs\<close>) shows the cards.
\<close>

section \<open>Keys\<close>

definition merchant_key :: "string \<Rightarrow> string" where
  "merchant_key merchant = map lower_char (filter is_alphanumeric merchant)"

definition order_key :: "string \<Rightarrow> string" where
  "order_key order_ref = concat (map upper_char (filter is_alphanumeric order_ref))"

record shipment_order =
  so_merchant :: "string option"
  so_ref :: string

definition merchant_of :: "shipment_order \<Rightarrow> string" where
  "merchant_of order = (case so_merchant order of Some m \<Rightarrow> m | None \<Rightarrow> [])"

definition grouping_keys :: "shipment_order list \<Rightarrow> (string \<times> string) list" where
  "grouping_keys orders = filter (\<lambda>(merchant, order). merchant \<noteq> [] \<and> order \<noteq> [])
     (map (\<lambda>order. (merchant_key (merchant_of order), order_key (so_ref order))) orders)"

section \<open>The partition\<close>

text \<open>The root of an element, with path halving.\<close>

partial_function (option) find_root :: "nat list \<Rightarrow> nat \<Rightarrow> (nat \<times> nat list) option" where
  "find_root parent i = (if parent ! i = i then Some (i, parent)
     else let parent = parent[i := parent ! (parent ! i)] in find_root parent (parent ! i))"

type_synonym 'k owners = "'k \<rightharpoonup> nat"

definition union_key :: "nat \<times> 'k \<Rightarrow> nat list \<times> 'k owners \<Rightarrow> (nat list \<times> 'k owners) option" where
  "union_key ik st = (let (i, key) = ik; (parent, owner) = st in case owner key of
     Some j \<Rightarrow> Option.bind (find_root parent i) (\<lambda>(a, parent). Option.bind (find_root parent j) (\<lambda>(b, parent).
       Some (if a \<noteq> b then parent[max a b := min a b] else parent, owner)))
   | None \<Rightarrow> Some (parent, owner(key \<mapsto> i)))"

fun union_all :: "(nat \<times> 'k) list \<Rightarrow> nat list \<times> 'k owners \<Rightarrow> (nat list \<times> 'k owners) option" where
  "union_all [] st = Some st"
| "union_all (ik # iks) st = Option.bind (union_key ik st) (union_all iks)"

text \<open>Every element put where its root has its place, a new one at the end.\<close>

fun collect_groups :: "nat list \<Rightarrow> nat list \<Rightarrow> (nat \<rightharpoonup> nat) \<Rightarrow> nat list list \<Rightarrow> nat list list option" where
  "collect_groups [] parent slot groups = Some groups"
| "collect_groups (i # is) parent slot groups = Option.bind (find_root parent i) (\<lambda>(root, parent).
     case slot root of
       Some at \<Rightarrow> collect_groups is parent slot (groups[at := groups ! at @ [i]])
     | None \<Rightarrow> collect_groups is parent (slot(root \<mapsto> length groups)) (groups @ [[i]]))"

definition keyed :: "shipment_order list list \<Rightarrow> (nat \<times> string \<times> string) list" where
  "keyed members = concat (map (\<lambda>i. map (\<lambda>k. (i, k)) (grouping_keys (members ! i))) [0..<length members])"

definition order_groups :: "shipment_order list list \<Rightarrow> nat list list option" where
  "order_groups members = Option.bind (union_all (keyed members) ([0..<length members], Map.empty))
     (\<lambda>(parent, _). collect_groups [0..<length members] parent Map.empty [])"

section \<open>Cards\<close>

text \<open>The package that stands for its purchase comes first: the newest still on its way, else the newest. \<open>key\<close> says
  whether it has landed, when it changed last, and its id.\<close>

definition representative_first :: "('a \<Rightarrow> bool \<times> instant \<times> int) \<Rightarrow> 'a list \<Rightarrow> 'a list" where
  "representative_first key members = (let members = sort_key (\<lambda>m. case key m of (_, at, i) \<Rightarrow> (- at, - i)) members
     in case dropWhile (\<lambda>m. fst (key m)) members of [] \<Rightarrow> members
          | rep # rest \<Rightarrow> rep # takeWhile (\<lambda>m. fst (key m)) members @ rest)"

fun take_members :: "nat list \<Rightarrow> 'a option list \<Rightarrow> 'a list \<times> 'a option list" where
  "take_members [] slots = ([], slots)"
| "take_members (i # is) slots = (case slots ! i of
     Some x \<Rightarrow> (let (xs, slots) = take_members is (slots[i := None]) in (x # xs, slots))
   | None \<Rightarrow> take_members is slots)"

fun take_groups :: "('a \<Rightarrow> bool \<times> instant \<times> int) \<Rightarrow> nat list list \<Rightarrow> 'a option list \<Rightarrow> 'a list list" where
  "take_groups key [] slots = []"
| "take_groups key (g # gs) slots = (let (members, slots) = take_members g slots in representative_first key members # take_groups key gs slots)"

definition fold_groups :: "'a list \<Rightarrow> ('a \<Rightarrow> shipment_order list) \<Rightarrow> ('a \<Rightarrow> bool \<times> instant \<times> int) \<Rightarrow> 'a list list option" where
  "fold_groups items orders key = map_option (\<lambda>groups. filter (\<lambda>members. members \<noteq> []) (take_groups key groups (map Some items)))
     (order_groups (map orders items))"

fun union_orders :: "(string \<times> string) list \<Rightarrow> shipment_order list \<Rightarrow> shipment_order list" where
  "union_orders seen [] = []"
| "union_orders seen (order # orders) = (let key = (merchant_key (merchant_of order), order_key (so_ref order))
     in if key \<in> set seen then union_orders seen orders else order # union_orders (seen @ [key]) orders)"

record shipment_leg =
  sl_id :: int
  sl_carrier :: string
  sl_tracking :: string
  sl_status :: string
  sl_url :: "string option"
  sl_update :: instant
  sl_delivered :: "instant option"

record shipment =
  sm_id :: int
  sm_account :: int
  sm_tracking :: string
  sm_carrier :: string
  sm_item :: string
  sm_status :: string
  sm_url :: "string option"
  sm_thread :: "string option"
  sm_first_seen :: instant
  sm_update :: instant
  sm_carrier_status :: "string option"
  sm_eta :: "instant option"
  sm_delivered :: "instant option"
  sm_polled :: "instant option"
  sm_answered :: "instant option"
  sm_failures :: "32 word"
  sm_merchant :: "string option"
  sm_orders :: "shipment_order list"
  sm_legs :: "shipment_leg list"

text \<open>The name and the merchant of a card: the first member's that has one.\<close>

definition card_name_and_merchant :: "(string \<times> string option) list \<Rightarrow> string \<times> string option" where
  "card_name_and_merchant members =
     ((case find (\<lambda>n. n \<noteq> []) (map (\<lambda>(n, _). trim n) members) of Some n \<Rightarrow> n | None \<Rightarrow> []),
      find (\<lambda>m. m \<noteq> []) (map trim (List.map_filter snd members)))"

definition leg_of :: "shipment \<Rightarrow> shipment_leg" where
  "leg_of m = \<lparr>sl_id = sm_id m, sl_carrier = sm_carrier m, sl_tracking = sm_tracking m, sl_status = sm_status m, sl_url = sm_url m,
     sl_update = sm_update m, sl_delivered = sm_delivered m\<rparr>"

definition make_card :: "shipment list \<Rightarrow> shipment option" where
  "make_card members = (let orders = union_orders [] (concat (map sm_orders members));
       (item, merchant) = card_name_and_merchant (map (\<lambda>m. (sm_item m, sm_merchant m)) members)
     in case members of [] \<Rightarrow> None
        | shown # rest \<Rightarrow> Some (shown\<lparr>sm_legs := map leg_of rest, sm_item := item, sm_merchant := merchant, sm_orders := orders\<rparr>))"

definition group_shipments :: "shipment list \<Rightarrow> shipment list option" where
  "group_shipments rows = map_option (List.map_filter make_card)
     (fold_groups rows sm_orders (\<lambda>r. (sm_status r = ''delivered'', sm_update r, sm_id r)))"

definition shipment_cards :: "bool \<Rightarrow> shipment list \<Rightarrow> shipment list option" where
  "shipment_cards include_delivered rows = map_option (filter (\<lambda>c. include_delivered \<or> sm_status c \<noteq> ''delivered'')) (group_shipments rows)"

section \<open>Roots\<close>

text \<open>A parent is never above its child.\<close>

definition wf_parents :: "nat list \<Rightarrow> bool" where
  "wf_parents parent \<longleftrightarrow> (\<forall>i < length parent. parent ! i \<le> i)"

function root :: "nat list \<Rightarrow> nat \<Rightarrow> nat" where
  "root parent i = (if parent ! i < i then root parent (parent ! i) else i)"
  by pat_completeness auto
termination by (relation "measure snd") auto

declare root.simps [simp del]

lemma root_le: "root parent i \<le> i"
  by (induction parent i rule: root.induct) (subst root.simps, auto intro: order.trans less_imp_le)

lemma root_fixed: "wf_parents parent \<Longrightarrow> i < length parent \<Longrightarrow> parent ! root parent i = root parent i"
proof (induction parent i rule: root.induct)
  case (1 parent i)
  have le: "parent ! i \<le> i" using 1(2,3) by (simp add: wf_parents_def)
  show ?case
  proof (cases "parent ! i < i")
    case True
    then have "parent ! i < length parent" using 1(3) by simp
    then show ?thesis using 1(1) [OF True 1(2)] True by (subst (1 2) root.simps) simp
  next
    case False
    then show ?thesis using le by (subst (1 2) root.simps) simp
  qed
qed

lemma root_parent: "wf_parents parent \<Longrightarrow> i < length parent \<Longrightarrow> root parent (parent ! i) = root parent i"
  unfolding wf_parents_def by (subst (2) root.simps) (metis le_neq_implies_less root.simps)

lemma root_of_root: "parent ! i = i \<Longrightarrow> root parent i = i"
  by (subst root.simps) simp

text \<open>Moving an element to its grandparent changes no root.\<close>

lemma root_shortcut:
  assumes "wf_parents parent" "i < length parent" "q \<le> i" "root parent q = root parent i" "q = i \<longrightarrow> parent ! i = i"
  shows "root (parent[i := q]) x = root parent x"
proof (induction x rule: less_induct)
  case (less x)
  show ?case
  proof (cases "x = i")
    case False
    then have "root (parent[i := q]) x = (if parent ! x < x then root (parent[i := q]) (parent ! x) else x)" by (subst root.simps) simp
    then show ?thesis using less by (subst (2) root.simps) simp
  next
    case True
    show ?thesis
    proof (cases "q < i")
      case q: True
      then have "root (parent[i := q]) i = root (parent[i := q]) q" using assms(2) by (subst root.simps) simp
      then show ?thesis using less [of q] q True assms(4) by simp
    next
      case False
      then have "q = i" "parent ! i = i" using assms(3,5) by simp_all
      then have "parent[i := q] = parent" by (metis list_update_id)
      then show ?thesis by simp
    qed
  qed
qed

lemma wf_parents_update: "wf_parents parent \<Longrightarrow> q \<le> i \<Longrightarrow> wf_parents (parent[i := q])"
  unfolding wf_parents_def by (metis length_list_update nth_list_update_eq nth_list_update_neq)

lemma find_root_ends:
  assumes "wf_parents parent" "i < length parent"
  shows "\<exists>parent'. find_root parent i = Some (root parent i, parent') \<and> wf_parents parent' \<and> length parent' = length parent \<and> root parent' = root parent"
  using assms
proof (induction i arbitrary: parent rule: less_induct)
  case (less i)
  show ?case
  proof (cases "parent ! i = i")
    case True
    then show ?thesis using less.prems by (subst find_root.simps) (simp add: root_of_root)
  next
    case False
    let ?p = "parent ! i" let ?q = "parent ! ?p" let ?parent = "parent[i := ?q]"
    have p: "?p < i" using False less.prems by (auto simp: wf_parents_def le_less)
    then have len: "?p < length parent" using less.prems(2) by simp
    have q: "?q \<le> ?p" using less.prems(1) len by (simp add: wf_parents_def)
    have "root parent ?q = root parent i" using root_parent [OF less.prems(1) len] root_parent [OF less.prems] by simp
    then have same: "root ?parent = root parent" using root_shortcut [OF less.prems, of ?q] p q by auto
    have wf: "wf_parents ?parent" using wf_parents_update [OF less.prems(1), of ?q i] p q by simp
    have "?q < i" "?q < length ?parent" using p q less.prems(2) by simp_all
    then obtain parent' where "find_root ?parent ?q = Some (root ?parent ?q, parent')" "wf_parents parent'" "length parent' = length ?parent" "root parent' = root ?parent"
      using less.IH [OF _ wf] by blast
    then show ?thesis using False less.prems(2) same \<open>root parent ?q = root parent i\<close> by (subst find_root.simps) (simp add: Let_def)
  qed
qed

text \<open>Linking two roots joins their classes.\<close>

lemma root_link:
  assumes "wf_parents parent" "hi < length parent" "lo < hi" "parent ! hi = hi" "parent ! lo = lo"
  shows "root (parent[hi := lo]) x = (if root parent x = hi then lo else root parent x)"
proof (induction x rule: less_induct)
  case (less x)
  show ?case
  proof (cases "x = hi")
    case True
    have "root (parent[hi := lo]) hi = root (parent[hi := lo]) lo" using assms(2,3) by (subst root.simps) simp
    also have "\<dots> = lo" using assms(3,5) by (subst root.simps) simp
    finally show ?thesis using True root_of_root [OF assms(4)] by simp
  next
    case False
    then have "root (parent[hi := lo]) x = (if parent ! x < x then root (parent[hi := lo]) (parent ! x) else x)" by (subst root.simps) simp
    also have "\<dots> = (if root parent x = hi then lo else root parent x)" using less False by (subst (2 3) root.simps) auto
    finally show ?thesis .
  qed
qed


section \<open>Classes\<close>

text \<open>Two elements that hold one key, and the classes this spans.\<close>

definition sharing :: "(nat \<times> 'k) list \<Rightarrow> (nat \<times> nat) set" where
  "sharing iks = {(i, j). \<exists>k. (i, k) \<in> set iks \<and> (j, k) \<in> set iks}"

lemma sharing_sym: "(i, j) \<in> (sharing iks)\<^sup>* \<Longrightarrow> (j, i) \<in> (sharing iks)\<^sup>*"
  by (rule symD [OF sym_rtrancl]) (auto simp: sharing_def intro: symI)

lemma sharing_mono: "set iks \<subseteq> set iks' \<Longrightarrow> (sharing iks)\<^sup>* \<subseteq> (sharing iks')\<^sup>*"
  by (rule rtrancl_mono) (auto simp: sharing_def)

definition joined :: "nat \<Rightarrow> (nat \<times> 'k) list \<Rightarrow> nat list \<times> 'k owners \<Rightarrow> bool" where
  "joined n seen st \<longleftrightarrow> (case st of (parent, owner) \<Rightarrow> wf_parents parent \<and> length parent = n
     \<and> (\<forall>k. case owner k of Some j \<Rightarrow> (j, k) \<in> set seen \<and> j < n | None \<Rightarrow> \<forall>i. (i, k) \<notin> set seen)
     \<and> (\<forall>i < n. \<forall>j < n. root parent i = root parent j \<longleftrightarrow> (i, j) \<in> (sharing seen)\<^sup>*)
     \<and> (\<forall>(i, k) \<in> set seen. i < n))"

text \<open>A key that nobody had adds an element of its own class; a key that someone had joins two.\<close>

lemma sharing_new:
  assumes "\<forall>i. (i, k) \<notin> set iks"
  shows "(sharing (iks @ [(i, k)]))\<^sup>* = (sharing iks)\<^sup>*"
proof -
  have "sharing iks \<subseteq> sharing (iks @ [(i, k)])" "sharing (iks @ [(i, k)]) \<subseteq> (sharing iks)\<^sup>*" using assms by (auto simp: sharing_def)
  then show ?thesis by (rule rtrancl_subset)
qed

lemma sharing_join:
  assumes "(j, k) \<in> set iks"
  shows "(x, y) \<in> (sharing (iks @ [(i, k)]))\<^sup>* \<longleftrightarrow> (x, y) \<in> (sharing iks)\<^sup>*
    \<or> (x, i) \<in> (sharing iks)\<^sup>* \<and> (j, y) \<in> (sharing iks)\<^sup>* \<or> (x, j) \<in> (sharing iks)\<^sup>* \<and> (i, y) \<in> (sharing iks)\<^sup>*" (is "?l \<longleftrightarrow> ?r x y")
proof
  assume ?l
  then show "?r x y"
  proof (induction rule: rtrancl_induct)
    case (step y z)
    from step(2) have "(y, z) \<in> sharing iks \<or> y = i \<and> (z, j) \<in> sharing iks \<or> z = i \<and> (y, j) \<in> sharing iks \<or> y = z"
      using assms by (auto simp: sharing_def)
    then have "(y, z) \<in> (sharing iks)\<^sup>* \<or> y = i \<and> (j, z) \<in> (sharing iks)\<^sup>* \<or> z = i \<and> (y, j) \<in> (sharing iks)\<^sup>*"
      using sharing_sym by blast
    then show ?case using step(3) sharing_sym by (meson rtrancl.rtrancl_refl rtrancl_trans)
  qed simp
next
  have old: "(sharing iks)\<^sup>* \<subseteq> (sharing (iks @ [(i, k)]))\<^sup>*" by (rule sharing_mono) auto
  have "(i, j) \<in> (sharing (iks @ [(i, k)]))\<^sup>*" "(j, i) \<in> (sharing (iks @ [(i, k)]))\<^sup>*" using assms by (auto simp: sharing_def)
  moreover assume "?r x y"
  ultimately show ?l using old by (meson rtrancl_trans subsetD)
qed

lemma joined_step:
  assumes "joined n iks st" "i < n"
  shows "\<exists>st'. union_key (i, k) st = Some st' \<and> joined n (iks @ [(i, k)]) st'"
proof -
  obtain parent owner where st: "st = (parent, owner)" by (cases st)
  have wf: "wf_parents parent" "length parent = n" using assms(1) by (simp_all add: joined_def st)
  have own: "case owner k' of Some j \<Rightarrow> (j, k') \<in> set iks \<and> j < n | None \<Rightarrow> \<forall>i. (i, k') \<notin> set iks" for k' using assms(1) by (simp add: joined_def st)
  have cls: "root parent x = root parent y \<longleftrightarrow> (x, y) \<in> (sharing iks)\<^sup>*" if "x < n" "y < n" for x y using assms(1) that by (simp add: joined_def st)
  have bound: "\<forall>(i, k) \<in> set (iks @ [(i, k)]). i < n" using assms by (auto simp: joined_def st)
  show ?thesis
  proof (cases "owner k")
    case None
    then have new: "\<forall>i. (i, k) \<notin> set iks" using own [of k] by simp
    have "case (owner(k \<mapsto> i)) k' of Some j \<Rightarrow> (j, k') \<in> set (iks @ [(i, k)]) \<and> j < n | None \<Rightarrow> \<forall>i'. (i', k') \<notin> set (iks @ [(i, k)])" for k'
      using own [of k'] assms(2) by (auto split: option.splits)
    then show ?thesis using None wf cls bound by (simp add: union_key_def st joined_def sharing_new [OF new])
  next
    case (Some j)
    then have j: "(j, k) \<in> set iks" "j < n" using own [of k] by simp_all
    obtain p1 where f1: "find_root parent i = Some (root parent i, p1)" "wf_parents p1" "length p1 = n" "root p1 = root parent"
      using find_root_ends [OF wf(1), of i] assms(2) wf(2) by auto
    obtain p2 where f2: "find_root p1 j = Some (root parent j, p2)" "wf_parents p2" "length p2 = n" "root p2 = root parent"
      using find_root_ends [OF f1(2), of j] j(2) f1(3,4) by auto
    let ?a = "root parent i" let ?b = "root parent j" let ?hi = "max ?a ?b" let ?lo = "min ?a ?b"
    let ?p = "if ?a \<noteq> ?b then p2[?hi := ?lo] else p2"
    have le: "?a \<le> i" "?b \<le> j" by (simp_all add: root_le)
    have fixed: "p2 ! ?a = ?a" "p2 ! ?b = ?b" using root_fixed [OF f2(2)] assms(2) j(2) f2(3,4) by metis+
    have root: "root ?p x = (if ?a \<noteq> ?b \<and> root parent x = ?hi then ?lo else root parent x)" for x
      using root_link [of p2 ?hi ?lo x] f2 fixed le assms(2) j(2) by (auto simp: max_def min_def)
    have "wf_parents ?p" using f2(2) wf_parents_update [of p2 ?lo ?hi] by simp
    have cls': "root ?p x = root ?p y \<longleftrightarrow> (x, y) \<in> (sharing (iks @ [(i, k)]))\<^sup>*" if x: "x < n" "y < n" for x y
    proof -
      have "root ?p x = root ?p y \<longleftrightarrow> root parent x = root parent y \<or> root parent x = ?a \<and> root parent y = ?b \<or> root parent x = ?b \<and> root parent y = ?a"
        unfolding root by (auto simp: max_def min_def)
      also have "\<dots> \<longleftrightarrow> (x, y) \<in> (sharing (iks @ [(i, k)]))\<^sup>*"
        unfolding sharing_join [OF j(1)] using cls x assms(2) j(2) by metis
      finally show ?thesis .
    qed
    have "case owner k' of Some j \<Rightarrow> (j, k') \<in> set (iks @ [(i, k)]) \<and> j < n | None \<Rightarrow> \<forall>i'. (i', k') \<notin> set (iks @ [(i, k)])" for k'
      using own [of k'] Some by (auto split: option.splits)
    then have "joined n (iks @ [(i, k)]) (?p, owner)" using \<open>wf_parents ?p\<close> f2(3) cls' bound by (simp add: joined_def)
    moreover have "union_key (i, k) st = Some (?p, owner)" by (simp add: union_key_def st Some f1(1) f2(1))
    ultimately show ?thesis by blast
  qed
qed

lemma joined_all:
  assumes "joined n iks st" "\<forall>(i, k) \<in> set rest. i < n"
  shows "\<exists>st'. union_all rest st = Some st' \<and> joined n (iks @ rest) st'"
  using assms
proof (induction rest arbitrary: iks st)
  case (Cons ik rest)
  obtain i k where ik: "ik = (i, k)" by (cases ik)
  obtain st1 where "union_key (i, k) st = Some st1" "joined n (iks @ [(i, k)]) st1" using joined_step [OF Cons(2), of i k] Cons(3) ik by auto
  then show ?case using Cons(1) [of "iks @ [(i, k)]" st1] Cons(3) ik by auto
qed simp

text \<open>The groups of the first \<open>m\<close> elements: for each root, in the order in which they turn up, its elements.\<close>

definition first_roots :: "(nat \<Rightarrow> nat) \<Rightarrow> nat list \<Rightarrow> nat list" where
  "first_roots r is = rev (remdups (rev (map r is)))"

definition class_lists :: "(nat \<Rightarrow> nat) \<Rightarrow> nat list \<Rightarrow> nat list list" where
  "class_lists r is = map (\<lambda>c. filter (\<lambda>i. r i = c) is) (first_roots r is)"

lemma first_roots_snoc: "first_roots r (is @ [i]) = (if r i \<in> r ` set is then first_roots r is else first_roots r is @ [r i])"
  by (simp add: first_roots_def)

lemma set_first_roots: "set (first_roots r is) = r ` set is" "distinct (first_roots r is)"
  by (simp_all add: first_roots_def)

lemma class_lists_old:
  assumes "at < length (first_roots r is)" "first_roots r is ! at = r i"
  shows "class_lists r (is @ [i]) = (class_lists r is)[at := class_lists r is ! at @ [i]]"
proof -
  have "r i \<in> set (first_roots r is)" using assms nth_mem by metis
  then have same: "first_roots r (is @ [i]) = first_roots r is" by (simp add: first_roots_snoc set_first_roots)
  show ?thesis
  proof (rule nth_equalityI)
    fix t assume "t < length (class_lists r (is @ [i]))"
    then have t: "t < length (first_roots r is)" by (simp add: class_lists_def same)
    then have "first_roots r is ! t = r i \<longleftrightarrow> t = at" using assms set_first_roots(2) [of r "is"] by (metis nth_eq_iff_index_eq)
    then show "class_lists r (is @ [i]) ! t = (class_lists r is)[at := class_lists r is ! at @ [i]] ! t"
      using t assms by (cases "t = at") (auto simp: class_lists_def same)
  qed (simp add: class_lists_def same)
qed

lemma class_lists_new: "r i \<notin> r ` set is \<Longrightarrow> class_lists r (is @ [i]) = class_lists r is @ [[i]]"
proof -
  assume new: "r i \<notin> r ` set is"
  have no: "r x \<noteq> r i" if "x \<in> set is" for x using new that by (metis imageI)
  then have "filter (\<lambda>j. r j = r i) is = []" by simp
  moreover have "filter (\<lambda>j. r j = c) (is @ [i]) = filter (\<lambda>j. r j = c) is" if "c \<in> set (first_roots r is)" for c
    using that new by (auto simp: set_first_roots)
  ultimately show ?thesis using new by (simp add: class_lists_def first_roots_snoc)
qed

lemma collect_all:
  assumes "wf_parents parent" "length parent = n" "root parent = r" "\<forall>i \<in> set rest. i < n"
    "\<And>c. case slot c of Some at \<Rightarrow> at < length (first_roots r is) \<and> first_roots r is ! at = c | None \<Rightarrow> c \<notin> r ` set is"
  shows "collect_groups rest parent slot (class_lists r is) = Some (class_lists r (is @ rest))"
  using assms
proof (induction rest arbitrary: parent slot "is")
  case (Cons i rest)
  obtain p1 where f: "find_root parent i = Some (r i, p1)" "wf_parents p1" "length p1 = n" "root p1 = r"
    using find_root_ends [OF Cons(2), of i] Cons(3-5) by auto
  have len: "length (class_lists r is) = length (first_roots r is)" by (simp add: class_lists_def)
  show ?case
  proof (cases "slot (r i)")
    case None
    then have new: "r i \<notin> r ` set is" using Cons(6) [of "r i"] by simp
    have "collect_groups rest p1 (slot(r i \<mapsto> length (class_lists r is))) (class_lists r (is @ [i])) = Some (class_lists r ((is @ [i]) @ rest))"
    proof (rule Cons(1) [OF f(2-4)])
      fix c
      show "case (slot(r i \<mapsto> length (class_lists r is))) c of Some at \<Rightarrow> at < length (first_roots r (is @ [i])) \<and> first_roots r (is @ [i]) ! at = c
          | None \<Rightarrow> c \<notin> r ` set (is @ [i])"
        using Cons(6) [of c] new len by (auto simp: first_roots_snoc nth_append split: option.splits)
    qed (use Cons(5) in simp)
    then show ?thesis using None f(1) by (simp add: class_lists_new [OF new])
  next
    case (Some at)
    then have at: "at < length (first_roots r is)" "first_roots r is ! at = r i" using Cons(6) [of "r i"] by simp_all
    then have old: "r i \<in> r ` set is" using set_first_roots(1) [of r "is"] nth_mem by metis
    have "collect_groups rest p1 slot (class_lists r (is @ [i])) = Some (class_lists r ((is @ [i]) @ rest))"
    proof (rule Cons(1) [OF f(2-4)])
      fix c
      show "case slot c of Some at \<Rightarrow> at < length (first_roots r (is @ [i])) \<and> first_roots r (is @ [i]) ! at = c | None \<Rightarrow> c \<notin> r ` set (is @ [i])"
        using Cons(6) [of c] old by (auto simp: first_roots_snoc split: option.splits)
    qed (use Cons(5) in simp)
    then show ?thesis using Some f(1) by (simp add: class_lists_old [OF at])
  qed
qed simp

text \<open>Two references to one order: both name their merchant, the same one, and the same number. Case and
  punctuation do not count, and a merchant or a number of nothing else is none.\<close>

definition same_order :: "shipment_order \<Rightarrow> shipment_order \<Rightarrow> bool" where
  "same_order x y \<longleftrightarrow> (\<exists>m m'. so_merchant x = Some m \<and> so_merchant y = Some m' \<and> merchant_key m = merchant_key m' \<and> merchant_key m \<noteq> [])
     \<and> order_key (so_ref x) = order_key (so_ref y) \<and> order_key (so_ref x) \<noteq> []"

definition shares_order :: "shipment_order list list \<Rightarrow> (nat \<times> nat) set" where
  "shares_order members = {(i, j). i < length members \<and> j < length members \<and> (\<exists>x \<in> set (members ! i). \<exists>y \<in> set (members ! j). same_order x y)}"

lemma in_grouping_keys: "(m, k) \<in> set (grouping_keys orders) \<longleftrightarrow>
    (\<exists>x \<in> set orders. \<exists>name. so_merchant x = Some name \<and> m = merchant_key name \<and> m \<noteq> [] \<and> k = order_key (so_ref x) \<and> k \<noteq> [])"
proof -
  have "merchant_key (merchant_of x) = m \<and> m \<noteq> [] \<longleftrightarrow> (\<exists>name. so_merchant x = Some name \<and> m = merchant_key name \<and> m \<noteq> [])" for x
    by (cases "so_merchant x") (auto simp: merchant_of_def merchant_key_def)
  then show ?thesis unfolding grouping_keys_def by (auto simp: image_iff) metis+
qed

lemma shared_keys: "set (grouping_keys xs) \<inter> set (grouping_keys ys) \<noteq> {} \<longleftrightarrow> (\<exists>x \<in> set xs. \<exists>y \<in> set ys. same_order x y)"
proof -
  have "set (grouping_keys xs) \<inter> set (grouping_keys ys) \<noteq> {} \<longleftrightarrow> (\<exists>m k. (m, k) \<in> set (grouping_keys xs) \<and> (m, k) \<in> set (grouping_keys ys))" by auto
  then show ?thesis unfolding in_grouping_keys same_order_def by metis
qed

lemma in_keyed: "(i, k) \<in> set (keyed members) \<longleftrightarrow> i < length members \<and> k \<in> set (grouping_keys (members ! i))"
  by (auto simp: keyed_def)

lemma keyed_sharing: "sharing (keyed members) = shares_order members"
  by (auto simp: sharing_def shares_order_def in_keyed shared_keys [symmetric])

lemma order_groups_classes:
  "\<exists>r. order_groups members = Some (class_lists r [0..<length members])
    \<and> (\<forall>i < length members. \<forall>j < length members. r i = r j \<longleftrightarrow> (i, j) \<in> (shares_order members)\<^sup>*)"
proof -
  let ?n = "length members"
  have root0: "root [0..<?n] i = i" if "i < ?n" for i using that by (intro root_of_root) simp
  have "joined ?n [] ([0..<?n], Map.empty)" using root0 by (auto simp: joined_def wf_parents_def sharing_def)
  moreover have "\<forall>(i, k) \<in> set (keyed members). i < ?n" by (auto simp: keyed_def)
  ultimately obtain parent owner where u: "union_all (keyed members) ([0..<?n], Map.empty) = Some (parent, owner)" "joined ?n (keyed members) (parent, owner)"
    using joined_all [of ?n "[]" "([0..<?n], Map.empty)" "keyed members"] by auto
  then have "collect_groups [0..<?n] parent Map.empty (class_lists (root parent) []) = Some (class_lists (root parent) ([] @ [0..<?n]))"
    by (intro collect_all [where n = ?n]) (auto simp: joined_def)
  then have "order_groups members = Some (class_lists (root parent) [0..<?n])" by (simp add: order_groups_def u(1) class_lists_def first_roots_def)
  moreover have "\<forall>i < ?n. \<forall>j < ?n. root parent i = root parent j \<longleftrightarrow> (i, j) \<in> (shares_order members)\<^sup>*"
    using u(2) by (simp add: joined_def keyed_sharing)
  ultimately show ?thesis by blast
qed

lemma class_lists_facts:
  "mset (concat (class_lists r is)) = mset is" "g \<in> set (class_lists r is) \<Longrightarrow> g \<noteq> []"
  "g \<in> set (class_lists r is) \<Longrightarrow> sorted is \<Longrightarrow> sorted g"
  "(\<exists>g \<in> set (class_lists r is). i \<in> set g \<and> j \<in> set g) \<longleftrightarrow> i \<in> set is \<and> j \<in> set is \<and> r i = r j"
proof -
  have "distinct cs \<Longrightarrow> r ` set is \<subseteq> set cs \<Longrightarrow> mset (concat (map (\<lambda>c. filter (\<lambda>i. r i = c) is) cs)) = mset is" for cs
  proof (induction cs arbitrary: "is")
    case (Cons c cs)
    let ?is = "filter (\<lambda>i. r i \<noteq> c) is"
    have "map (\<lambda>d. filter (\<lambda>i. r i = d) is) cs = map (\<lambda>d. filter (\<lambda>i. r i = d) ?is) cs"
      using Cons(2) by (intro map_cong refl) (auto intro!: filter_cong)
    moreover have "mset (concat (map (\<lambda>d. filter (\<lambda>i. r i = d) ?is) cs)) = mset ?is"
      by (rule Cons(1)) (use Cons(2,3) in auto)
    ultimately have "mset (concat (map (\<lambda>d. filter (\<lambda>i. r i = d) is) cs)) = mset ?is" by (simp only:)
    then show ?case by (simp add: multiset_partition [symmetric])
  qed auto
  from this [of "first_roots r is"] show "mset (concat (class_lists r is)) = mset is" by (simp add: class_lists_def set_first_roots)
  show "g \<in> set (class_lists r is) \<Longrightarrow> g \<noteq> []" by (auto simp: class_lists_def set_first_roots filter_empty_conv)
  show "g \<in> set (class_lists r is) \<Longrightarrow> sorted is \<Longrightarrow> sorted g" by (auto simp: class_lists_def intro: sorted_filter [of "\<lambda>x. x", simplified])
  show "(\<exists>g \<in> set (class_lists r is). i \<in> set g \<and> j \<in> set g) \<longleftrightarrow> i \<in> set is \<and> j \<in> set is \<and> r i = r j"
    by (auto simp: class_lists_def set_first_roots)
qed


lemma class_lists_heads: "sorted_wrt (<) (map hd (class_lists r [0..<n]))"
proof (induction n)
  case (Suc n)
  have below: "x < n" if "g \<in> set (class_lists r [0..<n])" "x \<in> set g" for g x using that by (auto simp: class_lists_def)
  have ne: "g \<noteq> []" if "g \<in> set (class_lists r [0..<n])" for g using class_lists_facts(2) that .
  show ?case
  proof (cases "r n \<in> r ` set [0..<n]")
    case True
    then obtain at where at: "at < length (first_roots r [0..<n])" "first_roots r [0..<n] ! at = r n"
      using set_first_roots(1) [of r "[0..<n]"] by (metis in_set_conv_nth)
    let ?cs = "class_lists r [0..<n]"
    have "at < length ?cs" using at by (simp add: class_lists_def)
    then have "hd (?cs ! at @ [n]) = hd (?cs ! at)" using ne nth_mem by (metis hd_append2)
    then have "map hd (?cs[at := ?cs ! at @ [n]]) = map hd ?cs" by (simp add: map_update list_update_same_conv \<open>at < length ?cs\<close>)
    then show ?thesis using Suc class_lists_old [of at r "[0..<n]" n, OF at] by simp
  next
    case False
    then show ?thesis using Suc below ne class_lists_new [of r n "[0..<n]"] by (auto simp: sorted_wrt_append)
  qed
qed (simp add: class_lists_def first_roots_def)

text \<open>C15. Two packages are on one card exactly when a chain of shared orders links them, each of a merchant both sides name. The grouping
  always ends, every package is in one group, groups come in the order of their first packages, and
  packages in the order they were given.\<close>
theorem cards_are_classes_of_shared_orders:
  "\<exists>groups. order_groups members = Some groups \<and> mset (concat groups) = mset [0..<length members]
    \<and> list_all (\<lambda>g. g \<noteq> [] \<and> sorted g) groups \<and> sorted_wrt (<) (map hd groups)
    \<and> (\<forall>i j. (\<exists>g. g \<in> set groups \<and> i \<in> set g \<and> j \<in> set g)
          \<longleftrightarrow> i < length members \<and> j < length members \<and> (i, j) \<in> (shares_order members)\<^sup>*)"
proof -
  let ?n = "length members"
  obtain r where r: "order_groups members = Some (class_lists r [0..<?n])"
    "\<forall>i < ?n. \<forall>j < ?n. r i = r j \<longleftrightarrow> (i, j) \<in> (shares_order members)\<^sup>*"
    using order_groups_classes by blast
  have "list_all (\<lambda>g. g \<noteq> [] \<and> sorted g) (class_lists r [0..<?n])"
    using class_lists_facts(2,3) [of _ r "[0..<?n]"] by (simp add: list_all_iff)
  moreover have "(\<exists>g. g \<in> set (class_lists r [0..<?n]) \<and> i \<in> set g \<and> j \<in> set g)
      \<longleftrightarrow> i < ?n \<and> j < ?n \<and> (i, j) \<in> (shares_order members)\<^sup>*" for i j
    using class_lists_facts(4) [of r "[0..<?n]" i j] r(2) unfolding Bex_def by (auto simp del: upt_conv_Cons)
  ultimately show ?thesis using r(1) class_lists_facts(1) [of r "[0..<?n]"] class_lists_heads [of r ?n] by blast
qed

section \<open>What a card shows\<close>

lemma mset_promoted: "mset (case dropWhile p ms of [] \<Rightarrow> ms | rep # rest \<Rightarrow> rep # takeWhile p ms @ rest) = mset ms"
proof (cases "dropWhile p ms")
  case Nil
  then show ?thesis by (simp only: list.case)
next
  case (Cons rep rest)
  then have "mset ms = mset (takeWhile p ms) + mset (rep # rest)" by (metis mset_append takeWhile_dropWhile_id)
  then show ?thesis using Cons by simp
qed

lemma mset_representative [simp]: "mset (representative_first key members) = mset members"
  by (simp only: representative_first_def Let_def mset_promoted mset_sort)

lemma representative_nonempty [simp]: "representative_first key members = [] \<longleftrightarrow> members = []"
  using mset_representative [of key members] by (metis mset_zero_iff)

lemma representative_landed:
  assumes "representative_first key members = rep # rest" "fst (key rep)"
  shows "\<forall>m \<in> set (rep # rest). fst (key m)"
proof -
  let ?ms = "sort_key (\<lambda>m. case key m of (_, at, i) \<Rightarrow> (- at, - i)) members"
  show ?thesis
  proof (cases "dropWhile (\<lambda>m. fst (key m)) ?ms")
    case Nil
    then have "rep # rest = ?ms" using assms(1) unfolding representative_first_def Let_def by (simp only: list.case)
    moreover have "\<forall>m \<in> set ?ms. fst (key m)" using Nil by (simp only: dropWhile_eq_Nil_conv)
    ultimately show ?thesis by metis
  next
    case (Cons x xs)
    then have "\<not> fst (key x)" by (metis hd_dropWhile list.sel(1) list.distinct(1))
    moreover have "rep = x" using assms(1) Cons by (simp add: representative_first_def Let_def)
    ultimately show ?thesis using assms(2) by simp
  qed
qed

lemma take_members_all:
  assumes "distinct is" "\<forall>i \<in> set is. i < length slots \<and> slots ! i = Some (f i)"
  shows "take_members is slots = (map f is, fold (\<lambda>i s. s[i := None]) is slots)"
  using assms
proof (induction "is" arbitrary: slots)
  case (Cons i "is")
  have "take_members is (slots[i := None]) = (map f is, fold (\<lambda>i s. s[i := None]) is (slots[i := None]))"
    by (rule Cons(1)) (use Cons(2,3) in \<open>auto simp: nth_list_update\<close>)
  then show ?case using Cons(3) by simp
qed simp

lemma fold_none: "length (fold (\<lambda>i s. s[i := None]) is slots) = length slots" "j \<notin> set is \<Longrightarrow> fold (\<lambda>i s. s[i := None]) is slots ! j = slots ! j"
  by (induction "is" arbitrary: slots) auto

lemma take_groups_all:
  assumes "distinct (concat groups)" "\<forall>i \<in> set (concat groups). i < length slots \<and> slots ! i = Some (f i)"
  shows "take_groups key groups slots = map (\<lambda>g. representative_first key (map f g)) groups"
  using assms
proof (induction groups arbitrary: slots)
  case (Cons g gs)
  have "take_members g slots = (map f g, fold (\<lambda>i s. s[i := None]) g slots)" using Cons(2,3) by (intro take_members_all) auto
  moreover have "\<forall>i \<in> set (concat gs). i \<notin> set g" using Cons(2) by auto
  then have "take_groups key gs (fold (\<lambda>i s. s[i := None]) g slots) = map (\<lambda>g. representative_first key (map f g)) gs"
    by (intro Cons(1)) (use Cons(2,3) in \<open>simp_all add: fold_none ball_Un\<close>)
  ultimately show ?case by simp
qed simp

lemma fold_groups_all:
  assumes "order_groups (map orders items) = Some groups" "mset (concat groups) = mset [0..<length items]" "[] \<notin> set groups"
  shows "fold_groups items orders key = Some (map (\<lambda>g. representative_first key (map ((!) items) g)) groups)"
proof -
  have d: "distinct (concat groups)" using assms(2) mset_eq_imp_distinct_iff distinct_upt by metis
  have "set (concat groups) = set [0..<length items]" using assms(2) mset_eq_setD by blast
  then have "take_groups key groups (map Some items) = map (\<lambda>g. representative_first key (map ((!) items) g)) groups"
    by (intro take_groups_all d) auto
  have "filter (\<lambda>ms. ms \<noteq> []) (map (\<lambda>g. representative_first key (map ((!) items) g)) gs) = map (\<lambda>g. representative_first key (map ((!) items) g)) gs"
    if "[] \<notin> set gs" for gs using that by (induction gs) (auto simp: representative_nonempty)
  with \<open>take_groups key groups (map Some items) = _\<close> have "filter (\<lambda>ms. ms \<noteq> []) (take_groups key groups (map Some items)) = map (\<lambda>g. representative_first key (map ((!) items) g)) groups"
    using assms(3) by simp
  then show ?thesis using assms(1) by (simp add: fold_groups_def)
qed

definition card_packages :: "shipment \<Rightarrow> (int \<times> string) list" where
  "card_packages c = (sm_id c, sm_status c) # map (\<lambda>l. (sl_id l, sl_status l)) (sm_legs c)"

lemma make_card_packages:
  "members \<noteq> [] \<Longrightarrow> \<exists>c. make_card members = Some c \<and> card_packages c = map (\<lambda>m. (sm_id m, sm_status m)) members"
  by (cases members) (auto simp: make_card_def card_packages_def leg_of_def Let_def split: prod.split)

definition package_of :: "shipment \<Rightarrow> int \<times> string" where
  "package_of r = (sm_id r, sm_status r)"

text \<open>The cards, one for each list of members, the representative first.\<close>

lemma group_shipments_cards:
  "\<exists>members. group_shipments rows = Some (map (\<lambda>ms. the (make_card ms)) members) \<and> mset (concat members) = mset rows
    \<and> (\<forall>ms \<in> set members. ms \<noteq> [] \<and> (\<exists>ms'. ms = representative_first (\<lambda>r. (sm_status r = ''delivered'', sm_update r, sm_id r)) ms'))"
proof -
  let ?key = "\<lambda>r. (sm_status r = ''delivered'', sm_update r, sm_id r)"
  obtain r where r: "order_groups (map sm_orders rows) = Some (class_lists r [0..<length rows])"
    using order_groups_classes [of "map sm_orders rows"] by auto
  let ?gs = "class_lists r [0..<length rows]" let ?members = "map (\<lambda>g. representative_first ?key (map ((!) rows) g)) ?gs"
  have ne: "[] \<notin> set ?gs" using class_lists_facts(2) by blast
  have f: "fold_groups rows sm_orders ?key = Some ?members" by (rule fold_groups_all [OF r class_lists_facts(1) ne])
  have mne: "ms \<noteq> []" if "ms \<in> set ?members" for ms using that ne by auto
  have "List.map_filter make_card mss = map (\<lambda>ms. the (make_card ms)) mss" if "\<forall>ms \<in> set mss. ms \<noteq> []" for mss
    using that by (induction mss) (use make_card_packages in \<open>force simp: List.map_filter_def\<close>)+
  then have "List.map_filter make_card ?members = map (\<lambda>ms. the (make_card ms)) ?members" using mne by blast
  then have "group_shipments rows = Some (map (\<lambda>ms. the (make_card ms)) ?members)" unfolding group_shipments_def f option.map by (rule arg_cong)
  moreover have "mset (concat (map (\<lambda>g. representative_first ?key (map ((!) rows) g)) gs)) = mset (map ((!) rows) (concat gs))" for gs
    by (induction gs) simp_all
  then have "mset (concat ?members) = mset rows" using class_lists_facts(1) [of r "[0..<length rows]"] by (metis map_nth mset_map)
  moreover have "\<exists>ms'. ms = representative_first ?key ms'" if "ms \<in> set ?members" for ms using that by auto
  ultimately show ?thesis using mne by blast
qed

lemma card_packages_of: "ms \<noteq> [] \<Longrightarrow> card_packages (the (make_card ms)) = map package_of ms"
  using make_card_packages [of ms] by (auto simp: package_of_def)

text \<open>A card whose package has landed has no other on its way.\<close>

lemma card_landed:
  assumes "representative_first (\<lambda>r. (sm_status r = ''delivered'', sm_update r, sm_id r)) ms' = ms" "ms \<noteq> []"
  shows "(sm_status (the (make_card ms)) = ''delivered'') = list_all (\<lambda>(_, s). s = ''delivered'') (card_packages (the (make_card ms)))"
proof -
  obtain rep rest where e: "ms = rep # rest" using assms(2) by (cases ms) auto
  have p: "card_packages (the (make_card ms)) = map package_of (rep # rest)"
    using card_packages_of [OF assms(2)] e by simp
  then have st: "sm_status (the (make_card ms)) = sm_status rep" by (simp add: card_packages_def package_of_def)
  have "sm_status rep = ''delivered'' \<Longrightarrow> \<forall>m \<in> set (rep # rest). sm_status m = ''delivered''"
    using representative_landed [OF assms(1) [unfolded e]] by simp
  then show ?thesis unfolding st p by (auto simp: package_of_def list_all_iff)
qed

text \<open>C16. Cards lose no package and hide none that is on its way: each is on exactly one card, and a card counts as
  delivered exactly when all its packages are, so the listing without delivered cards still has every
  package that was not delivered.\<close>
theorem no_package_on_its_way_is_hidden:
  "\<exists>cards. group_shipments rows = Some cards
    \<and> mset (concat (map card_packages cards)) = mset (map package_of rows)
    \<and> list_all (\<lambda>c. (sm_status c = ''delivered'') = list_all (\<lambda>(_, s). s = ''delivered'') (card_packages c)) cards
    \<and> set (map package_of (filter (\<lambda>r. sm_status r \<noteq> ''delivered'') rows))
        \<subseteq> set (concat (map card_packages (the (shipment_cards False rows))))"
proof -
  obtain members where m: "group_shipments rows = Some (map (\<lambda>ms. the (make_card ms)) members)" "mset (concat members) = mset rows"
    "\<forall>ms \<in> set members. ms \<noteq> [] \<and> (\<exists>ms'. ms = representative_first (\<lambda>r. (sm_status r = ''delivered'', sm_update r, sm_id r)) ms')"
    using group_shipments_cards by blast
  let ?cards = "map (\<lambda>ms. the (make_card ms)) members"
  have "map card_packages (map (\<lambda>ms. the (make_card ms)) mss) = map (map package_of) mss" if "\<forall>ms \<in> set mss. ms \<noteq> []" for mss
    using that by (induction mss) (simp_all add: card_packages_of)
  then have "map card_packages ?cards = map (map package_of) members" using m(3) by blast
  then have "mset (concat (map card_packages ?cards)) = mset (map package_of (concat members))" by (simp only: map_concat)
  then have all: "mset (concat (map card_packages ?cards)) = mset (map package_of rows)" using m(2) by (simp only: mset_map)
  have landed: "\<forall>c \<in> set ?cards. (sm_status c = ''delivered'') = list_all (\<lambda>(_, s). s = ''delivered'') (card_packages c)"
    using m(3) card_landed by fastforce
  have "x \<in> set (concat (map card_packages (the (shipment_cards False rows))))"
    if "x \<in> set (map package_of (filter (\<lambda>r. sm_status r \<noteq> ''delivered'') rows))" for x
  proof -
    have x: "x \<in> set (map package_of rows)" "snd x \<noteq> ''delivered''" using that by (auto simp: package_of_def)
    then have "x \<in> set (concat (map card_packages ?cards))" using all mset_eq_setD by blast
    then obtain c where c: "c \<in> set ?cards" "x \<in> set (card_packages c)" by auto
    then have "sm_status c \<noteq> ''delivered''" using landed x(2) by (auto simp: list_all_iff split_beta)
    then show ?thesis using c by (auto simp: shipment_cards_def m(1))
  qed
  then show ?thesis using m(1) all landed by (simp add: list_all_iff subset_iff del: set_map map_map)
qed

end
