(* ===== verification/Delivery_Words.thy ===== *)
theory Delivery_Words
  imports Order_Groups
begin

text \<open>
  The words of a delivery (\<open>triage/shipment.rs\<close>, \<open>triage/extract/shipments.rs\<close>, \<open>triage/order_link.rs\<close>): the ladder of its
  status and how a mail and a carrier move it, and the laundering of what a model read in a mail. The
  regular expressions of the laundering are arguments.
\<close>

section \<open>Status\<close>

datatype shipment_status = Ordered | Shipped | OutForDelivery | Delivered | Exception

fun status_as_str :: "shipment_status \<Rightarrow> string" where
  "status_as_str Ordered = ''ordered''"
| "status_as_str Shipped = ''shipped''"
| "status_as_str OutForDelivery = ''out_for_delivery''"
| "status_as_str Delivered = ''delivered''"
| "status_as_str Exception = ''exception''"

definition parse_status :: "string \<Rightarrow> shipment_status option" where
  "parse_status s = (if s = ''ordered'' then Some Ordered else if s = ''shipped'' then Some Shipped
     else if s = ''out_for_delivery'' then Some OutForDelivery else if s = ''delivered'' then Some Delivered
     else if s = ''exception'' then Some Exception else None)"

definition stored_status :: "string \<Rightarrow> shipment_status" where
  "stored_status s = (case parse_status s of Some st \<Rightarrow> st | None \<Rightarrow> Shipped)"

fun rank :: "shipment_status \<Rightarrow> nat option" where
  "rank Ordered = Some 0"
| "rank Shipped = Some 1"
| "rank OutForDelivery = Some 2"
| "rank Delivered = Some 3"
| "rank Exception = None"

definition merge_status :: "shipment_status \<Rightarrow> shipment_status \<Rightarrow> shipment_status" where
  "merge_status existing incoming =
     (if existing = Delivered then Delivered
      else if incoming = Delivered then Delivered
      else if incoming = Exception then Exception
      else if existing = Exception then
        (case rank incoming of Some r \<Rightarrow> if the (rank OutForDelivery) \<le> r then incoming else Exception | None \<Rightarrow> Exception)
      else case (rank existing, rank incoming) of
        (Some e, Some i) \<Rightarrow> if e < i then incoming else existing
      | _ \<Rightarrow> existing)"

definition reconcile_carrier :: "shipment_status \<Rightarrow> shipment_status \<Rightarrow> shipment_status" where
  "reconcile_carrier existing carrier = (if existing = Delivered then Delivered else carrier)"

definition tracking_url :: "string \<Rightarrow> string \<Rightarrow> string option" where
  "tracking_url carrier number = (let enc = trim number in
     if carrier = ''usps'' then Some (''https://tools.usps.com/go/TrackConfirmAction?tLabels='' @ enc)
     else if carrier = ''ups'' then Some (''https://www.ups.com/track?tracknum='' @ enc)
     else if carrier = ''fedex'' then Some (''https://www.fedex.com/fedextrack/?trknbr='' @ enc)
     else if carrier = ''dhl'' then Some (''https://www.dhl.com/us-en/home/tracking.html?tracking-id='' @ enc)
     else None)"

section \<open>Laundering\<close>

text \<open>What the regular expressions do: the label of an order taken off, an item phrase cleaned, a host in it seen,
  and boilerplate stripped.\<close>

record regexes =
  rx_unlabel :: "string \<Rightarrow> string"
  rx_clean_item_phrase :: "string \<Rightarrow> string"
  rx_host_lure :: "string \<Rightarrow> bool"
  rx_extract_item_name :: "string \<Rightarrow> string"

definition ascii_upper :: "char \<Rightarrow> char" where
  "ascii_upper c = (if is_ascii_lower c then char_of (cp c - 32) else c)"

definition normalize_tracking :: "string \<Rightarrow> string option" where
  "normalize_tracking raw = (let trimmed = trim raw in
     if list_ex (\<lambda>w. 3 \<le> length w \<and> list_all (\<lambda>c. is_ascii_lower c \<or> is_ascii_upper c) w) (split_whitespace trimmed) then None
     else let squeezed = map ascii_upper (filter (\<lambda>c. \<not> is_whitespace c \<and> c \<noteq> CHR ''-'') trimmed); n = length squeezed in
       if \<not> (8 \<le> n \<and> n \<le> 40) then None
       else if \<not> list_all is_ascii_alnum squeezed then None
       else if length (filter is_ascii_digit squeezed) < 8 then None
       else Some squeezed)"

definition is_self_identifying_shape :: "string \<Rightarrow> bool" where
  "is_self_identifying_shape n = (let digits = (\<lambda>s. s \<noteq> [] \<and> list_all is_ascii_digit s) in
     list_all is_ascii n
     \<and> (length n = 18 \<and> to_ascii_lowercase (take 2 n) = ''1z'' \<and> list_all is_ascii_alnum (drop 2 n)
        \<or> 12 \<le> length n \<and> to_ascii_lowercase (take 3 n) = ''tba'' \<and> digits (drop 3 n)
        \<or> 20 \<le> length n \<and> length n \<le> 26 \<and> digits n \<and> take 2 n \<in> {''92'', ''93'', ''94''}))"

definition is_ambiguous_tracking_shape :: "string \<Rightarrow> bool" where
  "is_ambiguous_tracking_shape number = (\<not> is_self_identifying_shape (trim number))"

definition strip_order_label :: "regexes \<Rightarrow> string \<Rightarrow> string" where
  "strip_order_label rx raw = trim (rx_unlabel rx (trim raw))"

definition truncate_trimmed :: "string \<Rightarrow> nat \<Rightarrow> string" where
  "truncate_trimmed s n = take n (trim s)"

definition sanitize_order_ref :: "regexes \<Rightarrow> string option \<Rightarrow> string option" where
  "sanitize_order_ref rx raw = Option.bind raw (\<lambda>raw. let stripped = strip_order_label rx raw in
     if stripped = [] then None
     else if \<not> list_all (\<lambda>c. is_ascii_alnum c \<or> c \<in> {CHR ''-'', CHR ''#'', CHR ''/'', CHR '' ''}) stripped then None
     else let capped = truncate_trimmed stripped 64 in if capped = [] then None else Some capped)"

definition sanitize_tracking_number :: "regexes \<Rightarrow> string option \<Rightarrow> string option \<Rightarrow> string option" where
  "sanitize_tracking_number rx raw order_ref = Option.bind (Option.bind raw normalize_tracking) (\<lambda>candidate.
     if is_ambiguous_tracking_shape candidate \<and> length (filter is_ascii_digit candidate) < 10 then None
     else case sanitize_order_ref rx order_ref of
       Some order \<Rightarrow> if normalize_tracking order = Some candidate then None else Some candidate
     | None \<Rightarrow> Some candidate)"

definition echoes_subject :: "string \<Rightarrow> string \<Rightarrow> bool" where
  "echoes_subject item subject = (let subj = to_lowercase (trim subject); name = to_lowercase (trim item) in
     subj \<noteq> [] \<and> name \<noteq> [] \<and> contains subj name \<and> length subj * 9 \<le> length name * 10)"

definition sanitize_item_name :: "regexes \<Rightarrow> string option \<Rightarrow> string \<Rightarrow> string option" where
  "sanitize_item_name rx raw subject = Option.bind raw (\<lambda>raw.
     let plain = trim (filter (\<lambda>c. \<not> is_control c \<or> is_whitespace c) raw) in
     if plain = [] \<or> echoes_subject plain subject then None
     else let cleaned = rx_clean_item_phrase rx plain in
       if rx_host_lure rx cleaned then None
       else let name = rx_extract_item_name rx cleaned in if name = [] then None else Some name)"

definition CARRIER_KEYS :: "string list" where
  "CARRIER_KEYS = [''ups'', ''unitedparcelservice'', ''usps'', ''uspostalservice'', ''unitedstatespostalservice'', ''fedex'',
     ''federalexpress'', ''dhl'', ''dhlexpress'', ''ontrac'', ''lasership'']"

definition RELAY_KEYS :: "string list" where
  "RELAY_KEYS = [''shopify'', ''shopifyemail'', ''shop'', ''shopapp'', ''bigcommerce'', ''squarespace'', ''wix'', ''klaviyo'', ''mailchimp'']"

definition plain_text :: "string \<Rightarrow> string" where
  "plain_text raw = join '' '' (split_whitespace (filter (\<lambda>c. \<not> is_control c \<or> is_whitespace c) raw))"

definition sanitize_merchant :: "string option \<Rightarrow> string option" where
  "sanitize_merchant raw = Option.bind raw (\<lambda>raw. let cleaned = trim (take 60 (plain_text raw)); key = merchant_key cleaned in
     if key = [] \<or> key \<in> set CARRIER_KEYS \<or> key \<in> set RELAY_KEYS then None else Some cleaned)"

fun sanitize_refs :: "regexes \<Rightarrow> string list \<Rightarrow> string list \<Rightarrow> string list" where
  "sanitize_refs rx seen [] = []"
| "sanitize_refs rx seen (raw # raws) = (case sanitize_order_ref rx (Some raw) of
     Some clean \<Rightarrow> (let key = order_key clean in
       if key \<noteq> [] \<and> key \<notin> set seen then clean # sanitize_refs rx (seen @ [key]) raws else sanitize_refs rx seen raws)
   | None \<Rightarrow> sanitize_refs rx seen raws)"

definition sanitize_order_refs :: "regexes \<Rightarrow> string list \<Rightarrow> string list" where
  "sanitize_order_refs rx raw = sanitize_refs rx [] raw"

definition sanitize_agent_item_name :: "regexes \<Rightarrow> string option \<Rightarrow> string \<Rightarrow> string option \<Rightarrow> string \<Rightarrow> string list \<Rightarrow> string option" where
  "sanitize_agent_item_name rx raw subject merchant carrier order_refs = Option.bind (sanitize_item_name rx raw subject) (\<lambda>name.
     let key = merchant_key name in
     if (case merchant of Some m \<Rightarrow> merchant_key m = key | None \<Rightarrow> False) \<or> merchant_key carrier = key \<or> key \<in> set CARRIER_KEYS then None
     else case map_option order_key (sanitize_order_ref rx (Some name)) of
       Some k \<Rightarrow> if list_ex (\<lambda>r. order_key r = k) order_refs then None else Some name
     | None \<Rightarrow> Some name)"

section \<open>The ladder\<close>

lemma parse_as_str [simp]: "parse_status (status_as_str st) = Some st"
  by (cases st) (simp_all add: parse_status_def)

lemma stored_as_str [simp]: "stored_status (status_as_str st) = st"
  by (simp add: stored_status_def)

lemma as_str_delivered [simp]: "status_as_str st = ''delivered'' \<longleftrightarrow> st = Delivered"
  by (cases st) simp_all

lemma merge_delivered [simp]: "merge_status Delivered st = Delivered" "merge_status st Delivered = Delivered"
  by (simp_all add: merge_status_def)

lemma carrier_delivered [simp]: "reconcile_carrier Delivered st = Delivered"
  by (simp add: reconcile_carrier_def)

text \<open>A mail never takes a package down the ladder, and an exception goes only when the package moves on.\<close>

lemma merge_never_regresses:
  "rank a = Some r \<Longrightarrow> merge_status a b \<noteq> Exception \<Longrightarrow> \<exists>r'. rank (merge_status a b) = Some r' \<and> r \<le> r'"
  by (cases a; cases b) (auto simp: merge_status_def)

lemma merge_idem: "merge_status a a = a"
  by (cases a) (simp_all add: merge_status_def)

lemma merge_again: "merge_status (merge_status a b) b = merge_status a b"
  by (cases a; cases b) (simp_all add: merge_status_def)

end
