(* ===== verification/Deliveries.thy ===== *)
theory Deliveries
  imports Delivery_Words Machine "HOL-Library.List_Lexorder" "HOL-Library.Char_ord"
begin

text \<open>
  The rows of packages (\<open>store/sqlite/agent_deliveries.rs\<close>, carrier polls in \<open>store/sqlite/specialists.rs\<close>): what the
  retained decisions on mail say about a package, projected onto its row. Rows of an older subsystem
  are not owned by the projection. One account; timestamps compare as the instants they render.
\<close>

section \<open>Decisions and mail\<close>

text \<open>Only deliveries are read here; what the other records carry is left out.\<close>

datatype record_proposal = BillRecord | ReceiptRecord
  | DeliveryRecord "string option" "string option" string "string option" "string option" "string list"
  | EventRecord | FinancialUpdateRecord

type_synonym decision = "record_proposal list"

record mail =
  ml_id :: int
  ml_received :: instant
  ml_subject :: "string option"
  ml_sent :: bool
  ml_spam :: bool

record shipment_info =
  si_carrier :: string
  si_number :: string
  si_item :: string
  si_status :: shipment_status
  si_url :: "string option"

record proposal =
  pr_msg :: int
  pr_received :: instant
  pr_info :: shipment_info
  pr_merchant :: "string option"
  pr_refs :: "string list"

section \<open>Rows\<close>

record shipment_row =
  sr_id :: int
  sr_number :: string
  sr_carrier :: string
  sr_item :: string
  sr_item_source :: string
  sr_item_msg :: "int option"
  sr_status :: string
  sr_url :: "string option"
  sr_last_msg :: "int option"
  sr_first_seen :: instant
  sr_update :: instant
  sr_raw :: "string option"
  sr_eta :: "instant option"
  sr_delivered :: "instant option"
  sr_polled :: "instant option"
  sr_answered :: "instant option"
  sr_failures :: nat
  sr_order_ref :: "string option"
  sr_merchant :: "string option"
  sr_merchant_msg :: "int option"
  sr_created_by :: "int option"
  sr_cleared :: "instant option"

record order_link =
  ol_shipment :: int
  ol_merchant_key :: string
  ol_order_key :: string
  ol_merchant :: string
  ol_ref :: string
  ol_source :: string
  ol_msg :: "int option"
  ol_merchant_msg :: "int option"

text \<open>\<open>dv_links\<close> is \<open>None\<close> while the migration has not made the table.\<close>

record deliveries =
  dv_mails :: "mail list"
  dv_decisions :: "int \<rightharpoonup> decision"
  dv_rows :: "shipment_row list"
  dv_owned :: "int list"
  dv_links :: "order_link list option"

definition row_of :: "deliveries \<Rightarrow> int \<Rightarrow> shipment_row option" where
  "row_of st i = find (\<lambda>r. sr_id r = i) (dv_rows st)"

definition row_for :: "deliveries \<Rightarrow> string \<Rightarrow> shipment_row option" where
  "row_for st number = find (\<lambda>r. sr_number r = number) (dv_rows st)"

section \<open>Proposals\<close>

definition tracking_numbers :: "regexes \<Rightarrow> decision \<Rightarrow> string list" where
  "tracking_numbers rx d = List.map_filter (\<lambda>r. case r of
     DeliveryRecord _ (Some number) _ _ _ _ \<Rightarrow> sanitize_tracking_number rx (Some number) None | _ \<Rightarrow> None) d"

definition carriers :: "string list" where
  "carriers = [''ups'', ''usps'', ''fedex'', ''dhl'', ''amazon'']"

definition read_proposal :: "regexes \<Rightarrow> string list \<Rightarrow> mail \<Rightarrow> record_proposal \<Rightarrow> proposal option" where
  "read_proposal rx affected m r = (case r of
     DeliveryRecord (Some carrier) (Some number) status item merchant refs \<Rightarrow>
       Option.bind (sanitize_tracking_number rx (Some number) None) (\<lambda>number.
         if \<not> (number \<in> set affected \<and> carrier \<in> set carriers) then None
         else Option.bind (parse_status status) (\<lambda>status.
           let merchant = sanitize_merchant merchant; refs = sanitize_order_refs rx refs;
             subject = (case ml_subject m of Some s \<Rightarrow> s | None \<Rightarrow> []);
             item = (case sanitize_agent_item_name rx item subject merchant carrier refs of Some n \<Rightarrow> n | None \<Rightarrow> []) in
           Some \<lparr>pr_msg = ml_id m, pr_received = ml_received m,
             pr_info = \<lparr>si_carrier = carrier, si_number = number, si_item = item, si_status = status, si_url = tracking_url carrier number\<rparr>,
             pr_merchant = merchant, pr_refs = refs\<rparr>))
   | _ \<Rightarrow> None)"

definition retained :: "deliveries \<Rightarrow> (mail \<times> decision) list" where
  "retained st = List.map_filter (\<lambda>m. case dv_decisions st (ml_id m) of
       Some d \<Rightarrow> if \<not> ml_sent m \<and> \<not> ml_spam m then Some (m, d) else None | None \<Rightarrow> None)
     (sort_key (\<lambda>m. (- ml_received m, - ml_id m)) (dv_mails st))"

definition proposals :: "regexes \<Rightarrow> string list \<Rightarrow> deliveries \<Rightarrow> proposal list" where
  "proposals rx affected st = concat (map (\<lambda>(m, d). List.map_filter (read_proposal rx affected m) d) (retained st))"

section \<open>Writes\<close>

definition insert_shipment :: "int \<Rightarrow> shipment_info \<Rightarrow> instant \<Rightarrow> deliveries \<Rightarrow> int \<times> deliveries" where
  "insert_shipment msg s seen st = (let i = fresh_id (map sr_id (dv_rows st)) in
     (i, st\<lparr>dv_rows := dv_rows st @ [\<lparr>sr_id = i, sr_number = si_number s, sr_carrier = si_carrier s, sr_item = si_item s,
       sr_item_source = ''regex'', sr_item_msg = (if si_item s \<noteq> [] then Some msg else None), sr_status = status_as_str (si_status s),
       sr_url = si_url s, sr_last_msg = Some msg, sr_first_seen = seen, sr_update = seen, sr_raw = None, sr_eta = None,
       sr_delivered = (if si_status s = Delivered then Some seen else None), sr_polled = None, sr_answered = None, sr_failures = 0, sr_order_ref = None,
       sr_merchant = None, sr_merchant_msg = None, sr_created_by = Some msg, sr_cleared = None\<rparr>]\<rparr>))"

definition newer_mail :: "bool \<Rightarrow> int \<Rightarrow> shipment_info \<Rightarrow> string \<Rightarrow> instant \<Rightarrow> shipment_row \<Rightarrow> shipment_row" where
  "newer_mail managed msg info status received r = r\<lparr>sr_carrier := si_carrier info, sr_url := si_url info,
     sr_created_by := (if managed then Some msg else sr_created_by r), sr_last_msg := Some msg,
     sr_failures := (if sr_update r < received then 0 else sr_failures r), sr_update := max (sr_update r) received,
     sr_status := status,
     sr_delivered := (if status = ''delivered'' then (case sr_delivered r of Some t \<Rightarrow> Some t | None \<Rightarrow> Some received)
       else if sr_raw r = None \<and> managed then None else sr_delivered r)\<rparr>"

definition record_newer_mail :: "int \<Rightarrow> bool \<Rightarrow> int \<Rightarrow> shipment_info \<Rightarrow> string \<Rightarrow> instant \<Rightarrow> deliveries \<Rightarrow> deliveries" where
  "record_newer_mail i managed msg info status received st = st\<lparr>dv_rows :=
     update_where (\<lambda>r. sr_id r = i \<and> (managed \<or> sr_update r < received)) (newer_mail managed msg info status received) (dv_rows st)\<rparr>"

fun add_links :: "int \<Rightarrow> string \<Rightarrow> int option \<Rightarrow> (string \<times> int) list \<Rightarrow> order_link list \<Rightarrow> order_link list" where
  "add_links i merchant merchant_msg [] links = links"
| "add_links i merchant merchant_msg ((order_ref, msg) # refs) links = (let mk = merchant_key merchant; ok = order_key order_ref in
     add_links i merchant merchant_msg refs
       (if list_ex (\<lambda>l. ol_shipment l = i \<and> ol_merchant_key l = mk \<and> ol_order_key l = ok) links then links
        else links @ [\<lparr>ol_shipment = i, ol_merchant_key = mk, ol_order_key = ok, ol_merchant = merchant, ol_ref = order_ref,
          ol_source = ''agent'', ol_msg = Some msg, ol_merchant_msg = merchant_msg\<rparr>]))"

definition rebuild_order_links :: "int \<Rightarrow> proposal list \<Rightarrow> (string \<times> int) option \<Rightarrow> deliveries \<Rightarrow> deliveries" where
  "rebuild_order_links i mine seller st = (case dv_links st of None \<Rightarrow> st
     | Some links \<Rightarrow> (let links = delete_where (\<lambda>l. ol_shipment l = i \<and> ol_source l = ''agent'') links;
         (merchant, merchant_msg) = (case seller of Some (name, msg) \<Rightarrow> (name, Some msg) | None \<Rightarrow> ([], None))
       in st\<lparr>dv_links := Some (add_links i merchant merchant_msg
         (concat (map (\<lambda>p. map (\<lambda>r. (r, pr_msg p)) (pr_refs p)) mine)) links)\<rparr>))"

definition named_by :: "proposal list \<Rightarrow> proposal option" where
  "named_by mine = find (\<lambda>p. si_item (pr_info p) \<noteq> []) mine"

fun seller_of :: "proposal list \<Rightarrow> (string \<times> int) option" where
  "seller_of [] = None"
| "seller_of (p # ps) = (case pr_merchant p of Some m \<Rightarrow> Some (m, pr_msg p) | None \<Rightarrow> seller_of ps)"

definition record_name :: "bool \<Rightarrow> proposal option \<Rightarrow> shipment_row \<Rightarrow> shipment_row" where
  "record_name reset named r = (case named of
     Some p \<Rightarrow> r\<lparr>sr_item := si_item (pr_info p), sr_item_source := ''agent'', sr_item_msg := Some (pr_msg p)\<rparr>
   | None \<Rightarrow> if reset then r\<lparr>sr_item := [], sr_item_source := ''regex'', sr_item_msg := None\<rparr> else r)"

definition record_merchant :: "bool \<Rightarrow> (string \<times> int) option \<Rightarrow> shipment_row \<Rightarrow> shipment_row" where
  "record_merchant reset merchant r = (if merchant \<noteq> None \<or> reset
     then r\<lparr>sr_merchant := map_option fst merchant, sr_merchant_msg := map_option snd merchant\<rparr> else r)"

definition record_identity :: "int \<Rightarrow> bool \<Rightarrow> proposal list \<Rightarrow> instant \<Rightarrow> deliveries \<Rightarrow> deliveries" where
  "record_identity i managed mine earlier st = (case row_of st i of None \<Rightarrow> st
     | Some row \<Rightarrow> (let agent_named = (sr_item_source row = ''agent''); agent_merchant = (sr_merchant_msg row \<noteq> None);
         named = named_by (filter (\<lambda>p. managed \<or> agent_named \<or> earlier < pr_received p) mine);
         merchant = seller_of (filter (\<lambda>p. managed \<or> agent_merchant \<or> earlier < pr_received p) mine)
       in st\<lparr>dv_rows := update_where (\<lambda>r. sr_id r = i) (record_merchant (managed \<or> agent_merchant) merchant)
            (update_where (\<lambda>r. sr_id r = i) (record_name (managed \<or> agent_named) named) (dv_rows st))\<rparr>))"

text \<open>The trigger takes the links of a deleted row.\<close>

definition delete_shipments :: "(shipment_row \<Rightarrow> bool) \<Rightarrow> deliveries \<Rightarrow> deliveries" where
  "delete_shipments p st = st\<lparr>dv_rows := delete_where p (dv_rows st),
     dv_links := map_option (delete_where (\<lambda>l. list_ex (\<lambda>r. p r \<and> sr_id r = ol_shipment l) (dv_rows st))) (dv_links st)\<rparr>"

definition retire :: "int \<Rightarrow> instant \<Rightarrow> deliveries \<Rightarrow> deliveries" where
  "retire i now st = (let st = delete_shipments (\<lambda>r. sr_id r = i \<and> i \<in> set (dv_owned st)) st;
       st = st\<lparr>dv_owned := delete_where (\<lambda>j. j = i) (dv_owned st)\<rparr>
     in record_identity i False [] now (rebuild_order_links i [] None st))"

text \<open>The row of a package, new and owned when there was none. A second owner of an id would be an error of the
  database, and the transaction would be rolled back.\<close>

definition row_or_new :: "string \<Rightarrow> proposal \<Rightarrow> deliveries \<Rightarrow> (int \<times> deliveries) option" where
  "row_or_new number latest st = (case row_for st number of Some r \<Rightarrow> Some (sr_id r, st)
     | None \<Rightarrow> (let (i, st) = insert_shipment (pr_msg latest) (pr_info latest) (pr_received latest) st
         in if i \<in> set (dv_owned st) then None else Some (i, st\<lparr>dv_owned := dv_owned st @ [i]\<rparr>)))"

definition mail_status :: "bool \<Rightarrow> string option \<Rightarrow> string \<Rightarrow> shipment_status \<Rightarrow> string" where
  "mail_status managed carrier_status current incoming = (case carrier_status of Some s \<Rightarrow> s
     | None \<Rightarrow> if managed then status_as_str incoming else status_as_str (merge_status (stored_status current) incoming))"

definition reconcile_number :: "string \<Rightarrow> proposal list \<Rightarrow> instant \<Rightarrow> deliveries \<Rightarrow> deliveries option" where
  "reconcile_number number ps now st = (let mine = filter (\<lambda>p. si_number (pr_info p) = number) ps in case mine of
     [] \<Rightarrow> Some (case row_for st number of Some r \<Rightarrow> retire (sr_id r) now st | None \<Rightarrow> st)
   | latest # _ \<Rightarrow>
       (let carrier_status = Option.bind (row_for st number) (\<lambda>r. if sr_raw r \<noteq> None then Some (sr_status r) else None) in
        Option.bind (row_or_new number latest st) (\<lambda>(i, st).
          let managed = i \<in> set (dv_owned st) in
          Option.bind (row_of st i) (\<lambda>row.
            let earlier = sr_update row;
              status = mail_status managed carrier_status (sr_status row) (si_status (pr_info latest));
              st = record_newer_mail i managed (pr_msg latest) (pr_info latest) status (pr_received latest) st;
              st = record_identity i managed mine earlier st
            in Some (rebuild_order_links i mine (seller_of mine) st)))))"

fun reconcile_all :: "string list \<Rightarrow> proposal list \<Rightarrow> instant \<Rightarrow> deliveries \<Rightarrow> deliveries option" where
  "reconcile_all [] ps now st = Some st"
| "reconcile_all (number # numbers) ps now st = Option.bind (reconcile_number number ps now st) (reconcile_all numbers ps now)"

definition reconcile :: "regexes \<Rightarrow> decision option \<Rightarrow> decision \<Rightarrow> instant \<Rightarrow> deliveries \<Rightarrow> deliveries option" where
  "reconcile rx previous current now st =
     (let affected = sort (remdups ((case previous of Some d \<Rightarrow> tracking_numbers rx d | None \<Rightarrow> []) @ tracking_numbers rx current)) in
      if affected = [] then Some st else reconcile_all affected (proposals rx affected st) now st)"

section \<open>Polls\<close>

record carrier_track =
  ct_status :: "shipment_status option"
  ct_raw :: string
  ct_eta :: "instant option"
  ct_delivered :: "instant option"

definition apply_carrier_track :: "int \<Rightarrow> carrier_track \<Rightarrow> instant \<Rightarrow> deliveries \<Rightarrow> bool \<times> deliveries" where
  "apply_carrier_track i track polled_at st = (case row_of st i of None \<Rightarrow> (False, st)
     | Some row \<Rightarrow> (let cur = stored_status (sr_status row);
         status = (case ct_status track of Some carrier \<Rightarrow> reconcile_carrier cur carrier | None \<Rightarrow> cur);
         status_changed = (status \<noteq> cur);
         visible_change = (status_changed \<or> sr_raw row \<noteq> Some (ct_raw track) \<or> sr_eta row \<noteq> ct_eta track);
         delivered_at = (if status = Delivered then Some (case ct_delivered track of Some t \<Rightarrow> t | None \<Rightarrow> polled_at) else None)
       in (status_changed, st\<lparr>dv_rows := update_where (\<lambda>r. sr_id r = i) (\<lambda>r. r\<lparr>sr_status := status_as_str status,
            sr_raw := Some (ct_raw track), sr_eta := ct_eta track,
            sr_delivered := (case sr_delivered r of Some t \<Rightarrow> Some t | None \<Rightarrow> delivered_at),
            sr_polled := Some polled_at, sr_answered := Some polled_at, sr_failures := 0,
            sr_update := (if visible_change then polled_at else sr_update r)\<rparr>) (dv_rows st)\<rparr>)))"

definition record_poll_outcome :: "int \<Rightarrow> instant \<Rightarrow> bool \<Rightarrow> deliveries \<Rightarrow> deliveries" where
  "record_poll_outcome i polled_at permanent st = st\<lparr>dv_rows := update_where (\<lambda>r. sr_id r = i)
     (\<lambda>r. r\<lparr>sr_polled := Some polled_at, sr_failures := sr_failures r + (if permanent then 1 else 0)\<rparr>) (dv_rows st)\<rparr>"

definition list_pollable_shipments :: "instant \<Rightarrow> nat \<Rightarrow> deliveries \<Rightarrow> shipment_row list" where
  "list_pollable_shipments min_first_seen max_failures st =
     sort_key (\<lambda>r. (case sr_polled r of None \<Rightarrow> (0::nat, 0) | Some t \<Rightarrow> (1, t), sr_id r))
       (filter (\<lambda>r. sr_status r \<noteq> ''delivered'' \<and> sr_carrier r \<in> {''ups'', ''usps'', ''fedex'', ''dhl''}
          \<and> min_first_seen \<le> sr_first_seen r \<and> sr_failures r < max_failures) (dv_rows st))"

section \<open>Operations\<close>

text \<open>A mail arrives; a decision on it is committed, with the one it replaces; a carrier answers or fails to.\<close>

datatype delivery_op = Arrive mail | Commit int decision instant | Track int carrier_track instant | Poll_Failed int instant bool

fun delivery_step :: "regexes \<Rightarrow> delivery_op \<Rightarrow> deliveries \<Rightarrow> bool \<times> deliveries" where
  "delivery_step rx (Arrive m) st = (if list_ex (\<lambda>m'. ml_id m' = ml_id m) (dv_mails st) \<or> dv_decisions st (ml_id m) \<noteq> None
     then (False, st) else (True, st\<lparr>dv_mails := dv_mails st @ [m]\<rparr>))"
| "delivery_step rx (Commit msg d now) st =
     (case reconcile rx (dv_decisions st msg) d now (st\<lparr>dv_decisions := (dv_decisions st)(msg \<mapsto> d)\<rparr>) of
        Some st' \<Rightarrow> (True, st') | None \<Rightarrow> (False, st))"
| "delivery_step rx (Track i track at) st = apply_carrier_track i track at st"
| "delivery_step rx (Poll_Failed i at permanent) st = (True, record_poll_outcome i at permanent st)"

end
