(* ===== verification/Delivery_Promises.thy ===== *)
theory Delivery_Promises
  imports Deliveries
begin

text \<open>
  What the projection of deliveries keeps: rows it owns say what the retained decisions say, whatever arrives,
  is decided, or is answered by a carrier; and what a delivered package keeps.
\<close>

section \<open>Rows by number\<close>

definition links_of :: "deliveries \<Rightarrow> order_link list" where
  "links_of st = (case dv_links st of None \<Rightarrow> [] | Some ls \<Rightarrow> ls)"

definition agent_link :: "int \<Rightarrow> order_link \<Rightarrow> bool" where
  "agent_link i l \<longleftrightarrow> ol_shipment l = i \<and> ol_source l = ''agent''"

definition wf_deliveries :: "deliveries \<Rightarrow> bool" where
  "wf_deliveries st \<longleftrightarrow> distinct (map sr_id (dv_rows st)) \<and> distinct (map sr_number (dv_rows st))
     \<and> set (dv_owned st) \<subseteq> sr_id ` set (dv_rows st)
     \<and> (\<forall>l \<in> set (links_of st). ol_source l = ''agent'' \<longrightarrow> ol_shipment l \<in> sr_id ` set (dv_rows st))"

lemma row_forD: "row_for st n = Some r \<Longrightarrow> r \<in> set (dv_rows st) \<and> sr_number r = n"
  by (auto simp: row_for_def find_Some_iff)

lemma row_for_None: "row_for st n = None \<longleftrightarrow> (\<forall>r \<in> set (dv_rows st). sr_number r \<noteq> n)"
  by (auto simp: row_for_def find_None_iff)

lemma find_unique: "distinct (map k rs) \<Longrightarrow> r \<in> set rs \<Longrightarrow> find (\<lambda>x. k x = k r) rs = Some r"
  by (induction rs) (auto simp: image_iff)

lemma row_for_own: "wf_deliveries st \<Longrightarrow> r \<in> set (dv_rows st) \<Longrightarrow> row_for st (sr_number r) = Some r"
  by (simp add: row_for_def wf_deliveries_def find_unique)

lemma row_of_own: "wf_deliveries st \<Longrightarrow> r \<in> set (dv_rows st) \<Longrightarrow> row_of st (sr_id r) = Some r"
  by (simp add: row_of_def wf_deliveries_def find_unique)

lemma row_ofD: "row_of st i = Some r \<Longrightarrow> r \<in> set (dv_rows st) \<and> sr_id r = i"
  by (auto simp: row_of_def find_Some_iff)

lemma row_id_eq: "wf_deliveries st \<Longrightarrow> row_for st n = Some r \<Longrightarrow> row_for st n' = Some r' \<Longrightarrow> sr_id r = sr_id r' \<longleftrightarrow> n = n'"
  using row_of_own row_forD by (metis option.inject)

lemma find_update: "(\<And>r. P (f r) = P r) \<Longrightarrow> find P (update_where q f rs) = map_option (\<lambda>r. if q r then f r else r) (find P rs)"
  by (induction rs) (auto simp: update_where_def)

lemma row_for_update:
  "(\<And>r. sr_number (f r) = sr_number r) \<Longrightarrow>
    row_for (st\<lparr>dv_rows := update_where q f (dv_rows st)\<rparr>) n = map_option (\<lambda>r. if q r then f r else r) (row_for st n)"
  by (simp add: row_for_def find_update)

text \<open>States that differ in the values of rows only, not in which there are nor in who owns them.\<close>

definition same_shape :: "deliveries \<Rightarrow> deliveries \<Rightarrow> bool" where
  "same_shape st st' \<longleftrightarrow> map sr_id (dv_rows st') = map sr_id (dv_rows st) \<and> map sr_number (dv_rows st') = map sr_number (dv_rows st)
     \<and> dv_owned st' = dv_owned st \<and> dv_mails st' = dv_mails st \<and> dv_decisions st' = dv_decisions st"

lemma same_shape_refl [simp]: "same_shape st st"
  by (simp add: same_shape_def)

lemma same_shape_trans [trans]: "same_shape a b \<Longrightarrow> same_shape b c \<Longrightarrow> same_shape a c"
  by (simp add: same_shape_def)

lemma wf_same_shape:
  assumes "wf_deliveries st" "same_shape st st'" "\<And>l. l \<in> set (links_of st') \<Longrightarrow> ol_source l = ''agent'' \<Longrightarrow> ol_shipment l \<in> sr_id ` set (dv_rows st)"
  shows "wf_deliveries st'"
proof -
  have "sr_id ` set (dv_rows st') = sr_id ` set (dv_rows st)" using assms(2) unfolding same_shape_def by (metis list.set_map)
  then show ?thesis using assms by (simp add: wf_deliveries_def same_shape_def)
qed

lemma same_shape_update:
  "(\<And>r. sr_id (f r) = sr_id r) \<Longrightarrow> (\<And>r. sr_number (f r) = sr_number r) \<Longrightarrow> same_shape st (st\<lparr>dv_rows := update_where q f (dv_rows st)\<rparr>)"
  by (simp add: same_shape_def update_where_def comp_def if_distrib cong: if_cong)

lemma links_of_rows [simp]: "links_of (st\<lparr>dv_rows := rs\<rparr>) = links_of st" "links_of (st\<lparr>dv_owned := os\<rparr>) = links_of st"
  by (simp_all add: links_of_def)

section \<open>What each write does\<close>

definition identified :: "bool \<Rightarrow> proposal list \<Rightarrow> instant \<Rightarrow> shipment_row \<Rightarrow> shipment_row" where
  "identified managed mine earlier r =
     record_merchant (managed \<or> sr_merchant_msg r \<noteq> None) (seller_of (filter (\<lambda>p. managed \<or> sr_merchant_msg r \<noteq> None \<or> earlier < pr_received p) mine))
       (record_name (managed \<or> sr_item_source r = ''agent'') (named_by (filter (\<lambda>p. managed \<or> sr_item_source r = ''agent'' \<or> earlier < pr_received p) mine)) r)"

lemma identified_keeps [simp]:
  "sr_id (identified managed mine earlier r) = sr_id r" "sr_number (identified managed mine earlier r) = sr_number r"
  "sr_status (identified managed mine earlier r) = sr_status r" "sr_raw (identified managed mine earlier r) = sr_raw r"
  "sr_last_msg (identified managed mine earlier r) = sr_last_msg r" "sr_carrier (identified managed mine earlier r) = sr_carrier r"
  "sr_url (identified managed mine earlier r) = sr_url r"
  by (simp_all add: identified_def record_name_def record_merchant_def split: option.split)

lemma update_where_twice: "(\<And>r. q (f r) = q r) \<Longrightarrow> update_where q g (update_where q f rs) = update_where q (\<lambda>r. g (f r)) rs"
  by (simp add: update_where_def)

lemma update_where_id: "update_where q (\<lambda>r. r) rs = rs"
  by (simp add: update_where_def)

lemma update_where_cong: "(\<And>r. r \<in> set rs \<Longrightarrow> q r \<Longrightarrow> f r = g r) \<Longrightarrow> update_where q f rs = update_where q g rs"
  by (simp add: update_where_def)

lemma record_identity_eq:
  assumes "wf_deliveries st"
  shows "record_identity i managed mine earlier st = st\<lparr>dv_rows := update_where (\<lambda>r. sr_id r = i) (identified managed mine earlier) (dv_rows st)\<rparr>"
proof (cases "row_of st i")
  case None
  then have "count_where (\<lambda>r. sr_id r = i) (dv_rows st) = 0" by (auto simp: count_where_0 row_of_def find_None_iff)
  then show ?thesis using None by (simp add: record_identity_def update_where_none)
next
  case (Some row)
  have only: "r = row" if "r \<in> set (dv_rows st)" "sr_id r = i" for r
    using row_of_own [OF assms that(1)] that(2) Some by simp
  show ?thesis unfolding record_identity_def Some option.case Let_def
    by (subst update_where_twice, simp add: record_name_def split: option.split, rule arg_cong [where f = "\<lambda>rs. st\<lparr>dv_rows := rs\<rparr>"],
        rule update_where_cong) (use only in \<open>auto simp: identified_def\<close>)
qed

lemma newer_mail_keeps [simp]:
  "sr_id (newer_mail managed msg info status received r) = sr_id r" "sr_number (newer_mail managed msg info status received r) = sr_number r"
  "sr_raw (newer_mail managed msg info status received r) = sr_raw r" "sr_status (newer_mail managed msg info status received r) = status"
  by (simp_all add: newer_mail_def)

definition settled :: "bool \<Rightarrow> proposal list \<Rightarrow> string option \<Rightarrow> shipment_row \<Rightarrow> shipment_row" where
  "settled managed mine carrier_status r = (let latest = hd mine in identified managed mine (sr_update r)
     (if managed \<or> sr_update r < pr_received latest
      then newer_mail managed (pr_msg latest) (pr_info latest)
        (mail_status managed carrier_status (sr_status r) (si_status (pr_info latest))) (pr_received latest) r else r))"

lemma settled_keeps [simp]:
  "sr_id (settled managed mine c r) = sr_id r" "sr_number (settled managed mine c r) = sr_number r" "sr_raw (settled managed mine c r) = sr_raw r"
  by (simp_all add: settled_def Let_def)

lemma settle_eq:
  assumes "wf_deliveries st" "row_of st i = Some row" "latest = hd mine"
  shows "record_identity i managed mine (sr_update row) (record_newer_mail i managed (pr_msg latest) (pr_info latest)
      (mail_status managed c (sr_status row) (si_status (pr_info latest))) (pr_received latest) st)
    = st\<lparr>dv_rows := update_where (\<lambda>r. sr_id r = i) (settled managed mine c) (dv_rows st)\<rparr>"
proof -
  let ?status = "mail_status managed c (sr_status row) (si_status (pr_info latest))"
  let ?st = "record_newer_mail i managed (pr_msg latest) (pr_info latest) ?status (pr_received latest) st"
  have only: "r = row" if "r \<in> set (dv_rows st)" "sr_id r = i" for r
    using row_of_own [OF assms(1) that(1)] that(2) assms(2) by simp
  have "same_shape st ?st" unfolding record_newer_mail_def by (rule same_shape_update) simp_all
  then have wf: "wf_deliveries ?st"
    by (rule wf_same_shape [OF assms(1)]) (use assms(1) in \<open>simp add: record_newer_mail_def wf_deliveries_def\<close>)
  let ?F = "\<lambda>r. if managed \<or> sr_update r < pr_received latest
      then newer_mail managed (pr_msg latest) (pr_info latest) ?status (pr_received latest) r else r"
  have st: "?st = st\<lparr>dv_rows := update_where (\<lambda>r. sr_id r = i) ?F (dv_rows st)\<rparr>"
    unfolding record_newer_mail_def by (rule arg_cong [where f = "\<lambda>rs. st\<lparr>dv_rows := rs\<rparr>"]) (simp add: update_where_def)
  have "update_where (\<lambda>r. sr_id r = i) (identified managed mine (sr_update row)) (update_where (\<lambda>r. sr_id r = i) ?F (dv_rows st))
      = update_where (\<lambda>r. sr_id r = i) (settled managed mine c) (dv_rows st)"
    by (subst update_where_twice, simp, rule update_where_cong) (use only assms(3) in \<open>auto simp: settled_def Let_def\<close>)
  then show ?thesis unfolding record_identity_eq [OF wf] unfolding st by simp
qed

section \<open>Links\<close>

definition stems :: "proposal list \<Rightarrow> order_link \<Rightarrow> bool" where
  "stems ps l \<longleftrightarrow> ol_merchant l = (case seller_of ps of Some (m, _) \<Rightarrow> m | None \<Rightarrow> [])
     \<and> (\<exists>p \<in> set ps. ol_ref l \<in> set (pr_refs p) \<and> ol_msg l = Some (pr_msg p))"

lemma add_links_adds:
  "l \<in> set (add_links i m mm refs links) \<Longrightarrow> l \<in> set links \<or> agent_link i l \<and> ol_merchant l = m \<and> (\<exists>(r, msg) \<in> set refs. ol_ref l = r \<and> ol_msg l = Some msg)"
proof (induction refs arbitrary: links)
  case (Cons ref refs)
  obtain r msg where ref: "ref = (r, msg)" by force
  show ?case using Cons(1) [of "if list_ex (\<lambda>l. ol_shipment l = i \<and> ol_merchant_key l = merchant_key m \<and> ol_order_key l = order_key r) links then links
        else links @ [\<lparr>ol_shipment = i, ol_merchant_key = merchant_key m, ol_order_key = order_key r, ol_merchant = m, ol_ref = r,
          ol_source = ''agent'', ol_msg = Some msg, ol_merchant_msg = mm\<rparr>]"] Cons(2)
    by (auto simp: ref Let_def agent_link_def split: if_splits)
qed simp

text \<open>Every order that they name has a link of the row to it, under the one seller.\<close>

definition linked :: "proposal list \<Rightarrow> int \<Rightarrow> order_link list \<Rightarrow> bool" where
  "linked ps i links \<longleftrightarrow> (\<forall>p \<in> set ps. \<forall>ref \<in> set (pr_refs p). \<exists>l \<in> set links. ol_shipment l = i
     \<and> ol_merchant_key l = merchant_key (case seller_of ps of Some (m, _) \<Rightarrow> m | None \<Rightarrow> []) \<and> ol_order_key l = order_key ref)"

lemma linked_same:
  "linked ps i links \<Longrightarrow> (\<And>l. ol_shipment l = i \<Longrightarrow> l \<in> set links \<Longrightarrow> l \<in> set links') \<Longrightarrow> linked ps i links'"
  unfolding linked_def by meson

lemma add_links_keeps: "set links \<subseteq> set (add_links i m mm refs links)"
proof (induction refs arbitrary: links)
  case (Cons ref refs)
  obtain r msg where ref: "ref = (r, msg)" by force
  show ?case unfolding ref add_links.simps Let_def by (rule order.trans [OF _ Cons]) auto
qed simp

lemma add_links_has:
  "(ref, msg) \<in> set refs \<Longrightarrow> \<exists>l \<in> set (add_links i m mm refs links). ol_shipment l = i \<and> ol_merchant_key l = merchant_key m \<and> ol_order_key l = order_key ref"
proof (induction refs arbitrary: links)
  case (Cons ref' refs)
  obtain r msg' where ref': "ref' = (r, msg')" by force
  let ?links = "if list_ex (\<lambda>l. ol_shipment l = i \<and> ol_merchant_key l = merchant_key m \<and> ol_order_key l = order_key r) links then links
        else links @ [\<lparr>ol_shipment = i, ol_merchant_key = merchant_key m, ol_order_key = order_key r, ol_merchant = m, ol_ref = r,
          ol_source = ''agent'', ol_msg = Some msg', ol_merchant_msg = mm\<rparr>]"
  show ?case
  proof (cases "(ref, msg) \<in> set refs")
    case False
    then have "\<exists>l \<in> set ?links. ol_shipment l = i \<and> ol_merchant_key l = merchant_key m \<and> ol_order_key l = order_key ref"
      using Cons.prems ref' by (auto simp: list_ex_iff)
    then show ?thesis unfolding ref' add_links.simps Let_def using add_links_keeps by (meson subsetD)
  qed (use Cons.IH [of ?links] ref' in \<open>simp add: Let_def\<close>)
qed simp

lemma rebuild_frame [simp]:
  "dv_rows (rebuild_order_links i mine seller st) = dv_rows st" "dv_owned (rebuild_order_links i mine seller st) = dv_owned st"
  "dv_mails (rebuild_order_links i mine seller st) = dv_mails st" "dv_decisions (rebuild_order_links i mine seller st) = dv_decisions st"
  "row_for (rebuild_order_links i mine seller st) n = row_for st n" "same_shape st (rebuild_order_links i mine seller st)"
  by (simp_all add: rebuild_order_links_def row_for_def same_shape_def Let_def split: option.split)

lemma rebuild_links:
  assumes "l \<in> set (links_of (rebuild_order_links i mine (seller_of mine) st))"
  shows "if agent_link i l then stems mine l else l \<in> set (links_of st)"
proof (cases "dv_links st")
  case None
  then show ?thesis using assms by (simp add: rebuild_order_links_def links_of_def)
next
  case (Some links)
  let ?m = "case seller_of mine of Some (name, msg) \<Rightarrow> (name, Some msg) | None \<Rightarrow> ([], None)"
  have "l \<in> set (add_links i (fst ?m) (snd ?m) (concat (map (\<lambda>p. map (\<lambda>r. (r, pr_msg p)) (pr_refs p)) mine)) (delete_where (agent_link i) links))"
    using assms Some by (simp add: rebuild_order_links_def links_of_def Let_def split_beta agent_link_def [abs_def] conj_commute)
  from add_links_adds [OF this] show ?thesis using Some
    by (auto simp: set_delete_where links_of_def stems_def split: option.splits)
qed

lemma rebuild_links_keep:
  "\<not> agent_link i l \<Longrightarrow> l \<in> set (links_of (rebuild_order_links i mine (seller_of mine) st)) \<longleftrightarrow> l \<in> set (links_of st)"
proof
  assume l: "\<not> agent_link i l" "l \<in> set (links_of st)"
  then obtain links where "dv_links st = Some links" by (cases "dv_links st") (auto simp: links_of_def)
  moreover from this l have "l \<in> set (delete_where (agent_link i) links)" by (simp add: set_delete_where links_of_def)
  ultimately show "l \<in> set (links_of (rebuild_order_links i mine (seller_of mine) st))"
    using add_links_keeps by (fastforce simp: rebuild_order_links_def links_of_def Let_def split_beta agent_link_def [abs_def])
qed (use rebuild_links in fastforce)

lemma rebuild_None [simp]: "dv_links (rebuild_order_links i mine seller st) = None \<longleftrightarrow> dv_links st = None"
  by (simp add: rebuild_order_links_def Let_def split: option.split prod.split)

lemma rebuild_linked: "dv_links st \<noteq> None \<Longrightarrow> linked mine i (links_of (rebuild_order_links i mine (seller_of mine) st))"
proof -
  assume "dv_links st \<noteq> None"
  then obtain links where links: "dv_links st = Some links" by auto
  let ?m = "case seller_of mine of Some (name, msg) \<Rightarrow> (name, Some msg) | None \<Rightarrow> ([], None)"
  let ?refs = "concat (map (\<lambda>p. map (\<lambda>r. (r, pr_msg p)) (pr_refs p)) mine)"
  have m: "fst ?m = (case seller_of mine of Some (m, _) \<Rightarrow> m | None \<Rightarrow> [])" by (simp split: option.split prod.split)
  have refs: "(ref, pr_msg p) \<in> set ?refs" if "p \<in> set mine" "ref \<in> set (pr_refs p)" for p ref using that by auto
  have e: "links_of (rebuild_order_links i mine (seller_of mine) st)
      = add_links i (fst ?m) (snd ?m) ?refs (delete_where (\<lambda>l. ol_shipment l = i \<and> ol_source l = ''agent'') links)"
    by (simp add: rebuild_order_links_def links_of_def links Let_def split_beta)
  show ?thesis unfolding linked_def e m [symmetric] using add_links_has [OF refs] by blast
qed

section \<open>One package\<close>

text \<open>Nothing about a package has changed.\<close>

definition same_at :: "string \<Rightarrow> deliveries \<Rightarrow> deliveries \<Rightarrow> bool" where
  "same_at n st st' \<longleftrightarrow> row_for st' n = row_for st n \<and> (dv_links st' = None \<longleftrightarrow> dv_links st = None)
     \<and> (\<forall>r. row_for st n = Some r \<longrightarrow> (sr_id r \<in> set (dv_owned st') \<longleftrightarrow> sr_id r \<in> set (dv_owned st))
         \<and> (\<forall>l. ol_shipment l = sr_id r \<longrightarrow> (l \<in> set (links_of st') \<longleftrightarrow> l \<in> set (links_of st))))"

lemma same_at_trans: "same_at n a b \<Longrightarrow> same_at n b c \<Longrightarrow> same_at n a c"
  by (auto simp: same_at_def)

definition same_mail :: "deliveries \<Rightarrow> deliveries \<Rightarrow> bool" where
  "same_mail st st' \<longleftrightarrow> dv_mails st' = dv_mails st \<and> dv_decisions st' = dv_decisions st"

lemma same_mail_trans: "same_mail a b \<Longrightarrow> same_mail b c \<Longrightarrow> same_mail a c"
  by (simp add: same_mail_def)

lemma other_link: "ol_shipment l = i \<Longrightarrow> j \<noteq> i \<Longrightarrow> \<not> agent_link j l"
  by (simp add: agent_link_def)

text \<open>A write to the values of one row, and its links rebuilt.\<close>

lemma write_row:
  assumes wf: "wf_deliveries st" and r: "row_for st number = Some r" and f: "\<And>r. sr_id (f r) = sr_id r" "\<And>r. sr_number (f r) = sr_number r"
    and st': "st' = rebuild_order_links (sr_id r) mine (seller_of mine) (st\<lparr>dv_rows := update_where (\<lambda>x. sr_id x = sr_id r) f (dv_rows st)\<rparr>)"
  shows "wf_deliveries st'" "same_mail st st'" "dv_owned st' = dv_owned st" "row_for st' number = Some (f r)"
    "\<And>l. l \<in> set (links_of st') \<Longrightarrow> agent_link (sr_id r) l \<Longrightarrow> stems mine l" "\<And>n. n \<noteq> number \<Longrightarrow> same_at n st st'"
    "dv_links st' \<noteq> None \<Longrightarrow> linked mine (sr_id r) (links_of st')"
proof -
  let ?st = "st\<lparr>dv_rows := update_where (\<lambda>x. sr_id x = sr_id r) f (dv_rows st)\<rparr>"
  have shape: "same_shape st ?st" using f by (rule same_shape_update)
  have links: "if agent_link (sr_id r) l then stems mine l else l \<in> set (links_of st)" if "l \<in> set (links_of st')" for l
    using rebuild_links [of l "sr_id r" mine ?st] that st' by (simp cong: if_cong)
  have "ol_shipment l \<in> sr_id ` set (dv_rows st)" if "l \<in> set (links_of st')" "ol_source l = ''agent''" for l
    using links [OF that(1)] that(2) wf row_forD [OF r] by (auto simp: wf_deliveries_def agent_link_def split: if_splits)
  moreover have "same_shape st st'" using shape st' by (auto intro: same_shape_trans)
  ultimately show "wf_deliveries st'" by (intro wf_same_shape [OF wf])
  show "same_mail st st'" "dv_owned st' = dv_owned st" by (simp_all add: st' same_mail_def)
  have row: "row_for st' n = map_option (\<lambda>x. if sr_id x = sr_id r then f x else x) (row_for st n)" for n
    unfolding st' by (simp add: row_for_update f)
  then show "row_for st' number = Some (f r)" using r by simp
  show "\<And>l. l \<in> set (links_of st') \<Longrightarrow> agent_link (sr_id r) l \<Longrightarrow> stems mine l" using links by fastforce
  show "linked mine (sr_id r) (links_of st')" if "dv_links st' \<noteq> None"
    using that unfolding st' rebuild_None by (rule rebuild_linked)
  show "same_at n st st'" if n: "n \<noteq> number" for n
  proof (cases "row_for st n")
    case (Some x)
    then have "sr_id x \<noteq> sr_id r" using row_id_eq [OF wf Some r] n by simp
    then show ?thesis using Some row [of n] rebuild_links_keep [OF other_link, of _ "sr_id x" "sr_id r" mine ?st]
      by (auto simp: same_at_def st')
  qed (use row [of n] in \<open>simp add: same_at_def st'\<close>)
qed

text \<open>A row of a package that had none.\<close>

lemma new_row:
  assumes wf: "wf_deliveries st" and none: "row_for st number = None" and n: "si_number info = number"
  obtains r st' where "insert_shipment msg info seen st = (sr_id r, st')" "sr_raw r = None" "sr_id r \<notin> set (dv_owned st)"
    "wf_deliveries (st'\<lparr>dv_owned := dv_owned st' @ [sr_id r]\<rparr>)" "same_mail st (st'\<lparr>dv_owned := dv_owned st' @ [sr_id r]\<rparr>)"
    "row_for st' number = Some r" "\<And>n. n \<noteq> number \<Longrightarrow> same_at n st (st'\<lparr>dv_owned := dv_owned st' @ [sr_id r]\<rparr>)"
    "dv_owned st' = dv_owned st"
proof -
  let ?i = "fresh_id (map sr_id (dv_rows st))"
  obtain r st' where ins: "insert_shipment msg info seen st = (?i, st')" "st' = st\<lparr>dv_rows := dv_rows st @ [r]\<rparr>"
    and r: "sr_id r = ?i" "sr_number r = number" "sr_raw r = None" by (simp add: insert_shipment_def Let_def n)
  let ?st = "st'\<lparr>dv_owned := dv_owned st' @ [sr_id r]\<rparr>"
  have fresh: "x \<in> set (dv_rows st) \<Longrightarrow> sr_id x \<noteq> ?i" for x using fresh_id_new [of "sr_id x" "map sr_id (dv_rows st)"] by auto
  have num: "\<forall>x \<in> set (dv_rows st). sr_number x \<noteq> number" using none by (simp add: row_for_None)
  have out: "?i \<notin> set (dv_owned st)" using wf fresh unfolding wf_deliveries_def by (metis imageE subsetD)
  have f1: "find (\<lambda>x. sr_number x = number) (dv_rows st) = None" using num by (auto simp: find_None_iff)
  have f2: "find P (xs @ [r]) = (case find P xs of Some x \<Rightarrow> Some x | None \<Rightarrow> if P r then Some r else None)" for P xs
    by (induction xs) auto
  show thesis
  proof
    show "insert_shipment msg info seen st = (sr_id r, st')" using ins r by simp
    show "sr_raw r = None" by (rule r(3))
    show "sr_id r \<notin> set (dv_owned st)" using out r by simp
    show "wf_deliveries ?st" using wf fresh num r by (force simp: ins(2) wf_deliveries_def)
    show "same_mail st ?st" by (simp add: ins(2) same_mail_def)
    show "row_for st' number = Some r" by (simp add: ins(2) row_for_def f2 f1 r)
    show "dv_owned st' = dv_owned st" by (simp add: ins(2))
    show "same_at n st ?st" if "n \<noteq> number" for n
      using that fresh row_forD [of st n] by (fastforce simp: same_at_def ins(2) row_for_def f2 r split: option.split)
  qed
qed

text \<open>A package that no decision proposes any more.\<close>

lemma rebuild_none: "l \<in> set (links_of (rebuild_order_links i [] None st)) \<longleftrightarrow> l \<in> set (links_of st) \<and> \<not> agent_link i l"
  by (cases "dv_links st") (auto simp: rebuild_order_links_def links_of_def set_delete_where agent_link_def)

lemma rebuild_rows: "rebuild_order_links i mine seller (st\<lparr>dv_rows := rs\<rparr>) = (rebuild_order_links i mine seller st)\<lparr>dv_rows := rs\<rparr>"
  by (simp add: rebuild_order_links_def Let_def split: option.split prod.split)


lemma retire_legacy:
  assumes wf: "wf_deliveries st" and r: "row_for st number = Some r" and o: "sr_id r \<notin> set (dv_owned st)"
  shows "retire (sr_id r) now st = rebuild_order_links (sr_id r) [] (seller_of []) (st\<lparr>dv_rows := update_where (\<lambda>x. sr_id x = sr_id r) (identified False [] now) (dv_rows st)\<rparr>)"
proof -
  have d: "delete_shipments (\<lambda>x. sr_id x = sr_id r \<and> sr_id r \<in> set (dv_owned st)) st = st"
    using o by (cases "dv_links st") (simp_all add: delete_shipments_def delete_where_def list_ex_iff)
  have own: "delete_where (\<lambda>j. j = sr_id r) (dv_owned st) = dv_owned st" using o by (simp add: delete_where_def filter_id_conv) metis
  let ?st = "rebuild_order_links (sr_id r) [] None st"
  have "l \<in> set (links_of st)" if "l \<in> set (links_of ?st)" for l
    using that by (simp add: rebuild_none)
  then have "wf_deliveries ?st" using wf by (auto simp: wf_deliveries_def)
  then have "record_identity (sr_id r) False [] now ?st = ?st\<lparr>dv_rows := update_where (\<lambda>x. sr_id x = sr_id r) (identified False [] now) (dv_rows st)\<rparr>"
    by (subst record_identity_eq) simp_all
  then show ?thesis by (simp add: retire_def Let_def d own rebuild_rows)
qed

lemma retire_owned:
  assumes wf: "wf_deliveries st" and r: "row_for st number = Some r" and o: "sr_id r \<in> set (dv_owned st)" and st': "st' = retire (sr_id r) now st"
  shows "wf_deliveries st'" "same_mail st st'" "row_for st' number = None" "\<And>n. n \<noteq> number \<Longrightarrow> same_at n st st'"
proof -
  let ?i = "sr_id r"
  let ?links = "map_option (delete_where (\<lambda>l. ol_shipment l = ?i)) (dv_links st)"
  let ?st = "st\<lparr>dv_rows := delete_where (\<lambda>x. sr_id x = ?i) (dv_rows st), dv_links := ?links, dv_owned := delete_where (\<lambda>j. j = ?i) (dv_owned st)\<rparr>"
  have rin: "r \<in> set (dv_rows st)" "sr_number r = number" using row_forD [OF r] by auto
  have "list_ex (\<lambda>x. sr_id x = ?i \<and> sr_id x = ol_shipment l) (dv_rows st) \<longleftrightarrow> ol_shipment l = ?i" for l :: order_link
    using rin by (auto simp: list_ex_iff)
  then have d: "(delete_shipments (\<lambda>x. sr_id x = ?i \<and> ?i \<in> set (dv_owned st)) st)\<lparr>dv_owned := delete_where (\<lambda>j. j = ?i) (dv_owned st)\<rparr> = ?st"
    using o by (simp add: delete_shipments_def)
  have links: "set (links_of ?st) = {l \<in> set (links_of st). ol_shipment l \<noteq> ?i}"
    by (cases "dv_links st") (auto simp: links_of_def set_delete_where)
  have wf1: "wf_deliveries ?st"
    using wf unfolding wf_deliveries_def links
    by (auto simp: delete_where_def distinct_map_filter image_iff) (blast | metis)+
  have rebuilt: "l \<in> set (links_of (rebuild_order_links ?i [] None ?st)) \<longleftrightarrow> l \<in> set (links_of ?st)" for l
    unfolding rebuild_none links agent_link_def by blast
  then have wf2: "wf_deliveries (rebuild_order_links ?i [] None ?st)" using wf1 by (auto simp: wf_deliveries_def)
  have none: "update_where (\<lambda>x. sr_id x = ?i) f (delete_where (\<lambda>x. sr_id x = ?i) (dv_rows st)) = delete_where (\<lambda>x. sr_id x = ?i) (dv_rows st)" for f
    by (rule update_where_none) (simp add: count_where_0 set_delete_where)
  have st'': "st' = rebuild_order_links ?i [] None ?st"
  proof -
    have "dv_owned (delete_shipments p st) = dv_owned st" for p by (simp add: delete_shipments_def)
    then have "st' = record_identity ?i False [] now (rebuild_order_links ?i [] None ?st)"
      unfolding st' retire_def Let_def using d by simp
    then show ?thesis using record_identity_eq [OF wf2] none by simp
  qed
  show "wf_deliveries st'" using wf2 st'' by simp
  show "same_mail st st'" by (simp add: st'' same_mail_def)
  show "row_for st' number = None" using wf rin row_for_own [OF wf] by (auto simp: st'' row_for_None set_delete_where) (metis r option.inject)
  show "same_at n st st'" if "n \<noteq> number" for n
  proof -
    have ne: "sr_id x \<noteq> ?i" if "row_for st n = Some x" for x using row_id_eq [OF wf that r] \<open>n \<noteq> number\<close> by simp
    have "row_for ?st n = row_for st n"
    proof (cases "row_for st n")
      case None
      then have "row_for ?st n = None" unfolding row_for_None by (simp add: set_delete_where)
      then show ?thesis using None by simp
    next
      case (Some x)
      then have "x \<in> set (dv_rows ?st)" "sr_number x = n" using ne row_forD by (auto simp: set_delete_where)
      then show ?thesis using row_for_own [OF wf1] Some by metis
    qed
    then show ?thesis using ne rebuilt links by (auto simp: same_at_def st'' agent_link_def set_delete_where)
  qed
qed

section \<open>What decisions say of a package\<close>

text \<open>The retained proposals on a number, newest first.\<close>

definition says :: "regexes \<Rightarrow> string \<Rightarrow> deliveries \<Rightarrow> proposal list" where
  "says rx number st = filter (\<lambda>p. si_number (pr_info p) = number) (proposals rx [number] st)"

lemma read_number: "read_proposal rx affected m r = Some p \<Longrightarrow> si_number (pr_info p) \<in> set affected"
  by (auto simp: read_proposal_def Let_def bind_eq_Some_conv split: record_proposal.splits option.splits if_splits)

lemma read_affected:
  "number \<in> set affected \<Longrightarrow> read_proposal rx [number] m r =
    (case read_proposal rx affected m r of Some p \<Rightarrow> if si_number (pr_info p) = number then Some p else None | None \<Rightarrow> None)"
  by (auto simp: read_proposal_def Let_def bind_eq_Some_conv split: record_proposal.split option.split bind_split)

lemma filter_map_filter: "filter P (List.map_filter f xs) = List.map_filter (\<lambda>x. case f x of Some y \<Rightarrow> if P y then Some y else None | None \<Rightarrow> None) xs"
  by (induction xs) (auto simp: List.map_filter_def split: option.split)

lemma says_affected: "number \<in> set affected \<Longrightarrow> filter (\<lambda>p. si_number (pr_info p) = number) (proposals rx affected st) = says rx number st"
proof -
  assume a: "number \<in> set affected"
  have f: "(case (case x of Some y \<Rightarrow> if P y then Some y else None | None \<Rightarrow> None) of Some y \<Rightarrow> if P y then Some y else None | None \<Rightarrow> None)
      = (case x of Some y \<Rightarrow> if P y then Some y else None | None \<Rightarrow> None)" for x :: "proposal option" and P
    by (simp split: option.split)
  show ?thesis unfolding says_def proposals_def filter_concat map_map comp_def split_beta
    by (intro arg_cong [where f = concat] map_cong refl) (simp add: filter_map_filter read_affected [OF a] f)
qed

lemma says_same_mail: "same_mail st st' \<Longrightarrow> says rx number st' = says rx number st"
  by (simp add: same_mail_def says_def proposals_def retained_def)

text \<open>A row is as they say; of the status the carrier has the last word.\<close>

fun tells :: "proposal list \<Rightarrow> shipment_row \<Rightarrow> bool" where
  "tells [] r = False"
| "tells (latest # older) r \<longleftrightarrow> sr_last_msg r = Some (pr_msg latest) \<and> sr_carrier r = si_carrier (pr_info latest)
     \<and> sr_url r = si_url (pr_info latest)
     \<and> (sr_raw r = None \<longrightarrow> sr_status r = status_as_str (si_status (pr_info latest)))
     \<and> sr_item r = (case named_by (latest # older) of Some p \<Rightarrow> si_item (pr_info p) | None \<Rightarrow> [])
     \<and> sr_merchant r = map_option fst (seller_of (latest # older))"

definition mirrors :: "regexes \<Rightarrow> deliveries \<Rightarrow> string \<Rightarrow> bool" where
  "mirrors rx st number \<longleftrightarrow> (case row_for st number of
     None \<Rightarrow> says rx number st = []
   | Some r \<Rightarrow> (sr_id r \<in> set (dv_owned st) \<longrightarrow> tells (says rx number st) r)
       \<and> (\<forall>l \<in> set (links_of st). agent_link (sr_id r) l \<longrightarrow> stems (says rx number st) l)
       \<and> (dv_links st \<noteq> None \<longrightarrow> linked (says rx number st) (sr_id r) (links_of st)))"

lemma mirrors_same:
  "same_at number st st' \<Longrightarrow> says rx number st' = says rx number st \<Longrightarrow> mirrors rx st number \<Longrightarrow> mirrors rx st' number"
  by (auto simp: mirrors_def same_at_def agent_link_def split: option.splits elim!: linked_same)

lemma settled_tells:
  assumes "mine = latest # older" "sr_raw r = None \<longrightarrow> c = None"
  shows "tells mine (settled True mine c r)"
  using assms
  by (auto simp: settled_def Let_def identified_def record_name_def record_merchant_def newer_mail_def mail_status_def split: option.split)

section \<open>Reconciliation\<close>

lemma settle_mirrors:
  assumes wf: "wf_deliveries st" and r: "row_for st number = Some r" and mine: "mine = latest # older" and c: "sr_raw r = None \<longrightarrow> c = None"
    and says: "says rx number st = mine"
    and st': "st' = rebuild_order_links (sr_id r) mine (seller_of mine)
      (record_identity (sr_id r) (sr_id r \<in> set (dv_owned st)) mine (sr_update r)
        (record_newer_mail (sr_id r) (sr_id r \<in> set (dv_owned st)) (pr_msg latest) (pr_info latest)
          (mail_status (sr_id r \<in> set (dv_owned st)) c (sr_status r) (si_status (pr_info latest))) (pr_received latest) st))"
  shows "wf_deliveries st'" "same_mail st st'" "mirrors rx st' number" "\<And>n. n \<noteq> number \<Longrightarrow> same_at n st st'"
    "row_for st' number = Some (settled (sr_id r \<in> set (dv_owned st)) mine c r)" "dv_owned st' = dv_owned st"
proof -
  let ?managed = "sr_id r \<in> set (dv_owned st)"
  have "row_of st (sr_id r) = Some r" using row_of_own [OF wf] row_forD [OF r] by simp
  from settle_eq [OF wf this, of latest mine ?managed c] have e: "st' = rebuild_order_links (sr_id r) mine (seller_of mine)
      (st\<lparr>dv_rows := update_where (\<lambda>x. sr_id x = sr_id r) (settled ?managed mine c) (dv_rows st)\<rparr>)"
    unfolding st' by (simp add: mine)
  note w = write_row [OF wf r settled_keeps(1,2) e]
  show "wf_deliveries st'" "same_mail st st'" "\<And>n. n \<noteq> number \<Longrightarrow> same_at n st st'"
    "row_for st' number = Some (settled ?managed mine c r)" "dv_owned st' = dv_owned st" using w by auto
  have "says rx number st' = mine" using says_same_mail [OF w(2)] says by simp
  then show "mirrors rx st' number"
    using w(3,4,5,7) settled_tells [OF mine c] by (auto simp: mirrors_def)
qed

lemma reconcile_number_mirrors:
  assumes wf: "wf_deliveries st" and ps: "filter (\<lambda>p. si_number (pr_info p) = number) ps = says rx number st"
  shows "\<exists>st'. reconcile_number number ps now st = Some st' \<and> wf_deliveries st' \<and> same_mail st st' \<and> mirrors rx st' number
    \<and> (\<forall>n. n \<noteq> number \<longrightarrow> same_at n st st')"
proof (cases "says rx number st")
  case Nil
  note mine = ps [unfolded Nil]
  show ?thesis
  proof (cases "row_for st number")
    case None
    then show ?thesis using wf Nil by (simp add: reconcile_number_def mine mirrors_def same_mail_def same_at_def)
  next
    case (Some r)
    have rn: "reconcile_number number ps now st = Some (retire (sr_id r) now st)" using Some by (simp add: reconcile_number_def mine)
    show ?thesis
    proof (cases "sr_id r \<in> set (dv_owned st)")
      case True
      note w = retire_owned [where now = now, OF wf Some True refl]
      have "mirrors rx (retire (sr_id r) now st) number" using w(3) says_same_mail [OF w(2)] Nil by (simp add: mirrors_def)
      then show ?thesis using rn w by blast
    next
      case False
      note w = write_row [OF wf Some identified_keeps(1,2) retire_legacy [where now = now, OF wf Some False]]
      have "mirrors rx (retire (sr_id r) now st) number"
        using w(3,4,5) False says_same_mail [OF w(2)] Nil by (auto simp: mirrors_def linked_def)
      then show ?thesis using rn w by blast
    qed
  qed
next
  case (Cons latest older)
  note mine = ps [unfolded Cons]
  have num: "si_number (pr_info latest) = number" using arg_cong [OF mine, of set] by auto
  show ?thesis
  proof (cases "row_for st number")
    case (Some r)
    let ?c = "if sr_raw r \<noteq> None then Some (sr_status r) else None"
    have own: "row_of st (sr_id r) = Some r" using row_of_own [OF wf] row_forD [OF Some] by simp
    have "sr_raw r = None \<longrightarrow> ?c = None" by simp
    note w = settle_mirrors [OF wf Some refl this Cons refl]
    show ?thesis using w(1-4) by (auto simp: reconcile_number_def mine row_or_new_def Some own Let_def simp del: not_None_eq)
  next
    case None
    obtain r st1 where n: "insert_shipment (pr_msg latest) (pr_info latest) (pr_received latest) st = (sr_id r, st1)" "sr_raw r = None"
      "sr_id r \<notin> set (dv_owned st)" "wf_deliveries (st1\<lparr>dv_owned := dv_owned st1 @ [sr_id r]\<rparr>)"
      "same_mail st (st1\<lparr>dv_owned := dv_owned st1 @ [sr_id r]\<rparr>)" "row_for st1 number = Some r"
      "\<And>n. n \<noteq> number \<Longrightarrow> same_at n st (st1\<lparr>dv_owned := dv_owned st1 @ [sr_id r]\<rparr>)" "dv_owned st1 = dv_owned st"
      using new_row [OF wf None num] by metis
    let ?st = "st1\<lparr>dv_owned := dv_owned st1 @ [sr_id r]\<rparr>"
    have row: "row_for ?st number = Some r" using n(6) by (simp add: row_for_def)
    have own: "row_of ?st (sr_id r) = Some r" using row_of_own [OF n(4)] row_forD [OF row] by simp
    have says: "says rx number ?st = latest # older" using says_same_mail [OF n(5)] Cons by simp
    have "sr_raw r = None \<longrightarrow> None = None" by simp
    note w = settle_mirrors [OF n(4) row refl this says refl]
    have "row_or_new number latest st = Some (sr_id r, ?st)" using n(1,3,8) by (simp add: row_or_new_def None)
    then show ?thesis using w(1-4) own same_mail_trans [OF n(5) w(2)] same_at_trans [OF n(7) w(4)]
      by (auto simp: reconcile_number_def mine None Let_def)
  qed
qed

lemma reconcile_all_mirrors:
  assumes "wf_deliveries st" "\<forall>n \<in> set ns. filter (\<lambda>p. si_number (pr_info p) = n) ps = says rx n st" "\<forall>n. n \<notin> set ns \<longrightarrow> mirrors rx st n"
  shows "\<exists>st'. reconcile_all ns ps now st = Some st' \<and> wf_deliveries st' \<and> same_mail st st' \<and> (\<forall>n. mirrors rx st' n)"
  using assms
proof (induction ns arbitrary: st)
  case Nil
  then show ?case by (simp add: same_mail_def)
next
  case (Cons number ns)
  obtain st1 where s: "reconcile_number number ps now st = Some st1" "wf_deliveries st1" "same_mail st st1" "mirrors rx st1 number"
    "\<forall>n. n \<noteq> number \<longrightarrow> same_at n st st1"
    using reconcile_number_mirrors [OF Cons.prems(1), of number ps rx now] Cons.prems(2) by auto
  have "\<forall>n. n \<notin> set ns \<longrightarrow> mirrors rx st1 n"
    using s(4,5) Cons.prems(3) mirrors_same says_same_mail [OF s(3)] by (metis set_ConsD)
  moreover have "\<forall>n \<in> set ns. filter (\<lambda>p. si_number (pr_info p) = n) ps = says rx n st1"
    using Cons.prems(2) says_same_mail [OF s(3)] by simp
  ultimately obtain st' where "reconcile_all ns ps now st1 = Some st'" "wf_deliveries st'" "same_mail st1 st'" "\<forall>n. mirrors rx st' n"
    using Cons.IH [OF s(2)] by blast
  then show ?case using s(1) same_mail_trans [OF s(3)] by auto
qed

text \<open>What one mail has a decision say of a package.\<close>

definition mail_says :: "regexes \<Rightarrow> string \<Rightarrow> (int \<rightharpoonup> decision) \<Rightarrow> mail \<Rightarrow> proposal list" where
  "mail_says rx number decisions m = (case decisions (ml_id m) of
     Some d \<Rightarrow> if \<not> ml_sent m \<and> \<not> ml_spam m then List.map_filter (read_proposal rx [number] m) d else [] | None \<Rightarrow> [])"

lemma concat_map_filter: "concat (map g (List.map_filter f xs)) = concat (map (\<lambda>x. case f x of Some y \<Rightarrow> g y | None \<Rightarrow> []) xs)"
  by (induction xs) (auto simp: List.map_filter_def split: option.split)

lemma mem_map_filter: "y \<in> set (List.map_filter f xs) \<longleftrightarrow> (\<exists>x \<in> set xs. f x = Some y)"
  by (induction xs) (auto simp: List.map_filter_def split: option.split)

lemma says_by_mail:
  "says rx number st = concat (map (mail_says rx number (dv_decisions st)) (sort_key (\<lambda>m. (- ml_received m, - ml_id m)) (dv_mails st)))"
proof -
  have "p \<in> set (proposals rx [number] st) \<Longrightarrow> si_number (pr_info p) = number" for p
    by (auto simp: proposals_def mem_map_filter dest!: read_number)
  then have "says rx number st = proposals rx [number] st" unfolding says_def by (auto simp: filter_id_conv)
  also have "\<dots> = concat (map (mail_says rx number (dv_decisions st)) (sort_key (\<lambda>m. (- ml_received m, - ml_id m)) (dv_mails st)))"
    unfolding proposals_def retained_def concat_map_filter
    by (intro arg_cong [where f = concat] map_cong refl) (simp add: mail_says_def split: option.split)
  finally show ?thesis .
qed

lemma unread_number: "number \<notin> set (tracking_numbers rx d) \<Longrightarrow> List.map_filter (read_proposal rx [number] m) d = []"
proof -
  assume n: "number \<notin> set (tracking_numbers rx d)"
  have "read_proposal rx [number] m r = None" if "r \<in> set d" for r
    using n that
    by (force simp: tracking_numbers_def read_proposal_def List.map_filter_def Let_def image_iff bind_eq_None_conv
        split: record_proposal.splits option.splits)
  then show ?thesis by (simp add: List.map_filter_def filter_empty_conv)
qed

lemma says_decided:
  assumes "\<And>d. dv_decisions st msg = Some d \<Longrightarrow> number \<notin> set (tracking_numbers rx d)" "number \<notin> set (tracking_numbers rx d)"
  shows "says rx number (st\<lparr>dv_decisions := (dv_decisions st)(msg \<mapsto> d)\<rparr>) = says rx number st"
  unfolding says_by_mail using assms
  by (intro arg_cong [where f = concat]) (auto simp: mail_says_def unread_number split: option.split)

lemma says_arrived: "dv_decisions st (ml_id m) = None \<Longrightarrow> says rx number (st\<lparr>dv_mails := dv_mails st @ [m]\<rparr>) = says rx number st"
proof -
  assume n: "dv_decisions st (ml_id m) = None"
  let ?f = "mail_says rx number (dv_decisions st)" let ?k = "\<lambda>m. (- ml_received m, - ml_id m)"
  have c: "concat (map ?f ys) = concat (map ?f (filter (\<lambda>m. ?f m \<noteq> []) ys))" for ys by (induction ys) auto
  have "concat (map ?f (sort_key ?k ys)) = concat (map ?f (sort_key ?k (filter (\<lambda>m. ?f m \<noteq> []) ys)))" for ys
    by (subst c, subst filter_sort, rule refl)
  from this [of "dv_mails st @ [m]"] this [of "dv_mails st"]
  have "concat (map ?f (sort_key ?k (dv_mails st @ [m]))) = concat (map ?f (sort_key ?k (dv_mails st)))"
    by (simp add: mail_says_def n)
  then show ?thesis by (simp add: says_by_mail)
qed

section \<open>Executions\<close>

definition mirrored :: "regexes \<Rightarrow> deliveries \<Rightarrow> bool" where
  "mirrored rx st \<longleftrightarrow> wf_deliveries st \<and> (\<forall>number. mirrors rx st number)"

lemma commit_mirrors:
  assumes "mirrored rx st"
  shows "\<exists>st'. reconcile rx (dv_decisions st msg) d now (st\<lparr>dv_decisions := (dv_decisions st)(msg \<mapsto> d)\<rparr>) = Some st' \<and> mirrored rx st'"
proof -
  let ?st = "st\<lparr>dv_decisions := (dv_decisions st)(msg \<mapsto> d)\<rparr>"
  let ?ns = "sort (remdups ((case dv_decisions st msg of Some d \<Rightarrow> tracking_numbers rx d | None \<Rightarrow> []) @ tracking_numbers rx d))"
  have wf: "wf_deliveries ?st" using assms by (simp add: mirrored_def wf_deliveries_def links_of_def)
  have out: "mirrors rx ?st n" if "n \<notin> set ?ns" for n
  proof (rule mirrors_same [of n st])
    show "same_at n st ?st" by (simp add: same_at_def row_for_def links_of_def)
    show "says rx n ?st = says rx n st" by (rule says_decided) (use that in auto)
  qed (use assms in \<open>simp add: mirrored_def\<close>)
  have "\<forall>n \<in> set ?ns. filter (\<lambda>p. si_number (pr_info p) = n) (proposals rx ?ns ?st) = says rx n ?st"
    using says_affected by blast
  then obtain st' where s: "reconcile_all ?ns (proposals rx ?ns ?st) now ?st = Some st'" "wf_deliveries st'" "\<forall>n. mirrors rx st' n"
    using reconcile_all_mirrors [OF wf] out by blast
  show ?thesis
  proof (cases "?ns = []")
    case True
    then have "reconcile rx (dv_decisions st msg) d now ?st = Some ?st" unfolding reconcile_def Let_def by (simp only: if_True simp_thms)
    then show ?thesis using wf out True unfolding mirrored_def by (metis empty_iff empty_set)
  next
    case False
    then have "reconcile rx (dv_decisions st msg) d now ?st = Some st'" unfolding reconcile_def Let_def using s(1) by (simp only: if_False)
    then show ?thesis using s by (auto simp: mirrored_def)
  qed
qed

lemma tells_frame:
  assumes "tells ps r" "sr_last_msg r' = sr_last_msg r" "sr_carrier r' = sr_carrier r" "sr_url r' = sr_url r"
    "sr_raw r' = None \<longrightarrow> sr_raw r = None \<and> sr_status r' = sr_status r" "sr_item r' = sr_item r" "sr_merchant r' = sr_merchant r"
  shows "tells ps r'"
  using assms by (cases ps) auto

lemma update_mirrors:
  assumes "mirrored rx st" "\<And>r. sr_id (f r) = sr_id r" "\<And>r. sr_number (f r) = sr_number r" "\<And>ps r. tells ps r \<Longrightarrow> tells ps (f r)"
  shows "mirrored rx (st\<lparr>dv_rows := update_where q f (dv_rows st)\<rparr>)"
proof -
  let ?st = "st\<lparr>dv_rows := update_where q f (dv_rows st)\<rparr>"
  have "same_shape st ?st" using assms(2,3) by (rule same_shape_update)
  then have wf: "wf_deliveries ?st"
    by (rule wf_same_shape [rotated]) (use assms(1) in \<open>auto simp: mirrored_def wf_deliveries_def\<close>)
  have "says rx number ?st = says rx number st" for number by (rule says_same_mail) (simp add: same_mail_def)
  then have "mirrors rx ?st number" for number
    using assms(1) by (cases "row_for st number") (auto simp: mirrored_def mirrors_def row_for_update [OF assms(3)] assms(2,4) dest: spec [of _ number])
  then show ?thesis using wf by (simp add: mirrored_def)
qed

lemma delivery_step_mirrors: "mirrored rx st \<Longrightarrow> mirrored rx (snd (delivery_step rx op st))"
proof (cases op)
  case (Arrive m)
  assume a: "mirrored rx st"
  show ?thesis
  proof (cases "dv_decisions st (ml_id m)")
    case None
    let ?st = "st\<lparr>dv_mails := dv_mails st @ [m]\<rparr>"
    have "mirrors rx ?st n" for n
      by (rule mirrors_same [of n st]) (use a None in \<open>auto simp: mirrored_def says_arrived same_at_def row_for_def links_of_def\<close>)
    then have "mirrored rx ?st" using a by (simp add: mirrored_def wf_deliveries_def links_of_def)
    then show ?thesis using a by (simp add: Arrive)
  qed (use a in \<open>simp add: Arrive\<close>)
next
  case (Commit msg d now)
  assume "mirrored rx st"
  from commit_mirrors [OF this, of msg d now] show ?thesis by (auto simp: Commit)
next
  case (Track i track at)
  assume a: "mirrored rx st"
  show ?thesis
  proof (cases "row_of st i")
    case (Some row)
    show ?thesis unfolding Track delivery_step.simps apply_carrier_track_def Some option.case Let_def snd_conv
      by (rule update_mirrors [OF a]) (auto elim: tells_frame)
  qed (use a in \<open>simp add: Track apply_carrier_track_def\<close>)
next
  case (Poll_Failed i at permanent)
  assume "mirrored rx st"
  then show ?thesis unfolding Poll_Failed delivery_step.simps record_poll_outcome_def snd_conv
    by (rule update_mirrors) (auto elim: tells_frame)
qed

interpretation delivery_machine: invariant_machine "delivery_step rx" "mirrored rx" for rx
  by unfold_locales (rule delivery_step_mirrors)



definition example_regexes :: regexes where
  "example_regexes = \<lparr>rx_unlabel = (\<lambda>s. s), rx_clean_item_phrase = (\<lambda>s. s), rx_host_lure = (\<lambda>_. False), rx_extract_item_name = (\<lambda>s. s)\<rparr>"

definition example_mail :: "int \<Rightarrow> mail" where
  "example_mail i = \<lparr>ml_id = i, ml_received = i * 10, ml_subject = None, ml_sent = False, ml_spam = False\<rparr>"

definition example_decision :: "string \<Rightarrow> decision" where
  "example_decision status = [DeliveryRecord (Some ''ups'') (Some ''1234567890'') status None None []]"

definition example_track :: carrier_track where
  "example_track = \<lparr>ct_status = None, ct_raw = ''?'', ct_eta = None, ct_delivered = None\<rparr>"

definition no_deliveries :: deliveries where
  "no_deliveries = \<lparr>dv_mails = [], dv_decisions = Map.empty, dv_rows = [], dv_owned = [], dv_links = Some []\<rparr>"

definition example_ops :: "delivery_op list" where
  "example_ops = [Arrive (example_mail 1), Arrive (example_mail 2), Commit 1 (example_decision ''shipped'') 30]"

section \<open>Delivered packages\<close>

lemma settled_delivered:
  assumes "sr_status r = ''delivered''" "managed \<longrightarrow> c = Some ''delivered''" "c = None \<or> c = Some ''delivered''"
  shows "sr_status (settled managed mine c r) = ''delivered''"
  using assms stored_as_str [of Delivered] by (auto simp: settled_def Let_def mail_status_def)

text \<open>What a commit does to the row of a package.\<close>

lemma reconcile_number_row:
  assumes wf: "wf_deliveries st" and r: "row_for st number = Some r" and st': "reconcile_number number ps now st = Some st'"
  shows "row_for st' number = None \<and> sr_id r \<in> set (dv_owned st)
    \<or> (\<exists>f. row_for st' number = Some (f r) \<and> sr_id (f r) = sr_id r \<and> sr_raw (f r) = sr_raw r \<and> dv_owned st' = dv_owned st
         \<and> (sr_status (f r) = sr_status r \<or> sr_raw r = None \<and> (sr_status r = ''delivered'' \<longrightarrow> sr_status (f r) = ''delivered'' \<or> sr_id r \<in> set (dv_owned st))))"
proof (cases "filter (\<lambda>p. si_number (pr_info p) = number) ps")
  case Nil
  then have e: "st' = retire (sr_id r) now st" using st' r by (simp add: reconcile_number_def)
  show ?thesis
  proof (cases "sr_id r \<in> set (dv_owned st)")
    case True
    then show ?thesis using retire_owned(3) [OF wf r True e] by simp
  next
    case False
    note w = write_row [OF wf r identified_keeps(1,2) retire_legacy [where now = now, OF wf r False]]
    show ?thesis using w(3,4) e by (metis identified_keeps(1,3,4))
  qed
next
  case (Cons latest older)
  let ?c = "if sr_raw r \<noteq> None then Some (sr_status r) else None" and ?managed = "sr_id r \<in> set (dv_owned st)"
  have own: "row_of st (sr_id r) = Some r" using row_of_own [OF wf] row_forD [OF r] by simp
  have e: "st' = rebuild_order_links (sr_id r) (latest # older) (seller_of (latest # older))
      (record_identity (sr_id r) ?managed (latest # older) (sr_update r) (record_newer_mail (sr_id r) ?managed (pr_msg latest) (pr_info latest)
        (mail_status ?managed ?c (sr_status r) (si_status (pr_info latest))) (pr_received latest) st))"
    using st' by (simp add: reconcile_number_def Cons row_or_new_def r own Let_def split: if_splits)
  have hd: "latest = hd (latest # older)" by simp
  note w = write_row [OF wf r settled_keeps(1,2) e [unfolded settle_eq [OF wf own hd]]]
  have "sr_raw r \<noteq> None \<Longrightarrow> sr_status (settled ?managed (latest # older) ?c r) = sr_status r"
    by (auto simp: settled_def Let_def mail_status_def)
  moreover have "sr_status r = ''delivered'' \<Longrightarrow> \<not> ?managed \<Longrightarrow> sr_status (settled ?managed (latest # older) ?c r) = ''delivered''"
    by (rule settled_delivered) auto
  ultimately show ?thesis using w(3,4) by (metis settled_keeps(1,3))
qed

lemma reconcile_all_other:
  assumes "wf_deliveries st" "\<forall>n \<in> set ns. filter (\<lambda>p. si_number (pr_info p) = n) ps = says rx n st" "reconcile_all ns ps now st = Some st'"
  shows "wf_deliveries st' \<and> same_mail st st' \<and> (\<forall>n. n \<notin> set ns \<longrightarrow> same_at n st st')"
  using assms
proof (induction ns arbitrary: st)
  case Nil
  then show ?case by (simp add: same_mail_def same_at_def)
next
  case (Cons number ns)
  obtain st1 where s: "reconcile_number number ps now st = Some st1" "wf_deliveries st1" "same_mail st st1" "\<forall>n. n \<noteq> number \<longrightarrow> same_at n st st1"
    using reconcile_number_mirrors [OF Cons.prems(1), of number ps rx now] Cons.prems(2) by auto
  have "wf_deliveries st' \<and> same_mail st1 st' \<and> (\<forall>n. n \<notin> set ns \<longrightarrow> same_at n st1 st')"
    by (rule Cons.IH [OF s(2)]) (use Cons.prems says_same_mail [OF s(3)] s(1) in auto)
  then show ?case using s(3,4) same_mail_trans same_at_trans by (metis list.set_intros(1,2))
qed

text \<open>What became of a row: it is gone, or it has its id, and its status as the rules have it.\<close>

definition moved_on :: "deliveries \<Rightarrow> shipment_row \<Rightarrow> shipment_row option \<Rightarrow> bool" where
  "moved_on st r r' = (case r' of None \<Rightarrow> sr_id r \<in> set (dv_owned st)
     | Some r' \<Rightarrow> sr_id r' = sr_id r \<and> sr_raw r' = sr_raw r \<and> (sr_status r' = sr_status r
         \<or> sr_raw r = None \<and> (sr_status r = ''delivered'' \<longrightarrow> sr_status r' = ''delivered'' \<or> sr_id r \<in> set (dv_owned st))))"

lemma reconcile_all_row:
  assumes "wf_deliveries st" "\<forall>n \<in> set ns. filter (\<lambda>p. si_number (pr_info p) = n) ps = says rx n st" "distinct ns"
    "reconcile_all ns ps now st = Some st'" "row_for st number = Some r"
  shows "moved_on st r (row_for st' number)"
proof (cases "number \<in> set ns")
  case False
  then have "same_at number st st'" using reconcile_all_other [OF assms(1,2,4)] by blast
  then show ?thesis using assms(5) by (simp add: same_at_def moved_on_def)
next
  case True
  from this assms show ?thesis
  proof (induction ns arbitrary: st)
    case (Cons n ns)
    obtain st1 where s: "reconcile_number n ps now st = Some st1" "wf_deliveries st1" "same_mail st st1" "\<forall>n'. n' \<noteq> n \<longrightarrow> same_at n' st st1"
      using reconcile_number_mirrors [OF Cons.prems(2), of n ps rx now] Cons.prems(3) by auto
    have rest: "reconcile_all ns ps now st1 = Some st'" using Cons.prems(5) s(1) by simp
    have says: "\<forall>n \<in> set ns. filter (\<lambda>p. si_number (pr_info p) = n) ps = says rx n st1"
      using Cons.prems(3) says_same_mail [OF s(3)] by simp
    show ?case
    proof (cases "n = number")
      case True
      then have "same_at number st1 st'" using reconcile_all_other [OF s(2) says rest] Cons.prems(4) by simp
      then have "row_for st' number = row_for st1 number" by (simp add: same_at_def)
      then show ?thesis using reconcile_number_row [OF Cons.prems(2,6) s(1) [unfolded True]] by (auto simp: moved_on_def)
    next
      case False
      then have same: "same_at number st st1" using s(4) by simp
      then have "moved_on st1 r (row_for st' number)"
        using Cons.prems False by (intro Cons.IH s(2) says rest) (auto simp: same_at_def)
      then show ?thesis using same Cons.prems(6) by (simp add: moved_on_def same_at_def split: option.splits)
    qed
  qed simp
qed

lemma commit_row:
  assumes "wf_deliveries st" "row_for st number = Some r"
  shows "moved_on st r (row_for (snd (delivery_step rx (Commit msg d now) st)) number)"
proof -
  let ?st = "st\<lparr>dv_decisions := (dv_decisions st)(msg \<mapsto> d)\<rparr>"
  let ?ns = "sort (remdups ((case dv_decisions st msg of Some d \<Rightarrow> tracking_numbers rx d | None \<Rightarrow> []) @ tracking_numbers rx d))"
  have wf: "wf_deliveries ?st" using assms by (simp add: wf_deliveries_def links_of_def)
  have r: "row_for ?st number = Some r" using assms(2) by (simp add: row_for_def)
  have says: "\<forall>n \<in> set ?ns. filter (\<lambda>p. si_number (pr_info p) = n) (proposals rx ?ns ?st) = says rx n ?st" using says_affected by blast
  show ?thesis
  proof (cases "reconcile rx (dv_decisions st msg) d now ?st")
    case None
    then show ?thesis using assms(2) by (simp add: moved_on_def)
  next
    case (Some st')
    then have "st' = ?st \<or> reconcile_all ?ns (proposals rx ?ns ?st) now ?st = Some st'"
      unfolding reconcile_def Let_def by (metis option.inject)
    then have "moved_on ?st r (row_for st' number)"
      using reconcile_all_row [OF wf says _ _ r] r by (auto simp: moved_on_def)
    then show ?thesis using Some by (simp add: moved_on_def cong: option.case_cong)
  qed
qed







text \<open>C13. A delivered package keeps its row and stays delivered through every answer of a carrier, every failed poll and
  every mail that arrives. Through every commit it stays delivered when the row is older than the
  projection or a carrier has spoken of it; only a row that the projection owns can vanish, with its last
  decision, or, before any carrier has spoken, follow newer mail back.\<close>
theorem delivered_stays_delivered:
  assumes "wf_deliveries st" "row_for st number = Some r" "sr_status r = ''delivered''"
  shows "case row_for (snd (delivery_step rx op st)) number of
      None \<Rightarrow> sr_id r \<in> set (dv_owned st) \<and> (\<exists>msg d now. op = Commit msg d now)
    | Some r' \<Rightarrow> sr_id r' = sr_id r \<and> (sr_status r' = ''delivered''
        \<or> sr_id r \<in> set (dv_owned st) \<and> sr_raw r = None \<and> (\<exists>msg d now. op = Commit msg d now))"
proof (cases op)
  case (Arrive m)
  then show ?thesis using assms by (simp add: row_for_def)
next
  case (Commit msg d now)
  then show ?thesis using commit_row [OF assms(1,2), of rx msg d now] assms(3) by (auto simp: moved_on_def split: option.splits)
next
  case (Poll_Failed i at permanent)
  then show ?thesis using assms by (simp add: record_poll_outcome_def row_for_update)
next
  case (Track i track at)
  have "stored_status ''delivered'' = Delivered" using stored_as_str [of Delivered] by simp
  moreover have "row_of st i = Some x \<Longrightarrow> sr_id r = i \<Longrightarrow> x = r" for x
    using row_of_own [OF assms(1)] row_forD [OF assms(2)] by auto
  ultimately show ?thesis using assms(2,3)
    by (auto simp: Track apply_carrier_track_def Let_def row_for_update split: option.split)
qed

definition shipped_row :: shipment_row where
  "shipped_row = \<lparr>sr_id = 1, sr_number = ''1234567890'', sr_carrier = ''ups'', sr_item = [], sr_item_source = ''regex'', sr_item_msg = None,
     sr_status = ''delivered'', sr_url = None, sr_last_msg = Some 1, sr_first_seen = 0, sr_update = 0, sr_raw = None, sr_eta = None,
     sr_delivered = Some 0, sr_polled = None, sr_answered = None, sr_failures = 0, sr_order_ref = None, sr_merchant = None, sr_merchant_msg = None, sr_created_by = Some 1, sr_cleared = None\<rparr>"

definition lagging_track :: carrier_track where
  "lagging_track = \<lparr>ct_status = Some Shipped, ct_raw = ''IN TRANSIT'', ct_eta = None, ct_delivered = None\<rparr>"

text \<open>A row that the projection owns, and a carrier whose first scan lags behind.\<close>

theorem delivered_stays_delivered_witness:
  "case row_for (snd (delivery_step example_regexes (Track 1 lagging_track 9) (no_deliveries\<lparr>dv_rows := [shipped_row], dv_owned := [1]\<rparr>))) ''1234567890''
    of None \<Rightarrow> False | Some r' \<Rightarrow> sr_id r' = 1 \<and> sr_status r' = ''delivered''"
proof -
  let ?st = "no_deliveries\<lparr>dv_rows := [shipped_row], dv_owned := [1]\<rparr>"
  have "wf_deliveries ?st" "row_for ?st ''1234567890'' = Some shipped_row" "sr_status shipped_row = ''delivered''" "sr_id shipped_row = 1"
    by (simp_all add: no_deliveries_def shipped_row_def wf_deliveries_def links_of_def row_for_def)
  from delivered_stays_delivered [where op = "Track 1 lagging_track 9" and rx = example_regexes, OF this(1-3)] this(4)
  show ?thesis by (simp split: option.splits del: delivery_step.simps)
qed

section \<open>A carrier's word that nobody reads\<close>

text \<open>C14. Once a carrier has answered in words that map to no status, mail no longer moves the status of the row, although
  the carrier has said nothing of it: whatever the newest retained decision says, delivered too, the row
  keeps the status that it had.\<close>
theorem unread_carrier_word_silences_mail:
  assumes "mirrored rx st" "row_for st number = Some r" "ct_status track = None"
    "st' = snd (delivery_step rx (Commit msg d now) (snd (delivery_step rx (Track (sr_id r) track at) st)))" "says rx number st' \<noteq> []"
  shows "\<exists>r'. row_for st' number = Some r' \<and> sr_id r' = sr_id r \<and> stored_status (sr_status r') = stored_status (sr_status r)"
proof -
  let ?st = "snd (delivery_step rx (Track (sr_id r) track at) st)"
  have m: "mirrored rx ?st" "mirrored rx st'" using assms(1,4) delivery_step_mirrors by blast+
  have own: "row_of st (sr_id r) = Some r" using assms(1,2) row_of_own row_forD by (simp add: mirrored_def)
  obtain r1 where r1: "row_for ?st number = Some r1" "sr_id r1 = sr_id r" "sr_raw r1 \<noteq> None" "stored_status (sr_status r1) = stored_status (sr_status r)"
    by (simp add: apply_carrier_track_def own Let_def row_for_update assms(2,3))
  have "moved_on ?st r1 (row_for st' number)" unfolding assms(4) using m(1) r1(1) by (intro commit_row) (simp_all add: mirrored_def)
  moreover have "mirrors rx st' number" using m(2) by (simp add: mirrored_def)
  then have "row_for st' number \<noteq> None" using assms(5) by (cases "row_for st' number") (simp_all add: mirrors_def)
  ultimately show ?thesis using r1 by (auto simp: moved_on_def split: option.splits)
qed

definition shipped_state :: deliveries where
  "shipped_state = final (delivery_step example_regexes) example_ops no_deliveries"

definition answered_state :: deliveries where
  "answered_state = snd (delivery_step example_regexes (Commit 2 (example_decision ''delivered'') 9)
     (snd (delivery_step example_regexes (Track 1 example_track 8) shipped_state)))"

lemma shipped_evaluated:
  "map_option (\<lambda>r. (sr_id r, sr_status r)) (row_for shipped_state ''1234567890'') = Some (1, ''shipped'')"
  "map (\<lambda>p. si_status (pr_info p)) (says example_regexes ''1234567890'' answered_state) = [Delivered, Shipped]"
  by code_simp+

lemma shipped_mirrors: "mirrored example_regexes shipped_state"
proof -
  have "mirrored example_regexes no_deliveries"
    by (simp add: mirrored_def mirrors_def wf_deliveries_def links_of_def row_for_def says_by_mail no_deliveries_def)
  then show ?thesis unfolding shipped_state_def by (rule delivery_machine.inv_final)
qed

theorem unread_carrier_word_silences_mail_witness:
  "(\<exists>r'. row_for answered_state ''1234567890'' = Some r' \<and> stored_status (sr_status r') = Shipped)
    \<and> map (\<lambda>p. si_status (pr_info p)) (says example_regexes ''1234567890'' answered_state) = [Delivered, Shipped]"
proof -
  obtain r where r: "row_for shipped_state ''1234567890'' = Some r" "sr_id r = 1" "sr_status r = ''shipped''"
    using shipped_evaluated(1) by auto
  have "answered_state = snd (delivery_step example_regexes (Commit 2 (example_decision ''delivered'') 9)
      (snd (delivery_step example_regexes (Track (sr_id r) example_track 8) shipped_state)))" by (simp only: answered_state_def r(2))
  moreover have "says example_regexes ''1234567890'' answered_state \<noteq> []" using shipped_evaluated(2) by auto
  moreover have "ct_status example_track = None" by (simp add: example_track_def)
  moreover have "stored_status ''shipped'' = Shipped" using stored_as_str [of Shipped] by simp
  ultimately show ?thesis using unread_carrier_word_silences_mail [OF shipped_mirrors r(1), of example_track answered_state] r(3) shipped_evaluated(2)
    by metis
qed

end
