(* ===== verification/Spec2Isabelle.thy ===== *)
theory Spec2Isabelle
  imports Broker_Sessions Control_Sessions Codes Broker_Validate Device_Tokens Control_Invites
    Control_Tenants Control_Names Control_Users Agent_Leases Agent_Intake Agent_Budget Open_Poller
    Sender_Rules Search_Query Rate_Limit Client_Address Draft_Files Send_Groups Mail_Headers Mail_Reading
    Mail_Promises Mail_Authenticity Recipients Order_Groups Delivery_Promises
begin

text \<open>
  Passband is a mail client with a daemon (\<open>squelch-core\<close>, \<open>squelchd\<close>, \<open>squelch-api\<close>) that syncs, triages
  and stores one person's mail, and with a hosted fleet around it: a consent broker, a control plane
  that signs people up, a warden that provisions a daemon a tenant, and a relay that observes opens
  and pushes. The theories model the parts whose correctness is a matter of state, of order, of
  arithmetic or of text, one theory a component, as it is written in the Rust source.

  How a component is modelled. Its tables are records and lists of rows (\<open>Prelude\<close>); each public
  operation is one function from the state to an answer and a state, guards and early returns in the
  order of the code; each runs under one lock or in one transaction, so concurrent callers are a
  sequence of operations, and \<open>Machine.run\<close> plays any such sequence. Properties over executions
  quantify over every sequence of every operation of the component. An error is a value of a sum or
  an option. The clock and entropy are arguments.

  The library.
    \<^item> \<open>Prelude\<close>: instants, hash maps, SQL tables; the interfaces \<open>ttl_table\<close> (entries that expire) and
      \<open>id_table\<close> (rows with ever-growing ids), interpreted on the rows of the components.
    \<^item> \<open>Machine\<close>: executions; the interfaces \<open>invariant_machine\<close>, \<open>guarded_machine\<close>, \<open>counted_credential\<close> and
      \<open>one_shot\<close> (a credential is redeemed at most as often as it was issued).
    \<^item> \<open>Rows\<close>: \<open>ORDER BY ... LIMIT\<close>, reading a growing table page by page.
    \<^item> \<open>Rust_Text\<close>: the part of \<open>str\<close> and \<open>char\<close> the program uses, on U+0000 to U+00FF.

  The hosted fleet.
    \<^item> \<open>Broker_Sessions\<close> (\<open>squelch-broker/src/sessions.rs\<close>) and \<open>Broker_Validate\<close> (\<open>validate.rs\<close>): a session
      is handed over at most once, the first outcome parked wins, and the consent page shows the
      scopes the link asks for.
    \<^item> \<open>Control_Sessions\<close> (\<open>squelch-control/src/sessions.rs\<close>): the table of pending OAuth flows and the
      share of it that strangers can fill.
    \<^item> \<open>Labels\<close>, \<open>Warden_Validate\<close>, \<open>Codes\<close> (\<open>labels.rs\<close>, \<open>invites.rs\<close>, \<open>squelch-warden/src/validate.rs\<close>,
      \<open>device_tokens.rs\<close>): what crosses the wire between control plane, warden and daemon; the two ends
      agree on it.
    \<^item> \<open>Control_Invites\<close>, \<open>Control_Tenants\<close>, \<open>Control_Users\<close>, \<open>Control_Names\<close> (\<open>squelch-control/src/store.rs\<close>):
      the control plane's database: invites spent once and held for their holder, one daemon a
      mailbox, the quota of shared invites, people who only move forward, and the migration of old
      tenants. \<open>Control_Users\<close> composes all three tables.
    \<^item> \<open>Rate_Limit\<close>, \<open>Client_Address\<close> (\<open>squelch-ratelimit/src/lib.rs\<close>, \<open>squelch-relay/src/config.rs\<close>,
      \<open>ratelimit.rs\<close>): the token buckets, and the address a request is metered under, which is the proxy's word
      while the line that the proxy wrote to is readable, and the caller's own when it is not.
    \<^item> \<open>Open_Buffer\<close> (\<open>squelch-relay/src/opens.rs\<close>, \<open>handlers.rs\<close>): the relay's buffer of observed opens.

  The daemon.
    \<^item> \<open>Device_Tokens\<close> (\<open>device_tokens.rs\<close>): pairing codes and device tokens, their audit rows.
    \<^item> \<open>Agent_Jobs\<close>, \<open>Agent_Leases\<close>, \<open>Agent_Intake\<close> (\<open>agent_triage.rs\<close>): the durable queue of the triage agent,
      what its leases guarantee, and how mail becomes work and loses access. \<open>Agent_Budget\<close>
      (\<open>agent_budget.rs\<close>, \<open>triage_stages.rs\<close>) bounds what the agent may spend a day.
    \<^item> \<open>Mail_Events\<close> (\<open>events.rs\<close>): the notification log and the devices; \<open>Open_Poller\<close> (\<open>tracking.rs\<close>): the
      poller that drains \<open>Open_Buffer\<close> into the daemon's store, the two composed in one system whose
      steps include lost answers and cuts.
    \<^item> \<open>Sender_Rules\<close> (\<open>rules.rs\<close>) and \<open>Search_Query\<close> (\<open>search_query.rs\<close>): the glob matcher, a loop, and the
      search box's two languages.
    \<^item> \<open>Draft_Files\<close> (\<open>drafts.rs\<close>, \<open>outbound.rs\<close>, \<open>load_send_attachments\<close> in \<open>handlers.rs\<close>): drafts, the files staged
      for them, and what a send carries. \<open>Send_Groups\<close> (\<open>groups.rs\<close>, \<open>group_send.rs\<close>): named audiences, the
      fan-out to one and the history read page by page. Both show what follows from row ids that SQLite
      hands out again.

    \<^item> \<open>Mail_Headers\<close>, \<open>Mail_Encoding\<close>, \<open>Mail_Compose\<close>, \<open>Mail_Reading\<close> (\<open>gmail_write.rs\<close>, the choice of recipients in
      \<open>action_send\<close>): whom a reply goes to, given headers a stranger wrote; quoted-printable, boundaries and
      parameters; replies and forwards with their files; and that a reader of messages finds in them
      what was composed and nothing else.

    \<^item> \<open>Gmail_Calls\<close>, \<open>Mail_Sync\<close>, \<open>Mail_Gaps\<close>, \<open>Mail_Promises\<close> (\<open>squelch-core/src/sync/mod.rs\<close>, the ingest of
      \<open>store/sqlite/messages.rs\<close>): one call of Gmail, paced and retried; the backfill, the polls and the cursor that says
      how far the mailbox was read; what a Gmail that behaves as documented can lose; and what the store
      keeps whatever Gmail answers.
    \<^item> \<open>Mail_Authenticity\<close>, \<open>Recipients\<close> (\<open>sync/ingest.rs\<close>): whether a mail is from whom it says, given headers that its
      sender wrote; to whom a sent mail went, shown, indexed, read back, and who of them becomes a contact.
    \<^item> \<open>Order_Groups\<close> (\<open>triage/order_link.rs\<close>, \<open>shipment_cards_conn\<close> of \<open>store/sqlite/specialists.rs\<close>): which packages are one
      purchase, found by union-find over their orders, and which package stands for it on its card.
    \<^item> \<open>Delivery_Words\<close>, \<open>Deliveries\<close>, \<open>Delivery_Promises\<close> (\<open>store/sqlite/agent_deliveries.rs\<close>, \<open>triage/shipment.rs\<close>,
      \<open>triage/extract/shipments.rs\<close>): the rows of packages as the projection of the decisions on mail, what a
      carrier's answers write on them, and the laundering of what a model read.

  What a specification rests on. Where a property says what a loop over answers, headers or lines has done, it
  says it of an inductive relation or a reading of its own (\<open>served\<close>, \<open>answered\<close>, \<open>lex\<close>, \<open>globs\<close>, \<open>values_of\<close>,
  \<open>field_of\<close>, \<open>linked\<close>), not of the function that the code calls for it.

  Kinds of lemmas. Each stateful theory has its invariant, that every operation keeps it, and the
  interpretation of an interface from which the properties over executions follow; each textual one
  has what its output means (\<open>globs\<close>, \<open>lex\<close>) and that the code computes it. \<open>Agent_Budget\<close> refines the
  ledger to a count of the runs that stand; \<open>Rate_Limit\<close> the pruned table to one that forgets nothing.

  Termination and bounds. Every function is total: recursion is structural or over a list, but for the
  glob loop and the closure of reading access, which are \<open>while_option\<close>s with a measure and are proved
  to return; the drain of the poller has the rows left as its measure. The walks over Gmail's pages end
  when Gmail says so: they are \<open>partial_function (option)\<close>, where \<open>None\<close> is a walk that never ends, and
  for a Gmail that serves a chain of pages with an end they are proved to return. \<open>find_root\<close>, which halves its path
  as it climbs, is one too, and returns from every state that the grouping reaches. No fuel is used. Counters that
  Rust keeps in an \<open>i64\<close> or \<open>usize\<close> are integers or naturals: no operation takes them near their limit,
  except ids, which would take longer than the universe has. Bits and bytes are words.

  Parameters. SHA-256, base64url, the URL parser, the RFC 3339 renderer, the parsers of dates, addresses,
  messages and integers, base64, the regular expressions that launder the words of a delivery, the digest that a late boundary carries, the
  rounding of \<open>f64\<close> and the network are arguments of the definitions that use them; a property that
  needs something of one says so, and its witness has a concrete one.

  Not modelled. What only calls a service: OAuth (\<open>squelch-core/src/auth\<close>), the lanes of
  the sync engine and its sweeps over old mail, embeddings, the
  models (\<open>triage/llm.rs\<close> and the prompts), APNs, Kubernetes objects and reconciliation
  (\<open>squelch-warden\<close>), mail delivery and the gateway (\<open>squelch-control\<close>); the HTTP handlers and pages but
  those named; configuration; SQLite and Postgres themselves, whose failures roll a call back; regular
  expressions, and so the pattern batteries; the Swift, desktop and terminal clients and the site.
\<close>

end
